(* ===== verification/Varnish_Prelude.thy ===== *)
theory Varnish_Prelude
  imports Main "HOL-Library.Word" "HOL-Library.Monad_Syntax"
begin

text \<open>
  What the component theories share.

  \<^item> The machine types of the C sources on the LP64 platforms Varnish supports: \<open>unsigned\<close> is
    a 32 bit word, pointers and \<open>uintptr_t\<close> are 64 bit words with 0 for \<open>NULL\<close>.
  \<^item> Assertions. Every \<open>assert\<close>, \<open>AN\<close>, \<open>AZ\<close>, \<open>xxxassert\<close> and \<open>CHECK_OBJ\<close> of the sources
    calls \<open>VAS_Fail\<close> when it does not hold, which panics the process
    (\<^verbatim>\<open>include/vas.h\<close>). An operation that can panic returns an \<open>option\<close>: \<open>None\<close> is the
    panic, and \<open>assert_c\<close> is the assertion inside a \<open>do\<close> block.
  \<^item> Memory as a map from addresses to bytes, with \<open>memcpy\<close>.
  \<^item> Generic lemmas about words, options and lists, collected in the named theorems
    \<open>word_nat\<close> (words read as natural numbers) and \<open>panic_simps\<close> (the assertion monad).
\<close>

unbundle bit_operations_syntax

subsection \<open>Types\<close>

type_synonym u8 = "8 word"
type_synonym u16 = "16 word"
type_synonym u32 = "32 word"
type_synonym u64 = "64 word"
type_synonym mem = "u64 \<Rightarrow> char"

abbreviation NULL :: u64 where
  "NULL \<equiv> 0"

abbreviation NUL :: char where
  "NUL \<equiv> CHR 0x00"

subsection \<open>Assertions\<close>

definition assert_c :: "bool \<Rightarrow> unit option" where
  "assert_c b = (if b then Some () else None)"

named_theorems panic_simps \<open>the assertion monad\<close>
named_theorems word_nat \<open>words read as natural numbers\<close>

lemma assert_c_simps [panic_simps, simp]:
  "assert_c True = Some ()"
  "assert_c False = None"
  by (simp_all add: assert_c_def)

lemma assert_c_eq_Some [panic_simps, simp]:
  "assert_c b = Some u \<longleftrightarrow> b"
  by (simp add: assert_c_def)

lemma assert_c_eq_None [panic_simps, simp]:
  "assert_c b = None \<longleftrightarrow> \<not> b"
  by (simp add: assert_c_def)

lemma assert_c_bind [panic_simps]:
  "(assert_c b \<bind> f) = (if b then f () else None)"
  by (simp add: assert_c_def)

lemma assert_c_bind_eq_Some [panic_simps]:
  "(assert_c b \<bind> f) = Some x \<longleftrightarrow> b \<and> f () = Some x"
  by (simp add: assert_c_def)

subsection \<open>Memory\<close>

definition memcpy :: "mem \<Rightarrow> u64 \<Rightarrow> char list \<Rightarrow> mem" where
  "memcpy m p xs = (\<lambda>a. if unat (a - p) < length xs then xs ! unat (a - p) else m a)"

lemma memcpy_inside:
  assumes "i < length xs" and "length xs \<le> 2 ^ 64"
  shows "memcpy m p xs (p + of_nat i) = xs ! i"
proof -
  have "unat (of_nat i :: u64) = i"
    using assms by (simp add: unat_of_nat)
  then show ?thesis
    using assms by (simp add: memcpy_def)
qed

lemma memcpy_outside:
  "\<not> unat (a - p) < length xs \<Longrightarrow> memcpy m p xs a = m a"
  by (simp add: memcpy_def)

subsection \<open>Words read as natural numbers\<close>

lemma unat_add_nowrap [word_nat]:
  fixes a b :: "'a::len word"
  assumes "unat a + unat b < 2 ^ LENGTH('a)"
  shows "unat (a + b) = unat a + unat b"
  using assms by (simp add: unat_word_ariths)

lemma unat_sub_le [word_nat]:
  fixes a b :: "'a::len word"
  assumes "unat b \<le> unat a"
  shows "unat (a - b) = unat a - unat b"
  using assms by (simp add: unat_sub word_le_nat_alt)

lemma unat_u32_bound [simp]:
  "unat (x :: u32) < 4294967296"
  using unsigned_less [of x] by simp

lemma unat_u64_bound [simp]:
  "unat (x :: u64) < 18446744073709551616"
  using unsigned_less [of x] by simp

lemma len64: "LENGTH(64) = 64"
  by simp

lemma len32: "LENGTH(32) = 32"
  by simp

lemma unat_ucast_up32 [word_nat, simp]:
  "unat (ucast (x :: u32) :: u64) = unat x"
proof -
  have "unat x < 2 ^ 64"
    by (rule less_trans [OF unat_u32_bound]) simp
  then show ?thesis
    by (simp only: unsigned_ucast_eq take_bit_eq_mod mod_less len64)
qed

lemma unat_ucast_down32 [word_nat]:
  "unat (ucast (x :: u64) :: u32) = unat x mod 2 ^ 32"
  by (simp add: unsigned_ucast_eq take_bit_eq_mod)

lemma ucast_u32_id [simp]:
  "ucast (ucast (x :: u32) :: u64) = x"
proof -
  have "unat (ucast (ucast x :: u64) :: u32) = unat x"
    by (simp add: unat_ucast_down32)
  then show ?thesis by (simp only: word_unat_eq_iff)
qed

lemma unat_take_bit [word_nat]:
  fixes x :: "'a::len word"
  shows "unat (take_bit n x) = unat x mod 2 ^ n"
  by (subst unsigned_take_bit_eq) (rule take_bit_eq_mod)

lemma unat_and_mask:
  fixes x :: "'a::len word"
  shows "unat (x AND mask n) = unat x mod 2 ^ n"
  by (simp add: unat_take_bit flip: take_bit_eq_mask)

lemma and_not_mask_eq_sub:
  fixes x :: "'a::len word"
  shows "x AND NOT (mask n) = x - take_bit n x"
proof -
  have "x = (x AND mask n) OR (x AND NOT (mask n))"
    by (simp add: bit_eq_iff bit_simps) blast
  also have "\<dots> = (x AND mask n) + (x AND NOT (mask n))"
    by (rule disjunctive_add [symmetric]) (simp add: bit_simps)
  finally show ?thesis
    by (metis add_diff_cancel_left' take_bit_eq_mask)
qed

lemma unat_and_not_mask:
  fixes x :: "'a::len word"
  shows "unat (x AND NOT (mask n)) = 2 ^ n * (unat x div 2 ^ n)"
proof -
  have "unat (take_bit n x) \<le> unat x"
    by (simp add: unat_take_bit)
  then have "unat (x - take_bit n x) = unat x - unat x mod 2 ^ n"
    by (simp only: unat_sub_le unat_take_bit)
  then show ?thesis
    by (simp add: and_not_mask_eq_sub minus_mod_eq_mult_div)
qed

lemma unat_of_nat_small [word_nat]:
  "n < 2 ^ LENGTH('a) \<Longrightarrow> unat (of_nat n :: 'a::len word) = n"
  by (simp add: unat_of_nat)

lemma word_eq_add_of_nat:
  fixes a b :: "'a::len word"
  assumes "unat b = unat a + n"
  shows "b = a + of_nat n"
proof -
  have "unat a + n < 2 ^ LENGTH('a)"
    using unsigned_less [of b] by (simp flip: assms)
  then show ?thesis
    by (simp only: word_unat_eq_iff assms) (simp add: unat_add_nowrap unat_of_nat_small)
qed

lemma int_less_uint [word_nat]:
  "int n < uint w \<longleftrightarrow> n < unat w"
  by (metis of_nat_less_iff of_nat_unat)

lemma uint_le_int [word_nat]:
  "uint w \<le> int n \<longleftrightarrow> unat w \<le> n"
  by (metis of_nat_le_iff of_nat_unat)

subsection \<open>Rounding up to a multiple of eight\<close>

lemma round8_shift:
  fixes a p :: nat
  assumes "8 dvd a" and "a \<le> p"
  shows "a + 8 * ((p - a + 7) div 8) = 8 * ((p + 7) div 8)"
proof -
  from assms(1) obtain k where k: "a = 8 * k" by (elim dvdE)
  have "(p + 7) div 8 = (p - a + 7 + k * 8) div 8"
    using assms(2) k by simp
  also have "\<dots> = k + (p - a + 7) div 8"
    by (rule div_mult_self1) simp
  finally show ?thesis by (simp add: k)
qed

lemma round8_le:
  fixes p r :: nat
  assumes "8 dvd r" and "p \<le> r"
  shows "8 * ((p + 7) div 8) \<le> r"
proof -
  from assms(1) obtain k where k: "r = 8 * k" by (elim dvdE)
  have "p + 7 < (k + 1) * 8"
    using assms(2) k by simp
  then have "(p + 7) div 8 < k + 1"
    by (rule less_mult_imp_div_less)
  then show ?thesis by (simp add: k)
qed

subsection \<open>Comparing bytes\<close>

text \<open>
  \<open>memcmp\<close> of two buffers of the same length: the sign of the first difference, bytes
  compared as unsigned characters.
\<close>

fun memcmp :: "u8 list \<Rightarrow> u8 list \<Rightarrow> int" where
  "memcmp (x # xs) (y # ys) = (if x = y then memcmp xs ys else if x < y then -1 else 1)"
| "memcmp _ _ = 0"

lemma memcmp_refl [simp]: "memcmp xs xs = 0"
  by (induction xs) auto

lemma memcmp_eq_0_iff:
  "length xs = length ys \<Longrightarrow> memcmp xs ys = 0 \<longleftrightarrow> xs = ys"
  by (induction xs ys rule: list_induct2) auto

lemma memcmp_swap: "memcmp ys xs = - memcmp xs ys"
  by (induction xs ys rule: memcmp.induct) (auto simp: not_less_iff_gr_or_eq)

lemma memcmp_less_trans:
  assumes "length xs = length ys" and "length ys = length zs"
    and "memcmp xs ys < 0" and "memcmp ys zs < 0"
  shows "memcmp xs zs < 0"
  using assms
proof (induction xs ys zs rule: list_induct3)
  case (Cons x xs y ys z zs)
  then show ?case by (auto split: if_splits)
qed simp

end
