(* ===== verification/Workspace.thy ===== *)
theory Workspace
  imports Varnish_Prelude
begin

text \<open>
  The workspace allocator, \<^verbatim>\<open>bin/varnishd/cache_ws.c\<close> with the alignment macros and
  \<open>struct ws\<close> of \<^verbatim>\<open>bin/varnishd/cache.h\<close>.

  A workspace is a byte range from \<open>ws_s\<close> to \<open>ws_e\<close> with a free pointer \<open>ws_f\<close>; while
  \<open>ws_r\<close> is not \<open>NULL\<close> the range from \<open>ws_f\<close> to \<open>ws_r\<close> is reserved by one client.
  Pointers are 64 bit words, sizes are 32 bit words, as in C; the debug log lines
  (\<open>DSL\<close>), the magic number and the identity string are left out.
  The theorems are stated for workspaces that satisfy \<open>ws_ok\<close>: the conditions \<open>WS_Assert\<close>
  checks, and that the buffer is no longer than an \<open>unsigned\<close> can count and does not lie in
  the last 4 GB of the address space, both of which \<open>WS_Init\<close> establishes.
\<close>

subsection \<open>Alignment macros\<close>

definition PALGN :: u64 where
  "PALGN = 8 - 1"

definition PAOK :: "u64 \<Rightarrow> bool" where
  "PAOK p \<longleftrightarrow> p AND PALGN = 0"

definition PRNDDN :: "u64 \<Rightarrow> u64" where
  "PRNDDN p = p AND NOT PALGN"

definition PRNDUP :: "u64 \<Rightarrow> u64" where
  "PRNDUP p = (p + PALGN) AND NOT PALGN"

subsection \<open>State\<close>

record ws =
  ws_overflow :: u32
  ws_s :: u64
  ws_f :: u64
  ws_r :: u64
  ws_e :: u64

definition pdiff :: "u64 \<Rightarrow> u64 \<Rightarrow> u32 option" where
  "pdiff b e = do { assert_c (b \<le> e); Some (ucast (e - b)) }"

subsection \<open>Operations\<close>

definition WS_Assert :: "ws \<Rightarrow> bool" where
  "WS_Assert w \<longleftrightarrow>
     ws_s w \<noteq> NULL \<and> PAOK (ws_s w) \<and>
     ws_e w \<noteq> NULL \<and> PAOK (ws_e w) \<and>
     ws_s w < ws_e w \<and>
     ws_f w \<ge> ws_s w \<and> ws_f w \<le> ws_e w \<and> PAOK (ws_f w) \<and>
     (ws_r w = NULL \<or> ws_r w > ws_s w \<and> ws_r w \<le> ws_e w \<and> PAOK (ws_r w))"

definition WS_Init :: "u64 \<Rightarrow> u32 \<Rightarrow> ws option" where
  "WS_Init space len = do {
     assert_c (space \<noteq> NULL);
     assert_c (PAOK space);
     assert_c (PAOK (ucast len));
     let w = \<lparr>ws_overflow = 0, ws_s = space, ws_f = space, ws_r = NULL,
              ws_e = space + ucast len\<rparr>;
     assert_c (WS_Assert w);
     Some w
   }"

definition WS_Reset :: "ws \<Rightarrow> u64 \<Rightarrow> ws option" where
  "WS_Reset w p = do {
     assert_c (WS_Assert w);
     assert_c (ws_r w = NULL);
     w' \<leftarrow> (if p = NULL then Some (w\<lparr>ws_f := ws_s w\<rparr>)
           else do {
             assert_c (p \<ge> ws_s w);
             assert_c (p < ws_e w);
             Some (w\<lparr>ws_f := p\<rparr>)
           });
     assert_c (WS_Assert w');
     Some w'
   }"

definition WS_Alloc :: "ws \<Rightarrow> u32 \<Rightarrow> (ws \<times> u64) option" where
  "WS_Alloc w bytes0 = do {
     assert_c (WS_Assert w);
     let bytes = (ucast (PRNDUP (ucast bytes0)) :: u32);
     assert_c (ws_r w = NULL);
     if ws_f w + ucast bytes > ws_e w then do {
       let w' = w\<lparr>ws_overflow := ws_overflow w + 1\<rparr>;
       assert_c (WS_Assert w');
       Some (w', NULL)
     } else do {
       let r = ws_f w;
       let w' = w\<lparr>ws_f := ws_f w + ucast bytes\<rparr>;
       assert_c (WS_Assert w');
       Some (w', r)
     }
   }"

definition WS_Dup :: "ws \<Rightarrow> mem \<Rightarrow> string \<Rightarrow> (ws \<times> mem \<times> u64) option" where
  "WS_Dup w m s = do {
     assert_c (WS_Assert w);
     let l = (of_nat (length s + 1) :: u32);
     (w', p) \<leftarrow> WS_Alloc w l;
     let m' = (if p \<noteq> NULL then memcpy m p (take (unat l) (s @ [NUL])) else m);
     assert_c (WS_Assert w');
     Some (w', m', p)
   }"

definition WS_Free :: "ws \<Rightarrow> u32 option" where
  "WS_Free w = do { assert_c (WS_Assert w); Some (ucast (ws_e w - ws_f w)) }"

definition WS_Snapshot :: "ws \<Rightarrow> u64 option" where
  "WS_Snapshot w = do { assert_c (WS_Assert w); assert_c (ws_r w = NULL); Some (ws_f w) }"

definition WS_Reserve :: "ws \<Rightarrow> u32 \<Rightarrow> (ws \<times> u32) option" where
  "WS_Reserve w bytes = do {
     assert_c (WS_Assert w);
     assert_c (ws_r w = NULL);
     let b2 = (if bytes = 0 then ucast (ws_e w - ws_f w)
               else if uint bytes > sint (ws_e w - ws_f w) then ucast (ws_e w - ws_f w)
               else bytes);
     let b2 = (ucast (PRNDDN (ucast b2)) :: u32);
     assert_c (ws_f w + ucast b2 \<le> ws_e w);
     let w' = w\<lparr>ws_r := ws_f w + ucast b2\<rparr>;
     assert_c (WS_Assert w');
     n \<leftarrow> pdiff (ws_f w') (ws_r w');
     Some (w', n)
   }"

definition WS_Release :: "ws \<Rightarrow> u32 \<Rightarrow> ws option" where
  "WS_Release w bytes0 = do {
     assert_c (WS_Assert w);
     let bytes = (ucast (PRNDUP (ucast bytes0)) :: u32);
     assert_c (uint bytes \<le> sint (ws_e w - ws_f w));
     assert_c (ws_r w \<noteq> NULL);
     assert_c (ws_f w + ucast bytes \<le> ws_r w);
     let w' = w\<lparr>ws_f := ws_f w + ucast bytes, ws_r := NULL\<rparr>;
     assert_c (WS_Assert w');
     Some w'
   }"

definition WS_ReleaseP :: "ws \<Rightarrow> u64 \<Rightarrow> ws option" where
  "WS_ReleaseP w ptr = do {
     assert_c (WS_Assert w);
     assert_c (ws_r w \<noteq> NULL);
     assert_c (ptr \<ge> ws_f w);
     assert_c (ptr \<le> ws_r w);
     let w' = w\<lparr>ws_f := ws_f w + PRNDUP (ptr - ws_f w), ws_r := NULL\<rparr>;
     assert_c (WS_Assert w');
     Some w'
   }"

subsection \<open>The invariant\<close>

definition ws_ok :: "ws \<Rightarrow> bool" where
  "ws_ok w \<longleftrightarrow> WS_Assert w \<and> unat (ws_e w) - unat (ws_s w) < 2 ^ 32 \<and>
     unat (ws_e w) + 2 ^ 32 \<le> 2 ^ 64"

text \<open>A sequence of requests, as a request handler makes them: the pieces handed out.\<close>

fun ws_alloc_run :: "ws \<Rightarrow> u32 list \<Rightarrow> (ws \<times> (u64 \<times> u32) list) option" where
  "ws_alloc_run w [] = Some (w, [])"
| "ws_alloc_run w (b # bs) = do {
     (w', p) \<leftarrow> WS_Alloc w b;
     (w'', ps) \<leftarrow> ws_alloc_run w' bs;
     Some (w'', if p = NULL then ps else (p, b) # ps)
   }"

text \<open>A 64 byte workspace, for the concrete instances.\<close>

definition ws_example :: ws where
  "ws_example = \<lparr>ws_overflow = 0, ws_s = 0x1000, ws_f = 0x1000, ws_r = NULL, ws_e = 0x1040\<rparr>"

subsection \<open>Alignment lemmas\<close>

lemma PALGN_mask: "PALGN = mask 3"
  by (simp add: PALGN_def mask_eq_exp_minus_1)

lemma PAOK_dvd [word_nat]: "PAOK p \<longleftrightarrow> 8 dvd unat p"
proof -
  have "PAOK p \<longleftrightarrow> unat (p AND mask 3) = 0"
    by (simp add: PAOK_def PALGN_mask unsigned_eq_0_iff)
  also have "\<dots> \<longleftrightarrow> unat p mod 8 = 0"
    by (simp only: unat_and_mask) simp
  finally show ?thesis by (simp add: dvd_eq_mod_eq_0)
qed

lemma unat_PRNDDN [word_nat]: "unat (PRNDDN p) = 8 * (unat p div 8)"
  by (simp add: PRNDDN_def PALGN_mask unat_and_not_mask)

lemma unat_PRNDUP [word_nat]:
  assumes "unat p + 7 < 2 ^ 64"
  shows "unat (PRNDUP p) = 8 * ((unat p + 7) div 8)"
proof -
  have "unat (p + mask 3) = unat p + 7"
    using assms by (subst unat_add_nowrap) (simp_all add: mask_eq_exp_minus_1)
  then show ?thesis
    by (simp add: PRNDUP_def PALGN_mask unat_and_not_mask)
qed

lemma unat_round_bytes [word_nat]:
  "unat (ucast (PRNDUP (ucast (b :: u32))) :: u32) = 8 * ((unat b + 7) div 8) mod 2 ^ 32"
proof -
  have "unat (ucast b :: u64) + 7 < 2 ^ 64"
    using unat_u32_bound [of b] by (simp del: unat_u32_bound)
  then show ?thesis
    by (simp only: unat_ucast_down32 unat_PRNDUP unat_ucast_up32)
qed

lemma round_bytes_small:
  assumes "unat (b :: u32) \<le> 2 ^ 32 - 8"
  shows "8 * ((unat b + 7) div 8) mod 2 ^ 32 = 8 * ((unat b + 7) div 8)"
  using assms by (intro mod_less) simp

lemma round_down_bytes [word_nat]:
  "unat (ucast (PRNDDN (ucast (b :: u32))) :: u32) = 8 * (unat b div 8)"
proof -
  have "8 * (unat b div 8) < 2 ^ 32"
    using unat_u32_bound [of b] by (simp del: unat_u32_bound)
  then show ?thesis
    by (simp only: unat_ucast_down32 unat_PRNDDN unat_ucast_up32 mod_less)
qed

subsection \<open>The invariant over natural numbers\<close>

lemma null_iff: "p = NULL \<longleftrightarrow> unat p = 0"
  by (simp add: unsigned_eq_0_iff)

lemmas word_order_nat = word_le_nat_alt word_less_nat_alt

lemma ws_ok_nat:
  "ws_ok w \<longleftrightarrow>
     0 < unat (ws_s w) \<and> 8 dvd unat (ws_s w) \<and> 8 dvd unat (ws_e w) \<and>
     unat (ws_s w) < unat (ws_e w) \<and>
     unat (ws_s w) \<le> unat (ws_f w) \<and> unat (ws_f w) \<le> unat (ws_e w) \<and> 8 dvd unat (ws_f w) \<and>
     (unat (ws_r w) = 0 \<or>
      unat (ws_s w) < unat (ws_r w) \<and> unat (ws_r w) \<le> unat (ws_e w) \<and> 8 dvd unat (ws_r w)) \<and>
     unat (ws_e w) - unat (ws_s w) < 2 ^ 32 \<and> unat (ws_e w) + 2 ^ 32 \<le> 2 ^ 64"
  unfolding ws_ok_def WS_Assert_def PAOK_dvd word_order_nat null_iff by auto

lemma ws_ok_Assert [simp]: "ws_ok w \<Longrightarrow> WS_Assert w"
  by (simp add: ws_ok_def)

lemma ws_f_add_u32:
  assumes "ws_ok w"
  shows "unat (ws_f w + ucast (b :: u32)) = unat (ws_f w) + unat b"
  using assms unat_u32_bound [of b]
  by (subst unat_add_nowrap) (auto simp: ws_ok_nat simp del: unat_u32_bound)

lemma ws_room:
  assumes "ws_ok w"
  shows "unat (ws_e w - ws_f w) = unat (ws_e w) - unat (ws_f w)"
    and "unat (ws_e w) - unat (ws_f w) < 2 ^ 32"
  using assms by (auto simp: ws_ok_nat unat_sub_le)

lemma ws_room_sint:
  assumes "ws_ok w"
  shows "sint (ws_e w - ws_f w) = int (unat (ws_e w) - unat (ws_f w))"
proof -
  have "uint (ws_e w - ws_f w) = int (unat (ws_e w) - unat (ws_f w))"
    by (simp flip: ws_room(1) [OF assms])
  moreover have "\<dots> < 2 ^ 63"
    using ws_room(2) [OF assms] by simp
  ultimately show ?thesis
    by (simp add: sint_uint signed_take_bit_int_eq_self)
qed

lemma ws_room_u32:
  assumes "ws_ok w"
  shows "unat (ucast (ws_e w - ws_f w) :: u32) = unat (ws_e w) - unat (ws_f w)"
  using ws_room [OF assms] by (simp add: unat_ucast_down32)

lemmas ws_arith = ws_f_add_u32 ws_room ws_room_sint ws_room_u32

subsection \<open>What each operation does\<close>

lemma WS_Init_ok:
  assumes "space \<noteq> NULL" and "PAOK space" and "PAOK (ucast len)" and "0 < unat len"
    and "unat space + 2 ^ 33 \<le> 2 ^ 64"
  shows "\<exists>w. WS_Init space len = Some w \<and> ws_ok w \<and> ws_s w = space \<and> ws_f w = space \<and>
    ws_r w = NULL \<and> unat (ws_e w) = unat space + unat len \<and> ws_overflow w = 0"
proof -
  have e: "unat (space + ucast len) = unat space + unat len"
    using assms(5) unat_u32_bound [of len]
    by (subst unat_add_nowrap) (simp_all del: unat_u32_bound)
  have d: "8 dvd unat space" "8 dvd unat len"
    using assms(2,3) by (simp_all add: PAOK_dvd)
  let ?w = "\<lparr>ws_overflow = 0, ws_s = space, ws_f = space, ws_r = NULL, ws_e = space + ucast len\<rparr>"
  have "ws_ok ?w"
    using assms d e unat_u32_bound [of len] by (simp add: ws_ok_nat null_iff del: unat_u32_bound)
  then show ?thesis
    using assms e by (simp add: WS_Init_def Let_def)
qed

lemma WS_Alloc_fits:
  assumes ok: "ws_ok w" and nr: "ws_r w = NULL"
    and n: "n = 8 * ((unat b + 7) div 8) mod 2 ^ 32"
    and fits: "unat (ws_f w) + n \<le> unat (ws_e w)"
  shows "\<exists>w'. WS_Alloc w b = Some (w', ws_f w) \<and> ws_ok w' \<and>
    unat (ws_f w') = unat (ws_f w) + n \<and> w' = w\<lparr>ws_f := ws_f w'\<rparr>"
proof -
  let ?b = "ucast (PRNDUP (ucast b)) :: u32"
  have b: "unat ?b = n" by (simp only: unat_round_bytes n)
  have f: "unat (ws_f w + ucast ?b) = unat (ws_f w) + n"
    by (simp only: ws_f_add_u32 [OF ok] b)
  have "8 dvd n" by (simp add: n dvd_mod)
  then have "ws_ok (w\<lparr>ws_f := ws_f w + ucast ?b\<rparr>)"
    using ok fits nr by (auto simp: ws_ok_nat f)
  moreover have "\<not> ws_e w < ws_f w + ucast ?b"
    using fits by (simp add: word_less_nat_alt f)
  ultimately show ?thesis
    using ok nr f by (auto simp: WS_Alloc_def Let_def)
qed

lemma WS_Alloc_full:
  assumes ok: "ws_ok w" and nr: "ws_r w = NULL"
    and n: "n = 8 * ((unat b + 7) div 8) mod 2 ^ 32"
    and full: "unat (ws_e w) < unat (ws_f w) + n"
  shows "WS_Alloc w b = Some (w\<lparr>ws_overflow := ws_overflow w + 1\<rparr>, NULL)"
proof -
  let ?b = "ucast (PRNDUP (ucast b)) :: u32"
  have "unat (ws_f w + ucast ?b) = unat (ws_f w) + n"
    by (simp only: ws_f_add_u32 [OF ok] unat_round_bytes n)
  then have "ws_e w < ws_f w + ucast ?b"
    using full by (simp add: word_less_nat_alt)
  moreover have "WS_Assert (w\<lparr>ws_overflow := ws_overflow w + 1\<rparr>)"
    using ws_ok_Assert [OF ok] by (simp add: WS_Assert_def)
  ultimately show ?thesis
    using ok nr by (simp add: WS_Alloc_def Let_def)
qed

lemma ws_ok_overflow [simp]: "ws_ok (w\<lparr>ws_overflow := k\<rparr>) = ws_ok w"
  by (simp add: ws_ok_nat)

lemma ws_f_pos: "ws_ok w \<Longrightarrow> ws_f w \<noteq> NULL"
  by (auto simp: ws_ok_nat null_iff)

lemma WS_Reserve_spec:
  assumes ok: "ws_ok w" and nr: "ws_r w = NULL"
    and n: "n = 8 * ((if bytes = 0 then unat (ws_e w) - unat (ws_f w)
        else min (unat bytes) (unat (ws_e w) - unat (ws_f w))) div 8)"
    and pos: "unat (ws_s w) < unat (ws_f w) + n"
  shows "\<exists>w'. WS_Reserve w bytes = Some (w', of_nat n) \<and> ws_ok w' \<and> ws_r w' \<noteq> NULL \<and>
    unat (ws_r w') = unat (ws_f w) + n \<and> w' = w\<lparr>ws_r := ws_r w'\<rparr>"
proof -
  let ?b1 = "if bytes = 0 then ucast (ws_e w - ws_f w)
      else if uint bytes > sint (ws_e w - ws_f w) then ucast (ws_e w - ws_f w) else bytes"
  let ?b = "ucast (PRNDDN (ucast ?b1)) :: u32"
  have b1: "unat ?b1 = (if bytes = 0 then unat (ws_e w) - unat (ws_f w)
      else min (unat bytes) (unat (ws_e w) - unat (ws_f w)))"
    by (simp add: ws_arith [OF ok] int_less_uint min_def)
  have b: "unat ?b = n" by (simp only: round_down_bytes b1 n)
  have r: "unat (ws_f w + ucast ?b) = unat (ws_f w) + n"
    by (simp only: ws_f_add_u32 [OF ok] b)
  have le: "unat (ws_f w) + n \<le> unat (ws_e w)"
  proof -
    have "n \<le> unat (ws_e w) - unat (ws_f w)"
      unfolding n by (auto intro: order_trans [OF times_div_less_eq_dividend])
    then show ?thesis using ok unfolding ws_ok_nat by linarith
  qed
  have "8 dvd unat (ws_f w) + n"
    using ok by (simp add: ws_ok_nat n)
  then have ok': "ws_ok (w\<lparr>ws_r := ws_f w + ucast ?b\<rparr>)"
    using ok le pos by (auto simp: ws_ok_nat r)
  have "ws_f w \<le> ws_f w + ucast ?b" "ws_f w + ucast ?b \<le> ws_e w"
    using le by (simp_all add: word_le_nat_alt r)
  moreover have "(ucast (ws_f w + ucast ?b - ws_f w) :: u32) = of_nat n"
    by (simp flip: b)
  moreover have "ws_f w + ucast ?b \<noteq> NULL"
    using pos unfolding null_iff r by linarith
  ultimately show ?thesis
    using ok nr ok' r by (simp add: WS_Reserve_def pdiff_def Let_def)
qed

lemma WS_Release_spec:
  assumes ok: "ws_ok w" and res: "ws_r w \<noteq> NULL"
    and n: "n = 8 * ((unat bytes + 7) div 8)" and small: "n < 2 ^ 32"
    and le: "unat (ws_f w) + n \<le> unat (ws_r w)"
  shows "\<exists>w'. WS_Release w bytes = Some w' \<and> ws_ok w' \<and>
    unat (ws_f w') = unat (ws_f w) + n \<and> w' = w\<lparr>ws_f := ws_f w', ws_r := NULL\<rparr>"
proof -
  let ?b = "ucast (PRNDUP (ucast bytes)) :: u32"
  have b: "unat ?b = n" using small n by (simp only: unat_round_bytes mod_less)
  have f: "unat (ws_f w + ucast ?b) = unat (ws_f w) + n"
    by (simp only: ws_f_add_u32 [OF ok] b)
  have re: "unat (ws_r w) \<le> unat (ws_e w)"
    using ok res by (auto simp: ws_ok_nat null_iff)
  have "8 dvd unat (ws_f w) + n"
    using ok by (simp add: ws_ok_nat n)
  then have "ws_ok (w\<lparr>ws_f := ws_f w + ucast ?b, ws_r := NULL\<rparr>)"
    using ok le re by (auto simp: ws_ok_nat f)
  moreover have "uint ?b \<le> sint (ws_e w - ws_f w)"
    using le re by (simp only: ws_room_sint [OF ok] uint_le_int b)
  moreover have "ws_f w + ucast ?b \<le> ws_r w"
    using le by (simp add: word_le_nat_alt f)
  ultimately show ?thesis
    using ok res f by (simp add: WS_Release_def Let_def)
qed

lemma WS_ReleaseP_spec:
  assumes ok: "ws_ok w" and res: "ws_r w \<noteq> NULL" and p: "ws_f w \<le> p" "p \<le> ws_r w"
  shows "\<exists>w'. WS_ReleaseP w p = Some w' \<and> ws_ok w' \<and>
    unat (ws_f w') = 8 * ((unat p + 7) div 8) \<and> w' = w\<lparr>ws_f := ws_f w', ws_r := NULL\<rparr>"
proof -
  have nat: "unat (ws_f w) \<le> unat p" "unat p \<le> unat (ws_r w)" "8 dvd unat (ws_f w)"
    "8 dvd unat (ws_r w)" "unat (ws_r w) \<le> unat (ws_e w)" "unat (ws_e w) + 2 ^ 32 \<le> 2 ^ 64"
    using ok res p by (auto simp: ws_ok_nat null_iff word_le_nat_alt)
  define k where "k = 8 * ((unat p - unat (ws_f w) + 7) div 8)"
  have d: "unat (p - ws_f w) = unat p - unat (ws_f w)"
    using nat by (simp add: unat_sub_le)
  have k: "unat (PRNDUP (p - ws_f w)) = k"
    unfolding k_def using nat d by (subst unat_PRNDUP) simp_all
  have fk: "unat (ws_f w) + k = 8 * ((unat p + 7) div 8)"
    unfolding k_def using nat by (intro round8_shift)
  have le: "unat (ws_f w) + k \<le> unat (ws_r w)"
    unfolding fk using nat by (intro round8_le)
  have f: "unat (ws_f w + PRNDUP (p - ws_f w)) = unat (ws_f w) + k"
    using nat le by (subst unat_add_nowrap) (simp_all add: k)
  have "ws_ok (w\<lparr>ws_f := ws_f w + PRNDUP (p - ws_f w), ws_r := NULL\<rparr>)"
    using ok nat le by (auto simp: ws_ok_nat f k_def)
  then show ?thesis
    using ok res p f fk by (simp add: WS_ReleaseP_def Let_def)
qed

subsection \<open>Allocation as an interface\<close>

text \<open>
  What the clients of an allocator that hands out consecutive pieces of one buffer rely on:
  a successful call returns the start of a piece that lies between the old and the new free
  mark, a failing one leaves the mark alone, and the mark never passes the limit. From
  these laws alone, pieces handed out by any sequence of calls do not overlap.
\<close>

locale bump_allocator =
  fixes alloc :: "'w \<Rightarrow> 'n \<Rightarrow> ('w \<times> u64) option"
    and inv :: "'w \<Rightarrow> bool"
    and admissible :: "'n \<Rightarrow> bool"
    and extent :: "'n \<Rightarrow> nat"
    and mark :: "'w \<Rightarrow> nat"
    and limit :: "'w \<Rightarrow> nat"
  assumes alloc_returns: "inv w \<Longrightarrow> admissible n \<Longrightarrow> alloc w n \<noteq> None"
    and alloc_inv: "inv w \<Longrightarrow> admissible n \<Longrightarrow> alloc w n = Some (w', p) \<Longrightarrow> inv w'"
    and alloc_limit: "inv w \<Longrightarrow> admissible n \<Longrightarrow> alloc w n = Some (w', p) \<Longrightarrow> limit w' = limit w"
    and alloc_mark: "inv w \<Longrightarrow> admissible n \<Longrightarrow> alloc w n = Some (w', p) \<Longrightarrow> mark w \<le> mark w'"
    and alloc_piece: "inv w \<Longrightarrow> admissible n \<Longrightarrow> alloc w n = Some (w', p) \<Longrightarrow> p \<noteq> NULL \<Longrightarrow>
      mark w \<le> unat p \<and> unat p + extent n \<le> mark w'"
    and mark_limit: "inv w \<Longrightarrow> mark w \<le> limit w"
begin

fun alloc_run :: "'w \<Rightarrow> 'n list \<Rightarrow> ('w \<times> (u64 \<times> 'n) list) option" where
  "alloc_run w [] = Some (w, [])"
| "alloc_run w (n # ns) = do {
     (w', p) \<leftarrow> alloc w n;
     (w'', ps) \<leftarrow> alloc_run w' ns;
     Some (w'', if p = NULL then ps else (p, n) # ps)
   }"

lemma alloc_run_returns:
  "inv w \<Longrightarrow> list_all admissible ns \<Longrightarrow> \<exists>w' ps. alloc_run w ns = Some (w', ps)"
proof (induction ns arbitrary: w)
  case (Cons n ns)
  then obtain w' p where a: "alloc w n = Some (w', p)"
    using alloc_returns by force
  then have "inv w'" using Cons.prems alloc_inv by auto
  then show ?case using Cons a by fastforce
qed simp

lemma alloc_run_pieces:
  assumes "inv w" and "list_all admissible ns" and "alloc_run w ns = Some (w', ps)"
  shows "inv w' \<and> limit w' = limit w \<and> mark w \<le> mark w' \<and>
    (\<forall>(p, n) \<in> set ps. mark w \<le> unat p \<and> unat p + extent n \<le> mark w') \<and>
    sorted_wrt (\<lambda>(p, n) (q, m). unat p + extent n \<le> unat q) ps"
  using assms
proof (induction ns arbitrary: w ps)
  case (Cons n ns)
  then obtain w1 p ps1 where a: "alloc w n = Some (w1, p)" and r: "alloc_run w1 ns = Some (w', ps1)"
    and ps: "ps = (if p = NULL then ps1 else (p, n) # ps1)"
    by (auto split: Option.bind_splits)
  have n: "admissible n" and ns: "list_all admissible ns"
    using Cons.prems by auto
  note law = alloc_inv [OF Cons.prems(1) n a] alloc_limit [OF Cons.prems(1) n a]
    alloc_mark [OF Cons.prems(1) n a] alloc_piece [OF Cons.prems(1) n a]
  have IH: "inv w' \<and> limit w' = limit w1 \<and> mark w1 \<le> mark w' \<and>
      (\<forall>(p, n) \<in> set ps1. mark w1 \<le> unat p \<and> unat p + extent n \<le> mark w') \<and>
      sorted_wrt (\<lambda>(p, n) (q, m). unat p + extent n \<le> unat q) ps1"
    using Cons.IH [OF law(1) ns r] .
  show ?case
  proof (cases "p = NULL")
    case True
    with IH law ps show ?thesis by fastforce
  next
    case False
    with IH law ps show ?thesis by fastforce
  qed
qed simp

end

interpretation wsa: bump_allocator WS_Alloc "\<lambda>w. ws_ok w \<and> ws_r w = NULL"
    "\<lambda>b. unat b \<le> 2 ^ 32 - 8" unat "\<lambda>w. unat (ws_f w)" "\<lambda>w. unat (ws_e w)"
proof -
  have step: "ws_ok w' \<and> ws_r w' = NULL \<and> ws_e w' = ws_e w \<and> unat (ws_f w) \<le> unat (ws_f w') \<and>
      (p \<noteq> NULL \<longrightarrow> unat (ws_f w) \<le> unat p \<and> unat p + unat b \<le> unat (ws_f w'))"
    if ok: "ws_ok w \<and> ws_r w = NULL" and b: "unat b \<le> 2 ^ 32 - 8"
      and a: "WS_Alloc w b = Some (w', p)" for w w' b p
  proof -
    define n where "n = 8 * ((unat b + 7) div 8) mod 2 ^ 32"
    have n: "unat b \<le> n"
      unfolding n_def round_bytes_small [OF b] by simp
    show ?thesis
    proof (cases "unat (ws_f w) + n \<le> unat (ws_e w)")
      case True
      obtain w1 where w1: "WS_Alloc w b = Some (w1, ws_f w)" "ws_ok w1"
        "unat (ws_f w1) = unat (ws_f w) + n" "w1 = w\<lparr>ws_f := ws_f w1\<rparr>"
        using WS_Alloc_fits [OF _ _ n_def True] ok by blast
      then have "ws_r w1 = ws_r w \<and> ws_e w1 = ws_e w"
        by (metis ws.surjective ws.update_convs(3) ws.select_convs(4,5))
      with w1 a ok n show ?thesis by simp
    next
      case False
      then show ?thesis
        using WS_Alloc_full [OF _ _ n_def] ok a by auto
    qed
  qed
  have ret: "WS_Alloc w b \<noteq> None" if "ws_ok w \<and> ws_r w = NULL" for w b
    using WS_Alloc_fits [OF _ _ refl] WS_Alloc_full [OF _ _ refl] that
    by (metis not_le option.distinct(1))
  show "bump_allocator WS_Alloc (\<lambda>w. ws_ok w \<and> ws_r w = NULL) (\<lambda>b. unat b \<le> 2 ^ 32 - 8)
      unat (\<lambda>w. unat (ws_f w)) (\<lambda>w. unat (ws_e w))"
  proof (unfold_locales, goal_cases)
    case 1 then show ?case using ret by blast
  next
    case 2 then show ?case using step by blast
  next
    case 3 then show ?case using step by metis
  next
    case 4 then show ?case using step by metis
  next
    case 5 then show ?case using step by blast
  next
    case 6 then show ?case by (simp add: ws_ok_nat)
  qed
qed

lemma ws_alloc_run_eq: "ws_alloc_run w bs = wsa.alloc_run w bs"
  by (induction bs arbitrary: w) (auto split: Option.bind_splits)

lemma ws_alloc_run_returns:
  assumes "ws_ok w" and "ws_r w = NULL" and "list_all (\<lambda>b. unat b \<le> 2 ^ 32 - 8) bs"
  shows "\<exists>w' ps. ws_alloc_run w bs = Some (w', ps) \<and> ws_ok w' \<and> ws_r w' = NULL"
  using wsa.alloc_run_returns [OF conjI [OF assms(1,2)] assms(3)]
    wsa.alloc_run_pieces [OF conjI [OF assms(1,2)] assms(3)]
  unfolding ws_alloc_run_eq by blast

lemma ws_example_ok: "ws_ok ws_example" "ws_r ws_example = NULL"
  by (simp_all add: ws_example_def ws_ok_nat)

subsection \<open>Properties\<close>

text \<open>
  C12: any sequence of requests, each of at most \<open>2 ^ 32 - 8\<close> bytes, to a workspace that is not reserved runs to the end without
  a panic, and the pieces it hands out lie inside the buffer and do not overlap, in the order
  they were requested.
\<close>
theorem ws_alloc_run_disjoint:
  assumes "ws_ok w" and "ws_r w = NULL" and "list_all (\<lambda>b. unat b \<le> 2 ^ 32 - 8) bs"
  shows "\<exists>w' ps. ws_alloc_run w bs = Some (w', ps) \<and> ws_ok w' \<and> ws_r w' = NULL \<and>
    list_all (\<lambda>(p, b). unat (ws_f w) \<le> unat p \<and> unat p + unat b \<le> unat (ws_e w)) ps \<and>
    sorted_wrt (\<lambda>(p, b) (q, c). unat p + unat b \<le> unat q) ps"
proof -
  have inv: "ws_ok w \<and> ws_r w = NULL" using assms by simp
  obtain w' ps where run: "wsa.alloc_run w bs = Some (w', ps)"
    using wsa.alloc_run_returns [OF inv assms(3)] by blast
  have "unat (ws_f w') \<le> unat (ws_e w')" if "ws_ok w'"
    using that by (simp add: ws_ok_nat)
  with run wsa.alloc_run_pieces [OF inv assms(3) run] show ?thesis
    by (auto simp: ws_alloc_run_eq list_all_iff)
qed

theorem ws_alloc_run_disjoint_witness:
  "\<exists>w' ps. ws_alloc_run ws_example [5, 9, 60, 8] = Some (w', ps) \<and> ws_ok w' \<and> ws_r w' = NULL \<and>
    list_all (\<lambda>(p, b). unat (ws_f ws_example) \<le> unat p \<and> unat p + unat b \<le> unat (ws_e ws_example)) ps \<and>
    sorted_wrt (\<lambda>(p, b) (q, c). unat p + unat b \<le> unat q) ps"
  by (rule ws_alloc_run_disjoint) (simp_all add: ws_example_ok)

text \<open>
  C19: a request of at most 2^32 - 8 bytes succeeds exactly when the request, rounded up to
  eight bytes, fits in what is left; it then returns the old free pointer and advances it by the
  rounded size. Otherwise it returns \<open>NULL\<close> and only counts the overflow.
\<close>
theorem WS_Alloc_exact:
  assumes "ws_ok w" and "ws_r w = NULL" and "unat b \<le> 2 ^ 32 - 8"
  shows "WS_Alloc w b = Some
    (if 8 * ((unat b + 7) div 8) \<le> unat (ws_e w) - unat (ws_f w)
     then (w\<lparr>ws_f := ws_f w + of_nat (8 * ((unat b + 7) div 8))\<rparr>, ws_f w)
     else (w\<lparr>ws_overflow := ws_overflow w + 1\<rparr>, NULL))"
proof -
  define n where "n = 8 * ((unat b + 7) div 8) mod 2 ^ 32"
  have n: "n = 8 * ((unat b + 7) div 8)"
    by (simp only: n_def round_bytes_small [OF assms(3)])
  have fe: "unat (ws_f w) \<le> unat (ws_e w)"
    using assms(1) by (simp add: ws_ok_nat)
  show ?thesis
  proof (cases "n \<le> unat (ws_e w) - unat (ws_f w)")
    case True
    then have fits: "unat (ws_f w) + n \<le> unat (ws_e w)" using fe by simp
    obtain w' where w': "WS_Alloc w b = Some (w', ws_f w)"
      "unat (ws_f w') = unat (ws_f w) + n" "w' = w\<lparr>ws_f := ws_f w'\<rparr>"
      using WS_Alloc_fits [OF assms(1,2) n_def fits] by blast
    have "ws_f w' = ws_f w + of_nat n"
      using w'(2) by (rule word_eq_add_of_nat)
    with w' True n show ?thesis by simp
  next
    case False
    then show ?thesis
      using WS_Alloc_full [OF assms(1,2) n_def] fe n by simp
  qed
qed

theorem WS_Alloc_exact_witness:
  "WS_Alloc ws_example 13 = Some (ws_example\<lparr>ws_f := 0x1010\<rparr>, 0x1000)"
  using WS_Alloc_exact [OF ws_example_ok, of 13] by (simp add: ws_example_def)

text \<open>
  A request of more than 2^32 - 8 bytes rounds up to zero in the \<open>unsigned\<close> variable, so
  it is granted: the caller gets a pointer that is not \<open>NULL\<close> and no byte of the workspace.
\<close>
theorem WS_Alloc_wraps:
  assumes "ws_ok w" and "ws_r w = NULL" and "2 ^ 32 - 8 < unat b"
  shows "WS_Alloc w b = Some (w, ws_f w) \<and> ws_f w \<noteq> NULL"
proof -
  have "(unat b + 7) div 8 = 2 ^ 29"
    using assms(3) unat_u32_bound [of b]
    by (intro div_nat_eqI) (simp_all del: unat_u32_bound)
  then have n: "0 = 8 * ((unat b + 7) div 8) mod 2 ^ 32" by simp
  have "unat (ws_f w) + 0 \<le> unat (ws_e w)"
    using assms(1) by (simp add: ws_ok_nat)
  from WS_Alloc_fits [OF assms(1,2) n this] obtain w' where
    w': "WS_Alloc w b = Some (w', ws_f w)" "unat (ws_f w') = unat (ws_f w)" "w' = w\<lparr>ws_f := ws_f w'\<rparr>"
    by auto
  then have "ws_f w' = ws_f w" by (simp only: word_unat_eq_iff)
  with w' ws_f_pos [OF assms(1)] show ?thesis by simp
qed

theorem WS_Alloc_wraps_witness:
  "WS_Alloc ws_example 0xfffffffa = Some (ws_example, 0x1000)"
  using WS_Alloc_wraps [OF ws_example_ok, of "0xfffffffa"] by (simp add: ws_example_def)

text \<open>
  Duplicating a string that fits places the string and its terminating NUL at the
  returned address, inside the workspace, and changes no other byte of memory.
\<close>
theorem WS_Dup_copies:
  assumes "ws_ok w" and "ws_r w = NULL"
    and "8 * ((length s + 8) div 8) \<le> unat (ws_e w) - unat (ws_f w)"
  shows "\<exists>w' m'. WS_Dup w m s = Some (w', m', ws_f w) \<and> ws_ok w' \<and>
    (\<forall>i \<le> length s. m' (ws_f w + of_nat i) = (s @ [NUL]) ! i) \<and>
    (\<forall>a. length s < unat (a - ws_f w) \<longrightarrow> m' a = m a) \<and>
    unat (ws_f w) + length s < unat (ws_f w')"
proof -
  let ?l = "of_nat (length s + 1) :: u32"
  have small: "length s + 1 < 2 ^ 32"
    using assms(3) ws_room(2) [OF assms(1)] by linarith
  then have l: "unat ?l = length s + 1"
    by (simp only: unat_of_nat len32 mod_less)
  define n where "n = 8 * ((unat ?l + 7) div 8) mod 2 ^ 32"
  have n: "n = 8 * ((length s + 8) div 8)"
  proof -
    have "8 * ((length s + 8) div 8) < 2 ^ 32"
      using assms(3) ws_room(2) [OF assms(1)] by linarith
    then show ?thesis unfolding n_def l by simp
  qed
  have fits: "unat (ws_f w) + n \<le> unat (ws_e w)"
    using assms n unfolding ws_ok_nat by linarith
  obtain w' where w': "WS_Alloc w ?l = Some (w', ws_f w)" "ws_ok w'"
    "unat (ws_f w') = unat (ws_f w) + n"
    using WS_Alloc_fits [OF assms(1,2) n_def fits] by blast
  let ?m = "memcpy m (ws_f w) (s @ [NUL])"
  have "WS_Dup w m s = Some (w', ?m, ws_f w)"
    using w' assms(1) l ws_f_pos [OF assms(1)] by (simp add: WS_Dup_def Let_def)
  moreover have "\<forall>i \<le> length s. ?m (ws_f w + of_nat i) = (s @ [NUL]) ! i"
    using small by (intro allI impI memcpy_inside) simp_all
  moreover have "\<forall>a. length s < unat (a - ws_f w) \<longrightarrow> ?m a = m a"
    by (simp add: memcpy_def)
  moreover have "length s < n" unfolding n by simp
  ultimately show ?thesis using w' by auto
qed

theorem WS_Dup_copies_witness:
  "\<exists>w' m'. WS_Dup ws_example (\<lambda>_. NUL) ''Host'' = Some (w', m', ws_f ws_example) \<and> ws_ok w' \<and>
    (\<forall>i \<le> length ''Host''. m' (ws_f ws_example + of_nat i) = (''Host'' @ [NUL]) ! i) \<and>
    (\<forall>a. length ''Host'' < unat (a - ws_f ws_example) \<longrightarrow> m' a = NUL) \<and>
    unat (ws_f ws_example) + length ''Host'' < unat (ws_f w')"
  by (rule WS_Dup_copies [OF ws_example_ok]) (simp add: ws_example_def)

lemma WS_Alloc_frame:
  "WS_Alloc w b = Some (w', p) \<Longrightarrow> ws_s w' = ws_s w \<and> ws_e w' = ws_e w"
  by (auto simp: WS_Alloc_def Let_def panic_simps split: if_splits)

lemma ws_alloc_run_frame:
  "ws_alloc_run w bs = Some (w', ps) \<Longrightarrow> ws_s w' = ws_s w \<and> ws_e w' = ws_e w"
proof (induction bs arbitrary: w ps)
  case (Cons b bs)
  then show ?case by (fastforce dest: WS_Alloc_frame split: Option.bind_splits)
qed simp

text \<open>
  C20: a snapshot taken before any sequence of requests gives back all the space they used
  when the workspace is reset to it, unless the workspace was already full at the snapshot:
  then \<open>WS_Reset\<close> panics, because it asserts that the pointer is below the end.
\<close>
theorem WS_Snapshot_Reset:
  assumes "ws_ok w" and "ws_r w = NULL" and "list_all (\<lambda>b. unat b \<le> 2 ^ 32 - 8) bs"
    and "ws_alloc_run w bs = Some (w', ps)"
  shows "WS_Snapshot w = Some (ws_f w) \<and>
    WS_Reset w' (ws_f w) = (if ws_f w < ws_e w then Some (w'\<lparr>ws_f := ws_f w\<rparr>) else None)"
proof -
  have ok': "ws_ok w'" "ws_r w' = NULL"
    using ws_alloc_run_returns [OF assms(1-3)] assms(4) by auto
  have fr: "ws_s w' = ws_s w" "ws_e w' = ws_e w"
    using ws_alloc_run_frame [OF assms(4)] by auto
  have "ws_ok (w'\<lparr>ws_f := ws_f w\<rparr>)"
    using ok' fr assms(1) by (simp add: ws_ok_nat)
  moreover have "ws_s w \<le> ws_f w"
    using assms(1) by (simp add: ws_ok_nat word_le_nat_alt)
  ultimately show ?thesis
    using assms(1,2) ok' fr ws_f_pos [OF assms(1)]
    by (simp add: WS_Snapshot_def WS_Reset_def panic_simps)
qed

theorem WS_Snapshot_Reset_witness:
  "\<exists>w' ps. ws_alloc_run ws_example [5, 9] = Some (w', ps) \<and> WS_Snapshot ws_example = Some 0x1000 \<and>
    WS_Reset w' 0x1000 = Some (w'\<lparr>ws_f := 0x1000\<rparr>)"
proof -
  have small: "list_all (\<lambda>b. unat b \<le> 2 ^ 32 - 8) [5, 9 :: u32]" by simp
  obtain w' ps where run: "ws_alloc_run ws_example [5, 9] = Some (w', ps)"
    using ws_alloc_run_returns [OF ws_example_ok small] by blast
  from WS_Snapshot_Reset [OF ws_example_ok small run] run show ?thesis
    by (simp add: ws_example_def)
qed

text \<open>
  Reserving hands out the requested bytes (all that is left for a request of zero),
  cut to what is left and rounded down to eight; releasing any part of it ends the reservation
  and keeps that part, rounded up. Neither call panics unless nothing could be reserved at the
  very start of the buffer.
\<close>
theorem WS_Reserve_Release:
  assumes ok: "ws_ok w" and nr: "ws_r w = NULL"
    and n: "n = 8 * ((if bytes = 0 then unat (ws_e w) - unat (ws_f w)
        else min (unat bytes) (unat (ws_e w) - unat (ws_f w))) div 8)"
    and pos: "unat (ws_s w) < unat (ws_f w) + n" and m: "unat m \<le> n"
  shows "\<exists>w1 w2. WS_Reserve w bytes = Some (w1, of_nat n) \<and> WS_Release w1 m = Some w2 \<and>
    ws_ok w2 \<and> ws_r w2 = NULL \<and> unat (ws_f w2) = unat (ws_f w) + 8 * ((unat m + 7) div 8)"
proof -
  obtain w1 where w1: "WS_Reserve w bytes = Some (w1, of_nat n)" "ws_ok w1" "ws_r w1 \<noteq> NULL"
    "unat (ws_r w1) = unat (ws_f w) + n" "w1 = w\<lparr>ws_r := ws_r w1\<rparr>"
    using WS_Reserve_spec [OF ok nr n pos] by blast
  have f: "ws_f w1 = ws_f w" by (subst w1(5)) simp
  have k: "8 * ((unat m + 7) div 8) \<le> n"
    using m by (intro round8_le) (simp_all add: n)
  have "n < 2 ^ 32"
  proof -
    have "n \<le> unat (ws_e w) - unat (ws_f w)"
      unfolding n by (auto intro: order_trans [OF times_div_less_eq_dividend])
    then show ?thesis using ws_room(2) [OF ok] by linarith
  qed
  then have "\<exists>w2. WS_Release w1 m = Some w2 \<and> ws_ok w2 \<and>
      unat (ws_f w2) = unat (ws_f w1) + 8 * ((unat m + 7) div 8) \<and> w2 = w1\<lparr>ws_f := ws_f w2, ws_r := NULL\<rparr>"
    using w1 k f by (intro WS_Release_spec [OF _ _ refl]) simp_all
  then obtain w2 where "WS_Release w1 m = Some w2" "ws_ok w2"
      "unat (ws_f w2) = unat (ws_f w) + 8 * ((unat m + 7) div 8)" "w2 = w1\<lparr>ws_f := ws_f w2, ws_r := NULL\<rparr>"
    unfolding f by blast
  moreover from this have "ws_r w2 = NULL" by (metis ws.select_convs(4) ws.surjective ws.update_convs(4))
  ultimately show ?thesis using w1(1) by blast
qed

theorem WS_Reserve_Release_witness:
  "\<exists>w1 w2. WS_Reserve ws_example 30 = Some (w1, of_nat 24) \<and> WS_Release w1 10 = Some w2 \<and>
    ws_ok w2 \<and> ws_r w2 = NULL \<and>
    unat (ws_f w2) = unat (ws_f ws_example) + 8 * ((unat (10 :: u32) + 7) div 8)"
  by (rule WS_Reserve_Release [OF ws_example_ok]) (simp_all add: ws_example_def)

end
