(* ===== verification/Hash_Slinger.thy ===== *)
theory Hash_Slinger
  imports Varnish_Prelude
begin

text \<open>
  Object heads and the contract of a hash implementation,
  \<^verbatim>\<open>bin/varnishd/hash_slinger.h\<close>.

  A \<open>struct objhead\<close> lives in a store indexed by references (the pointers of the C code).
  The hash implementations (\<^verbatim>\<open>hash_simple_list.c\<close>, \<^verbatim>\<open>hash_classic.c\<close>,
  \<^verbatim>\<open>hash_critbit.c\<close>) keep heads findable by digest and count references to them.
  The locale \<open>hash_slinger\<close> states what \<open>cache_hash.c\<close> relies on; the three
  implementations interpret it. The mutexes are not state: every model operation is one
  critical section of the code. A reference count is an unbounded integer where the code has an
  \<open>int\<close> of 32 bits: more than two thousand million references to one head are not considered.
\<close>

subsection \<open>Object heads\<close>

type_synonym oh_ref = nat
type_synonym oc_ref = nat
type_synonym sess_ref = nat

definition DIGEST_LEN :: nat where
  "DIGEST_LEN = 32"

record objhead =
  oh_refcnt :: int
  oh_objcs :: "oc_ref list"
  oh_digest :: "u8 list"
  oh_waitinglist :: "sess_ref list option"
  oh_hoh_head :: "nat option"

type_synonym oh_store = "oh_ref \<Rightarrow> objhead"

abbreviation oh_add_ref :: "oh_store \<Rightarrow> oh_ref \<Rightarrow> int \<Rightarrow> oh_store" where
  "oh_add_ref hs oh k \<equiv> hs(oh := hs oh\<lparr>oh_refcnt := oh_refcnt (hs oh) + k\<rparr>)"

abbreviation digest_of :: "oh_store \<Rightarrow> oh_ref \<Rightarrow> u8 list" where
  "digest_of hs oh \<equiv> oh_digest (hs oh)"

text \<open>What a hash implementation may read or write of a head that is hashed.\<close>

definition same_hash_part :: "objhead \<Rightarrow> objhead \<Rightarrow> bool" where
  "same_hash_part a b \<longleftrightarrow> oh_refcnt a = oh_refcnt b \<and> oh_digest a = oh_digest b \<and>
     oh_hoh_head a = oh_hoh_head b"

text \<open>What the users of the hash own of a head: the object list and the waiting list.\<close>

definition same_user_part :: "objhead \<Rightarrow> objhead \<Rightarrow> bool" where
  "same_user_part a b \<longleftrightarrow> oh_objcs a = oh_objcs b \<and> oh_digest a = oh_digest b \<and>
     oh_waitinglist a = oh_waitinglist b"

text \<open>The abstract hash: a map from digests to the head and its reference count.\<close>

definition hash_abs :: "oh_ref set \<Rightarrow> oh_store \<Rightarrow> (u8 list \<rightharpoonup> oh_ref \<times> int)" where
  "hash_abs S hs d = (if \<exists>oh \<in> S. digest_of hs oh = d
     then Some (let oh = (THE oh. oh \<in> S \<and> digest_of hs oh = d) in (oh, oh_refcnt (hs oh)))
     else None)"

text \<open>Its two operations: enter a digest with a spare head, release a head.\<close>

definition hash_enter :: "(u8 list \<rightharpoonup> oh_ref \<times> int) \<Rightarrow> u8 list \<Rightarrow> oh_ref \<Rightarrow> oh_ref \<times> int" where
  "hash_enter m d noh = (case m d of None \<Rightarrow> (noh, 1) | Some (oh, k) \<Rightarrow> (oh, k + 1))"

definition hash_leave :: "oh_ref \<times> int \<Rightarrow> (oh_ref \<times> int) option" where
  "hash_leave p = (if snd p = 1 then None else Some (fst p, snd p - 1))"

subsection \<open>The contract\<close>

locale hash_slinger =
  fixes prep :: "'st \<Rightarrow> 'st"
    and lookup :: "'st \<Rightarrow> oh_store \<Rightarrow> oh_ref \<Rightarrow> ('st \<times> oh_store \<times> oh_ref) option"
    and deref :: "'st \<Rightarrow> oh_store \<Rightarrow> oh_ref \<Rightarrow> ('st \<times> oh_store \<times> bool) option"
    and heads :: "'st \<Rightarrow> oh_ref set"
    and inv :: "'st \<Rightarrow> oh_store \<Rightarrow> bool"
  assumes inv_digest: "inv st hs \<Longrightarrow> a \<in> heads st \<Longrightarrow> length (digest_of hs a) = DIGEST_LEN"
    and inv_unique: "inv st hs \<Longrightarrow> a \<in> heads st \<Longrightarrow> b \<in> heads st \<Longrightarrow>
      digest_of hs a = digest_of hs b \<Longrightarrow> a = b"
    and inv_refcnt: "inv st hs \<Longrightarrow> a \<in> heads st \<Longrightarrow> 0 < oh_refcnt (hs a)"
    and inv_frame: "inv st hs \<Longrightarrow> (\<And>a. a \<in> heads st \<Longrightarrow> same_hash_part (hs a) (hs' a)) \<Longrightarrow> inv st hs'"
    and lookup_hit: "inv st hs \<Longrightarrow> oh \<in> heads st \<Longrightarrow> noh \<notin> heads st \<Longrightarrow> oh_refcnt (hs noh) = 1 \<Longrightarrow>
      digest_of hs oh = digest_of hs noh \<Longrightarrow>
      \<exists>st'. lookup (prep st) hs noh = Some (st', oh_add_ref hs oh 1, oh) \<and>
        heads st' = heads st \<and> inv st' (oh_add_ref hs oh 1)"
    and lookup_miss: "inv st hs \<Longrightarrow> noh \<notin> heads st \<Longrightarrow> oh_refcnt (hs noh) = 1 \<Longrightarrow>
      length (digest_of hs noh) = DIGEST_LEN \<Longrightarrow>
      (\<And>oh. oh \<in> heads st \<Longrightarrow> digest_of hs oh \<noteq> digest_of hs noh) \<Longrightarrow>
      \<exists>st' h. lookup (prep st) hs noh = Some (st', hs(noh := h), noh) \<and>
        same_user_part h (hs noh) \<and> oh_refcnt h = 1 \<and>
        heads st' = insert noh (heads st) \<and> inv st' (hs(noh := h))"
    and deref_more: "inv st hs \<Longrightarrow> oh \<in> heads st \<Longrightarrow> 1 < oh_refcnt (hs oh) \<Longrightarrow>
      \<exists>st'. deref st hs oh = Some (st', oh_add_ref hs oh (-1), True) \<and>
        heads st' = heads st \<and> inv st' (oh_add_ref hs oh (-1))"
    and deref_last: "inv st hs \<Longrightarrow> oh \<in> heads st \<Longrightarrow> oh_refcnt (hs oh) = 1 \<Longrightarrow>
      oh_objcs (hs oh) = [] \<Longrightarrow> oh_waitinglist (hs oh) = None \<Longrightarrow>
      \<exists>st' r. deref st hs oh = Some (st', oh_add_ref hs oh (-1), r) \<and>
        heads st' = heads st - {oh} \<and> inv st' (oh_add_ref hs oh (-1))"
    and prep_ok: "inv st hs \<Longrightarrow> inv (prep st) hs \<and> heads (prep st) = heads st"
begin

lemma abs_Some_iff:
  assumes "inv st hs"
  shows "hash_abs (heads st) hs d = Some (oh, n) \<longleftrightarrow> oh \<in> heads st \<and> digest_of hs oh = d \<and> oh_refcnt (hs oh) = n"
proof
  assume a: "hash_abs (heads st) hs d = Some (oh, n)"
  then obtain x where x: "x \<in> heads st" "digest_of hs x = d"
    by (auto simp: hash_abs_def split: if_splits)
  then have "(THE oh. oh \<in> heads st \<and> digest_of hs oh = d) = x"
    using inv_unique [OF assms] by (intro the_equality) auto
  with a x show "oh \<in> heads st \<and> digest_of hs oh = d \<and> oh_refcnt (hs oh) = n"
    by (auto simp: hash_abs_def Let_def split: if_splits)
next
  assume a: "oh \<in> heads st \<and> digest_of hs oh = d \<and> oh_refcnt (hs oh) = n"
  then have "(THE oh. oh \<in> heads st \<and> digest_of hs oh = d) = oh"
    using inv_unique [OF assms] by (intro the_equality) auto
  with a show "hash_abs (heads st) hs d = Some (oh, n)"
    by (auto simp: hash_abs_def Let_def)
qed

lemma abs_None_iff: "hash_abs (heads st) hs d = None \<longleftrightarrow> (\<forall>oh \<in> heads st. digest_of hs oh \<noteq> d)"
  by (auto simp: hash_abs_def)

lemma abs_eqI:
  assumes "inv st hs"
    and "\<And>d oh n. m d = Some (oh, n) \<longleftrightarrow> oh \<in> heads st \<and> digest_of hs oh = d \<and> oh_refcnt (hs oh) = n"
  shows "hash_abs (heads st) hs = m"
proof
  fix d
  show "hash_abs (heads st) hs d = m d"
  proof (cases "m d")
    case None
    then have "\<And>x. hash_abs (heads st) hs d \<noteq> Some x"
      using assms by (metis abs_Some_iff option.distinct(1) surj_pair)
    with None show ?thesis by (metis option.exhaust)
  next
    case (Some x)
    then obtain oh n where m: "m d = Some (oh, n)" by (cases x) simp
    then have "hash_abs (heads st) hs d = Some (oh, n)"
      using assms(2) abs_Some_iff [OF assms(1)] by metis
    with m show ?thesis by simp
  qed
qed

text \<open>
  The refinement: a lookup is an insert-or-increment of the map, a release decrements and
  deletes at zero.
\<close>

lemma lookup_refines:
  assumes i: "inv st hs" and n: "noh \<notin> heads st" "oh_refcnt (hs noh) = 1"
    "length (digest_of hs noh) = DIGEST_LEN"
  shows "\<exists>st' hs' oh. lookup (prep st) hs noh = Some (st', hs', oh) \<and> inv st' hs' \<and>
    oh \<in> heads st' \<and> oh = fst (hash_enter (hash_abs (heads st) hs) (digest_of hs noh) noh) \<and>
    (\<forall>a. same_user_part (hs' a) (hs a)) \<and>
    hash_abs (heads st') hs' = (hash_abs (heads st) hs)(digest_of hs noh \<mapsto>
      hash_enter (hash_abs (heads st) hs) (digest_of hs noh) noh)"
proof (cases "hash_abs (heads st) hs (digest_of hs noh)")
  case None
  then have "\<And>oh. oh \<in> heads st \<Longrightarrow> digest_of hs oh \<noteq> digest_of hs noh"
    by (simp add: abs_None_iff)
  from lookup_miss [OF i n this] obtain st' h where
    r: "lookup (prep st) hs noh = Some (st', hs(noh := h), noh)"
    and h: "same_user_part h (hs noh)" "oh_refcnt h = 1"
    and st': "heads st' = insert noh (heads st)" "inv st' (hs(noh := h))"
    by blast
  have "hash_abs (heads st') (hs(noh := h)) = (hash_abs (heads st) hs)(digest_of hs noh \<mapsto> (noh, 1))"
    using n h None st'
    by (intro abs_eqI) (auto simp: abs_Some_iff [OF i] abs_None_iff same_user_part_def split: if_splits)
  with r h st' None show ?thesis
    by (auto simp: same_user_part_def hash_enter_def)
next
  case (Some p)
  then obtain oh k where p: "p = (oh, k)" "oh \<in> heads st" "digest_of hs oh = digest_of hs noh"
      "oh_refcnt (hs oh) = k"
    using abs_Some_iff [OF i] by (cases p) simp
  from lookup_hit [OF i p(2) n(1,2) p(3)] obtain st' where
    r: "lookup (prep st) hs noh = Some (st', oh_add_ref hs oh 1, oh)"
    and st': "heads st' = heads st" "inv st' (oh_add_ref hs oh 1)"
    by blast
  have "hash_abs (heads st') (oh_add_ref hs oh 1) = (hash_abs (heads st) hs)(digest_of hs noh \<mapsto> (oh, k + 1))"
    using p st' inv_unique [OF i]
    by (intro abs_eqI) (auto simp: abs_Some_iff [OF i] split: if_splits)
  with r st' Some p show ?thesis
    by (auto simp: same_user_part_def hash_enter_def)
qed

lemma deref_refines:
  assumes i: "inv st hs" and oh: "oh \<in> heads st"
    and last: "oh_refcnt (hs oh) = 1 \<Longrightarrow> oh_objcs (hs oh) = [] \<and> oh_waitinglist (hs oh) = None"
  shows "\<exists>st' hs' r. deref st hs oh = Some (st', hs', r) \<and> inv st' hs' \<and>
    (1 < oh_refcnt (hs oh) \<longrightarrow> r) \<and>
    hash_abs (heads st') hs' = (hash_abs (heads st) hs)(digest_of hs oh :=
      hash_leave (oh, oh_refcnt (hs oh)))"
proof (cases "oh_refcnt (hs oh) = 1")
  case True
  from deref_last [OF i oh True] last [OF True] obtain st' r where
    r: "deref st hs oh = Some (st', oh_add_ref hs oh (-1), r)"
    and st': "heads st' = heads st - {oh}" "inv st' (oh_add_ref hs oh (-1))"
    by auto
  have "hash_abs (heads st') (oh_add_ref hs oh (-1)) = (hash_abs (heads st) hs)(digest_of hs oh := None)"
    using oh st' inv_unique [OF i _ oh]
    by (intro abs_eqI) (auto simp: abs_Some_iff [OF i] split: if_splits)
  with r st' True show ?thesis by (auto simp: hash_leave_def)
next
  case False
  with inv_refcnt [OF i oh] have "1 < oh_refcnt (hs oh)" by simp
  from deref_more [OF i oh this] obtain st' where
    r: "deref st hs oh = Some (st', oh_add_ref hs oh (-1), True)"
    and st': "heads st' = heads st" "inv st' (oh_add_ref hs oh (-1))"
    by blast
  have "hash_abs (heads st') (oh_add_ref hs oh (-1)) =
      (hash_abs (heads st) hs)(digest_of hs oh \<mapsto> (oh, oh_refcnt (hs oh) - 1))"
    using oh st' inv_unique [OF i _ oh]
    by (intro abs_eqI) (auto simp: abs_Some_iff [OF i] split: if_splits)
  with r st' False show ?thesis by (auto simp: hash_leave_def)
qed

end

subsection \<open>Two implementations side by side\<close>

text \<open>
  Two implementations that hold the same digests with the same heads and counts give the same
  answer to the next look-up and stay the same.
\<close>

locale hash_slinger_pair =
  one: hash_slinger prep1 lookup1 deref1 heads1 inv1 + two: hash_slinger prep2 lookup2 deref2 heads2 inv2
  for prep1 :: "'a \<Rightarrow> 'a" and lookup1 deref1 heads1 inv1
  and prep2 :: "'b \<Rightarrow> 'b" and lookup2 deref2 heads2 inv2
begin

lemma lookups_agree:
  assumes "inv1 s hs" "inv2 t gs" and "hash_abs (heads1 s) hs = hash_abs (heads2 t) gs"
    and "noh \<notin> heads1 s" "noh \<notin> heads2 t" "oh_refcnt (hs noh) = 1" "oh_refcnt (gs noh) = 1"
    "digest_of gs noh = digest_of hs noh" "length (digest_of hs noh) = DIGEST_LEN"
  shows "\<exists>s' hs' t' gs' oh. lookup1 (prep1 s) hs noh = Some (s', hs', oh) \<and>
    lookup2 (prep2 t) gs noh = Some (t', gs', oh) \<and> inv1 s' hs' \<and> inv2 t' gs' \<and>
    hash_abs (heads1 s') hs' = hash_abs (heads2 t') gs'"
  using one.lookup_refines [OF assms(1,4,6,9)] two.lookup_refines [OF assms(2,5,7)] assms(3,8,9)
  by auto

lemma derefs_agree:
  assumes "inv1 s hs" "inv2 t gs" and ab: "hash_abs (heads1 s) hs = hash_abs (heads2 t) gs"
    and oh: "oh \<in> heads1 s"
    and last: "oh_refcnt (hs oh) = 1 \<Longrightarrow> oh_objcs (hs oh) = [] \<and> oh_waitinglist (hs oh) = None"
    "oh_refcnt (gs oh) = 1 \<Longrightarrow> oh_objcs (gs oh) = [] \<and> oh_waitinglist (gs oh) = None"
  shows "\<exists>s' hs' r t' gs' q. deref1 s hs oh = Some (s', hs', r) \<and> deref2 t gs oh = Some (t', gs', q) \<and>
    inv1 s' hs' \<and> inv2 t' gs' \<and> hash_abs (heads1 s') hs' = hash_abs (heads2 t') gs'"
proof -
  have "hash_abs (heads2 t) gs (digest_of hs oh) = Some (oh, oh_refcnt (hs oh))"
    using one.abs_Some_iff [OF assms(1)] oh ab by metis
  then have "oh \<in> heads2 t" "digest_of gs oh = digest_of hs oh" "oh_refcnt (gs oh) = oh_refcnt (hs oh)"
    using two.abs_Some_iff [OF assms(2)] by simp_all
  then show ?thesis
    using one.deref_refines [OF assms(1) oh last(1)] two.deref_refines [OF assms(2) _ last(2)] ab by auto
qed

end

end
