(* ===== verification/Hash_Lists.thy ===== *)
theory Hash_Lists
  imports Hash_Slinger
begin

text \<open>
  The two list based hash implementations: \<^verbatim>\<open>bin/varnishd/hash_simple_list.c\<close>, one
  list sorted by digest, and \<^verbatim>\<open>bin/varnishd/hash_classic.c\<close>, an array of such lists
  indexed by the first four bytes of the digest. Both satisfy the contract \<open>hash_slinger\<close>.
\<close>

subsection \<open>The scan of a sorted list\<close>

text \<open>
  The \<open>VTAILQ_FOREACH\<close> of both lookups and the insert after it: the list afterwards and
  the head that matched, if one did.
\<close>

fun hsl_scan :: "oh_store \<Rightarrow> oh_ref list \<Rightarrow> oh_ref \<Rightarrow> oh_ref list \<times> oh_ref option" where
  "hsl_scan hs [] noh = ([noh], None)"
| "hsl_scan hs (oh # ohs) noh =
     (let i = memcmp (digest_of hs oh) (digest_of hs noh) in
      if i < 0 then (let (l, r) = hsl_scan hs ohs noh in (oh # l, r))
      else if i > 0 then (noh # oh # ohs, None)
      else (oh # ohs, Some oh))"

subsection \<open>Simple list\<close>

type_synonym hsl = "oh_ref list"

definition hsl_start :: hsl where
  "hsl_start = []"

definition hsl_lookup :: "hsl \<Rightarrow> oh_store \<Rightarrow> oh_ref \<Rightarrow> (hsl \<times> oh_store \<times> oh_ref) option" where
  "hsl_lookup l hs noh =
     (case hsl_scan hs l noh of
        (l', Some oh) \<Rightarrow> Some (l', oh_add_ref hs oh 1, oh)
      | (l', None) \<Rightarrow> Some (l', hs, noh))"

definition hsl_deref :: "hsl \<Rightarrow> oh_store \<Rightarrow> oh_ref \<Rightarrow> (hsl \<times> oh_store \<times> bool) option" where
  "hsl_deref l hs oh =
     (let hs' = oh_add_ref hs oh (-1) in
      if oh_refcnt (hs' oh) = 0 then Some (remove1 oh l, hs', False)
      else Some (l, hs', True))"

subsection \<open>Classic hash\<close>

record hcl =
  hcl_nhash :: u32
  hcl_head :: "oh_ref list list"

text \<open>
  \<open>hcl_init\<close> gets the number of arguments and what \<open>sscanf\<close> read from the first one
  (\<open>None\<close> when it read no number); \<open>None\<close> is the error exit of \<open>ARGV_ERR\<close>.
\<close>

definition hcl_init :: "u32 \<Rightarrow> nat \<Rightarrow> u32 option \<Rightarrow> u32 option" where
  "hcl_init nhash ac scanned =
     (if ac = 0 then Some nhash
      else if ac > 1 then None
      else case scanned of
        None \<Rightarrow> Some nhash
      | Some u \<Rightarrow> if u = 0 then Some nhash
                  else if u > 2 \<and> u AND (u - 1) = 0 then Some (u - 1)
                  else Some u)"

definition hcl_start :: "u32 \<Rightarrow> hcl" where
  "hcl_start nhash = \<lparr>hcl_nhash = nhash, hcl_head = replicate (unat nhash) []\<rparr>"

text \<open>The first four bytes of the digest as an \<open>unsigned\<close> of a little-endian machine.\<close>

definition hcl_word :: "u8 list \<Rightarrow> u32" where
  "hcl_word d = ucast (d ! 0) + 256 * ucast (d ! 1) + 65536 * ucast (d ! 2) + 16777216 * ucast (d ! 3)"

definition hcl_bucket :: "hcl \<Rightarrow> u8 list \<Rightarrow> nat" where
  "hcl_bucket h d = unat (hcl_word d mod hcl_nhash h)"

definition hcl_lookup :: "hcl \<Rightarrow> oh_store \<Rightarrow> oh_ref \<Rightarrow> (hcl \<times> oh_store \<times> oh_ref) option" where
  "hcl_lookup h hs noh = do {
     assert_c (DIGEST_LEN > 4);
     let u1 = hcl_bucket h (digest_of hs noh);
     (case hsl_scan hs (hcl_head h ! u1) noh of
        (l', Some oh) \<Rightarrow> Some (h\<lparr>hcl_head := (hcl_head h)[u1 := l']\<rparr>, oh_add_ref hs oh 1, oh)
      | (l', None) \<Rightarrow>
          Some (h\<lparr>hcl_head := (hcl_head h)[u1 := l']\<rparr>, hs(noh := hs noh\<lparr>oh_hoh_head := Some u1\<rparr>), noh))
   }"

definition hcl_deref :: "hcl \<Rightarrow> oh_store \<Rightarrow> oh_ref \<Rightarrow> (hcl \<times> oh_store \<times> bool) option" where
  "hcl_deref h hs oh = do {
     hp \<leftarrow> oh_hoh_head (hs oh);
     assert_c (oh_refcnt (hs oh) > 0);
     let hs' = oh_add_ref hs oh (-1);
     if oh_refcnt (hs' oh) = 0
     then Some (h\<lparr>hcl_head := (hcl_head h)[hp := remove1 oh (hcl_head h ! hp)]\<rparr>, hs', False)
     else Some (h, hs', True)
   }"

subsection \<open>Invariants\<close>

definition digest_sorted :: "oh_store \<Rightarrow> oh_ref list \<Rightarrow> bool" where
  "digest_sorted hs l \<longleftrightarrow> sorted_wrt (\<lambda>a b. memcmp (digest_of hs a) (digest_of hs b) < 0) l \<and>
     list_all (\<lambda>a. length (digest_of hs a) = DIGEST_LEN \<and> 0 < oh_refcnt (hs a)) l"

definition hcl_heads :: "hcl \<Rightarrow> oh_ref set" where
  "hcl_heads h = (\<Union>l \<in> set (hcl_head h). set l)"

definition hcl_inv :: "hcl \<Rightarrow> oh_store \<Rightarrow> bool" where
  "hcl_inv h hs \<longleftrightarrow> hcl_nhash h \<noteq> 0 \<and> length (hcl_head h) = unat (hcl_nhash h) \<and>
     (\<forall>i < length (hcl_head h). digest_sorted hs (hcl_head h ! i) \<and>
        (\<forall>a \<in> set (hcl_head h ! i). oh_hoh_head (hs a) = Some i \<and> hcl_bucket h (digest_of hs a) = i))"

subsection \<open>Lemmas on the scan\<close>

lemma digest_sorted_Nil [simp]: "digest_sorted hs []"
  by (simp add: digest_sorted_def)

lemma digest_sorted_Cons:
  "digest_sorted hs (a # l) \<longleftrightarrow> digest_sorted hs l \<and> length (digest_of hs a) = DIGEST_LEN \<and>
     0 < oh_refcnt (hs a) \<and> (\<forall>b \<in> set l. memcmp (digest_of hs a) (digest_of hs b) < 0)"
  by (auto simp: digest_sorted_def)

lemma digest_sorted_length: "digest_sorted hs l \<Longrightarrow> a \<in> set l \<Longrightarrow> length (digest_of hs a) = DIGEST_LEN"
  by (auto simp: digest_sorted_def list_all_iff)

lemma digest_sorted_distinct: "digest_sorted hs l \<Longrightarrow> distinct l"
  by (induction l) (auto simp: digest_sorted_Cons)

lemma digest_sorted_unique:
  "digest_sorted hs l \<Longrightarrow> a \<in> set l \<Longrightarrow> b \<in> set l \<Longrightarrow> digest_of hs a = digest_of hs b \<Longrightarrow> a = b"
  by (induction l) (auto simp: digest_sorted_Cons)

lemma digest_sorted_frame:
  "digest_sorted hs l \<Longrightarrow> (\<And>a. a \<in> set l \<Longrightarrow> digest_of hs' a = digest_of hs a \<and> 0 < oh_refcnt (hs' a)) \<Longrightarrow>
   digest_sorted hs' l"
  by (induction l) (auto simp: digest_sorted_Cons)

lemma digest_sorted_remove1: "digest_sorted hs l \<Longrightarrow> digest_sorted hs (remove1 a l)"
  by (induction l) (auto simp: digest_sorted_Cons notin_set_remove1)

lemma hsl_scan_hit:
  assumes "digest_sorted hs l" and "oh \<in> set l" and "digest_of hs oh = digest_of hs noh"
  shows "hsl_scan hs l noh = (l, Some oh)"
  using assms
proof (induction l)
  case (Cons a l)
  show ?case
  proof (cases "a = oh")
    case True
    then show ?thesis using Cons.prems by simp
  next
    case False
    then have "oh \<in> set l" using Cons.prems by simp
    then have "memcmp (digest_of hs a) (digest_of hs noh) < 0"
      using Cons.prems by (auto simp: digest_sorted_Cons)
    then show ?thesis
      using Cons \<open>oh \<in> set l\<close> by (simp add: digest_sorted_Cons)
  qed
qed simp

lemma hsl_scan_miss:
  assumes "digest_sorted hs l" and "length (digest_of hs noh) = DIGEST_LEN" and "0 < oh_refcnt (hs noh)"
    and "\<And>oh. oh \<in> set l \<Longrightarrow> digest_of hs oh \<noteq> digest_of hs noh"
  shows "\<exists>l'. hsl_scan hs l noh = (l', None) \<and> set l' = insert noh (set l) \<and> digest_sorted hs l'"
  using assms
proof (induction l)
  case Nil
  then show ?case by (simp add: digest_sorted_Cons)
next
  case (Cons a l)
  let ?i = "memcmp (digest_of hs a) (digest_of hs noh)"
  have len: "length (digest_of hs a) = DIGEST_LEN" "\<And>b. b \<in> set l \<Longrightarrow> length (digest_of hs b) = DIGEST_LEN"
    using Cons.prems(1) by (auto intro: digest_sorted_length simp: digest_sorted_Cons)
  have "?i \<noteq> 0"
    using Cons.prems len by (simp add: memcmp_eq_0_iff)
  then consider "?i < 0" | "?i > 0" by linarith
  then show ?case
  proof cases
    case 1
    obtain l' where "hsl_scan hs l noh = (l', None)" "set l' = insert noh (set l)" "digest_sorted hs l'"
      using Cons by (auto simp: digest_sorted_Cons)
    with 1 Cons.prems show ?thesis by (auto simp: digest_sorted_Cons)
  next
    case 2
    then have less: "memcmp (digest_of hs noh) (digest_of hs a) < 0"
      by (simp add: memcmp_swap [of "digest_of hs a"])
    have "memcmp (digest_of hs noh) (digest_of hs b) < 0" if "b \<in> set l" for b
      using memcmp_less_trans [OF _ _ less] that Cons.prems len by (simp add: digest_sorted_Cons)
    with 2 less Cons.prems show ?thesis by (auto simp: digest_sorted_Cons)
  qed
qed

subsection \<open>The simple list satisfies the contract\<close>

interpretation hsl: hash_slinger "\<lambda>l. l" hsl_lookup hsl_deref set "\<lambda>l hs. digest_sorted hs l"
proof (unfold_locales, goal_cases)
  case 1 then show ?case by (rule digest_sorted_length)
next
  case 2 then show ?case by (rule digest_sorted_unique)
next
  case 3 then show ?case by (auto simp: digest_sorted_def list_all_iff)
next
  case (4 st hs hs')
  then show ?case
    by (intro digest_sorted_frame [OF 4(1)]) (force simp: same_hash_part_def digest_sorted_def list_all_iff)
next
  case (5 st hs oh noh)
  have "digest_sorted (oh_add_ref hs oh 1) st"
    using 5(1) by (intro digest_sorted_frame [OF 5(1)]) (auto simp: digest_sorted_def list_all_iff)
  then show ?case using hsl_scan_hit [OF 5(1,2,5)] by (simp add: hsl_lookup_def)
next
  case (6 st hs noh)
  then obtain l' where "hsl_scan hs st noh = (l', None)" "set l' = insert noh (set st)" "digest_sorted hs l'"
    using hsl_scan_miss [of hs st noh] by auto
  then show ?case using 6 by (auto simp: hsl_lookup_def same_user_part_def intro!: exI [of _ "hs noh"])
next
  case (7 st hs oh)
  then have "digest_sorted (oh_add_ref hs oh (-1)) st"
    by (intro digest_sorted_frame [OF 7(1)]) (auto simp: digest_sorted_def list_all_iff)
  then show ?case using 7 by (simp add: hsl_deref_def)
next
  case (8 st hs oh)
  have "set (remove1 oh st) = set st - {oh}"
    using digest_sorted_distinct [OF 8(1)] by simp
  moreover have "digest_sorted (oh_add_ref hs oh (-1)) (remove1 oh st)"
    using digest_sorted_distinct [OF 8(1)] 8(1)
    by (intro digest_sorted_frame [OF digest_sorted_remove1 [OF 8(1)]])
       (auto simp: digest_sorted_def list_all_iff)
  ultimately show ?case using 8 by (auto simp: hsl_deref_def)
next
  case 9 then show ?case by simp
qed

subsection \<open>The classic hash satisfies the contract\<close>

lemma hcl_bucket_less:
  assumes "hcl_inv h hs"
  shows "hcl_bucket h d < length (hcl_head h)"
proof -
  have "0 < unat (hcl_nhash h)"
    using assms by (simp add: hcl_inv_def unsigned_eq_0_iff flip: neq0_conv)
  then show ?thesis
    using assms by (simp add: hcl_inv_def hcl_bucket_def unat_mod_distrib)
qed

lemma hcl_heads_iff: "a \<in> hcl_heads h \<longleftrightarrow> (\<exists>i < length (hcl_head h). a \<in> set (hcl_head h ! i))"
  by (auto simp: hcl_heads_def set_conv_nth [of "hcl_head h"])

lemma hcl_heads_bucket:
  assumes "hcl_inv h hs"
  shows "a \<in> hcl_heads h \<longleftrightarrow> a \<in> set (hcl_head h ! hcl_bucket h (digest_of hs a))"
  using assms hcl_bucket_less [OF assms] by (auto simp: hcl_heads_iff hcl_inv_def)

lemma hcl_bucketD:
  assumes "hcl_inv h hs" and "a \<in> hcl_heads h"
  shows "a \<in> set (hcl_head h ! hcl_bucket h (digest_of hs a))"
    and "oh_hoh_head (hs a) = Some (hcl_bucket h (digest_of hs a))"
    and "digest_sorted hs (hcl_head h ! hcl_bucket h (digest_of hs a))"
proof -
  show a: "a \<in> set (hcl_head h ! hcl_bucket h (digest_of hs a))"
    using assms hcl_heads_bucket by blast
  show "oh_hoh_head (hs a) = Some (hcl_bucket h (digest_of hs a))"
    and "digest_sorted hs (hcl_head h ! hcl_bucket h (digest_of hs a))"
    using assms(1) a hcl_bucket_less [OF assms(1)] by (auto simp: hcl_inv_def)
qed

lemma hcl_inv_upd:
  assumes "hcl_inv h hs" and "u < length (hcl_head h)" and "digest_sorted hs' l"
    and "\<And>a. a \<in> set l \<Longrightarrow> oh_hoh_head (hs' a) = Some u \<and> hcl_bucket h (digest_of hs' a) = u"
    and "\<And>i a. i < length (hcl_head h) \<Longrightarrow> i \<noteq> u \<Longrightarrow> a \<in> set (hcl_head h ! i) \<Longrightarrow> hs' a = hs a"
  shows "hcl_inv (h\<lparr>hcl_head := (hcl_head h)[u := l]\<rparr>) hs'"
proof -
  let ?h = "h\<lparr>hcl_head := (hcl_head h)[u := l]\<rparr>"
  have bkt: "hcl_bucket ?h = hcl_bucket h"
    by (simp add: hcl_bucket_def fun_eq_iff)
  have "digest_sorted hs' (hcl_head ?h ! i) \<and>
      (\<forall>a \<in> set (hcl_head ?h ! i). oh_hoh_head (hs' a) = Some i \<and> hcl_bucket ?h (digest_of hs' a) = i)"
    if i: "i < length (hcl_head ?h)" for i
  proof (cases "i = u")
    case True
    with assms show ?thesis by (simp add: bkt)
  next
    case False
    with i have old: "digest_sorted hs (hcl_head h ! i)"
      "\<And>a. a \<in> set (hcl_head h ! i) \<Longrightarrow> oh_hoh_head (hs a) = Some i \<and> hcl_bucket h (digest_of hs a) = i"
      and same: "\<And>a. a \<in> set (hcl_head h ! i) \<Longrightarrow> hs' a = hs a"
      using assms(1,5) by (auto simp: hcl_inv_def)
    have "digest_sorted hs' (hcl_head h ! i)"
      using old(1) by (intro digest_sorted_frame [OF old(1)]) (auto simp: same digest_sorted_def list_all_iff)
    with False old(2) same show ?thesis by (simp add: bkt)
  qed
  then show ?thesis
    using assms(1) by (simp add: hcl_inv_def bkt)
qed

lemma hcl_other_bucket:
  "hcl_inv h hs \<Longrightarrow> i < length (hcl_head h) \<Longrightarrow> a \<in> set (hcl_head h ! i) \<Longrightarrow>
   hcl_bucket h (digest_of hs a) = i"
  by (simp add: hcl_inv_def)

lemma hcl_heads_upd:
  assumes "hcl_inv h hs" and "u < length (hcl_head h)"
  shows "hcl_heads (h\<lparr>hcl_head := (hcl_head h)[u := l]\<rparr>) =
    (hcl_heads h - set (hcl_head h ! u)) \<union> set l"
proof -
  have "i = u" if "i < length (hcl_head h)" "a \<in> set (hcl_head h ! i)" "a \<in> set (hcl_head h ! u)" for a i
    using hcl_other_bucket [OF assms(1)] that assms(2) by metis
  then have old: "a \<in> hcl_heads h - set (hcl_head h ! u) \<longleftrightarrow>
      (\<exists>i < length (hcl_head h). i \<noteq> u \<and> a \<in> set (hcl_head h ! i))" for a
    using assms(2) by (auto simp: hcl_heads_iff)
  have "a \<in> hcl_heads (h\<lparr>hcl_head := (hcl_head h)[u := l]\<rparr>) \<longleftrightarrow>
      (\<exists>i < length (hcl_head h). i \<noteq> u \<and> a \<in> set (hcl_head h ! i)) \<or> a \<in> set l" for a
  proof -
    have "(\<exists>i < length (hcl_head h). a \<in> set ((hcl_head h)[u := l] ! i)) \<longleftrightarrow>
        (\<exists>i < length (hcl_head h). i \<noteq> u \<and> a \<in> set (hcl_head h ! i)) \<or> a \<in> set l"
      using assms(2) by (metis nth_list_update_eq nth_list_update_neq)
    then show ?thesis by (simp add: hcl_heads_iff)
  qed
  with old show ?thesis by (simp add: set_eq_iff)
qed

lemma hcl_inv_frame:
  assumes "hcl_inv h hs" and "\<And>a. a \<in> hcl_heads h \<Longrightarrow> digest_of hs' a = digest_of hs a \<and>
      oh_hoh_head (hs' a) = oh_hoh_head (hs a) \<and> 0 < oh_refcnt (hs' a)"
  shows "hcl_inv h hs'"
proof -
  have "digest_sorted hs' (hcl_head h ! i) \<and>
      (\<forall>a \<in> set (hcl_head h ! i). oh_hoh_head (hs' a) = Some i \<and> hcl_bucket h (digest_of hs' a) = i)"
    if i: "i < length (hcl_head h)" for i
  proof -
    have "digest_sorted hs (hcl_head h ! i)"
      and "\<forall>a \<in> set (hcl_head h ! i). oh_hoh_head (hs a) = Some i \<and> hcl_bucket h (digest_of hs a) = i"
      using assms(1) i by (simp_all add: hcl_inv_def)
    moreover have "\<And>a. a \<in> set (hcl_head h ! i) \<Longrightarrow> a \<in> hcl_heads h"
      using i by (auto simp: hcl_heads_iff)
    ultimately show ?thesis
      using assms(2) by (auto intro: digest_sorted_frame)
  qed
  then show ?thesis using assms(1) by (simp add: hcl_inv_def)
qed

interpretation hcl: hash_slinger "\<lambda>h. h" hcl_lookup hcl_deref hcl_heads hcl_inv
proof (unfold_locales, goal_cases)
  case 1 then show ?case by (metis hcl_bucketD(1,3) digest_sorted_length)
next
  case 2 then show ?case by (metis hcl_bucketD(1,3) digest_sorted_unique)
next
  case (3 st hs a)
  then show ?case
    using hcl_bucketD [OF 3] by (auto simp: digest_sorted_def list_all_iff)
next
  case (4 st hs hs')
  have "0 < oh_refcnt (hs a)" if "a \<in> hcl_heads st" for a
    using hcl_bucketD [OF 4(1) that] by (auto simp: digest_sorted_def list_all_iff)
  then show ?case
    using 4(2) by (intro hcl_inv_frame [OF 4(1)]) (simp add: same_hash_part_def)
next
  case (5 st hs oh noh)
  let ?u = "hcl_bucket st (digest_of hs noh)"
  have scan: "hsl_scan hs (hcl_head st ! ?u) noh = (hcl_head st ! ?u, Some oh)"
    using hcl_bucketD [OF 5(1,2)] 5(5) by (intro hsl_scan_hit) simp_all
  have pos: "0 < oh_refcnt (hs a)" if "a \<in> hcl_heads st" for a
    using hcl_bucketD [OF 5(1) that] by (auto simp: digest_sorted_def list_all_iff)
  have "hcl_inv st (oh_add_ref hs oh 1)"
    using pos by (intro hcl_inv_frame [OF 5(1)]) (auto dest: pos less_imp_le)
  then show ?case
    using scan by (simp add: hcl_lookup_def DIGEST_LEN_def Let_def)
next
  case (6 st hs noh)
  let ?u = "hcl_bucket st (digest_of hs noh)"
  let ?hs = "hs(noh := hs noh\<lparr>oh_hoh_head := Some ?u\<rparr>)"
  have u: "?u < length (hcl_head st)" by (rule hcl_bucket_less [OF 6(1)])
  have srt: "digest_sorted hs (hcl_head st ! ?u)" using 6(1) u by (simp add: hcl_inv_def)
  have sub: "\<And>i. i < length (hcl_head st) \<Longrightarrow> set (hcl_head st ! i) \<subseteq> hcl_heads st"
    by (auto simp: hcl_heads_iff)
  obtain l where l: "hsl_scan hs (hcl_head st ! ?u) noh = (l, None)"
      "set l = insert noh (set (hcl_head st ! ?u))" "digest_sorted hs l"
    using hsl_scan_miss [OF srt 6(4)] 6(3,5) sub [OF u] by fastforce
  have "digest_sorted ?hs l"
    using l(3) by (intro digest_sorted_frame [OF l(3)]) (auto simp: digest_sorted_def list_all_iff)
  then have "hcl_inv (st\<lparr>hcl_head := (hcl_head st)[?u := l]\<rparr>) ?hs"
    using 6(1,2) u l(2) sub by (intro hcl_inv_upd [OF 6(1) u]) (auto simp: hcl_inv_def)
  moreover have "hcl_heads (st\<lparr>hcl_head := (hcl_head st)[?u := l]\<rparr>) = insert noh (hcl_heads st)"
    using hcl_heads_upd [OF 6(1) u] l(2) sub [OF u] by auto
  ultimately show ?case
    using l(1) 6 by (auto simp: hcl_lookup_def DIGEST_LEN_def Let_def same_user_part_def
        intro!: exI [of _ "hs noh\<lparr>oh_hoh_head := Some ?u\<rparr>"])
next
  case (7 st hs oh)
  have pos: "0 < oh_refcnt (hs a)" if "a \<in> hcl_heads st" for a
    using hcl_bucketD [OF 7(1) that] by (auto simp: digest_sorted_def list_all_iff)
  have "hcl_inv st (oh_add_ref hs oh (-1))"
    using pos 7 by (intro hcl_inv_frame [OF 7(1)]) simp
  then show ?case
    using 7 hcl_bucketD(2) [OF 7(1,2)] by (simp add: hcl_deref_def Let_def)
next
  case (8 st hs oh)
  let ?u = "hcl_bucket st (digest_of hs oh)"
  let ?hs = "oh_add_ref hs oh (-1)"
  let ?l = "remove1 oh (hcl_head st ! ?u)"
  have u: "?u < length (hcl_head st)" by (rule hcl_bucket_less [OF 8(1)])
  note b = hcl_bucketD [OF 8(1,2)]
  have set: "set ?l = set (hcl_head st ! ?u) - {oh}"
    using digest_sorted_distinct [OF b(3)] by simp
  have "digest_sorted ?hs ?l"
    using digest_sorted_remove1 [OF b(3)] set
    by (intro digest_sorted_frame [OF digest_sorted_remove1 [OF b(3)]])
       (auto simp: digest_sorted_def list_all_iff)
  then have "hcl_inv (st\<lparr>hcl_head := (hcl_head st)[?u := ?l]\<rparr>) ?hs"
    using 8(1) u set hcl_other_bucket [OF 8(1)]
    by (intro hcl_inv_upd [OF 8(1) u]) (auto simp: hcl_inv_def)
  moreover have "hcl_heads (st\<lparr>hcl_head := (hcl_head st)[?u := ?l]\<rparr>) = hcl_heads st - {oh}"
  proof -
    have "set (hcl_head st ! ?u) \<subseteq> hcl_heads st"
      using u by (auto simp: hcl_heads_iff)
    then show ?thesis
      unfolding hcl_heads_upd [OF 8(1) u, of ?l] set using b(1) by blast
  qed
  ultimately show ?case
    using 8 b by (auto simp: hcl_deref_def Let_def)
next
  case 9 then show ?case by simp
qed

end
