(* ===== verification/Hash_Critbit.thy ===== *)
theory Hash_Critbit
  imports Hash_Slinger "HOL-Library.Multiset"
begin

text \<open>
  The critical bit tree, \<^verbatim>\<open>bin/varnishd/hash_critbit.c\<close>.

  The tagged pointers of the code (\<open>origo\<close>, \<open>leaf[2]\<close>) are the datatype \<open>hcb\<close>: a null
  pointer, a pointer to an object head, or a pointer to a branching node with its two leaves.
  The tag arithmetic itself is modelled on 64 bit words. Branching nodes carry an identity, so
  that the lists of nodes waiting to be freed can be followed. Every operation that writes the
  tree runs under \<open>hcb_mtx\<close> in the code, so the model's operations are its critical sections;
  \<open>None\<close> is a failed assertion.
\<close>

subsection \<open>Tagged pointers\<close>

definition HCB_BIT_NODE :: u64 where "HCB_BIT_NODE = 1"
definition HCB_BIT_Y :: u64 where "HCB_BIT_Y = 2"

definition hcb_is_node :: "u64 \<Rightarrow> bool" where
  "hcb_is_node u \<longleftrightarrow> u AND HCB_BIT_NODE \<noteq> 0"

definition hcb_is_y :: "u64 \<Rightarrow> bool" where
  "hcb_is_y u \<longleftrightarrow> u AND HCB_BIT_Y \<noteq> 0"

definition hcb_r_node :: "u64 \<Rightarrow> u64 option" where
  "hcb_r_node n = do { assert_c (n AND (HCB_BIT_NODE OR HCB_BIT_Y) = 0); Some (HCB_BIT_NODE OR n) }"

definition hcb_l_node :: "u64 \<Rightarrow> u64 option" where
  "hcb_l_node u = do {
     assert_c (u AND HCB_BIT_NODE \<noteq> 0);
     assert_c (u AND HCB_BIT_Y = 0);
     Some (u AND NOT HCB_BIT_NODE)
   }"

definition hcb_r_y :: "u64 \<Rightarrow> u64 option" where
  "hcb_r_y y = do { assert_c (y AND (HCB_BIT_NODE OR HCB_BIT_Y) = 0); Some (HCB_BIT_Y OR y) }"

definition hcb_l_y :: "u64 \<Rightarrow> u64 option" where
  "hcb_l_y u = do {
     assert_c (u AND HCB_BIT_NODE = 0);
     assert_c (u AND HCB_BIT_Y \<noteq> 0);
     Some (u AND NOT HCB_BIT_Y)
   }"

subsection \<open>The bit table\<close>

function hcb_fill :: "u8 list \<Rightarrow> nat \<Rightarrow> nat \<Rightarrow> u8 \<Rightarrow> u8 list \<times> nat" where
  "hcb_fill tbl y lim v = (if y < lim then hcb_fill (tbl[y := v]) (Suc y) lim v else (tbl, y))"
  by pat_completeness auto
termination
  by (relation "measure (\<lambda>(tbl, y, lim, v). lim - y)") auto

definition hcb_bittbl :: "u8 list" where
  "hcb_bittbl = fst (foldl (\<lambda>(tbl, y) x. hcb_fill tbl y (2 ^ x) (8 - of_nat x))
     (replicate 256 0, 0) [0..<8])"

definition hcb_bits :: "u8 \<Rightarrow> u8 \<Rightarrow> u8" where
  "hcb_bits x y = hcb_bittbl ! unat (x XOR y)"

definition hcb_build_bittbl :: "u8 list option" where
  "hcb_build_bittbl = do {
     assert_c (hcb_bits 0x34 0x34 = 8);
     assert_c (hcb_bits 0xaa 0x55 = 0);
     assert_c (hcb_bits 0x01 0x22 = 2);
     assert_c (hcb_bits 0x10 0x0b = 3);
     Some hcb_bittbl
   }"

subsection \<open>The tree\<close>

record hcb_ynode =
  y_id :: nat
  y_critbit :: u16
  y_ptr :: u8
  y_bitmask :: u8

datatype hcb = Hcb_null | Hcb_node oh_ref | Hcb_y hcb_ynode hcb hcb

definition hcb_side :: "u8 list \<Rightarrow> hcb_ynode \<Rightarrow> bool" where
  "hcb_side d y \<longleftrightarrow> d ! unat (y_ptr y) AND y_bitmask y \<noteq> 0"

function hcb_first_diff :: "nat \<Rightarrow> u8 list \<Rightarrow> u8 list \<Rightarrow> nat" where
  "hcb_first_diff u d1 d2 =
     (if u < DIGEST_LEN \<and> d1 ! u = d2 ! u then hcb_first_diff (Suc u) d1 d2 else u)"
  by pat_completeness auto
termination
  by (relation "measure (\<lambda>(u, d1, d2). DIGEST_LEN - u)") auto

definition hcb_crit_bit :: "u8 list \<Rightarrow> u8 list \<Rightarrow> hcb_ynode \<Rightarrow> hcb_ynode option" where
  "hcb_crit_bit d1 d2 y = do {
     let u = hcb_first_diff 0 d1 d2;
     assert_c (u < DIGEST_LEN);
     let r = hcb_bits (d1 ! u) (d2 ! u);
     Some (y\<lparr>y_ptr := of_nat u, y_bitmask := drop_bit (unat r) 0x80,
             y_critbit := of_nat u * 8 + ucast r\<rparr>)
   }"

text \<open>The first loop of \<open>hcb_insert\<close>: down to a leaf.\<close>

fun hcb_descend :: "u8 list \<Rightarrow> hcb \<Rightarrow> hcb option" where
  "hcb_descend d (Hcb_y y l r) = do {
     assert_c (unat (y_ptr y) < DIGEST_LEN);
     (if hcb_side d y then hcb_descend d r else hcb_descend d l)
   }"
| "hcb_descend d t = Some t"

text \<open>The second loop: down to the first node with a higher critical bit, and the link in.\<close>

definition hcb_link :: "u8 list \<Rightarrow> hcb_ynode \<Rightarrow> oh_ref \<Rightarrow> hcb \<Rightarrow> hcb" where
  "hcb_link d y2 oh t = (if hcb_side d y2 then Hcb_y y2 t (Hcb_node oh) else Hcb_y y2 (Hcb_node oh) t)"

fun hcb_place :: "u8 list \<Rightarrow> hcb_ynode \<Rightarrow> oh_ref \<Rightarrow> hcb \<Rightarrow> hcb option" where
  "hcb_place d y2 oh (Hcb_y y l r) = do {
     assert_c (y_critbit y \<noteq> y_critbit y2);
     (if y_critbit y > y_critbit y2 then Some (hcb_link d y2 oh (Hcb_y y l r))
      else do {
        assert_c (unat (y_ptr y) < DIGEST_LEN);
        (if hcb_side d y
         then do { r' \<leftarrow> hcb_place d y2 oh r; Some (Hcb_y y l r') }
         else do { l' \<leftarrow> hcb_place d y2 oh l; Some (Hcb_y y l' r) })
      })
   }"
| "hcb_place d y2 oh t = Some (hcb_link d y2 oh t)"

text \<open>
  \<open>hcb_insert\<close>: the spare node of the worker, the tree and the returned head, which is
  \<open>None\<close> where the code returns \<open>NULL\<close>.
\<close>

definition hcb_insert :: "oh_store \<Rightarrow> hcb_ynode option \<Rightarrow> hcb \<Rightarrow> oh_ref \<Rightarrow> bool \<Rightarrow>
    (hcb_ynode option \<times> hcb \<times> oh_ref option) option" where
  "hcb_insert hs nhashpriv root oh has_lock =
     (let d = digest_of hs oh in
      if root = Hcb_null
      then if \<not> has_lock then Some (nhashpriv, root, None) else Some (nhashpriv, Hcb_node oh, Some oh)
      else do {
        pp \<leftarrow> hcb_descend d root;
        (case pp of
           Hcb_null \<Rightarrow> do { assert_c (\<not> has_lock); Some (nhashpriv, root, None) }
         | Hcb_y y l r \<Rightarrow> None
         | Hcb_node oh2 \<Rightarrow>
             if memcmp (digest_of hs oh2) d = 0 then Some (nhashpriv, root, Some oh2)
             else if \<not> has_lock then Some (nhashpriv, root, None)
             else do {
               y2 \<leftarrow> nhashpriv;
               y2 \<leftarrow> hcb_crit_bit d (digest_of hs oh2) y2;
               root' \<leftarrow> hcb_place d y2 oh root;
               Some (None, root', Some oh)
             })
      })"

text \<open>\<open>hcb_delete\<close>: the tree without the head, and the branching node that goes on \<open>cool_y\<close>.\<close>

fun hcb_unlink :: "u8 list \<Rightarrow> oh_ref \<Rightarrow> hcb \<Rightarrow> (hcb \<times> hcb_ynode) option" where
  "hcb_unlink d oh (Hcb_y y l r) = do {
     assert_c (unat (y_ptr y) < DIGEST_LEN);
     (if hcb_side d y
      then if r = Hcb_node oh then Some (l, y)
           else do { (r', x) \<leftarrow> hcb_unlink d oh r; Some (Hcb_y y l r', x) }
      else if l = Hcb_node oh then Some (r, y)
           else do { (l', x) \<leftarrow> hcb_unlink d oh l; Some (Hcb_y y l' r, x) })
   }"
| "hcb_unlink d oh t = None"

definition hcb_delete :: "oh_store \<Rightarrow> hcb \<Rightarrow> oh_ref \<Rightarrow> (hcb \<times> hcb_ynode list) option" where
  "hcb_delete hs root oh =
     (if root = Hcb_node oh then Some (Hcb_null, [])
      else do { (t, y) \<leftarrow> hcb_unlink (digest_of hs oh) oh root; Some (t, [y]) })"

subsection \<open>The hash implementation\<close>

record hcb_state =
  hcb_root :: hcb
  hcb_cool_y :: "hcb_ynode list"
  hcb_dead_y :: "hcb_ynode list"
  hcb_cool_h :: "oh_ref list"
  hcb_dead_h :: "oh_ref list"
  hcb_nhashpriv :: "hcb_ynode option"
  hcb_next_y :: nat
  hcb_n_nolock :: u64
  hcb_n_lock :: u64
  hcb_n_insert :: u64

definition hcb_start :: hcb_state where
  "hcb_start = \<lparr>hcb_root = Hcb_null, hcb_cool_y = [], hcb_dead_y = [], hcb_cool_h = [],
     hcb_dead_h = [], hcb_nhashpriv = None, hcb_next_y = 0, hcb_n_nolock = 0, hcb_n_lock = 0,
     hcb_n_insert = 0\<rparr>"

definition hcb_prep :: "hcb_state \<Rightarrow> hcb_state" where
  "hcb_prep st =
     (if hcb_nhashpriv st = None
      then st\<lparr>hcb_nhashpriv := Some \<lparr>y_id = hcb_next_y st, y_critbit = 0, y_ptr = 0, y_bitmask = 0\<rparr>,
              hcb_next_y := Suc (hcb_next_y st)\<rparr>
      else st)"

text \<open>The \<open>while (1)\<close> of \<open>hcb_lookup\<close>; that it returns is part of what is proved of it.\<close>

partial_function (option) hcb_lookup_loop ::
    "bool \<Rightarrow> hcb_state \<Rightarrow> oh_store \<Rightarrow> oh_ref \<Rightarrow> (hcb_state \<times> oh_store \<times> oh_ref) option" where
  "hcb_lookup_loop with_lock st hs noh = do {
     assert_c (with_lock \<longrightarrow> hcb_nhashpriv st \<noteq> None \<and> oh_refcnt (hs noh) = 1);
     let st1 = (if with_lock then st\<lparr>hcb_n_lock := hcb_n_lock st + 1\<rparr>
                else st\<lparr>hcb_n_nolock := hcb_n_nolock st + 1\<rparr>);
     (y, root, found) \<leftarrow> hcb_insert hs (hcb_nhashpriv st1) (hcb_root st1) noh with_lock;
     let st2 = st1\<lparr>hcb_nhashpriv := y, hcb_root := root\<rparr>;
     (case found of
        None \<Rightarrow> do { assert_c (\<not> with_lock); hcb_lookup_loop True st2 hs noh }
      | Some oh \<Rightarrow>
          if oh = noh then do {
            assert_c with_lock;
            assert_c (oh_refcnt (hs oh) > 0);
            Some (st2\<lparr>hcb_n_insert := hcb_n_insert st2 + 1\<rparr>, hs, oh)
          }
          else if oh_refcnt (hs oh) > 0 then Some (st2, oh_add_ref hs oh 1, oh)
          else hcb_lookup_loop True st2 hs noh)
   }"

definition hcb_lookup :: "hcb_state \<Rightarrow> oh_store \<Rightarrow> oh_ref \<Rightarrow> (hcb_state \<times> oh_store \<times> oh_ref) option" where
  "hcb_lookup st hs noh = hcb_lookup_loop False st hs noh"

definition hcb_deref :: "hcb_state \<Rightarrow> oh_store \<Rightarrow> oh_ref \<Rightarrow> (hcb_state \<times> oh_store \<times> bool) option" where
  "hcb_deref st hs oh = do {
     assert_c (oh_refcnt (hs oh) > 0);
     let hs' = oh_add_ref hs oh (-1);
     (if oh_refcnt (hs' oh) = 0 then do {
        (root, ys) \<leftarrow> hcb_delete hs' (hcb_root st) oh;
        let st' = st\<lparr>hcb_root := root, hcb_cool_y := hcb_cool_y st @ ys,
                     hcb_cool_h := hcb_cool_h st @ [oh]\<rparr>;
        assert_c (oh_objcs (hs' oh) = []);
        assert_c (oh_waitinglist (hs' oh) = None);
        Some (st', hs', True)
      }
      else Some (st, hs', True))
   }"

text \<open>
  One round of \<open>hcb_cleaner\<close>: what was dead is freed (heads through
  \<open>HSH_DeleteObjHead\<close>, which asserts that they are unreferenced and empty), what was cooling
  becomes dead. The freed nodes and heads are returned.
\<close>

definition hcb_cleaner_round :: "hcb_state \<Rightarrow> oh_store \<Rightarrow> (hcb_state \<times> hcb_ynode list \<times> oh_ref list) option" where
  "hcb_cleaner_round st hs = do {
     assert_c (list_all (\<lambda>oh. oh_refcnt (hs oh) = 0 \<and> oh_objcs (hs oh) = []) (hcb_dead_h st));
     Some (st\<lparr>hcb_dead_y := hcb_cool_y st, hcb_cool_y := [],
              hcb_dead_h := hcb_cool_h st, hcb_cool_h := []\<rparr>, hcb_dead_y st, hcb_dead_h st)
   }"

subsection \<open>Invariant\<close>

text \<open>Bit \<open>c\<close> of a digest, counted from the most significant bit of its first byte.\<close>

definition dbit :: "u8 list \<Rightarrow> nat \<Rightarrow> bool" where
  "dbit d c = bit (d ! (c div 8)) (7 - c mod 8)"

definition y_ok :: "hcb_ynode \<Rightarrow> nat \<Rightarrow> bool" where
  "y_ok y c \<longleftrightarrow> c < 256 \<and> y_critbit y = of_nat c \<and> y_ptr y = of_nat (c div 8) \<and>
     y_bitmask y = drop_bit (c mod 8) 0x80"

fun hcb_leaves :: "hcb \<Rightarrow> oh_ref set" where
  "hcb_leaves Hcb_null = {}"
| "hcb_leaves (Hcb_node oh) = {oh}"
| "hcb_leaves (Hcb_y y l r) = hcb_leaves l \<union> hcb_leaves r"

fun hcb_ys :: "hcb \<Rightarrow> hcb_ynode list" where
  "hcb_ys (Hcb_y y l r) = y # hcb_ys l @ hcb_ys r"
| "hcb_ys t = []"

definition all_bit :: "oh_store \<Rightarrow> oh_ref set \<Rightarrow> nat \<Rightarrow> bool \<Rightarrow> bool" where
  "all_bit hs S c v \<longleftrightarrow> (\<forall>a \<in> S. dbit (digest_of hs a) c = v)"

definition agree_below :: "oh_store \<Rightarrow> oh_ref set \<Rightarrow> nat \<Rightarrow> bool" where
  "agree_below hs S c \<longleftrightarrow>
     (\<forall>a \<in> S. \<forall>b \<in> S. \<forall>j < c. dbit (digest_of hs a) j = dbit (digest_of hs b) j)"

fun hcb_ok :: "oh_store \<Rightarrow> hcb \<Rightarrow> bool" where
  "hcb_ok hs Hcb_null = True"
| "hcb_ok hs (Hcb_node oh) = (length (digest_of hs oh) = DIGEST_LEN)"
| "hcb_ok hs (Hcb_y y l r) =
     (l \<noteq> Hcb_null \<and> r \<noteq> Hcb_null \<and> hcb_ok hs l \<and> hcb_ok hs r \<and>
      (let c = unat (y_critbit y) in
       y_ok y c \<and> all_bit hs (hcb_leaves l) c False \<and> all_bit hs (hcb_leaves r) c True \<and>
       agree_below hs (hcb_leaves l \<union> hcb_leaves r) c))"

definition hcb_inv :: "hcb_state \<Rightarrow> oh_store \<Rightarrow> bool" where
  "hcb_inv st hs \<longleftrightarrow> hcb_ok hs (hcb_root st) \<and> (\<forall>a \<in> hcb_leaves (hcb_root st). 0 < oh_refcnt (hs a))"

text \<open>
  The life of the tree: look-ups (after \<open>hcb_prep\<close>) with a fresh head, releases, rounds of
  the cleaner, and whatever the users of the heads do to their own fields.
\<close>

inductive hcb_run :: "hcb_state \<Rightarrow> oh_store \<Rightarrow> bool" where
  hcb_run_start: "hcb_run hcb_start hs"
| hcb_run_lookup: "hcb_run st hs \<Longrightarrow>
    noh \<notin> hcb_leaves (hcb_root st) \<union> set (hcb_cool_h st) \<union> set (hcb_dead_h st) \<Longrightarrow>
    oh_refcnt (hs noh) = 1 \<Longrightarrow> length (digest_of hs noh) = DIGEST_LEN \<Longrightarrow>
    hcb_lookup (hcb_prep st) hs noh = Some (st', hs', oh) \<Longrightarrow> hcb_run st' hs'"
| hcb_run_deref: "hcb_run st hs \<Longrightarrow> oh \<in> hcb_leaves (hcb_root st) \<Longrightarrow>
    (oh_refcnt (hs oh) = 1 \<Longrightarrow> oh_objcs (hs oh) = [] \<and> oh_waitinglist (hs oh) = None) \<Longrightarrow>
    hcb_deref st hs oh = Some (st', hs', r) \<Longrightarrow> hcb_run st' hs'"
| hcb_run_clean: "hcb_run st hs \<Longrightarrow> hcb_cleaner_round st hs = Some (st', ys, ohs) \<Longrightarrow> hcb_run st' hs"
| hcb_run_user: "hcb_run st hs \<Longrightarrow>
    (\<And>a. a \<in> hcb_leaves (hcb_root st) \<Longrightarrow> same_hash_part (hs a) (hs' a)) \<Longrightarrow>
    (\<And>a. a \<in> set (hcb_cool_h st) \<union> set (hcb_dead_h st) \<Longrightarrow> hs' a = hs a) \<Longrightarrow> hcb_run st hs'"

text \<open>All branching nodes that are allocated, and the invariant of a run.\<close>

definition hcb_all_ys :: "hcb_state \<Rightarrow> hcb_ynode list" where
  "hcb_all_ys st = hcb_ys (hcb_root st) @ hcb_cool_y st @ hcb_dead_y st @
     (case hcb_nhashpriv st of None \<Rightarrow> [] | Some y \<Rightarrow> [y])"

definition hcb_ids_ok :: "hcb_state \<Rightarrow> bool" where
  "hcb_ids_ok st \<longleftrightarrow> distinct (map y_id (hcb_all_ys st)) \<and>
     list_all (\<lambda>y. y_id y < hcb_next_y st) (hcb_all_ys st)"

definition hcb_heads_ok :: "hcb_state \<Rightarrow> oh_store \<Rightarrow> bool" where
  "hcb_heads_ok st hs \<longleftrightarrow> distinct (hcb_cool_h st @ hcb_dead_h st) \<and>
     (\<forall>a \<in> set (hcb_cool_h st) \<union> set (hcb_dead_h st).
        a \<notin> hcb_leaves (hcb_root st) \<and> oh_refcnt (hs a) = 0 \<and> oh_objcs (hs a) = [])"

declare hcb_fill.simps [simp del] hcb_first_diff.simps [simp del]

subsection \<open>Tags\<close>

lemma hcb_node_tag_roundtrip:
  assumes "hcb_r_node n = Some u"
  shows "hcb_is_node u \<and> \<not> hcb_is_y u \<and> hcb_l_node u = Some n"
proof -
  have z: "n AND (1 OR 2) = 0" and u: "u = 1 OR n"
    using assms by (auto simp: hcb_r_node_def HCB_BIT_NODE_def HCB_BIT_Y_def panic_simps split: if_splits)
  have n: "\<not> bit n 0" "\<not> bit n 1"
    using arg_cong [OF z, of "\<lambda>w. bit w 0"] arg_cong [OF z, of "\<lambda>w. bit w 1"]
    by (simp_all add: bit_simps)
  have one: "x AND 1 \<noteq> 0 \<longleftrightarrow> bit x 0" and two: "x AND 2 \<noteq> 0 \<longleftrightarrow> bit x 1" for x :: u64
    using and_exp_eq_0_iff_not_bit [of x 0] and_exp_eq_0_iff_not_bit [of x 1] by simp_all
  have bits: "bit u 0" "\<not> bit u 1"
    using n u by (simp_all add: bit_simps)
  have "u AND NOT 1 = n"
    by (rule bit_eqI) (use n(1) u in \<open>auto simp: bit_simps intro: gr0I\<close>)
  moreover have "u AND 1 \<noteq> 0" "u AND 2 = 0"
    using bits one [of u] two [of u] by simp_all
  ultimately show ?thesis
    by (simp add: hcb_is_node_def hcb_is_y_def hcb_l_node_def HCB_BIT_NODE_def HCB_BIT_Y_def)
qed

subsection \<open>The bit table counts common leading bits\<close>

lemma hcb_bittbl_check:
  "length hcb_bittbl = 256 \<and>
   list_all (\<lambda>(i, r). if i = 0 then r = (8 :: u8)
       else unat r < 8 \<and> 2 ^ (7 - unat r) \<le> i \<and> i < 2 ^ (8 - unat r)) (zip [0..<256] hcb_bittbl)"
  by code_simp

lemma hcb_bittbl_nth:
  assumes "i < 256"
  shows "if i = 0 then hcb_bittbl ! i = 8
    else unat (hcb_bittbl ! i) < 8 \<and> 2 ^ (7 - unat (hcb_bittbl ! i)) \<le> i \<and>
      i < 2 ^ (8 - unat (hcb_bittbl ! i))"
proof -
  have "(i, hcb_bittbl ! i) \<in> set (zip [0..<256] hcb_bittbl)"
    using assms hcb_bittbl_check by (auto simp: in_set_zip intro!: exI [of _ i])
  with hcb_bittbl_check show ?thesis by (auto simp: list_all_iff)
qed

lemma bit_high_zero:
  fixes z :: u8
  assumes "unat z < 2 ^ k" and "k \<le> j"
  shows "\<not> bit z j"
proof -
  have "unat z < 2 ^ j"
    using assms by (meson less_le_trans one_le_numeral power_increasing)
  then have "\<not> bit (unat z) j"
    by (simp add: bit_iff_odd)
  then show ?thesis by (simp add: bit_unsigned_iff)
qed

lemma bit_top_one:
  fixes z :: u8
  assumes "2 ^ k \<le> unat z" and "unat z < 2 ^ Suc k"
  shows "bit z k"
proof -
  have "unat z div 2 ^ k = 1"
    using assms by (intro div_nat_eqI) simp_all
  then have "bit (unat z) k"
    by (simp add: bit_iff_odd)
  then show ?thesis by (simp add: bit_unsigned_iff)
qed

lemma hcb_bits_spec:
  assumes "x \<noteq> y"
  shows "unat (hcb_bits x y) < 8 \<and> bit x (7 - unat (hcb_bits x y)) \<noteq> bit y (7 - unat (hcb_bits x y)) \<and>
    (\<forall>j < unat (hcb_bits x y). bit x (7 - j) = bit y (7 - j))"
proof -
  define z where "z = x XOR y"
  define r where "r = unat (hcb_bits x y)"
  have z0: "unat z \<noteq> 0"
    using assms unfolding z_def unsigned_eq_0_iff
    by (metis xor.assoc xor.left_neutral xor.right_neutral xor_self_eq)
  have "unat z < 256"
    using unsigned_less [of z] by simp
  from hcb_bittbl_nth [OF this] z0
  have r: "r < 8" "2 ^ (7 - r) \<le> unat z" "unat z < 2 ^ (8 - r)"
    by (simp_all add: r_def hcb_bits_def z_def)
  have eq: "8 - r = Suc (7 - r)" using r(1) by simp
  have "bit z (7 - r)"
    using r eq by (intro bit_top_one) simp_all
  moreover have "\<not> bit z (7 - j)" if "j < r" for j
    using that r by (intro bit_high_zero [OF r(3)]) simp
  ultimately show ?thesis
    using r(1) unfolding r_def [symmetric] z_def by (auto simp: bit_xor_iff)
qed

subsection \<open>Bits of digests\<close>

lemma hcb_side_dbit:
  assumes "y_ok y c"
  shows "hcb_side d y = dbit d c"
proof -
  have "drop_bit m 0x80 = (2 :: u8) ^ (7 - m)" if "m < 8" for m
  proof -
    have "m \<in> {0, 1, 2, 3, 4, 5, 6, 7}" using that by auto
    then show ?thesis by (auto simp: drop_bit_eq_div)
  qed
  then have "y_bitmask y = 2 ^ (7 - c mod 8)"
    using assms by (simp add: y_ok_def)
  moreover have "unat (y_ptr y) = c div 8"
    using assms by (auto simp: y_ok_def unat_of_nat)
  ultimately show ?thesis
    by (simp add: hcb_side_def dbit_def and_exp_eq_0_iff_not_bit)
qed

lemma y_ok_ptr: "y_ok y c \<Longrightarrow> unat (y_ptr y) < DIGEST_LEN"
  by (auto simp: y_ok_def unat_of_nat DIGEST_LEN_def)

lemma y_ok_critbit: "y_ok y c \<Longrightarrow> unat (y_critbit y) = c"
  by (simp add: y_ok_def unat_of_nat)

lemma hcb_first_diff_spec:
  "(\<forall>i. u \<le> i \<and> i < hcb_first_diff u d1 d2 \<longrightarrow> d1 ! i = d2 ! i) \<and> u \<le> hcb_first_diff u d1 d2 \<and>
   (hcb_first_diff u d1 d2 < DIGEST_LEN \<longrightarrow> d1 ! hcb_first_diff u d1 d2 \<noteq> d2 ! hcb_first_diff u d1 d2)"
proof (induction u d1 d2 rule: hcb_first_diff.induct)
  case (1 u d1 d2)
  show ?case
  proof (cases "u < DIGEST_LEN \<and> d1 ! u = d2 ! u")
    case True
    then have eq: "hcb_first_diff u d1 d2 = hcb_first_diff (Suc u) d1 d2"
      by (simp add: hcb_first_diff.simps [of u])
    from 1 [OF True] True show ?thesis
      unfolding eq by (metis Suc_leD le_antisym not_less_eq_eq)
  next
    case False
    then show ?thesis by (auto simp: hcb_first_diff.simps [of u])
  qed
qed

lemma hcb_crit_bit_spec:
  assumes "length d1 = DIGEST_LEN" and "length d2 = DIGEST_LEN" and "d1 \<noteq> d2"
  shows "\<exists>y' c. hcb_crit_bit d1 d2 y = Some y' \<and> y_ok y' c \<and> y_id y' = y_id y \<and>
    dbit d1 c \<noteq> dbit d2 c \<and> (\<forall>j < c. dbit d1 j = dbit d2 j)"
proof -
  define u where "u = hcb_first_diff 0 d1 d2"
  have before: "\<And>i. i < u \<Longrightarrow> d1 ! i = d2 ! i" and
    at: "u < DIGEST_LEN \<Longrightarrow> d1 ! u \<noteq> d2 ! u"
    using hcb_first_diff_spec [of 0 d1 d2] by (auto simp: u_def)
  have u: "u < DIGEST_LEN"
    using assms before by (metis not_le nth_equalityI order.strict_trans2)
  define r where "r = unat (hcb_bits (d1 ! u) (d2 ! u))"
  have r: "r < 8" "bit (d1 ! u) (7 - r) \<noteq> bit (d2 ! u) (7 - r)"
    "\<And>j. j < r \<Longrightarrow> bit (d1 ! u) (7 - j) = bit (d2 ! u) (7 - j)"
    using hcb_bits_spec [OF at [OF u]] by (simp_all add: r_def)
  define c where "c = u * 8 + r"
  have c: "c div 8 = u" "c mod 8 = r" "c < 256"
    using r(1) u by (simp_all add: c_def DIGEST_LEN_def)
  let ?y = "y\<lparr>y_ptr := of_nat u, y_bitmask := drop_bit r 0x80,
    y_critbit := of_nat u * 8 + ucast (hcb_bits (d1 ! u) (d2 ! u))\<rparr>"
  have "(ucast (hcb_bits (d1 ! u) (d2 ! u)) :: u16) = of_nat r"
    by (simp add: r_def word_unat_eq_iff unat_of_nat unsigned_ucast_eq take_bit_eq_mod)
  then have "y_ok ?y c"
    using c by (simp add: y_ok_def c_def)
  moreover have "hcb_crit_bit d1 d2 y = Some ?y"
    using u by (simp add: hcb_crit_bit_def u_def r_def Let_def)
  moreover have "dbit d1 c \<noteq> dbit d2 c"
    using r(2) c by (simp add: dbit_def)
  moreover have "dbit d1 j = dbit d2 j" if "j < c" for j
  proof (cases "j div 8 < u")
    case True
    then show ?thesis by (simp add: dbit_def before)
  next
    case False
    then have "j div 8 = u"
      using that c by (metis div_le_mono le_neq_implies_less less_imp_le_nat)
    moreover from this have "j mod 8 < r"
      using that by (simp add: c_def) (metis add_less_cancel_left div_mult_mod_eq mult.commute)
    ultimately show ?thesis by (simp add: dbit_def r(3))
  qed
  ultimately show ?thesis by fastforce
qed

subsection \<open>The tree invariant\<close>

lemma all_bitD: "all_bit hs S c v \<Longrightarrow> a \<in> S \<Longrightarrow> dbit (digest_of hs a) c = v"
  by (simp add: all_bit_def)

lemma all_bit_insert [simp]:
  "all_bit hs (insert a S) c v \<longleftrightarrow> dbit (digest_of hs a) c = v \<and> all_bit hs S c v"
  by (simp add: all_bit_def)

lemma all_bit_empty [simp]: "all_bit hs {} c v"
  by (simp add: all_bit_def)

lemma all_bit_mono: "all_bit hs S c v \<Longrightarrow> T \<subseteq> S \<Longrightarrow> all_bit hs T c v"
  by (auto simp: all_bit_def)

lemma all_bit_frame:
  "all_bit hs S c v \<Longrightarrow> (\<And>a. a \<in> S \<Longrightarrow> digest_of hs' a = digest_of hs a) \<Longrightarrow> all_bit hs' S c v"
  by (simp add: all_bit_def)

lemma agree_belowD:
  "agree_below hs S c \<Longrightarrow> a \<in> S \<Longrightarrow> b \<in> S \<Longrightarrow> j < c \<Longrightarrow>
   dbit (digest_of hs a) j = dbit (digest_of hs b) j"
  unfolding agree_below_def by blast

lemma agree_below_mono: "agree_below hs S c \<Longrightarrow> T \<subseteq> S \<Longrightarrow> k \<le> c \<Longrightarrow> agree_below hs T k"
proof -
  assume "agree_below hs S c" "T \<subseteq> S" "k \<le> c"
  then have "dbit (digest_of hs a) j = dbit (digest_of hs b) j" if "a \<in> T" "b \<in> T" "j < k" for a b j
    using that by (intro agree_belowD [of hs S c]) auto
  then show ?thesis unfolding agree_below_def by blast
qed

lemma agree_below_frame:
  "agree_below hs S c \<Longrightarrow> (\<And>a. a \<in> S \<Longrightarrow> digest_of hs' a = digest_of hs a) \<Longrightarrow> agree_below hs' S c"
  unfolding agree_below_def by (metis (no_types, lifting))

lemma agree_below_insert:
  assumes "agree_below hs S c" and "b \<in> S"
    and "\<And>j. j < c \<Longrightarrow> dbit (digest_of hs x) j = dbit (digest_of hs b) j"
  shows "agree_below hs (insert x S) c"
proof -
  have x: "dbit (digest_of hs x) j = dbit (digest_of hs a) j" if "a \<in> S" "j < c" for a j
    using assms(3) [OF that(2)] agree_belowD [OF assms(1,2) that] by simp
  have "dbit (digest_of hs a) j = dbit (digest_of hs b) j"
    if "a \<in> insert x S" "b \<in> insert x S" "j < c" for a b j
    using that x agree_belowD [OF assms(1)] by (metis insertE)
  then show ?thesis unfolding agree_below_def by blast
qed

lemma hcb_ok_YI:
  assumes "l \<noteq> Hcb_null" "r \<noteq> Hcb_null" "hcb_ok hs l" "hcb_ok hs r" "y_ok y c"
    "all_bit hs (hcb_leaves l) c False" "all_bit hs (hcb_leaves r) c True"
    "agree_below hs (hcb_leaves l \<union> hcb_leaves r) c"
  shows "hcb_ok hs (Hcb_y y l r)"
  using assms y_ok_critbit [OF assms(5)] by simp

lemma hcb_ok_YE:
  assumes "hcb_ok hs (Hcb_y y l r)"
  obtains c where "l \<noteq> Hcb_null" "r \<noteq> Hcb_null" "hcb_ok hs l" "hcb_ok hs r" "y_ok y c"
    "all_bit hs (hcb_leaves l) c False" "all_bit hs (hcb_leaves r) c True"
    "agree_below hs (hcb_leaves l \<union> hcb_leaves r) c"
  using assms by (intro that [of "unat (y_critbit y)"]) (simp_all add: Let_def)

declare hcb_ok.simps(3) [simp del]

lemma hcb_leaves_ne: "hcb_ok hs t \<Longrightarrow> t \<noteq> Hcb_null \<Longrightarrow> hcb_leaves t \<noteq> {}"
  by (induction t) (auto elim: hcb_ok_YE)

lemma hcb_ok_digest: "hcb_ok hs t \<Longrightarrow> a \<in> hcb_leaves t \<Longrightarrow> length (digest_of hs a) = DIGEST_LEN"
  by (induction t) (auto elim: hcb_ok_YE)

lemma hcb_ok_frame:
  "hcb_ok hs t \<Longrightarrow> (\<And>a. a \<in> hcb_leaves t \<Longrightarrow> digest_of hs' a = digest_of hs a) \<Longrightarrow> hcb_ok hs' t"
proof (induction t)
  case (Hcb_y y l r)
  from Hcb_y.prems(1) show ?case
  proof (rule hcb_ok_YE)
    fix c
    assume *: "l \<noteq> Hcb_null" "r \<noteq> Hcb_null" "hcb_ok hs l" "hcb_ok hs r" "y_ok y c"
      "all_bit hs (hcb_leaves l) c False" "all_bit hs (hcb_leaves r) c True"
      "agree_below hs (hcb_leaves l \<union> hcb_leaves r) c"
    show ?thesis
      using * Hcb_y by (intro hcb_ok_YI [of l r _ y c]) (auto intro: all_bit_frame agree_below_frame)
  qed
qed auto

lemma hcb_descend_leaf:
  "hcb_ok hs t \<Longrightarrow> t \<noteq> Hcb_null \<Longrightarrow> \<exists>oh \<in> hcb_leaves t. hcb_descend d t = Some (Hcb_node oh)"
  by (induction t) (auto elim!: hcb_ok_YE simp: y_ok_ptr)

lemma hcb_descend_hit:
  "hcb_ok hs t \<Longrightarrow> oh \<in> hcb_leaves t \<Longrightarrow> hcb_descend (digest_of hs oh) t = Some (Hcb_node oh)"
proof (induction t)
  case (Hcb_y y l r)
  from Hcb_y.prems(1) show ?case
  proof (rule hcb_ok_YE)
    fix c
    assume *: "hcb_ok hs l" "hcb_ok hs r" "y_ok y c"
      "all_bit hs (hcb_leaves l) c False" "all_bit hs (hcb_leaves r) c True"
    then have "hcb_side (digest_of hs oh) y \<longleftrightarrow> oh \<in> hcb_leaves r"
      using Hcb_y.prems(2) all_bitD [OF *(4)] all_bitD [OF *(5)] by (auto simp: hcb_side_dbit)
    then show ?thesis
      using * Hcb_y by (auto simp: y_ok_ptr)
  qed
qed auto

lemma hcb_ok_unique:
  assumes "hcb_ok hs t" and "a \<in> hcb_leaves t" and "b \<in> hcb_leaves t"
    and "digest_of hs a = digest_of hs b"
  shows "a = b"
  using hcb_descend_hit [OF assms(1,2)] hcb_descend_hit [OF assms(1,3)] assms(4)
  by (metis hcb.inject(1) option.inject)

lemma hcb_link_ok:
  assumes t: "hcb_ok hs t" "t \<noteq> Hcb_null" and len: "length (digest_of hs oh) = DIGEST_LEN"
    and y: "y_ok y2 c" and diff: "all_bit hs (hcb_leaves t) c (\<not> dbit (digest_of hs oh) c)"
    and same: "agree_below hs (insert oh (hcb_leaves t)) c"
  shows "hcb_ok hs (hcb_link (digest_of hs oh) y2 oh t) \<and>
    hcb_leaves (hcb_link (digest_of hs oh) y2 oh t) = insert oh (hcb_leaves t)"
proof (cases "dbit (digest_of hs oh) c")
  case True
  then have "hcb_link (digest_of hs oh) y2 oh t = Hcb_y y2 t (Hcb_node oh)"
    by (simp add: hcb_link_def hcb_side_dbit [OF y])
  moreover have "hcb_ok hs (Hcb_y y2 t (Hcb_node oh))"
    using assms True by (intro hcb_ok_YI [OF _ _ _ _ y]) simp_all
  ultimately show ?thesis by simp
next
  case False
  then have "hcb_link (digest_of hs oh) y2 oh t = Hcb_y y2 (Hcb_node oh) t"
    by (simp add: hcb_link_def hcb_side_dbit [OF y])
  moreover have "hcb_ok hs (Hcb_y y2 (Hcb_node oh) t)"
    using assms False by (intro hcb_ok_YI [OF _ _ _ _ y]) simp_all
  ultimately show ?thesis by simp
qed

text \<open>
  Placing a new head: the leaf the descent ends in has the same bits as the new digest up to
  the critical bit, so every leaf below the place where the new node is linked has them too.
\<close>

lemma hcb_place_ok:
  assumes "hcb_ok hs t" and "t \<noteq> Hcb_null" and "length (digest_of hs oh) = DIGEST_LEN"
    and "hcb_descend (digest_of hs oh) t = Some (Hcb_node oh2)" and "y_ok y2 c"
    and "dbit (digest_of hs oh) c \<noteq> dbit (digest_of hs oh2) c"
    and "\<And>j. j < c \<Longrightarrow> dbit (digest_of hs oh) j = dbit (digest_of hs oh2) j"
  shows "\<exists>t'. hcb_place (digest_of hs oh) y2 oh t = Some t' \<and> hcb_ok hs t' \<and> t' \<noteq> Hcb_null \<and>
    hcb_leaves t' = insert oh (hcb_leaves t)"
  using assms
proof (induction t)
  case (Hcb_node a)
  have "hcb_ok hs (hcb_link (digest_of hs oh) y2 oh (Hcb_node a)) \<and>
    hcb_leaves (hcb_link (digest_of hs oh) y2 oh (Hcb_node a)) = insert oh (hcb_leaves (Hcb_node a))"
    using Hcb_node by (intro hcb_link_ok [of _ _ _ _ c]) (auto simp: agree_below_def)
  then show ?case by (simp add: hcb_link_def)
next
  case (Hcb_y y l r)
  let ?d = "digest_of hs oh"
  let ?S = "hcb_leaves (Hcb_y y l r)"
  obtain cy where cy: "l \<noteq> Hcb_null" "r \<noteq> Hcb_null" "hcb_ok hs l" "hcb_ok hs r" "y_ok y cy"
    and bits: "all_bit hs (hcb_leaves l) cy False" "all_bit hs (hcb_leaves r) cy True"
    and agree: "agree_below hs ?S cy"
    using Hcb_y.prems(1) by (elim hcb_ok_YE) simp
  have side: "hcb_side ?d y = dbit ?d cy" by (rule hcb_side_dbit [OF cy(5)])
  note ptr = y_ok_ptr [OF cy(5)]
  have down: "hcb_descend ?d (if dbit ?d cy then r else l) = Some (Hcb_node oh2)"
    using Hcb_y.prems(4) side ptr by auto
  then have oh2: "oh2 \<in> hcb_leaves (if dbit ?d cy then r else l)"
    using hcb_descend_leaf [OF cy(3,1), of ?d] hcb_descend_leaf [OF cy(4,2), of ?d]
    by (auto split: if_splits)
  then have "dbit (digest_of hs oh2) cy = dbit ?d cy"
    using bits by (auto split: if_splits dest: all_bitD)
  then have ne: "cy \<noteq> c" using Hcb_y.prems(6) by auto
  have cmp: "y_critbit y \<noteq> y_critbit y2" "y_critbit y > y_critbit y2 \<longleftrightarrow> c < cy"
    using ne y_ok_critbit [OF cy(5)] y_ok_critbit [OF Hcb_y.prems(5)]
    by (auto simp: word_less_nat_alt)
  have oh2': "oh2 \<in> ?S" using oh2 by (auto split: if_splits)
  show ?case
  proof (cases "c < cy")
    case True
    have "all_bit hs ?S c (\<not> dbit ?d c)"
      unfolding all_bit_def using agree_belowD [OF agree _ oh2' True] Hcb_y.prems(6) by auto
    moreover have "agree_below hs (insert oh ?S) c"
      using True Hcb_y.prems(7) agree_below_insert [OF agree_below_mono [OF agree order_refl] oh2']
      by simp
    ultimately have "hcb_ok hs (hcb_link ?d y2 oh (Hcb_y y l r)) \<and>
        hcb_leaves (hcb_link ?d y2 oh (Hcb_y y l r)) = insert oh ?S"
      using Hcb_y.prems by (intro hcb_link_ok [of _ _ _ _ c]) simp_all
    then show ?thesis
      using cmp True by (simp add: hcb_link_def)
  next
    case False
    with ne have less: "cy < c" by simp
    have new: "agree_below hs (insert oh ?S) cy"
      using Hcb_y.prems(7) less agree_below_insert [OF agree oh2'] by simp
    show ?thesis
    proof (cases "dbit ?d cy")
      case True
      then obtain r' where r': "hcb_place ?d y2 oh r = Some r'" "hcb_ok hs r'" "r' \<noteq> Hcb_null"
          "hcb_leaves r' = insert oh (hcb_leaves r)"
        using Hcb_y.IH(2) [OF cy(4,2) Hcb_y.prems(3)] down Hcb_y.prems(5-7) by auto
      have "hcb_ok hs (Hcb_y y l r')"
        using cy r' bits True new by (intro hcb_ok_YI [OF _ _ _ _ cy(5)]) simp_all
      with r' cmp False True side ptr show ?thesis by simp
    next
      case ff: False
      then obtain l' where l': "hcb_place ?d y2 oh l = Some l'" "hcb_ok hs l'" "l' \<noteq> Hcb_null"
          "hcb_leaves l' = insert oh (hcb_leaves l)"
        using Hcb_y.IH(1) [OF cy(3,1) Hcb_y.prems(3)] down Hcb_y.prems(5-7) by auto
      have "hcb_ok hs (Hcb_y y l' r)"
        using cy l' bits ff new by (intro hcb_ok_YI [OF _ _ _ _ cy(5)]) simp_all
      with l' cmp False ff side ptr show ?thesis by simp
    qed
  qed
qed simp

lemma hcb_unlink_ok:
  assumes "hcb_ok hs t" and "oh \<in> hcb_leaves t" and "t \<noteq> Hcb_node oh"
  shows "\<exists>t' y. hcb_unlink (digest_of hs oh) oh t = Some (t', y) \<and> hcb_ok hs t' \<and> t' \<noteq> Hcb_null \<and>
    hcb_leaves t' = hcb_leaves t - {oh} \<and> mset (hcb_ys t) = add_mset y (mset (hcb_ys t'))"
  using assms
proof (induction t)
  case (Hcb_y y l r)
  let ?d = "digest_of hs oh"
  let ?S = "hcb_leaves l \<union> hcb_leaves r"
  obtain cy where cy: "l \<noteq> Hcb_null" "r \<noteq> Hcb_null" "hcb_ok hs l" "hcb_ok hs r" "y_ok y cy"
    and bits: "all_bit hs (hcb_leaves l) cy False" "all_bit hs (hcb_leaves r) cy True"
    and agree: "agree_below hs ?S cy"
    using Hcb_y.prems(1) by (elim hcb_ok_YE) simp
  have side: "hcb_side ?d y = dbit ?d cy" by (rule hcb_side_dbit [OF cy(5)])
  note ptr = y_ok_ptr [OF cy(5)]
  show ?case
  proof (cases "dbit ?d cy")
    case True
    then have in_r: "oh \<in> hcb_leaves r" and not_l: "oh \<notin> hcb_leaves l"
      using Hcb_y.prems(2) bits(1) by (auto dest: all_bitD)
    show ?thesis
    proof (cases "r = Hcb_node oh")
      case eq: True
      then show ?thesis using True side ptr cy not_l by simp
    next
      case False
      obtain r' x where r': "hcb_unlink ?d oh r = Some (r', x)" "hcb_ok hs r'" "r' \<noteq> Hcb_null"
          "hcb_leaves r' = hcb_leaves r - {oh}" "mset (hcb_ys r) = add_mset x (mset (hcb_ys r'))"
        using Hcb_y.IH(2) [OF cy(4) in_r False] by blast
      have "hcb_ok hs (Hcb_y y l r')"
      proof (rule hcb_ok_YI [OF _ _ _ _ cy(5)])
        show "all_bit hs (hcb_leaves l) cy False" "all_bit hs (hcb_leaves r') cy True"
          using bits(1) r'(4) by (auto intro: all_bit_mono [OF bits(2)])
        show "agree_below hs (hcb_leaves l \<union> hcb_leaves r') cy"
          using r'(4) by (intro agree_below_mono [OF agree]) auto
      qed (use cy r' in simp_all)
      with r' True False side ptr not_l show ?thesis by auto
    qed
  next
    case ff: False
    then have in_l: "oh \<in> hcb_leaves l" and not_r: "oh \<notin> hcb_leaves r"
      using Hcb_y.prems(2) bits(2) by (auto dest: all_bitD)
    show ?thesis
    proof (cases "l = Hcb_node oh")
      case eq: True
      then show ?thesis using ff side ptr cy not_r by simp
    next
      case False
      obtain l' x where l': "hcb_unlink ?d oh l = Some (l', x)" "hcb_ok hs l'" "l' \<noteq> Hcb_null"
          "hcb_leaves l' = hcb_leaves l - {oh}" "mset (hcb_ys l) = add_mset x (mset (hcb_ys l'))"
        using Hcb_y.IH(1) [OF cy(3) in_l False] by blast
      have "hcb_ok hs (Hcb_y y l' r)"
      proof (rule hcb_ok_YI [OF _ _ _ _ cy(5)])
        show "all_bit hs (hcb_leaves l') cy False" "all_bit hs (hcb_leaves r) cy True"
          using bits(2) l'(4) by (auto intro: all_bit_mono [OF bits(1)])
        show "agree_below hs (hcb_leaves l' \<union> hcb_leaves r) cy"
          using l'(4) by (intro agree_below_mono [OF agree]) auto
      qed (use cy l' in simp_all)
      with l' ff False side ptr not_r show ?thesis by auto
    qed
  qed
qed auto

subsection \<open>Insert and delete\<close>

lemma hcb_insert_hit:
  assumes "hcb_ok hs root" and "oh \<in> hcb_leaves root" and "digest_of hs oh = digest_of hs noh"
  shows "hcb_insert hs np root noh lock = Some (np, root, Some oh)"
proof -
  have "hcb_descend (digest_of hs noh) root = Some (Hcb_node oh)"
    using hcb_descend_hit [OF assms(1,2)] assms(3) by simp
  moreover have "root \<noteq> Hcb_null" using assms(2) by auto
  ultimately show ?thesis by (simp add: hcb_insert_def assms(3))
qed

lemma hcb_insert_miss:
  assumes ok: "hcb_ok hs root" and len: "length (digest_of hs noh) = DIGEST_LEN"
    and no: "\<And>oh. oh \<in> hcb_leaves root \<Longrightarrow> digest_of hs oh \<noteq> digest_of hs noh"
  shows "hcb_insert hs np root noh False = Some (np, root, None)"
    and "\<exists>np' root'. hcb_insert hs (Some y) root noh True = Some (np', root', Some noh) \<and>
      hcb_ok hs root' \<and> hcb_leaves root' = insert noh (hcb_leaves root)"
proof -
  show "hcb_insert hs np root noh False = Some (np, root, None)"
  proof (cases "root = Hcb_null")
    case False
    from hcb_descend_leaf [OF ok this] obtain oh2 where
      oh2: "oh2 \<in> hcb_leaves root" "hcb_descend (digest_of hs noh) root = Some (Hcb_node oh2)"
      by blast
    have "memcmp (digest_of hs oh2) (digest_of hs noh) \<noteq> 0"
      using memcmp_eq_0_iff [of "digest_of hs oh2" "digest_of hs noh"] len no [OF oh2(1)]
        hcb_ok_digest [OF ok oh2(1)] by metis
    with oh2(2) False show ?thesis by (simp add: hcb_insert_def)
  qed (simp add: hcb_insert_def)
  show "\<exists>np' root'. hcb_insert hs (Some y) root noh True = Some (np', root', Some noh) \<and>
      hcb_ok hs root' \<and> hcb_leaves root' = insert noh (hcb_leaves root)"
  proof (cases "root = Hcb_null")
    case True
    then show ?thesis using len by (simp add: hcb_insert_def)
  next
    case False
    from hcb_descend_leaf [OF ok this] obtain oh2 where
      oh2: "oh2 \<in> hcb_leaves root" "hcb_descend (digest_of hs noh) root = Some (Hcb_node oh2)"
      by blast
    have len2: "length (digest_of hs oh2) = DIGEST_LEN" by (rule hcb_ok_digest [OF ok oh2(1)])
    have ne: "digest_of hs noh \<noteq> digest_of hs oh2" using no [OF oh2(1)] by simp
    obtain y' c where y': "hcb_crit_bit (digest_of hs noh) (digest_of hs oh2) y = Some y'" "y_ok y' c"
      "dbit (digest_of hs noh) c \<noteq> dbit (digest_of hs oh2) c"
      "\<And>j. j < c \<Longrightarrow> dbit (digest_of hs noh) j = dbit (digest_of hs oh2) j"
      using hcb_crit_bit_spec [OF len len2 ne] by blast
    obtain t' where t': "hcb_place (digest_of hs noh) y' noh root = Some t'" "hcb_ok hs t'"
      "hcb_leaves t' = insert noh (hcb_leaves root)"
      using hcb_place_ok [OF ok False len oh2(2) y'(2,3)] y'(4) by blast
    have "memcmp (digest_of hs oh2) (digest_of hs noh) \<noteq> 0"
      using memcmp_eq_0_iff [of "digest_of hs oh2" "digest_of hs noh"] len len2 ne by metis
    with oh2(2) y'(1) t' False show ?thesis by (simp add: hcb_insert_def)
  qed
qed

lemma hcb_delete_ok:
  assumes "hcb_ok hs root" and "oh \<in> hcb_leaves root"
  shows "\<exists>root' ys. hcb_delete hs root oh = Some (root', ys) \<and> hcb_ok hs root' \<and>
    hcb_leaves root' = hcb_leaves root - {oh} \<and> mset (hcb_ys root) = mset (ys @ hcb_ys root')"
proof (cases "root = Hcb_node oh")
  case True
  then show ?thesis by (simp add: hcb_delete_def)
next
  case False
  from hcb_unlink_ok [OF assms False] show ?thesis
    using False by (fastforce simp: hcb_delete_def)
qed

subsection \<open>The tree satisfies the contract\<close>

lemma hcb_prep_simps [simp]:
  "hcb_root (hcb_prep st) = hcb_root st" "\<exists>y. hcb_nhashpriv (hcb_prep st) = Some y"
  by (auto simp: hcb_prep_def)

lemma hcb_lookup_hit:
  assumes "hcb_ok hs (hcb_root st)" and "oh \<in> hcb_leaves (hcb_root st)" and "oh \<noteq> noh"
    and "digest_of hs oh = digest_of hs noh" and "0 < oh_refcnt (hs oh)"
  shows "\<exists>st'. hcb_lookup st hs noh = Some (st', oh_add_ref hs oh 1, oh) \<and> hcb_root st' = hcb_root st"
  using assms hcb_insert_hit [OF assms(1,2,4), of _ False]
  by (simp add: hcb_lookup_def hcb_lookup_loop.simps [of False] Let_def)

lemma hcb_lookup_miss:
  assumes ok: "hcb_ok hs (hcb_root st)" and len: "length (digest_of hs noh) = DIGEST_LEN"
    and no: "\<And>oh. oh \<in> hcb_leaves (hcb_root st) \<Longrightarrow> digest_of hs oh \<noteq> digest_of hs noh"
    and y: "hcb_nhashpriv st = Some y" and ref: "oh_refcnt (hs noh) = 1"
  shows "\<exists>st'. hcb_lookup st hs noh = Some (st', hs, noh) \<and> hcb_ok hs (hcb_root st') \<and>
    hcb_leaves (hcb_root st') = insert noh (hcb_leaves (hcb_root st))"
proof -
  obtain np' root' where
    ins: "hcb_insert hs (Some y) (hcb_root st) noh True = Some (np', root', Some noh)"
    and root': "hcb_ok hs root'" "hcb_leaves root' = insert noh (hcb_leaves (hcb_root st))"
    using hcb_insert_miss(2) [OF ok len no] by blast
  have first: "hcb_insert hs (Some y) (hcb_root st) noh False = Some (Some y, hcb_root st, None)"
    by (rule hcb_insert_miss(1) [OF ok len no])
  have again: "hcb_lookup_loop True st1 hs noh = Some (st1\<lparr>hcb_n_lock := hcb_n_lock st1 + 1,
      hcb_nhashpriv := np', hcb_root := root', hcb_n_insert := hcb_n_insert st1 + 1\<rparr>, hs, noh)"
    if "hcb_nhashpriv st1 = Some y" "hcb_root st1 = hcb_root st" for st1
    using ins ref that by (subst hcb_lookup_loop.simps) (simp add: Let_def)
  have "hcb_lookup st hs noh =
      hcb_lookup_loop True (st\<lparr>hcb_n_nolock := hcb_n_nolock st + 1, hcb_nhashpriv := Some y\<rparr>) hs noh"
    unfolding hcb_lookup_def
    by (subst hcb_lookup_loop.simps) (use first y in \<open>simp add: Let_def\<close>)
  with again [of "st\<lparr>hcb_n_nolock := hcb_n_nolock st + 1, hcb_nhashpriv := Some y\<rparr>"] root'
  show ?thesis by simp
qed

interpretation hcb: hash_slinger hcb_prep hcb_lookup hcb_deref "\<lambda>st. hcb_leaves (hcb_root st)" hcb_inv
proof (unfold_locales, goal_cases)
  case 1 then show ?case by (auto simp: hcb_inv_def intro: hcb_ok_digest)
next
  case 2 then show ?case using hcb_ok_unique unfolding hcb_inv_def by blast
next
  case 3 then show ?case by (simp add: hcb_inv_def)
next
  case (4 st hs hs')
  have same: "digest_of hs' a = digest_of hs a" "oh_refcnt (hs' a) = oh_refcnt (hs a)"
    if "a \<in> hcb_leaves (hcb_root st)" for a
    using 4(2) [OF that] unfolding same_hash_part_def by simp_all
  have "hcb_ok hs' (hcb_root st)"
    using 4(1) same(1) unfolding hcb_inv_def by (blast intro: hcb_ok_frame)
  with 4(1) same(2) show ?case unfolding hcb_inv_def by simp
next
  case (5 st hs oh noh)
  obtain st' where "hcb_lookup (hcb_prep st) hs noh = Some (st', oh_add_ref hs oh 1, oh)"
      "hcb_root st' = hcb_root st"
  proof -
    have "hcb_ok hs (hcb_root (hcb_prep st))" "oh \<in> hcb_leaves (hcb_root (hcb_prep st))"
      "oh \<noteq> noh" "0 < oh_refcnt (hs oh)"
      using 5(1-3) by (auto simp: hcb_inv_def)
    from hcb_lookup_hit [OF this(1,2,3) 5(5) this(4)] that show thesis by auto
  qed
  moreover have "hcb_ok (oh_add_ref hs oh 1) (hcb_root st)"
    by (rule hcb_ok_frame [of hs]) (use 5(1) in \<open>auto simp: hcb_inv_def\<close>)
  ultimately show ?case using 5(1) by (auto simp: hcb_inv_def add_pos_pos)
next
  case (6 st hs noh)
  obtain y where "hcb_nhashpriv (hcb_prep st) = Some y" using hcb_prep_simps(2) by blast
  then obtain st' where st': "hcb_lookup (hcb_prep st) hs noh = Some (st', hs, noh)"
      "hcb_ok hs (hcb_root st')" "hcb_leaves (hcb_root st') = insert noh (hcb_leaves (hcb_root st))"
    using hcb_lookup_miss [of hs "hcb_prep st" noh] 6 by (auto simp: hcb_inv_def)
  have "hcb_inv st' hs"
    using st' 6(1,3) by (simp add: hcb_inv_def)
  with st' 6(3) show ?case
    by (intro exI [of _ st'] exI [of _ "hs noh"]) (simp add: same_user_part_def)
next
  case (7 st hs oh)
  have "hcb_ok (oh_add_ref hs oh (-1)) (hcb_root st)"
    by (rule hcb_ok_frame [of hs]) (use 7(1) in \<open>auto simp: hcb_inv_def\<close>)
  with 7 show ?case by (auto simp: hcb_deref_def hcb_inv_def Let_def)
next
  case (8 st hs oh)
  let ?hs = "oh_add_ref hs oh (-1)"
  have "hcb_ok ?hs (hcb_root st)"
    by (rule hcb_ok_frame [of hs]) (use 8(1) in \<open>auto simp: hcb_inv_def\<close>)
  from hcb_delete_ok [OF this 8(2)] obtain root' ys where
    del: "hcb_delete ?hs (hcb_root st) oh = Some (root', ys)" "hcb_ok ?hs root'"
      "hcb_leaves root' = hcb_leaves (hcb_root st) - {oh}"
    by blast
  then show ?case using 8 by (auto simp: hcb_deref_def hcb_inv_def Let_def)
next
  case 9 then show ?case by (simp add: hcb_inv_def)
qed

subsection \<open>The life of branching nodes and heads\<close>

lemma hcb_crit_bit_id: "hcb_crit_bit d1 d2 y = Some y' \<Longrightarrow> y_id y' = y_id y"
  by (auto simp: hcb_crit_bit_def Let_def panic_simps split: if_splits)

lemma hcb_place_ys:
  "hcb_place d y2 oh t = Some t' \<Longrightarrow> mset (hcb_ys t') = add_mset y2 (mset (hcb_ys t))"
  by (induction t arbitrary: t')
     (auto simp: hcb_link_def panic_simps split: if_splits Option.bind_splits)

lemma hcb_insert_ids:
  assumes "hcb_insert hs np root noh lock = Some (np', root', r)"
  shows "image_mset y_id (mset (hcb_ys root' @ (case np' of None \<Rightarrow> [] | Some y \<Rightarrow> [y]))) =
    image_mset y_id (mset (hcb_ys root @ (case np of None \<Rightarrow> [] | Some y \<Rightarrow> [y])))"
proof (cases "root' = root \<and> np' = np \<or> root = Hcb_null")
  case True
  with assms show ?thesis by (auto simp: hcb_insert_def split: if_splits)
next
  case False
  with assms obtain y y' oh2 where "np = Some y" "np' = None"
    "hcb_crit_bit (digest_of hs noh) (digest_of hs oh2) y = Some y'"
    "hcb_place (digest_of hs noh) y' noh root = Some root'"
    by (auto simp: hcb_insert_def Let_def panic_simps split: if_splits Option.bind_splits hcb.splits)
  then show ?thesis by (simp add: hcb_place_ys hcb_crit_bit_id)
qed

lemma hcb_ids_ok_mset:
  assumes "image_mset y_id (mset (hcb_all_ys st')) = image_mset y_id (mset (hcb_all_ys st))"
    and "hcb_next_y st' = hcb_next_y st" and "hcb_ids_ok st"
  shows "hcb_ids_ok st'"
proof -
  have m: "mset (map y_id (hcb_all_ys st')) = mset (map y_id (hcb_all_ys st))"
    using assms(1) by simp
  then have "distinct (map y_id (hcb_all_ys st'))"
    using assms(3) mset_eq_imp_distinct_iff unfolding hcb_ids_ok_def by blast
  moreover have "y_id ` set (hcb_all_ys st') = y_id ` set (hcb_all_ys st)"
    using mset_eq_setD [OF m] by simp
  then have "\<forall>i \<in> y_id ` set (hcb_all_ys st'). i < hcb_next_y st"
    using assms(3) unfolding hcb_ids_ok_def list_all_iff by simp
  ultimately show ?thesis
    using assms(2) unfolding hcb_ids_ok_def list_all_iff by simp
qed

lemma hcb_prep_ids: "hcb_ids_ok st \<Longrightarrow> hcb_ids_ok (hcb_prep st)"
  by (auto simp: hcb_ids_ok_def hcb_prep_def hcb_all_ys_def list_all_iff less_Suc_eq)

text \<open>What a look-up leaves alone, whatever it finds: by the induction rule of the loop.\<close>

definition hcb_same_lists :: "hcb_state \<Rightarrow> hcb_state \<Rightarrow> bool" where
  "hcb_same_lists st st' \<longleftrightarrow> hcb_cool_y st' = hcb_cool_y st \<and> hcb_dead_y st' = hcb_dead_y st \<and>
     hcb_cool_h st' = hcb_cool_h st \<and> hcb_dead_h st' = hcb_dead_h st \<and>
     hcb_next_y st' = hcb_next_y st \<and>
     image_mset y_id (mset (hcb_all_ys st')) = image_mset y_id (mset (hcb_all_ys st))"

lemma hcb_insert_same_lists:
  assumes "hcb_insert hs (hcb_nhashpriv st) (hcb_root st) noh lock = Some (y, root, r)"
    and "hcb_cool_y st' = hcb_cool_y st" "hcb_dead_y st' = hcb_dead_y st"
    "hcb_cool_h st' = hcb_cool_h st" "hcb_dead_h st' = hcb_dead_h st" "hcb_next_y st' = hcb_next_y st"
    "hcb_nhashpriv st' = y" "hcb_root st' = root"
  shows "hcb_same_lists st st'"
  using hcb_insert_ids [OF assms(1)] assms(2-)
  by (simp add: hcb_same_lists_def hcb_all_ys_def ac_simps)

lemma hcb_same_lists_trans:
  "hcb_same_lists a b \<Longrightarrow> hcb_same_lists b c \<Longrightarrow> hcb_same_lists a c"
  by (simp add: hcb_same_lists_def)

lemma hcb_lookup_loop_same_lists:
  "hcb_lookup_loop w st hs noh = Some r \<Longrightarrow> hcb_same_lists st (fst r)"
proof (induct w st hs noh r rule: hcb_lookup_loop.raw_induct [rotated, consumes 1])
  case (1 loop w st hs noh r)
  define st1 where "st1 = (if w then st\<lparr>hcb_n_lock := hcb_n_lock st + 1\<rparr>
                else st\<lparr>hcb_n_nolock := hcb_n_nolock st + 1\<rparr>)"
  obtain y root found where
    ins: "hcb_insert hs (hcb_nhashpriv st1) (hcb_root st1) noh w = Some (y, root, found)"
    using 1(2) by (auto simp: st1_def Let_def panic_simps split: Option.bind_splits if_splits)
  let ?st2 = "st1\<lparr>hcb_nhashpriv := y, hcb_root := root\<rparr>"
  have same: "hcb_same_lists st st2" if "st2 = ?st2 \<or> st2 = ?st2\<lparr>hcb_n_insert := hcb_n_insert ?st2 + 1\<rparr>" for st2
    by (rule hcb_insert_same_lists [of hs _ noh w y root found])
       (use ins that in \<open>auto simp: st1_def split: if_splits\<close>)
  show ?case
    using 1(2) ins same 1(1) [of True ?st2 hs noh r] hcb_same_lists_trans [OF same]
    by (auto simp: st1_def [symmetric] Let_def panic_simps split: Option.bind_splits if_splits option.splits)
qed

definition hcb_run_ok :: "hcb_state \<Rightarrow> oh_store \<Rightarrow> bool" where
  "hcb_run_ok st hs \<longleftrightarrow> hcb_inv st hs \<and> hcb_ids_ok st \<and> hcb_heads_ok st hs"

lemma hcb_lookup_run_ok:
  assumes ok: "hcb_run_ok st hs"
    and noh: "noh \<notin> hcb_leaves (hcb_root st) \<union> set (hcb_cool_h st) \<union> set (hcb_dead_h st)"
    "oh_refcnt (hs noh) = 1" "length (digest_of hs noh) = DIGEST_LEN"
    and look: "hcb_lookup (hcb_prep st) hs noh = Some (st', hs', oh)"
  shows "hcb_run_ok st' hs'"
proof -
  have inv: "hcb_inv st hs" using ok by (simp add: hcb_run_ok_def)
  have same: "hcb_same_lists (hcb_prep st) st'"
    using hcb_lookup_loop_same_lists look unfolding hcb_lookup_def by fastforce
  have lists: "hcb_cool_h (hcb_prep st) = hcb_cool_h st" "hcb_dead_h (hcb_prep st) = hcb_dead_h st"
    by (simp_all add: hcb_prep_def)
  have heads: "hcb_heads_ok st' hs'"
    if "hcb_leaves (hcb_root st') \<subseteq> insert noh (hcb_leaves (hcb_root st))"
      "\<And>a. a \<in> set (hcb_cool_h st) \<union> set (hcb_dead_h st) \<Longrightarrow> hs' a = hs a"
    using that ok same lists noh(1)
    unfolding hcb_run_ok_def hcb_heads_ok_def hcb_same_lists_def by auto
  have ids: "hcb_ids_ok st'"
    using hcb_ids_ok_mset [of st' "hcb_prep st"] hcb_prep_ids ok same
    unfolding hcb_run_ok_def hcb_same_lists_def by simp
  show ?thesis
  proof (cases "\<exists>a \<in> hcb_leaves (hcb_root st). digest_of hs a = digest_of hs noh")
    case True
    then obtain a where a: "a \<in> hcb_leaves (hcb_root st)" "digest_of hs a = digest_of hs noh" by blast
    from hcb.lookup_hit [OF inv a(1) _ noh(2) a(2)] noh(1) look
    have "hs' = oh_add_ref hs a 1" "hcb_leaves (hcb_root st') = hcb_leaves (hcb_root st)" "hcb_inv st' hs'"
      by auto
    moreover have "b \<noteq> a" if "b \<in> set (hcb_cool_h st) \<union> set (hcb_dead_h st)" for b
      using that a(1) ok unfolding hcb_run_ok_def hcb_heads_ok_def by blast
    ultimately show ?thesis using heads ids unfolding hcb_run_ok_def by auto
  next
    case False
    with hcb.lookup_miss [OF inv _ noh(2,3)] noh(1) look
    obtain h where "hs' = hs(noh := h)" "hcb_leaves (hcb_root st') = insert noh (hcb_leaves (hcb_root st))"
      "hcb_inv st' hs'"
      by auto
    moreover have "(hs(noh := h)) a = hs a" if "a \<in> set (hcb_cool_h st) \<union> set (hcb_dead_h st)" for a
      using that noh(1) by auto
    ultimately show ?thesis using heads ids unfolding hcb_run_ok_def by auto
  qed
qed

lemma hcb_deref_run_ok:
  assumes ok: "hcb_run_ok st hs" and oh: "oh \<in> hcb_leaves (hcb_root st)"
    and last: "oh_refcnt (hs oh) = 1 \<Longrightarrow> oh_objcs (hs oh) = [] \<and> oh_waitinglist (hs oh) = None"
    and der: "hcb_deref st hs oh = Some (st', hs', r)"
  shows "hcb_run_ok st' hs'"
proof -
  have inv: "hcb_inv st hs" using ok by (simp add: hcb_run_ok_def)
  have other: "b \<noteq> oh" if "b \<in> set (hcb_cool_h st) \<union> set (hcb_dead_h st)" for b
    using that oh ok unfolding hcb_run_ok_def hcb_heads_ok_def by blast
  show ?thesis
  proof (cases "oh_refcnt (hs oh) = 1")
    case True
    let ?hs = "oh_add_ref hs oh (-1)"
    have "hcb_ok ?hs (hcb_root st)"
      by (rule hcb_ok_frame [of hs]) (use inv in \<open>auto simp: hcb_inv_def\<close>)
    from hcb_delete_ok [OF this oh] obtain root' ys where
      del: "hcb_delete ?hs (hcb_root st) oh = Some (root', ys)"
        "hcb_leaves root' = hcb_leaves (hcb_root st) - {oh}" "mset (hcb_ys (hcb_root st)) = mset (ys @ hcb_ys root')"
      by blast
    have st': "st' = st\<lparr>hcb_root := root', hcb_cool_y := hcb_cool_y st @ ys, hcb_cool_h := hcb_cool_h st @ [oh]\<rparr>"
        "hs' = ?hs"
      using der del(1) last [OF True] True by (auto simp: hcb_deref_def Let_def panic_simps)
    have "hcb_inv st' hs'"
      using hcb.deref_last [OF inv oh True] last [OF True] der by auto
    moreover have "hcb_ids_ok st'"
      using ok del(3) st' by (intro hcb_ids_ok_mset [of st' st])
        (auto simp: hcb_run_ok_def hcb_all_ys_def ac_simps)
    moreover have "hcb_heads_ok st' hs'"
      using ok st' del(2) other last [OF True] True
      unfolding hcb_run_ok_def hcb_heads_ok_def by auto
    ultimately show ?thesis by (simp add: hcb_run_ok_def)
  next
    case False
    with hcb.inv_refcnt [OF inv oh] have "1 < oh_refcnt (hs oh)" by simp
    from hcb.deref_more [OF inv oh this] der have "hcb_inv st' hs'" by auto
    moreover have "st' = st" "hs' = oh_add_ref hs oh (-1)"
      using der \<open>1 < oh_refcnt (hs oh)\<close> by (auto simp: hcb_deref_def Let_def panic_simps)
    ultimately show ?thesis
      using ok other unfolding hcb_run_ok_def hcb_heads_ok_def by auto
  qed
qed

lemma hcb_run_invariant: "hcb_run st hs \<Longrightarrow> hcb_run_ok st hs"
proof (induction rule: hcb_run.induct)
  case (hcb_run_start hs)
  show ?case
    by (simp add: hcb_run_ok_def hcb_inv_def hcb_ids_ok_def hcb_heads_ok_def hcb_all_ys_def hcb_start_def)
next
  case (hcb_run_lookup st hs noh st' hs' oh)
  then show ?case by (blast intro: hcb_lookup_run_ok)
next
  case (hcb_run_deref st hs oh st' hs' r)
  then show ?case by (blast intro: hcb_deref_run_ok)
next
  case (hcb_run_clean st hs st' ys ohs)
  then have st': "st' = st\<lparr>hcb_dead_y := hcb_cool_y st, hcb_cool_y := [],
              hcb_dead_h := hcb_cool_h st, hcb_cool_h := []\<rparr>"
    by (auto simp: hcb_cleaner_round_def panic_simps split: if_splits)
  have "hcb_ids_ok st'"
    using hcb_run_clean.IH unfolding st' hcb_run_ok_def hcb_ids_ok_def hcb_all_ys_def by auto
  then show ?case
    using hcb_run_clean.IH unfolding st' by (auto simp: hcb_run_ok_def hcb_inv_def hcb_heads_ok_def)
next
  case (hcb_run_user st hs hs')
  then show ?case
    using hcb.inv_frame [of st hs hs'] unfolding hcb_run_ok_def hcb_heads_ok_def by auto
qed

subsection \<open>Properties\<close>

text \<open>A tree with one head, whose digest is all ones, in a store where head \<open>a\<close> has digest bytes \<open>a\<close>.\<close>

definition hcb_ex_store :: oh_store where
  "hcb_ex_store a = \<lparr>oh_refcnt = 1, oh_objcs = [], oh_digest = replicate 32 (of_nat a),
     oh_waitinglist = None, oh_hoh_head = None\<rparr>"

definition hcb_ex_state :: hcb_state where
  "hcb_ex_state = hcb_start\<lparr>hcb_root := Hcb_node 1\<rparr>"

lemma hcb_ex [simp]:
  "hcb_inv hcb_ex_state hcb_ex_store" "hcb_leaves (hcb_root hcb_ex_state) = {1}"
  "oh_refcnt (hcb_ex_store a) = 1" "length (digest_of hcb_ex_store a) = DIGEST_LEN"
  "oh_objcs (hcb_ex_store a) = []" "oh_waitinglist (hcb_ex_store a) = None"
  by (simp_all add: hcb_inv_def hcb_ex_state_def hcb_ex_store_def DIGEST_LEN_def)

text \<open>
  C4: a look-up in the critical bit tree returns (the loop ends and no
  assertion fails), keeps the tree well formed, and acts on the abstract hash as insert-or-count:
  a digest that is present gives its head with one more reference, a new digest is entered with
  the worker's spare head; no other digest changes.
\<close>
theorem hcb_lookup_refines:
  assumes "hcb_inv st hs" and "noh \<notin> hcb_leaves (hcb_root st)" and "oh_refcnt (hs noh) = 1"
    and "length (digest_of hs noh) = DIGEST_LEN"
  shows "\<exists>st' hs' oh. hcb_lookup (hcb_prep st) hs noh = Some (st', hs', oh) \<and> hcb_inv st' hs' \<and>
    oh \<in> hcb_leaves (hcb_root st') \<and>
    oh = fst (hash_enter (hash_abs (hcb_leaves (hcb_root st)) hs) (digest_of hs noh) noh) \<and>
    (\<forall>a. same_user_part (hs' a) (hs a)) \<and>
    hash_abs (hcb_leaves (hcb_root st')) hs' = (hash_abs (hcb_leaves (hcb_root st)) hs)(digest_of hs noh \<mapsto>
      hash_enter (hash_abs (hcb_leaves (hcb_root st)) hs) (digest_of hs noh) noh)"
  by (rule hcb.lookup_refines [OF assms])

theorem hcb_lookup_refines_witness:
  "\<exists>st' hs' oh. hcb_lookup (hcb_prep hcb_ex_state) hcb_ex_store 2 = Some (st', hs', oh) \<and> hcb_inv st' hs' \<and>
    oh \<in> hcb_leaves (hcb_root st')"
  using hcb_lookup_refines [of hcb_ex_state hcb_ex_store 2] by auto

text \<open>
  C21: releasing a head of the tree does not panic and keeps the tree well
  formed; the abstract count of its digest goes down by one, and the digest disappears exactly
  when that was the last reference.
\<close>
theorem hcb_deref_refines:
  assumes "hcb_inv st hs" and "oh \<in> hcb_leaves (hcb_root st)"
    and "oh_refcnt (hs oh) = 1 \<Longrightarrow> oh_objcs (hs oh) = [] \<and> oh_waitinglist (hs oh) = None"
  shows "\<exists>st' hs' r. hcb_deref st hs oh = Some (st', hs', r) \<and> hcb_inv st' hs' \<and>
    (1 < oh_refcnt (hs oh) \<longrightarrow> r) \<and>
    hash_abs (hcb_leaves (hcb_root st')) hs' = (hash_abs (hcb_leaves (hcb_root st)) hs)(digest_of hs oh :=
      hash_leave (oh, oh_refcnt (hs oh)))"
  by (rule hcb.deref_refines [OF assms])

theorem hcb_deref_refines_witness:
  "\<exists>st' hs' r. hcb_deref hcb_ex_state hcb_ex_store 1 = Some (st', hs', r) \<and> hcb_inv st' hs' \<and>
    hash_abs (hcb_leaves (hcb_root st')) hs' (digest_of hcb_ex_store 1) = None"
  using hcb_deref_refines [of hcb_ex_state hcb_ex_store 1] by (auto simp: hash_leave_def)

text \<open>
  C14: at every point of the life of the tree a round of the cleaner thread
  runs without a failed assertion, and frees neither a branching node nor a head that is still
  reachable from the root, waiting on the cooling lists, or held as the worker's spare node.
\<close>
theorem hcb_cleaner_safe:
  assumes "hcb_run st hs"
  shows "\<exists>st' ys ohs. hcb_cleaner_round st hs = Some (st', ys, ohs) \<and>
    y_id ` set ys \<inter> y_id ` set (hcb_all_ys st') = {} \<and>
    set ohs \<inter> (hcb_leaves (hcb_root st') \<union> set (hcb_cool_h st') \<union> set (hcb_dead_h st')) = {} \<and>
    hcb_leaves (hcb_root st') = hcb_leaves (hcb_root st)"
proof -
  have ok: "hcb_run_ok st hs" by (rule hcb_run_invariant [OF assms])
  then have "y_id ` set (hcb_dead_y st) \<inter> y_id ` (set (hcb_ys (hcb_root st)) \<union> set (hcb_cool_y st)) = {}"
      "y_id ` set (hcb_dead_y st) \<inter> y_id ` set_option (hcb_nhashpriv st) = {}"
    unfolding hcb_run_ok_def hcb_ids_ok_def hcb_all_ys_def by (auto split: option.splits)
  moreover have "list_all (\<lambda>oh. oh_refcnt (hs oh) = 0 \<and> oh_objcs (hs oh) = []) (hcb_dead_h st)"
    using ok unfolding hcb_run_ok_def hcb_heads_ok_def by (auto simp: list_all_iff)
  ultimately show ?thesis
    using ok unfolding hcb_run_ok_def hcb_heads_ok_def
    by (auto simp: hcb_cleaner_round_def hcb_all_ys_def panic_simps split: option.splits)
qed

lemma hcb_run_example: "\<exists>st. hcb_run st hcb_ex_store \<and> hcb_leaves (hcb_root st) = {1}"
proof -
  have root: "hcb_root hcb_start = Hcb_null" by (simp add: hcb_start_def)
  obtain y where "hcb_nhashpriv (hcb_prep hcb_start) = Some y" using hcb_prep_simps(2) by blast
  then obtain st' where st': "hcb_lookup (hcb_prep hcb_start) hcb_ex_store 1 = Some (st', hcb_ex_store, 1)"
      "hcb_leaves (hcb_root st') = {1}"
    using hcb_lookup_miss [of hcb_ex_store "hcb_prep hcb_start" 1] root by auto
  have "hcb_run st' hcb_ex_store"
    by (rule hcb_run_lookup [OF hcb_run_start _ _ _ st'(1)]) (simp_all add: hcb_start_def)
  with st'(2) show ?thesis by blast
qed

theorem hcb_cleaner_safe_witness:
  "\<exists>st hs st' ys ohs. hcb_leaves (hcb_root st) = {1} \<and> hcb_cleaner_round st hs = Some (st', ys, ohs) \<and>
    set ohs \<inter> {1} = {}"
proof -
  obtain st where "hcb_run st hcb_ex_store" "hcb_leaves (hcb_root st) = {1}"
    using hcb_run_example by blast
  with hcb_cleaner_safe [of st hcb_ex_store] show ?thesis by fastforce
qed

text \<open>
  C22: a head whose last reference is released leaves the tree at once, is not
  freed by the next round of the cleaner, and is freed by the round after it, so a reader that
  descends without the lock has a full round to finish.
\<close>
theorem hcb_cool_off:
  assumes "hcb_run st hs" and "oh \<in> hcb_leaves (hcb_root st)" and "oh_refcnt (hs oh) = 1"
    and "oh_objcs (hs oh) = []" and "oh_waitinglist (hs oh) = None"
  shows "\<exists>st1 hs1 r st2 ys1 freed1 st3 ys2 freed2.
    hcb_deref st hs oh = Some (st1, hs1, r) \<and> oh \<notin> hcb_leaves (hcb_root st1) \<and>
    hcb_cleaner_round st1 hs1 = Some (st2, ys1, freed1) \<and> oh \<notin> set freed1 \<and>
    hcb_cleaner_round st2 hs1 = Some (st3, ys2, freed2) \<and> oh \<in> set freed2"
proof -
  have ok: "hcb_run_ok st hs" by (rule hcb_run_invariant [OF assms(1)])
  then have inv: "hcb_inv st hs" by (simp add: hcb_run_ok_def)
  obtain st1 hs1 r where
    d: "hcb_deref st hs oh = Some (st1, hs1, r)" and l: "hcb_leaves (hcb_root st1) = hcb_leaves (hcb_root st) - {oh}"
    using hcb.deref_last [OF inv assms(2,3,4,5)] by blast
  have ok1: "hcb_run_ok st1 hs1"
    using hcb_deref_run_ok [OF ok assms(2) _ d] assms(4,5) by blast
  have lists: "hcb_cool_h st1 = hcb_cool_h st @ [oh]" "hcb_dead_h st1 = hcb_dead_h st"
    using d assms(3) by (auto simp: hcb_deref_def Let_def panic_simps split: if_splits Option.bind_splits)
  have "oh \<notin> set (hcb_dead_h st)"
    using ok assms(2) unfolding hcb_run_ok_def hcb_heads_ok_def by blast
  moreover have "list_all (\<lambda>oh. oh_refcnt (hs1 oh) = 0 \<and> oh_objcs (hs1 oh) = []) (hcb_dead_h st1)"
      "list_all (\<lambda>oh. oh_refcnt (hs1 oh) = 0 \<and> oh_objcs (hs1 oh) = []) (hcb_cool_h st1)"
    using ok1 unfolding hcb_run_ok_def hcb_heads_ok_def by (auto simp: list_all_iff)
  ultimately show ?thesis
    using d l lists by (auto simp: hcb_cleaner_round_def panic_simps)
qed

theorem hcb_cool_off_witness:
  "\<exists>st hs st1 hs1 r st2 ys1 freed1 st3 ys2 freed2. hcb_leaves (hcb_root st) = {1} \<and>
    hcb_deref st hs 1 = Some (st1, hs1, r) \<and>
    hcb_cleaner_round st1 hs1 = Some (st2, ys1, freed1) \<and> 1 \<notin> set freed1 \<and>
    hcb_cleaner_round st2 hs1 = Some (st3, ys2, freed2) \<and> 1 \<in> set freed2"
proof -
  obtain st where st: "hcb_run st hcb_ex_store" "hcb_leaves (hcb_root st) = {1}"
    using hcb_run_example by blast
  then have "1 \<in> hcb_leaves (hcb_root st)" by simp
  from hcb_cool_off [OF st(1) this hcb_ex(3,5,6)] st(2) show ?thesis by blast
qed

text \<open>
  The start-up self test of the bit table passes, and \<open>hcb_bits\<close> of two
  different bytes is the number of leading bits they have in common, the next bit being different.
\<close>
theorem hcb_bittbl_correct:
  "hcb_build_bittbl = Some hcb_bittbl \<and>
   (\<forall>x y. x \<noteq> y \<longrightarrow> unat (hcb_bits x y) < 8 \<and>
     bit x (7 - unat (hcb_bits x y)) \<noteq> bit y (7 - unat (hcb_bits x y)) \<and>
     (\<forall>j < unat (hcb_bits x y). bit x (7 - j) = bit y (7 - j)))"
proof
  show "hcb_build_bittbl = Some hcb_bittbl" by code_simp
qed (use hcb_bits_spec in blast)

theorem hcb_bittbl_correct_witness:
  "(0x10 :: u8) \<noteq> 0x0b \<and> hcb_bits 0x10 0x0b = 3 \<and>
   bit (0x10 :: u8) (7 - unat (hcb_bits 0x10 0x0b)) \<noteq> bit (0x0b :: u8) (7 - unat (hcb_bits 0x10 0x0b))"
proof (intro conjI)
  show "hcb_bits 0x10 0x0b = 3" by code_simp
  have "(0x10 :: u8) \<noteq> 0x0b" by simp
  then show "bit (0x10 :: u8) (7 - unat (hcb_bits 0x10 0x0b)) \<noteq> bit (0x0b :: u8) (7 - unat (hcb_bits 0x10 0x0b))"
    using hcb_bittbl_correct by blast
qed simp

end
