(* ===== verification/Hash_Implementations.thy ===== *)
theory Hash_Implementations
  imports Hash_Lists Hash_Critbit
begin

text \<open>
  The three hash implementations that \<^verbatim>\<open>varnishd -h\<close> offers are interchangeable: they meet
  one contract, so two of them that hold the same contents answer alike and stay alike.
\<close>

interpretation critbit_classic: hash_slinger_pair
  hcb_prep hcb_lookup hcb_deref "\<lambda>st. hcb_leaves (hcb_root st)" hcb_inv
  "\<lambda>h. h" hcl_lookup hcl_deref hcl_heads hcl_inv
  by unfold_locales

interpretation classic_simple: hash_slinger_pair
  "\<lambda>h. h" hcl_lookup hcl_deref hcl_heads hcl_inv
  "\<lambda>l. l" hsl_lookup hsl_deref set "\<lambda>l hs. digest_sorted hs l"
  by unfold_locales

lemma hcl_start_inv: "n \<noteq> 0 \<Longrightarrow> hcl_inv (hcl_start n) hs"
  by (simp add: hcl_inv_def hcl_start_def)

lemma start_heads [simp]: "hcl_heads (hcl_start n) = {}" "hcb_leaves (hcb_root hcb_start) = {}"
  by (auto simp: hcl_heads_def hcl_start_def hcb_start_def)

lemma hash_abs_empty [simp]: "hash_abs {} hs = Map.empty"
  by (rule ext) (simp add: hash_abs_def)

text \<open>
  C23: the critical bit tree and the classic bucket hash, started from the
  same contents, return the same head for the next look-up and the same contents after it; so do
  they after the release of a head.
\<close>
theorem critbit_classic_agree:
  assumes "hcb_inv s hs" "hcl_inv t gs" and "hash_abs (hcb_leaves (hcb_root s)) hs = hash_abs (hcl_heads t) gs"
  shows "(\<forall>noh. noh \<notin> hcb_leaves (hcb_root s) \<longrightarrow> noh \<notin> hcl_heads t \<longrightarrow> oh_refcnt (hs noh) = 1 \<longrightarrow>
      oh_refcnt (gs noh) = 1 \<longrightarrow> digest_of gs noh = digest_of hs noh \<longrightarrow>
      length (digest_of hs noh) = DIGEST_LEN \<longrightarrow>
      (\<exists>s' hs' t' gs' oh. hcb_lookup (hcb_prep s) hs noh = Some (s', hs', oh) \<and>
        hcl_lookup t gs noh = Some (t', gs', oh) \<and> hcb_inv s' hs' \<and> hcl_inv t' gs' \<and>
        hash_abs (hcb_leaves (hcb_root s')) hs' = hash_abs (hcl_heads t') gs')) \<and>
    (\<forall>oh \<in> hcb_leaves (hcb_root s).
      (oh_refcnt (hs oh) = 1 \<longrightarrow> oh_objcs (hs oh) = [] \<and> oh_waitinglist (hs oh) = None) \<longrightarrow>
      (oh_refcnt (gs oh) = 1 \<longrightarrow> oh_objcs (gs oh) = [] \<and> oh_waitinglist (gs oh) = None) \<longrightarrow>
      (\<exists>s' hs' r t' gs' q. hcb_deref s hs oh = Some (s', hs', r) \<and> hcl_deref t gs oh = Some (t', gs', q) \<and>
        hcb_inv s' hs' \<and> hcl_inv t' gs' \<and> hash_abs (hcb_leaves (hcb_root s')) hs' = hash_abs (hcl_heads t') gs'))"
  using critbit_classic.lookups_agree [OF assms] critbit_classic.derefs_agree [OF assms] by blast

theorem critbit_classic_agree_witness:
  "\<exists>s' hs' t' gs' oh. hcb_lookup (hcb_prep hcb_start) hcb_ex_store 1 = Some (s', hs', oh) \<and>
     hcl_lookup (hcl_start 16383) hcb_ex_store 1 = Some (t', gs', oh) \<and>
     hash_abs (hcb_leaves (hcb_root s')) hs' = hash_abs (hcl_heads t') gs'"
proof -
  have inv: "hcb_inv hcb_start hcb_ex_store" "hcl_inv (hcl_start 16383) hcb_ex_store"
    by (simp_all add: hcb_inv_def hcb_start_def hcl_start_inv)
  show ?thesis
    using critbit_classic_agree [OF inv, THEN conjunct1, rule_format, of 1] by fastforce
qed

text \<open>
  The same of the classic bucket hash and the simple sorted list.
\<close>
theorem classic_simple_agree:
  assumes "hcl_inv s hs" "digest_sorted gs t" and "hash_abs (hcl_heads s) hs = hash_abs (set t) gs"
    and "noh \<notin> hcl_heads s" "noh \<notin> set t" "oh_refcnt (hs noh) = 1"
      "oh_refcnt (gs noh) = 1" "digest_of gs noh = digest_of hs noh"
      "length (digest_of hs noh) = DIGEST_LEN"
  shows "\<exists>s' hs' t' gs' oh. hcl_lookup s hs noh = Some (s', hs', oh) \<and>
      hsl_lookup t gs noh = Some (t', gs', oh) \<and> hcl_inv s' hs' \<and> digest_sorted gs' t' \<and>
      hash_abs (hcl_heads s') hs' = hash_abs (set t') gs'"
  by (rule classic_simple.lookups_agree [OF assms])

theorem classic_simple_agree_witness:
  "\<exists>s' hs' t' gs' oh. hcl_lookup (hcl_start 16383) hcb_ex_store 1 = Some (s', hs', oh) \<and>
     hsl_lookup hsl_start hcb_ex_store 1 = Some (t', gs', oh)"
  using classic_simple_agree [of "hcl_start 16383" hcb_ex_store hcb_ex_store hsl_start 1]
  by (fastforce simp: hcl_start_inv hsl_start_def)

end
