(* ===== verification/Heap_Index.thy ===== *)
theory Heap_Index
  imports Varnish_Prelude
begin

text \<open>
  The index arithmetic of \<^verbatim>\<open>lib/libvarnish/binary_heap.c\<close>: the VM aware \<open>parent\<close> and
  \<open>child\<close>, which keep a subtree inside a page of memory, and the plain ones the file falls back
  to without \<open>VM_AWARE\<close>. The locale \<open>heap_shape\<close> states what the heap operations need of the
  pair; both variants satisfy it.
\<close>

subsection \<open>The code\<close>

definition UINT_MAX :: u32 where
  "UINT_MAX = 0xffffffff"

record heap_page =
  page_size :: u32
  page_mask :: u32
  page_shift :: u32

definition parent :: "'a heap_page_scheme \<Rightarrow> u32 \<Rightarrow> u32 option" where
  "parent bh u = do {
     assert_c (u \<noteq> UINT_MAX);
     let po = u AND page_mask bh;
     Some
       (if u < page_size bh \<or> po > 3 then (u AND NOT (page_mask bh)) OR drop_bit 1 po
        else if po < 2 then
          (let v = drop_bit (unat (page_shift bh)) (u - page_size bh);
               v = v + (v AND NOT (drop_bit 1 (page_mask bh)))
           in v OR (page_size bh div 2))
        else u - 2)
   }"

definition child :: "'a heap_page_scheme \<Rightarrow> u32 \<Rightarrow> u32 \<times> u32" where
  "child bh u =
     (if u > page_mask bh \<and> u AND (page_mask bh - 1) = 0 then (u + 2, u + 2)
      else if u AND drop_bit 1 (page_size bh) \<noteq> 0 then
        (let a = drop_bit 1 (u AND NOT (page_mask bh));
             a = a OR (u AND drop_bit 1 (page_mask bh));
             a = a + 1;
             uu = push_bit (unat (page_shift bh)) (ucast a :: u64);
             a = ucast uu
         in if ucast a = uu then (a, a + 1) else (UINT_MAX, UINT_MAX))
      else (let a = u + (u AND page_mask bh) in (a, a + 1)))"

definition parent_plain :: "'a heap_page_scheme \<Rightarrow> u32 \<Rightarrow> u32 option" where
  "parent_plain bh u = Some (u div 2)"

definition child_plain :: "'a heap_page_scheme \<Rightarrow> u32 \<Rightarrow> u32 \<times> u32" where
  "child_plain bh u = (let a = u * 2 in (a, a + 1))"

text \<open>The page parameters \<open>binheap_new\<close> computes: the size is a power of two that fits a row.\<close>

definition page_ok :: "'a heap_page_scheme \<Rightarrow> bool" where
  "page_ok bh \<longleftrightarrow> (\<exists>s. 2 \<le> s \<and> s \<le> 19 \<and> page_size bh = 2 ^ s \<and> page_mask bh = mask s \<and>
     page_shift bh = of_nat s)"

subsection \<open>The contract\<close>

locale heap_shape =
  fixes ok :: "'p \<Rightarrow> bool" and par :: "'p \<Rightarrow> u32 \<Rightarrow> u32 option" and chi :: "'p \<Rightarrow> u32 \<Rightarrow> u32 \<times> u32"
    and lim :: u32
  assumes par_less: "ok p \<Longrightarrow> 1 < v \<Longrightarrow> v < lim \<Longrightarrow> \<exists>u. par p v = Some u \<and> 1 \<le> u \<and> u < v"
    and chi_grows: "ok p \<Longrightarrow> 1 \<le> u \<Longrightarrow> u < lim \<Longrightarrow> u < fst (chi p u) \<and> fst (chi p u) \<le> snd (chi p u)"
    and par_chi: "ok p \<Longrightarrow> 1 < v \<Longrightarrow> v < lim \<Longrightarrow> 1 \<le> u \<Longrightarrow> u < lim \<Longrightarrow>
      par p v = Some u \<longleftrightarrow> v = fst (chi p u) \<or> v = snd (chi p u)"

subsection \<open>The VM aware layout over natural numbers\<close>

definition par_nat :: "nat \<Rightarrow> nat \<Rightarrow> nat" where
  "par_nat s u = (let P = 2 ^ s; H = 2 ^ (s - 1); k = u div P; po = u mod P in
     if k = 0 \<or> po > 3 then P * k + po div 2
     else if po < 2 then P * ((k - 1) div H) + H + (k - 1) mod H
     else u - 2)"

definition chi_nat :: "nat \<Rightarrow> nat \<Rightarrow> nat \<times> nat" where
  "chi_nat s u = (let P = 2 ^ s; H = 2 ^ (s - 1); k = u div P; po = u mod P in
     if k > 0 \<and> po < 2 then (u + 2, u + 2)
     else if po \<ge> H then (P * (H * k + (po - H) + 1), P * (H * k + (po - H) + 1) + 1)
     else (P * k + 2 * po, P * k + 2 * po + 1))"

lemma page_split:
  fixes P k o' :: nat
  assumes "o' < P"
  shows "(P * k + o') div P = k" "(P * k + o') mod P = o'"
  using assms by (simp_all add: div_mult_self3)

lemma half_pow: "1 \<le> s \<Longrightarrow> (2 :: nat) ^ s = 2 * 2 ^ (s - 1)"
  by (cases s) simp_all

lemma par_nat_page:
  assumes "2 \<le> s" and "o' < 2 ^ s"
  shows "par_nat s (2 ^ s * k + o') =
    (if k = 0 \<or> o' > 3 then 2 ^ s * k + o' div 2
     else if o' < 2 then 2 ^ s * ((k - 1) div 2 ^ (s - 1)) + 2 ^ (s - 1) + (k - 1) mod 2 ^ (s - 1)
     else 2 ^ s * k + o' - 2)"
  using page_split [OF assms(2)] by (simp add: par_nat_def Let_def)

lemma chi_nat_page:
  assumes "2 \<le> s" and "o' < 2 ^ s"
  shows "chi_nat s (2 ^ s * k + o') =
    (if k > 0 \<and> o' < 2 then (2 ^ s * k + o' + 2, 2 ^ s * k + o' + 2)
     else if o' \<ge> 2 ^ (s - 1) then
       (2 ^ s * (2 ^ (s - 1) * k + (o' - 2 ^ (s - 1)) + 1), 2 ^ s * (2 ^ (s - 1) * k + (o' - 2 ^ (s - 1)) + 1) + 1)
     else (2 ^ s * k + 2 * o', 2 ^ s * k + 2 * o' + 1))"
  using page_split [OF assms(2)] by (simp add: chi_nat_def Let_def)

lemma four_le_page: "2 \<le> s \<Longrightarrow> 4 \<le> (2 :: nat) ^ s"
  using power_increasing [of 2 s "2 :: nat"] by simp

lemma chi_nat_spec:
  assumes s: "2 \<le> s" and u: "1 \<le> u"
  shows "u < fst (chi_nat s u) \<and> fst (chi_nat s u) \<le> snd (chi_nat s u) \<and>
    par_nat s (fst (chi_nat s u)) = u \<and> par_nat s (snd (chi_nat s u)) = u"
proof -
  define H :: nat where "H = 2 ^ (s - 1)"
  define k o' where "k = u div 2 ^ s" and "o' = u mod 2 ^ s"
  have P: "(2 :: nat) ^ s = 2 * H" using s by (simp add: H_def half_pow)
  have H2: "2 \<le> H" using four_le_page [OF s] P by simp
  have o': "o' < 2 ^ s" by (simp add: o'_def)
  have u_eq: "u = 2 ^ s * k + o'" by (simp add: k_def o'_def)
  consider (first) "k > 0" "o' < 2" | (bottom) "k = 0 \<or> 2 \<le> o'" "H \<le> o'" | (inner) "k = 0 \<or> 2 \<le> o'" "o' < H"
    by linarith
  then show ?thesis
  proof cases
    case first
    then have c: "chi_nat s u = (2 ^ s * k + (o' + 2), 2 ^ s * k + (o' + 2))"
      unfolding u_eq by (simp add: chi_nat_page [OF s o'])
    have "o' + 2 < 2 ^ s" using first four_le_page [OF s] by linarith
    from par_nat_page [OF s this, of k] show ?thesis
      using first unfolding c by (simp add: u_eq)
  next
    case bottom
    define n where "n = H * k + (o' - H)"
    have nf: "\<not> (k > 0 \<and> o' < 2)" using bottom(1) by linarith
    have c: "chi_nat s u = (2 ^ s * Suc n + 0, 2 ^ s * Suc n + 1)"
      unfolding u_eq chi_nat_page [OF s o'] H_def [symmetric] n_def if_not_P [OF nf] if_P [OF bottom(2)] by simp
    have n: "n div H = k" "n mod H = o' - H"
      using page_split [of "o' - H" H k] o' P by (simp_all add: n_def)
    have par: "par_nat s (2 ^ s * Suc n + i) = u" if "i < 2" for i
      using par_nat_page [OF s, of i "Suc n"] that four_le_page [OF s] n bottom(2) u_eq
      unfolding H_def by simp
    have "u < 2 ^ s * Suc n"
    proof -
      have "k \<le> H * k" using H2 by simp
      then have "Suc k \<le> Suc n" unfolding n_def by linarith
      from mult_le_mono2 [OF this, of "2 ^ s"] have "2 ^ s * k + 2 ^ s \<le> 2 ^ s * Suc n" by simp
      then show ?thesis using u_eq o' by linarith
    qed
    with par [of 0] par [of 1] show ?thesis unfolding c fst_conv snd_conv by simp
  next
    case inner
    have nf: "\<not> (k > 0 \<and> o' < 2)" "\<not> H \<le> o'" using inner by linarith+
    have c: "chi_nat s u = (2 ^ s * k + 2 * o', 2 ^ s * k + (2 * o' + 1))"
      unfolding u_eq chi_nat_page [OF s o'] H_def [symmetric] if_not_P [OF nf(1)] if_not_P [OF nf(2)] by simp
    have lt: "2 * o' + 1 < 2 ^ s" using inner P by linarith
    have pos: "0 < o'" using inner u u_eq by auto
    have "k = 0 \<or> 3 < 2 * o'" using inner by linarith
    then have "par_nat s (2 ^ s * k + (2 * o' + i)) = u" if "i < 2" for i
      using par_nat_page [OF s, of "2 * o' + i" k] that lt u_eq by auto
    from this [of 0] this [of 1] show ?thesis
      using pos u_eq unfolding c by simp
  qed
qed

lemma par_nat_spec:
  assumes s: "2 \<le> s" and v: "2 \<le> v"
  shows "1 \<le> par_nat s v \<and> par_nat s v < v \<and>
    (v = fst (chi_nat s (par_nat s v)) \<or> v = snd (chi_nat s (par_nat s v)))"
proof -
  define H :: nat where "H = 2 ^ (s - 1)"
  define k o' where "k = v div 2 ^ s" and "o' = v mod 2 ^ s"
  have P: "(2 :: nat) ^ s = 2 * H" using s by (simp add: H_def half_pow)
  have H2: "2 \<le> H" using four_le_page [OF s] P by simp
  have o': "o' < 2 ^ s" by (simp add: o'_def)
  have v_eq: "v = 2 ^ s * k + o'" by (simp add: k_def o'_def)
  consider (inner) "k = 0 \<or> o' > 3" | (first) "k > 0" "o' < 2" | (second) "k > 0" "2 \<le> o'" "o' \<le> 3"
    by linarith
  then show ?thesis
  proof cases
    case inner
    then have p: "par_nat s v = 2 ^ s * k + o' div 2"
      unfolding v_eq by (simp add: par_nat_page [OF s o'])
    have lt: "o' div 2 < 2 ^ s" "o' div 2 < H" using o' P by linarith+
    have pos: "1 \<le> o' div 2" using inner v v_eq by auto
    have big: "\<not> (k > 0 \<and> o' div 2 < 2)" using inner by auto
    have c: "chi_nat s (par_nat s v) = (2 ^ s * k + 2 * (o' div 2), 2 ^ s * k + 2 * (o' div 2) + 1)"
      using lt big unfolding p chi_nat_page [OF s lt(1)] H_def [symmetric] by simp
    have "o' = 2 * (o' div 2) \<or> o' = 2 * (o' div 2) + 1" by linarith
    then show ?thesis
      unfolding c fst_conv snd_conv using pos v_eq p by linarith
  next
    case first
    define j where "j = (k - 1) mod H"
    define q where "q = (k - 1) div H"
    have j: "j < H" using H2 by (simp add: j_def)
    have k_eq: "k = H * q + j + 1" using first by (simp add: j_def q_def)
    have p: "par_nat s v = 2 ^ s * q + (H + j)"
      using first unfolding v_eq par_nat_page [OF s o'] H_def [symmetric] j_def q_def by simp
    have lt: "H + j < 2 ^ s" using j P by simp
    have c: "chi_nat s (par_nat s v) = (2 ^ s * k, 2 ^ s * k + 1)"
      using H2 unfolding p chi_nat_page [OF s lt] H_def [symmetric] by (simp add: k_eq)
    have "q \<le> H * q" using H2 by simp
    then have "Suc q \<le> k" using k_eq by linarith
    from mult_le_mono2 [OF this, of "2 ^ s"] have "2 ^ s * q + 2 ^ s \<le> 2 ^ s * k" by simp
    then have "par_nat s v < 2 ^ s * k" "1 \<le> par_nat s v"
      using lt H2 unfolding p by linarith+
    moreover have "v = 2 ^ s * k \<or> v = 2 ^ s * k + 1" "2 ^ s * k \<le> v"
      using first(2) v_eq by linarith+
    ultimately show ?thesis unfolding c by auto
  next
    case second
    then have p: "par_nat s v = 2 ^ s * k + (o' - 2)"
      unfolding v_eq by (simp add: par_nat_page [OF s o'])
    have lt: "o' - 2 < 2 ^ s" using o' by linarith
    have "0 < 2 ^ s * k" using second by simp
    have "k > 0 \<and> o' - 2 < 2" "2 ^ s * k + (o' - 2) + 2 = v" using second v_eq by linarith+
    then have "chi_nat s (2 ^ s * k + (o' - 2)) = (v, v)"
      unfolding chi_nat_page [OF s lt] by (simp only: if_P)
    moreover have "1 \<le> 2 ^ s * k + (o' - 2)" "2 ^ s * k + (o' - 2) < v"
      using \<open>0 < 2 ^ s * k\<close> second(2) unfolding v_eq by linarith+
    ultimately show ?thesis unfolding p by simp
  qed
qed

subsection \<open>The words compute the layout\<close>

lemma page_or_disjoint:
  fixes a b :: u32
  assumes "2 ^ n dvd unat a" and "unat b < 2 ^ n" and "n \<le> 32"
  shows "unat (a OR b) = unat a + unat b"
proof -
  obtain k where k: "unat a = 2 ^ n * k" using assms(1) by (elim dvdE)
  have "take_bit n a = 0"
    by (rule unat_eq_zero [THEN iffD1]) (simp add: unat_take_bit k)
  then have na: "\<not> bit a j" if "j < n" for j
    using that by (metis bit_take_bit_iff bit_0_eq bot_apply bot_bool_def)
  have "take_bit n b = b"
    using assms(2) by (simp only: word_unat_eq_iff unat_take_bit mod_less)
  then have nb: "\<not> bit b j" if "n \<le> j" for j
    using that by (metis bit_take_bit_iff not_le)
  have disj: "a AND b = 0"
    by (rule bit_eqI) (use na nb in \<open>auto simp: bit_and_iff not_le [symmetric]\<close>)
  have eq: "a + b = a OR b" by (rule disjunctive_add_eq_or [OF disj])
  have two: "(2 :: nat) ^ 32 = 2 ^ n * 2 ^ (32 - n)"
    using assms(3) by (simp only: power_add [symmetric]) simp
  have "2 ^ n * k < 2 ^ n * 2 ^ (32 - n)"
    unfolding two [symmetric] k [symmetric] using unat_u32_bound [of a] by simp
  then have "Suc k \<le> 2 ^ (32 - n)" by simp
  then have "2 ^ n * Suc k \<le> 2 ^ 32" unfolding two by (rule mult_le_mono2)
  then have "unat a + unat b < 2 ^ 32" using assms(2) k by simp
  then show ?thesis unfolding eq [symmetric] by (simp add: unat_add_nowrap)
qed

lemma unat_drop1: "unat (drop_bit 1 w) = unat w div 2"
  unfolding unat_drop_bit_eq by (simp add: drop_bit_eq_div)

lemma pow_u32:
  assumes "s < 32"
  shows "unat (2 ^ s :: u32) = 2 ^ s" "unat (mask s :: u32) = 2 ^ s - 1"
proof -
  have "(2 :: nat) ^ s < 2 ^ LENGTH(32)"
    using assms by (intro power_strict_increasing) simp_all
  from unat_of_nat_small [OF this] show p: "unat (2 ^ s :: u32) = 2 ^ s" by simp
  have "(1 :: u32) \<le> 2 ^ s"
    by (simp add: word_le_nat_alt p)
  then show "unat (mask s :: u32) = 2 ^ s - 1"
    by (simp add: mask_eq_exp_minus_1 unat_sub p)
qed

lemma unat_mult_nowrap:
  fixes a b :: "'a::len word"
  shows "unat a * unat b < 2 ^ LENGTH('a) \<Longrightarrow> unat (a * b) = unat a * unat b"
  by (simp add: unat_word_ariths)

lemma pow_u64: "s < 64 \<Longrightarrow> unat (2 ^ s :: u64) = 2 ^ s"
proof -
  assume "s < 64"
  then have "(2 :: nat) ^ s < 2 ^ LENGTH(64)"
    by (intro power_strict_increasing) simp_all
  from unat_of_nat_small [OF this] show ?thesis by simp
qed

lemma parent_nat:
  assumes s: "2 \<le> s" "s \<le> 19" and bh: "page_size bh = 2 ^ s" "page_mask bh = mask s" "page_shift bh = of_nat s"
    and u: "u \<noteq> UINT_MAX"
  shows "\<exists>p. parent bh u = Some p \<and> unat p = par_nat s (unat u)"
proof -
  define P H :: nat where "P = 2 ^ s" and "H = 2 ^ (s - 1)"
  define k o' where "k = unat u div P" and "o' = unat u mod P"
  have PH: "P = 2 * H" using s by (simp add: P_def H_def half_pow)
  have s32: "s < 32" "s - 1 < 32" using s by simp_all
  have P: "unat (2 ^ s :: u32) = P" by (simp add: P_def pow_u32 s32)
  have half: "(2 :: u32) ^ s div 2 = 2 ^ (s - 1)"
    using s s32 by (simp add: word_unat_eq_iff unat_div pow_u32 half_pow del: power_Suc)
  have dmask: "drop_bit 1 (mask s :: u32) = mask (s - 1)"
    by (rule bit_eqI) (use s in \<open>auto simp: bit_simps\<close>)
  have sh: "unat (page_shift bh) = s" using s bh by (simp add: unat_of_nat_small)
  have po: "unat (u AND mask s) = o'" by (simp add: unat_and_mask o'_def P_def)
  have hi: "unat (u AND NOT (mask s)) = P * k" by (simp add: unat_and_not_mask k_def P_def)
  have small: "u < 2 ^ s \<longleftrightarrow> k = 0"
    using P by (simp add: word_less_nat_alt k_def div_eq_0_iff P_def)
  have o'P: "o' < P" by (simp add: o'_def P_def)
  have u_eq: "unat u = P * k + o'" by (simp add: k_def o'_def)
  have inner: "unat ((u AND NOT (mask s)) OR drop_bit 1 (u AND mask s)) = P * k + o' div 2"
    using page_or_disjoint [of s "u AND NOT (mask s)" "drop_bit 1 (u AND mask s)"] o'P s
    unfolding hi po unat_drop1 P_def [symmetric] by simp
  have bottom: "unat ((v + (v AND NOT (mask (s - 1)))) OR 2 ^ (s - 1)) =
      P * ((k - 1) div H) + H + (k - 1) mod H"
    if k: "k \<noteq> 0" and v: "v = drop_bit s (u - 2 ^ s)" for v
  proof -
    have "unat (u - 2 ^ s) = P * (k - 1) + o'"
    proof -
      have "P \<le> P * k" using k by simp
      then have "unat (2 ^ s :: u32) \<le> unat u" unfolding P u_eq by linarith
      from unat_sub_le [OF this] show ?thesis
        using \<open>P \<le> P * k\<close> unfolding P u_eq by (simp add: diff_mult_distrib2)
    qed
    then have vn: "unat v = k - 1"
      using o'P unfolding v unat_drop_bit_eq by (simp add: drop_bit_eq_div P_def [symmetric] page_split)
    define q j where "q = (k - 1) div H" and "j = (k - 1) mod H"
    have k_eq: "k = H * q + j + 1" using k by (simp add: q_def j_def)
    have H2: "2 \<le> H" using four_le_page [OF s(1)] PH by (simp add: P_def)
    have Hk: "2 * k \<le> H * k" "H \<le> H * k" using H2 k by simp_all
    have Pk: "2 * (H * k) \<le> unat u" using u_eq by (simp add: PH)
    have "P * q = 2 * (H * q)" by (simp add: PH)
    then have bound: "P * q + j + H < 4294967296"
      using Pk Hk k_eq unat_u32_bound [of u] by linarith
    have "unat v + unat (v AND NOT (mask (s - 1))) = P * q + j"
      unfolding vn unat_and_not_mask H_def [symmetric] q_def [symmetric] using k_eq PH by simp
    then have sum: "unat (v + (v AND NOT (mask (s - 1)))) = P * q + j"
      using bound by (subst unat_add_nowrap) simp_all
    let ?w = "v + (v AND NOT (mask (s - 1)))"
    have jH: "j < H" using H2 by (simp add: j_def)
    have "unat ?w div 2 ^ (s - 1) = 2 * q"
      using page_split(1) [OF jH, of "2 * q"] unfolding sum H_def [symmetric] PH
      by (simp add: mult.assoc mult.left_commute)
    then have "\<not> bit (unat ?w) (s - 1)" by (simp add: bit_iff_odd)
    then have "\<not> bit ?w (s - 1)" by (simp add: bit_unsigned_iff)
    then have "?w AND 2 ^ (s - 1) = 0" unfolding and_exp_eq_0_iff_not_bit .
    from disjunctive_add_eq_or [OF this] have "unat (?w OR 2 ^ (s - 1)) = unat (?w + 2 ^ (s - 1))" by simp
    also have "\<dots> = P * q + j + H"
      using bound pow_u32(1) [OF s32(2)] sum unfolding H_def [symmetric]
      by (subst unat_add_nowrap) simp_all
    finally show ?thesis by (simp add: q_def j_def)
  qed
  have le3: "(3 :: u32) < w \<longleftrightarrow> 3 < unat w" "w < (2 :: u32) \<longleftrightarrow> unat w < 2" for w :: u32
    by (simp_all add: word_less_nat_alt)
  have two: "unat (u - 2) = unat u - 2" if "2 \<le> o'"
    using that u_eq by (simp add: unat_sub_le)
  have val: "parent bh u = Some (if k = 0 \<or> o' > 3 then (u AND NOT (mask s)) OR drop_bit 1 (u AND mask s)
     else if o' < 2 then (drop_bit s (u - 2 ^ s) + (drop_bit s (u - 2 ^ s) AND NOT (mask (s - 1)))) OR 2 ^ (s - 1)
     else u - 2)"
    using u unfolding parent_def sh bh(1,2) Let_def half dmask small le3 po by simp
  show ?thesis
    unfolding val par_nat_def Let_def P_def [symmetric] H_def [symmetric] k_def [symmetric] o'_def [symmetric]
    using inner bottom [OF _ refl] two by auto
qed

lemma child_nat:
  assumes s: "2 \<le> s" "s \<le> 19" and bh: "page_size bh = 2 ^ s" "page_mask bh = mask s" "page_shift bh = of_nat s"
    and ab: "child bh u = (a, b)"
  shows "if fst (chi_nat s (unat u)) < 2 ^ 32 then unat a = fst (chi_nat s (unat u)) \<and> unat b = snd (chi_nat s (unat u))
    else a = UINT_MAX \<and> b = UINT_MAX"
proof -
  define P H :: nat where "P = 2 ^ s" and "H = 2 ^ (s - 1)"
  define k o' where "k = unat u div P" and "o' = unat u mod P"
  have PH: "P = 2 * H" using s by (simp add: P_def H_def half_pow)
  have s32: "s < 32" "s - 1 < 32" using s by simp_all
  have H2: "2 \<le> H" using four_le_page [OF s(1)] PH by (simp add: P_def)
  have o'P: "o' < P" by (simp add: o'_def P_def)
  have u_eq: "unat u = P * k + o'" by (simp add: k_def o'_def)
  have page: "P * k + P \<le> 2 ^ 32"
  proof -
    have two: "(2 :: nat) ^ 32 = P * 2 ^ (32 - s)"
      using s by (simp only: P_def power_add [symmetric]) simp
    have "P * k < P * 2 ^ (32 - s)"
      unfolding two [symmetric] using u_eq unat_u32_bound [of u] by simp
    then have "Suc k \<le> 2 ^ (32 - s)" by simp
    from mult_le_mono2 [OF this, of P] show ?thesis unfolding two by simp
  qed
  have cnat: "chi_nat s (unat u) =
    (if k > 0 \<and> o' < 2 then (P * k + o' + 2, P * k + o' + 2)
     else if o' \<ge> H then (P * (H * k + (o' - H) + 1), P * (H * k + (o' - H) + 1) + 1)
     else (P * k + 2 * o', P * k + 2 * o' + 1))"
    using chi_nat_page [OF s(1), of o' k] o'P unfolding P_def H_def u_eq by simp
  have hi: "unat (u AND NOT (mask s)) = P * k" by (simp add: unat_and_not_mask k_def P_def)
  have half: "drop_bit 1 ((2 :: u32) ^ s) = 2 ^ (s - 1)"
    unfolding word_unat_eq_iff unat_drop1 pow_u32 [OF s32(1)] pow_u32 [OF s32(2)]
    using half_pow [of s] s by simp
  have dmask: "drop_bit 1 (mask s :: u32) = mask (s - 1)"
    by (rule bit_eqI) (use s in \<open>auto simp: bit_simps\<close>)
  have sh: "unat (page_shift bh) = s" using s bh by (simp add: unat_of_nat_small)
  have first: "mask s < u \<and> u AND (mask s - 1) = 0 \<longleftrightarrow> k > 0 \<and> o' < 2"
  proof -
    have "mask s - 1 = (mask s AND NOT (mask 1) :: u32)"
    proof -
      have "take_bit 1 (mask s :: u32) = 1"
        by (rule bit_eqI) (use s in \<open>auto simp: bit_simps\<close>)
      then show ?thesis using and_not_mask_eq_sub [of "mask s :: u32" 1] by simp
    qed
    then have "unat (u AND (mask s - 1)) = 2 * (o' div 2)"
      using unat_and_not_mask [of "u AND mask s" 1] by (simp add: unat_and_mask o'_def P_def and.assoc)
    then have "u AND (mask s - 1) = 0 \<longleftrightarrow> o' < 2"
      by (simp flip: unat_eq_zero) linarith
    moreover have "mask s < u \<longleftrightarrow> k > 0"
    proof -
      have "mask s < u \<longleftrightarrow> P \<le> unat u"
        using H2 PH by (simp add: word_less_nat_alt pow_u32 s32 P_def [symmetric]) linarith
      then show ?thesis using H2 PH by (simp add: k_def div_greater_zero_iff)
    qed
    ultimately show ?thesis by simp
  qed
  have udiv: "unat u div H = 2 * k + o' div H"
    unfolding u_eq PH using H2 by (simp add: mult.assoc mult.left_commute)
  have bot: "u AND 2 ^ (s - 1) \<noteq> 0 \<longleftrightarrow> H \<le> o'"
  proof -
    have "u AND 2 ^ (s - 1) \<noteq> 0 \<longleftrightarrow> bit (unat u) (s - 1)"
      using s32 by (simp add: and_exp_eq_0_iff_not_bit bit_unsigned_iff)
    also have "\<dots> \<longleftrightarrow> odd (o' div H)"
      using udiv by (simp add: bit_iff_odd H_def)
    also have "\<dots> \<longleftrightarrow> H \<le> o'"
    proof (cases "H \<le> o'")
      case True
      then have "o' div H = 1" using o'P PH by (intro div_nat_eqI) simp_all
      with True show ?thesis by simp
    qed (simp add: div_eq_0_iff)
    finally show ?thesis .
  qed
  show ?thesis
  proof (cases "k > 0 \<and> o' < 2")
    case True
    then have "P * k + o' + 2 < 2 ^ 32" using page H2 PH by linarith
    moreover have "a = u + 2" "b = u + 2"
      using ab True first by (auto simp: child_def bh)
    ultimately have "unat a = P * k + o' + 2" "unat b = P * k + o' + 2"
      by (simp_all add: unat_add_nowrap u_eq)
    moreover note \<open>P * k + o' + 2 < 2 ^ 32\<close>
    ultimately show ?thesis using True by (simp add: cnat)
  next
    case nf: False
    show ?thesis
    proof (cases "H \<le> o'")
      case False
      have po: "unat (u AND mask s) = o'" by (simp add: unat_and_mask o'_def P_def)
      have lt: "P * k + 2 * o' + 1 < 2 ^ 32" using False page PH by linarith
      have "a = u + (u AND mask s)" "b = u + (u AND mask s) + 1"
        using ab nf first False bot unfolding child_def bh half Let_def by auto
      then have "unat a = P * k + 2 * o'" "unat b = P * k + 2 * o' + 1"
        using lt by (simp_all add: unat_add_nowrap u_eq po)
      then show ?thesis using lt unfolding cnat if_not_P [OF nf] if_not_P [OF False] by simp
    next
      case True
      define n where "n = H * k + (o' - H)"
      define w where "w = (drop_bit 1 (u AND NOT (mask s)) OR (u AND mask (s - 1))) + 1"
      define uu where "uu = push_bit s (ucast w :: u64)"
      have mod: "unat u mod H = o' - H"
      proof -
        have "unat u = H * (2 * k + 1) + (o' - H)" using u_eq PH True by (simp add: algebra_simps)
        then show ?thesis using page_split(2) [of "o' - H" H "2 * k + 1"] o'P PH by simp
      qed
      have "unat (drop_bit 1 (u AND NOT (mask s))) = H * k"
        unfolding unat_drop1 hi PH by simp
      then have "unat (drop_bit 1 (u AND NOT (mask s)) OR (u AND mask (s - 1))) = n"
        using page_or_disjoint [of "s - 1" "drop_bit 1 (u AND NOT (mask s))" "u AND mask (s - 1)"] s32 mod
        by (simp add: unat_and_mask H_def n_def)
      moreover have n31: "n + 1 \<le> 2 ^ 31"
        using page PH True o'P by (simp add: n_def)
      ultimately have w: "unat w = n + 1"
        unfolding w_def by (subst unat_add_nowrap) simp_all
      have "P \<le> 2 ^ 19" using s unfolding P_def by (intro power_increasing) simp_all
      then have bound: "P * (n + 1) < 2 ^ 64"
        using n31 mult_le_mono [of P "2 ^ 19" "n + 1" "2 ^ 31"] by simp
      then have uu: "unat uu = P * (n + 1)"
        using s w pow_u64 [of s] unfolding uu_def P_def push_bit_eq_mult
        by (subst unat_mult_nowrap) (simp_all add: mult.commute)
      have nf': "\<not> (mask s < u \<and> u AND (mask s - 1) = 0)" and b': "u AND 2 ^ (s - 1) \<noteq> 0"
        using nf first True bot by blast+
      have ch: "(a, b) = (if ucast (ucast uu :: u32) = uu then (ucast uu, ucast uu + 1) else (UINT_MAX, UINT_MAX))"
        using ab unfolding child_def sh bh(1,2) half dmask Let_def if_not_P [OF nf'] if_P [OF b']
          w_def [symmetric] uu_def [symmetric] by simp
      have cn: "chi_nat s (unat u) = (P * (n + 1), P * (n + 1) + 1)"
        unfolding cnat if_not_P [OF nf] if_P [OF True] n_def by simp
      show ?thesis
      proof (cases "P * (n + 1) < 2 ^ 32")
        case lt: True
        then have "unat (ucast uu :: u32) = P * (n + 1)" by (simp add: unat_ucast_down32 uu)
        moreover from this have "(ucast (ucast uu :: u32) :: u64) = uu"
          by (simp add: word_unat_eq_iff uu)
        moreover have "P * (n + 1) + 1 < 2 ^ 32"
        proof -
          have "even (P * (n + 1))" "odd (2 ^ 32 - 1 :: nat)" by (simp_all add: PH)
          then have "P * (n + 1) \<noteq> 2 ^ 32 - 1" by metis
          with lt show ?thesis by linarith
        qed
        ultimately show ?thesis using ch lt by (simp add: cn unat_add_nowrap)
      next
        case False
        have "unat (ucast uu :: u32) < P * (n + 1)"
        proof -
          have "4294967296 \<le> P * (n + 1)" using False by simp
          then show ?thesis using unat_u32_bound [of "ucast uu"] by linarith
        qed
        then have "unat (ucast (ucast uu :: u32) :: u64) \<noteq> unat uu"
          using uu by simp
        then have "(ucast (ucast uu :: u32) :: u64) \<noteq> uu" by metis
        then show ?thesis using ch False by (simp add: cn)
      qed
    qed
  qed
qed

subsection \<open>Both variants satisfy the contract\<close>

interpretation vm: heap_shape page_ok parent child UINT_MAX
proof (unfold_locales, goal_cases)
  case (1 p v)
  then obtain s where s: "2 \<le> s" "s \<le> 19" "page_size p = 2 ^ s" "page_mask p = mask s" "page_shift p = of_nat s"
    unfolding page_ok_def by blast
  have "v \<noteq> UINT_MAX" using 1(3) by auto
  with parent_nat [OF s, of v] par_nat_spec [OF s(1), of "unat v"] 1(2)
  show ?case by (auto simp: word_less_nat_alt word_le_nat_alt)
next
  case (2 p u)
  then obtain s where s: "2 \<le> s" "s \<le> 19" "page_size p = 2 ^ s" "page_mask p = mask s" "page_shift p = of_nat s"
    unfolding page_ok_def by blast
  obtain a b where ab: "child p u = (a, b)" by fastforce
  from child_nat [OF s ab] chi_nat_spec [OF s(1), of "unat u"] 2(2,3) ab
  show ?case by (auto simp: word_less_nat_alt word_le_nat_alt split: if_splits)
next
  case (3 p v u)
  then obtain s where s: "2 \<le> s" "s \<le> 19" "page_size p = 2 ^ s" "page_mask p = mask s" "page_shift p = of_nat s"
    unfolding page_ok_def by blast
  obtain a b where ab: "child p u = (a, b)" by fastforce
  obtain w where w: "parent p v = Some w" "unat w = par_nat s (unat v)"
    using parent_nat [OF s, of v] 3(3) by auto
  let ?c = "chi_nat s (unat u)"
  have vv: "v = a \<or> v = b \<longleftrightarrow> unat v = fst ?c \<or> unat v = snd ?c"
  proof (cases "fst ?c < 2 ^ 32")
    case True
    then show ?thesis using child_nat [OF s ab] by (simp add: word_unat_eq_iff)
  next
    case False
    have "fst ?c \<le> snd ?c" using chi_nat_spec [OF s(1), of "unat u"] 3(4) by (simp add: word_le_nat_alt)
    moreover have "4294967296 \<le> fst ?c" using False by simp
    ultimately have "unat v < fst ?c" "unat v < snd ?c" using unat_u32_bound [of v] by linarith+
    then have "unat v \<noteq> fst ?c" "unat v \<noteq> snd ?c" by simp_all
    moreover have "v \<noteq> a" "v \<noteq> b" using child_nat [OF s ab] False 3(3) by auto
    ultimately show ?thesis by blast
  qed
  have "w = u \<longleftrightarrow> unat v = fst ?c \<or> unat v = snd ?c"
    using par_nat_spec [OF s(1), of "unat v"] chi_nat_spec [OF s(1), of "unat u"] 3(2,4) w(2)
    by (auto simp: word_unat_eq_iff word_le_nat_alt word_less_nat_alt)
  then show ?case using w(1) ab vv by auto
qed

interpretation plain: heap_shape "\<lambda>_ :: 'a heap_page_scheme. True" parent_plain child_plain "0x80000000"
proof (unfold_locales, goal_cases)
  case (1 p v)
  then show ?case
    by (auto simp: parent_plain_def word_less_nat_alt word_le_nat_alt unat_div)
next
  case (2 p u)
  then have "unat (u * 2) = unat u * 2" "unat (u * 2 + 1) = unat u * 2 + 1"
    by (simp_all add: word_less_nat_alt unat_word_ariths)
  with 2 show ?case
    by (auto simp: child_plain_def Let_def word_less_nat_alt word_le_nat_alt)
next
  case (3 p v u)
  then have "unat (u * 2) = unat u * 2" "unat (u * 2 + 1) = unat u * 2 + 1"
    by (simp_all add: word_less_nat_alt unat_word_ariths)
  then show ?case
    by (auto simp: parent_plain_def child_plain_def Let_def word_unat_eq_iff unat_div)
qed

end
