(* ===== verification/Binary_Heap.thy ===== *)
theory Binary_Heap
  imports Heap_Index
begin

text \<open>
  The binary heap of \<^verbatim>\<open>lib/libvarnish/binary_heap.c\<close>.

  The two level array of the code is a map from row numbers to rows, \<open>None\<close> for a \<open>NULL\<close> row
  pointer; a row maps offsets to element pointers. The callback \<open>update\<close> tells an element its
  index: the state keeps the last index told to each element in \<open>bh_idx\<close>. The comparison
  \<open>cmp\<close> and the index functions are arguments, as the first is a function pointer and the
  second are chosen by \<open>#ifdef VM_AWARE\<close>. What \<open>malloc\<close> leaves in a new row is an argument too.
\<close>

subsection \<open>The code\<close>

definition ROW_SHIFT :: nat where "ROW_SHIFT = 16"
definition ROW_WIDTH :: u32 where "ROW_WIDTH = 65536"
definition ROOT_IDX :: u32 where "ROOT_IDX = 1"
definition BINHEAP_NOIDX :: u32 where "BINHEAP_NOIDX = 0"

record 'e binheap =
  bh_page :: heap_page
  bh_array :: "nat \<Rightarrow> (nat \<Rightarrow> 'e option) option"
  bh_rows :: u32
  bh_length :: u32
  bh_next :: u32
  bh_update :: bool
  bh_idx :: "'e \<Rightarrow> u32"

definition ROW :: "u32 \<Rightarrow> nat" where
  "ROW n = unat (drop_bit ROW_SHIFT n)"

definition COL :: "u32 \<Rightarrow> nat" where
  "COL n = unat (n AND (ROW_WIDTH - 1))"

definition bh_A :: "'e binheap \<Rightarrow> u32 \<Rightarrow> 'e option" where
  "bh_A bh n = do { r \<leftarrow> bh_array bh (ROW n); r (COL n) }"

definition bh_A_set :: "'e binheap \<Rightarrow> u32 \<Rightarrow> 'e option \<Rightarrow> 'e binheap option" where
  "bh_A_set bh n p = do {
     r \<leftarrow> bh_array bh (ROW n);
     Some (bh\<lparr>bh_array := (bh_array bh)(ROW n \<mapsto> r(COL n := p))\<rparr>)
   }"

definition binheap_addrow :: "(nat \<Rightarrow> 'e option) \<Rightarrow> 'e binheap \<Rightarrow> 'e binheap option" where
  "binheap_addrow fresh bh = do {
     let bh = (if ROW (bh_length bh) \<ge> unat (bh_rows bh)
               then bh\<lparr>bh_array := (\<lambda>i. if i < unat (bh_rows bh) then bh_array bh i else None),
                       bh_rows := bh_rows bh * 2\<rparr>
               else bh);
     assert_c (bh_array bh (ROW (bh_length bh)) = None);
     Some (bh\<lparr>bh_array := (bh_array bh)(ROW (bh_length bh) \<mapsto> fresh), bh_length := bh_length bh + ROW_WIDTH\<rparr>)
   }"

text \<open>The loop that computes \<open>page_shift\<close>; a shift by the width of an \<open>unsigned\<close> is undefined.\<close>

function page_shift_loop :: "nat \<Rightarrow> u32 \<Rightarrow> nat option" where
  "page_shift_loop u ps =
     (if u \<ge> 32 then None else if push_bit u 1 = ps then Some u else page_shift_loop (Suc u) ps)"
  by pat_completeness auto
termination
  by (relation "measure (\<lambda>(u, ps). 32 - u)") auto

declare page_shift_loop.simps [simp del]

definition binheap_new :: "u32 \<Rightarrow> (nat \<Rightarrow> 'e option) \<Rightarrow> bool \<Rightarrow> ('e \<Rightarrow> u32) \<Rightarrow> 'e binheap option" where
  "binheap_new getpagesize fresh update_f idx = do {
     let size = getpagesize div 8;
     let mask = size - 1;
     assert_c (size AND mask = 0);
     u \<leftarrow> page_shift_loop 1 size;
     assert_c (size \<le> 8 * ROW_WIDTH);
     bh \<leftarrow> binheap_addrow fresh
       \<lparr>bh_page = \<lparr>page_size = size, page_mask = mask, page_shift = of_nat u\<rparr>,
        bh_array = (\<lambda>_. None), bh_rows = 16, bh_length = 0, bh_next = ROOT_IDX,
        bh_update = update_f, bh_idx = idx\<rparr>;
     bh_A_set bh ROOT_IDX None
   }"

definition binheap_update :: "'e binheap \<Rightarrow> u32 \<Rightarrow> 'e binheap option" where
  "binheap_update bh u = do {
     assert_c (u < bh_next bh);
     p \<leftarrow> bh_A bh u;
     Some (if bh_update bh then bh\<lparr>bh_idx := (bh_idx bh)(p := u)\<rparr> else bh)
   }"

definition binhead_swap :: "'e binheap \<Rightarrow> u32 \<Rightarrow> u32 \<Rightarrow> 'e binheap option" where
  "binhead_swap bh u v = do {
     assert_c (u < bh_next bh);
     p \<leftarrow> bh_A bh u;
     assert_c (v < bh_next bh);
     q \<leftarrow> bh_A bh v;
     bh \<leftarrow> bh_A_set bh u (Some q);
     bh \<leftarrow> bh_A_set bh v (Some p);
     bh \<leftarrow> binheap_update bh u;
     binheap_update bh v
   }"

type_synonym par_fn = "heap_page \<Rightarrow> u32 \<Rightarrow> u32 option"
type_synonym chi_fn = "heap_page \<Rightarrow> u32 \<Rightarrow> u32 \<times> u32"
type_synonym 'e cmp_fn = "'e \<Rightarrow> 'e \<Rightarrow> bool"

function trickleup_loop :: "par_fn \<Rightarrow> 'e cmp_fn \<Rightarrow> 'e binheap \<Rightarrow> u32 \<Rightarrow> ('e binheap \<times> u32) option" where
  "trickleup_loop par cmp bh u =
     (if u > ROOT_IDX then do {
        assert_c (u < bh_next bh);
        pu \<leftarrow> bh_A bh u;
        v \<leftarrow> par (bh_page bh) u;
        assert_c (v < u);
        assert_c (v < bh_next bh);
        pv \<leftarrow> bh_A bh v;
        (if \<not> cmp pu pv then Some (bh, u)
         else do { bh' \<leftarrow> binhead_swap bh u v; trickleup_loop par cmp bh' v })
      }
      else Some (bh, u))"
  by pat_completeness auto
termination
  by (relation "measure (\<lambda>(par, cmp, bh, u). unat u)") (auto simp: word_less_nat_alt)

declare trickleup_loop.simps [simp del]

definition binheap_trickleup :: "par_fn \<Rightarrow> 'e cmp_fn \<Rightarrow> 'e binheap \<Rightarrow> u32 \<Rightarrow> ('e binheap \<times> u32) option" where
  "binheap_trickleup par cmp bh u = do {
     assert_c (u < bh_next bh);
     p \<leftarrow> bh_A bh u;
     trickleup_loop par cmp bh u
   }"

text \<open>The \<open>while (1)\<close> of \<open>binheap_trickledown\<close>.\<close>

partial_function (option) trickledown_loop ::
    "chi_fn \<Rightarrow> 'e cmp_fn \<Rightarrow> 'e binheap \<Rightarrow> u32 \<Rightarrow> ('e binheap \<times> u32) option" where
  "trickledown_loop chi cmp bh u = do {
     assert_c (u < bh_next bh);
     pu \<leftarrow> bh_A bh u;
     let (v1, v2) = chi (bh_page bh) u;
     assert_c (v1 > 0);
     assert_c (v2 > 0);
     assert_c (v1 \<le> v2);
     (if v1 \<ge> bh_next bh then Some (bh, u)
      else do {
        p1 \<leftarrow> bh_A bh v1;
        v1 \<leftarrow> (if v1 \<noteq> v2 \<and> v2 < bh_next bh
               then do { p2 \<leftarrow> bh_A bh v2; Some (if cmp p2 p1 then v2 else v1) }
               else Some v1);
        assert_c (v1 < bh_next bh);
        p1 \<leftarrow> bh_A bh v1;
        (if cmp pu p1 then Some (bh, u)
         else do { bh' \<leftarrow> binhead_swap bh u v1; trickledown_loop chi cmp bh' v1 })
      })
   }"

definition binheap_trickledown :: "chi_fn \<Rightarrow> 'e cmp_fn \<Rightarrow> 'e binheap \<Rightarrow> u32 \<Rightarrow> ('e binheap \<times> u32) option" where
  "binheap_trickledown chi cmp bh u = do {
     assert_c (u < bh_next bh);
     p \<leftarrow> bh_A bh u;
     trickledown_loop chi cmp bh u
   }"

definition binheap_insert :: "par_fn \<Rightarrow> 'e cmp_fn \<Rightarrow> (nat \<Rightarrow> 'e option) \<Rightarrow> 'e binheap \<Rightarrow> 'e \<Rightarrow> 'e binheap option" where
  "binheap_insert par cmp fresh bh p = do {
     assert_c (bh_length bh \<ge> bh_next bh);
     bh \<leftarrow> (if bh_length bh = bh_next bh then binheap_addrow fresh bh else Some bh);
     assert_c (bh_length bh > bh_next bh);
     let u = bh_next bh;
     let bh = bh\<lparr>bh_next := bh_next bh + 1\<rparr>;
     bh \<leftarrow> bh_A_set bh u (Some p);
     bh \<leftarrow> binheap_update bh u;
     (bh, v) \<leftarrow> binheap_trickleup par cmp bh u;
     assert_c (u < bh_next bh);
     q \<leftarrow> bh_A bh u;
     Some bh
   }"

definition binheap_root :: "'e binheap \<Rightarrow> 'e option" where
  "binheap_root bh = bh_A bh ROOT_IDX"

definition binheap_delete :: "par_fn \<Rightarrow> chi_fn \<Rightarrow> 'e cmp_fn \<Rightarrow> 'e binheap \<Rightarrow> u32 \<Rightarrow> 'e binheap option" where
  "binheap_delete par chi cmp bh idx = do {
     assert_c (bh_next bh > ROOT_IDX);
     assert_c (idx < bh_next bh);
     assert_c (idx > 0);
     p \<leftarrow> bh_A bh idx;
     assert_c (bh_update bh);
     let bh = bh\<lparr>bh_idx := (bh_idx bh)(p := BINHEAP_NOIDX)\<rparr>;
     let bh = bh\<lparr>bh_next := bh_next bh - 1\<rparr>;
     (if idx = bh_next bh then bh_A_set bh (bh_next bh) None
      else do {
        bh \<leftarrow> bh_A_set bh idx (bh_A bh (bh_next bh));
        bh \<leftarrow> bh_A_set bh (bh_next bh) None;
        bh \<leftarrow> binheap_update bh idx;
        (bh, idx) \<leftarrow> binheap_trickleup par cmp bh idx;
        assert_c (idx < bh_next bh \<and> idx > 0 \<and> bh_A bh idx \<noteq> None);
        (bh, idx) \<leftarrow> binheap_trickledown chi cmp bh idx;
        assert_c (idx < bh_next bh \<and> idx > 0 \<and> bh_A bh idx \<noteq> None);
        Some (if bh_next bh + 2 * ROW_WIDTH \<le> bh_length bh
              then bh\<lparr>bh_array := (bh_array bh)(ROW (bh_length bh - 1) := None),
                      bh_length := bh_length bh - ROW_WIDTH\<rparr>
              else bh)
      })
   }"

definition binheap_reorder :: "par_fn \<Rightarrow> chi_fn \<Rightarrow> 'e cmp_fn \<Rightarrow> 'e binheap \<Rightarrow> u32 \<Rightarrow> 'e binheap option" where
  "binheap_reorder par chi cmp bh idx = do {
     assert_c (bh_next bh > ROOT_IDX);
     assert_c (idx < bh_next bh);
     assert_c (idx > 0);
     p \<leftarrow> bh_A bh idx;
     (bh, idx) \<leftarrow> binheap_trickleup par cmp bh idx;
     assert_c (idx < bh_next bh \<and> idx > 0 \<and> bh_A bh idx \<noteq> None);
     (bh, idx) \<leftarrow> binheap_trickledown chi cmp bh idx;
     assert_c (idx < bh_next bh \<and> idx > 0 \<and> bh_A bh idx \<noteq> None);
     Some bh
   }"

subsection \<open>Invariants\<close>

text \<open>Exactly the rows below the length are allocated, and there are row pointers for them.\<close>

definition rows_ok :: "'e binheap \<Rightarrow> bool" where
  "rows_ok bh \<longleftrightarrow> 65536 dvd unat (bh_length bh) \<and> 65536 \<le> unat (bh_length bh) \<and>
     (\<forall>i. bh_array bh i \<noteq> None \<longleftrightarrow> i < unat (bh_length bh) div 65536) \<and>
     unat (bh_length bh) div 65536 \<le> unat (bh_rows bh) \<and> unat (bh_rows bh) \<le> 131072"

text \<open>The elements of the heap; each knows its index and no other element has one.\<close>

definition bh_members :: "'e binheap \<Rightarrow> 'e set" where
  "bh_members bh = {p. \<exists>u. 1 \<le> u \<and> u < bh_next bh \<and> bh_A bh u = Some p}"

definition content_ok :: "'e binheap \<Rightarrow> bool" where
  "content_ok bh \<longleftrightarrow> bh_update bh \<and> 1 \<le> bh_next bh \<and> bh_next bh \<le> bh_length bh \<and>
     (\<forall>u. 1 \<le> u \<and> u < bh_next bh \<longrightarrow> (\<exists>p. bh_A bh u = Some p \<and> bh_idx bh p = u)) \<and>
     (\<forall>p. bh_idx bh p \<noteq> BINHEAP_NOIDX \<longleftrightarrow> p \<in> bh_members bh) \<and>
     (bh_next bh = 1 \<longrightarrow> bh_A bh 1 = None)"

text \<open>No element comes before its parent, except perhaps at index \<open>u\<close> (\<open>heap_hole\<close>).\<close>

definition heap_order :: "par_fn \<Rightarrow> 'e cmp_fn \<Rightarrow> 'e binheap \<Rightarrow> bool" where
  "heap_order par cmp bh \<longleftrightarrow>
     (\<forall>v w. 1 < v \<and> v < bh_next bh \<and> par (bh_page bh) v = Some w \<longrightarrow> \<not> cmp (the (bh_A bh v)) (the (bh_A bh w)))"

definition heap_hole :: "par_fn \<Rightarrow> 'e cmp_fn \<Rightarrow> 'e binheap \<Rightarrow> u32 \<Rightarrow> bool" where
  "heap_hole par cmp bh u \<longleftrightarrow>
     (\<forall>v w. 1 < v \<and> v < bh_next bh \<and> v \<noteq> u \<and> par (bh_page bh) v = Some w \<and> w \<noteq> u \<longrightarrow>
        \<not> cmp (the (bh_A bh v)) (the (bh_A bh w))) \<and>
     (\<forall>v w. 1 < v \<and> v < bh_next bh \<and> par (bh_page bh) v = Some u \<and> 1 < u \<and> par (bh_page bh) u = Some w \<longrightarrow>
        \<not> cmp (the (bh_A bh v)) (the (bh_A bh w)))"

definition heap_down_ok :: "par_fn \<Rightarrow> 'e cmp_fn \<Rightarrow> 'e binheap \<Rightarrow> u32 \<Rightarrow> bool" where
  "heap_down_ok par cmp bh u \<longleftrightarrow>
     (\<forall>v. 1 < v \<and> v < bh_next bh \<and> par (bh_page bh) v = Some u \<longrightarrow> \<not> cmp (the (bh_A bh v)) (the (bh_A bh u)))"

definition heap_up_ok :: "par_fn \<Rightarrow> 'e cmp_fn \<Rightarrow> 'e binheap \<Rightarrow> u32 \<Rightarrow> bool" where
  "heap_up_ok par cmp bh u \<longleftrightarrow>
     (\<forall>w. 1 < u \<and> par (bh_page bh) u = Some w \<longrightarrow> \<not> cmp (the (bh_A bh u)) (the (bh_A bh w)))"

text \<open>
  The size up to which the row bookkeeping in 32 bits is exact: two rows below \<open>UINT_MAX\<close>. Above
  it the test in \<open>binheap_delete\<close> that returns a row wraps around.
\<close>

definition HEAP_MAX :: nat where
  "HEAP_MAX = 2 ^ 32 - 131072 - 1"

definition heap_inv :: "(heap_page \<Rightarrow> bool) \<Rightarrow> par_fn \<Rightarrow> u32 \<Rightarrow> 'e cmp_fn \<Rightarrow> 'e binheap \<Rightarrow> bool" where
  "heap_inv ok par lim cmp bh \<longleftrightarrow> ok (bh_page bh) \<and> bh_next bh \<le> lim \<and> unat (bh_next bh) \<le> HEAP_MAX \<and>
     rows_ok bh \<and> content_ok bh \<and> heap_order par cmp bh"

subsection \<open>Cells\<close>

lemma ROW_nat: "ROW n = unat n div 65536"
  unfolding ROW_def ROW_SHIFT_def unat_drop_bit_eq by (simp add: drop_bit_eq_div)

lemma COL_nat: "COL n = unat n mod 65536"
proof -
  have "(ROW_WIDTH - 1 :: u32) = mask 16" by (simp add: ROW_WIDTH_def mask_eq_exp_minus_1)
  then show ?thesis by (simp add: COL_def unat_and_mask)
qed

lemma cell_inj: "ROW a = ROW b \<and> COL a = COL b \<longleftrightarrow> a = b"
  by (metis ROW_nat COL_nat div_mult_mod_eq word_unat_eq_iff)

lemma bh_A_frame [simp]:
  "bh_A (bh\<lparr>bh_idx := f\<rparr>) = bh_A bh" "bh_A (bh\<lparr>bh_next := n\<rparr>) = bh_A bh"
  "rows_ok (bh\<lparr>bh_idx := f\<rparr>) = rows_ok bh" "rows_ok (bh\<lparr>bh_next := n\<rparr>) = rows_ok bh"
  by (simp_all add: bh_A_def rows_ok_def fun_eq_iff)

lemma row_allocated:
  assumes "rows_ok bh" and "u < bh_length bh"
  shows "\<exists>r. bh_array bh (ROW u) = Some r"
proof -
  have "unat u < unat (bh_length bh)" using assms(2) by (simp add: word_less_nat_alt)
  then have "unat u div 65536 < unat (bh_length bh) div 65536"
    using assms(1) unfolding rows_ok_def by (auto elim!: dvdE intro: less_mult_imp_div_less simp: mult.commute)
  then show ?thesis using assms(1) unfolding rows_ok_def ROW_nat by blast
qed

lemma bh_A_set_ok:
  assumes "rows_ok bh" and "u < bh_length bh"
  shows "\<exists>bh'. bh_A_set bh u p = Some bh' \<and> rows_ok bh' \<and> bh_A bh' = (bh_A bh)(u := p) \<and>
    bh_page bh' = bh_page bh \<and> bh_length bh' = bh_length bh \<and> bh_next bh' = bh_next bh \<and>
    bh_update bh' = bh_update bh \<and> bh_idx bh' = bh_idx bh"
proof -
  obtain r where r: "bh_array bh (ROW u) = Some r" using row_allocated [OF assms] by blast
  let ?bh = "bh\<lparr>bh_array := (bh_array bh)(ROW u \<mapsto> r(COL u := p))\<rparr>"
  have "bh_A ?bh v = ((bh_A bh)(u := p)) v" for v
    using r cell_inj [of v u] by (cases "ROW v = ROW u") (auto simp: bh_A_def)
  moreover have "rows_ok ?bh"
    using assms(1) r unfolding rows_ok_def by auto
  ultimately show ?thesis
    using r by (intro exI [of _ ?bh]) (auto simp: bh_A_set_def)
qed

subsection \<open>Swapping two cells\<close>

text \<open>What every operation inside the heap leaves alone.\<close>

definition same_frame :: "'e binheap \<Rightarrow> 'e binheap \<Rightarrow> bool" where
  "same_frame bh bh' \<longleftrightarrow> bh_page bh' = bh_page bh \<and> bh_length bh' = bh_length bh \<and> bh_next bh' = bh_next bh \<and>
     bh_members bh' = bh_members bh"

lemma same_frame_refl [simp]: "same_frame bh bh"
  by (simp add: same_frame_def)

lemma same_frame_trans: "same_frame a b \<Longrightarrow> same_frame b c \<Longrightarrow> same_frame a c"
  by (simp add: same_frame_def)

lemma content_cell:
  "content_ok bh \<Longrightarrow> 1 \<le> u \<Longrightarrow> u < bh_next bh \<Longrightarrow> \<exists>p. bh_A bh u = Some p \<and> bh_idx bh p = u \<and> p \<in> bh_members bh"
  unfolding content_ok_def bh_members_def by blast

lemma content_bounds: "content_ok bh \<Longrightarrow> 1 \<le> bh_next bh \<and> bh_next bh \<le> bh_length bh \<and> bh_update bh"
  unfolding content_ok_def by blast

lemma swap_members_le:
  assumes "bh_A b = (bh_A bh)(u := bh_A bh v, v := bh_A bh u)" and "bh_next b = bh_next bh"
    and "1 \<le> u" "u < bh_next bh" "1 \<le> v" "v < bh_next bh"
  shows "bh_members b \<subseteq> bh_members bh"
  using assms unfolding bh_members_def by (auto split: if_splits)

lemma swap_members:
  assumes "bh_A b = (bh_A bh)(u := bh_A bh v, v := bh_A bh u)" and "bh_next b = bh_next bh"
    and "1 \<le> u" "u < bh_next bh" "1 \<le> v" "v < bh_next bh"
  shows "bh_members b = bh_members bh"
proof
  show "bh_members b \<subseteq> bh_members bh" by (rule swap_members_le [OF assms])
  have "bh_A bh = (bh_A b)(u := bh_A b v, v := bh_A b u)" using assms(1) by auto
  then show "bh_members bh \<subseteq> bh_members b" by (rule swap_members_le) (use assms in auto)
qed

lemma binhead_swap_ok:
  assumes rows: "rows_ok bh" and con: "content_ok bh"
    and u: "1 \<le> u" "u < bh_next bh" and v: "1 \<le> v" "v < bh_next bh" and uv: "u \<noteq> v"
  shows "\<exists>bh'. binhead_swap bh u v = Some bh' \<and> rows_ok bh' \<and> content_ok bh' \<and> same_frame bh bh' \<and>
    bh_A bh' = (bh_A bh)(u := bh_A bh v, v := bh_A bh u)"
proof -
  obtain p q where p: "bh_A bh u = Some p" "bh_idx bh p = u" and q: "bh_A bh v = Some q" "bh_idx bh q = v"
    using content_cell [OF con] u v by blast
  have lt: "u < bh_length bh" "v < bh_length bh" using content_bounds [OF con] u v by auto
  obtain b1 where b1: "bh_A_set bh u (Some q) = Some b1" "rows_ok b1" "bh_A b1 = (bh_A bh)(u := Some q)"
    "bh_page b1 = bh_page bh" "bh_length b1 = bh_length bh" "bh_next b1 = bh_next bh"
    "bh_update b1 = bh_update bh" "bh_idx b1 = bh_idx bh"
    using bh_A_set_ok [OF rows lt(1)] by blast
  obtain b2 where b2: "bh_A_set b1 v (Some p) = Some b2" "rows_ok b2" "bh_A b2 = (bh_A b1)(v := Some p)"
    "bh_page b2 = bh_page b1" "bh_length b2 = bh_length b1" "bh_next b2 = bh_next b1"
    "bh_update b2 = bh_update b1" "bh_idx b2 = bh_idx b1"
    using bh_A_set_ok [OF b1(2), of v] lt(2) b1(5) by fastforce
  let ?b = "b2\<lparr>bh_idx := (bh_idx bh)(q := u, p := v)\<rparr>"
  have up: "bh_update bh" using content_bounds [OF con] by blast
  have A: "bh_A ?b = (bh_A bh)(u := Some q, v := Some p)"
    using b1(3) b2(3) by simp
  have swap: "binhead_swap bh u v = Some ?b"
    using p q u v uv up b1 b2 A by (auto simp: binhead_swap_def binheap_update_def panic_simps)
  have mem: "bh_members ?b = bh_members bh"
    using swap_members [of ?b bh u v] A p(1) q(1) u v b1(6) b2(6) by simp
  have "rows_ok ?b" using b2(2) by simp
  moreover have "content_ok ?b"
  proof -
    have "\<exists>r. bh_A ?b w = Some r \<and> bh_idx ?b r = w" if w: "1 \<le> w" "w < bh_next bh" for w
    proof -
      obtain r where "bh_A bh w = Some r" "bh_idx bh r = w" using content_cell [OF con w] by blast
      then show ?thesis using A p q uv by (cases "w = u"; cases "w = v") auto
    qed
    moreover have "bh_idx ?b r \<noteq> BINHEAP_NOIDX \<longleftrightarrow> r \<in> bh_members bh" for r
      using con p q u v content_cell [OF con] unfolding content_ok_def
      by (auto simp: BINHEAP_NOIDX_def bh_members_def)
    moreover have "bh_next bh \<noteq> 1" using u by (auto simp: word_less_nat_alt word_le_nat_alt)
    ultimately show ?thesis
      using con b1 b2 mem unfolding content_ok_def by auto
  qed
  moreover have "same_frame bh ?b"
    using b1 b2 mem by (simp add: same_frame_def)
  ultimately show ?thesis using swap A p(1) q(1) by auto
qed

subsection \<open>Growing and shrinking the array\<close>

lemma binheap_addrow_ok:
  assumes rows: "rows_ok bh" and room: "unat (bh_length bh) + 65536 < 2 ^ 32"
  shows "\<exists>bh'. binheap_addrow fresh bh = Some bh' \<and> rows_ok bh' \<and> unat (bh_length bh') = unat (bh_length bh) + 65536 \<and>
    (\<forall>u < bh_length bh. bh_A bh' u = bh_A bh u) \<and>
    bh_page bh' = bh_page bh \<and> bh_next bh' = bh_next bh \<and> bh_update bh' = bh_update bh \<and> bh_idx bh' = bh_idx bh"
proof -
  define n where "n = unat (bh_length bh) div 65536"
  have len: "unat (bh_length bh) = 65536 * n" using rows unfolding rows_ok_def n_def by simp
  have R: "ROW (bh_length bh) = n" by (simp add: ROW_nat n_def)
  have al: "bh_array bh i \<noteq> None \<longleftrightarrow> i < n" for i using rows unfolding rows_ok_def n_def by simp
  have nr: "n \<le> unat (bh_rows bh)" "unat (bh_rows bh) \<le> 131072"
    using rows unfolding rows_ok_def n_def by blast+
  define b where "b = (if n \<ge> unat (bh_rows bh)
     then bh\<lparr>bh_array := (\<lambda>i. if i < unat (bh_rows bh) then bh_array bh i else None), bh_rows := bh_rows bh * 2\<rparr>
     else bh)"
  have "bh_array bh i = None" if "n \<le> i" for i
    using al [of i] that by auto
  then have arr: "bh_array b = bh_array bh"
    using nr(1) by (auto simp: b_def fun_eq_iff)
  let ?b = "b\<lparr>bh_array := (bh_array b)(n \<mapsto> fresh), bh_length := bh_length b + ROW_WIDTH\<rparr>"
  have fr: "bh_length b = bh_length bh" "bh_page b = bh_page bh" "bh_next b = bh_next bh"
    "bh_update b = bh_update bh" "bh_idx b = bh_idx bh" by (simp_all add: b_def)
  have len': "unat (bh_length bh + ROW_WIDTH) = unat (bh_length bh) + 65536"
    using room by (subst unat_add_nowrap) (simp_all add: ROW_WIDTH_def)
  have "bh_array bh n = None" using al [of n] by simp
  then have eq: "binheap_addrow fresh bh = Some ?b"
    using arr fr by (simp add: binheap_addrow_def R b_def [symmetric] Let_def)
  have "bh_rows b = bh_rows bh \<and> n < unat (bh_rows bh) \<or> bh_rows b = bh_rows bh * 2 \<and> unat (bh_rows bh) = n"
    using nr by (auto simp: b_def)
  moreover have "unat (bh_rows bh * 2) = unat (bh_rows bh) * 2"
    using nr(2) by (simp add: unat_word_ariths)
  moreover have n1: "0 < n" "65536 * n + 65536 < 2 ^ 32" using rows len room unfolding rows_ok_def by auto
  ultimately have rw: "Suc n \<le> unat (bh_rows b)" "unat (bh_rows b) \<le> 131072" using nr by auto
  have "rows_ok ?b"
    using rw al arr len' len fr unfolding rows_ok_def by auto
  moreover have "bh_A ?b u = bh_A bh u" if "u < bh_length bh" for u
  proof -
    have "unat u < n * 65536" using that len by (simp add: word_less_nat_alt)
    then have "ROW u < n" unfolding ROW_nat by (rule less_mult_imp_div_less)
    then show ?thesis using arr by (simp add: bh_A_def)
  qed
  ultimately show ?thesis using eq len' fr by auto
qed

lemma rows_ok_shrink:
  assumes rows: "rows_ok bh" and big: "unat (bh_length bh) \<ge> 131072"
    and bh': "bh' = bh\<lparr>bh_array := (bh_array bh)(ROW (bh_length bh - 1) := None), bh_length := bh_length bh - ROW_WIDTH\<rparr>"
  shows "rows_ok bh'" and "unat (bh_length bh') = unat (bh_length bh) - 65536"
    and "u < bh_length bh' \<Longrightarrow> bh_A bh' u = bh_A bh u"
proof -
  define n where "n = unat (bh_length bh) div 65536"
  have len: "unat (bh_length bh) = 65536 * n" using rows unfolding rows_ok_def n_def by simp
  have n2: "2 \<le> n" using big len by simp
  have len': "unat (bh_length bh - ROW_WIDTH) = 65536 * (n - 1)"
    using big len by (subst unat_sub_le) (simp_all add: ROW_WIDTH_def diff_mult_distrib2)
  then show "unat (bh_length bh') = unat (bh_length bh) - 65536" by (simp add: bh' len diff_mult_distrib2)
  have "unat (bh_length bh - 1) = 65536 * (n - 1) + 65535"
    using len n2 by (subst unat_sub_le) (simp_all add: diff_mult_distrib2)
  then have R: "ROW (bh_length bh - 1) = n - 1" by (simp add: ROW_nat)
  show "rows_ok bh'"
    using rows len' n2 R len unfolding rows_ok_def n_def [symmetric] bh' by auto
  show "bh_A bh' u = bh_A bh u" if "u < bh_length bh'"
  proof -
    have "unat u < (n - 1) * 65536" using that len' by (simp add: word_less_nat_alt bh')
    then have "ROW u < n - 1" unfolding ROW_nat by (rule less_mult_imp_div_less)
    then show ?thesis by (simp add: bh_A_def R bh')
  qed
qed

text \<open>Only the cells below \<open>next\<close> matter to the contents and the order.\<close>

lemma content_cong:
  assumes "content_ok bh" and "\<And>w. w < bh_next bh \<Longrightarrow> bh_A b w = bh_A bh w" and "bh_next b = bh_next bh"
    and "bh_next bh = 1 \<Longrightarrow> bh_A b 1 = None" and "bh_next bh \<le> bh_length b"
    and "bh_update b = bh_update bh" and "bh_idx b = bh_idx bh"
  shows "content_ok b \<and> bh_members b = bh_members bh"
proof -
  have m: "bh_members b = bh_members bh"
    using assms(2,3) unfolding bh_members_def by (metis (no_types, lifting))
  moreover have "content_ok b"
    using assms m unfolding content_ok_def by (metis (no_types, lifting))
  ultimately show ?thesis by blast
qed

lemma grow_ok:
  assumes rows: "rows_ok bh" and con: "content_ok bh" and room: "unat (bh_next bh) < HEAP_MAX"
  shows "\<exists>b. (if bh_length bh = bh_next bh then binheap_addrow fresh bh else Some bh) = Some b \<and> rows_ok b \<and>
    content_ok b \<and> bh_members b = bh_members bh \<and> bh_next bh < bh_length b \<and>
    (\<forall>w < bh_next bh. bh_A b w = bh_A bh w) \<and> bh_page b = bh_page bh \<and> bh_next b = bh_next bh \<and> bh_idx b = bh_idx bh"
proof (cases "bh_length bh = bh_next bh")
  case True
  have big: "65536 \<le> unat (bh_next bh)" using rows True unfolding rows_ok_def by simp
  have "unat (bh_length bh) + 65536 < 2 ^ 32" using room True by (simp add: HEAP_MAX_def)
  from binheap_addrow_ok [OF rows this, of fresh] obtain b where
    b: "binheap_addrow fresh bh = Some b" "rows_ok b" "unat (bh_length b) = unat (bh_next bh) + 65536"
      "\<And>w. w < bh_next bh \<Longrightarrow> bh_A b w = bh_A bh w" "bh_page b = bh_page bh" "bh_next b = bh_next bh"
      "bh_update b = bh_update bh" "bh_idx b = bh_idx bh"
    unfolding True by blast
  have "bh_next bh \<noteq> 1" using big by auto
  with content_cong [OF con b(4,6) _ _ b(7,8)] b(3)
  have "content_ok b \<and> bh_members b = bh_members bh" by (simp add: word_le_nat_alt)
  moreover have "bh_next bh < bh_length b" using b(3) by (simp add: word_less_nat_alt)
  ultimately show ?thesis using True b by auto
next
  case False
  then show ?thesis using rows con content_bounds [OF con] by auto
qed

lemma append_ok:
  assumes rows: "rows_ok bh" and con: "content_ok bh" and lt: "bh_next bh < bh_length bh"
    and p: "bh_idx bh p = BINHEAP_NOIDX" and room: "unat (bh_next bh) < HEAP_MAX"
  shows "\<exists>c d. bh_A_set (bh\<lparr>bh_next := bh_next bh + 1\<rparr>) (bh_next bh) (Some p) = Some c \<and>
    binheap_update c (bh_next bh) = Some d \<and> rows_ok d \<and> content_ok d \<and>
    bh_members d = insert p (bh_members bh) \<and> bh_A d = (bh_A bh)(bh_next bh := Some p) \<and>
    bh_page d = bh_page bh \<and> bh_next d = bh_next bh + 1"
proof -
  let ?u = "bh_next bh"
  have nx: "1 \<le> ?u" "bh_update bh" using content_bounds [OF con] by auto
  have pm: "p \<notin> bh_members bh" using con p unfolding content_ok_def by blast
  have u1: "unat (?u + 1) = Suc (unat ?u)" using room by (simp add: unat_add_nowrap HEAP_MAX_def)
  then have ule: "w < ?u + 1 \<longleftrightarrow> w < ?u \<or> w = ?u" for w
    by (auto simp: word_less_nat_alt less_Suc_eq word_unat_eq_iff)
  obtain c where c: "bh_A_set (bh\<lparr>bh_next := ?u + 1\<rparr>) ?u (Some p) = Some c" "rows_ok c"
      "bh_A c = (bh_A bh)(?u := Some p)" "bh_page c = bh_page bh" "bh_length c = bh_length bh"
      "bh_next c = ?u + 1" "bh_update c = bh_update bh" "bh_idx c = bh_idx bh"
    using bh_A_set_ok [of "bh\<lparr>bh_next := ?u + 1\<rparr>" ?u "Some p"] rows lt by auto
  define d where "d = c\<lparr>bh_idx := (bh_idx c)(p := ?u)\<rparr>"
  have dA: "bh_A d = (bh_A bh)(?u := Some p)" using c(3) by (simp add: d_def)
  have upd: "binheap_update c ?u = Some d"
    using c nx(2) ule by (simp add: binheap_update_def d_def panic_simps)
  have mem: "bh_members d = insert p (bh_members bh)"
    using nx(1) c(6) unfolding bh_members_def dA by (auto simp: ule d_def) (metis less_irrefl)
  have cell: "\<exists>q. bh_A d w = Some q \<and> bh_idx d q = w" if w: "1 \<le> w" "w < ?u + 1" for w
  proof (cases "w = ?u")
    case False
    then have "w < ?u" using w(2) ule by blast
    then obtain q where "bh_A bh w = Some q" "bh_idx bh q = w" "q \<in> bh_members bh"
      using content_cell [OF con w(1)] by blast
    then show ?thesis using False dA pm c(8) by (auto simp: d_def)
  qed (use c(3) in \<open>auto simp: d_def intro!: exI [of _ p]\<close>)
  have idx: "bh_idx d q \<noteq> BINHEAP_NOIDX \<longleftrightarrow> q \<in> bh_members d" for q
    using con nx(1) c(8) unfolding mem content_ok_def by (auto simp: d_def BINHEAP_NOIDX_def)
  have "1 \<le> ?u + 1" "?u + 1 \<le> bh_length bh" "?u + 1 \<noteq> 1"
    using u1 lt nx(1) by (auto simp: word_le_nat_alt word_less_nat_alt word_unat_eq_iff)
  then have "content_ok d"
    using cell idx c nx(2) unfolding content_ok_def by (simp add: d_def)
  then show ?thesis using c upd mem dA by (auto simp: d_def)
qed

text \<open>Taking out the element at \<open>u\<close>: the last element, if another one, moves there.\<close>

lemma remove_ok:
  assumes rows: "rows_ok bh" and con: "content_ok bh" and u: "1 \<le> u" "u < bh_next bh" and p: "bh_A bh u = Some p"
    and b: "rows_ok b" "bh_A b = (bh_A bh)(u := bh_A bh (bh_next bh - 1), bh_next bh - 1 := None)"
      "bh_page b = bh_page bh" "bh_length b = bh_length bh" "bh_next b = bh_next bh - 1" "bh_update b"
      "bh_idx b = (if u = bh_next bh - 1 then (bh_idx bh)(p := BINHEAP_NOIDX)
                   else (bh_idx bh)(p := BINHEAP_NOIDX, the (bh_A bh (bh_next bh - 1)) := u))"
  shows "content_ok b \<and> bh_members b = bh_members bh - {p}"
proof -
  let ?n = "bh_next bh - 1"
  have n: "unat ?n = unat (bh_next bh) - 1" "1 \<le> ?n" "u \<le> ?n" "?n < bh_next bh"
    using u by (auto simp: word_le_nat_alt word_less_nat_alt unat_sub_le)
  have lt: "w < ?n \<Longrightarrow> w < bh_next bh" for w using n(4) by simp
  have idxp: "bh_idx bh p = u" using content_cell [OF con u] p by auto
  obtain q where q: "bh_A bh ?n = Some q" "bh_idx bh q = ?n" "q \<in> bh_members bh"
    using content_cell [OF con n(2,4)] by blast
  have cell: "\<exists>r. bh_A b w = Some r \<and> bh_idx b r = w \<and> r \<in> bh_members bh - {p}" if w: "1 \<le> w" "w < ?n" for w
  proof -
    obtain r where r: "bh_A bh w = Some r" "bh_idx bh r = w" "r \<in> bh_members bh"
      using content_cell [OF con w(1) lt [OF w(2)]] by blast
    show ?thesis
    proof (cases "w = u")
      case True
      then have "u \<noteq> ?n" using w by auto
      moreover from this have "q \<noteq> p" using q(2) idxp by auto
      ultimately show ?thesis using True q b(2,7) by auto
    next
      case False
      then have "r \<noteq> p" "r \<noteq> q" "w \<noteq> ?n" using r(2) idxp q(2) w by auto
      then show ?thesis using False r b(2,7) q(1) by auto
    qed
  qed
  have mem: "bh_members b = bh_members bh - {p}"
  proof
    show "bh_members b \<subseteq> bh_members bh - {p}"
      using cell unfolding bh_members_def [of b] b(5) by fastforce
    show "bh_members bh - {p} \<subseteq> bh_members b"
    proof
      fix r assume r: "r \<in> bh_members bh - {p}"
      then obtain w where w: "1 \<le> w" "w < bh_next bh" "bh_A bh w = Some r" unfolding bh_members_def by blast
      have "w \<noteq> u" using w p r by auto
      consider "w < ?n" | "w = ?n" using w(2) n(1) by (fastforce simp: word_less_nat_alt word_unat_eq_iff)
      then show "r \<in> bh_members b"
      proof cases
        case 1
        then have "bh_A b w = Some r" using w(3) \<open>w \<noteq> u\<close> b(2) by auto
        then show ?thesis using w(1) 1 b(5) unfolding bh_members_def by auto
      next
        case 2
        then have "u < ?n" "bh_A b u = Some r" using \<open>w \<noteq> u\<close> n(3) w(3) b(2) by auto
        then show ?thesis using u(1) b(5) unfolding bh_members_def by auto
      qed
    qed
  qed
  have idx: "bh_idx b r \<noteq> BINHEAP_NOIDX \<longleftrightarrow> r \<in> bh_members b" for r
    using con q u(1) idxp unfolding mem b(7) content_ok_def by (auto simp: BINHEAP_NOIDX_def)
  have "?n \<le> bh_length bh" using content_bounds [OF con] n(4) by auto
  moreover have "?n = 1 \<Longrightarrow> bh_A b 1 = None" using b(2) by auto
  moreover have "\<exists>r. bh_A b w = Some r \<and> bh_idx b r = w" if "1 \<le> w \<and> w < ?n" for w
    using cell [of w] that by blast
  ultimately have "content_ok b"
    using idx b(4,5,6) n(2) unfolding content_ok_def by simp
  then show ?thesis using mem by blast
qed

subsection \<open>The loops restore the order\<close>

text \<open>
  The laws of the comparison callback: a strict weak order. Everything below is proved once from
  the laws of the index functions and of the comparison.
\<close>

locale heap_laws = heap_shape ok par chi lim
  for ok :: "heap_page \<Rightarrow> bool" and par :: par_fn and chi :: chi_fn and lim :: u32 +
  fixes cmp :: "'e cmp_fn"
  assumes cmp_asym: "cmp a b \<Longrightarrow> \<not> cmp b a"
    and cmp_ntrans: "\<not> cmp a b \<Longrightarrow> \<not> cmp b c \<Longrightarrow> \<not> cmp a c"
begin

lemma hole_swap_up:
  assumes ok: "ok (bh_page bh)" and nx: "bh_next bh \<le> lim"
    and hole: "heap_hole par cmp bh u" and u: "1 < u" "u < bh_next bh"
    and v: "par (bh_page bh) u = Some v" and less: "cmp (the (bh_A bh u)) (the (bh_A bh v))"
    and bh': "bh_A bh' = (bh_A bh)(u := bh_A bh v, v := bh_A bh u)" "same_frame bh bh'"
  shows "heap_hole par cmp bh' v \<and> heap_down_ok par cmp bh' v"
proof -
  have fr: "bh_page bh' = bh_page bh" "bh_next bh' = bh_next bh" using bh'(2) by (simp_all add: same_frame_def)
  have lt: "v < u" "1 \<le> v" using par_less [OF ok u(1), of] v u(2) nx by (auto dest: less_le_trans)
  have parent_lt: "w < x" if "par (bh_page bh) x = Some w" "1 < x" "x < bh_next bh" for x w
    using par_less [OF ok that(2)] that nx by (auto dest: less_le_trans)
  have h1: "\<not> cmp (the (bh_A bh x)) (the (bh_A bh w))"
    if "1 < x" "x < bh_next bh" "x \<noteq> u" "par (bh_page bh) x = Some w" "w \<noteq> u" for x w
    using hole that unfolding heap_hole_def by blast
  have h2: "\<not> cmp (the (bh_A bh x)) (the (bh_A bh v))"
    if "1 < x" "x < bh_next bh" "par (bh_page bh) x = Some u" for x
    using hole that u v unfolding heap_hole_def by blast
  have "heap_down_ok par cmp bh' v"
    unfolding heap_down_ok_def fr
  proof (intro allI impI; elim conjE)
    fix x
    assume x: "1 < x" "x < bh_next bh" "par (bh_page bh) x = Some v"
    have "x \<noteq> v" using parent_lt [OF x(3,1,2)] by auto
    have pv: "\<not> cmp (the (bh_A bh v)) (the (bh_A bh u))" by (rule cmp_asym [OF less])
    show "\<not> cmp (the (bh_A bh' x)) (the (bh_A bh' v))"
    proof (cases "x = u")
      case False
      then have "\<not> cmp (the (bh_A bh x)) (the (bh_A bh v))" using h1 [OF x(1,2) _ x(3)] lt by auto
      from cmp_ntrans [OF this pv] show ?thesis using bh'(1) False \<open>x \<noteq> v\<close> by auto
    qed (use pv bh'(1) lt in auto)
  qed
  moreover have "heap_hole par cmp bh' v"
    unfolding heap_hole_def fr
  proof (intro conjI allI impI; elim conjE)
    fix x w
    assume x: "1 < x" "x < bh_next bh" "x \<noteq> v" "par (bh_page bh) x = Some w" "w \<noteq> v"
    have "x \<noteq> u" using x v by auto
    then show "\<not> cmp (the (bh_A bh' x)) (the (bh_A bh' w))"
      using x h1 [OF x(1,2)] h2 [OF x(1,2)] bh'(1) by (cases "w = u") auto
  next
    fix x w
    assume x: "1 < x" "x < bh_next bh" "par (bh_page bh) x = Some v" "1 < v" "par (bh_page bh) v = Some w"
    have "w < v" "v < bh_next bh" using parent_lt [OF x(5,4)] lt u(2) by auto
    then have pw: "\<not> cmp (the (bh_A bh v)) (the (bh_A bh w))"
      using h1 [of v w] x lt by auto
    have "x \<noteq> v" using parent_lt [OF x(3,1,2)] by auto
    then show "\<not> cmp (the (bh_A bh' x)) (the (bh_A bh' w))"
    proof (cases "x = u")
      case True
      then show ?thesis using pw bh'(1) \<open>w < v\<close> lt by auto
    next
      case False
      then have "\<not> cmp (the (bh_A bh x)) (the (bh_A bh v))" using h1 [OF x(1,2) _ x(3)] lt by auto
      from cmp_ntrans [OF this pw] show ?thesis
        using bh'(1) \<open>w < v\<close> lt False \<open>x \<noteq> v\<close> by auto
    qed
  qed
  ultimately show ?thesis by blast
qed

lemma trickleup_loop_ok:
  assumes "ok (bh_page bh)" and "bh_next bh \<le> lim" and "rows_ok bh" and "content_ok bh"
    and "heap_hole par cmp bh u" and "1 \<le> u" and "u < bh_next bh"
  shows "\<exists>bh' u'. trickleup_loop par cmp bh u = Some (bh', u') \<and> rows_ok bh' \<and> content_ok bh' \<and>
    same_frame bh bh' \<and> heap_hole par cmp bh' u' \<and> heap_up_ok par cmp bh' u' \<and>
    (heap_down_ok par cmp bh u \<longrightarrow> heap_down_ok par cmp bh' u') \<and> 1 \<le> u' \<and> u' < bh_next bh'"
  using assms
proof (induction "unat u" arbitrary: bh u rule: less_induct)
  case less
  show ?case
  proof (cases "1 < u")
    case False
    then show ?thesis
      using less.prems by (subst trickleup_loop.simps) (simp add: ROOT_IDX_def heap_up_ok_def)
  next
    case True
    then obtain v where v: "par (bh_page bh) u = Some v" "1 \<le> v" "v < u"
      using par_less [OF less.prems(1)] less.prems by (blast dest: less_le_trans)
    have vn: "v < bh_next bh" using v(3) less.prems(7) by simp
    obtain p q where p: "bh_A bh u = Some p" and q: "bh_A bh v = Some q"
      using content_cell [OF less.prems(4)] less.prems(6,7) v(2) vn by blast
    show ?thesis
    proof (cases "cmp p q")
      case False
      then have "trickleup_loop par cmp bh u = Some (bh, u)"
        using True v vn p q less.prems(7)
        by (subst trickleup_loop.simps) (simp add: ROOT_IDX_def panic_simps)
      moreover have "heap_up_ok par cmp bh u" using False v p q by (simp add: heap_up_ok_def)
      ultimately show ?thesis using less.prems by (intro exI) auto
    next
      case sw: True
      obtain b where b: "binhead_swap bh u v = Some b" "rows_ok b" "content_ok b" "same_frame bh b"
        "bh_A b = (bh_A bh)(u := bh_A bh v, v := bh_A bh u)"
        using binhead_swap_ok [OF less.prems(3,4,6,7) v(2) vn] v(3) by auto
      have fr: "bh_page b = bh_page bh" "bh_next b = bh_next bh" using b(4) by (simp_all add: same_frame_def)
      have "cmp (the (bh_A bh u)) (the (bh_A bh v))" using sw p q by simp
      then have hole: "heap_hole par cmp b v" "heap_down_ok par cmp b v"
        using hole_swap_up [OF less.prems(1,2,5) True less.prems(7) v(1) _ b(5,4)] by blast+
      have "trickleup_loop par cmp bh u = trickleup_loop par cmp b v"
        using True v vn p q sw b(1) less.prems(7)
        by (subst trickleup_loop.simps) (simp add: ROOT_IDX_def panic_simps)
      moreover have "unat v < unat u" using v(3) by (simp add: word_less_nat_alt)
      ultimately show ?thesis
        using less.hyps [of v b] b(2,3,4) hole v(2) vn less.prems(1,2) fr same_frame_trans
        by (metis (no_types, lifting))
    qed
  qed
qed

lemma hole_closed:
  assumes "heap_hole par cmp bh u" and "heap_up_ok par cmp bh u"
    and "\<And>w. 1 < w \<Longrightarrow> w < bh_next bh \<Longrightarrow> par (bh_page bh) w = Some u \<Longrightarrow>
      \<not> cmp (the (bh_A bh w)) (the (bh_A bh u))"
  shows "heap_order par cmp bh"
  using assms unfolding heap_order_def heap_hole_def heap_up_ok_def by metis

lemma hole_swap_down:
  assumes ok: "ok (bh_page bh)" and nx: "bh_next bh \<le> lim"
    and hole: "heap_hole par cmp bh u" and u: "1 \<le> u" "u < bh_next bh"
    and v: "par (bh_page bh) v = Some u" "1 < v" "v < bh_next bh"
    and least: "\<And>w. 1 < w \<Longrightarrow> w < bh_next bh \<Longrightarrow> par (bh_page bh) w = Some u \<Longrightarrow>
      \<not> cmp (the (bh_A bh w)) (the (bh_A bh v))"
    and not_less: "\<not> cmp (the (bh_A bh u)) (the (bh_A bh v))"
    and bh': "bh_A bh' = (bh_A bh)(u := bh_A bh v, v := bh_A bh u)" "same_frame bh bh'"
  shows "heap_hole par cmp bh' v \<and> heap_up_ok par cmp bh' v"
proof -
  have fr: "bh_page bh' = bh_page bh" "bh_next bh' = bh_next bh" using bh'(2) by (simp_all add: same_frame_def)
  have parent_lt: "w < x" if "par (bh_page bh) x = Some w" "1 < x" "x < bh_next bh" for x w
    using par_less [OF ok that(2)] that nx by (auto dest: less_le_trans)
  have uv: "u < v" by (rule parent_lt [OF v])
  have h1: "\<not> cmp (the (bh_A bh x)) (the (bh_A bh w))"
    if "1 < x" "x < bh_next bh" "x \<noteq> u" "par (bh_page bh) x = Some w" "w \<noteq> u" for x w
    using hole that unfolding heap_hole_def by blast
  have "heap_hole par cmp bh' v"
    unfolding heap_hole_def fr
  proof (intro conjI allI impI; elim conjE)
    fix x w
    assume x: "1 < x" "x < bh_next bh" "x \<noteq> v" "par (bh_page bh) x = Some w" "w \<noteq> v"
    have wx: "w < x" by (rule parent_lt [OF x(4,1,2)])
    show "\<not> cmp (the (bh_A bh' x)) (the (bh_A bh' w))"
    proof (cases "x = u")
      case True
      then have "\<not> cmp (the (bh_A bh v)) (the (bh_A bh w))"
        using hole v x unfolding heap_hole_def by blast
      then show ?thesis using True bh'(1) x(5) wx uv by auto
    next
      case False
      then show ?thesis
        using x h1 [OF x(1,2) False x(4)] least [OF x(1,2)] bh'(1) by (cases "w = u") auto
    qed
  next
    fix x w
    assume x: "1 < x" "x < bh_next bh" "par (bh_page bh) x = Some v" "1 < v" "par (bh_page bh) v = Some w"
    have "v < x" by (rule parent_lt [OF x(3,1,2)])
    then show "\<not> cmp (the (bh_A bh' x)) (the (bh_A bh' w))"
      using h1 [OF x(1,2) _ x(3)] uv v(1) x(5) bh'(1) by auto
  qed
  moreover have "heap_up_ok par cmp bh' v"
    using v(1) fr uv not_less bh'(1) unfolding heap_up_ok_def by auto
  ultimately show ?thesis by blast
qed

lemma child_iff:
  assumes "ok p" and "1 \<le> u" "u < n" "n \<le> lim" and "chi p u = (a, b)" and "1 < w" "w < n"
  shows "par p w = Some u \<longleftrightarrow> w = a \<or> w = b"
  using par_chi [OF assms(1,6), of u] assms by (auto dest: less_le_trans)

lemma trickledown_loop_ok:
  assumes "ok (bh_page bh)" and "bh_next bh \<le> lim" and "rows_ok bh" and "content_ok bh"
    and "heap_hole par cmp bh u" and "heap_up_ok par cmp bh u" and "1 \<le> u" and "u < bh_next bh"
  shows "\<exists>bh' u'. trickledown_loop chi cmp bh u = Some (bh', u') \<and> rows_ok bh' \<and> content_ok bh' \<and>
    same_frame bh bh' \<and> heap_order par cmp bh' \<and> 1 \<le> u' \<and> u' < bh_next bh'"
  using assms
proof (induction "unat (bh_next bh) - unat u" arbitrary: bh u rule: less_induct)
  case less
  let ?p = "bh_page bh" and ?n = "bh_next bh"
  obtain a b where ab: "chi ?p u = (a, b)" by fastforce
  have grow: "u < a" "a \<le> b"
    using chi_grows [OF less.prems(1,7)] less.prems(2,8) ab by (auto dest: less_le_trans)
  have "0 < u" using less.prems(7) by (simp add: word_le_nat_alt word_less_nat_alt)
  then have pos: "0 < a" "0 < b" "1 < a" "1 < b"
    using grow less.prems(7) by (auto dest: less_trans le_less_trans less_le_trans)
  note ch = child_iff [OF less.prems(1,7,8,2) ab]
  obtain pu where pu: "bh_A bh u = Some pu" using content_cell [OF less.prems(4,7,8)] by blast
  show ?case
  proof (cases "a < ?n")
    case False
    then have "heap_order par cmp bh"
      using hole_closed [OF less.prems(5,6)] ch grow(2) by (metis le_less_trans)
    moreover have "trickledown_loop chi cmp bh u = Some (bh, u)"
      using False [unfolded not_less] ab pos grow pu less.prems(8)
      by (subst trickledown_loop.simps) (simp add: panic_simps)
    ultimately show ?thesis using less.prems by (intro exI) auto
  next
    case True
    have cell: "\<exists>q. bh_A bh w = Some q" if "1 < w" "w < ?n" for w
      using content_cell [OF less.prems(4) less_imp_le] that by blast
    obtain pa where pa: "bh_A bh a = Some pa" using cell pos(3) True by blast
    define v where "v = (if a \<noteq> b \<and> b < ?n \<and> cmp (the (bh_A bh b)) pa then b else a)"
    have v: "1 < v" "v < ?n" "par ?p v = Some u"
      using pos True ch by (auto simp: v_def)
    obtain pv where pv: "bh_A bh v = Some pv" using cell v by blast
    have least: "\<not> cmp (the (bh_A bh w)) (the (bh_A bh v))" if "1 < w" "w < ?n" "par ?p w = Some u" for w
    proof -
      have irr: "\<not> cmp x x" for x using cmp_asym by blast
      from ch [OF that(1,2)] that(3) consider "w = a" | "w = b" by blast
      then show ?thesis using that(2) pa irr cmp_asym by cases (auto simp: v_def)
    qed
    have pick: "(if a \<noteq> b \<and> b < ?n then bh_A bh b \<bind> (\<lambda>p2. Some (if cmp p2 pa then b else a)) else Some a) = Some v"
      using cell [OF pos(4)] by (auto simp: v_def)
    have step: "trickledown_loop chi cmp bh u =
        (if cmp pu pv then Some (bh, u) else binhead_swap bh u v \<bind> (\<lambda>bh'. trickledown_loop chi cmp bh' v))"
      using True [folded not_le] ab pos grow pu pa pv pick v(2) less.prems(8)
      by (subst trickledown_loop.simps) (simp add: panic_simps)
    show ?thesis
    proof (cases "cmp pu pv")
      case stop: True
      have "heap_order par cmp bh"
        by (rule hole_closed [OF less.prems(5,6)], rule cmp_ntrans [OF least])
           (use stop pu pv cmp_asym in auto)
      then show ?thesis using stop step less.prems by (intro exI) auto
    next
      case go: False
      have "u < v" using grow by (auto simp: v_def)
      obtain c where c: "binhead_swap bh u v = Some c" "rows_ok c" "content_ok c" "same_frame bh c"
        "bh_A c = (bh_A bh)(u := bh_A bh v, v := bh_A bh u)"
        using binhead_swap_ok [OF less.prems(3,4,7,8) less_imp_le [OF v(1)] v(2)] \<open>u < v\<close> by blast
      have fr: "bh_page c = ?p" "bh_next c = ?n" using c(4) by (simp_all add: same_frame_def)
      have "\<not> cmp (the (bh_A bh u)) (the (bh_A bh v))" using go pu pv by simp
      then have hole: "heap_hole par cmp c v" "heap_up_ok par cmp c v"
        using hole_swap_down [OF less.prems(1,2,5,7,8) v(3,1,2) least _ c(5,4)] by blast+
      have "unat ?n - unat v < unat ?n - unat u"
        using \<open>u < v\<close> v(2) by (simp add: word_less_nat_alt)
      then have "\<exists>bh' u'. trickledown_loop chi cmp c v = Some (bh', u') \<and> rows_ok bh' \<and> content_ok bh' \<and>
          same_frame c bh' \<and> heap_order par cmp bh' \<and> 1 \<le> u' \<and> u' < bh_next bh'"
        using less.hyps [of c v] less.prems(1,2) c(2,3) hole v fr by simp
      then show ?thesis using step go c(1,4) same_frame_trans by fastforce
    qed
  qed
qed

subsection \<open>The operations\<close>

lemma hole_of_order:
  assumes ok: "ok (bh_page bh)" and nx: "bh_next bh \<le> lim" and ord: "heap_order par cmp0 bh"
    and tr: "\<And>a b c. \<not> cmp0 a b \<Longrightarrow> \<not> cmp0 b c \<Longrightarrow> \<not> cmp0 a c"
    and agree: "\<And>v w. 1 \<le> v \<Longrightarrow> v < bh_next b \<Longrightarrow> v \<noteq> u \<Longrightarrow> 1 \<le> w \<Longrightarrow> w < bh_next b \<Longrightarrow> w \<noteq> u \<Longrightarrow>
      cmp (the (bh_A b v)) (the (bh_A b w)) = cmp0 (the (bh_A bh v)) (the (bh_A bh w))"
    and b: "bh_page b = bh_page bh" "bh_next b \<le> bh_next bh" and u: "u < bh_next bh"
  shows "heap_hole par cmp b u"
proof -
  have parent_lt: "w < x \<and> 1 \<le> w" if "par (bh_page bh) x = Some w" "1 < x" "x < bh_next bh" for x w
    using par_less [OF ok that(2)] that nx by (auto dest: less_le_trans)
  have o: "\<not> cmp0 (the (bh_A bh v)) (the (bh_A bh w))" if "1 < v" "v < bh_next bh" "par (bh_page bh) v = Some w" for v w
    using ord that unfolding heap_order_def by blast
  show ?thesis
    unfolding heap_hole_def b(1)
  proof (intro conjI allI impI; elim conjE)
    fix v w
    assume v: "1 < v" "v < bh_next b" "v \<noteq> u" "par (bh_page bh) v = Some w" "w \<noteq> u"
    have vn: "v < bh_next bh" using v(2) b(2) by simp
    have "w < bh_next b" "1 \<le> w" using parent_lt [OF v(4,1) vn] v(2) by auto
    then show "\<not> cmp (the (bh_A b v)) (the (bh_A b w))"
      using o [OF v(1) vn v(4)] agree [of v w] v by auto
  next
    fix v w
    assume v: "1 < v" "v < bh_next b" "par (bh_page bh) v = Some u" "1 < u" "par (bh_page bh) u = Some w"
    have vn: "v < bh_next bh" using v(2) b(2) by simp
    have uv: "u < v" and wu: "w < u" "1 \<le> w" using parent_lt [OF v(3,1) vn] parent_lt [OF v(5,4) u] by auto
    have "\<not> cmp0 (the (bh_A bh v)) (the (bh_A bh w))"
      by (rule tr [OF o [OF v(1) vn v(3)] o [OF v(4) u v(5)]])
    then show "\<not> cmp (the (bh_A b v)) (the (bh_A b w))"
      using agree [of v w] v uv wu by auto
  qed
qed

lemma trickleup_ok:
  assumes "ok (bh_page bh)" and "bh_next bh \<le> lim" and "rows_ok bh" and "content_ok bh"
    and "heap_hole par cmp bh u" and "1 \<le> u" and "u < bh_next bh"
  shows "\<exists>bh' u'. binheap_trickleup par cmp bh u = Some (bh', u') \<and> rows_ok bh' \<and> content_ok bh' \<and>
    same_frame bh bh' \<and> heap_hole par cmp bh' u' \<and> heap_up_ok par cmp bh' u' \<and>
    (heap_down_ok par cmp bh u \<longrightarrow> heap_down_ok par cmp bh' u') \<and> 1 \<le> u' \<and> u' < bh_next bh'"
  using trickleup_loop_ok [OF assms] content_cell [OF assms(4,6,7)] assms(7)
  by (auto simp: binheap_trickleup_def)

lemma settle_ok:
  assumes "ok (bh_page bh)" and "bh_next bh \<le> lim" and "rows_ok bh" and "content_ok bh"
    and "heap_hole par cmp bh u" and "1 \<le> u" and "u < bh_next bh"
  shows "\<exists>b1 u1 b2 u2. binheap_trickleup par cmp bh u = Some (b1, u1) \<and> u1 < bh_next b1 \<and> u1 > 0 \<and> bh_A b1 u1 \<noteq> None \<and>
    binheap_trickledown chi cmp b1 u1 = Some (b2, u2) \<and> u2 < bh_next b2 \<and> u2 > 0 \<and> bh_A b2 u2 \<noteq> None \<and>
    rows_ok b2 \<and> content_ok b2 \<and> same_frame bh b2 \<and> heap_order par cmp b2"
proof -
  have pos: "0 < w" if "1 \<le> w" for w :: u32 using that by (simp add: word_le_nat_alt word_less_nat_alt)
  obtain b1 u1 where b1: "binheap_trickleup par cmp bh u = Some (b1, u1)" "rows_ok b1" "content_ok b1"
    "same_frame bh b1" "heap_hole par cmp b1 u1" "heap_up_ok par cmp b1 u1" "1 \<le> u1" "u1 < bh_next b1"
    using trickleup_ok [OF assms] by blast
  have fr: "bh_page b1 = bh_page bh" "bh_next b1 = bh_next bh" using b1(4) by (simp_all add: same_frame_def)
  obtain b2 u2 where b2: "trickledown_loop chi cmp b1 u1 = Some (b2, u2)" "rows_ok b2" "content_ok b2"
    "same_frame b1 b2" "heap_order par cmp b2" "1 \<le> u2" "u2 < bh_next b2"
    using trickledown_loop_ok [of b1 u1] assms(1,2) b1 fr by auto
  obtain p where p: "bh_A b1 u1 = Some p" using content_cell [OF b1(3,7,8)] by blast
  obtain q where q: "bh_A b2 u2 = Some q" using content_cell [OF b2(3,6,7)] by blast
  have "binheap_trickledown chi cmp b1 u1 = Some (b2, u2)"
    using b2(1) p b1(8) by (simp add: binheap_trickledown_def)
  then show ?thesis
    using b1 b2 p q pos same_frame_trans by blast
qed

lemma reorder_ok:
  assumes inv: "heap_inv ok par lim cmp0 bh" and p: "p \<in> bh_members bh"
    and tr: "\<And>a b c. \<not> cmp0 a b \<Longrightarrow> \<not> cmp0 b c \<Longrightarrow> \<not> cmp0 a c"
    and agree: "\<And>a b. a \<noteq> p \<Longrightarrow> b \<noteq> p \<Longrightarrow> cmp a b = cmp0 a b"
  shows "\<exists>bh'. binheap_reorder par chi cmp bh (bh_idx bh p) = Some bh' \<and> heap_inv ok par lim cmp bh' \<and>
    bh_members bh' = bh_members bh"
proof -
  have i: "ok (bh_page bh)" "bh_next bh \<le> lim" "rows_ok bh" "content_ok bh" "heap_order par cmp0 bh"
    "unat (bh_next bh) \<le> HEAP_MAX"
    using inv by (simp_all add: heap_inv_def)
  obtain u where u: "1 \<le> u" "u < bh_next bh" "bh_A bh u = Some p" "bh_idx bh p = u"
    using p content_cell [OF i(4)] unfolding bh_members_def by fastforce
  have other: "the (bh_A bh v) \<noteq> p" if "1 \<le> v" "v < bh_next bh" "v \<noteq> u" for v
    using content_cell [OF i(4) that(1,2)] that(3) u(4) by auto
  have hole: "heap_hole par cmp bh u"
    by (rule hole_of_order [OF i(1,2,5) tr]) (use other agree u in auto)
  have "0 < u" "ROOT_IDX < bh_next bh"
    using u by (auto simp: ROOT_IDX_def word_le_nat_alt word_less_nat_alt)
  then show ?thesis
    using settle_ok [OF i(1-4) hole u(1,2)] i(1,2,6) u(2,3)
    unfolding u(4) by (auto simp: binheap_reorder_def same_frame_def heap_inv_def panic_simps)
qed

lemma insert_ok:
  assumes inv: "heap_inv ok par lim cmp bh" and p: "bh_idx bh p = BINHEAP_NOIDX"
    and room: "bh_next bh < lim" "unat (bh_next bh) < HEAP_MAX"
  shows "\<exists>bh'. binheap_insert par cmp fresh bh p = Some bh' \<and> heap_inv ok par lim cmp bh' \<and>
    bh_members bh' = insert p (bh_members bh)"
proof -
  have i: "ok (bh_page bh)" "bh_next bh \<le> lim" "rows_ok bh" "content_ok bh" "heap_order par cmp bh"
    using inv by (simp_all add: heap_inv_def)
  let ?u = "bh_next bh"
  have nx: "1 \<le> ?u" "?u \<le> bh_length bh" using content_bounds [OF i(4)] by auto
  obtain b where b: "(if bh_length bh = ?u then binheap_addrow fresh bh else Some bh) = Some b" "rows_ok b"
      "content_ok b" "bh_members b = bh_members bh" "?u < bh_length b" "\<And>w. w < ?u \<Longrightarrow> bh_A b w = bh_A bh w"
      "bh_page b = bh_page bh" "bh_next b = ?u" "bh_idx b = bh_idx bh"
    using grow_ok [OF i(3,4) room(2), of fresh] by blast
  obtain c d where d: "bh_A_set (b\<lparr>bh_next := ?u + 1\<rparr>) ?u (Some p) = Some c" "binheap_update c ?u = Some d"
      "rows_ok d" "content_ok d" "bh_members d = insert p (bh_members bh)" "bh_A d = (bh_A b)(?u := Some p)"
      "bh_page d = bh_page bh" "bh_next d = ?u + 1"
    using append_ok [OF b(2,3), of p] b(4,5,7,8,9) p room(2) by auto
  have u1: "unat (?u + 1) = Suc (unat ?u)" using room(2) by (simp add: unat_add_nowrap HEAP_MAX_def)
  then have ule: "w < ?u + 1 \<longleftrightarrow> w < ?u \<or> w = ?u" for w
    by (auto simp: word_less_nat_alt less_Suc_eq word_unat_eq_iff)
  have d_lim: "?u + 1 \<le> lim" using room(1) u1 by (simp add: word_less_nat_alt word_le_nat_alt)
  have pl: "w < v" if "par (bh_page bh) v = Some w" "1 < v" "v < ?u + 1" for v w
    using par_less [OF i(1) that(2)] that d_lim by (auto dest: less_le_trans)
  have no_child: False if v: "1 < v" "v < ?u + 1" "par (bh_page bh) v = Some ?u" for v
    using pl [OF v(3,1,2)] ule [of v] v(2) by (metis less_asym less_irrefl)
  have hole: "heap_hole par cmp d ?u"
    unfolding heap_hole_def d(7,8)
  proof (intro conjI allI impI; elim conjE)
    fix v w assume v: "1 < v" "v < ?u + 1" "v \<noteq> ?u" "par (bh_page bh) v = Some w" "w \<noteq> ?u"
    then have "v < ?u" "w < ?u" using pl [OF v(4,1,2)] ule by auto
    then show "\<not> cmp (the (bh_A d v)) (the (bh_A d w))"
      using i(5) v b(6) d(6) unfolding heap_order_def by auto
  next
    fix v w assume v: "1 < v" "v < ?u + 1" "par (bh_page bh) v = Some ?u"
    then show "\<not> cmp (the (bh_A d v)) (the (bh_A d w))" using no_child by blast
  qed
  have a: "ok (bh_page d)" "bh_next d \<le> lim" "?u < bh_next d" using i(1) d(7,8) d_lim ule by simp_all
  have down: "heap_down_ok par cmp d ?u"
    unfolding heap_down_ok_def d(7,8)
  proof (intro allI impI; elim conjE)
    fix v assume v: "1 < v" "v < ?u + 1" "par (bh_page bh) v = Some ?u"
    then show "\<not> cmp (the (bh_A d v)) (the (bh_A d ?u))" using no_child by blast
  qed
  obtain e u' where e: "binheap_trickleup par cmp d ?u = Some (e, u')" "rows_ok e" "content_ok e"
      "same_frame d e" "heap_hole par cmp e u'" "heap_up_ok par cmp e u'" "heap_down_ok par cmp e u'"
    using trickleup_ok [OF a(1,2) d(3,4) hole nx(1) a(3)] down by blast
  have fr: "bh_page e = bh_page bh" "bh_next e = ?u + 1" "bh_members e = insert p (bh_members bh)"
    using e(4) d(5,7,8) by (simp_all add: same_frame_def)
  have "heap_order par cmp e"
    using hole_closed [OF e(5,6)] e(7) unfolding heap_down_ok_def by blast
  then have "heap_inv ok par lim cmp e"
    using i(1) e(2,3) fr d_lim u1 room(2) by (simp add: heap_inv_def)
  moreover have ue: "?u < bh_next e" using fr(2) ule [of ?u] by simp
  obtain q where "bh_A e ?u = Some q"
    using content_cell [OF e(3) nx(1) ue] by blast
  then have "binheap_insert par cmp fresh bh p = Some e"
    using b(1,5,8) d(1,2) e(1) ue nx(2) by (simp add: binheap_insert_def panic_simps Let_def)
  ultimately show ?thesis using fr(3) by blast
qed

lemma order_shrink:
  assumes "heap_order par cmp bh" and "ok (bh_page bh)" and "bh_next bh \<le> lim"
    and "bh_next b \<le> bh_next bh" and "bh_page b = bh_page bh" and "\<And>w. w < bh_next b \<Longrightarrow> bh_A b w = bh_A bh w"
  shows "heap_order par cmp b"
  unfolding heap_order_def
proof (intro allI impI; elim conjE)
  fix v w assume v: "1 < v" "v < bh_next b" "par (bh_page b) v = Some w"
  have vn: "v < bh_next bh" using v(2) assms(4) by simp
  have "w < v" using par_less [OF assms(2) v(1)] v(3) vn assms(3,5) by (auto dest: less_le_trans)
  then show "\<not> cmp (the (bh_A b v)) (the (bh_A b w))"
    using assms(1,5,6) v vn unfolding heap_order_def by (metis less_trans)
qed

lemma delete_last_ok:
  assumes inv: "heap_inv ok par lim cmp bh" and u: "1 \<le> u" "u < bh_next bh" "bh_A bh u = Some p"
    and last: "u = bh_next bh - 1"
  shows "\<exists>bh'. binheap_delete par chi cmp bh u = Some bh' \<and> heap_inv ok par lim cmp bh' \<and>
    bh_members bh' = bh_members bh - {p}"
proof -
  have i: "ok (bh_page bh)" "bh_next bh \<le> lim" "rows_ok bh" "content_ok bh" "heap_order par cmp bh"
    "unat (bh_next bh) \<le> HEAP_MAX"
    using inv by (simp_all add: heap_inv_def)
  have nx: "bh_next bh \<le> bh_length bh" "bh_update bh" using content_bounds [OF i(4)] by auto
  have le: "u \<le> bh_next bh" and g: "ROOT_IDX < bh_next bh" "0 < u"
    using u by (auto simp: ROOT_IDX_def word_le_nat_alt word_less_nat_alt)
  define c where "c = bh\<lparr>bh_idx := (bh_idx bh)(p := BINHEAP_NOIDX), bh_next := u\<rparr>"
  obtain b where b: "bh_A_set c u None = Some b" "rows_ok b" "bh_A b = (bh_A bh)(u := None)"
      "bh_page b = bh_page bh" "bh_length b = bh_length bh" "bh_next b = u" "bh_update b"
      "bh_idx b = (bh_idx bh)(p := BINHEAP_NOIDX)"
    using bh_A_set_ok [of c u None] i(3) less_le_trans [OF u(2) nx(1)] nx(2) by (auto simp: c_def)
  have "content_ok b \<and> bh_members b = bh_members bh - {p}"
    by (rule remove_ok [OF i(3,4) u]) (use b last in auto)
  moreover have "heap_order par cmp b"
    by (rule order_shrink [OF i(5,1,2)]) (use b le in auto)
  moreover have "binheap_delete par chi cmp bh u = Some b"
    using b(1) g u nx(2) last by (simp add: binheap_delete_def panic_simps Let_def c_def)
  moreover have "u \<le> lim" "unat u \<le> HEAP_MAX" using le i(2,6) by (auto simp: word_le_nat_alt)
  ultimately show ?thesis using b i(1) by (auto simp: heap_inv_def)
qed

lemma shrink_ok:
  assumes inv: "heap_inv ok par lim cmp bh"
    and bh': "bh' = (if bh_next bh + 2 * ROW_WIDTH \<le> bh_length bh
              then bh\<lparr>bh_array := (bh_array bh)(ROW (bh_length bh - 1) := None), bh_length := bh_length bh - ROW_WIDTH\<rparr>
              else bh)"
  shows "heap_inv ok par lim cmp bh' \<and> bh_members bh' = bh_members bh"
proof (cases "bh_next bh + 2 * ROW_WIDTH \<le> bh_length bh")
  case True
  have i: "ok (bh_page bh)" "bh_next bh \<le> lim" "rows_ok bh" "content_ok bh" "heap_order par cmp bh"
    "unat (bh_next bh) \<le> HEAP_MAX"
    using inv by (simp_all add: heap_inv_def)
  have "unat (bh_next bh + 2 * ROW_WIDTH) = unat (bh_next bh) + 131072"
    using i(6) by (subst unat_add_nowrap) (simp_all add: HEAP_MAX_def ROW_WIDTH_def)
  then have big: "unat (bh_next bh) + 131072 \<le> unat (bh_length bh)" using True by (simp add: word_le_nat_alt)
  then have "131072 \<le> unat (bh_length bh)" by simp
  note sh = rows_ok_shrink [OF i(3) this, of bh']
  have e: "bh' = bh\<lparr>bh_array := (bh_array bh)(ROW (bh_length bh - 1) := None), bh_length := bh_length bh - ROW_WIDTH\<rparr>"
    using bh' True by simp
  have nl: "bh_next bh < bh_length bh'" using sh(2) [OF e] big by (simp add: word_less_nat_alt)
  have same: "bh_A bh' w = bh_A bh w" if "w \<le> bh_next bh" for w
    using sh(3) [OF e] le_less_trans [OF that nl] by blast
  have "content_ok bh' \<and> bh_members bh' = bh_members bh"
  proof (rule content_cong [OF i(4)])
    show "bh_A bh' 1 = None" if "bh_next bh = 1"
      using same [of 1] that i(4) unfolding content_ok_def by auto
  qed (use same nl in \<open>auto simp: e\<close>)
  moreover have "heap_order par cmp bh'"
    by (rule order_shrink [OF i(5,1,2)]) (use same in \<open>auto simp: e\<close>)
  ultimately show ?thesis using i sh(1) [OF e] by (auto simp: heap_inv_def e)
qed (use inv bh' in auto)

lemma delete_ok:
  assumes inv: "heap_inv ok par lim cmp bh" and p: "p \<in> bh_members bh"
  shows "\<exists>bh'. binheap_delete par chi cmp bh (bh_idx bh p) = Some bh' \<and> heap_inv ok par lim cmp bh' \<and>
    bh_members bh' = bh_members bh - {p}"
proof -
  have i: "ok (bh_page bh)" "bh_next bh \<le> lim" "rows_ok bh" "content_ok bh" "heap_order par cmp bh"
    "unat (bh_next bh) \<le> HEAP_MAX"
    using inv by (simp_all add: heap_inv_def)
  obtain u where u: "1 \<le> u" "u < bh_next bh" "bh_A bh u = Some p" "bh_idx bh p = u"
    using p content_cell [OF i(4)] unfolding bh_members_def by fastforce
  show ?thesis
  proof (cases "u = bh_next bh - 1")
    case True
    from delete_last_ok [OF inv u(1-3) True] show ?thesis unfolding u(4) .
  next
    case False
    let ?n = "bh_next bh - 1"
    have nx: "bh_next bh \<le> bh_length bh" "bh_update bh" using content_bounds [OF i(4)] by auto
    have n: "1 \<le> ?n" "u < ?n" "?n < bh_next bh" "ROOT_IDX < bh_next bh" "0 < u"
      using u False by (auto simp: ROOT_IDX_def word_le_nat_alt word_less_nat_alt unat_sub_le word_unat_eq_iff)
    obtain q where q: "bh_A bh ?n = Some q" using content_cell [OF i(4) n(1,3)] by blast
    define c where "c = bh\<lparr>bh_idx := (bh_idx bh)(p := BINHEAP_NOIDX), bh_next := ?n\<rparr>"
    obtain b1 where b1: "bh_A_set c u (Some q) = Some b1" "rows_ok b1" "bh_A b1 = (bh_A bh)(u := Some q)"
        "bh_page b1 = bh_page bh" "bh_length b1 = bh_length bh" "bh_next b1 = ?n" "bh_update b1"
        "bh_idx b1 = (bh_idx bh)(p := BINHEAP_NOIDX)"
      using bh_A_set_ok [of c u "Some q"] i(3) less_le_trans [OF u(2) nx(1)] nx(2) by (auto simp: c_def)
    obtain b2 where b2: "bh_A_set b1 ?n None = Some b2" "rows_ok b2" "bh_A b2 = (bh_A bh)(u := Some q, ?n := None)"
        "bh_page b2 = bh_page bh" "bh_length b2 = bh_length bh" "bh_next b2 = ?n" "bh_update b2"
        "bh_idx b2 = (bh_idx bh)(p := BINHEAP_NOIDX)"
      using bh_A_set_ok [of b1 ?n None] b1 less_le_trans [OF n(3) nx(1)] by auto
    define b where "b = b2\<lparr>bh_idx := (bh_idx b2)(q := u)\<rparr>"
    have b: "rows_ok b" "bh_A b = (bh_A bh)(u := Some q, ?n := None)" "bh_page b = bh_page bh"
        "bh_next b = ?n" "bh_length b = bh_length bh"
      using b2 by (simp_all add: b_def)
    have con: "content_ok b" "bh_members b = bh_members bh - {p}"
      using remove_ok [OF i(3,4) u(1-3), of b] b b2 False q by (auto simp: b_def)
    have le: "?n \<le> lim" "unat ?n \<le> HEAP_MAX" using n(3) i(2,6) by (auto simp: word_le_nat_alt word_less_nat_alt)
    have hole: "heap_hole par cmp b u"
    proof (rule hole_of_order [OF i(1,2,5)])
      show "\<not> cmp x z" if "\<not> cmp x y" "\<not> cmp y z" for x y z by (rule cmp_ntrans [OF that])
    qed (use b n u(2) in auto)
    obtain c1 u1 c2 u2 where s: "binheap_trickleup par cmp b u = Some (c1, u1)" "u1 < bh_next c1" "u1 > 0"
        "bh_A c1 u1 \<noteq> None" "binheap_trickledown chi cmp c1 u1 = Some (c2, u2)" "u2 < bh_next c2" "u2 > 0"
        "bh_A c2 u2 \<noteq> None" "rows_ok c2" "content_ok c2" "same_frame b c2" "heap_order par cmp c2"
      using settle_ok [OF _ _ b(1) con(1) hole u(1)] i(1) le(1) b n(2) by auto
    have c2: "heap_inv ok par lim cmp c2" "bh_members c2 = bh_members bh - {p}"
      using s i(1) le b con(2) by (auto simp: heap_inv_def same_frame_def)
    have "binheap_delete par chi cmp bh u =
       Some (if bh_next c2 + 2 * ROW_WIDTH \<le> bh_length c2
         then c2\<lparr>bh_array := (bh_array c2)(ROW (bh_length c2 - 1) := None), bh_length := bh_length c2 - ROW_WIDTH\<rparr>
         else c2)"
    proof -
      have upd: "binheap_update b2 u = Some b"
        using b2(3,6,7) n(2) False by (simp add: binheap_update_def panic_simps b_def)
      have "\<exists>y. bh_A c1 u1 = Some y" "\<exists>y. bh_A c2 u2 = Some y" using s(4,8) by auto
      then show ?thesis
        unfolding binheap_delete_def
        by (simp add: panic_simps Let_def n(4,5) u(2,3) nx(2) q False b1(1) [unfolded c_def] b1(6) b2(1) upd
            s(1-3) s(5-7))
    qed
    then show ?thesis using shrink_ok [OF c2(1) refl] c2(2) unfolding u(4) by simp
  qed
qed

lemma root_ok:
  assumes inv: "heap_inv ok par lim cmp bh"
  shows "case binheap_root bh of None \<Rightarrow> bh_members bh = {}
    | Some p \<Rightarrow> p \<in> bh_members bh \<and> (\<forall>q \<in> bh_members bh. \<not> cmp q p)"
proof (cases "bh_next bh = 1")
  case True
  then have "bh_A bh 1 = None" "bh_members bh = {}"
    using inv unfolding heap_inv_def content_ok_def bh_members_def by auto
  then show ?thesis by (simp add: binheap_root_def ROOT_IDX_def)
next
  case False
  have i: "ok (bh_page bh)" "bh_next bh \<le> lim" "content_ok bh" "heap_order par cmp bh"
    using inv by (simp_all add: heap_inv_def)
  have "1 < bh_next bh" using False content_bounds [OF i(3)] by auto
  then obtain p where p: "bh_A bh 1 = Some p" "p \<in> bh_members bh"
    using content_cell [OF i(3), of 1] by auto
  have "\<not> cmp (the (bh_A bh v)) p" if "1 \<le> v" "v < bh_next bh" for v
    using that
  proof (induction "unat v" arbitrary: v rule: less_induct)
    case less
    show ?case
    proof (cases "v = 1")
      case True
      then show ?thesis using p(1) cmp_asym by auto
    next
      case False
      then have v1: "1 < v" using less.prems(1) by auto
      then obtain w where w: "par (bh_page bh) v = Some w" "1 \<le> w" "w < v"
        using par_less [OF i(1) v1] less.prems(2) i(2) by (auto dest: less_le_trans)
      have "\<not> cmp (the (bh_A bh w)) p"
        using less.hyps [of w] w less.prems(2) by (simp add: word_less_nat_alt)
      moreover have "\<not> cmp (the (bh_A bh v)) (the (bh_A bh w))"
        using i(4) v1 less.prems(2) w(1) unfolding heap_order_def by blast
      ultimately show ?thesis using cmp_ntrans by blast
    qed
  qed
  then have "\<forall>q \<in> bh_members bh. \<not> cmp q p" unfolding bh_members_def by fastforce
  then show ?thesis using p by (simp add: binheap_root_def ROOT_IDX_def)
qed

end

subsection \<open>A new heap\<close>

lemma pow_u32_inj: "u < 32 \<Longrightarrow> s < 32 \<Longrightarrow> (2 :: u32) ^ u = 2 ^ s \<longleftrightarrow> u = s"
  by (metis pow_u32(1) power_inject_exp one_less_numeral_iff semiring_norm(76))

lemma page_shift_loop_pow: "u \<le> s \<Longrightarrow> s < 32 \<Longrightarrow> page_shift_loop u (2 ^ s) = Some s"
proof (induction "s - u" arbitrary: u)
  case 0
  then show ?case by (subst page_shift_loop.simps) (simp add: push_bit_eq_mult)
next
  case (Suc n)
  then have "page_shift_loop (Suc u) (2 ^ s) = Some s" "u \<noteq> s" by simp_all
  then show ?case
    using Suc.prems pow_u32_inj [of u s] by (subst page_shift_loop.simps) (simp add: push_bit_eq_mult)
qed

lemma binheap_new_ok:
  assumes t: "5 \<le> t" "t \<le> 22" and idx: "\<And>e. idx e = BINHEAP_NOIDX"
  shows "\<exists>bh. binheap_new (2 ^ t) fresh True idx = Some bh \<and> heap_inv page_ok par UINT_MAX cmp bh \<and>
    bh_members bh = {} \<and> bh_idx bh = idx \<and> bh_next bh = 1"
proof -
  define s where "s = t - 3"
  have s: "2 \<le> s" "s \<le> 19" "s < 32" using t by (simp_all add: s_def)
  have "unat ((2 ^ t :: u32) div 8) = unat (2 ^ s :: u32)"
  proof -
    have "(2 :: nat) ^ t = 2 ^ (s + 3)" using t by (simp add: s_def)
    then have "(2 :: nat) ^ t = 2 ^ s * 8" by (simp add: power_add)
    then show ?thesis using t s by (simp add: unat_div pow_u32)
  qed
  then have size: "(2 ^ t :: u32) div 8 = 2 ^ s" by (simp add: word_unat_eq_iff)
  have mask: "(2 ^ s - 1 :: u32) = mask s" by (simp add: mask_eq_exp_minus_1)
  have pow: "(2 ^ s :: u32) AND mask s = 0"
    using s(3) by (simp add: word_unat_eq_iff unat_and_mask pow_u32)
  have le: "(2 ^ s :: u32) \<le> 8 * ROW_WIDTH"
  proof -
    have "(2 :: nat) ^ s \<le> 2 ^ 19" using s by (intro power_increasing) simp_all
    then show ?thesis using s by (simp add: word_le_nat_alt pow_u32 ROW_WIDTH_def)
  qed
  define b where "b = \<lparr>bh_page = \<lparr>page_size = 2 ^ s, page_mask = mask s, page_shift = of_nat s\<rparr>,
        bh_array = [0 \<mapsto> fresh(1 := None)], bh_rows = 16, bh_length = ROW_WIDTH, bh_next = 1,
        bh_update = True, bh_idx = idx\<rparr>"
  have RC: "ROW 0 = 0" "ROW 1 = 0" "COL 1 = 1" by (simp_all add: ROW_nat COL_nat)
  have new: "binheap_new (2 ^ t) fresh True idx = Some b"
    using s page_shift_loop_pow [of 1 s]
    by (simp add: binheap_new_def size mask pow le binheap_addrow_def bh_A_set_def Let_def RC ROOT_IDX_def b_def)
  have "page_ok (bh_page b)" using s by (auto simp: page_ok_def b_def)
  moreover have "rows_ok b" by (auto simp: rows_ok_def b_def ROW_WIDTH_def)
  moreover have mem: "bh_members b = {}" by (auto simp: bh_members_def b_def)
  moreover have "content_ok b"
    using idx mem by (auto simp: content_ok_def b_def ROW_WIDTH_def bh_A_def RC word_le_nat_alt)
  moreover have "heap_order par cmp b" by (auto simp: heap_order_def b_def)
  ultimately have "heap_inv page_ok par UINT_MAX cmp b"
    by (auto simp: heap_inv_def HEAP_MAX_def b_def UINT_MAX_def word_le_nat_alt)
  with new mem show ?thesis by (auto simp: b_def)
qed

subsection \<open>The heap as Varnish uses it\<close>

text \<open>
  Every user of the heap orders its elements by a key (\<open>timer_when\<close> of an object core,
  \<open>__when\<close> of an event). The laws hold for every such comparison, with the VM aware layout and
  with the plain one.
\<close>

interpretation vm_heap: heap_laws page_ok parent child UINT_MAX "\<lambda>a b. key a < key b"
  for key :: "'e \<Rightarrow> 'k::linorder"
  by unfold_locales auto

interpretation plain_heap: heap_laws "\<lambda>_. True" parent_plain child_plain "0x80000000" "\<lambda>a b. key a < key b"
  for key :: "'e \<Rightarrow> 'k::linorder"
  by unfold_locales auto

abbreviation vm_inv :: "('e \<Rightarrow> 'k::linorder) \<Rightarrow> 'e binheap \<Rightarrow> bool" where
  "vm_inv key \<equiv> heap_inv page_ok parent UINT_MAX (\<lambda>a b. key a < key b)"

text \<open>A fresh heap on a machine with 4096 byte pages, for elements that are numbers.\<close>

lemma vm_example:
  "\<exists>bh. binheap_new 4096 (\<lambda>_. None) True (\<lambda>_ :: nat. 0) = Some bh \<and> vm_inv (id :: nat \<Rightarrow> nat) bh \<and>
    bh_members bh = {} \<and> bh_idx bh = (\<lambda>_. 0) \<and> bh_next bh = 1"
  using binheap_new_ok [of 12 "\<lambda>_ :: nat. 0" "\<lambda>_. None" parent] by (simp add: BINHEAP_NOIDX_def)

lemma vm_example_room:
  "bh_next bh = 1 \<Longrightarrow> bh_next bh < UINT_MAX" "bh_next bh = 1 \<Longrightarrow> unat (bh_next bh) < HEAP_MAX"
  by (simp_all add: UINT_MAX_def HEAP_MAX_def)

text \<open>
  In the page aware layout \<open>parent\<close> and \<open>child\<close> are inverse to each
  other on all indices up to \<open>UINT_MAX\<close>, and a parent has a smaller index than its child.
\<close>
theorem parent_child_inverse:
  assumes "page_ok bh" and "1 < v" and "v < UINT_MAX" and "1 \<le> u" and "u < UINT_MAX"
  shows "(parent bh v = Some u \<longleftrightarrow> v = fst (child bh u) \<or> v = snd (child bh u)) \<and>
    (\<exists>w. parent bh v = Some w \<and> 1 \<le> w \<and> w < v)"
  using vm.par_chi [OF assms] vm.par_less [OF assms(1-3)] by blast

theorem parent_child_inverse_witness:
  "parent \<lparr>page_size = 512, page_mask = 511, page_shift = 9\<rparr> 1025 = Some 257 \<and>
   child \<lparr>page_size = 512, page_mask = 511, page_shift = 9\<rparr> 257 = (1024, 1025)"
proof -
  let ?p = "\<lparr>page_size = 512, page_mask = 511, page_shift = 9\<rparr>"
  have ok: "page_ok ?p"
    unfolding page_ok_def by (intro exI [of _ 9]) (simp add: mask_eq_exp_minus_1)
  have c: "child ?p 257 = (1024, 1025)" by code_simp
  moreover have "parent ?p 1025 = Some 257"
    using parent_child_inverse [OF ok, of 1025 257] c by (simp add: UINT_MAX_def)
  ultimately show ?thesis by simp
qed

text \<open>
  C24: inserting an element that is not in the heap passes every assertion,
  adds exactly that element, tells every element its new index, and keeps the heap order.
\<close>
theorem binheap_insert_correct:
  assumes "vm_inv key bh" and "bh_idx bh p = BINHEAP_NOIDX" and "unat (bh_next bh) < HEAP_MAX"
  shows "\<exists>bh'. binheap_insert parent (\<lambda>a b. key a < key b) fresh bh p = Some bh' \<and> vm_inv key bh' \<and>
    bh_members bh' = insert p (bh_members bh)"
proof (rule vm_heap.insert_ok [OF assms(1,2) _ assms(3)])
  show "bh_next bh < UINT_MAX"
    using assms(3) by (simp add: HEAP_MAX_def UINT_MAX_def word_less_nat_alt)
qed

theorem binheap_insert_correct_witness:
  "\<exists>bh bh'. binheap_new 4096 (\<lambda>_. None) True (\<lambda>_ :: nat. 0) = Some bh \<and>
    binheap_insert parent (\<lambda>a b. id a < id b) (\<lambda>_. None) bh 7 = Some bh' \<and> bh_members bh' = {7}"
proof -
  obtain bh where bh: "binheap_new 4096 (\<lambda>_. None) True (\<lambda>_ :: nat. 0) = Some bh" "vm_inv id bh"
      "bh_members bh = {}" "bh_idx bh = (\<lambda>_. 0)" "bh_next bh = 1"
    using vm_example by blast
  then show ?thesis
    using binheap_insert_correct [OF bh(2), of 7 "\<lambda>_. None"] vm_example_room(2) [OF bh(5)]
    by (auto simp: BINHEAP_NOIDX_def)
qed

text \<open>
  The root is empty exactly when the heap is, and otherwise it is an
  element of the heap that no other element has to precede.
\<close>
theorem binheap_root_least:
  assumes "vm_inv key bh"
  shows "case binheap_root bh of None \<Rightarrow> bh_members bh = {}
    | Some p \<Rightarrow> p \<in> bh_members bh \<and> (\<forall>q \<in> bh_members bh. key p \<le> key q)"
  using vm_heap.root_ok [OF assms] by (auto simp: not_less split: option.splits)

theorem binheap_root_least_witness:
  "\<exists>bh. binheap_new 4096 (\<lambda>_. None) True (\<lambda>_ :: nat. 0) = Some bh \<and> binheap_root bh = None"
proof -
  obtain bh where bh: "binheap_new 4096 (\<lambda>_. None) True (\<lambda>_ :: nat. 0) = Some bh" "vm_inv (id :: nat \<Rightarrow> nat) bh"
      "bh_members bh = {}"
    using vm_example by blast
  then show ?thesis using binheap_root_least [OF bh(2)] by (auto split: option.splits)
qed

text \<open>
  C9: deleting at the index an element was told removes exactly that
  element, passes every assertion, and keeps the order and the indices of all others.
\<close>
theorem binheap_delete_correct:
  assumes "vm_inv key bh" and "p \<in> bh_members bh"
  shows "\<exists>bh'. binheap_delete parent child (\<lambda>a b. key a < key b) bh (bh_idx bh p) = Some bh' \<and> vm_inv key bh' \<and>
    bh_members bh' = bh_members bh - {p}"
  by (rule vm_heap.delete_ok [OF assms])

lemma vm_example_one:
  "\<exists>bh. vm_inv (id :: nat \<Rightarrow> nat) bh \<and> bh_members bh = {7}"
proof -
  obtain bh where bh: "vm_inv (id :: nat \<Rightarrow> nat) bh" "bh_members bh = {}" "bh_idx bh = (\<lambda>_. 0)" "bh_next bh = 1"
    using vm_example by blast
  then show ?thesis
    using vm_heap.insert_ok [OF bh(1), of 7 "\<lambda>_. None"] vm_example_room [OF bh(4)]
    by (auto simp: BINHEAP_NOIDX_def)
qed

theorem binheap_delete_correct_witness:
  "\<exists>bh bh'. bh_members bh = {7} \<and>
    binheap_delete parent child (\<lambda>a b. id a < id b) bh (bh_idx bh (7 :: nat)) = Some bh' \<and> bh_members bh' = {}"
proof -
  obtain bh where "vm_inv (id :: nat \<Rightarrow> nat) bh" "bh_members bh = {7}" using vm_example_one by blast
  with binheap_delete_correct [of id bh 7] show ?thesis by auto
qed

text \<open>
  C25: after the key of one element changed, \<open>binheap_reorder\<close> at its
  index restores the heap order for the new keys and keeps the set of elements.
\<close>
theorem binheap_reorder_correct:
  fixes key key' :: "'e \<Rightarrow> 'k::linorder"
  assumes "vm_inv key bh" and "p \<in> bh_members bh" and "\<And>q. q \<noteq> p \<Longrightarrow> key' q = key q"
  shows "\<exists>bh'. binheap_reorder parent child (\<lambda>a b. key' a < key' b) bh (bh_idx bh p) = Some bh' \<and> vm_inv key' bh' \<and>
    bh_members bh' = bh_members bh"
  by (rule vm_heap.reorder_ok [OF assms(1,2)]) (use assms(3) in auto)

theorem binheap_reorder_correct_witness:
  "\<exists>bh bh'. bh_members bh = {7 :: nat} \<and>
    binheap_reorder parent child (\<lambda>a b. (id(7 := 1)) a < (id(7 := 1)) b) bh (bh_idx bh 7) = Some bh' \<and>
    bh_members bh' = {7}"
proof -
  obtain bh where "vm_inv (id :: nat \<Rightarrow> nat) bh" "bh_members bh = {7}" using vm_example_one by blast
  then have "\<exists>bh'. binheap_reorder parent child (\<lambda>a b. (id(7 := 1)) a < (id(7 := 1)) b) bh (bh_idx bh 7) = Some bh' \<and>
      vm_inv (id(7 := 1)) bh' \<and> bh_members bh' = bh_members bh"
    by (intro binheap_reorder_correct [of id]) simp_all
  with \<open>bh_members bh = {7}\<close> show ?thesis by metis
qed

end
