(* ===== verification/Chars.thy ===== *)
theory Chars
  imports Varnish_Prelude
begin

text \<open>
  Characters, C strings and byte order: the character classes of
  \<^verbatim>\<open>lib/libvarnish/vct.c\<close> and \<^verbatim>\<open>include/vct.h\<close>, the big endian encoders of
  \<^verbatim>\<open>include/vend.h\<close>, and the string functions of the C library that the sources use. A
  \<open>char *\<close> to a NUL terminated string is the list of characters before the NUL.
\<close>

subsection \<open>Character classes\<close>

definition VCT_SP :: u16 where "VCT_SP = 1"
definition VCT_CRLF :: u16 where "VCT_CRLF = 2"
definition VCT_LWS :: u16 where "VCT_LWS = VCT_CRLF OR VCT_SP"
definition VCT_CTL :: u16 where "VCT_CTL = 4"
definition VCT_ALPHA :: u16 where "VCT_ALPHA = 8"
definition VCT_SEPARATOR :: u16 where "VCT_SEPARATOR = 16"
definition VCT_DIGIT :: u16 where "VCT_DIGIT = 32"
definition VCT_HEX :: u16 where "VCT_HEX = 64"
definition VCT_XMLNAMESTART :: u16 where "VCT_XMLNAMESTART = 128"
definition VCT_XMLNAME :: u16 where "VCT_XMLNAME = 256"

definition vct_typtab :: "u16 list" where
  "vct_typtab = [
    4, 4, 4, 4, 4, 4, 4, 4, 4, 21, 6, 4, 4, 6, 4, 4,
    4, 4, 4, 4, 4, 4, 4, 4, 4, 4, 4, 4, 4, 4, 4, 4,
    17, 0, 16, 0, 0, 0, 0, 0, 16, 16, 0, 0, 16, 256, 256, 16,
    352, 352, 352, 352, 352, 352, 352, 352, 352, 352, 144, 16, 16, 16, 16, 16,
    16, 200, 200, 200, 200, 200, 200, 136, 136, 136, 136, 136, 136, 136, 136, 136,
    136, 136, 136, 136, 136, 136, 136, 136, 136, 136, 136, 16, 16, 16, 0, 128,
    0, 200, 200, 200, 200, 200, 200, 136, 136, 136, 136, 136, 136, 136, 136, 136,
    136, 136, 136, 136, 136, 136, 136, 136, 136, 136, 136, 16, 0, 16, 0, 4,
    0, 0, 0, 0, 0, 0, 0, 0, 0, 0, 0, 0, 0, 0, 0, 0,
    0, 0, 0, 0, 0, 0, 0, 0, 0, 0, 0, 0, 0, 0, 0, 0,
    0, 0, 0, 0, 0, 0, 0, 0, 0, 0, 0, 0, 0, 0, 0, 0,
    0, 0, 0, 0, 0, 0, 0, 256, 0, 0, 0, 0, 0, 0, 0, 0,
    128, 128, 128, 128, 128, 128, 128, 128, 128, 128, 128, 128, 128, 128, 128, 128,
    128, 128, 128, 128, 128, 128, 128, 0, 128, 128, 128, 128, 128, 128, 128, 128,
    128, 128, 128, 128, 128, 128, 128, 128, 128, 128, 128, 128, 128, 128, 128, 128,
    128, 128, 128, 128, 128, 128, 128, 0, 128, 128, 128, 128, 128, 128, 128, 128]"

definition vct_is :: "char \<Rightarrow> u16 \<Rightarrow> bool" where
  "vct_is x y \<longleftrightarrow> (vct_typtab ! of_char x) AND y \<noteq> 0"

definition vct_issp :: "char \<Rightarrow> bool" where "vct_issp x = vct_is x VCT_SP"
definition vct_ishex :: "char \<Rightarrow> bool" where "vct_ishex x = vct_is x VCT_HEX"
definition vct_iscrlf :: "char \<Rightarrow> bool" where "vct_iscrlf x = vct_is x VCT_CRLF"
definition vct_islws :: "char \<Rightarrow> bool" where "vct_islws x = vct_is x VCT_LWS"
definition vct_isctl :: "char \<Rightarrow> bool" where "vct_isctl x = vct_is x VCT_CTL"
definition vct_isdigit :: "char \<Rightarrow> bool" where "vct_isdigit x = vct_is x VCT_DIGIT"
definition vct_isalpha :: "char \<Rightarrow> bool" where "vct_isalpha x = vct_is x VCT_ALPHA"
definition vct_issep :: "char \<Rightarrow> bool" where "vct_issep x = vct_is x VCT_SEPARATOR"
definition vct_issepctl :: "char \<Rightarrow> bool" where "vct_issepctl x = vct_is x (VCT_SEPARATOR OR VCT_CTL)"
definition vct_isxmlnamestart :: "char \<Rightarrow> bool" where "vct_isxmlnamestart x = vct_is x VCT_XMLNAMESTART"
definition vct_isxmlname :: "char \<Rightarrow> bool" where
  "vct_isxmlname x = vct_is x (VCT_XMLNAMESTART OR VCT_XMLNAME)"

text \<open>The number of characters of a line end, at the head of the rest of a buffer.\<close>

definition vct_skipcrlf :: "string \<Rightarrow> nat" where
  "vct_skipcrlf p = (case p of c # d # _ \<Rightarrow> if c = CHR 0x0d \<and> d = CHR 0x0a then 2 else 1 | _ \<Rightarrow> 1)"

lemmas vct_defs = vct_issp_def vct_ishex_def vct_iscrlf_def vct_islws_def vct_isctl_def vct_isdigit_def
  vct_isalpha_def vct_issep_def vct_issepctl_def vct_isxmlnamestart_def vct_isxmlname_def

text \<open>The classes spelled out: one pass over the table.\<close>

definition vct_row :: "nat \<Rightarrow> u16 \<Rightarrow> bool" where
  "vct_row n w \<longleftrightarrow>
     (w AND VCT_SP \<noteq> 0) = (n = 9 \<or> n = 32) \<and>
     (w AND VCT_CRLF \<noteq> 0) = (n = 10 \<or> n = 13) \<and>
     (w AND VCT_LWS \<noteq> 0) = (n = 9 \<or> n = 10 \<or> n = 13 \<or> n = 32) \<and>
     (w AND VCT_CTL \<noteq> 0) = (n < 32 \<or> n = 127) \<and>
     (w AND VCT_DIGIT \<noteq> 0) = (48 \<le> n \<and> n \<le> 57) \<and>
     (w AND VCT_ALPHA \<noteq> 0) = (65 \<le> n \<and> n \<le> 90 \<or> 97 \<le> n \<and> n \<le> 122) \<and>
     (w AND VCT_HEX \<noteq> 0) = (48 \<le> n \<and> n \<le> 57 \<or> 65 \<le> n \<and> n \<le> 70 \<or> 97 \<le> n \<and> n \<le> 102)"

lemma vct_table_check:
  "length vct_typtab = 256 \<and> list_all (\<lambda>(n, w). vct_row n w) (zip [0..<256] vct_typtab)"
  by code_simp

lemma of_char_256: "(of_char c :: nat) < 256"
  using range_nat_of_char by (metis atLeastLessThan_iff rangeI)

lemma vct_row_char: "vct_row (of_char c) (vct_typtab ! of_char c)"
proof -
  have "(of_char c, vct_typtab ! of_char c) \<in> set (zip [0..<256] vct_typtab)"
    using of_char_256 [of c] vct_table_check by (auto simp: in_set_zip intro!: exI [of _ "of_char c"])
  with vct_table_check show ?thesis by (auto simp: list_all_iff)
qed

lemma vct_classes:
  shows "vct_issp c \<longleftrightarrow> of_char c \<in> {9, 32 :: nat}"
    and "vct_iscrlf c \<longleftrightarrow> of_char c \<in> {10, 13 :: nat}"
    and "vct_islws c \<longleftrightarrow> vct_issp c \<or> vct_iscrlf c"
    and "vct_isctl c \<longleftrightarrow> of_char c < (32 :: nat) \<or> of_char c = (127 :: nat)"
    and "vct_isdigit c \<longleftrightarrow> of_char c \<in> {48 .. 57 :: nat}"
    and "vct_isalpha c \<longleftrightarrow> of_char c \<in> {65 .. 90 :: nat} \<union> {97 .. 122}"
    and "vct_ishex c \<longleftrightarrow> vct_isdigit c \<or> of_char c \<in> {65 .. 70 :: nat} \<union> {97 .. 102}"
  using vct_row_char [of c] unfolding vct_row_def vct_defs vct_is_def by auto

subsection \<open>C strings\<close>

definition tolower :: "char \<Rightarrow> char" where
  "tolower c = (if 65 \<le> (of_char c :: nat) \<and> (of_char c :: nat) \<le> 90 then char_of ((of_char c :: nat) + 32) else c)"

text \<open>\<open>strcasecmp\<close> and \<open>strncasecmp\<close> returning zero, \<open>strncmp\<close> likewise.\<close>

definition strcaseeq :: "string \<Rightarrow> string \<Rightarrow> bool" where
  "strcaseeq a b \<longleftrightarrow> map tolower a = map tolower b"

definition strncaseeq :: "nat \<Rightarrow> string \<Rightarrow> string \<Rightarrow> bool" where
  "strncaseeq n a b \<longleftrightarrow> map tolower (take n a) = map tolower (take n b)"

definition strneq :: "nat \<Rightarrow> string \<Rightarrow> string \<Rightarrow> bool" where
  "strneq n a b \<longleftrightarrow> take n a = take n b"

text \<open>The C string at the start of a buffer.\<close>

definition cstr :: "char list \<Rightarrow> string" where
  "cstr xs = takeWhile (\<lambda>c. c \<noteq> NUL) xs"

text \<open>The decimal digits \<open>printf\<close> puts in for \<open>%u\<close>.\<close>

fun dec :: "nat \<Rightarrow> string" where
  "dec n = (if n < 10 then [] else dec (n div 10)) @ [char_of (48 + n mod 10)]"

declare dec.simps [simp del]

lemma cstr_append_NUL [simp]: "NUL \<notin> set s \<Longrightarrow> cstr (s @ NUL # r) = s"
  by (induction s) (auto simp: cstr_def)

lemma strncaseeq_refl [simp]: "strncaseeq n a a"
  by (simp add: strncaseeq_def)

lemma strcaseeq_refl [simp]: "strcaseeq a a"
  by (simp add: strcaseeq_def)

lemma strcaseeq_sym: "strcaseeq a b \<longleftrightarrow> strcaseeq b a"
  by (auto simp: strcaseeq_def)

subsection \<open>Byte order\<close>

definition byte :: "u32 \<Rightarrow> char" where
  "byte u = char_of (unat (u AND 0xff))"

definition vbe32enc :: "u32 \<Rightarrow> char list" where
  "vbe32enc u = [byte (drop_bit 24 u), byte (drop_bit 16 u), byte (drop_bit 8 u), byte u]"

definition vbe32dec :: "char list \<Rightarrow> u32 option" where
  "vbe32dec p = (case p of
     a # b # c # d # _ \<Rightarrow>
       Some (push_bit 24 (of_char a) OR push_bit 16 (of_char b) OR push_bit 8 (of_char c) OR of_char d)
   | _ \<Rightarrow> None)"

definition vbe16enc :: "u16 \<Rightarrow> char list" where
  "vbe16enc u = [char_of (unat (drop_bit 8 u AND 0xff)), char_of (unat (u AND 0xff))]"

definition vbe16dec :: "char list \<Rightarrow> u16 option" where
  "vbe16dec p = (case p of a # b # _ \<Rightarrow> Some (push_bit 8 (of_char a) OR of_char b) | _ \<Rightarrow> None)"

lemma of_char_word: "(of_char c :: 'a::len word) = of_nat (of_char c)"
  by (simp add: of_nat_of_char)

lemma and_ff: "x AND 0xff = take_bit 8 (x :: 'a::len word)"
  by (simp add: take_bit_eq_mask mask_eq_exp_minus_1)

lemma of_char_byte: "(of_char (byte u) :: u32) = u AND 0xff"
proof -
  have "unat (u AND 0xff) < 256"
    by (simp add: and_ff unat_take_bit)
  then have "(of_char (byte u) :: nat) = unat (u AND 0xff)"
    by (simp add: byte_def)
  then show ?thesis by (simp add: of_char_word)
qed

lemma vbe32_roundtrip: "vbe32dec (vbe32enc u @ r) = Some u"
proof -
  have "push_bit 24 (take_bit 8 (drop_bit 24 u)) OR push_bit 16 (take_bit 8 (drop_bit 16 u)) OR
      push_bit 8 (take_bit 8 (drop_bit 8 u)) OR take_bit 8 u = u"
  proof (rule bit_eqI)
    fix n assume "possible_bit TYPE(32 word) n"
    consider "n < 8" | "8 \<le> n" "n < 16" | "16 \<le> n" "n < 24" | "24 \<le> n" by linarith
    then show "bit (push_bit 24 (take_bit 8 (drop_bit 24 u)) OR push_bit 16 (take_bit 8 (drop_bit 16 u)) OR
        push_bit 8 (take_bit 8 (drop_bit 8 u)) OR take_bit 8 u) n = bit u n"
      by cases (use \<open>possible_bit TYPE(32 word) n\<close> in \<open>auto simp: bit_simps\<close>)
  qed
  then show ?thesis by (simp add: vbe32dec_def vbe32enc_def of_char_byte and_ff)
qed

lemma length_vbe32enc [simp]: "length (vbe32enc u) = 4"
  by (simp add: vbe32enc_def)

end
