(* ===== verification/Http.thy ===== *)
theory Http
  imports Chars Workspace
begin

text \<open>
  HTTP messages, \<^verbatim>\<open>bin/varnishd/cache_http.c\<close>: the header array, looking headers up, and the
  operations that set, copy, filter, collect and remove them.

  A \<open>txt\<close> (two pointers into NUL terminated text) is its start address and the characters it
  spans; the address 0 is a \<open>NULL\<close> slot. The workspace a message allocates from is shared with
  its session, so it is an argument and a result of the operations that use it. Logging of
  headers to the shared memory log is left out; counting lost headers is kept.
\<close>

subsection \<open>Data\<close>

record htxt =
  t_b :: u64
  t_s :: string

definition no_txt :: htxt where
  "no_txt = \<lparr>t_b = NULL, t_s = ''''\<rparr>"

text \<open>A string literal of the program: some address that is not \<open>NULL\<close> and in no workspace.\<close>

definition lit :: "string \<Rightarrow> htxt" where
  "lit s = \<lparr>t_b = 1, t_s = s\<rparr>"

definition Tcheck :: "htxt \<Rightarrow> unit option" where
  "Tcheck t = assert_c (t_b t \<noteq> NULL)"

definition Tlen :: "htxt \<Rightarrow> nat option" where
  "Tlen t = do { Tcheck t; Some (length (t_s t)) }"

definition HTTP_HDR_REQ :: nat where "HTTP_HDR_REQ = 0"
definition HTTP_HDR_URL :: nat where "HTTP_HDR_URL = 1"
definition HTTP_HDR_PROTO :: nat where "HTTP_HDR_PROTO = 2"
definition HTTP_HDR_STATUS :: nat where "HTTP_HDR_STATUS = 3"
definition HTTP_HDR_RESPONSE :: nat where "HTTP_HDR_RESPONSE = 4"
definition HTTP_HDR_FIRST :: nat where "HTTP_HDR_FIRST = 5"

lemmas http_hdr_defs = HTTP_HDR_REQ_def HTTP_HDR_URL_def HTTP_HDR_PROTO_def HTTP_HDR_STATUS_def
  HTTP_HDR_RESPONSE_def HTTP_HDR_FIRST_def

text \<open>\<open>HTTP_NoTag\<close> is the value 0 that clearing the structure leaves.\<close>

datatype httpwhence = HTTP_NoTag | HTTP_Rx | HTTP_Tx | HTTP_Obj

record http =
  h_logtag :: httpwhence
  h_hd :: "htxt list"
  h_hdf :: "u8 list"
  h_nhd :: nat
  h_status :: nat
  h_protover :: nat
  h_conds :: nat

abbreviation h_shd :: "http \<Rightarrow> nat" where
  "h_shd hp \<equiv> length (h_hd hp)"

definition HDF_FILTER :: u8 where "HDF_FILTER = 1"

text \<open>Reading and writing a slot; an index past the array is undefined in C and \<open>None\<close> here.\<close>

definition hd_at :: "http \<Rightarrow> nat \<Rightarrow> htxt option" where
  "hd_at hp u = (if u < h_shd hp then Some (h_hd hp ! u) else None)"

definition set_hd :: "http \<Rightarrow> nat \<Rightarrow> htxt \<Rightarrow> u8 \<Rightarrow> http option" where
  "set_hd hp u t f = do {
     assert_c (u < h_shd hp);
     Some (hp\<lparr>h_hd := (h_hd hp)[u := t], h_hdf := (h_hdf hp)[u := f]\<rparr>)
   }"

text \<open>The header names with the filter operations that suppress them, \<^verbatim>\<open>include/http_headers.h\<close>.\<close>

definition HTTPH_R_PASS :: u8 where "HTTPH_R_PASS = 1"
definition HTTPH_A_PASS :: u8 where "HTTPH_A_PASS = 2"
definition HTTPH_R_PIPE :: u8 where "HTTPH_R_PIPE = 4"
definition HTTPH_R_FETCH :: u8 where "HTTPH_R_FETCH = 8"
definition HTTPH_A_INS :: u8 where "HTTPH_A_INS = 16"
definition HTTPH_A_DELIVER :: u8 where "HTTPH_A_DELIVER = 32"

definition http_headers :: "(string \<times> u8) list" where
  "http_headers = [
    (''Keep-Alive'', HTTPH_R_PASS OR HTTPH_A_PASS OR HTTPH_R_FETCH), (''Accept'', 0),
    (''Accept-Charset'', 0), (''Accept-Encoding'', 0),
    (''Accept-Language'', 0), (''Accept-Ranges'', HTTPH_R_FETCH OR HTTPH_A_INS),
    (''Age'', HTTPH_A_INS), (''Allow'', 0),
    (''Authorization'', 0), (''Cache-Control'', HTTPH_R_FETCH),
    (''Connection'', HTTPH_R_PASS OR HTTPH_A_PASS OR HTTPH_R_FETCH OR HTTPH_A_INS), (''Content-Encoding'', 0),
    (''Content-Langugae'', 0), (''Content-Length'', HTTPH_R_FETCH OR HTTPH_A_INS),
    (''Content-Location'', 0), (''Content-MD5'', 0),
    (''Content-Range'', HTTPH_R_FETCH OR HTTPH_A_INS), (''Content-Type'', 0),
    (''Date'', HTTPH_A_DELIVER), (''ETag'', 0),
    (''Expect'', 0), (''Expires'', 0),
    (''From'', 0), (''Host'', 0),
    (''If-Match'', HTTPH_R_FETCH), (''If-Modified-Since'', HTTPH_R_FETCH),
    (''If-None-Match'', HTTPH_R_FETCH), (''If-Range'', HTTPH_R_FETCH),
    (''If-Unmodified-Since'', HTTPH_R_FETCH), (''Last-Modified'', 0),
    (''Location'', 0), (''Max-Forwards'', 0),
    (''Pragma'', 0), (''Proxy-Authenticate'', HTTPH_R_FETCH OR HTTPH_A_INS),
    (''Proxy-Authorization'', HTTPH_R_FETCH OR HTTPH_A_INS), (''Range'', HTTPH_R_FETCH OR HTTPH_A_INS),
    (''Referer'', 0), (''Retry-After'', 0),
    (''Server'', 0), (''TE'', HTTPH_R_PASS OR HTTPH_A_PASS OR HTTPH_R_FETCH OR HTTPH_A_INS),
    (''Trailer'', HTTPH_R_PASS OR HTTPH_A_PASS OR HTTPH_R_FETCH OR HTTPH_A_INS), (''Transfer-Encoding'', HTTPH_R_PASS OR HTTPH_A_PASS OR HTTPH_R_FETCH OR HTTPH_A_INS),
    (''Upgrade'', HTTPH_R_PASS OR HTTPH_A_PASS OR HTTPH_R_FETCH OR HTTPH_A_INS), (''User-Agent'', 0),
    (''Vary'', 0), (''Via'', 0),
    (''Warning'', 0), (''WWW-Authenticate'', 0)]"

text \<open>
  The constants \<open>H_...\<close> after \<open>HTTP_Init\<close>: the name and a colon, with their length in the first
  character.
\<close>

definition HTTP_Init_hdr :: "string \<Rightarrow> string" where
  "HTTP_Init_hdr name = char_of (length name + 1) # name @ '':''"

definition http_msg :: "(nat \<times> string) list" where
  "http_msg = [
    (101, ''Switching Protocols''), (200, ''OK''), (201, ''Created''),
    (202, ''Accepted''), (203, ''Non-Authoritative Information''), (204, ''No Content''),
    (205, ''Reset Content''), (206, ''Partial Content''), (300, ''Multiple Choices''),
    (301, ''Moved Permanently''), (302, ''Found''), (303, ''See Other''),
    (304, ''Not Modified''), (305, ''Use Proxy''), (306, ''(Unused)''),
    (307, ''Temporary Redirect''), (400, ''Bad Request''), (401, ''Unauthorized''),
    (402, ''Payment Required''), (403, ''Forbidden''), (404, ''Not Found''),
    (405, ''Method Not Allowed''), (406, ''Not Acceptable''), (407, ''Proxy Authentication Required''),
    (408, ''Request Timeout''), (409, ''Conflict''), (410, ''Gone''),
    (411, ''Length Required''), (412, ''Precondition Failed''), (413, ''Request Entity Too Large''),
    (414, ''Request-URI Too Long''), (415, ''Unsupported Media Type''), (416, ''Requested Range Not Satisfiable''),
    (417, ''Expectation Failed''), (500, ''Internal Server Error''), (501, ''Not Implemented''),
    (502, ''Bad Gateway''), (503, ''Service Unavailable''), (504, ''Gateway Timeout''),
    (505, ''HTTP Version Not Supported'')]"

fun http_msg_find :: "(nat \<times> string) list \<Rightarrow> nat \<Rightarrow> string" where
  "http_msg_find [] status = ''Unknown Error''"
| "http_msg_find ((nbr, t) # mp) status =
     (if nbr \<le> status then if nbr = status then t else http_msg_find mp status else ''Unknown Error'')"

definition http_StatusMessage :: "nat \<Rightarrow> string option" where
  "http_StatusMessage status = do {
     assert_c (status \<ge> 100 \<and> status \<le> 999);
     Some (http_msg_find http_msg status)
   }"

text \<open>A message with room for \<open>nhttp\<close> slots, all of them cleared.\<close>

definition http_blank :: "nat \<Rightarrow> http" where
  "http_blank nhttp = \<lparr>h_logtag = HTTP_NoTag, h_hd = replicate nhttp no_txt, h_hdf = replicate nhttp 0,
     h_nhd = 0, h_status = 0, h_protover = 0, h_conds = 0\<rparr>"

definition http_Setup :: "http \<Rightarrow> http" where
  "http_Setup hp = hp\<lparr>h_logtag := HTTP_NoTag, h_hd := replicate (h_shd hp) no_txt, h_hdf := replicate (h_shd hp) 0,
     h_nhd := HTTP_HDR_FIRST, h_status := 0, h_protover := 0, h_conds := 0\<rparr>"

subsection \<open>Looking headers up\<close>

text \<open>The length byte of a header name, a signed character assigned to an \<open>unsigned\<close>.\<close>

definition hdr_len :: "string \<Rightarrow> nat" where
  "hdr_len hdr = (let n = (of_char (List.hd hdr) :: nat) in if n < 128 then n else n + (2 ^ 32 - 256))"

definition http_IsHdr :: "htxt \<Rightarrow> string \<Rightarrow> bool option" where
  "http_IsHdr hh hdr = do {
     Tcheck hh;
     assert_c (hdr \<noteq> []);
     let l = hdr_len hdr;
     assert_c (l = length (tl hdr));
     assert_c (l < length hdr \<and> hdr ! l = CHR '':'');
     Some (strncaseeq l (tl hdr) (t_s hh))
   }"

fun findhdr_loop :: "http \<Rightarrow> nat \<Rightarrow> string \<Rightarrow> nat list \<Rightarrow> nat option" where
  "findhdr_loop hp l hdr [] = Some 0"
| "findhdr_loop hp l hdr (u # us) = do {
     t \<leftarrow> hd_at hp u;
     Tcheck t;
     (if length (t_s t) < l + 1 then findhdr_loop hp l hdr us
      else if t_s t ! l \<noteq> CHR '':'' then findhdr_loop hp l hdr us
      else if \<not> strncaseeq l hdr (t_s t) then findhdr_loop hp l hdr us
      else Some u)
   }"

definition http_findhdr :: "http \<Rightarrow> nat \<Rightarrow> string \<Rightarrow> nat option" where
  "http_findhdr hp l hdr = findhdr_loop hp l hdr [HTTP_HDR_FIRST..<h_nhd hp]"

definition http_GetHdr :: "http \<Rightarrow> string \<Rightarrow> string option option" where
  "http_GetHdr hp hdr = do {
     assert_c (hdr \<noteq> []);
     let l = hdr_len hdr;
     assert_c (l = length (tl hdr));
     assert_c (l < length hdr \<and> hdr ! l = CHR '':'');
     u \<leftarrow> http_findhdr hp (l - 1) (tl hdr);
     (if u = 0 then Some None
      else do {
        t \<leftarrow> hd_at hp u;
        Some (Some (dropWhile vct_issp (drop l (t_s t))))
      })
   }"

text \<open>The scan of \<open>http_GetHdrData\<close> over the rest \<open>h\<close> of the header value.\<close>

function hdrdata_loop :: "string \<Rightarrow> string \<Rightarrow> string option" where
  "hdrdata_loop field h =
     (if length field \<le> length h then
        (case h of
           [] \<Rightarrow> Some []
         | c # cs \<Rightarrow>
             if vct_islws c \<or> c = CHR '','' then hdrdata_loop field cs
             else if (length field = length h \<or> vct_issepctl (h ! length field)) \<and> take (length field) h = field
             then Some (dropWhile vct_islws (drop (length field) h))
             else hdrdata_loop field (dropWhile (\<lambda>c. c \<noteq> CHR '','') cs))
      else None)"
  by pat_completeness auto
termination
  by (relation "measure (\<lambda>(field, h). length h)") (auto simp: le_imp_less_Suc length_dropWhile_le)

declare hdrdata_loop.simps [simp del]

text \<open>The result is \<open>None\<close> for \<open>return (0)\<close>, else the text after the element.\<close>

definition http_GetHdrData :: "http \<Rightarrow> string \<Rightarrow> string \<Rightarrow> string option option" where
  "http_GetHdrData hp hdr field = do {
     h \<leftarrow> http_GetHdr hp hdr;
     (case h of None \<Rightarrow> Some None | Some h \<Rightarrow> Some (hdrdata_loop field h))
   }"

definition http_GetHdrField :: "http \<Rightarrow> string \<Rightarrow> string \<Rightarrow> (bool \<times> string option) option" where
  "http_GetHdrField hp hdr field = do {
     h \<leftarrow> http_GetHdrData hp hdr field;
     (case h of
        None \<Rightarrow> Some (False, None)
      | Some h \<Rightarrow>
          (case dropWhile vct_issp h of
             c # cs \<Rightarrow> if c = CHR ''='' then Some (True, Some (dropWhile vct_issp cs)) else Some (True, None)
           | [] \<Rightarrow> Some (True, None)))
   }"

definition http_HdrIs :: "http \<Rightarrow> string \<Rightarrow> string \<Rightarrow> bool option" where
  "http_HdrIs hp hdr val = do {
     p \<leftarrow> http_GetHdr hp hdr;
     (case p of None \<Rightarrow> Some False | Some p \<Rightarrow> Some (strcaseeq p val))
   }"

definition http_GetStatus :: "http \<Rightarrow> nat" where
  "http_GetStatus hp = h_status hp"

definition http_GetReq :: "http \<Rightarrow> string option" where
  "http_GetReq hp = do { t \<leftarrow> hd_at hp HTTP_HDR_REQ; Tcheck t; Some (t_s t) }"

text \<open>
  \<open>http_DoConnection\<close>: the tokens of the \<open>Connection:\<close> header; the headers they name are marked to
  be filtered.
\<close>

function doconn_loop :: "http \<Rightarrow> string \<Rightarrow> string option \<Rightarrow> (http \<times> string option) option" where
  "doconn_loop hp p ret =
     (case p of
        [] \<Rightarrow> Some (hp, ret)
      | c # cs \<Rightarrow>
          if vct_issp c \<or> c = CHR '','' then doconn_loop hp cs ret
          else do {
            let tok = takeWhile (\<lambda>d. \<not> (d = CHR '','' \<or> vct_issp d)) cs;
            let q = drop (length tok) cs;
            let u = Suc (length tok);
            let ret' = (if u = 5 \<and> strncaseeq u p ''close'' then Some ''Connection: close'' else ret);
            i \<leftarrow> http_findhdr hp u p;
            let hp' = (if i \<noteq> 0 then hp\<lparr>h_hdf := (h_hdf hp)[i := (h_hdf hp ! i) OR HDF_FILTER]\<rparr> else hp);
            (if q = [] then Some (hp', ret') else doconn_loop hp' (tl q) ret')
          })"
  by pat_completeness auto
termination
  by (relation "measure (\<lambda>(hp, p, ret). length p)") auto

declare doconn_loop.simps [simp del]

definition http_DoConnection :: "http \<Rightarrow> (http \<times> string option) option" where
  "http_DoConnection hp = do {
     p \<leftarrow> http_GetHdr hp (HTTP_Init_hdr ''Connection'');
     (case p of
        None \<Rightarrow> Some (hp, if h_protover hp < 11 then Some ''not HTTP/1.1'' else None)
      | Some p \<Rightarrow> doconn_loop hp p None)
   }"

subsection \<open>Setting and copying headers\<close>

definition http_SetH :: "http \<Rightarrow> nat \<Rightarrow> htxt \<Rightarrow> http option" where
  "http_SetH to n fm = do { assert_c (n < h_shd to); assert_c (t_b fm \<noteq> NULL); set_hd to n fm 0 }"

definition http_copyh :: "http \<Rightarrow> http \<Rightarrow> nat \<Rightarrow> http option" where
  "http_copyh to fm n = do {
     assert_c (n < HTTP_HDR_FIRST);
     t \<leftarrow> hd_at fm n;
     Tcheck t;
     set_hd to n t (h_hdf fm ! n)
   }"

definition http_ForceGet :: "http \<Rightarrow> http option" where
  "http_ForceGet to = do {
     r \<leftarrow> http_GetReq to;
     (if r \<noteq> ''GET'' then http_SetH to HTTP_HDR_REQ (lit ''GET'') else Some to)
   }"

definition http_CopyResp :: "http \<Rightarrow> http \<Rightarrow> http option" where
  "http_CopyResp to fm = do {
     to \<leftarrow> http_SetH to HTTP_HDR_PROTO (lit ''HTTP/1.1'');
     let to = to\<lparr>h_status := h_status fm\<rparr>;
     http_copyh to fm HTTP_HDR_RESPONSE
   }"

definition http_SetResp :: "http \<Rightarrow> htxt \<Rightarrow> nat \<Rightarrow> htxt \<Rightarrow> http option" where
  "http_SetResp to proto status response = do {
     to \<leftarrow> http_SetH to HTTP_HDR_PROTO proto;
     assert_c (status \<ge> 100 \<and> status \<le> 999);
     let to = to\<lparr>h_status := status\<rparr>;
     http_SetH to HTTP_HDR_RESPONSE response
   }"

text \<open>Operations that can lose a header also return by how much \<open>losthdr\<close> grows.\<close>

definition http_copyheader :: "http \<Rightarrow> http \<Rightarrow> nat \<Rightarrow> (http \<times> nat) option" where
  "http_copyheader to fm n = do {
     t \<leftarrow> hd_at fm n;
     Tcheck t;
     (if h_nhd to < h_shd to then do {
        to \<leftarrow> set_hd to (h_nhd to) t 0;
        Some (to\<lparr>h_nhd := h_nhd to + 1\<rparr>, 0)
      }
      else Some (to, 1))
   }"

definition http_SetHeader :: "http \<Rightarrow> htxt \<Rightarrow> (http \<times> nat) option" where
  "http_SetHeader to hdr =
     (if h_nhd to \<ge> h_shd to then Some (to, 1)
      else do {
        to' \<leftarrow> http_SetH (to\<lparr>h_nhd := h_nhd to + 1\<rparr>) (h_nhd to) hdr;
        Some (to', 0)
      })"

definition http_ClrHeader :: "http \<Rightarrow> http" where
  "http_ClrHeader to = to\<lparr>h_nhd := HTTP_HDR_FIRST, h_status := 0, h_protover := 0, h_conds := 0,
     h_hd := replicate (h_shd to) no_txt\<rparr>"

definition HTTP_Copy :: "http \<Rightarrow> http \<Rightarrow> http option" where
  "HTTP_Copy to fm = do {
     assert_c (h_nhd fm \<le> h_shd to);
     Some (to\<lparr>h_conds := h_conds fm, h_logtag := h_logtag fm, h_status := h_status fm,
              h_protover := h_protover fm, h_nhd := h_nhd fm,
              h_hd := take (h_nhd fm) (h_hd fm) @ drop (h_nhd fm) (h_hd to),
              h_hdf := take (h_nhd fm) (h_hdf fm) @ drop (h_nhd fm) (h_hdf to)\<rparr>)
   }"

subsection \<open>Filtering\<close>

text \<open>The tests that the macro \<open>HTTPH\<close> expands to, one per known header.\<close>

fun hdr_filtered :: "(string \<times> u8) list \<Rightarrow> u8 \<Rightarrow> htxt \<Rightarrow> bool option" where
  "hdr_filtered [] how t = Some False"
| "hdr_filtered ((name, e) # hs) how t =
     (if e AND how \<noteq> 0 then do {
        b \<leftarrow> http_IsHdr t (HTTP_Init_hdr name);
        (if b then Some True else hdr_filtered hs how t)
      }
      else hdr_filtered hs how t)"

definition http_skip :: "http \<Rightarrow> u8 \<Rightarrow> nat \<Rightarrow> bool option" where
  "http_skip fm how u = do {
     t \<leftarrow> hd_at fm u;
     (if t_b t = NULL then Some True
      else if (h_hdf fm ! u) AND HDF_FILTER \<noteq> 0 then Some True
      else hdr_filtered http_headers how t)
   }"

fun estimate_loop :: "http \<Rightarrow> u8 \<Rightarrow> nat list \<Rightarrow> u32 \<Rightarrow> nat \<Rightarrow> (u32 \<times> nat) option" where
  "estimate_loop fm how [] l nhd = Some (l, nhd)"
| "estimate_loop fm how (u # us) l nhd = do {
     b \<leftarrow> http_skip fm how u;
     t \<leftarrow> hd_at fm u;
     (if b then estimate_loop fm how us l nhd
      else estimate_loop fm how us (l + ucast (PRNDUP (of_nat (length (t_s t) + 1)))) (nhd + 1))
   }"

definition http_EstimateWS :: "http \<Rightarrow> u8 \<Rightarrow> (u32 \<times> nat) option" where
  "http_EstimateWS fm how = estimate_loop fm how [0..<h_nhd fm] 0 HTTP_HDR_FIRST"

fun filter_loop :: "http \<Rightarrow> http \<Rightarrow> u8 \<Rightarrow> nat list \<Rightarrow> nat \<Rightarrow> (http \<times> nat) option" where
  "filter_loop to fm how [] lost = Some (to, lost)"
| "filter_loop to fm how (u # us) lost = do {
     b \<leftarrow> http_skip fm how u;
     (if b then filter_loop to fm how us lost
      else do {
        (to, k) \<leftarrow> http_copyheader to fm u;
        filter_loop to fm how us (lost + k)
      })
   }"

definition http_FilterFields :: "http \<Rightarrow> http \<Rightarrow> u8 \<Rightarrow> (http \<times> nat) option" where
  "http_FilterFields to fm how =
     filter_loop (to\<lparr>h_nhd := HTTP_HDR_FIRST, h_status := h_status fm\<rparr>) fm how
       [HTTP_HDR_FIRST..<h_nhd fm] 0"

subsection \<open>Headers in the workspace\<close>

definition http_PutField :: "ws \<Rightarrow> http \<Rightarrow> nat \<Rightarrow> string \<Rightarrow> (ws \<times> http) option" where
  "http_PutField w to field str = do {
     (w, p) \<leftarrow> WS_Alloc w (of_nat (length str + 1));
     to \<leftarrow> set_hd to field (if p = NULL then no_txt else \<lparr>t_b = p, t_s = str\<rparr>) 0;
     Some (w, to)
   }"

definition http_PutProtocol :: "ws \<Rightarrow> http \<Rightarrow> string \<Rightarrow> (ws \<times> http) option" where
  "http_PutProtocol w to protocol = do {
     (w, to) \<leftarrow> http_PutField w to HTTP_HDR_PROTO protocol;
     t \<leftarrow> hd_at to HTTP_HDR_PROTO;
     to \<leftarrow> (if t_b t = NULL then http_SetH to HTTP_HDR_PROTO (lit ''HTTP/1.1'') else Some to);
     t \<leftarrow> hd_at to HTTP_HDR_PROTO;
     Tcheck t;
     Some (w, to)
   }"

definition http_PutStatus :: "http \<Rightarrow> nat \<Rightarrow> http option" where
  "http_PutStatus to status = do { assert_c (status \<ge> 100 \<and> status \<le> 999); Some (to\<lparr>h_status := status\<rparr>) }"

definition http_PutResponse :: "ws \<Rightarrow> http \<Rightarrow> string \<Rightarrow> (ws \<times> http) option" where
  "http_PutResponse w to response = do {
     (w, to) \<leftarrow> http_PutField w to HTTP_HDR_RESPONSE response;
     t \<leftarrow> hd_at to HTTP_HDR_RESPONSE;
     to \<leftarrow> (if t_b t = NULL then http_SetH to HTTP_HDR_RESPONSE (lit ''Lost Response'') else Some to);
     t \<leftarrow> hd_at to HTTP_HDR_RESPONSE;
     Tcheck t;
     Some (w, to)
   }"

text \<open>\<open>str\<close> is the formatted header, whose length \<open>vsnprintf\<close> returns.\<close>

definition http_PrintfHeader :: "ws \<Rightarrow> http \<Rightarrow> string \<Rightarrow> (ws \<times> http \<times> nat) option" where
  "http_PrintfHeader w to str = do {
     (w, l) \<leftarrow> WS_Reserve w 0;
     let n = length str;
     (if n + 1 \<ge> unat l \<or> h_nhd to \<ge> h_shd to then do {
        w \<leftarrow> WS_Release w 0;
        Some (w, to, 1)
      }
      else do {
        to \<leftarrow> set_hd to (h_nhd to) \<lparr>t_b = ws_f w, t_s = str\<rparr> 0;
        w \<leftarrow> WS_Release w (of_nat (n + 1));
        Some (w, to\<lparr>h_nhd := h_nhd to + 1\<rparr>, 0)
      })
   }"

definition http_FilterHeader :: "ws \<Rightarrow> http \<Rightarrow> http \<Rightarrow> string \<Rightarrow> u8 \<Rightarrow> (ws \<times> http \<times> nat) option" where
  "http_FilterHeader w hp sphttp xid how = do {
     let hp = hp\<lparr>h_logtag := HTTP_Tx\<rparr>;
     hp \<leftarrow> http_copyh hp sphttp HTTP_HDR_REQ;
     hp \<leftarrow> http_copyh hp sphttp HTTP_HDR_URL;
     hp \<leftarrow> (if how = HTTPH_R_FETCH then http_SetH hp HTTP_HDR_PROTO (lit ''HTTP/1.1'')
           else http_copyh hp sphttp HTTP_HDR_PROTO);
     (hp, lost) \<leftarrow> http_FilterFields hp sphttp how;
     (w, hp, k) \<leftarrow> http_PrintfHeader w hp (''X-Varnish: '' @ xid);
     Some (w, hp, lost + k)
   }"

fun copyhome_loop :: "ws \<Rightarrow> http \<Rightarrow> nat list \<Rightarrow> nat \<Rightarrow> (ws \<times> http \<times> nat) option" where
  "copyhome_loop w hp [] lost = Some (w, hp, lost)"
| "copyhome_loop w hp (u # us) lost = do {
     t \<leftarrow> hd_at hp u;
     (if t_b t = NULL then copyhome_loop w hp us lost
      else if t_b t \<ge> ws_s w \<and> t_b t + of_nat (length (t_s t)) \<le> ws_e w then copyhome_loop w hp us lost
      else do {
        (w, p) \<leftarrow> WS_Alloc w (of_nat (length (t_s t) + 1));
        (if p \<noteq> NULL
         then copyhome_loop w (hp\<lparr>h_hd := (h_hd hp)[u := t\<lparr>t_b := p\<rparr>]\<rparr>) us lost
         else copyhome_loop w (hp\<lparr>h_hd := (h_hd hp)[u := no_txt]\<rparr>) us (lost + 1))
      })
   }"

definition http_CopyHome :: "ws \<Rightarrow> http \<Rightarrow> (ws \<times> http \<times> nat) option" where
  "http_CopyHome w hp = copyhome_loop w hp [0..<h_nhd hp] 0"

text \<open>
  \<open>http_CollectHdr\<close>. The collection in progress is the text gathered so far and whether it has
  run into the end of the reservation (\<open>b = e\<close>).
\<close>

definition collect_add :: "nat \<Rightarrow> string \<times> bool \<Rightarrow> string \<Rightarrow> string \<times> bool" where
  "collect_add ml acc x = (case acc of (b, full) \<Rightarrow>
     if \<not> full \<and> length b + length x < ml then (b @ x, False) else (b, True))"

definition collect_comma :: "nat \<Rightarrow> string \<times> bool \<Rightarrow> string \<times> bool" where
  "collect_comma ml acc = (case acc of (b, full) \<Rightarrow>
     if \<not> full \<and> length b < ml then (b @ '','', False) else (b, full))"

function collect_loop :: "string \<Rightarrow> ws \<Rightarrow> http \<Rightarrow> nat \<Rightarrow> nat \<Rightarrow> (nat \<times> string \<times> bool) option \<Rightarrow>
    (ws \<times> http \<times> nat \<times> (nat \<times> string \<times> bool) option) option" where
  "collect_loop hdr w hp u f c =
     (if u < h_nhd hp then do {
        t \<leftarrow> hd_at hp u;
        is \<leftarrow> http_IsHdr t hdr;
        (if \<not> is then collect_loop hdr w hp (Suc u) f c
         else if f = 0 then collect_loop hdr w hp (Suc u) u c
         else do {
           (w, ml, acc) \<leftarrow> (case c of
               Some (ml, acc) \<Rightarrow> Some (w, ml, acc)
             | None \<Rightarrow> do {
                 (w, ml) \<leftarrow> WS_Reserve w 0;
                 tf \<leftarrow> hd_at hp f;
                 Some (w, unat ml, collect_add (unat ml) ('''', False) (t_s tf))
               });
           let acc = collect_add ml (collect_comma ml acc) (drop (of_char (List.hd hdr)) (t_s t));
           let hp = hp\<lparr>h_hd := take u (h_hd hp) @ take (h_nhd hp - 1 - u) (drop (Suc u) (h_hd hp)) @
                                drop (h_nhd hp - 1) (h_hd hp),
                       h_nhd := h_nhd hp - 1\<rparr>;
           collect_loop hdr w hp u f (Some (ml, acc))
         })
      }
      else Some (w, hp, f, c))"
  by pat_completeness auto
termination
  by (relation "measure (\<lambda>(hdr, w, hp, u, f, c). h_nhd hp - u)") auto

declare collect_loop.simps [simp del]

definition http_CollectHdr :: "ws \<Rightarrow> http \<Rightarrow> string \<Rightarrow> (ws \<times> http) option" where
  "http_CollectHdr w hp hdr = do {
     (w, hp, f, c) \<leftarrow> collect_loop hdr w hp HTTP_HDR_FIRST 0 None;
     (case c of
        None \<Rightarrow> Some (w, hp)
      | Some (ml, b, full) \<Rightarrow>
          if full \<or> length b \<ge> ml then do { w \<leftarrow> WS_Release w 0; Some (w, hp) }
          else do {
            let hp' = hp\<lparr>h_hd := (h_hd hp)[f := \<lparr>t_b = ws_f w, t_s = b\<rparr>]\<rparr>;
            w \<leftarrow> WS_ReleaseP w (ws_f w + of_nat (length b) + 1);
            Some (w, hp')
          })
   }"

subsection \<open>Removing headers\<close>

text \<open>The two indices of the loop: \<open>u\<close> reads, \<open>v\<close> writes.\<close>

fun unset_loop :: "http \<Rightarrow> string \<Rightarrow> nat list \<Rightarrow> nat \<Rightarrow> http option" where
  "unset_loop hp hdr [] v = Some (hp\<lparr>h_nhd := v\<rparr>)"
| "unset_loop hp hdr (u # us) v = do {
     t \<leftarrow> hd_at hp u;
     (if t_b t = NULL then unset_loop hp hdr us v
      else do {
        is \<leftarrow> http_IsHdr t hdr;
        (if is then unset_loop hp hdr us v
         else unset_loop (if v \<noteq> u then hp\<lparr>h_hd := (h_hd hp)[v := t], h_hdf := (h_hdf hp)[v := h_hdf hp ! u]\<rparr> else hp)
                hdr us (Suc v))
      })
   }"

definition http_Unset :: "http \<Rightarrow> string \<Rightarrow> http option" where
  "http_Unset hp hdr = unset_loop hp hdr [HTTP_HDR_FIRST..<h_nhd hp] HTTP_HDR_FIRST"

subsection \<open>Writing a message\<close>

definition WRW_WriteH :: "htxt \<Rightarrow> string \<Rightarrow> string option" where
  "WRW_WriteH hh suf = do { assert_c (t_b hh \<noteq> NULL); Some (t_s hh @ suf) }"

fun write_loop :: "http \<Rightarrow> nat list \<Rightarrow> string option" where
  "write_loop hp [] = Some ''''"
| "write_loop hp (u # us) = do {
     t \<leftarrow> hd_at hp u;
     (if t_b t = NULL then write_loop hp us
      else do { a \<leftarrow> WRW_WriteH t [CHR 0x0d, CHR 0x0a]; b \<leftarrow> write_loop hp us; Some (a @ b) })
   }"

text \<open>
  The three characters that \<open>sprintf\<close> with \<open>%3d\<close> leaves in the status text; of a longer number the
  text spans the first three digits.
\<close>

definition status_digits :: "nat \<Rightarrow> string" where
  "status_digits n = take 3 (replicate (3 - length (dec n)) (CHR '' '') @ dec n)"

text \<open>\<open>http_Write\<close>: the bytes written; in a response the status is formatted into the workspace.\<close>

definition http_Write :: "ws \<Rightarrow> http \<Rightarrow> bool \<Rightarrow> (ws \<times> http \<times> string) option" where
  "http_Write w hp resp = do {
     (w, hp, l) \<leftarrow> (if resp then do {
          p \<leftarrow> hd_at hp HTTP_HDR_PROTO;
          l1 \<leftarrow> WRW_WriteH p '' '';
          (w, b) \<leftarrow> WS_Alloc w 4;
          assert_c (b \<noteq> NULL);
          hp \<leftarrow> set_hd hp HTTP_HDR_STATUS \<lparr>t_b = b, t_s = status_digits (h_status hp)\<rparr> (h_hdf hp ! HTTP_HDR_STATUS);
          s \<leftarrow> hd_at hp HTTP_HDR_STATUS;
          l2 \<leftarrow> WRW_WriteH s '' '';
          r \<leftarrow> hd_at hp HTTP_HDR_RESPONSE;
          l3 \<leftarrow> WRW_WriteH r [CHR 0x0d, CHR 0x0a];
          Some (w, hp, l1 @ l2 @ l3)
        } else do {
          r \<leftarrow> hd_at hp HTTP_HDR_REQ;
          l1 \<leftarrow> WRW_WriteH r '' '';
          u \<leftarrow> hd_at hp HTTP_HDR_URL;
          l2 \<leftarrow> WRW_WriteH u '' '';
          p \<leftarrow> hd_at hp HTTP_HDR_PROTO;
          l3 \<leftarrow> WRW_WriteH p [CHR 0x0d, CHR 0x0a];
          Some (w, hp, l1 @ l2 @ l3)
        });
     hs \<leftarrow> write_loop hp [HTTP_HDR_FIRST..<h_nhd hp];
     Some (w, hp, l @ hs @ [CHR 0x0d, CHR 0x0a])
   }"

subsection \<open>Well formed messages and their header lines\<close>

definition http_ok :: "http \<Rightarrow> bool" where
  "http_ok hp \<longleftrightarrow> length (h_hdf hp) = h_shd hp \<and> HTTP_HDR_FIRST \<le> h_nhd hp \<and> h_nhd hp \<le> h_shd hp"

definition h_slots :: "http \<Rightarrow> htxt list" where
  "h_slots hp = drop HTTP_HDR_FIRST (take (h_nhd hp) (h_hd hp))"

definition h_flags :: "http \<Rightarrow> u8 list" where
  "h_flags hp = drop HTTP_HDR_FIRST (take (h_nhd hp) (h_hdf hp))"

text \<open>No header slot is \<open>NULL\<close>.\<close>

definition http_full :: "http \<Rightarrow> bool" where
  "http_full hp \<longleftrightarrow> http_ok hp \<and> list_all (\<lambda>t. t_b t \<noteq> NULL) (h_slots hp)"

definition h_lines :: "http \<Rightarrow> string list" where
  "h_lines hp = map t_s (h_slots hp)"

text \<open>A header line with a given name, and what a look-up is to return for a list of lines.\<close>

definition hdr_named :: "string \<Rightarrow> string \<Rightarrow> bool" where
  "hdr_named name s \<longleftrightarrow> length name < length s \<and> s ! length name = CHR '':'' \<and>
     strcaseeq name (take (length name) s)"

definition hdr_value :: "string \<Rightarrow> string list \<Rightarrow> string option" where
  "hdr_value name ls = map_option (\<lambda>s. dropWhile vct_issp (drop (length name + 1) s)) (find (hdr_named name) ls)"

lemma tolower_colon [simp]: "tolower c = CHR '':'' \<longleftrightarrow> c = CHR '':''"
proof
  assume a: "tolower c = CHR '':''"
  show "c = CHR '':''"
  proof (cases "65 \<le> (of_char c :: nat) \<and> (of_char c :: nat) \<le> 90")
    case True
    then have "char_of ((of_char c :: nat) + 32) = CHR '':''" using a by (simp add: tolower_def)
    then have "(of_char (char_of ((of_char c :: nat) + 32)) :: nat) = of_char (CHR '':'')" by simp
    then have "((of_char c :: nat) + 32) mod 256 = 58" by simp
    then show ?thesis using True by simp
  next
    case False
    then show ?thesis using a by (simp add: tolower_def split: if_splits)
  qed
qed (simp add: tolower_def)

lemma colon_tolower [simp]: "CHR '':'' = tolower c \<longleftrightarrow> c = CHR '':''"
  using tolower_colon by metis

lemma HTTP_Init_hdr_simps:
  assumes "length name < 127"
  shows "hdr_len (HTTP_Init_hdr name) = length name + 1"
    and "tl (HTTP_Init_hdr name) = name @ '':''" and "HTTP_Init_hdr name \<noteq> []"
    and "HTTP_Init_hdr name ! (length name + 1) = CHR '':''"
    and "length (HTTP_Init_hdr name) = length name + 2"
  using assms by (simp_all add: HTTP_Init_hdr_def hdr_len_def nth_append)

lemma http_IsHdr_named:
  assumes "length name < 127" and "t_b t \<noteq> NULL"
  shows "http_IsHdr t (HTTP_Init_hdr name) = Some (hdr_named name (t_s t))"
proof -
  let ?s = "t_s t" and ?n = "length name"
  have "strncaseeq (Suc ?n) (name @ '':'') ?s = hdr_named name ?s"
  proof (cases "?n < length ?s")
    case True
    then have "take (Suc ?n) ?s = take ?n ?s @ [?s ! ?n]" by (simp add: take_Suc_conv_app_nth)
    then show ?thesis
      using True by (auto simp: strncaseeq_def hdr_named_def strcaseeq_def tolower_def [of "CHR '':''"])
  next
    case False
    then have "length (take (Suc ?n) ?s) \<noteq> length (name @ '':'')" by simp
    then have "map tolower (name @ '':'') \<noteq> map tolower (take (Suc ?n) ?s)" by (metis length_map)
    then show ?thesis using False by (simp add: strncaseeq_def hdr_named_def)
  qed
  then show ?thesis
    using assms HTTP_Init_hdr_simps [OF assms(1)]
    by (simp add: http_IsHdr_def Tcheck_def)
qed

lemma slots_Cons:
  assumes "a < n" "n \<le> length xs"
  shows "drop a (take n xs) = xs ! a # drop (Suc a) (take n xs)"
  using assms Cons_nth_drop_Suc [of a "take n xs"] by simp

lemma findhdr_loop_spec:
  assumes "0 < a" "a \<le> n" "n \<le> h_shd hp" and "list_all (\<lambda>t. t_b t \<noteq> NULL) (drop a (take n (h_hd hp)))"
    and "length name < 127"
  shows "case find (hdr_named name) (map t_s (drop a (take n (h_hd hp)))) of
      None \<Rightarrow> findhdr_loop hp (length name) (name @ '':'') [a..<n] = Some 0
    | Some s \<Rightarrow> \<exists>u. findhdr_loop hp (length name) (name @ '':'') [a..<n] = Some u \<and> 0 < u \<and> u < n \<and> t_s (h_hd hp ! u) = s"
  using assms
proof (induction "n - a" arbitrary: a)
  case 0
  then show ?case by simp
next
  case (Suc k)
  then have lt: "a < n" by simp
  have up: "[a..<n] = a # [Suc a..<n]" using lt by (simp add: upt_rec)
  note sl = slots_Cons [OF lt Suc.prems(3)]
  have nn: "t_b (h_hd hp ! a) \<noteq> NULL" "list_all (\<lambda>t. t_b t \<noteq> NULL) (drop (Suc a) (take n (h_hd hp)))"
    using Suc.prems(4) sl by simp_all
  have at: "hd_at hp a = Some (h_hd hp ! a)" using lt Suc.prems(3) by (simp add: hd_at_def)
  have test: "(length s < length name + 1 \<or> s ! length name \<noteq> CHR '':'' \<or> \<not> strncaseeq (length name) (name @ '':'') s)
      = (\<not> hdr_named name s)" for s
    by (auto simp: hdr_named_def strncaseeq_def strcaseeq_def)
  show ?case
  proof (cases "hdr_named name (t_s (h_hd hp ! a))")
    case True
    then have "findhdr_loop hp (length name) (name @ '':'') [a..<n] = Some a"
      using test [of "t_s (h_hd hp ! a)"] nn(1) at up by (simp add: Tcheck_def panic_simps)
    then show ?thesis using True sl lt Suc.prems(1) by auto
  next
    case False
    then have "findhdr_loop hp (length name) (name @ '':'') [a..<n] =
        findhdr_loop hp (length name) (name @ '':'') [Suc a..<n]"
      using test [of "t_s (h_hd hp ! a)"] nn(1) at up by (auto simp: Tcheck_def panic_simps)
    moreover have "k = n - Suc a" using Suc.hyps(2) by arith
    ultimately show ?thesis
      using Suc.hyps(1) [of "Suc a"] Suc.prems(3,5) nn(2) lt False sl by (auto split: option.splits)
  qed
qed

lemma http_GetHdr_value:
  assumes "http_full hp" and "length name < 127"
  shows "http_GetHdr hp (HTTP_Init_hdr name) = Some (hdr_value name (h_lines hp))"
proof -
  have "case find (hdr_named name) (h_lines hp) of
      None \<Rightarrow> http_findhdr hp (length name) (name @ '':'') = Some 0
    | Some s \<Rightarrow> \<exists>u. http_findhdr hp (length name) (name @ '':'') = Some u \<and> 0 < u \<and> u < h_nhd hp \<and> t_s (h_hd hp ! u) = s"
    using findhdr_loop_spec [of HTTP_HDR_FIRST "h_nhd hp" hp name] assms
    unfolding http_full_def http_ok_def h_slots_def h_lines_def http_findhdr_def
    by (simp add: HTTP_HDR_FIRST_def)
  moreover have "h_nhd hp \<le> h_shd hp" using assms(1) by (simp add: http_full_def http_ok_def)
  ultimately show ?thesis
    using HTTP_Init_hdr_simps [OF assms(2)]
    by (auto simp: http_GetHdr_def hdr_value_def hd_at_def split: option.splits)
qed

subsection \<open>Removing headers\<close>

text \<open>
  The reading index of \<open>unset_loop\<close> is never behind the writing index, so the slots still to be
  read are as they were.
\<close>

lemma unset_loop_spec:
  assumes "v \<le> a" "a \<le> n" "n \<le> h_shd hp" "length (h_hdf hp) = h_shd hp" "length name < 127"
  shows "\<exists>hp'. unset_loop hp (HTTP_Init_hdr name) [a..<n] v = Some hp' \<and> h_shd hp' = h_shd hp \<and>
    length (h_hdf hp') = h_shd hp \<and> v \<le> h_nhd hp' \<and> h_nhd hp' \<le> n \<and>
    take (h_nhd hp') (zip (h_hd hp') (h_hdf hp')) = take v (zip (h_hd hp) (h_hdf hp)) @
      filter (\<lambda>(t, f). t_b t \<noteq> NULL \<and> \<not> hdr_named name (t_s t)) (drop a (take n (zip (h_hd hp) (h_hdf hp)))) \<and>
    hp' = hp\<lparr>h_hd := h_hd hp', h_hdf := h_hdf hp', h_nhd := h_nhd hp'\<rparr>"
  using assms
proof (induction "n - a" arbitrary: a v hp)
  case 0
  then show ?case by simp
next
  case (Suc k)
  then have lt: "a < n" and k: "k = n - Suc a" by arith+
  have up: "[a..<n] = a # [Suc a..<n]" using lt by (simp add: upt_rec)
  let ?z = "\<lambda>hp. zip (h_hd hp) (h_hdf hp)"
  let ?P = "\<lambda>(t, f). t_b t \<noteq> NULL \<and> \<not> hdr_named name (t_s t)"
  let ?t = "h_hd hp ! a" and ?f = "h_hdf hp ! a"
  have at: "hd_at hp a = Some ?t" using lt Suc.prems(3) by (simp add: hd_at_def)
  have za: "drop a (take n (?z hp)) = (?t, ?f) # drop (Suc a) (take n (?z hp))"
    using slots_Cons [of a n "?z hp"] lt Suc.prems(3,4) by simp
  show ?case
  proof (cases "?P (?t, ?f)")
    case False
    then have "unset_loop hp (HTTP_Init_hdr name) [a..<n] v = unset_loop hp (HTTP_Init_hdr name) [Suc a..<n] v"
      using at up http_IsHdr_named [OF Suc.prems(5), of ?t] by auto
    moreover obtain hp' where "unset_loop hp (HTTP_Init_hdr name) [Suc a..<n] v = Some hp'" "h_shd hp' = h_shd hp"
      "length (h_hdf hp') = h_shd hp" "v \<le> h_nhd hp'" "h_nhd hp' \<le> n"
      "take (h_nhd hp') (?z hp') = take v (?z hp) @ filter ?P (drop (Suc a) (take n (?z hp)))"
      "hp' = hp\<lparr>h_hd := h_hd hp', h_hdf := h_hdf hp', h_nhd := h_nhd hp'\<rparr>"
      using Suc.hyps(1) [OF k, of v hp] Suc.prems lt by auto
    ultimately show ?thesis using False za by (intro exI [of _ hp']) simp
  next
    case True
    define g where "g = (if v \<noteq> a then hp\<lparr>h_hd := (h_hd hp)[v := ?t], h_hdf := (h_hdf hp)[v := ?f]\<rparr> else hp)"
    have step: "unset_loop hp (HTTP_Init_hdr name) [a..<n] v = unset_loop g (HTTP_Init_hdr name) [Suc a..<n] (Suc v)"
      using True at up http_IsHdr_named [OF Suc.prems(5), of ?t] by (simp add: g_def)
    have "(?z hp) ! a = (?t, ?f)" using lt Suc.prems(3,4) by simp
    then have same: "(?z hp)[a := (?t, ?f)] = ?z hp" by (metis list_update_id)
    have g: "h_shd g = h_shd hp" "length (h_hdf g) = h_shd hp" "?z g = (?z hp)[v := (?t, ?f)]"
      using same by (auto simp: g_def zip_update Suc.prems(4))
    have g4: "drop (Suc a) (take n (?z g)) = drop (Suc a) (take n (?z hp))"
      using Suc.prems(1) unfolding g(3) by (simp add: take_update_swap)
    have tk: "take (Suc v) (?z g) = take v (?z hp) @ [(?t, ?f)]"
      using Suc.prems(1,3,4) lt unfolding g(3) by (simp add: take_Suc_conv_app_nth)
    obtain hp' where hp': "unset_loop g (HTTP_Init_hdr name) [Suc a..<n] (Suc v) = Some hp'" "h_shd hp' = h_shd g"
      "length (h_hdf hp') = h_shd g" "Suc v \<le> h_nhd hp'" "h_nhd hp' \<le> n"
      "take (h_nhd hp') (?z hp') = take (Suc v) (?z g) @ filter ?P (drop (Suc a) (take n (?z g)))"
      "hp' = g\<lparr>h_hd := h_hd hp', h_hdf := h_hdf hp', h_nhd := h_nhd hp'\<rparr>"
      using Suc.hyps(1) [OF k, of "Suc v" g] Suc.prems g(1,2) lt by auto
    have "hp' = hp\<lparr>h_hd := h_hd hp', h_hdf := h_hdf hp', h_nhd := h_nhd hp'\<rparr>"
      using hp'(7) by (auto simp: g_def split: if_splits)
    then show ?thesis
      using step hp' g(1) g4 tk True za by (intro exI [of _ hp']) auto
  qed
qed

text \<open>
  C27: \<open>http_Unset\<close> removes exactly the header lines with the given name,
  keeps the others in order together with their filter flags, and leaves the rest of the message.
\<close>
theorem http_Unset_correct:
  assumes "http_full hp" and "length name < 127"
  shows "\<exists>hp'. http_Unset hp (HTTP_Init_hdr name) = Some hp' \<and> http_full hp' \<and>
    zip (h_lines hp') (h_flags hp') = filter (\<lambda>(s, f). \<not> hdr_named name s) (zip (h_lines hp) (h_flags hp)) \<and>
    take HTTP_HDR_FIRST (h_hd hp') = take HTTP_HDR_FIRST (h_hd hp)"
proof -
  let ?z = "\<lambda>hp. zip (h_hd hp) (h_hdf hp)"
  let ?P = "\<lambda>(t, f). t_b t \<noteq> NULL \<and> \<not> hdr_named name (t_s t)"
  have ok: "length (h_hdf hp) = h_shd hp" "HTTP_HDR_FIRST \<le> h_nhd hp" "h_nhd hp \<le> h_shd hp"
    "list_all (\<lambda>t. t_b t \<noteq> NULL) (h_slots hp)"
    using assms(1) by (simp_all add: http_full_def http_ok_def)
  obtain hp' where hp': "http_Unset hp (HTTP_Init_hdr name) = Some hp'" "h_shd hp' = h_shd hp"
    "length (h_hdf hp') = h_shd hp" "HTTP_HDR_FIRST \<le> h_nhd hp'" "h_nhd hp' \<le> h_nhd hp"
    "take (h_nhd hp') (?z hp') = take HTTP_HDR_FIRST (?z hp) @ filter ?P (drop HTTP_HDR_FIRST (take (h_nhd hp) (?z hp)))"
    using unset_loop_spec [OF order_refl ok(2,3,1) assms(2)] unfolding http_Unset_def by blast
  have len: "length (take HTTP_HDR_FIRST (?z hp)) = HTTP_HDR_FIRST" using ok by simp
  have slots: "zip (h_slots g) (h_flags g) = drop HTTP_HDR_FIRST (take (h_nhd g) (?z g))" for g
    by (simp add: h_slots_def h_flags_def take_zip drop_zip)
  have sl: "zip (h_slots hp') (h_flags hp') = filter ?P (zip (h_slots hp) (h_flags hp))"
    unfolding slots hp'(6) using len by simp
  have "length (h_slots hp') = length (h_flags hp')"
    using hp'(2,3) by (simp add: h_slots_def h_flags_def)
  then have "h_slots hp' = map fst (filter ?P (zip (h_slots hp) (h_flags hp)))"
    using sl by (metis map_fst_zip)
  then have "list_all (\<lambda>t. t_b t \<noteq> NULL) (h_slots hp')" by (auto simp: list_all_iff)
  moreover have "http_ok hp'" using hp' ok by (simp add: http_ok_def)
  moreover have "zip (h_lines hp') (h_flags hp') = filter (\<lambda>(s, f). \<not> hdr_named name s) (zip (h_lines hp) (h_flags hp))"
  proof -
    have z: "zip (h_lines g) (h_flags g) = map (\<lambda>(t, f). (t_s t, f)) (zip (h_slots g) (h_flags g))" for g
      by (simp add: h_lines_def zip_map1)
    have "filter ?P (zip (h_slots hp) (h_flags hp)) =
        filter (\<lambda>(t, f). \<not> hdr_named name (t_s t)) (zip (h_slots hp) (h_flags hp))"
      by (rule filter_cong) (use ok(4) in \<open>auto simp: list_all_iff dest: set_zip_leftD\<close>)
    then show ?thesis unfolding z sl by (simp add: filter_map comp_def case_prod_unfold)
  qed
  moreover have "take HTTP_HDR_FIRST (h_hd hp') = take HTTP_HDR_FIRST (h_hd hp)"
  proof -
    have "take HTTP_HDR_FIRST (?z hp') = take HTTP_HDR_FIRST (take (h_nhd hp') (?z hp'))"
      using hp'(4) by simp
    also have "\<dots> = take HTTP_HDR_FIRST (?z hp)" unfolding hp'(6) using len by simp
    finally have "map fst (take HTTP_HDR_FIRST (?z hp')) = map fst (take HTTP_HDR_FIRST (?z hp))" by simp
    then show ?thesis using hp'(2,3) ok(1) by (simp add: take_map [symmetric])
  qed
  ultimately show ?thesis using hp'(1) by (auto simp: http_full_def)
qed

definition http_ex :: http where
  "http_ex = \<lparr>h_logtag = HTTP_Rx, h_hd = [lit ''GET'', lit ''/'', lit ''HTTP/1.1'', no_txt, no_txt,
     lit ''Host: a'', lit ''X-A: 1'', lit ''x-a: 2'', no_txt], h_hdf = replicate 9 0, h_nhd = 8,
     h_status = 0, h_protover = 11, h_conds = 0\<rparr>"

lemma http_ex_full [simp]: "http_full http_ex"
  by (simp add: http_full_def http_ok_def http_ex_def h_slots_def lit_def HTTP_HDR_FIRST_def)

lemma http_ex_lines: "h_lines http_ex = [''Host: a'', ''X-A: 1'', ''x-a: 2'']" "h_flags http_ex = [0, 0, 0]"
  by (simp_all add: h_lines_def h_flags_def http_ex_def h_slots_def lit_def HTTP_HDR_FIRST_def numeral_eq_Suc)

theorem http_Unset_correct_witness:
  "\<exists>hp'. http_Unset http_ex (HTTP_Init_hdr ''X-a'') = Some hp' \<and> h_lines hp' = [''Host: a'']"
proof -
  obtain hp' where hp': "http_Unset http_ex (HTTP_Init_hdr ''X-a'') = Some hp'"
    "zip (h_lines hp') (h_flags hp') = filter (\<lambda>(s, f). \<not> hdr_named ''X-a'' s) (zip (h_lines http_ex) (h_flags http_ex))"
    "http_full hp'"
    using http_Unset_correct [OF http_ex_full, of "''X-a''"] by auto
  have "filter (\<lambda>(s, f). \<not> hdr_named ''X-a'' s) (zip [''Host: a'', ''X-A: 1'', ''x-a: 2''] [0, 0, 0]) =
      [(''Host: a'', 0 :: u8)]" by code_simp
  then have "zip (h_lines hp') (h_flags hp') = [(''Host: a'', 0)]"
    unfolding hp'(2) http_ex_lines .
  moreover have "length (h_lines hp') = length (h_flags hp')"
    using hp'(3) by (simp add: http_full_def http_ok_def h_lines_def h_slots_def h_flags_def)
  ultimately have "h_lines hp' = map fst [(''Host: a'', 0 :: u8)]" by (metis map_fst_zip)
  then show ?thesis using hp'(1) by simp
qed

subsection \<open>Setting a header and reading it back\<close>

lemma set_hd_lines:
  assumes "http_full to" and "h_nhd to < h_shd to" and "t_b t \<noteq> NULL"
  shows "http_full (to\<lparr>h_hd := (h_hd to)[h_nhd to := t], h_hdf := (h_hdf to)[h_nhd to := f], h_nhd := h_nhd to + 1\<rparr>) \<and>
    h_lines (to\<lparr>h_hd := (h_hd to)[h_nhd to := t], h_hdf := (h_hdf to)[h_nhd to := f], h_nhd := h_nhd to + 1\<rparr>) =
      h_lines to @ [t_s t]"
proof -
  have ok: "HTTP_HDR_FIRST \<le> h_nhd to" "length (h_hdf to) = h_shd to" using assms(1) by (simp_all add: http_full_def http_ok_def)
  have "take (h_nhd to + 1) ((h_hd to)[h_nhd to := t]) = take (h_nhd to) (h_hd to) @ [t]"
    using assms(2) by (simp add: take_Suc_conv_app_nth)
  then have "h_slots (to\<lparr>h_hd := (h_hd to)[h_nhd to := t], h_hdf := (h_hdf to)[h_nhd to := f], h_nhd := h_nhd to + 1\<rparr>) =
      h_slots to @ [t]"
    using ok(1) assms(2) by (simp add: h_slots_def)
  then show ?thesis
    using assms ok by (simp add: http_full_def http_ok_def h_lines_def)
qed

text \<open>
  C28: a header set in a message that has a free slot goes behind all others: a look-up by its name
  then finds it if there was no header of that name, and the old one if there was, and every other look-up gives what it gave
  before; in a full message the header is lost and counted.
\<close>
theorem http_SetHeader_GetHdr:
  assumes "http_full to" and "t_b t \<noteq> NULL" and "t_s t = name @ '':'' @ v" and "length name < 127"
  shows "(h_nhd to < h_shd to \<longrightarrow> (\<exists>to'. http_SetHeader to t = Some (to', 0) \<and> http_full to' \<and>
      http_GetHdr to' (HTTP_Init_hdr name) = Some (Some (case hdr_value name (h_lines to) of None \<Rightarrow> dropWhile vct_issp v | Some old \<Rightarrow> old)) \<and>
      (\<forall>other. length other < 127 \<and> \<not> hdr_named other (t_s t) \<longrightarrow>
         http_GetHdr to' (HTTP_Init_hdr other) = http_GetHdr to (HTTP_Init_hdr other)))) \<and>
    (h_nhd to = h_shd to \<longrightarrow> http_SetHeader to t = Some (to, 1))"
proof (intro conjI impI)
  assume lt: "h_nhd to < h_shd to"
  let ?to = "to\<lparr>h_hd := (h_hd to)[h_nhd to := t], h_hdf := (h_hdf to)[h_nhd to := 0], h_nhd := h_nhd to + 1\<rparr>"
  have f: "http_full ?to" "h_lines ?to = h_lines to @ [t_s t]" using set_hd_lines [OF assms(1) lt assms(2)] by auto
  have set: "http_SetHeader to t = Some (?to, 0)"
    using lt assms(2) by (simp add: http_SetHeader_def http_SetH_def set_hd_def)
  have app: "find P (xs @ ys) = (case find P xs of None \<Rightarrow> find P ys | Some x \<Rightarrow> Some x)" for P :: "string \<Rightarrow> bool" and xs ys
    by (induction xs) auto
  have "hdr_named name (t_s t)" using assms(3) by (simp add: hdr_named_def nth_append)
  then have "hdr_value name (h_lines ?to) = Some (case hdr_value name (h_lines to) of None \<Rightarrow> dropWhile vct_issp v | Some old \<Rightarrow> old)"
    unfolding f(2) using assms(3) by (simp add: hdr_value_def app split: option.splits)
  moreover have "hdr_value other (h_lines ?to) = hdr_value other (h_lines to)" if "\<not> hdr_named other (t_s t)" for other
    unfolding f(2) using that by (simp add: hdr_value_def app split: option.splits)
  ultimately show "\<exists>to'. http_SetHeader to t = Some (to', 0) \<and> http_full to' \<and>
      http_GetHdr to' (HTTP_Init_hdr name) = Some (Some (case hdr_value name (h_lines to) of None \<Rightarrow> dropWhile vct_issp v | Some old \<Rightarrow> old)) \<and>
      (\<forall>other. length other < 127 \<and> \<not> hdr_named other (t_s t) \<longrightarrow>
         http_GetHdr to' (HTTP_Init_hdr other) = http_GetHdr to (HTTP_Init_hdr other))"
    using set f(1) assms(1,4) http_GetHdr_value by auto
qed (simp add: http_SetHeader_def)

theorem http_SetHeader_GetHdr_witness:
  "\<exists>to'. http_SetHeader http_ex (lit ''Age: 7'') = Some (to', 0) \<and>
     http_GetHdr to' (HTTP_Init_hdr ''Age'') = Some (Some ''7'')"
proof -
  have "hdr_value ''Age'' (h_lines http_ex) = None"
    unfolding http_ex_lines by (simp add: hdr_value_def hdr_named_def strcaseeq_def tolower_def)
  moreover have "h_nhd http_ex < h_shd http_ex" by (simp add: http_ex_def)
  moreover have "vct_issp (CHR '' '')" "\<not> vct_issp (CHR ''7'')" by (simp_all add: vct_classes)
  ultimately show ?thesis
    using http_SetHeader_GetHdr [of http_ex "lit ''Age: 7''" "''Age''" "'' 7''"] by (auto simp: lit_def)
qed

subsection \<open>Filtering\<close>

text \<open>The header lines a filter operation lets through.\<close>

definition hdr_kept :: "u8 \<Rightarrow> string \<Rightarrow> u8 \<Rightarrow> bool" where
  "hdr_kept how s f \<longleftrightarrow> f AND HDF_FILTER = 0 \<and>
     \<not> (\<exists>(name, e) \<in> set http_headers. e AND how \<noteq> 0 \<and> hdr_named name s)"

lemma http_headers_short: "list_all (\<lambda>(name, e). length name < 127) http_headers"
  by (simp add: http_headers_def)

lemma hdr_filtered_spec:
  assumes "list_all (\<lambda>(name, e). length name < 127) hs" and "t_b t \<noteq> NULL"
  shows "hdr_filtered hs how t = Some (\<exists>(name, e) \<in> set hs. e AND how \<noteq> 0 \<and> hdr_named name (t_s t))"
  using assms(1)
proof (induction hs)
  case (Cons h hs)
  obtain name e where h: "h = (name, e)" by fastforce
  then show ?case using Cons http_IsHdr_named [of name t] assms(2) by auto
qed simp

lemma http_skip_spec:
  assumes "u < h_shd fm" and "t_b (h_hd fm ! u) \<noteq> NULL"
  shows "http_skip fm how u = Some (\<not> hdr_kept how (t_s (h_hd fm ! u)) (h_hdf fm ! u))"
  using assms hdr_filtered_spec [OF http_headers_short assms(2), of how]
  by (auto simp: http_skip_def hd_at_def hdr_kept_def)

lemma filter_loop_spec:
  assumes "a \<le> n" "n \<le> h_shd fm" "length (h_hdf fm) = h_shd fm"
    and "list_all (\<lambda>t. t_b t \<noteq> NULL) (drop a (take n (h_hd fm)))" and "http_full to"
    and "K = map fst (filter (\<lambda>(s, f). hdr_kept how s f)
           (zip (map t_s (drop a (take n (h_hd fm)))) (drop a (take n (h_hdf fm)))))"
  shows "\<exists>to'. filter_loop to fm how [a..<n] lost = Some (to', lost + (length K - (h_shd to - h_nhd to))) \<and>
    http_full to' \<and> h_lines to' = h_lines to @ take (h_shd to - h_nhd to) K \<and> h_shd to' = h_shd to \<and>
    h_status to' = h_status to"
  using assms
proof (induction "n - a" arbitrary: a to lost K)
  case 0
  then show ?case by simp
next
  case (Suc k)
  then have lt: "a < n" and k: "k = n - Suc a" by arith+
  have up: "[a..<n] = a # [Suc a..<n]" using lt by (simp add: upt_rec)
  let ?t = "h_hd fm ! a" and ?f = "h_hdf fm ! a"
  have sl: "drop a (take n (h_hd fm)) = ?t # drop (Suc a) (take n (h_hd fm))"
      "drop a (take n (h_hdf fm)) = ?f # drop (Suc a) (take n (h_hdf fm))"
    using slots_Cons [OF lt, of "h_hd fm"] slots_Cons [OF lt, of "h_hdf fm"] Suc.prems(2,3) by auto
  have nn: "t_b ?t \<noteq> NULL" "list_all (\<lambda>t. t_b t \<noteq> NULL) (drop (Suc a) (take n (h_hd fm)))"
    using Suc.prems(4) sl by simp_all
  have skip: "http_skip fm how a = Some (\<not> hdr_kept how (t_s ?t) ?f)"
    using http_skip_spec [of a fm] lt Suc.prems(2) nn(1) by simp
  define K' where "K' = map fst (filter (\<lambda>(s, f). hdr_kept how s f)
           (zip (map t_s (drop (Suc a) (take n (h_hd fm)))) (drop (Suc a) (take n (h_hdf fm)))))"
  have K: "K = (if hdr_kept how (t_s ?t) ?f then t_s ?t # K' else K')"
    unfolding Suc.prems(6) K'_def sl by simp
  note IH = Suc.hyps(1) [OF k _ Suc.prems(2,3) nn(2) _ K'_def]
  show ?case
  proof (cases "hdr_kept how (t_s ?t) ?f")
    case False
    then show ?thesis using IH [OF _ Suc.prems(5), of lost] K skip up lt by auto
  next
    case True
    show ?thesis
    proof (cases "h_nhd to < h_shd to")
      case room: True
      let ?to = "to\<lparr>h_hd := (h_hd to)[h_nhd to := ?t], h_hdf := (h_hdf to)[h_nhd to := 0], h_nhd := h_nhd to + 1\<rparr>"
      have f: "http_full ?to" "h_lines ?to = h_lines to @ [t_s ?t]"
        using set_hd_lines [OF Suc.prems(5) room nn(1)] by auto
      have "http_copyheader to fm a = Some (?to, 0)"
        using room lt Suc.prems(2) nn(1) by (simp add: http_copyheader_def hd_at_def Tcheck_def set_hd_def)
      then have step: "filter_loop to fm how [a..<n] lost = filter_loop ?to fm how [Suc a..<n] lost"
        using skip True up by simp
      obtain to' where to': "filter_loop ?to fm how [Suc a..<n] lost = Some (to', lost + (length K' - (h_shd ?to - h_nhd ?to)))"
          "http_full to'" "h_lines to' = h_lines ?to @ take (h_shd ?to - h_nhd ?to) K'" "h_shd to' = h_shd ?to"
          "h_status to' = h_status ?to"
        using IH [OF _ f(1), of lost] lt by auto
      have sub: "h_shd to - h_nhd to = Suc (h_shd to - (h_nhd to + 1))" using room by simp
      show ?thesis
        using to' f(2) K True step unfolding sub by (intro exI [of _ to']) simp
    next
      case full: False
      have "http_copyheader to fm a = Some (to, 1)"
        using full lt Suc.prems(2) nn(1) by (simp add: http_copyheader_def hd_at_def Tcheck_def)
      then have "filter_loop to fm how [a..<n] lost = filter_loop to fm how [Suc a..<n] (lost + 1)"
        using skip True up by simp
      then show ?thesis using IH [OF _ Suc.prems(5), of "lost + 1"] K True full lt by auto
    qed
  qed
qed

text \<open>
  C29: filtering the headers of one message into another copies, in
  order, exactly the lines that are not suppressed for the operation and not named by
  \<open>Connection:\<close>; when the target runs out of slots the remaining ones are lost and counted.
\<close>
theorem http_FilterFields_correct:
  assumes "http_full fm" and "length (h_hdf to) = h_shd to" and "HTTP_HDR_FIRST \<le> h_shd to"
    and "K = map fst (filter (\<lambda>(s, f). hdr_kept how s f) (zip (h_lines fm) (h_flags fm)))"
  shows "\<exists>to'. http_FilterFields to fm how = Some (to', length K - (h_shd to - HTTP_HDR_FIRST)) \<and>
    http_full to' \<and> h_lines to' = take (h_shd to - HTTP_HDR_FIRST) K \<and> h_status to' = h_status fm"
proof -
  let ?to = "to\<lparr>h_nhd := HTTP_HDR_FIRST, h_status := h_status fm\<rparr>"
  have f: "http_full ?to" "h_lines ?to = []"
    using assms(2,3) by (simp_all add: http_full_def http_ok_def h_slots_def h_lines_def)
  have ok: "HTTP_HDR_FIRST \<le> h_nhd fm" "h_nhd fm \<le> h_shd fm" "length (h_hdf fm) = h_shd fm"
    "list_all (\<lambda>t. t_b t \<noteq> NULL) (drop HTTP_HDR_FIRST (take (h_nhd fm) (h_hd fm)))"
    using assms(1) by (simp_all add: http_full_def http_ok_def h_slots_def)
  show ?thesis
    using filter_loop_spec [OF ok f(1), of K how 0] assms(4) f(2)
    by (auto simp: http_FilterFields_def h_lines_def h_slots_def h_flags_def)
qed

theorem http_FilterFields_correct_witness:
  "\<exists>to'. http_FilterFields (http_blank 6) http_ex HTTPH_R_FETCH = Some (to', 2) \<and>
     h_lines to' = [''Host: a'']"
proof -
  have "map fst (filter (\<lambda>(s, f). hdr_kept HTTPH_R_FETCH s f) (zip [''Host: a'', ''X-A: 1'', ''x-a: 2''] [0, 0, 0])) =
      [''Host: a'', ''X-A: 1'', ''x-a: 2'']" by code_simp
  then show ?thesis
    using http_FilterFields_correct [OF http_ex_full, of "http_blank 6" _ HTTPH_R_FETCH, OF _ _ refl]
    unfolding http_ex_lines by (auto simp: http_blank_def HTTP_HDR_FIRST_def)
qed

end
