(* ===== verification/Http_Parse.thy ===== *)
theory Http_Parse
  imports Http
begin

text \<open>
  Taking HTTP messages apart: \<open>http_splitline\<close>, \<open>http_dissect_hdrs\<close>, \<open>http_DissectRequest\<close> and
  \<open>http_DissectResponse\<close> of \<^verbatim>\<open>bin/varnishd/cache_http.c\<close>.

  The receive buffer is the list of characters from \<open>rxbuf.b\<close> on, with the NUL that ends the received
  bytes as its last element; pointers into it are positions. The code reads it with no bound but the
  NUL, and in one place past \<open>rxbuf.e\<close>: a read or write outside the list is \<open>None\<close>.
\<close>

subsection \<open>The receive buffer\<close>

definition rd :: "char list \<Rightarrow> nat \<Rightarrow> char option" where
  "rd m i = (if i < length m then Some (m ! i) else None)"

definition wr :: "char list \<Rightarrow> nat \<Rightarrow> char \<Rightarrow> char list option" where
  "wr m i c = (if i < length m then Some (m[i := c]) else None)"

text \<open>The text \<open>hd[n]\<close> points at when its ends are set to the positions \<open>i\<close> and \<open>j\<close>.\<close>

definition mtxt :: "u64 \<Rightarrow> char list \<Rightarrow> nat \<Rightarrow> nat \<Rightarrow> htxt" where
  "mtxt base m i j = \<lparr>t_b = base + of_nat i, t_s = take (j - i) (drop i m)\<rparr>"

record http_conn =
  rx_base :: u64
  rx_e :: nat
  htc_maxhdr :: nat

subsection \<open>Header lines\<close>

text \<open>Clear line continuation LWS to spaces.\<close>

function clear_lws :: "char list \<Rightarrow> nat \<Rightarrow> (char list \<times> nat) option" where
  "clear_lws m q = do {
     c \<leftarrow> rd m q;
     (if vct_islws c then clear_lws (m[q := CHR '' '']) (Suc q) else Some (m, q))
   }"
  by pat_completeness auto
termination
  by (relation "measure (\<lambda>(m, q). length m - q)") (auto simp: rd_def split: if_splits)

declare clear_lws.simps [simp del]

text \<open>Find the end of the next header: \<open>q\<close> its end, \<open>r\<close> the start of the next one.\<close>

function hdr_scan :: "char list \<Rightarrow> nat \<Rightarrow> nat \<Rightarrow> nat \<Rightarrow> (char list \<times> nat \<times> nat) option" where
  "hdr_scan m e q r =
     (if r < e then do {
        c \<leftarrow> rd m r;
        (if \<not> vct_iscrlf c then hdr_scan m e q (Suc r)
         else do {
           let q = r;
           let r' = r + vct_skipcrlf (drop r m);
           (if r' \<ge> e then Some (m, q, r')
            else do {
              c' \<leftarrow> rd m r';
              (if \<not> vct_issp c' then Some (m, q, r')
               else do {
                 (m', q') \<leftarrow> clear_lws m q;
                 hdr_scan m' e q' r'
               })
            })
         })
      }
      else Some (m, q, r))"
  by pat_completeness auto
termination
  by (relation "measure (\<lambda>(m, e, q, r). e - r)") (auto simp: vct_skipcrlf_def split: list.splits)

declare hdr_scan.simps [simp del]

text \<open>\<open>while (q > p && vct_issp(q[-1])) q--;\<close>\<close>

fun trim_sp :: "char list \<Rightarrow> nat \<Rightarrow> nat \<Rightarrow> nat" where
  "trim_sp m p 0 = 0"
| "trim_sp m p (Suc q) = (if p \<le> q \<and> vct_issp (m ! q) then trim_sp m p q else Suc q)"

lemma skipcrlf_pos [simp]: "0 < vct_skipcrlf p"
  by (simp add: vct_skipcrlf_def split: list.splits)

lemma hdr_scan_advances:
  "hdr_scan m e q r = Some (m', q', r') \<Longrightarrow> r < e \<Longrightarrow> r < r'"
proof (induction m e q r rule: hdr_scan.induct)
  case (1 m e q r)
  obtain c where c: "rd m r = Some c" using 1 by (auto simp: hdr_scan.simps [of m e q r] split: Option.bind_splits)
  show ?case
  proof (cases "vct_iscrlf c")
    case False
    then have s: "hdr_scan m e q (Suc r) = Some (m', q', r')" using 1(3,4) c by (simp add: hdr_scan.simps [of m e q r])
    show ?thesis
    proof (cases "Suc r < e")
      case True
      then show ?thesis using 1(1) [OF 1(4) c False s] by simp
    next
      case f: False
      then show ?thesis using s 1(4) by (simp add: hdr_scan.simps [of m e q "Suc r"])
    qed
  next
    case True
    let ?r = "r + vct_skipcrlf (drop r m)"
    have lt: "r < ?r" by simp
    show ?thesis
    proof (cases "?r < e")
      case False
      then have "r' = ?r" using 1(3,4) c True by (auto simp add: hdr_scan.simps [of m e q r])
      then show ?thesis using lt by simp
    next
      case re: True
      obtain d where d: "rd m ?r = Some d"
        using 1(3,4) c True re by (auto simp: hdr_scan.simps [of m e q r] Let_def split: Option.bind_splits)
      show ?thesis
      proof (cases "vct_issp d")
        case False
        then have "r' = ?r" using 1(3,4) c True re d by (auto simp add: hdr_scan.simps [of m e q r])
        then show ?thesis using lt by simp
      next
        case sp: True
        then obtain m1 q1 where m1: "clear_lws m r = Some (m1, q1)" "hdr_scan m1 e q1 ?r = Some (m', q', r')"
          using 1(3,4) c True re d by (auto simp: hdr_scan.simps [of m e q r] Let_def split: Option.bind_splits)
        have "?r < r'"
          using 1(2) [OF 1(4) c _ refl refl _ d _ m1(1) refl] m1(2) True sp re by auto
        with lt show ?thesis by linarith
      qed
    qed
  qed
qed

text \<open>One header line; the results are the buffer, the message and the HTTP status of an error, 0 for none.\<close>

definition is_cond :: "char list \<Rightarrow> nat \<Rightarrow> bool option" where
  "is_cond m p = do {
     a \<leftarrow> rd m p;
     (if a = CHR ''i'' \<or> a = CHR ''I'' then do {
        b \<leftarrow> rd m (p + 1);
        (if b = CHR ''f'' \<or> b = CHR ''F'' then do {
           c \<leftarrow> rd m (p + 2);
           Some (c = CHR ''-'')
         }
         else Some False)
      }
      else Some False)
   }"

function dissect_loop :: "http_conn \<Rightarrow> char list \<Rightarrow> http \<Rightarrow> nat \<Rightarrow> (char list \<times> http \<times> nat) option" where
  "dissect_loop htc m hp p =
     (if p < rx_e htc then do {
        (m, q, r) \<leftarrow> hdr_scan m (rx_e htc) p p;
        (if q > p + htc_maxhdr htc then Some (m, hp, 413)
         else if p = q then Some (m, hp, 0)
         else do {
           b \<leftarrow> is_cond m p;
           let hp = (if b then hp\<lparr>h_conds := 1\<rparr> else hp);
           let q = trim_sp m p q;
           m \<leftarrow> wr m q NUL;
           (if h_nhd hp < h_shd hp then do {
              hp \<leftarrow> set_hd hp (h_nhd hp) (mtxt (rx_base htc) m p q) 0;
              dissect_loop htc m (hp\<lparr>h_nhd := h_nhd hp + 1\<rparr>) r
            }
            else Some (m, hp, 413))
         })
      }
      else Some (m, hp, 0))"
  by pat_completeness auto
termination
  by (relation "measure (\<lambda>(htc, m, hp, p). rx_e htc - p)") (auto dest: hdr_scan_advances)

declare dissect_loop.simps [simp del]

definition http_dissect_hdrs :: "http_conn \<Rightarrow> char list \<Rightarrow> http \<Rightarrow> nat \<Rightarrow> (char list \<times> http \<times> nat) option" where
  "http_dissect_hdrs htc m hp p = do {
     c \<leftarrow> rd m p;
     let p = (if c = CHR 0x0d then p + 1 else p);
     dissect_loop htc m (hp\<lparr>h_nhd := HTTP_HDR_FIRST, h_conds := 0\<rparr>) p
   }"

subsection \<open>The first line\<close>

text \<open>
  The scanning loops \<open>for (; !stop(*p); p++) if (!ok(*p)) return (400);\<close>: the result \<open>Some None\<close> is
  the error.
\<close>

function scan_until :: "(char \<Rightarrow> bool) \<Rightarrow> (char \<Rightarrow> bool) \<Rightarrow> char list \<Rightarrow> nat \<Rightarrow> nat option option" where
  "scan_until stop ok m p = do {
     c \<leftarrow> rd m p;
     (if stop c then Some (Some p) else if ok c then scan_until stop ok m (Suc p) else Some None)
   }"
  by pat_completeness auto
termination
  by (relation "measure (\<lambda>(stop, ok, m, p). length m - p)") (auto simp: rd_def split: if_splits)

declare scan_until.simps [simp del]

text \<open>\<open>p\<close> continued at the position found, or 400.\<close>

definition or400 :: "char list \<Rightarrow> http \<Rightarrow> nat option \<Rightarrow> (nat \<Rightarrow> (char list \<times> http \<times> nat) option) \<Rightarrow>
    (char list \<times> http \<times> nat) option" where
  "or400 m hp r f = (case r of None \<Rightarrow> Some (m, hp, 400) | Some p \<Rightarrow> f p)"

definition set_txt :: "http \<Rightarrow> nat \<Rightarrow> htxt \<Rightarrow> http option" where
  "set_txt hp u t = (if u < h_shd hp then Some (hp\<lparr>h_hd := (h_hd hp)[u := t]\<rparr>) else None)"

definition http_splitline :: "http_conn \<Rightarrow> char list \<Rightarrow> http \<Rightarrow> nat \<Rightarrow> nat \<Rightarrow> nat \<Rightarrow> (char list \<times> http \<times> nat) option" where
  "http_splitline htc m hp h1 h2 h3 = do {
     assert_c (rx_base htc \<noteq> NULL);
     r \<leftarrow> scan_until (\<lambda>c. \<not> vct_islws c) (\<lambda>_. True) m 0;
     or400 m hp r (\<lambda>q1. do {
       r \<leftarrow> scan_until vct_issp (\<lambda>c. \<not> vct_isctl c) m q1;
       or400 m hp r (\<lambda>e1. do {
         hp \<leftarrow> set_txt hp h1 (mtxt (rx_base htc) m q1 e1);
         r \<leftarrow> scan_until (\<lambda>c. \<not> vct_issp c) (\<lambda>c. \<not> vct_isctl c) m e1;
         or400 m hp r (\<lambda>q2. do {
           r \<leftarrow> scan_until vct_islws (\<lambda>c. \<not> vct_isctl c) m q2;
           or400 m hp r (\<lambda>e2. do {
             hp \<leftarrow> set_txt hp h2 (mtxt (rx_base htc) m q2 e2);
             (if e2 = q2 then Some (m, hp, 413)
              else do {
                r \<leftarrow> scan_until (\<lambda>c. \<not> vct_issp c) (\<lambda>c. \<not> vct_isctl c) m e2;
                or400 m hp r (\<lambda>q3. do {
                  r \<leftarrow> scan_until vct_iscrlf (\<lambda>c. vct_issep c \<or> \<not> vct_isctl c) m q3;
                  or400 m hp r (\<lambda>e3. do {
                    hp \<leftarrow> set_txt hp h3 (mtxt (rx_base htc) m q3 e3);
                    let p = e3 + vct_skipcrlf (drop e3 m);
                    m \<leftarrow> wr m e1 NUL;
                    m \<leftarrow> wr m e2 NUL;
                    m \<leftarrow> wr m e3 NUL;
                    http_dissect_hdrs htc m hp p
                  })
                })
              })
           })
         })
       })
     })
   }"

definition http_ProtoVer :: "http \<Rightarrow> http option" where
  "http_ProtoVer hp = do {
     t \<leftarrow> hd_at hp HTTP_HDR_PROTO;
     Some (hp\<lparr>h_protover := (if strcaseeq (t_s t) ''HTTP/1.0'' then 10
                              else if strcaseeq (t_s t) ''HTTP/1.1'' then 11 else 9)\<rparr>)
   }"

definition http_DissectRequest :: "http_conn \<Rightarrow> char list \<Rightarrow> http \<Rightarrow> (char list \<times> http \<times> nat) option" where
  "http_DissectRequest htc m hp = do {
     (m, hp, retval) \<leftarrow> http_splitline htc m (hp\<lparr>h_logtag := HTTP_Rx\<rparr>) HTTP_HDR_REQ HTTP_HDR_URL HTTP_HDR_PROTO;
     (if retval \<noteq> 0 then Some (m, hp, retval)
      else do { hp \<leftarrow> http_ProtoVer hp; Some (m, hp, retval) })
   }"

text \<open>The digits of the status: what has been added up, and whether all of them are digits.\<close>

fun status_loop :: "string \<Rightarrow> nat list \<Rightarrow> nat \<Rightarrow> nat \<times> bool" where
  "status_loop s [] a = (a, True)"
| "status_loop [] (j # js) a = (a, False)"
| "status_loop (c # s) (j # js) a =
     (if \<not> vct_isdigit c then (a, False) else status_loop s js (a + j * (of_char c - 48)))"

definition http_DissectResponse :: "http_conn \<Rightarrow> char list \<Rightarrow> http \<Rightarrow> (char list \<times> http \<times> nat) option" where
  "http_DissectResponse htc m hp = do {
     (m, hp, r) \<leftarrow> http_splitline htc m (hp\<lparr>h_logtag := HTTP_Rx\<rparr>) HTTP_HDR_PROTO HTTP_HDR_STATUS HTTP_HDR_RESPONSE;
     let retval = (if r \<noteq> 0 then 503 else 0 :: nat);
     pr \<leftarrow> hd_at hp HTTP_HDR_PROTO;
     let retval = (if retval = 0 \<and> take 7 (t_s pr) \<noteq> ''HTTP/1.'' then 503 else retval);
     st \<leftarrow> hd_at hp HTTP_HDR_STATUS;
     retval \<leftarrow> (if retval = 0 then do { l \<leftarrow> Tlen st; Some (if l \<noteq> 3 then 503 else 0) } else Some retval);
     let (hp, retval) = (if retval = 0
        then (case status_loop (t_s st) [100, 10, 1] 0 of (a, digits) \<Rightarrow>
                (hp\<lparr>h_status := a\<rparr>, if digits then 0 else 503))
        else (hp, retval));
     hp \<leftarrow> (if retval \<noteq> 0 then Some (hp\<lparr>h_status := retval\<rparr>) else http_ProtoVer hp);
     re \<leftarrow> hd_at hp HTTP_HDR_RESPONSE;
     hp \<leftarrow> (if t_b re = NULL \<or> t_s re = [] then do {
          s \<leftarrow> http_StatusMessage (h_status hp);
          set_txt hp HTTP_HDR_RESPONSE (lit s)
        } else Some hp);
     Some (m, hp, retval)
   }"

subsection \<open>Line scanning on well formed input\<close>

text \<open>A header line as it stands in a message: no line end in it, no space at either end.\<close>

definition hdr_line :: "string \<Rightarrow> bool" where
  "hdr_line s \<longleftrightarrow> s \<noteq> [] \<and> list_all (\<lambda>c. \<not> vct_iscrlf c) s \<and> \<not> vct_issp (List.hd s) \<and> \<not> vct_issp (last s)"

definition crlf :: string where
  "crlf = [CHR 0x0d, CHR 0x0a]"

lemma rd_append [simp]: "rd (pre @ c # rest) (length pre) = Some c"
  by (simp add: rd_def)

lemma scan_until_stops:
  assumes "list_all (\<lambda>c. \<not> stop c \<and> ok c) s" and "stop c"
  shows "scan_until stop ok (pre @ s @ c # rest) (length pre) = Some (Some (length pre + length s))"
  using assms
proof (induction s arbitrary: pre)
  case Nil
  then show ?case by (simp add: scan_until.simps)
next
  case (Cons d s)
  then show ?case using Cons.IH [of "pre @ [d]"] by (simp add: scan_until.simps [of stop ok "pre @ d # s @ c # rest"])
qed

lemma crlf_chars [simp]: "vct_iscrlf (CHR 0x0d)" "vct_iscrlf (CHR 0x0a)" "\<not> vct_issp (CHR 0x0d)"
  "vct_islws (CHR 0x0d)" "vct_issp (CHR '' '')" "vct_islws (CHR '' '')"
  by (simp_all add: vct_classes)

lemma hdr_scan_line:
  assumes "list_all (\<lambda>c. \<not> vct_iscrlf c) s" and "e = length pre + length s + 2 + k"
    and "k = 0 \<or> (\<exists>c r. rest = c # r \<and> \<not> vct_issp c)"
  shows "hdr_scan (pre @ s @ crlf @ rest) e q (length pre) =
    Some (pre @ s @ crlf @ rest, length pre + length s, length pre + length s + 2)"
  using assms(1,2)
proof (induction s arbitrary: pre)
  case Nil
  then show ?case using assms(3) by (auto simp: hdr_scan.simps crlf_def vct_skipcrlf_def rd_def nth_append Let_def)
next
  case (Cons d s)
  then show ?case using Cons.IH [of "pre @ [d]"] by (simp add: hdr_scan.simps [of "pre @ d # s @ crlf @ rest"])
qed

lemma trim_sp_line:
  assumes "s \<noteq> []" and "\<not> vct_issp (last s)"
  shows "trim_sp (pre @ s @ rest) (length pre) (length pre + length s) = length pre + length s"
proof -
  obtain t x where s: "s = t @ [x]" using assms(1) by (metis rev_exhaust)
  then show ?thesis using assms(2) by (simp add: nth_append)
qed

lemma is_cond_line:
  assumes "s \<noteq> []"
  shows "\<exists>b. is_cond (pre @ s @ CHR 0x0d # rest) (length pre) = Some b"
proof -
  obtain a t where s: "s = a # t" using assms by (cases s) auto
  show ?thesis
    by (cases t; cases "tl t") (auto simp: s is_cond_def rd_def nth_append nth_Cons')
qed

text \<open>The bytes of the header lines and the empty line after them.\<close>

definition hdr_block :: "string list \<Rightarrow> string" where
  "hdr_block ls = concat (map (\<lambda>s. s @ crlf) ls) @ crlf"

lemma hdr_block_simps [simp]: "hdr_block [] = crlf" "hdr_block (s # ls) = s @ crlf @ hdr_block ls"
  by (simp_all add: hdr_block_def)

lemma length_crlf [simp]: "length crlf = 2"
  by (simp add: crlf_def)

lemma hdr_block_starts:
  assumes "list_all hdr_line ls"
  shows "\<exists>c r. hdr_block ls @ rest = c # r \<and> \<not> vct_issp c"
  using assms by (cases ls) (auto simp: crlf_def hdr_line_def neq_Nil_conv)

lemma http_full_upd [simp]: "http_full (hp\<lparr>h_conds := b\<rparr>) = http_full hp" "h_lines (hp\<lparr>h_conds := b\<rparr>) = h_lines hp"
  by (simp_all add: http_full_def http_ok_def h_slots_def h_lines_def)

lemma dissect_step:
  assumes line: "hdr_line s" "length s \<le> htc_maxhdr htc" and full: "http_full hp"
    and room: "h_nhd hp < h_shd hp" and nn: "rx_base htc + of_nat (length pre) \<noteq> NULL"
    and e: "rx_e htc = length pre + length s + 2 + k" and r: "k = 0 \<or> (\<exists>c r. rest = c # r \<and> \<not> vct_issp c)"
  shows "\<exists>hp'. dissect_loop htc (pre @ s @ crlf @ rest) hp (length pre) =
      dissect_loop htc ((pre @ s @ [NUL, CHR 0x0a]) @ rest) hp' (length (pre @ s @ [NUL, CHR 0x0a])) \<and>
      http_full hp' \<and> h_lines hp' = h_lines hp @ [s] \<and> h_shd hp' = h_shd hp \<and> h_nhd hp' = h_nhd hp + 1 \<and>
      take HTTP_HDR_FIRST (h_hd hp') = take HTTP_HDR_FIRST (h_hd hp)"
proof -
  let ?m = "pre @ s @ crlf @ rest" and ?q = "length pre + length s"
  have l: "s \<noteq> []" "list_all (\<lambda>c. \<not> vct_iscrlf c) s" "\<not> vct_issp (last s)"
    using line by (simp_all add: hdr_line_def)
  obtain b where b: "is_cond ?m (length pre) = Some b"
    using is_cond_line [OF l(1), of pre "CHR 0x0a # rest"] by (auto simp: crlf_def)
  let ?hp = "if b then hp\<lparr>h_conds := 1\<rparr> else hp"
  let ?m' = "(pre @ s @ [NUL, CHR 0x0a]) @ rest"
  let ?t = "mtxt (rx_base htc) ?m' (length pre) ?q"
  have hp: "http_full ?hp" "h_nhd ?hp = h_nhd hp" "h_hd ?hp = h_hd hp" "h_lines ?hp = h_lines hp"
    "h_hdf ?hp = h_hdf hp" using full by simp_all
  have wr: "wr ?m ?q NUL = Some ?m'" by (simp add: wr_def crlf_def list_update_append)
  have t: "t_b ?t \<noteq> NULL" "t_s ?t = s" using nn by (simp_all add: mtxt_def)
  let ?hp' = "?hp\<lparr>h_hd := (h_hd ?hp)[h_nhd ?hp := ?t], h_hdf := (h_hdf ?hp)[h_nhd ?hp := 0], h_nhd := h_nhd ?hp + 1\<rparr>"
  have "dissect_loop htc ?m hp (length pre) = dissect_loop htc ?m' ?hp' (?q + 2)"
    using room b wr l(1) line(2) hp hdr_scan_line [OF l(2) e r] trim_sp_line [OF l(1,3), of pre "crlf @ rest"] e
    by (subst dissect_loop.simps) (simp add: Let_def set_hd_def)
  moreover have "http_full ?hp' \<and> h_lines ?hp' = h_lines hp @ [s]"
    using set_hd_lines [OF hp(1), of ?t 0] room hp(2-4) t by metis
  moreover have "HTTP_HDR_FIRST \<le> h_nhd hp" using full by (simp add: http_full_def http_ok_def)
  ultimately show ?thesis using hp by (intro exI [of _ ?hp']) simp
qed

lemma dissect_loop_lines:
  assumes "list_all (\<lambda>s. hdr_line s \<and> length s \<le> htc_maxhdr htc) ls" and "http_full hp"
    and "h_nhd hp + length ls \<le> h_shd hp"
    and "rx_e htc = length pre + length (hdr_block ls)" and "unat (rx_base htc) + rx_e htc < 2 ^ 64" and "rx_base htc \<noteq> NULL"
  shows "\<exists>m' hp'. dissect_loop htc (pre @ hdr_block ls @ rest) hp (length pre) =
      Some (m', hp', 0) \<and> http_full hp' \<and> h_lines hp' = h_lines hp @ ls \<and>
      take HTTP_HDR_FIRST (h_hd hp') = take HTTP_HDR_FIRST (h_hd hp)"
  using assms
proof (induction ls arbitrary: pre hp)
  case Nil
  have "hdr_scan (pre @ [] @ crlf @ rest) (rx_e htc) (length pre) (length pre) =
      Some (pre @ [] @ crlf @ rest, length pre + 0, length pre + 0 + 2)"
    using hdr_scan_line [of "[]" "rx_e htc" pre 0 rest] Nil(4) by simp
  then show ?case using Nil by (subst dissect_loop.simps) simp
next
  case (Cons s ls)
  have nn: "rx_base htc + of_nat (length pre) \<noteq> NULL"
  proof -
    have "unat (rx_base htc + of_nat (length pre)) = unat (rx_base htc) + length pre"
      using Cons.prems(4,5) by (simp add: unat_word_ariths unat_of_nat)
    then show ?thesis using Cons.prems(6) by (metis add_eq_0_iff_both_eq_0 unat_0 unat_eq_zero)
  qed
  have s: "hdr_line s" "length s \<le> htc_maxhdr htc" "h_nhd hp < h_shd hp" using Cons.prems(1,3) by auto
  have r: "\<exists>c r. hdr_block ls @ rest = c # r \<and> \<not> vct_issp c"
    by (rule hdr_block_starts) (use Cons.prems(1) in \<open>auto simp: list_all_iff\<close>)
  have e: "rx_e htc = length pre + length s + 2 + length (hdr_block ls)" using Cons.prems(4) by simp
  obtain hp' where hp': "dissect_loop htc (pre @ s @ crlf @ hdr_block ls @ rest) hp (length pre) =
      dissect_loop htc ((pre @ s @ [NUL, CHR 0x0a]) @ hdr_block ls @ rest) hp' (length (pre @ s @ [NUL, CHR 0x0a]))"
      "http_full hp'" "h_lines hp' = h_lines hp @ [s]" "h_shd hp' = h_shd hp" "h_nhd hp' = h_nhd hp + 1"
      "take HTTP_HDR_FIRST (h_hd hp') = take HTTP_HDR_FIRST (h_hd hp)"
    using dissect_step [OF s(1,2) Cons.prems(2) s(3) nn e disjI2 [OF r]] by auto
  have "\<exists>m' hp''. dissect_loop htc ((pre @ s @ [NUL, CHR 0x0a]) @ hdr_block ls @ rest) hp' (length (pre @ s @ [NUL, CHR 0x0a])) =
      Some (m', hp'', 0) \<and> http_full hp'' \<and> h_lines hp'' = h_lines hp' @ ls \<and>
      take HTTP_HDR_FIRST (h_hd hp'') = take HTTP_HDR_FIRST (h_hd hp')"
    by (rule Cons.IH) (use Cons.prems e hp' in auto)
  then show ?case using hp' by auto
qed

subsection \<open>A message written is read back\<close>

lemma write_loop_lines:
  assumes "a \<le> n" "n \<le> h_shd hp" and "list_all (\<lambda>t. t_b t \<noteq> NULL) (drop a (take n (h_hd hp)))"
  shows "write_loop hp [a..<n] = Some (concat (map (\<lambda>t. t_s t @ crlf) (drop a (take n (h_hd hp)))))"
  using assms
proof (induction "n - a" arbitrary: a)
  case 0
  then show ?case by simp
next
  case (Suc k)
  then have lt: "a < n" and k: "k = n - Suc a" by arith+
  have up: "[a..<n] = a # [Suc a..<n]" using lt by (simp add: upt_rec)
  note sl = slots_Cons [OF lt Suc.prems(2)]
  have "write_loop hp [Suc a..<n] = Some (concat (map (\<lambda>t. t_s t @ crlf) (drop (Suc a) (take n (h_hd hp)))))"
    by (rule Suc.hyps(1) [OF k]) (use lt Suc.prems sl in auto)
  then show ?case
    using lt Suc.prems by (simp add: up sl hd_at_def WRW_WriteH_def crlf_def)
qed

text \<open>A request line that can be told apart again.\<close>

definition req_line :: "string \<Rightarrow> string \<Rightarrow> string \<Rightarrow> bool" where
  "req_line req url proto \<longleftrightarrow>
     req \<noteq> [] \<and> list_all (\<lambda>c. \<not> vct_issp c \<and> \<not> vct_isctl c) req \<and>
     url \<noteq> [] \<and> list_all (\<lambda>c. \<not> vct_issp c \<and> \<not> vct_isctl c) url \<and>
     proto \<noteq> [] \<and> list_all (\<lambda>c. \<not> vct_issp c \<and> \<not> vct_isctl c) proto"

lemma not_ctl: "\<not> vct_isctl c \<Longrightarrow> \<not> vct_iscrlf c" "\<not> vct_isctl (CHR '' '')"
  by (auto simp: vct_classes)

lemma splitline_scans:
  assumes "req_line req url proto" and "m = req @ '' '' @ url @ '' '' @ proto @ crlf @ rest"
  shows "scan_until (\<lambda>c. \<not> vct_islws c) (\<lambda>_. True) m 0 = Some (Some 0)"
    and "scan_until vct_issp (\<lambda>c. \<not> vct_isctl c) m 0 = Some (Some (length req))"
    and "scan_until (\<lambda>c. \<not> vct_issp c) (\<lambda>c. \<not> vct_isctl c) m (length req) = Some (Some (length req + 1))"
    and "scan_until vct_islws (\<lambda>c. \<not> vct_isctl c) m (length req + 1) = Some (Some (length req + 1 + length url))"
    and "scan_until (\<lambda>c. \<not> vct_issp c) (\<lambda>c. \<not> vct_isctl c) m (length req + 1 + length url) =
      Some (Some (length req + length url + 2))"
    and "scan_until vct_iscrlf (\<lambda>c. vct_issep c \<or> \<not> vct_isctl c) m (length req + length url + 2) =
      Some (Some (length req + length url + 2 + length proto))"
proof -
  note sp = crlf_chars not_ctl
  have ok: "req \<noteq> []" "list_all (\<lambda>c. \<not> vct_issp c \<and> \<not> vct_isctl c) req" "url \<noteq> []"
      "list_all (\<lambda>c. \<not> vct_issp c \<and> \<not> vct_isctl c) url" "proto \<noteq> []"
      "list_all (\<lambda>c. \<not> vct_issp c \<and> \<not> vct_isctl c) proto"
    using assms(1) by (simp_all add: req_line_def)
  obtain r1 rs where r: "req = r1 # rs" "\<not> vct_islws r1" using ok(1,2) not_ctl(1) by (cases req) (auto simp: vct_classes(3))
  obtain u1 us where u: "url = u1 # us" "\<not> vct_issp u1" using ok(3,4) by (cases url) auto
  obtain p1 ps where p: "proto = p1 # ps" "\<not> vct_issp p1" using ok(5,6) by (cases proto) auto
  have lws: "list_all (\<lambda>c. \<not> vct_islws c \<and> \<not> vct_isctl c) url"
    using ok(4) not_ctl(1) by (auto simp: list_all_iff vct_classes(3))
  have pr: "list_all (\<lambda>c. \<not> vct_iscrlf c \<and> (vct_issep c \<or> \<not> vct_isctl c)) proto"
    using ok(6) not_ctl(1) by (auto simp: list_all_iff)
  show "scan_until (\<lambda>c. \<not> vct_islws c) (\<lambda>_. True) m 0 = Some (Some 0)"
    using scan_until_stops [of "\<lambda>c. \<not> vct_islws c" "\<lambda>_. True" "[]" r1 "[]"] r by (simp add: assms(2))
  show "scan_until vct_issp (\<lambda>c. \<not> vct_isctl c) m 0 = Some (Some (length req))"
    using scan_until_stops [OF ok(2), where pre = "[]" and c = "CHR '' ''"] by (simp add: assms(2) sp)
  show "scan_until (\<lambda>c. \<not> vct_issp c) (\<lambda>c. \<not> vct_isctl c) m (length req) = Some (Some (length req + 1))"
    using scan_until_stops [of "\<lambda>c. \<not> vct_issp c" "\<lambda>c. \<not> vct_isctl c" "'' ''" u1 req] u by (simp add: assms(2) sp)
  show "scan_until vct_islws (\<lambda>c. \<not> vct_isctl c) m (length req + 1) = Some (Some (length req + 1 + length url))"
    using scan_until_stops [OF lws, where pre = "req @ '' ''" and c = "CHR '' ''"] by (simp add: assms(2) sp)
  show "scan_until (\<lambda>c. \<not> vct_issp c) (\<lambda>c. \<not> vct_isctl c) m (length req + 1 + length url) =
      Some (Some (length req + length url + 2))"
    using scan_until_stops [of "\<lambda>c. \<not> vct_issp c" "\<lambda>c. \<not> vct_isctl c" "'' ''" p1 "req @ '' '' @ url"] p
    by (simp add: assms(2) sp)
  show "scan_until vct_iscrlf (\<lambda>c. vct_issep c \<or> \<not> vct_isctl c) m (length req + length url + 2) =
      Some (Some (length req + length url + 2 + length proto))"
    using scan_until_stops [OF pr, where pre = "req @ '' '' @ url @ '' ''" and c = "CHR 0x0d"]
    by (simp add: assms(2) sp crlf_def)
qed

lemma splitline_request:
  assumes "req_line req url proto" and "rx_base htc \<noteq> NULL" and "HTTP_HDR_FIRST \<le> h_shd hp"
    and "m = req @ '' '' @ url @ '' '' @ proto @ crlf @ rest"
    and "m' = req @ [NUL] @ url @ [NUL] @ proto @ [NUL, CHR 0x0a]"
  shows "http_splitline htc m hp HTTP_HDR_REQ HTTP_HDR_URL HTTP_HDR_PROTO =
    http_dissect_hdrs htc (m' @ rest)
      (hp\<lparr>h_hd := (h_hd hp)[0 := mtxt (rx_base htc) m 0 (length req),
           1 := mtxt (rx_base htc) m (length req + 1) (length req + 1 + length url),
           2 := mtxt (rx_base htc) m (length req + length url + 2) (length req + length url + 2 + length proto)]\<rparr>)
      (length m')"
proof -
  have e: "drop (length req + length url + 2 + length proto) m = crlf @ rest" by (simp add: assms(4))
  have skip: "vct_skipcrlf (drop (length req + length url + 2 + length proto) m) = 2"
    unfolding e by (simp add: crlf_def vct_skipcrlf_def)
  have "wr m (length req) NUL = Some (req @ [NUL] @ url @ '' '' @ proto @ crlf @ rest)"
    by (simp add: wr_def assms(4) list_update_append)
  moreover have "wr (req @ [NUL] @ url @ '' '' @ proto @ crlf @ rest) (length req + 1 + length url) NUL =
      Some (req @ [NUL] @ url @ [NUL] @ proto @ crlf @ rest)"
    by (simp add: wr_def list_update_append)
  moreover have "wr (req @ [NUL] @ url @ [NUL] @ proto @ crlf @ rest) (length req + length url + 2 + length proto) NUL =
      Some (m' @ rest)"
    by (simp add: wr_def assms(5) list_update_append crlf_def)
  moreover have "length m' = length req + length url + 2 + length proto + 2" by (simp add: assms(5))
  moreover have "url \<noteq> []" using assms(1) by (simp add: req_line_def)
  ultimately show ?thesis
    using splitline_scans [OF assms(1,4)] assms(2,3) skip
    by (auto simp: http_splitline_def or400_def set_txt_def http_hdr_defs Let_def)
qed

lemma dissect_hdrs_lines:
  assumes "list_all (\<lambda>s. hdr_line s \<and> length s \<le> htc_maxhdr htc) ls" and "length (h_hdf hp) = h_shd hp"
    and "HTTP_HDR_FIRST + length ls \<le> h_shd hp"
    and "rx_e htc = length pre + length (hdr_block ls)" and "unat (rx_base htc) + rx_e htc < 2 ^ 64" and "rx_base htc \<noteq> NULL"
  shows "\<exists>m' hp'. http_dissect_hdrs htc (pre @ hdr_block ls @ rest) hp (length pre) = Some (m', hp', 0) \<and>
      http_full hp' \<and> h_lines hp' = ls \<and> take HTTP_HDR_FIRST (h_hd hp') = take HTTP_HDR_FIRST (h_hd hp)"
proof -
  let ?hp = "hp\<lparr>h_nhd := HTTP_HDR_FIRST, h_conds := 0\<rparr>"
  have hp: "http_full ?hp" "h_lines ?hp = []" "h_nhd ?hp = HTTP_HDR_FIRST"
    using assms(2,3) by (simp_all add: http_full_def http_ok_def h_slots_def h_lines_def)
  show ?thesis
  proof (cases ls)
    case Nil
    let ?m = "(pre @ [CHR 0x0d]) @ CHR 0x0a # rest"
    have e: "rx_e htc = length pre + 2" using assms(4) Nil by simp
    have rd: "rd ?m (length (pre @ [CHR 0x0d])) = Some (CHR 0x0a)" by (rule rd_append)
    have "hdr_scan ?m (rx_e htc) (length (pre @ [CHR 0x0d])) (length (pre @ [CHR 0x0d])) =
        Some (?m, length (pre @ [CHR 0x0d]), rx_e htc)"
      using rd e by (subst hdr_scan.simps) (auto simp: vct_skipcrlf_def Let_def split: list.split)
    then have "dissect_loop htc ?m ?hp (length pre + 1) = Some (?m, ?hp, 0)"
      using e by (subst dissect_loop.simps) simp
    then show ?thesis using hp Nil by (simp add: http_dissect_hdrs_def crlf_def)
  next
    case (Cons s ls')
    have c: "s \<noteq> []" "\<not> vct_iscrlf (List.hd s)" using assms(1) Cons by (auto simp: hdr_line_def list_all_iff)
    then have "rd (pre @ hdr_block ls @ rest) (length pre) = Some (List.hd s)" "List.hd s \<noteq> CHR 0x0d"
      using Cons by (auto simp: rd_def nth_append hd_conv_nth)
    then have "http_dissect_hdrs htc (pre @ hdr_block ls @ rest) hp (length pre) =
        dissect_loop htc (pre @ hdr_block ls @ rest) ?hp (length pre)" by (simp add: http_dissect_hdrs_def)
    then show ?thesis using dissect_loop_lines [OF assms(1) hp(1) _ assms(4-6), of rest] assms(3) hp(2,3) by simp
  qed
qed

lemma take3_updates: "3 \<le> length xs \<Longrightarrow> take 3 (xs[0 := a, 1 := b, 2 := c]) = [a, b, c]"
  by (cases xs; cases "tl xs"; cases "tl (tl xs)") (auto simp: numeral_eq_Suc)

lemma DissectRequest_lines:
  assumes "req_line req url proto" and "out = req @ '' '' @ url @ '' '' @ proto @ crlf @ hdr_block ls"
    and "list_all (\<lambda>s. hdr_line s \<and> length s \<le> maxhdr) ls"
    and "length (h_hdf to) = h_shd to" and "HTTP_HDR_FIRST + length ls \<le> h_shd to"
    and "base \<noteq> NULL" and "unat base + length out < 2 ^ 64"
  shows "\<exists>m' to'. http_DissectRequest \<lparr>rx_base = base, rx_e = length out, htc_maxhdr = maxhdr\<rparr> (out @ pipelined) to = Some (m', to', 0) \<and>
        http_full to' \<and> h_lines to' = ls \<and> map t_s (take 3 (h_hd to')) = [req, url, proto]"
proof -
  let ?htc = "\<lparr>rx_base = base, rx_e = length out, htc_maxhdr = maxhdr\<rparr>"
  let ?m = "req @ '' '' @ url @ '' '' @ proto @ crlf @ (hdr_block ls @ pipelined)"
  let ?m' = "req @ [NUL] @ url @ [NUL] @ proto @ [NUL, CHR 0x0a]"
  let ?lr = "length req" and ?lu = "length url" and ?lp = "length proto"
  let ?to = "to\<lparr>h_logtag := HTTP_Rx\<rparr>"
  let ?to1 = "?to\<lparr>h_hd := (h_hd ?to)[0 := mtxt base ?m 0 ?lr, 1 := mtxt base ?m (?lr + 1) (?lr + 1 + ?lu),
         2 := mtxt base ?m (?lr + ?lu + 2) (?lr + ?lu + 2 + ?lp)]\<rparr>"
  have sz: "HTTP_HDR_FIRST \<le> h_shd to" "3 \<le> h_shd to" using assms(5) by (simp_all add: HTTP_HDR_FIRST_def)
  have split: "http_splitline ?htc ?m ?to HTTP_HDR_REQ HTTP_HDR_URL HTTP_HDR_PROTO =
      http_dissect_hdrs ?htc (?m' @ hdr_block ls @ pipelined) ?to1 (length ?m')"
    using splitline_request [OF assms(1), of ?htc ?to ?m "hdr_block ls @ pipelined" ?m'] assms(6) sz(1) by simp
  obtain m' to' where to': "http_dissect_hdrs ?htc (?m' @ hdr_block ls @ pipelined) ?to1 (length ?m') = Some (m', to', 0)"
      "http_full to'" "h_lines to' = ls" "take HTTP_HDR_FIRST (h_hd to') = take HTTP_HDR_FIRST (h_hd ?to1)"
    using dissect_hdrs_lines [of ?htc ls ?to1 ?m' pipelined] assms(2-7) by auto
  have "take 3 (h_hd to') = take 3 (h_hd ?to1)" using arg_cong [OF to'(4), of "take 3"] by (simp add: HTTP_HDR_FIRST_def)
  then have m3: "map t_s (take 3 (h_hd to')) = [req, url, proto]"
    using take3_updates [OF sz(2)] by (simp add: mtxt_def)
  have "h_shd to' \<ge> 5" using to'(2) by (auto simp: http_full_def http_ok_def HTTP_HDR_FIRST_def)
  then obtain v where "http_ProtoVer to' = Some (to'\<lparr>h_protover := v\<rparr>)"
    by (auto simp: http_ProtoVer_def hd_at_def HTTP_HDR_PROTO_def)
  then show ?thesis
    using split to' m3 assms(2) by (simp add: http_DissectRequest_def http_full_def http_ok_def h_slots_def h_lines_def)
qed

text \<open>
  C13: what \<open>http_Write\<close> sends for a request with a well-formed first line and well-formed header lines of
  at most \<open>maxhdr\<close> bytes is a request that \<open>http_DissectRequest\<close> accepts into a message with enough slots, whatever was pipelined
  behind it, and taking it apart gives back the
  same method, URL, protocol and header lines in the same order.
\<close>
theorem http_Write_DissectRequest:
  assumes "http_full hp" and "list_all (\<lambda>t. t_b t \<noteq> NULL) (take 3 (h_hd hp))"
    and "req_line (t_s (h_hd hp ! 0)) (t_s (h_hd hp ! 1)) (t_s (h_hd hp ! 2))"
    and "list_all (\<lambda>s. hdr_line s \<and> length s \<le> maxhdr) (h_lines hp)"
    and "length (h_hdf to) = h_shd to" and "HTTP_HDR_FIRST + length (h_lines hp) \<le> h_shd to"
  shows "\<exists>out. http_Write w hp False = Some (w, hp, out) \<and>
    (\<forall>base pipelined. base \<noteq> NULL \<and> unat base + length out < 2 ^ 64 \<longrightarrow>
      (\<exists>m' to'. http_DissectRequest \<lparr>rx_base = base, rx_e = length out, htc_maxhdr = maxhdr\<rparr> (out @ pipelined) to = Some (m', to', 0) \<and>
        http_full to' \<and> h_lines to' = h_lines hp \<and>
        map t_s (take 3 (h_hd to')) = map t_s (take 3 (h_hd hp))))"
proof -
  let ?out = "t_s (h_hd hp ! 0) @ '' '' @ t_s (h_hd hp ! 1) @ '' '' @ t_s (h_hd hp ! 2) @ crlf @ hdr_block (h_lines hp)"
  have ok: "HTTP_HDR_FIRST \<le> h_nhd hp" "h_nhd hp \<le> h_shd hp" "list_all (\<lambda>t. t_b t \<noteq> NULL) (h_slots hp)"
    using assms(1) by (simp_all add: http_full_def http_ok_def)
  then have big: "5 \<le> h_shd hp" by (simp add: HTTP_HDR_FIRST_def)
  then have t3: "take 3 (h_hd hp) = [h_hd hp ! 0, h_hd hp ! 1, h_hd hp ! 2]"
    by (intro nth_equalityI) (auto simp: less_Suc_eq numeral_eq_Suc)
  have "write_loop hp [HTTP_HDR_FIRST..<h_nhd hp] = Some (concat (map (\<lambda>s. s @ crlf) (h_lines hp)))"
    using write_loop_lines [OF ok(1,2)] ok(3) by (simp add: h_slots_def h_lines_def comp_def)
  then have w: "http_Write w hp False = Some (w, hp, ?out)"
    using big assms(2) by (auto simp: http_Write_def hd_at_def http_hdr_defs WRW_WriteH_def t3 hdr_block_def crlf_def)
  then show ?thesis
    using DissectRequest_lines [OF assms(3) refl assms(4-6)] by (intro exI [of _ ?out]) (simp add: t3)
qed

theorem http_Write_DissectRequest_witness:
  "\<exists>out m' to'. http_Write ws_example http_ex False = Some (ws_example, http_ex, out) \<and>
     http_DissectRequest \<lparr>rx_base = 4096, rx_e = length out, htc_maxhdr = 8\<rparr> (out @ [NUL]) (http_blank 8) =
       Some (m', to', 0) \<and> h_lines to' = [''Host: a'', ''X-A: 1'', ''x-a: 2'']"
proof -
  let ?out = "''GET / HTTP/1.1'' @ crlf @ ''Host: a'' @ crlf @ ''X-A: 1'' @ crlf @ ''x-a: 2'' @ crlf @ crlf"
  have w: "http_Write ws_example http_ex False = Some (ws_example, http_ex, ?out)"
    by (simp add: http_Write_def http_ex_def hd_at_def http_hdr_defs WRW_WriteH_def lit_def crlf_def upt_rec)
  have "list_all (\<lambda>s. hdr_line s \<and> length s \<le> 8) (h_lines http_ex)"
    by (simp add: http_ex_lines hdr_line_def vct_classes)
  moreover have "req_line (t_s (h_hd http_ex ! 0)) (t_s (h_hd http_ex ! 1)) (t_s (h_hd http_ex ! 2))"
    by (simp add: http_ex_def lit_def req_line_def vct_classes)
  moreover have "list_all (\<lambda>t. t_b t \<noteq> NULL) (take 3 (h_hd http_ex))" by (simp add: http_ex_def lit_def)
  moreover have "HTTP_HDR_FIRST + length (h_lines http_ex) \<le> h_shd (http_blank 8)"
    by (simp add: http_ex_lines HTTP_HDR_FIRST_def http_blank_def)
  moreover have "length (h_hdf (http_blank 8)) = h_shd (http_blank 8)"
    by (simp add: http_blank_def)
  ultimately obtain out where out: "http_Write ws_example http_ex False = Some (ws_example, http_ex, out)"
    "\<forall>base pipelined. base \<noteq> NULL \<and> unat base + length out < 2 ^ 64 \<longrightarrow>
      (\<exists>m' to'. http_DissectRequest \<lparr>rx_base = base, rx_e = length out, htc_maxhdr = 8\<rparr> (out @ pipelined) (http_blank 8) = Some (m', to', 0) \<and>
        http_full to' \<and> h_lines to' = h_lines http_ex \<and> map t_s (take 3 (h_hd to')) = map t_s (take 3 (h_hd http_ex)))"
    using http_Write_DissectRequest [OF http_ex_full, of 8 "http_blank 8" ws_example] by blast
  have "length out < 100" using w out(1) by (simp add: crlf_def)
  then have "(4096 :: u64) \<noteq> NULL \<and> unat (4096 :: u64) + length out < 2 ^ 64" by simp
  then show ?thesis using out http_ex_lines(1) by metis
qed

subsection \<open>The parser stays inside the buffer\<close>

definition nul_at_end :: "char list \<Rightarrow> bool" where
  "nul_at_end m \<longleftrightarrow> m \<noteq> [] \<and> m ! (length m - 1) = NUL"

lemma nul_chars [simp]: "\<not> vct_islws NUL" "\<not> vct_issp NUL" "\<not> vct_iscrlf NUL" "vct_isctl NUL"
  by (simp_all add: vct_classes)

lemma nul_not_sep [simp]: "\<not> vct_issep NUL"
  by (simp add: vct_issep_def vct_is_def vct_typtab_def VCT_SEPARATOR_def)

lemma nul_last: "nul_at_end m \<Longrightarrow> p < length m \<Longrightarrow> m ! p \<noteq> NUL \<Longrightarrow> Suc p < length m"
  by (cases "p = length m - 1") (auto simp: nul_at_end_def)

lemma nul_update [simp]: "nul_at_end m \<Longrightarrow> Suc q < length m \<or> c = NUL \<Longrightarrow> nul_at_end (m[q := c])"
proof (cases "q < length m")
  case True
  assume "nul_at_end m" "Suc q < length m \<or> c = NUL"
  then show ?thesis using True by (auto simp: nul_at_end_def nth_list_update)
qed (simp add: list_update_beyond)

lemma scan_until_total:
  assumes "nul_at_end m" and "p < length m" and "stop NUL \<or> \<not> ok NUL"
  shows "\<exists>r. scan_until stop ok m p = Some r \<and> (\<forall>q. r = Some q \<longrightarrow> p \<le> q \<and> q < length m \<and> stop (m ! q))"
  using assms(2)
proof (induction "length m - p" arbitrary: p rule: less_induct)
  case less
  have rd: "rd m p = Some (m ! p)" using less.prems by (simp add: rd_def)
  show ?case
  proof (cases "stop (m ! p) \<or> \<not> ok (m ! p)")
    case True
    then show ?thesis using rd less.prems by (auto simp: scan_until.simps [of stop ok m p])
  next
    case False
    then have "Suc p < length m" using nul_last [OF assms(1) less.prems] assms(3) by metis
    then obtain r where "scan_until stop ok m (Suc p) = Some r" "\<forall>q. r = Some q \<longrightarrow> Suc p \<le> q \<and> q < length m \<and> stop (m ! q)"
      using less.hyps [of "Suc p"] less.prems by (metis diff_less_mono2 lessI)
    then show ?thesis using rd False by (auto simp: scan_until.simps [of stop ok m p])
  qed
qed

lemma clear_lws_total:
  assumes "nul_at_end m" and "q < length m"
  shows "\<exists>m' q'. clear_lws m q = Some (m', q') \<and> nul_at_end m' \<and> length m' = length m \<and> q \<le> q' \<and> q' < length m"
  using assms
proof (induction "length m - q" arbitrary: m q rule: less_induct)
  case less
  have rd: "rd m q = Some (m ! q)" using less.prems by (simp add: rd_def)
  show ?case
  proof (cases "vct_islws (m ! q)")
    case False
    then show ?thesis using rd less.prems by (auto simp: clear_lws.simps [of m q])
  next
    case True
    then have s: "Suc q < length m" using nul_last [OF less.prems] nul_chars(1) by metis
    then show ?thesis
      using less.hyps [of "m[q := CHR '' '']" "Suc q"] less.prems rd True by (fastforce simp: clear_lws.simps [of m q])
  qed
qed

lemma hdr_scan_total:
  assumes "nul_at_end m" and "e < length m" and "q < length m"
  shows "\<exists>m' q' r'. hdr_scan m e q r = Some (m', q', r') \<and> nul_at_end m' \<and> length m' = length m \<and> q' < length m"
  using assms
proof (induction "e - r" arbitrary: m q r rule: less_induct)
  case less
  show ?case
  proof (cases "r < e")
    case False
    then show ?thesis using less.prems by (simp add: hdr_scan.simps [of m e q r])
  next
    case re: True
    have rd: "rd m r = Some (m ! r)" using re less.prems by (simp add: rd_def)
    let ?r = "r + vct_skipcrlf (drop r m)"
    show ?thesis
    proof (cases "vct_iscrlf (m ! r)")
      case False
      then show ?thesis using less.hyps [of "Suc r" m q] less.prems re rd by (simp add: hdr_scan.simps [of m e q r])
    next
      case True
      obtain m1 q1 where m1: "clear_lws m r = Some (m1, q1)" "nul_at_end m1" "length m1 = length m" "q1 < length m"
        using clear_lws_total [OF less.prems(1), of r] re less.prems(2) by auto
      have "?r < e \<Longrightarrow> \<exists>m' q' r'. hdr_scan m1 e q1 ?r = Some (m', q', r') \<and> nul_at_end m' \<and> length m' = length m1 \<and> q' < length m1"
        using less.hyps [of ?r m1 q1] m1 less.prems(2) re by (simp add: diff_less_mono2)
      then show ?thesis
        using m1 re rd True less.prems by (auto simp: hdr_scan.simps [of m e q r] Let_def rd_def)
    qed
  qed
qed

lemma is_cond_total:
  assumes "nul_at_end m" and "p < length m"
  shows "\<exists>b. is_cond m p = Some b"
proof -
  have "Suc p < length m" if "m ! p = CHR ''i'' \<or> m ! p = CHR ''I''" using nul_last [OF assms] that by auto
  moreover have "Suc (Suc p) < length m" if "Suc p < length m" "m ! Suc p = CHR ''f'' \<or> m ! Suc p = CHR ''F''"
    using nul_last [OF assms(1) that(1)] that(2) by auto
  ultimately show ?thesis using assms(2) by (auto simp: is_cond_def rd_def)
qed

lemma trim_sp_le: "trim_sp m p q \<le> q"
  by (induction q) auto

lemma dissect_loop_total:
  assumes "nul_at_end m" and "rx_e htc < length m" and "http_ok hp"
  shows "\<exists>m' hp' r. dissect_loop htc m hp p = Some (m', hp', r) \<and> http_ok hp' \<and> h_shd hp' = h_shd hp \<and> r \<in> {0, 413}"
  using assms
proof (induction "rx_e htc - p" arbitrary: m hp p rule: less_induct)
  case less
  show ?case
  proof (cases "p < rx_e htc")
    case False
    then show ?thesis using less.prems by (simp add: dissect_loop.simps [of htc m hp p])
  next
    case pe: True
    then obtain m1 q r where s: "hdr_scan m (rx_e htc) p p = Some (m1, q, r)" "nul_at_end m1" "length m1 = length m" "q < length m"
      using hdr_scan_total [OF less.prems(1,2), of p p] less.prems(2) by auto
    have pr: "p < r" using hdr_scan_advances [OF s(1) pe] .
    obtain b where b: "is_cond m1 p = Some b" using is_cond_total [OF s(2), of p] pe less.prems(2) s(3) by auto
    let ?hp = "if b then hp\<lparr>h_conds := 1\<rparr> else hp"
    let ?q = "trim_sp m1 p q"
    let ?m = "m1[?q := NUL]"
    have q: "?q < length m1" using trim_sp_le [of m1 p q] s(3,4) by linarith
    have hp: "http_ok ?hp" "h_shd ?hp = h_shd hp" using less.prems(3) by (simp_all add: http_ok_def)
    let ?hp' = "?hp\<lparr>h_hd := (h_hd ?hp)[h_nhd ?hp := mtxt (rx_base htc) ?m p ?q],
        h_hdf := (h_hdf ?hp)[h_nhd ?hp := 0], h_nhd := h_nhd ?hp + 1\<rparr>"
    have "h_nhd ?hp < h_shd ?hp \<Longrightarrow> http_ok ?hp'" using hp by (simp add: http_ok_def)
    then have "h_nhd ?hp < h_shd ?hp \<Longrightarrow> \<exists>m' hp' k. dissect_loop htc ?m ?hp' r = Some (m', hp', k) \<and> http_ok hp' \<and>
        h_shd hp' = h_shd ?hp' \<and> k \<in> {0, 413}"
      using less.hyps [of r ?m ?hp'] s(2,3) pr pe less.prems(2) q by simp
    then show ?thesis
      using s(1) pe b q hp less.prems(3) by (auto simp: dissect_loop.simps [of htc m hp p] Let_def wr_def set_hd_def)
  qed
qed

text \<open>What every dissection ends with: a result, and a message whose slots are in order.\<close>

definition dissected :: "nat \<Rightarrow> (char list \<times> http \<times> nat) option \<Rightarrow> bool" where
  "dissected shd x \<longleftrightarrow> (\<exists>m hp r. x = Some (m, hp, r) \<and> http_ok hp \<and> h_shd hp = shd \<and> r \<in> {0, 400, 413})"

lemma scan_then:
  assumes "nul_at_end m" and "p < length m" and "stop NUL \<or> \<not> ok NUL" and "http_ok hp"
    and "\<And>q. p \<le> q \<Longrightarrow> q < length m \<Longrightarrow> stop (m ! q) \<Longrightarrow> dissected (h_shd hp) (f q)"
  shows "dissected (h_shd hp) (do { r \<leftarrow> scan_until stop ok m p; or400 m hp r f })"
proof -
  obtain r where r: "scan_until stop ok m p = Some r" "\<forall>q. r = Some q \<longrightarrow> p \<le> q \<and> q < length m \<and> stop (m ! q)"
    using scan_until_total [OF assms(1,2), of stop ok] assms(3) by blast
  show ?thesis
  proof (cases r)
    case None
    then show ?thesis using r assms(4) by (simp add: or400_def dissected_def)
  next
    case (Some q)
    then show ?thesis using r assms(5) by (simp add: or400_def)
  qed
qed

lemma set_txt_then:
  assumes "u < h_shd hp" and "http_ok hp"
    and "\<And>hp'. http_ok hp' \<Longrightarrow> h_shd hp' = h_shd hp \<Longrightarrow> dissected (h_shd hp') (f hp')"
  shows "dissected (h_shd hp) (do { hp \<leftarrow> set_txt hp u t; f hp })"
  using assms(1,2) assms(3) [of "hp\<lparr>h_hd := (h_hd hp)[u := t]\<rparr>"] by (simp add: set_txt_def http_ok_def)

lemma http_dissect_hdrs_total:
  assumes "nul_at_end m" and "rx_e htc < length m" and "http_ok hp" and "p < length m" and "n = h_shd hp"
  shows "dissected n (http_dissect_hdrs htc m hp p)"
proof -
  have "http_ok (hp\<lparr>h_nhd := HTTP_HDR_FIRST, h_conds := 0\<rparr>)" using assms(3) by (simp add: http_ok_def)
  then show ?thesis
    using dissect_loop_total [OF assms(1,2), of "hp\<lparr>h_nhd := HTTP_HDR_FIRST, h_conds := 0\<rparr>"] assms(4,5)
    by (fastforce simp: http_dissect_hdrs_def dissected_def rd_def)
qed

lemma skipcrlf_inside:
  assumes "nul_at_end m" and "p < length m" and "vct_iscrlf (m ! p)"
  shows "p + vct_skipcrlf (drop p m) < length m"
proof -
  have s: "Suc p < length m" using nul_last [OF assms(1,2)] assms(3) nul_chars(3) by metis
  then have "drop p m = m ! p # m ! Suc p # drop (Suc (Suc p)) m" by (simp add: Cons_nth_drop_Suc)
  moreover have "Suc (Suc p) < length m" if "m ! Suc p = CHR 0x0a" using nul_last [OF assms(1) s] that by simp
  ultimately show ?thesis using s by (auto simp: vct_skipcrlf_def)
qed

lemma http_splitline_total:
  assumes "nul_at_end m" and "rx_e htc < length m" and "http_ok hp" and "rx_base htc \<noteq> NULL"
    and "h1 < HTTP_HDR_FIRST" "h2 < HTTP_HDR_FIRST" "h3 < HTTP_HDR_FIRST"
  shows "dissected (h_shd hp) (http_splitline htc m hp h1 h2 h3)"
proof -
  have small: "h < h_shd hp'" if "http_ok hp'" "h < HTTP_HDR_FIRST" for h hp' using that by (auto simp: http_ok_def)
  have p0: "0 < length m" using assms(1) by (simp add: nul_at_end_def)
  show ?thesis
    unfolding http_splitline_def using assms(4)
    apply (simp add: assert_c_def)
    apply (rule scan_then [OF assms(1) p0 _ assms(3)], simp)
    apply (rule scan_then [OF assms(1) _ _ assms(3)], assumption, simp)
    apply (rule set_txt_then [OF small [OF assms(3,5)] assms(3)])
    apply (rule scan_then [OF assms(1)], assumption, simp, assumption)
    apply (rule scan_then [OF assms(1)], assumption, simp, assumption)
    apply (rule set_txt_then, erule small [OF _ assms(6)], assumption)
    apply (rule if_split [THEN iffD2], intro conjI impI)
     apply (simp add: dissected_def)
    apply (rule scan_then [OF assms(1)], assumption, simp, assumption)
    apply (rule scan_then [OF assms(1)], assumption, simp, assumption)
    apply (rule set_txt_then, erule small [OF _ assms(7)], assumption)
    apply (simp add: Let_def wr_def)
    apply (rule http_dissect_hdrs_total)
       apply (simp_all add: assms(1,2) skipcrlf_inside)
    done
qed

lemma DissectRequest_total:
  assumes "nul_at_end m" and "rx_e htc < length m" and "rx_base htc \<noteq> NULL" and "http_ok hp"
  shows "\<exists>m' hp' r. http_DissectRequest htc m hp = Some (m', hp', r) \<and> http_ok hp' \<and> r \<in> {0, 400, 413}"
proof -
  have "http_ok (hp\<lparr>h_logtag := HTTP_Rx\<rparr>)" using assms(4) by (simp add: http_ok_def)
  then obtain m' hp' r where "http_splitline htc m (hp\<lparr>h_logtag := HTTP_Rx\<rparr>) HTTP_HDR_REQ HTTP_HDR_URL HTTP_HDR_PROTO = Some (m', hp', r)"
    "http_ok hp'" "r \<in> {0, 400, 413}"
    using http_splitline_total [OF assms(1,2) _ assms(3), of _ HTTP_HDR_REQ HTTP_HDR_URL HTTP_HDR_PROTO]
    by (force simp: dissected_def http_hdr_defs)
  then show ?thesis
    by (auto simp: http_DissectRequest_def http_ProtoVer_def hd_at_def http_ok_def http_hdr_defs)
qed

text \<open>
  C8: taking a received request apart always ends with a verdict and
  never reads or writes outside the received bytes and their NUL, whatever they are; the verdict is 0,
  400 or 413 and the message stays well formed.
\<close>
theorem http_DissectRequest_safe:
  assumes "nul_at_end m" and "rx_e htc < length m" and "rx_base htc \<noteq> NULL" and "http_ok hp"
  shows "\<exists>m' hp' r. http_DissectRequest htc m hp = Some (m', hp', r) \<and> http_ok hp' \<and> r \<in> {0, 400, 413}"
  by (rule DissectRequest_total [OF assms])

theorem http_DissectRequest_safe_witness:
  "\<exists>m' hp' r. http_DissectRequest \<lparr>rx_base = 4096, rx_e = 8, htc_maxhdr = 8\<rparr> (''GET  / :'' @ [NUL]) (http_Setup (http_blank 8)) =
     Some (m', hp', r) \<and> http_ok hp' \<and> r \<in> {0, 400, 413}"
proof (rule http_DissectRequest_safe)
  show "nul_at_end (''GET  / :'' @ [NUL])" by (simp add: nul_at_end_def)
  show "http_ok (http_Setup (http_blank 8))"
    by (simp add: http_ok_def http_Setup_def http_blank_def HTTP_HDR_FIRST_def)
qed simp_all

subsection \<open>Two inputs the parser gets wrong\<close>

text \<open>
  A continuation line of white space only swallows the header after it: the clearing loop runs over
  the line end that follows, so the next header becomes part of the value.
\<close>

lemma continuation_swallows_header:
  "map_option (\<lambda>(m, hp, r). (h_lines hp, r))
     (http_DissectRequest \<lparr>rx_base = 4096, rx_e = 33, htc_maxhdr = 100\<rparr>
        (''GET / HTTP/1.1'' @ crlf @ ''A: b'' @ crlf @ '' '' @ crlf @ ''C: d'' @ crlf @ crlf @ [NUL])
        (http_Setup (http_blank 8))) = Some ([''A: b     C: d''], 0)"
  by code_simp

text \<open>A backend that sends a status below 100 and no reason runs into an assertion.\<close>

lemma low_status_panics:
  "http_DissectResponse \<lparr>rx_base = 4096, rx_e = 17, htc_maxhdr = 100\<rparr>
     (''HTTP/1.1 099 '' @ crlf @ crlf @ [NUL]) (http_Setup (http_blank 8)) = None"
  by code_simp

end
