(* ===== verification/Http_Conn.thy ===== *)
theory Http_Conn
  imports Http_Parse
begin

text \<open>
  Receiving HTTP messages, \<^verbatim>\<open>bin/varnishd/cache_httpconn.c\<close>: collecting bytes until a header is
  complete, keeping what was pipelined behind it, and handing the header to the parser.

  \<open>c_mem\<close> is the memory from \<open>rxbuf.b\<close> to the end of the reservation, \<open>c_e\<close> and \<open>c_pipe\<close> are \<open>rxbuf.e\<close> and the ends of
  \<open>pipeline\<close> as offsets into it, with \<open>None\<close> for the \<open>NULL\<close> pointers; every read and write of it is checked. What a call
  of \<open>read(2)\<close> delivers is an argument: the bytes the socket has, of which the call takes as many as there is
  space for; no bytes stands for end of file and for an error. What the reserved memory holds before the connection writes
  to it is an argument too.
\<close>

subsection \<open>State\<close>

record rxconn =
  c_ws :: ws
  c_maxbytes :: u32
  c_maxhdr :: nat
  c_rxb :: u64
  c_mem :: "char list"
  c_e :: nat
  c_pipe :: "(nat \<times> nat) option"

subsection \<open>Operations\<close>

definition isspace :: "char \<Rightarrow> bool" where
  "isspace c \<longleftrightarrow> (of_char c :: nat) \<in> {9 .. 13} \<union> {32}"

text \<open>The loop over line ends: how many characters up to and including the empty line.\<close>

definition skip_cr :: "string \<Rightarrow> string" where
  "skip_cr t = (case t of c # r \<Rightarrow> if c = CHR 0x0d then r else t | [] \<Rightarrow> [])"

function find_end :: "string \<Rightarrow> nat option" where
  "find_end s = (case dropWhile (\<lambda>c. c \<noteq> CHR 0x0a) s of
     [] \<Rightarrow> None
   | _ # t \<Rightarrow>
       (case skip_cr t of
          [] \<Rightarrow> find_end []
        | c # r \<Rightarrow> if c = CHR 0x0a then Some (length s - length r)
                   else map_option (\<lambda>n. length s - length (c # r) + n) (find_end (c # r))))"
  by pat_completeness auto
termination
proof (relation "measure length")
  show "wf (measure (length :: string \<Rightarrow> nat))" by simp
next
  fix s t and x :: char assume a: "dropWhile (\<lambda>c. c \<noteq> CHR 0x0a) s = x # t" "skip_cr t = []"
  then show "([], s) \<in> measure length" by (cases s) auto
next
  fix s t r and x c :: char assume a: "dropWhile (\<lambda>c. c \<noteq> CHR 0x0a) s = x # t" "skip_cr t = c # r"
  then have "length (c # r) \<le> length t" by (auto simp: skip_cr_def split: list.splits if_splits)
  also have "\<dots> < length (dropWhile (\<lambda>c. c \<noteq> CHR 0x0a) s)" using a by simp
  also have "\<dots> \<le> length s" by (rule length_dropWhile_le)
  finally show "(c # r, s) \<in> measure length" by simp
qed

declare find_end.simps [simp del]

text \<open>Many bytes at once; \<open>None\<close> when they do not fit.\<close>

definition blit :: "char list \<Rightarrow> nat \<Rightarrow> char list \<Rightarrow> char list option" where
  "blit m i d = (if i + length d \<le> length m then Some (take i m @ d @ drop (i + length d) m) else None)"

text \<open>A length as the \<open>int\<close> that the code keeps it in.\<close>

definition c_int :: "u64 \<Rightarrow> int" where
  "c_int x = sint (ucast x :: 32 word)"

text \<open>The memory and the end of the text afterwards, and the length of the complete header, 0 when there is none.\<close>

definition htc_header_complete :: "char list \<Rightarrow> nat \<Rightarrow> (char list \<times> nat \<times> int) option" where
  "htc_header_complete m e = do {
     c \<leftarrow> rd m e;
     assert_c (c = NUL);
     let p = dropWhile isspace (cstr m);
     (if p = [] then do { m \<leftarrow> wr m 0 NUL; Some (m, 0, 0) }
      else case find_end p of
          None \<Rightarrow> Some (m, e, 0)
        | Some n \<Rightarrow> Some (m, e, c_int (of_nat (length (cstr m) - length p + n))))
   }"

definition HTC_Init :: "ws \<Rightarrow> u32 \<Rightarrow> nat \<Rightarrow> char list \<Rightarrow> rxconn option" where
  "HTC_Init w maxbytes maxhdr mem = do {
     (w, _) \<leftarrow> WS_Reserve w maxbytes;
     mem \<leftarrow> wr mem 0 NUL;
     Some \<lparr>c_ws = w, c_maxbytes = maxbytes, c_maxhdr = maxhdr, c_rxb = ws_f w, c_mem = mem, c_e = 0, c_pipe = None\<rparr>
   }"

definition HTC_Complete :: "rxconn \<Rightarrow> (rxconn \<times> bool) option" where
  "HTC_Complete htc = do {
     (m, e, i) \<leftarrow> htc_header_complete (c_mem htc) (c_e htc);
     let htc = htc\<lparr>c_mem := m, c_e := e\<rparr>;
     assert_c (i \<ge> 0);
     (if i = 0 then Some (htc, False)
      else do {
        w \<leftarrow> WS_ReleaseP (c_ws htc) (c_rxb htc + of_nat e);
        let htc = htc\<lparr>c_ws := w\<rparr>;
        Some (if nat i < e then htc\<lparr>c_pipe := Some (nat i, e), c_e := nat i\<rparr> else htc, True)
      })
   }"

definition HTC_Reinit :: "rxconn \<Rightarrow> char list \<Rightarrow> (rxconn \<times> bool) option" where
  "HTC_Reinit htc mem = do {
     (w, _) \<leftarrow> WS_Reserve (c_ws htc) (c_maxbytes htc);
     let piped = (case c_pipe htc of None \<Rightarrow> [] | Some (b, e) \<Rightarrow> take (e - b) (drop b (c_mem htc)));
     mem \<leftarrow> blit mem 0 piped;
     mem \<leftarrow> wr mem (length piped) NUL;
     HTC_Complete (htc\<lparr>c_ws := w, c_rxb := ws_f w, c_mem := mem, c_e := length piped, c_pipe := None\<rparr>)
   }"

datatype rx_result = Rx_Overflow | Rx_Error | Rx_More | Rx_Complete

definition HTC_Rx :: "rxconn \<Rightarrow> string \<Rightarrow> (rxconn \<times> rx_result) option" where
  "HTC_Rx htc data = do {
     assert_c (ws_r (c_ws htc) \<noteq> NULL);
     let i = c_int (ws_r (c_ws htc) - (c_rxb htc + of_nat (c_e htc)) - 1);
     (if i \<le> 0 then do {
        w \<leftarrow> WS_ReleaseP (c_ws htc) (c_rxb htc);
        Some (htc\<lparr>c_ws := w\<rparr>, Rx_Overflow)
      }
      else if take (nat i) data = [] then do {
        w \<leftarrow> WS_ReleaseP (c_ws htc) (c_rxb htc);
        Some (htc\<lparr>c_ws := w\<rparr>, Rx_Error)
      }
      else do {
        let d = take (nat i) data;
        m \<leftarrow> blit (c_mem htc) (c_e htc) d;
        m \<leftarrow> wr m (c_e htc + length d) NUL;
        (htc, fin) \<leftarrow> HTC_Complete (htc\<lparr>c_mem := m, c_e := c_e htc + length d\<rparr>);
        Some (htc, if fin then Rx_Complete else Rx_More)
      })
   }"

text \<open>The bytes copied to \<open>d\<close> and the value returned, -1 for an error of \<open>read\<close>.\<close>

definition HTC_Read :: "rxconn \<Rightarrow> nat \<Rightarrow> string option \<Rightarrow> (rxconn \<times> string \<times> int) option" where
  "HTC_Read htc len data = do {
     let (htc, p) = (case c_pipe htc of
         None \<Rightarrow> (htc, [])
       | Some (b, e) \<Rightarrow>
           let l = min (e - b) len in
           (htc\<lparr>c_pipe := (if b + l = e then None else Some (b + l, e))\<rparr>, take l (drop b (c_mem htc))));
     let len = len - length p;
     (if len = 0 then Some (htc, p, int (length p))
      else (case data of
          None \<Rightarrow> Some (htc, p, - 1)
        | Some d \<Rightarrow> Some (htc, p @ take len d, int (length (p @ take len d)))))
   }"

text \<open>The end of what was received, the bytes received, and the text \<open>rxbuf\<close>.\<close>

definition rx_end :: "rxconn \<Rightarrow> nat" where
  "rx_end htc = (case c_pipe htc of None \<Rightarrow> c_e htc | Some (b, e) \<Rightarrow> e)"

definition rx_bytes :: "rxconn \<Rightarrow> string" where
  "rx_bytes htc = take (rx_end htc) (c_mem htc)"

definition rx_text :: "rxconn \<Rightarrow> string" where
  "rx_text htc = take (c_e htc) (c_mem htc)"

text \<open>What the parser is given: the connection, and the memory from \<open>rxbuf.b\<close> to one byte beyond what was received.\<close>

definition htc_parser :: "rxconn \<Rightarrow> http_conn" where
  "htc_parser htc = \<lparr>rx_base = c_rxb htc, rx_e = c_e htc, htc_maxhdr = c_maxhdr htc\<rparr>"

definition htc_memory :: "rxconn \<Rightarrow> char list" where
  "htc_memory htc = take (Suc (rx_end htc)) (c_mem htc)"

subsection \<open>A header ends at the first empty line\<close>

text \<open>The line feed at position \<open>k\<close> ends an empty line.\<close>

definition blank_at :: "string \<Rightarrow> nat \<Rightarrow> bool" where
  "blank_at s k \<longleftrightarrow> k < length s \<and> s ! k = CHR 0x0a \<and> 1 \<le> k \<and>
     (s ! (k - 1) = CHR 0x0a \<or> 2 \<le> k \<and> s ! (k - 1) = CHR 0x0d \<and> s ! (k - 2) = CHR 0x0a)"

definition line_empty :: "string \<Rightarrow> nat \<Rightarrow> bool" where
  "line_empty t j \<longleftrightarrow> j < length t \<and> t ! j = CHR 0x0a \<and> (j = 0 \<or> j = 1 \<and> t ! 0 = CHR 0x0d)"

lemma blank_at_CR: "blank_at (CHR 0x0d # r) k \<longleftrightarrow> (\<exists>i. k = Suc i \<and> blank_at r i)"
proof (cases k)
  case (Suc i)
  then show ?thesis by (cases i; cases "i - 1") (auto simp: blank_at_def)
qed (simp add: blank_at_def)

lemma blank_at_LF0: "blank_at (CHR 0x0a # t) k \<longleftrightarrow> (\<exists>j. k = Suc j \<and> (line_empty t j \<or> blank_at t j))"
proof (cases k)
  case (Suc i)
  then show ?thesis by (cases i; cases "i - 1") (auto simp: blank_at_def line_empty_def)
qed (simp add: blank_at_def)

lemma blank_at_other:
  assumes "c \<noteq> CHR 0x0a"
  shows "blank_at (c # t) k \<longleftrightarrow> (\<exists>j. k = Suc j \<and> blank_at t j)"
proof (cases k)
  case (Suc i)
  then show ?thesis using assms by (cases i; cases "i - 1") (auto simp: blank_at_def)
qed (simp add: blank_at_def)

lemma blank_at_LF:
  assumes "CHR 0x0a \<notin> set a"
  shows "blank_at (a @ CHR 0x0a # t) k \<longleftrightarrow> (\<exists>j. k = length a + 1 + j \<and> (line_empty t j \<or> blank_at t j))"
  using assms by (induction a arbitrary: k) (auto simp: blank_at_LF0 blank_at_other)

lemma find_end_first:
  "case find_end s of
     None \<Rightarrow> \<forall>k. \<not> blank_at s k
   | Some n \<Rightarrow> 0 < n \<and> blank_at s (n - 1) \<and> (\<forall>k < n - 1. \<not> blank_at s k)"
proof (induction s rule: find_end.induct)
  case (1 s)
  show ?case
  proof (cases "dropWhile (\<lambda>c. c \<noteq> CHR 0x0a) s")
    case Nil
    then have "CHR 0x0a \<notin> set s" by (auto simp: dropWhile_eq_Nil_conv)
    then have "\<not> blank_at s k" for k by (metis blank_at_def nth_mem)
    moreover have "find_end s = None" using Nil by (simp only: find_end.simps [of s] list.case)
    ultimately show ?thesis by simp
  next
    case (Cons x t)
    define a where "a = takeWhile (\<lambda>c. c \<noteq> CHR 0x0a) s"
    have x: "x = CHR 0x0a" using hd_dropWhile [of "\<lambda>c. c \<noteq> CHR 0x0a" s] unfolding Cons by simp
    have s: "s = a @ CHR 0x0a # t" unfolding a_def using Cons x by (metis takeWhile_dropWhile_id)
    have "CHR 0x0a \<notin> set a" unfolding a_def by (auto dest: set_takeWhileD)
    note bl = blank_at_LF [OF this, of t, folded s]
    show ?thesis
    proof (cases "skip_cr t")
      case Nil
      then have "t = [] \<or> t = [CHR 0x0d]" by (auto simp: skip_cr_def split: list.splits if_splits)
      then have "\<not> blank_at s k" for k unfolding bl by (auto simp: line_empty_def blank_at_def)
      moreover have "find_end s = None" using Cons Nil by (simp add: find_end.simps [of s] find_end.simps [of "[]"])
      ultimately show ?thesis by simp
    next
      case sk: (Cons c r)
      define d where "d = length t - length (c # r)"
      have t: "t = c # r \<and> c \<noteq> CHR 0x0d \<and> d = 0 \<or> t = CHR 0x0d # c # r \<and> d = 1"
        using sk unfolding d_def by (auto simp: skip_cr_def split: list.splits if_splits)
      have L: "length s = length a + 1 + d + length (c # r)" using t s by auto
      have fe: "find_end s = (if c = CHR 0x0a then Some (length s - length r)
          else map_option (\<lambda>n. length s - length (c # r) + n) (find_end (c # r)))"
        using Cons sk by (simp add: find_end.simps [of s])
      show ?thesis
      proof (cases "c = CHR 0x0a")
        case True
        have n: "find_end s = Some (length a + 2 + d)" using fe True L by simp
        have "line_empty t d" using t True by (auto simp: line_empty_def)
        then have "blank_at s (length a + 1 + d)" unfolding bl by blast
        moreover have "\<not> blank_at s k" if "k < length a + 1 + d" for k
          unfolding bl using that t True by (auto simp: line_empty_def blank_at_def)
        ultimately show ?thesis using n by simp
      next
        case False
        have n: "find_end s = map_option (\<lambda>n. length a + 1 + d + n) (find_end (c # r))"
          using fe False L by (cases "find_end (c # r)") auto
        have le: "line_empty t j \<longleftrightarrow> False" for j using t False by (auto simp: line_empty_def nth_Cons' split: if_splits)
        have bt: "blank_at t j \<longleftrightarrow> (\<exists>i. j = d + i \<and> blank_at (c # r) i)" for j
          using t by (auto simp: blank_at_CR)
        have bs: "blank_at s k \<longleftrightarrow> (\<exists>i. k = length a + 1 + d + i \<and> blank_at (c # r) i)" for k
          unfolding bl le bt by auto
        note IH = 1(2) [OF Cons sk False]
        show ?thesis
        proof (cases "find_end (c # r)")
          case None
          then show ?thesis using IH n by (simp add: bs)
        next
          case (Some k)
          then have "0 < k" "blank_at (c # r) (k - 1)" "\<forall>i < k - 1. \<not> blank_at (c # r) i" using IH by simp_all
          then show ?thesis using Some n by (simp add: bs) (metis Suc_pred add_Suc_right less_diff_conv2 nat_add_left_cancel_less not_less_eq)
        qed
      qed
    qed
  qed
qed

definition header_ends :: "string \<Rightarrow> nat \<Rightarrow> bool" where
  "header_ends t i \<longleftrightarrow> (\<exists>n. i = length (takeWhile isspace t) + n + 1 \<and> blank_at (dropWhile isspace t) n \<and> (\<forall>k < n. \<not> blank_at (dropWhile isspace t) k))"

lemma space_split: "length (takeWhile isspace t) + length (dropWhile isspace t) = length t"
  by (metis length_append takeWhile_dropWhile_id)

lemma header_ends_le: "header_ends t i \<Longrightarrow> 0 < i \<and> i \<le> length t"
  using space_split [of t] by (auto simp: header_ends_def blank_at_def)

lemma c_int_of_nat:
  assumes "n < 2 ^ 32"
  shows "c_int (of_nat n) = (if n < 2 ^ 31 then int n else int n - 2 ^ 32)"
proof -
  have "unat (of_nat n :: u32) = n" using assms by (simp add: unat_of_nat_small)
  moreover have "uint (of_nat n :: u32) = int (unat (of_nat n :: u32))" by simp
  ultimately have "sint (of_nat n :: u32) = signed_take_bit 31 (int n)" unfolding sint_uint by simp
  also have "\<dots> = (int n + 2 ^ 31) mod 2 ^ 32 - 2 ^ 31" by (simp add: signed_take_bit_eq_take_bit_shift take_bit_eq_mod)
  also have "\<dots> = (if n < 2 ^ 31 then int n else int n - 2 ^ 32)"
  proof (cases "n < 2 ^ 31")
    case False
    have "(int n + 2 ^ 31) mod 2 ^ 32 = (int n + 2 ^ 31 - 2 ^ 32) mod 2 ^ 32" by (rule minus_mod_self2 [symmetric])
    also have "\<dots> = int n + 2 ^ 31 - 2 ^ 32" by (rule mod_pos_pos_trivial) (use False assms in auto)
    finally show ?thesis using False by simp
  qed (use assms in simp)
  finally have sint: "sint (of_nat n :: u32) = (if n < 2 ^ 31 then int n else int n - 2 ^ 32)" .
  have "n < 2 ^ 64" using assms by simp
  then have "ucast (of_nat n :: u64) = (of_nat n :: u32)" by (simp add: unsigned_of_nat take_bit_nat_eq_self)
  then show ?thesis unfolding c_int_def by (simp only: sint)
qed

lemma takeWhile_stop: "\<not> P c \<Longrightarrow> takeWhile P (a @ c # b) = takeWhile P a"
  by (induction a) simp_all

text \<open>
  The code needs the NUL behind the text. A text of white space only is dropped; a text with an empty line after its leading
  white space is a complete header, which ends with the first such line.
\<close>

lemma htc_header_complete_ok:
  assumes "e < length m" "m ! e = NUL" "e < 2 ^ 31"
  shows "\<exists>m' e' i. htc_header_complete m e = Some (m', e', int i) \<and> length m' = length m \<and> i \<le> e \<and> m' ! e' = NUL \<and>
    (e' = e \<and> m' = m \<or> e' = 0 \<and> i = 0) \<and>
    (NUL \<notin> set (take e m) \<longrightarrow> (if i = 0 then \<forall>k. \<not> header_ends (take e m) k else header_ends (take e m) i))"
proof -
  have rd: "rd m e = Some NUL" using assms by (simp add: rd_def)
  have m: "m = take e m @ NUL # drop (Suc e) m" using id_take_nth_drop [OF assms(1)] unfolding assms(2) .
  have c: "cstr m = takeWhile (\<lambda>c. c \<noteq> NUL) (take e m)" 
    unfolding cstr_def by (rule trans [OF arg_cong [OF m, of "takeWhile (\<lambda>c. c \<noteq> NUL)"]]) (rule takeWhile_stop, simp)
  have le: "length (cstr m) \<le> e" unfolding c using length_takeWhile_le [of "\<lambda>c. c \<noteq> NUL" "take e m"] by simp
  have all: "cstr m = take e m" if "NUL \<notin> set (take e m)" unfolding c takeWhile_eq_all_conv using that by auto
  let ?p = "dropWhile isspace (cstr m)"
  show ?thesis
  proof (cases "?p = []")
    case True
    have "\<not> header_ends (take e m) k" if "NUL \<notin> set (take e m)" for k
      using True all [OF that] by (auto simp: header_ends_def blank_at_def simp del: dropWhile_eq_Nil_conv)
    moreover have "htc_header_complete m e = Some (m[0 := NUL], 0, int 0)"
      unfolding htc_header_complete_def rd bind.bind_lunit assert_c_simps Let_def using True assms(1) by (auto simp: wr_def)
    moreover have "m[0 := NUL] ! 0 = NUL" using assms(1) by (cases m) auto
    ultimately show ?thesis by (intro exI [of _ "m[0 := NUL]"] exI [of _ 0]) auto
  next
    case False
    show ?thesis
    proof (cases "find_end ?p")
      case None
      have "\<not> header_ends (take e m) k" if "NUL \<notin> set (take e m)" for k
        using None find_end_first [of ?p] all [OF that] by (auto simp: header_ends_def)
      moreover have "htc_header_complete m e = Some (m, e, int 0)"
        unfolding htc_header_complete_def rd bind.bind_lunit assert_c_simps Let_def using False None by (simp del: dropWhile_eq_Nil_conv)
      ultimately show ?thesis using assms(2) by (intro exI [of _ m] exI [of _ e] exI [of _ 0]) auto
    next
      case (Some n)
      then have f: "0 < n" "blank_at ?p (n - 1)" "\<forall>k < n - 1. \<not> blank_at ?p k" using find_end_first [of ?p] by simp_all
      have n: "n \<le> length ?p" using f(1,2) by (auto simp: blank_at_def)
      have sp: "length (cstr m) - length ?p = length (takeWhile isspace (cstr m))" using space_split [of "cstr m"] by simp
      define i where "i = length (takeWhile isspace (cstr m)) + n"
      have i: "0 < i" "i \<le> e" using f(1) n space_split [of "cstr m"] le by (simp_all add: i_def)
      have "htc_header_complete m e = Some (m, e, int i)"
        unfolding htc_header_complete_def rd bind.bind_lunit assert_c_simps Let_def sp using False Some c_int_of_nat [of i] i(2) assms(3)
        by (simp add: i_def del: dropWhile_eq_Nil_conv)
      moreover have "header_ends (take e m) i" if "NUL \<notin> set (take e m)"
        unfolding header_ends_def all [OF that, symmetric] using f by (intro exI [of _ "n - 1"]) (simp add: i_def)
      ultimately show ?thesis using i assms(2) by (intro exI [of _ m] exI [of _ e] exI [of _ i]) auto
    qed
  qed
qed


subsection \<open>Receiving keeps within the reservation and loses no byte\<close>

text \<open>The connection between two calls; a reservation of more than 2 GB is left out, since the code counts in \<open>int\<close>.\<close>

definition rx_inv :: "rxconn \<Rightarrow> bool" where
  "rx_inv htc \<longleftrightarrow> ws_ok (c_ws htc) \<and> ws_r (c_ws htc) \<noteq> NULL \<and> c_rxb htc = ws_f (c_ws htc) \<and>
     unat (c_rxb htc) + length (c_mem htc) = unat (ws_r (c_ws htc)) \<and> length (c_mem htc) \<le> 2 ^ 31 \<and>
     c_e htc < length (c_mem htc) \<and> c_mem htc ! c_e htc = NUL \<and> c_pipe htc = None"


lemma rx_address:
  assumes "ws_ok w" and "ws_r w \<noteq> NULL" and "unat (ws_f w) + n \<le> unat (ws_r w)"
  shows "unat (ws_f w + of_nat n) = unat (ws_f w) + n"
    and "ws_f w \<le> ws_f w + of_nat n" and "ws_f w + of_nat n \<le> ws_r w"
proof -
  have "unat (ws_r w) < 2 ^ 64" using unat_u64_bound [of "ws_r w"] by simp
  then have n: "n < 2 ^ 64" "unat (ws_f w) + n < 2 ^ 64" using assms(3) by linarith+
  then show *: "unat (ws_f w + of_nat n) = unat (ws_f w) + n"
    by (subst unat_add_nowrap) (simp_all add: unat_of_nat_small)
  then show "ws_f w \<le> ws_f w + of_nat n" "ws_f w + of_nat n \<le> ws_r w"
    using assms(3) by (simp_all add: word_le_nat_alt)
qed

lemma rx_space_word:
  assumes "ws_ok w" "ws_r w \<noteq> NULL" "unat (ws_f w) + e < unat (ws_r w)"
  shows "ws_r w - (ws_f w + of_nat e) - 1 = of_nat (unat (ws_r w) - unat (ws_f w) - e - 1)"
proof -
  have a: "unat (ws_f w + of_nat e) = unat (ws_f w) + e" using rx_address(1) [OF assms(1,2)] assms(3) by simp
  then have d: "unat (ws_r w - (ws_f w + of_nat e)) = unat (ws_r w) - unat (ws_f w) - e" using assms(3) by (simp add: unat_sub_le)
  have "unat (ws_r w - (ws_f w + of_nat e) - 1) = unat (ws_r w - (ws_f w + of_nat e)) - unat (1 :: u64)"
    by (rule unat_sub_le) (use d assms(3) in simp)
  then have u: "unat (ws_r w - (ws_f w + of_nat e) - 1) = unat (ws_r w) - unat (ws_f w) - e - 1" using d by simp
  have "ws_r w - (ws_f w + of_nat e) - 1 = of_nat (unat (ws_r w - (ws_f w + of_nat e) - 1))" by simp
  then show ?thesis unfolding u .
qed


lemma HTC_Complete_keeps:
  assumes "rx_inv htc"
  shows "\<exists>htc' b. HTC_Complete htc = Some (htc', b) \<and> c_rxb htc' = c_rxb htc \<and>
    (if b then rx_bytes htc' = rx_text htc \<and> ws_ok (c_ws htc') \<and> ws_r (c_ws htc') = NULL \<and> rx_text htc' \<noteq> [] \<and>
         c_e htc' < length (htc_memory htc') \<and> nul_at_end (htc_memory htc') \<and>
         (NUL \<notin> set (rx_text htc) \<longrightarrow> header_ends (rx_text htc) (c_e htc'))
     else rx_inv htc' \<and> (rx_text htc' = rx_text htc \<or> rx_text htc' = []) \<and> (NUL \<notin> set (rx_text htc) \<longrightarrow> (\<forall>k. \<not> header_ends (rx_text htc) k)))"
proof -
  have inv: "ws_ok (c_ws htc)" "ws_r (c_ws htc) \<noteq> NULL" "c_rxb htc = ws_f (c_ws htc)"
    "unat (ws_f (c_ws htc)) + c_e htc \<le> unat (ws_r (c_ws htc))" "c_pipe htc = None"
    "c_e htc < length (c_mem htc)" "c_mem htc ! c_e htc = NUL" "c_e htc < 2 ^ 31"
    using assms by (auto simp: rx_inv_def)
  obtain m e i where h: "htc_header_complete (c_mem htc) (c_e htc) = Some (m, e, int i)" "length m = length (c_mem htc)" "i \<le> c_e htc"
    "m ! e = NUL" "e = c_e htc \<and> m = c_mem htc \<or> e = 0 \<and> i = 0"
    and b: "NUL \<notin> set (rx_text htc) \<longrightarrow> (if i = 0 then \<forall>k. \<not> header_ends (rx_text htc) k else header_ends (rx_text htc) i)"
    using htc_header_complete_ok [OF inv(6-8)] unfolding rx_text_def by blast
  show ?thesis
  proof (cases "i = 0")
    case True
    have "HTC_Complete htc = Some (htc\<lparr>c_mem := m, c_e := e\<rparr>, False)" using h(1) True by (simp add: HTC_Complete_def)
    moreover have "rx_inv (htc\<lparr>c_mem := m, c_e := e\<rparr>)" using assms h(2,4,5) by (auto simp: rx_inv_def)
    ultimately show ?thesis using h(5) b True by (auto simp: rx_text_def)
  next
    case False
    then have me: "e = c_e htc" "m = c_mem htc" using h(5) by auto
    obtain w where w: "WS_ReleaseP (c_ws htc) (c_rxb htc + of_nat (c_e htc)) = Some w" "ws_ok w"
        "w = (c_ws htc)\<lparr>ws_f := ws_f w, ws_r := NULL\<rparr>"
      using WS_ReleaseP_spec [OF inv(1,2)] rx_address [OF inv(1,2,4)] inv(3) by auto
    have r: "ws_r w = NULL" using arg_cong [OF w(3), of ws_r] by simp
    define h' where "h' = (if i < c_e htc then htc\<lparr>c_ws := w, c_pipe := Some (i, c_e htc), c_e := i\<rparr> else htc\<lparr>c_ws := w\<rparr>)"
    have "HTC_Complete htc = Some (h', True)" using w(1) h(1) me False by (simp add: HTC_Complete_def h'_def)
    moreover have e: "rx_end h' = c_e htc" "c_mem h' = c_mem htc" "c_e h' = i" "c_ws h' = w" "c_rxb h' = c_rxb htc"
      using h(3) inv(5) by (auto simp: h'_def rx_end_def)
    moreover have "length (take (Suc (c_e htc)) (c_mem htc)) = Suc (c_e htc)" using inv(6) by simp
    then have "rx_bytes h' = rx_text htc" "c_e h' < length (htc_memory h')" "nul_at_end (htc_memory h')" "rx_text h' \<noteq> []"
      using e inv(6,7) h(3) False by (auto simp: rx_bytes_def rx_text_def htc_memory_def nul_at_end_def simp del: length_take)
    ultimately show ?thesis using w(2) r b False by (intro exI [of _ h'] exI [of _ True]) simp
  qed
qed


text \<open>What was received completely can be taken apart: the parser stays within the bytes received and the NUL.\<close>

lemma HTC_Complete_dissect:
  assumes "rx_inv htc" "HTC_Complete htc = Some (htc', True)" "http_ok hp"
  shows "\<exists>m' hp' r. http_DissectRequest (htc_parser htc') (htc_memory htc') hp = Some (m', hp', r) \<and> http_ok hp' \<and> r \<in> {0, 400, 413}"
proof (rule DissectRequest_total [OF _ _ _ assms(3)])
  have r: "c_rxb htc' = c_rxb htc" "c_e htc' < length (htc_memory htc')" "nul_at_end (htc_memory htc')"
    using HTC_Complete_keeps [OF assms(1)] assms(2) by auto
  have "c_rxb htc \<noteq> NULL" using assms(1) ws_f_pos [of "c_ws htc"] by (auto simp: rx_inv_def)
  then show "nul_at_end (htc_memory htc')" "rx_e (htc_parser htc') < length (htc_memory htc')" "rx_base (htc_parser htc') \<noteq> NULL"
    using r by (simp_all add: htc_parser_def)
qed

text \<open>A connection begins, and begins again, as a call to receive wants it, if the reserved memory holds what was pipelined.\<close>

lemma HTC_Init_ok:
  assumes "WS_Reserve w maxbytes = Some (w', n)" "ws_ok w'" "ws_r w' \<noteq> NULL" "unat (ws_f w') + length mem = unat (ws_r w')" "mem \<noteq> []" "length mem \<le> 2 ^ 31"
  shows "\<exists>htc. HTC_Init w maxbytes maxhdr mem = Some htc \<and> rx_inv htc \<and> rx_text htc = []"
  using assms by (simp add: HTC_Init_def wr_def rx_inv_def rx_text_def)

lemma HTC_Reinit_complete:
  assumes "WS_Reserve (c_ws htc) (c_maxbytes htc) = Some (w, n)" "ws_ok w" "ws_r w \<noteq> NULL" "unat (ws_f w) + length mem = unat (ws_r w)" "length mem \<le> 2 ^ 31"
    and "c_pipe htc = Some (b, e)" "e \<le> length (c_mem htc)" "b \<le> e" "e - b < length mem"
  shows "\<exists>h. HTC_Reinit htc mem = HTC_Complete h \<and> rx_inv h \<and> rx_text h = take (e - b) (drop b (c_mem htc))"
proof -
  let ?p = "take (e - b) (drop b (c_mem htc))"
  have l: "length ?p = e - b" using assms(7,8) by simp
  define m where "m = (?p @ drop (length ?p) mem)[length ?p := NUL]"
  have m: "length m = length mem" "take (e - b) m = ?p" "m ! (e - b) = NUL" using l assms(9) by (simp_all add: m_def)
  have "HTC_Reinit htc mem = HTC_Complete (htc\<lparr>c_ws := w, c_rxb := ws_f w, c_mem := m, c_e := e - b, c_pipe := None\<rparr>)"
    using assms(1,6,9) l by (simp add: HTC_Reinit_def blit_def wr_def m_def)
  moreover have "rx_inv (htc\<lparr>c_ws := w, c_rxb := ws_f w, c_mem := m, c_e := e - b, c_pipe := None\<rparr>)"
    using assms m by (simp add: rx_inv_def)
  ultimately show ?thesis using m(2) by (intro exI conjI) (assumption, assumption, simp add: rx_text_def)
qed

text \<open>With a reservation of more than 2 GB the space does not fit into an \<open>int\<close>, and a fresh connection overflows at once.\<close>

lemma HTC_Rx_wide:
  assumes "ws_ok (c_ws htc)" "ws_r (c_ws htc) \<noteq> NULL" "c_rxb htc = ws_f (c_ws htc)" "c_e htc = 0"
    and "2 ^ 31 < unat (ws_r (c_ws htc)) - unat (ws_f (c_ws htc))"
  shows "\<exists>htc'. HTC_Rx htc data = Some (htc', Rx_Overflow)"
proof -
  define n where "n = unat (ws_r (c_ws htc)) - unat (ws_f (c_ws htc)) - 1"
  have n: "2 ^ 31 \<le> n" "n < 2 ^ 32" using assms(1,2,5) by (auto simp: ws_ok_nat null_iff n_def)
  have "ws_r (c_ws htc) - (c_rxb htc + of_nat (c_e htc)) - 1 = of_nat n"
    using rx_space_word [OF assms(1,2), of 0] assms(3-5) by (simp add: n_def)
  moreover have "c_int (of_nat n) \<le> 0" using c_int_of_nat [OF n(2)] n by simp
  moreover have "\<exists>w. WS_ReleaseP (c_ws htc) (c_rxb htc) = Some w"
  proof -
    have "ws_f (c_ws htc) \<le> ws_r (c_ws htc)" using assms(5) unfolding word_le_nat_alt by linarith
    then show ?thesis using WS_ReleaseP_spec [OF assms(1,2), of "c_rxb htc"] assms(3) by auto
  qed
  ultimately show ?thesis using assms(2) by (auto simp: HTC_Rx_def)
qed





end
