(* ===== verification/Ban_Spec.thy ===== *)
theory Ban_Spec
  imports Complex_Main Http
begin

text \<open>
  Ban specifications, \<^verbatim>\<open>bin/varnishd/cache_ban.c\<close>: how the tests of a ban are written as bytes, read
  back and evaluated against a request and an object.

  A specification starts with the time of the ban, an eight byte \<open>double\<close> that is only ever copied
  and compared; it is kept apart as a rational number, and the bytes of a specification are those from
  offset 8 on. Reading past them is \<open>None\<close>. The regular expression library is a pair of parameters:
  \<open>pcre_compile\<close> gives an error text or the compiled bytes, \<open>pcre_exec\<close> tells whether they match.
\<close>

subsection \<open>Data\<close>

definition BAN_F_GONE :: u32 where "BAN_F_GONE = 1"
definition BAN_F_REQ :: u32 where "BAN_F_REQ = 4"

definition BAN_OPER_EQ :: char where "BAN_OPER_EQ = CHR 0x10"
definition BAN_OPER_NEQ :: char where "BAN_OPER_NEQ = CHR 0x11"
definition BAN_OPER_MATCH :: char where "BAN_OPER_MATCH = CHR 0x12"
definition BAN_OPER_NMATCH :: char where "BAN_OPER_NMATCH = CHR 0x13"

definition BAN_ARG_URL :: char where "BAN_ARG_URL = CHR 0x18"
definition BAN_ARG_REQHTTP :: char where "BAN_ARG_REQHTTP = CHR 0x19"
definition BAN_ARG_OBJHTTP :: char where "BAN_ARG_OBJHTTP = CHR 0x1a"

lemmas ban_bytes = BAN_OPER_EQ_def BAN_OPER_NEQ_def BAN_OPER_MATCH_def BAN_OPER_NMATCH_def
  BAN_ARG_URL_def BAN_ARG_REQHTTP_def BAN_ARG_OBJHTTP_def

record pvar =
  pv_name :: string
  pv_req :: bool
  pv_http :: bool
  pv_tag :: char

definition pvars :: "pvar list" where
  "pvars = [
     \<lparr>pv_name = ''req.url'', pv_req = True, pv_http = False, pv_tag = BAN_ARG_URL\<rparr>,
     \<lparr>pv_name = ''req.http.'', pv_req = True, pv_http = True, pv_tag = BAN_ARG_REQHTTP\<rparr>,
     \<lparr>pv_name = ''obj.http.'', pv_req = False, pv_http = True, pv_tag = BAN_ARG_OBJHTTP\<rparr>]"

text \<open>
  A ban: while it is built its tests are collected in \<open>vsb\<close>, then \<open>spec\<close> holds them. The objects
  that refer to it are a list of identities.
\<close>

record 'o ban =
  b_refcount :: nat
  b_flags :: u32
  b_objcore :: "'o list"
  b_vsb :: "char list option"
  b_time :: rat
  b_spec :: "char list option"

record ban_test =
  bt_arg1 :: char
  bt_arg1_spec :: "string option"
  bt_oper :: char
  bt_arg2 :: string
  bt_arg2_spec :: "char list option"

subsection \<open>Lumps and tests\<close>

definition BAN_New :: "'o ban" where
  "BAN_New = \<lparr>b_refcount = 0, b_flags = 0, b_objcore = [], b_vsb = Some [], b_time = 0, b_spec = None\<rparr>"

text \<open>The length of the specification, stored from offset 8 on.\<close>

definition ban_len :: "char list \<Rightarrow> nat option" where
  "ban_len spec = map_option unat (vbe32dec spec)"

definition ban_add_lump :: "char list \<Rightarrow> char list \<Rightarrow> char list" where
  "ban_add_lump vsb p = vsb @ vbe32enc (of_nat (length p)) @ p"

text \<open>The memory at the lump, its length, and the memory behind it.\<close>

definition ban_get_lump :: "char list \<Rightarrow> (char list \<times> nat \<times> char list) option" where
  "ban_get_lump bs = do {
     ln \<leftarrow> vbe32dec bs;
     let r = drop 4 bs;
     assert_c (unat ln \<le> length r);
     Some (r, unat ln, drop (unat ln) r)
   }"

definition ban_byte :: "char list \<Rightarrow> (char \<times> char list) option" where
  "ban_byte bs = (case bs of [] \<Rightarrow> None | c # r \<Rightarrow> Some (c, r))"

text \<open>The header name of a test on a header, in the form \<open>http_GetHdr\<close> takes.\<close>

definition ban_iter_arg1_spec :: "char \<Rightarrow> char list \<Rightarrow> (string option \<times> char list) option" where
  "ban_iter_arg1_spec arg1 bs =
     (if arg1 = BAN_ARG_REQHTTP \<or> arg1 = BAN_ARG_OBJHTTP
      then do {
        (l, r) \<leftarrow> ban_byte bs;
        assert_c (of_char l + 2 \<le> length bs);
        Some (Some (l # cstr r), drop (of_char l + 2) bs)
      }
      else Some (None, bs))"

definition ban_iter_arg2_spec :: "char \<Rightarrow> char list \<Rightarrow> (char list option \<times> char list) option" where
  "ban_iter_arg2_spec oper bs =
     (if oper = BAN_OPER_MATCH \<or> oper = BAN_OPER_NMATCH
      then do { (p, n, bs) \<leftarrow> ban_get_lump bs; Some (Some (take n p), bs) }
      else Some (None, bs))"

definition ban_iter :: "char list \<Rightarrow> (ban_test \<times> char list) option" where
  "ban_iter bs = do {
     (arg1, bs) \<leftarrow> ban_byte bs;
     (spec, bs) \<leftarrow> ban_iter_arg1_spec arg1 bs;
     (arg2, n, bs) \<leftarrow> ban_get_lump bs;
     (oper, bs) \<leftarrow> ban_byte bs;
     (spec2, bs) \<leftarrow> ban_iter_arg2_spec oper bs;
     Some (\<lparr>bt_arg1 = arg1, bt_arg1_spec = spec, bt_oper = oper, bt_arg2 = cstr arg2, bt_arg2_spec = spec2\<rparr>, bs)
   }"

definition ban_parse_http :: "char list \<Rightarrow> string \<Rightarrow> char list option" where
  "ban_parse_http vsb a1 = do {
     let l = length a1 + 1;
     assert_c (l \<le> 127);
     Some (vsb @ [char_of l] @ a1 @ '':'' @ [NUL])
   }"

text \<open>The error is the text printed to the CLI; every error sets the status \<open>CLIS_PARAM\<close>.\<close>

definition ban_parse_regexp :: "(string \<Rightarrow> string + char list) \<Rightarrow> char list \<Rightarrow> string \<Rightarrow> string + char list" where
  "ban_parse_regexp pcre_compile vsb a3 = (case pcre_compile a3 of
     Inl err \<Rightarrow> Inl err
   | Inr re \<Rightarrow> Inr (ban_add_lump vsb re))"

definition find_pvar :: "string \<Rightarrow> pvar option" where
  "find_pvar a1 = find (\<lambda>pv. strneq (length (pv_name pv)) a1 (pv_name pv)) pvars"

text \<open>\<open>None\<close> is a failed assertion; \<open>Some (Inl err)\<close> the error return.\<close>

definition BAN_AddTest ::
  "(string \<Rightarrow> string + char list) \<Rightarrow> 'o ban \<Rightarrow> string \<Rightarrow> string \<Rightarrow> string \<Rightarrow> (string + 'o ban) option" where
  "BAN_AddTest pcre_compile b a1 a2 a3 = (case find_pvar a1 of
     None \<Rightarrow> Some (Inl (''unknown or unsupported field '' @ [CHR 0x22] @ a1 @ [CHR 0x22]))
   | Some pv \<Rightarrow> do {
       vsb \<leftarrow> b_vsb b;
       let b = (if pv_req pv then b\<lparr>b_flags := b_flags b OR BAN_F_REQ\<rparr> else b);
       let vsb = vsb @ [pv_tag pv];
       vsb \<leftarrow> (if pv_http pv then ban_parse_http vsb (drop (length (pv_name pv)) a1) else Some vsb);
       let vsb = ban_add_lump vsb (a3 @ [NUL]);
       (if a2 = ''~'' then Some (map_sum id (\<lambda>v. b\<lparr>b_vsb := Some v\<rparr>) (ban_parse_regexp pcre_compile (vsb @ [BAN_OPER_MATCH]) a3))
        else if a2 = ''!~'' then Some (map_sum id (\<lambda>v. b\<lparr>b_vsb := Some v\<rparr>) (ban_parse_regexp pcre_compile (vsb @ [BAN_OPER_NMATCH]) a3))
        else if a2 = ''=='' then Some (Inr (b\<lparr>b_vsb := Some (vsb @ [BAN_OPER_EQ])\<rparr>))
        else if a2 = ''!='' then Some (Inr (b\<lparr>b_vsb := Some (vsb @ [BAN_OPER_NEQ])\<rparr>))
        else Some (Inl (''expected conditional (~, !~, == or !=) got '' @ [CHR 0x22] @ a2 @ [CHR 0x22])))
     })"

text \<open>The specification that \<open>BAN_Insert\<close> makes of the collected tests, from offset 8 on.\<close>

definition ban_make_spec :: "u32 \<Rightarrow> char list \<Rightarrow> char list" where
  "ban_make_spec flags vsb =
     vbe32enc (of_nat (length vsb + 13)) @ [if flags AND BAN_F_REQ \<noteq> 0 then CHR 0x01 else CHR 0x00] @ vsb"

subsection \<open>Evaluation\<close>

definition ban_arg1 :: "http \<Rightarrow> http \<Rightarrow> ban_test \<Rightarrow> string option option" where
  "ban_arg1 objhttp reqhttp bt =
     (if bt_arg1 bt = BAN_ARG_URL then do {
        t \<leftarrow> hd_at reqhttp HTTP_HDR_URL;
        Some (if t_b t = NULL then None else Some (t_s t))
      }
      else if bt_arg1 bt = BAN_ARG_REQHTTP then do { h \<leftarrow> bt_arg1_spec bt; http_GetHdr reqhttp h }
      else if bt_arg1 bt = BAN_ARG_OBJHTTP then do { h \<leftarrow> bt_arg1_spec bt; http_GetHdr objhttp h }
      else None)"

text \<open>Whether the test lets the evaluation go on.\<close>

definition ban_oper :: "(char list \<Rightarrow> string \<Rightarrow> bool) \<Rightarrow> ban_test \<Rightarrow> string option \<Rightarrow> bool option" where
  "ban_oper pcre_exec bt arg1 =
     (if bt_oper bt = BAN_OPER_EQ then Some (arg1 = Some (bt_arg2 bt))
      else if bt_oper bt = BAN_OPER_NEQ then Some (arg1 \<noteq> Some (bt_arg2 bt))
      else if bt_oper bt = BAN_OPER_MATCH then do {
        re \<leftarrow> bt_arg2_spec bt;
        Some (case arg1 of None \<Rightarrow> False | Some a \<Rightarrow> pcre_exec re a)
      }
      else if bt_oper bt = BAN_OPER_NMATCH then do {
        re \<leftarrow> bt_arg2_spec bt;
        Some (case arg1 of None \<Rightarrow> True | Some a \<Rightarrow> \<not> pcre_exec re a)
      }
      else None)"

lemma ban_get_lump_shorter: "ban_get_lump bs = Some (r, n, bs') \<Longrightarrow> length bs' \<le> length bs"
  by (auto simp: ban_get_lump_def Let_def bind_eq_Some_conv)

lemma ban_byte_shorter: "ban_byte bs = Some (c, bs') \<Longrightarrow> length bs' < length bs"
  by (auto simp: ban_byte_def split: list.splits)

lemma ban_iter_arg1_spec_shorter: "ban_iter_arg1_spec a bs = Some (h, bs') \<Longrightarrow> length bs' \<le> length bs"
  by (auto simp: ban_iter_arg1_spec_def bind_eq_Some_conv split: if_splits)

lemma ban_iter_arg2_spec_shorter: "ban_iter_arg2_spec a bs = Some (h, bs') \<Longrightarrow> length bs' \<le> length bs"
  by (auto simp: ban_iter_arg2_spec_def bind_eq_Some_conv split: if_splits dest!: ban_get_lump_shorter)

lemma ban_iter_shorter: "ban_iter bs = Some (bt, bs') \<Longrightarrow> length bs' < length bs"
  by (auto simp: ban_iter_def bind_eq_Some_conv
      dest!: ban_get_lump_shorter ban_byte_shorter ban_iter_arg1_spec_shorter ban_iter_arg2_spec_shorter)

text \<open>The tests from \<open>bs\<close> up to the end of the specification; \<open>tests\<close> counts them.\<close>

function ban_eval_loop :: "(char list \<Rightarrow> string \<Rightarrow> bool) \<Rightarrow> http \<Rightarrow> http \<Rightarrow> char list \<Rightarrow> nat \<Rightarrow> (bool \<times> nat) option" where
  "ban_eval_loop pcre_exec objhttp reqhttp bs tests =
     (if bs = [] then Some (True, tests)
      else do {
        (bt, bs) \<leftarrow> ban_iter bs;
        arg1 \<leftarrow> ban_arg1 objhttp reqhttp bt;
        b \<leftarrow> ban_oper pcre_exec bt arg1;
        (if b then ban_eval_loop pcre_exec objhttp reqhttp bs (tests + 1) else Some (False, tests + 1))
      })"
  by pat_completeness auto
termination
  by (relation "measure (\<lambda>(p, oh, rh, bs, n). length bs)") (auto dest: ban_iter_shorter)

declare ban_eval_loop.simps [simp del]

definition ban_evaluate :: "(char list \<Rightarrow> string \<Rightarrow> bool) \<Rightarrow> char list \<Rightarrow> http \<Rightarrow> http \<Rightarrow> nat \<Rightarrow> (bool \<times> nat) option" where
  "ban_evaluate pcre_exec spec objhttp reqhttp tests = do {
     n \<leftarrow> ban_len spec;
     assert_c (n \<le> length spec + 8);
     ban_eval_loop pcre_exec objhttp reqhttp (drop 5 (take (n - 8) spec)) tests
   }"

subsection \<open>Printing\<close>

definition ban_render_arg1 :: "ban_test \<Rightarrow> string option" where
  "ban_render_arg1 bt =
     (if bt_arg1 bt = BAN_ARG_URL then Some ''req.url''
      else if bt_arg1 bt = BAN_ARG_REQHTTP then do { h \<leftarrow> bt_arg1_spec bt; Some (''req.http.'' @ take (of_char (List.hd h) - 1) (tl h)) }
      else if bt_arg1 bt = BAN_ARG_OBJHTTP then do { h \<leftarrow> bt_arg1_spec bt; Some (''obj.http.'' @ take (of_char (List.hd h) - 1) (tl h)) }
      else None)"

definition ban_render_oper :: "ban_test \<Rightarrow> string option" where
  "ban_render_oper bt =
     (if bt_oper bt = BAN_OPER_EQ then Some '' == ''
      else if bt_oper bt = BAN_OPER_NEQ then Some '' != ''
      else if bt_oper bt = BAN_OPER_MATCH then Some '' ~ ''
      else if bt_oper bt = BAN_OPER_NMATCH then Some '' !~ ''
      else None)"

function ban_render_loop :: "char list \<Rightarrow> string option" where
  "ban_render_loop bs =
     (if bs = [] then Some ''''
      else do {
        (bt, bs) \<leftarrow> ban_iter bs;
        a \<leftarrow> ban_render_arg1 bt;
        p \<leftarrow> ban_render_oper bt;
        rest \<leftarrow> ban_render_loop bs;
        Some (a @ p @ bt_arg2 bt @ (if bs \<noteq> [] then '' && '' else '''') @ rest)
      })"
  by pat_completeness auto
termination
  by (relation "measure length") (auto dest: ban_iter_shorter)

declare ban_render_loop.simps [simp del]

definition ban_render :: "char list \<Rightarrow> string option" where
  "ban_render spec = do {
     n \<leftarrow> ban_len spec;
     assert_c (n \<le> length spec + 8);
     ban_render_loop (drop 5 (take (n - 8) spec))
   }"

subsection \<open>Reading a test back\<close>

definition lump :: "char list \<Rightarrow> char list" where
  "lump p = vbe32enc (of_nat (length p)) @ p"

definition test_bytes :: "ban_test \<Rightarrow> char list" where
  "test_bytes bt = [bt_arg1 bt] @ (case bt_arg1_spec bt of None \<Rightarrow> [] | Some h \<Rightarrow> h @ [NUL]) @
     lump (bt_arg2 bt @ [NUL]) @ [bt_oper bt] @ (case bt_arg2_spec bt of None \<Rightarrow> [] | Some re \<Rightarrow> lump re)"

definition test_ok :: "ban_test \<Rightarrow> bool" where
  "test_ok bt \<longleftrightarrow>
     (case bt_arg1_spec bt of
        None \<Rightarrow> bt_arg1 bt = BAN_ARG_URL
      | Some h \<Rightarrow> bt_arg1 bt \<in> {BAN_ARG_REQHTTP, BAN_ARG_OBJHTTP} \<and>
          (\<exists>name. h = HTTP_Init_hdr name \<and> length name \<le> 126 \<and> NUL \<notin> set name)) \<and>
     NUL \<notin> set (bt_arg2 bt) \<and> length (bt_arg2 bt) + 1 < 2 ^ 32 \<and>
     (case bt_arg2_spec bt of
        None \<Rightarrow> bt_oper bt \<in> {BAN_OPER_EQ, BAN_OPER_NEQ}
      | Some re \<Rightarrow> bt_oper bt \<in> {BAN_OPER_MATCH, BAN_OPER_NMATCH} \<and> length re < 2 ^ 32)"

lemma ban_get_lump_lump:
  assumes "length p < 2 ^ 32"
  shows "ban_get_lump (lump p @ rest) = Some (p @ rest, length p, rest)"
proof -
  have "unat (of_nat (length p) :: u32) = length p" using assms by (simp add: unat_of_nat_small)
  then show ?thesis by (simp add: ban_get_lump_def lump_def vbe32_roundtrip)
qed

lemma ban_iter_arg1_spec_bytes:
  assumes "test_ok bt"
  shows "ban_iter_arg1_spec (bt_arg1 bt) ((case bt_arg1_spec bt of None \<Rightarrow> [] | Some h \<Rightarrow> h @ [NUL]) @ rest) = Some (bt_arg1_spec bt, rest)"
proof (cases "bt_arg1_spec bt")
  case None
  then show ?thesis using assms by (simp add: ban_iter_arg1_spec_def test_ok_def ban_bytes)
next
  case (Some h)
  then obtain name where h: "h = char_of (length name + 1) # name @ '':''" "length name \<le> 126" "NUL \<notin> set name"
    using assms by (auto simp: test_ok_def HTTP_Init_hdr_def)
  have l: "(of_char (char_of (length name + 1) :: char) :: nat) = length name + 1" using h(2) by simp
  have "cstr (name @ '':'' @ NUL # rest) = name @ '':''"
    using h(3) cstr_append_NUL [of "name @ '':''" rest] by simp
  then show ?thesis
    using assms l Some by (auto simp: ban_iter_arg1_spec_def test_ok_def ban_byte_def h(1) ban_bytes)
qed

lemma ban_iter_arg2_spec_bytes:
  assumes "test_ok bt"
  shows "ban_iter_arg2_spec (bt_oper bt) ((case bt_arg2_spec bt of None \<Rightarrow> [] | Some re \<Rightarrow> lump re) @ rest) = Some (bt_arg2_spec bt, rest)"
  using assms by (auto simp: test_ok_def ban_iter_arg2_spec_def ban_get_lump_lump ban_bytes split: option.splits)

lemma ban_iter_test_bytes:
  assumes "test_ok bt"
  shows "ban_iter (test_bytes bt @ rest) = Some (bt, rest)"
proof -
  let ?tail = "bt_oper bt # (case bt_arg2_spec bt of None \<Rightarrow> [] | Some re \<Rightarrow> lump re) @ rest"
  have a2: "ban_get_lump (lump (bt_arg2 bt @ [NUL]) @ ?tail) = Some ((bt_arg2 bt @ [NUL]) @ ?tail, length (bt_arg2 bt @ [NUL]), ?tail)"
    by (rule ban_get_lump_lump) (use assms in \<open>simp add: test_ok_def\<close>)
  have "test_bytes bt @ rest = bt_arg1 bt # (case bt_arg1_spec bt of None \<Rightarrow> [] | Some h \<Rightarrow> h @ [NUL]) @ lump (bt_arg2 bt @ [NUL]) @ ?tail"
    by (simp add: test_bytes_def)
  moreover have "NUL \<notin> set (bt_arg2 bt)" using assms by (simp add: test_ok_def)
  ultimately show ?thesis
    using a2 by (simp add: ban_iter_def ban_byte_def ban_iter_arg1_spec_bytes [OF assms] ban_iter_arg2_spec_bytes [OF assms])
qed

subsection \<open>What a ban means\<close>

text \<open>The tests of a ban as the CLI gives them: field, operator, argument.\<close>

type_synonym ban_cond = "string \<times> string \<times> string"

fun ban_add_tests :: "(string \<Rightarrow> string + char list) \<Rightarrow> 'o ban \<Rightarrow> ban_cond list \<Rightarrow> (string + 'o ban) option" where
  "ban_add_tests pcre_compile b [] = Some (Inr b)"
| "ban_add_tests pcre_compile b ((a1, a2, a3) # cs) = do {
     r \<leftarrow> BAN_AddTest pcre_compile b a1 a2 a3;
     (case r of Inl err \<Rightarrow> Some (Inl err) | Inr b \<Rightarrow> ban_add_tests pcre_compile b cs)
   }"

definition cond_arg :: "http \<Rightarrow> http \<Rightarrow> string \<Rightarrow> string option" where
  "cond_arg objhttp reqhttp a1 =
     (if take 7 a1 = ''req.url'' then Some (t_s (h_hd reqhttp ! HTTP_HDR_URL))
      else if take 9 a1 = ''req.http.'' then hdr_value (drop 9 a1) (h_lines reqhttp)
      else hdr_value (drop 9 a1) (h_lines objhttp))"

fun cond_holds :: "(string \<Rightarrow> string + char list) \<Rightarrow> (char list \<Rightarrow> string \<Rightarrow> bool) \<Rightarrow> http \<Rightarrow> http \<Rightarrow> ban_cond \<Rightarrow> bool" where
  "cond_holds pcre_compile pcre_exec objhttp reqhttp (a1, a2, a3) =
     (let x = cond_arg objhttp reqhttp a1 in
      if a2 = ''=='' then x = Some a3
      else if a2 = ''!='' then x \<noteq> Some a3
      else (case x of
              None \<Rightarrow> a2 = ''!~''
            | Some v \<Rightarrow> (case pcre_compile a3 of Inl _ \<Rightarrow> False | Inr re \<Rightarrow> pcre_exec re v = (a2 = ''~''))))"

fun cond_ok :: "(string \<Rightarrow> string + char list) \<Rightarrow> ban_cond \<Rightarrow> bool" where
  "cond_ok pcre_compile (a1, a2, a3) \<longleftrightarrow>
     (take 7 a1 = ''req.url'' \<or> take 9 a1 \<in> {''req.http.'', ''obj.http.''} \<and> length (drop 9 a1) \<le> 126) \<and>
     NUL \<notin> set a1 \<and> NUL \<notin> set a3 \<and> length a3 + 1 < 2 ^ 32 \<and>
     (a2 \<in> {''=='', ''!=''} \<or> a2 \<in> {''~'', ''!~''} \<and>
        (case pcre_compile a3 of Inl _ \<Rightarrow> False | Inr re \<Rightarrow> length re < 2 ^ 32))"

fun test_of :: "(string \<Rightarrow> string + char list) \<Rightarrow> ban_cond \<Rightarrow> ban_test" where
  "test_of pcre_compile (a1, a2, a3) =
     \<lparr>bt_arg1 = (if take 7 a1 = ''req.url'' then BAN_ARG_URL
                 else if take 9 a1 = ''req.http.'' then BAN_ARG_REQHTTP else BAN_ARG_OBJHTTP),
      bt_arg1_spec = (if take 7 a1 = ''req.url'' then None else Some (HTTP_Init_hdr (drop 9 a1))),
      bt_oper = (if a2 = ''~'' then BAN_OPER_MATCH else if a2 = ''!~'' then BAN_OPER_NMATCH
                 else if a2 = ''=='' then BAN_OPER_EQ else BAN_OPER_NEQ),
      bt_arg2 = a3,
      bt_arg2_spec = (if a2 \<in> {''~'', ''!~''} then (case pcre_compile a3 of Inl _ \<Rightarrow> None | Inr re \<Rightarrow> Some re) else None)\<rparr>"

definition cond_req :: "ban_cond \<Rightarrow> bool" where
  "cond_req c \<longleftrightarrow> take 4 (fst c) = ''req.''"

lemma find_pvar_simps:
  "find_pvar a1 =
     (if take 7 a1 = ''req.url'' then Some \<lparr>pv_name = ''req.url'', pv_req = True, pv_http = False, pv_tag = BAN_ARG_URL\<rparr>
      else if take 9 a1 = ''req.http.'' then Some \<lparr>pv_name = ''req.http.'', pv_req = True, pv_http = True, pv_tag = BAN_ARG_REQHTTP\<rparr>
      else if take 9 a1 = ''obj.http.'' then Some \<lparr>pv_name = ''obj.http.'', pv_req = False, pv_http = True, pv_tag = BAN_ARG_OBJHTTP\<rparr>
      else None)"
  by (simp add: find_pvar_def pvars_def strneq_def numeral_eq_Suc)

lemma test_of_ok: "cond_ok pcre_compile c \<Longrightarrow> test_ok (test_of pcre_compile c)"
proof -
  assume ok: "cond_ok pcre_compile c"
  obtain a1 a2 a3 where c: "c = (a1, a2, a3)" by (cases c) auto
  have n: "NUL \<notin> set (drop 9 a1)" using ok c by (auto dest: in_set_dropD)
  show ?thesis using ok n unfolding c test_ok_def by (auto simp: ban_bytes split: sum.splits)
qed

lemma take_shorter: "take n xs = ys \<Longrightarrow> m \<le> n \<Longrightarrow> take m xs = take m ys"
  by (auto simp: min_def)

lemma cond_req_cases:
  assumes "take 7 a1 = ''req.url'' \<or> take 9 a1 = ''req.http.'' \<or> take 9 a1 = ''obj.http.''"
  shows "take 4 a1 = ''req.'' \<longleftrightarrow> take 7 a1 = ''req.url'' \<or> take 9 a1 = ''req.http.''"
  using assms take_shorter [of 7 a1 "''req.url''" 4] take_shorter [of 9 a1 "''req.http.''" 4]
    take_shorter [of 9 a1 "''obj.http.''" 4] by auto

lemma BAN_AddTest_ok:
  assumes "cond_ok pcre_compile (a1, a2, a3)" and "b_vsb b = Some v"
  shows "BAN_AddTest pcre_compile b a1 a2 a3 = Some (Inr (b\<lparr>
    b_flags := (if cond_req (a1, a2, a3) then b_flags b OR BAN_F_REQ else b_flags b),
    b_vsb := Some (v @ test_bytes (test_of pcre_compile (a1, a2, a3)))\<rparr>))"
proof -
  let ?t = "test_of pcre_compile (a1, a2, a3)"
  let ?b = "if cond_req (a1, a2, a3) then b\<lparr>b_flags := b_flags b OR BAN_F_REQ\<rparr> else b"
  let ?v = "v @ [bt_arg1 ?t] @ (case bt_arg1_spec ?t of None \<Rightarrow> [] | Some h \<Rightarrow> h @ [NUL]) @ lump (a3 @ [NUL])"
  have f: "take 7 a1 = ''req.url'' \<or> take 9 a1 = ''req.http.'' \<or> take 9 a1 = ''obj.http.''" using assms(1) by auto
  have "BAN_AddTest pcre_compile b a1 a2 a3 =
       (if a2 = ''~'' then Some (map_sum id (\<lambda>v. ?b\<lparr>b_vsb := Some v\<rparr>) (ban_parse_regexp pcre_compile (?v @ [BAN_OPER_MATCH]) a3))
        else if a2 = ''!~'' then Some (map_sum id (\<lambda>v. ?b\<lparr>b_vsb := Some v\<rparr>) (ban_parse_regexp pcre_compile (?v @ [BAN_OPER_NMATCH]) a3))
        else if a2 = ''=='' then Some (Inr (?b\<lparr>b_vsb := Some (?v @ [BAN_OPER_EQ])\<rparr>))
        else if a2 = ''!='' then Some (Inr (?b\<lparr>b_vsb := Some (?v @ [BAN_OPER_NEQ])\<rparr>))
        else Some (Inl (''expected conditional (~, !~, == or !=) got '' @ [CHR 0x22] @ a2 @ [CHR 0x22])))"
  proof (cases "take 7 a1 = ''req.url''")
    case True
    then show ?thesis using assms(2) cond_req_cases [OF f]
      by (simp add: BAN_AddTest_def find_pvar_simps cond_req_def Let_def ban_add_lump_def lump_def)
  next
    case False
    then have "length (drop 9 a1) \<le> 126" using assms(1) by auto
    then have "ban_parse_http w (drop (length ''req.http.'') a1) = Some (w @ HTTP_Init_hdr (drop 9 a1) @ [NUL])" for w
      by (simp add: ban_parse_http_def HTTP_Init_hdr_def numeral_eq_Suc)
    then show ?thesis using assms(2) cond_req_cases [OF f] False f
      by (cases "take 9 a1 = ''req.http.''") (simp_all add: BAN_AddTest_def find_pvar_simps cond_req_def Let_def ban_add_lump_def lump_def)
  qed
  then show ?thesis
    using assms(1) by (auto simp: test_bytes_def ban_parse_regexp_def ban_add_lump_def lump_def split: sum.splits)
qed

lemma ban_add_tests_ok:
  assumes "list_all (cond_ok pcre_compile) cs" and "b_vsb b = Some v"
  shows "\<exists>f. ban_add_tests pcre_compile b cs =
    Some (Inr (b\<lparr>b_flags := f, b_vsb := Some (v @ concat (map (\<lambda>c. test_bytes (test_of pcre_compile c)) cs))\<rparr>)) \<and>
    f = (if list_ex cond_req cs then b_flags b OR BAN_F_REQ else b_flags b)"
  using assms
proof (induction cs arbitrary: b v)
  case Nil
  then show ?case by simp
next
  case (Cons c cs)
  obtain a1 a2 a3 where c: "c = (a1, a2, a3)" by (cases c) auto
  let ?b = "b\<lparr>b_flags := (if cond_req c then b_flags b OR BAN_F_REQ else b_flags b),
    b_vsb := Some (v @ test_bytes (test_of pcre_compile c))\<rparr>"
  have add: "BAN_AddTest pcre_compile b a1 a2 a3 = Some (Inr ?b)"
    using BAN_AddTest_ok [of pcre_compile a1 a2 a3 b v] Cons.prems c by simp
  have "b_vsb ?b = Some (v @ test_bytes (test_of pcre_compile c))" by simp
  from Cons.IH [OF _ this] Cons.prems(1) show ?case using add c by (auto simp: or.assoc)
qed

lemma cond_evaluates:
  assumes "cond_ok pcre_compile c" and "http_full objhttp" and "http_full reqhttp" and "t_b (h_hd reqhttp ! HTTP_HDR_URL) \<noteq> NULL"
  shows "\<exists>x. ban_arg1 objhttp reqhttp (test_of pcre_compile c) = Some x \<and>
    ban_oper pcre_exec (test_of pcre_compile c) x = Some (cond_holds pcre_compile pcre_exec objhttp reqhttp c)"
proof -
  obtain a1 a2 a3 where c: "c = (a1, a2, a3)" by (cases c) auto
  have u: "HTTP_HDR_URL < h_shd reqhttp" using assms(3) by (auto simp: http_full_def http_ok_def http_hdr_defs)
  have "ban_arg1 objhttp reqhttp (test_of pcre_compile c) = Some (cond_arg objhttp reqhttp a1)"
    using assms u by (auto simp: c ban_arg1_def cond_arg_def hd_at_def http_GetHdr_value ban_bytes)
  moreover have "ban_oper pcre_exec (test_of pcre_compile c) (cond_arg objhttp reqhttp a1) =
      Some (cond_holds pcre_compile pcre_exec objhttp reqhttp c)"
    using assms(1) by (auto simp: c ban_oper_def ban_bytes Let_def split: sum.splits option.splits)
  ultimately show ?thesis by blast
qed

lemma ban_eval_loop_conds:
  assumes "list_all (cond_ok pcre_compile) cs" and "http_full objhttp" and "http_full reqhttp" and "t_b (h_hd reqhttp ! HTTP_HDR_URL) \<noteq> NULL"
  shows "\<exists>k. ban_eval_loop pcre_exec objhttp reqhttp (concat (map (\<lambda>c. test_bytes (test_of pcre_compile c)) cs)) tests =
    Some (list_all (cond_holds pcre_compile pcre_exec objhttp reqhttp) cs, k) \<and> k \<le> tests + length cs"
  using assms(1)
proof (induction cs arbitrary: tests)
  case Nil
  then show ?case by (simp add: ban_eval_loop.simps)
next
  case (Cons c cs)
  let ?rest = "concat (map (\<lambda>c. test_bytes (test_of pcre_compile c)) cs)"
  have it: "ban_iter (test_bytes (test_of pcre_compile c) @ ?rest) = Some (test_of pcre_compile c, ?rest)"
    using ban_iter_test_bytes [OF test_of_ok] Cons.prems by simp
  have ne: "test_bytes (test_of pcre_compile c) \<noteq> []" by (simp add: test_bytes_def)
  have ok: "cond_ok pcre_compile c" using Cons.prems by simp
  obtain x where x: "ban_arg1 objhttp reqhttp (test_of pcre_compile c) = Some x"
      "ban_oper pcre_exec (test_of pcre_compile c) x = Some (cond_holds pcre_compile pcre_exec objhttp reqhttp c)"
    using cond_evaluates [OF ok assms(2-4)] by blast
  show ?case
    using Cons.IH [of "tests + 1"] Cons.prems it ne x
    by (subst ban_eval_loop.simps) (cases "cond_holds pcre_compile pcre_exec objhttp reqhttp c"; auto)
qed

lemma ban_render_test:
  assumes "test_ok bt"
  shows "\<exists>a. ban_render_arg1 bt = Some a" "\<exists>p. ban_render_oper bt = Some p"
  using assms by (auto simp: test_ok_def ban_render_arg1_def ban_render_oper_def split: option.splits)

lemma ban_render_loop_conds:
  assumes "list_all (cond_ok pcre_compile) cs"
  shows "\<exists>t. ban_render_loop (concat (map (\<lambda>c. test_bytes (test_of pcre_compile c)) cs)) = Some t"
  using assms
proof (induction cs)
  case Nil
  then show ?case by (simp add: ban_render_loop.simps)
next
  case (Cons c cs)
  let ?rest = "concat (map (\<lambda>c. test_bytes (test_of pcre_compile c)) cs)"
  have ok: "test_ok (test_of pcre_compile c)" using test_of_ok Cons.prems by simp
  have ne: "test_bytes (test_of pcre_compile c) \<noteq> []" by (simp add: test_bytes_def)
  obtain a p where a: "ban_render_arg1 (test_of pcre_compile c) = Some a" and p: "ban_render_oper (test_of pcre_compile c) = Some p"
    using ban_render_test [OF ok] by blast
  show ?case using Cons.IH Cons.prems ban_iter_test_bytes [OF ok, of ?rest] ne a p by (subst ban_render_loop.simps) auto
qed

lemma ban_spec_body:
  assumes "length v + 13 < 2 ^ 32"
  shows "ban_len (ban_make_spec f v) = Some (length v + 13)" "drop 5 (take (length v + 13 - 8) (ban_make_spec f v)) = v"
proof -
  have "unat (of_nat (length v + 13) :: u32) = length v + 13"
    by (rule unat_of_nat_small) (use assms in simp)
  then show "ban_len (ban_make_spec f v) = Some (length v + 13)"
    by (simp add: ban_len_def ban_make_spec_def vbe32_roundtrip)
qed (simp add: ban_make_spec_def)

lemma ban_render_spec:
  assumes "list_all (cond_ok pcre_compile) cs" "length (concat (map (\<lambda>c. test_bytes (test_of pcre_compile c)) cs)) + 13 < 2 ^ 32"
  shows "\<exists>t. ban_render (ban_make_spec f (concat (map (\<lambda>c. test_bytes (test_of pcre_compile c)) cs))) = Some t"
  using ban_render_loop_conds [OF assms(1)] ban_spec_body [OF assms(2), of f]
  by (simp add: ban_render_def) (simp add: ban_make_spec_def)

lemma ban_evaluate_spec:
  assumes "list_all (cond_ok pcre_compile) cs" and "http_full objhttp" and "http_full reqhttp"
    and "t_b (h_hd reqhttp ! HTTP_HDR_URL) \<noteq> NULL"
    and "length (concat (map (\<lambda>c. test_bytes (test_of pcre_compile c)) cs)) + 13 < 2 ^ 32"
  shows "\<exists>k. ban_evaluate pcre_exec (ban_make_spec f (concat (map (\<lambda>c. test_bytes (test_of pcre_compile c)) cs))) objhttp reqhttp n =
      Some (list_all (cond_holds pcre_compile pcre_exec objhttp reqhttp) cs, k)"
proof -
  let ?v = "concat (map (\<lambda>c. test_bytes (test_of pcre_compile c)) cs)"
  note ban_spec_body [OF assms(5), of f]
  then have "ban_evaluate pcre_exec (ban_make_spec f ?v) objhttp reqhttp n =
      ban_eval_loop pcre_exec objhttp reqhttp ?v n"
    by (simp add: ban_evaluate_def ban_make_spec_def)
  then show ?thesis using ban_eval_loop_conds [OF assms(1-4), of pcre_exec n] by auto
qed

text \<open>
  C10: a ban built from accepted tests and stored as bytes evaluates, for
  every object and request, to the conjunction of its tests, each read as the documentation has it:
  the named URL or header compared with or matched against the argument.
\<close>
theorem ban_evaluate_correct:
  assumes "list_all (cond_ok pcre_compile) cs" and "http_full objhttp" and "http_full reqhttp"
    and "t_b (h_hd reqhttp ! HTTP_HDR_URL) \<noteq> NULL"
    and "length (concat (map (\<lambda>c. test_bytes (test_of pcre_compile c)) cs)) + 13 < 2 ^ 32"
  shows "\<exists>b v k. ban_add_tests pcre_compile (BAN_New :: 'o ban) cs = Some (Inr b) \<and> b_vsb b = Some v \<and>
    ban_evaluate pcre_exec (ban_make_spec (b_flags b) v) objhttp reqhttp 0 =
      Some (list_all (cond_holds pcre_compile pcre_exec objhttp reqhttp) cs, k)"
proof -
  have "b_vsb (BAN_New :: 'o ban) = Some []" by (simp add: BAN_New_def)
  from ban_add_tests_ok [OF assms(1) this]
  obtain b where "ban_add_tests pcre_compile (BAN_New :: 'o ban) cs = Some (Inr b)"
    "b_vsb b = Some (concat (map (\<lambda>c. test_bytes (test_of pcre_compile c)) cs))" by auto
  then show ?thesis using ban_evaluate_spec [OF assms, of pcre_exec _ 0] by auto
qed

text \<open>A regular expression library for the examples: an expression matches the texts that contain it.\<close>

definition ex_compile :: "string \<Rightarrow> string + char list" where
  "ex_compile s = (if s = ''('' then Inl ''missing )'' else Inr s)"

definition ex_exec :: "char list \<Rightarrow> string \<Rightarrow> bool" where
  "ex_exec re s = list_ex (\<lambda>k. take (length re) (drop k s) = re) [0..<length s + 1]"

definition ex_conds :: "ban_cond list" where
  "ex_conds = [(''req.url'', ''~'', ''/''), (''obj.http.X-A'', ''!='', ''3'')]"

theorem ban_evaluate_correct_witness:
  "\<exists>b v k. ban_add_tests ex_compile (BAN_New :: nat ban) ex_conds = Some (Inr b) \<and> b_vsb b = Some v \<and>
     ban_evaluate ex_exec (ban_make_spec (b_flags b) v) http_ex http_ex 0 = Some (True, k)"
proof -
  have ok: "list_all (cond_ok ex_compile) ex_conds" by (simp add: ex_conds_def ex_compile_def)
  have ev: "list_all (cond_holds ex_compile ex_exec http_ex http_ex) ex_conds"
    "length (concat (map (\<lambda>c. test_bytes (test_of ex_compile c)) ex_conds)) < 100" by code_simp+
  have "t_b (h_hd http_ex ! HTTP_HDR_URL) \<noteq> NULL" by (simp add: http_ex_def HTTP_HDR_URL_def lit_def)
  from ban_evaluate_correct [OF ok http_ex_full http_ex_full this, of ex_exec, where 'o = nat] ev show ?thesis by simp
qed

text \<open>
  Adding a test never leaves the ban half changed in silence: with a
  header name of at most 126 characters it returns, and it returns an error exactly when the field is
  none of the three known kinds, the operator is unknown, or the regular expression does not compile.
\<close>
theorem BAN_AddTest_verdict:
  assumes "b_vsb b = Some v" and "length a1 \<le> 135"
  shows "\<exists>r. BAN_AddTest pcre_compile b a1 a2 a3 = Some r \<and>
    (isl r \<longleftrightarrow> \<not> (take 7 a1 = ''req.url'' \<or> take 9 a1 \<in> {''req.http.'', ''obj.http.''}) \<or>
       a2 \<notin> {''=='', ''!='', ''~'', ''!~''} \<or> a2 \<in> {''~'', ''!~''} \<and> isl (pcre_compile a3))"
proof (cases "find_pvar a1")
  case None
  then show ?thesis by (auto simp: BAN_AddTest_def find_pvar_simps split: if_splits)
next
  case (Some pv)
  then have f: "take 7 a1 = ''req.url'' \<or> take 9 a1 \<in> {''req.http.'', ''obj.http.''}" and n: "pv_http pv \<longrightarrow> length (pv_name pv) = 9"
    by (auto simp: find_pvar_simps split: if_splits)
  have "\<exists>v'. (if pv_http pv then ban_parse_http (v @ [pv_tag pv]) (drop (length (pv_name pv)) a1) else Some (v @ [pv_tag pv])) = Some v'"
    using n assms(2) by (auto simp: ban_parse_http_def assert_c_def)
  then obtain v' where v': "(if pv_http pv then ban_parse_http (v @ [pv_tag pv]) (drop (length (pv_name pv)) a1) else Some (v @ [pv_tag pv])) = Some v'" ..
  show ?thesis
    using f by (simp add: BAN_AddTest_def Some Let_def v' assms(1) ban_parse_regexp_def split: sum.splits)
qed

theorem BAN_AddTest_verdict_witness:
  "\<exists>r. BAN_AddTest ex_compile (BAN_New :: nat ban) ''req.urlx'' ''~'' ''('' = Some r \<and> isl r"
  using BAN_AddTest_verdict [of "BAN_New :: nat ban" "[]" "''req.urlx''" ex_compile "''~''" "''(''"]
  by (auto simp: BAN_New_def ex_compile_def)

end
