(* ===== verification/Ban_List.thy ===== *)
theory Ban_List
  imports Ban_Spec
begin

text \<open>
  The list of bans and the objects that refer to it, \<^verbatim>\<open>bin/varnishd/cache_ban.c\<close>: adding bans,
  giving objects their reference, checking an object against the bans newer than it, and dropping bans
  that no object refers to any more.

  Bans are structures in a store, named by numbers; a ban that has been freed is not in the store, and
  an operation that touches it is \<open>None\<close>, like a failed assertion. Each operation is one step. For most of
  them that step is the critical section of \<open>ban_mtx\<close>; \<open>BAN_Insert\<close>, \<open>BAN_CheckObject\<close> and \<open>ban.list\<close> walk the list without the
  lock between two critical sections, and what other threads do to the list meanwhile is not modelled. The calls into the persistent storage (\<open>SMP_NewBan\<close>) and the object's
  stevedore (\<open>oc_updatemeta\<close>) do not change this state.
\<close>

subsection \<open>State\<close>

type_synonym ban_id = nat

record 'o bans =
  bl_list :: "ban_id list"
  bl_ban :: "ban_id \<Rightarrow> 'o ban option"
  bl_start :: "ban_id option"
  bl_magic :: "ban_id option"
  oc_ban :: "'o \<Rightarrow> ban_id option"
  n_ban :: int
  n_ban_add :: nat
  n_ban_retire :: nat
  n_ban_dups :: nat
  n_ban_obj_test :: nat
  n_ban_re_test :: nat

definition ban_upd :: "ban_id \<Rightarrow> ('o ban \<Rightarrow> 'o ban) \<Rightarrow> 'o bans \<Rightarrow> 'o bans option" where
  "ban_upd i f s = do { b \<leftarrow> bl_ban s i; Some (s\<lparr>bl_ban := (bl_ban s)(i \<mapsto> f b)\<rparr>) }"

definition ban_ref :: "ban_id \<Rightarrow> 'o bans \<Rightarrow> 'o bans option" where
  "ban_ref i = ban_upd i (\<lambda>b. b\<lparr>b_refcount := b_refcount b + 1\<rparr>)"

definition ban_unref :: "ban_id \<Rightarrow> 'o bans \<Rightarrow> 'o bans option" where
  "ban_unref i s = do { b \<leftarrow> bl_ban s i; assert_c (b_refcount b > 0); ban_upd i (\<lambda>b. b\<lparr>b_refcount := b_refcount b - 1\<rparr>) s }"

subsection \<open>Storage and references\<close>

definition BAN_Free :: "ban_id \<Rightarrow> 'o bans \<Rightarrow> 'o bans option" where
  "BAN_Free i s = do {
     b \<leftarrow> bl_ban s i;
     assert_c (b_refcount b = 0);
     assert_c (b_objcore b = []);
     Some (s\<lparr>bl_ban := (bl_ban s)(i := None)\<rparr>)
   }"

definition ban_CheckLast :: "'o bans \<Rightarrow> ('o bans \<times> ban_id option) option" where
  "ban_CheckLast s =
     (if bl_list s = [] then Some (s, None)
      else do {
        let i = last (bl_list s);
        b \<leftarrow> bl_ban s i;
        Some (if i \<noteq> List.hd (bl_list s) \<and> b_refcount b = 0
              then (s\<lparr>n_ban := n_ban s - 1, n_ban_retire := n_ban_retire s + 1, bl_list := butlast (bl_list s)\<rparr>, Some i)
              else (s, None))
      })"

definition BAN_TailRef :: "'o bans \<Rightarrow> ('o bans \<times> ban_id) option" where
  "BAN_TailRef s = do {
     assert_c (bl_list s \<noteq> []);
     s' \<leftarrow> ban_ref (last (bl_list s)) s;
     Some (s', last (bl_list s))
   }"

definition BAN_TailDeref :: "ban_id \<Rightarrow> 'o bans \<Rightarrow> 'o bans option" where
  "BAN_TailDeref i s = ban_unref i s"

subsection \<open>Adding bans\<close>

text \<open>The loop that hunts down duplicates of a specification \<open>sp\<close> in the bans given.\<close>

fun ban_dup_loop :: "char list \<Rightarrow> ban_id list \<Rightarrow> nat \<Rightarrow> 'o bans \<Rightarrow> ('o bans \<times> nat) option" where
  "ban_dup_loop sp [] pcount s = Some (s, pcount)"
| "ban_dup_loop sp (i # is) pcount s = do {
     b \<leftarrow> bl_ban s i;
     (if b_flags b AND BAN_F_GONE \<noteq> 0 then ban_dup_loop sp is pcount s
      else do {
        spi \<leftarrow> b_spec b;
        (if take (length sp) spi \<noteq> sp then ban_dup_loop sp is pcount s
         else ban_dup_loop sp is (pcount + 1)
                (s\<lparr>bl_ban := (bl_ban s)(i \<mapsto> b\<lparr>b_flags := b_flags b OR BAN_F_GONE\<rparr>)\<rparr>))
      })
   }"

definition BAN_Insert :: "bool \<Rightarrow> rat \<Rightarrow> ban_id \<Rightarrow> 'o ban \<Rightarrow> 'o bans \<Rightarrow> 'o bans option" where
  "BAN_Insert ban_dups t0 i b s = do {
     v \<leftarrow> b_vsb b;
     let sp = ban_make_spec (b_flags b) v;
     let b = b\<lparr>b_vsb := None, b_time := t0, b_spec := Some sp\<rparr>;
     let s = s\<lparr>bl_ban := (bl_ban s)(i \<mapsto> b), bl_list := i # bl_list s, bl_start := Some i,
               n_ban := n_ban s + 1, n_ban_add := n_ban_add s + 1\<rparr>;
     let be = last (bl_list s);
     (if ban_dups \<and> be \<noteq> i then do {
        s \<leftarrow> ban_ref be s;
        (s, pcount) \<leftarrow> ban_dup_loop sp (tl (bl_list s)) 0 s;
        s \<leftarrow> ban_unref be s;
        Some (s\<lparr>n_ban_dups := n_ban_dups s + pcount\<rparr>)
      }
      else Some s)
   }"

definition BAN_Init :: "rat \<Rightarrow> 'o bans option" where
  "BAN_Init t0 = do {
     let s = \<lparr>bl_list = [], bl_ban = (\<lambda>_. None), bl_start = None, bl_magic = None, oc_ban = (\<lambda>_. None),
              n_ban = 0, n_ban_add = 0, n_ban_retire = 0, n_ban_dups = 0, n_ban_obj_test = 0, n_ban_re_test = 0\<rparr>;
     let magic = (BAN_New :: 'o ban);
     s \<leftarrow> BAN_Insert True t0 0 (magic\<lparr>b_flags := b_flags magic OR BAN_F_GONE\<rparr>) s;
     Some (s\<lparr>bl_magic := Some 0\<rparr>)
   }"

subsection \<open>Objects\<close>

definition BAN_NewObjCore :: "'o \<Rightarrow> 'o bans \<Rightarrow> 'o bans option" where
  "BAN_NewObjCore oc s = do {
     assert_c (oc_ban s oc = None);
     i \<leftarrow> bl_start s;
     s \<leftarrow> ban_ref i s;
     s \<leftarrow> ban_upd i (\<lambda>b. b\<lparr>b_objcore := b_objcore b @ [oc]\<rparr>) s;
     Some (s\<lparr>oc_ban := (oc_ban s)(oc \<mapsto> i)\<rparr>)
   }"

definition BAN_DestroyObj :: "'o \<Rightarrow> 'o bans \<Rightarrow> 'o bans option" where
  "BAN_DestroyObj oc s = (case oc_ban s oc of
     None \<Rightarrow> Some s
   | Some i \<Rightarrow> do {
       s \<leftarrow> ban_unref i s;
       s \<leftarrow> ban_upd i (\<lambda>b. b\<lparr>b_objcore := remove1 oc (b_objcore b)\<rparr>) s;
       let s = s\<lparr>oc_ban := (oc_ban s)(oc := None)\<rparr>;
       (s, bf) \<leftarrow> ban_CheckLast s;
       (case bf of None \<Rightarrow> Some s | Some i \<Rightarrow> BAN_Free i s)
     })"

text \<open>
  Evaluating the bans from \<open>ban_start\<close> down to the object's own: the ban that matched if any, how many
  could not be tested, and how many tests were made.
\<close>

fun ban_check_loop :: "(char list \<Rightarrow> string \<Rightarrow> bool) \<Rightarrow> http \<Rightarrow> http \<Rightarrow> bool \<Rightarrow> 'o bans \<Rightarrow> ban_id \<Rightarrow> ban_id list \<Rightarrow> nat \<Rightarrow> nat \<Rightarrow>
    (ban_id option \<times> nat \<times> nat) option" where
  "ban_check_loop pcre_exec objhttp reqhttp has_req s target [] skipped tests = None"
| "ban_check_loop pcre_exec objhttp reqhttp has_req s target (i # is) skipped tests =
     (if i = target then Some (None, skipped, tests)
      else do {
        b \<leftarrow> bl_ban s i;
        (if b_flags b AND BAN_F_GONE \<noteq> 0 then ban_check_loop pcre_exec objhttp reqhttp has_req s target is skipped tests
         else if \<not> has_req \<and> b_flags b AND BAN_F_REQ \<noteq> 0
         then ban_check_loop pcre_exec objhttp reqhttp has_req s target is (skipped + 1) tests
         else do {
           sp \<leftarrow> b_spec b;
           (m, tests) \<leftarrow> ban_evaluate pcre_exec sp objhttp reqhttp tests;
           (if m then Some (Some i, skipped, tests)
            else ban_check_loop pcre_exec objhttp reqhttp has_req s target is skipped tests)
         })
      })"

text \<open>
  Returns whether the object was banned; the caller's object is then expired by \<open>EXP_Clr\<close> and
  \<open>EXP_Rearm\<close>.
\<close>

definition ban_check_object ::
  "(char list \<Rightarrow> string \<Rightarrow> bool) \<Rightarrow> http \<Rightarrow> http \<Rightarrow> bool \<Rightarrow> 'o \<Rightarrow> 'o bans \<Rightarrow> ('o bans \<times> bool) option" where
  "ban_check_object pcre_exec objhttp reqhttp has_req oc s = do {
     ob \<leftarrow> oc_ban s oc;
     _ \<leftarrow> bl_ban s ob;
     b0 \<leftarrow> bl_start s;
     _ \<leftarrow> bl_ban s b0;
     (if b0 = ob then Some (s, False)
      else do {
        (m, skipped, tests) \<leftarrow> ban_check_loop pcre_exec objhttp reqhttp has_req s ob (dropWhile (\<lambda>i. i \<noteq> b0) (bl_list s)) 0 0;
        (if m = None \<and> skipped > 0 then Some (s, False)
         else do {
           s \<leftarrow> ban_unref ob s;
           s \<leftarrow> ban_upd ob (\<lambda>b. b\<lparr>b_objcore := remove1 oc (b_objcore b)\<rparr>) s;
           s \<leftarrow> (if m = None then do {
                s \<leftarrow> ban_upd b0 (\<lambda>b. b\<lparr>b_objcore := b_objcore b @ [oc]\<rparr>) s;
                ban_ref b0 s
              } else Some s);
           let s = s\<lparr>n_ban_obj_test := n_ban_obj_test s + 1, n_ban_re_test := n_ban_re_test s + tests\<rparr>;
           Some (s\<lparr>oc_ban := (oc_ban s)(oc := (if m = None then Some b0 else None))\<rparr>, m \<noteq> None)
         })
      })
   }"

definition BAN_CheckObject :: "(char list \<Rightarrow> string \<Rightarrow> bool) \<Rightarrow> http \<Rightarrow> http \<Rightarrow> 'o \<Rightarrow> 'o bans \<Rightarrow> ('o bans \<times> bool) option" where
  "BAN_CheckObject pcre_exec objhttp reqhttp oc s = ban_check_object pcre_exec objhttp reqhttp True oc s"

subsection \<open>Bans of persistent storage\<close>

definition BAN_Time :: "ban_id option \<Rightarrow> 'o bans \<Rightarrow> rat option" where
  "BAN_Time i s = (case i of None \<Rightarrow> Some 0 | Some i \<Rightarrow> map_option b_time (bl_ban s i))"

fun ban_ref_loop :: "rat \<Rightarrow> ban_id \<Rightarrow> ban_id list \<Rightarrow> 'o bans \<Rightarrow> (ban_id \<times> rat) option" where
  "ban_ref_loop t0 tail [] s = None"
| "ban_ref_loop t0 tail (i # is) s = do {
     b \<leftarrow> bl_ban s i;
     (if b_time b \<le> t0 \<or> i = tail then Some (i, b_time b) else ban_ref_loop t0 tail is s)
   }"

definition BAN_RefBan :: "'o \<Rightarrow> rat \<Rightarrow> ban_id \<Rightarrow> 'o bans \<Rightarrow> ('o bans \<times> ban_id) option" where
  "BAN_RefBan oc t0 tail s = do {
     (i, t1) \<leftarrow> ban_ref_loop t0 tail (bl_list s) s;
     assert_c (t1 = t0);
     s \<leftarrow> ban_ref i s;
     s \<leftarrow> ban_upd i (\<lambda>b. b\<lparr>b_objcore := b_objcore b @ [oc]\<rparr>) s;
     Some (s, i)
   }"

text \<open>
  The first loop of \<open>BAN_Reload\<close>: \<open>Some None\<close> when a ban of the same time exists, else the newer bans,
  the rest of the list, and whether a newer ban has the same tests. \<open>t2\<close> is the time of the ban before,
  \<open>None\<close> for the initial 9e99.
\<close>

fun reload_loop :: "rat \<Rightarrow> char list \<Rightarrow> ban_id list \<Rightarrow> rat option \<Rightarrow> bool \<Rightarrow> 'o bans \<Rightarrow> (ban_id list \<times> ban_id list \<times> bool) option option" where
  "reload_loop t0 sp [] t2 gone s = Some (Some ([], [], gone))"
| "reload_loop t0 sp (i # is) t2 gone s = do {
     b \<leftarrow> bl_ban s i;
     let t1 = b_time b;
     assert_c (case t2 of None \<Rightarrow> True | Some t2 \<Rightarrow> t1 < t2);
     (if t1 = t0 then Some None
      else if t1 < t0 then Some (Some ([], i # is, gone))
      else do {
        spi \<leftarrow> b_spec b;
        r \<leftarrow> reload_loop t0 sp is (Some t1) (gone \<or> take (length sp) spi = sp) s;
        Some (map_option (\<lambda>(newer, older, g). (i # newer, older, g)) r)
      })
   }"

definition BAN_Reload :: "ban_id \<Rightarrow> rat \<Rightarrow> char list \<Rightarrow> 'o bans \<Rightarrow> 'o bans option" where
  "BAN_Reload i t0 sp s = do {
     n \<leftarrow> ban_len sp;
     assert_c (length sp + 8 = n);
     r \<leftarrow> reload_loop t0 sp (bl_list s) None False s;
     (case r of
        None \<Rightarrow> Some s
      | Some (newer, older, gone) \<Rightarrow> do {
          let s = s\<lparr>n_ban := n_ban s + 1, n_ban_add := n_ban_add s + 1\<rparr>;
          assert_c (5 \<le> length sp);
          let b2 = (BAN_New :: 'o ban)\<lparr>b_time := t0, b_spec := Some sp,
               b_flags := (if gone then BAN_F_GONE else 0) OR (if sp ! 4 \<noteq> NUL then BAN_F_REQ else 0)\<rparr>;
          let s = s\<lparr>bl_ban := (bl_ban s)(i \<mapsto> b2), bl_list := newer @ i # older\<rparr>;
          (s, _) \<leftarrow> ban_dup_loop sp older 0 s;
          Some s
        })
   }"

definition BAN_Compile :: "'o bans \<Rightarrow> 'o bans" where
  "BAN_Compile s = s\<lparr>bl_start := (case bl_list s of [] \<Rightarrow> None | i # _ \<Rightarrow> Some i)\<rparr>"

subsection \<open>Commands\<close>

text \<open>The tests of a \<open>ban\<close> command: every fourth argument has to be \<open>&&\<close>.\<close>

fun ban_args :: "string list \<Rightarrow> string + ban_cond list" where
  "ban_args [a1, a2, a3] = Inr [(a1, a2, a3)]"
| "ban_args (a1 # a2 # a3 # a4 # as) =
     (if a4 \<noteq> ''&&'' then Inl (''Found '' @ [CHR 0x22] @ a4 @ [CHR 0x22] @ '' expected &&'')
      else (case ban_args as of Inl err \<Rightarrow> Inl err | Inr cs \<Rightarrow> Inr ((a1, a2, a3) # cs)))"
| "ban_args _ = Inl ''Wrong number of arguments''"

definition ccf_ban :: "(string \<Rightarrow> string + char list) \<Rightarrow> bool \<Rightarrow> rat \<Rightarrow> ban_id \<Rightarrow> string list \<Rightarrow> 'o bans \<Rightarrow> (string + 'o bans) option" where
  "ccf_ban pcre_compile ban_dups t0 i args s =
     (if length args mod 4 \<noteq> 3 then Some (Inl ''Wrong number of arguments'')
      else (case ban_args args of
          Inl err \<Rightarrow> Some (Inl err)
        | Inr cs \<Rightarrow> do {
            r \<leftarrow> ban_add_tests pcre_compile (BAN_New :: 'o ban) cs;
            (case r of
               Inl err \<Rightarrow> Some (Inl err)
             | Inr b \<Rightarrow> do { s \<leftarrow> BAN_Insert ban_dups t0 i b s; Some (Inr s) })
          }))"

definition ccf_ban_url :: "(string \<Rightarrow> string + char list) \<Rightarrow> bool \<Rightarrow> rat \<Rightarrow> ban_id \<Rightarrow> string \<Rightarrow> 'o bans \<Rightarrow> (string + 'o bans) option" where
  "ccf_ban_url pcre_compile ban_dups t0 i re s = ccf_ban pcre_compile ban_dups t0 i [''req.url'', ''~'', re] s"

text \<open>
  The lines of \<open>ban.list\<close>: address, time, reference count, whether the ban is gone, and its text.
\<close>

fun ban_list_loop :: "ban_id \<Rightarrow> ban_id list \<Rightarrow> 'o bans \<Rightarrow> (ban_id \<times> rat \<times> nat \<times> bool \<times> string) list option" where
  "ban_list_loop bl [] s = Some []"
| "ban_list_loop bl (i # is) s =
     (if i = bl then Some []
      else do {
        b \<leftarrow> bl_ban s i;
        sp \<leftarrow> b_spec b;
        t \<leftarrow> ban_render sp;
        rest \<leftarrow> ban_list_loop bl is s;
        Some ((i, b_time b, b_refcount b, b_flags b AND BAN_F_GONE \<noteq> 0, t) # rest)
      })"

definition ccf_ban_list :: "'o bans \<Rightarrow> ('o bans \<times> (ban_id \<times> rat \<times> nat \<times> bool \<times> string) list) option" where
  "ccf_ban_list s = do {
     (s, bl) \<leftarrow> BAN_TailRef s;
     ls \<leftarrow> ban_list_loop bl (bl_list s) s;
     s \<leftarrow> BAN_TailDeref bl s;
     Some (s, ls)
   }"

subsection \<open>The invariant\<close>

definition gone :: "'o ban \<Rightarrow> bool" where
  "gone b \<longleftrightarrow> b_flags b AND BAN_F_GONE \<noteq> 0"

text \<open>A specification of accepted tests.\<close>

definition spec_means :: "(string \<Rightarrow> string + char list) \<Rightarrow> char list \<Rightarrow> ban_cond list \<Rightarrow> bool" where
  "spec_means pcre_compile sp cs \<longleftrightarrow> list_all (cond_ok pcre_compile) cs \<and>
     length (concat (map (\<lambda>c. test_bytes (test_of pcre_compile c)) cs)) + 13 < 2 ^ 32 \<and>
     (\<exists>f. sp = ban_make_spec f (concat (map (\<lambda>c. test_bytes (test_of pcre_compile c)) cs)))"

text \<open>
  A ban in the list: it is finished, its objects are exactly those that point to it, and its reference
  count is their number and that of the tail references \<open>T\<close> held on it.
\<close>

definition ban_wf :: "(string \<Rightarrow> string + char list) \<Rightarrow> (ban_id \<Rightarrow> nat) \<Rightarrow> 'o bans \<Rightarrow> ban_id \<Rightarrow> 'o ban \<Rightarrow> bool" where
  "ban_wf pcre_compile T s i b \<longleftrightarrow>
     (\<exists>sp cs. b_spec b = Some sp \<and> spec_means pcre_compile sp cs) \<and>
     distinct (b_objcore b) \<and> set (b_objcore b) = {oc. oc_ban s oc = Some i} \<and>
     b_refcount b = length (b_objcore b) + T i"

text \<open>A ban that is gone is repeated by a newer one that is not, except for the initial one.\<close>

definition covered :: "'o bans \<Rightarrow> bool" where
  "covered s \<longleftrightarrow> (\<forall>xs i ys b. bl_list s = xs @ i # ys \<longrightarrow> bl_ban s i = Some b \<longrightarrow> gone b \<longrightarrow>
     ys = [] \<and> bl_magic s = Some i \<or>
     (\<exists>j \<in> set xs. \<exists>c. bl_ban s j = Some c \<and> \<not> gone c \<and> b_spec c = b_spec b))"

definition ban_inv :: "(string \<Rightarrow> string + char list) \<Rightarrow> (ban_id \<Rightarrow> nat) \<Rightarrow> 'o bans \<Rightarrow> bool" where
  "ban_inv pcre_compile T s \<longleftrightarrow>
     bl_list s \<noteq> [] \<and> distinct (bl_list s) \<and> bl_start s = Some (List.hd (bl_list s)) \<and>
     (\<forall>i \<in> set (bl_list s). \<exists>b. bl_ban s i = Some b \<and> ban_wf pcre_compile T s i b) \<and>
     (\<forall>oc i. oc_ban s oc = Some i \<longrightarrow> i \<in> set (bl_list s)) \<and>
     (\<forall>i. 0 < T i \<longrightarrow> i \<in> set (bl_list s)) \<and> covered s"

lemma ban_invD:
  assumes "ban_inv pcre_compile T s"
  shows "bl_list s \<noteq> []" "distinct (bl_list s)" "bl_start s = Some (List.hd (bl_list s))" "covered s"
    "oc_ban s oc = Some i \<Longrightarrow> i \<in> set (bl_list s)" "0 < T i \<Longrightarrow> i \<in> set (bl_list s)"
    "i \<in> set (bl_list s) \<Longrightarrow> \<exists>b. bl_ban s i = Some b \<and> ban_wf pcre_compile T s i b"
  using assms by (auto simp: ban_inv_def)

text \<open>
  Operations on references change neither the list nor the flags and specifications of the bans: what
  the rest of the invariant speaks of.
\<close>

definition same_bans :: "'o bans \<Rightarrow> 'o bans \<Rightarrow> bool" where
  "same_bans s s' \<longleftrightarrow> bl_list s' = bl_list s \<and> bl_start s' = bl_start s \<and> bl_magic s' = bl_magic s \<and>
     (\<forall>i. map_option (\<lambda>b. (b_flags b, b_spec b)) (bl_ban s' i) = map_option (\<lambda>b. (b_flags b, b_spec b)) (bl_ban s i))"

lemma same_bans_refl [simp]: "same_bans s s"
  by (simp add: same_bans_def)

lemma same_bans_trans [trans]: "same_bans s t \<Longrightarrow> same_bans t u \<Longrightarrow> same_bans s u"
  by (simp add: same_bans_def)

lemma same_bansD:
  assumes "same_bans s s'" and "bl_ban s i = Some b"
  shows "\<exists>b'. bl_ban s' i = Some b' \<and> b_flags b' = b_flags b \<and> b_spec b' = b_spec b"
proof -
  have "map_option (\<lambda>b. (b_flags b, b_spec b)) (bl_ban s' i) = Some (b_flags b, b_spec b)"
    using assms by (simp add: same_bans_def)
  then show ?thesis by auto
qed

lemma same_bans_sym: "same_bans s t \<Longrightarrow> same_bans t s"
  by (simp add: same_bans_def)

lemma covered_same:
  assumes "same_bans s s'" and "covered s"
  shows "covered s'"
  unfolding covered_def
proof (intro allI impI)
  fix xs i ys b
  assume a: "bl_list s' = xs @ i # ys" "bl_ban s' i = Some b" "gone b"
  then obtain b0 where b0: "bl_ban s i = Some b0" "b_flags b0 = b_flags b" "b_spec b0 = b_spec b"
    using same_bansD [OF same_bans_sym [OF assms(1)]] by blast
  have l: "bl_list s = xs @ i # ys" "bl_magic s' = bl_magic s" using a assms(1) by (simp_all add: same_bans_def)
  have "gone b0" using a(3) b0(2) by (simp add: gone_def)
  then have "ys = [] \<and> bl_magic s = Some i \<or> (\<exists>j \<in> set xs. \<exists>c. bl_ban s j = Some c \<and> \<not> gone c \<and> b_spec c = b_spec b0)"
    using assms(2) l(1) b0(1) unfolding covered_def by blast
  then show "ys = [] \<and> bl_magic s' = Some i \<or> (\<exists>j \<in> set xs. \<exists>c. bl_ban s' j = Some c \<and> \<not> gone c \<and> b_spec c = b_spec b)"
    using same_bansD [OF assms(1)] l(2) b0(3) unfolding gone_def by metis
qed

text \<open>It is enough to look at the counts and the objects when an operation keeps the bans.\<close>

lemma ban_inv_same:
  assumes "ban_inv pcre_compile T s" and "same_bans s s'"
    and "\<And>i b'. i \<in> set (bl_list s) \<Longrightarrow> bl_ban s' i = Some b' \<Longrightarrow>
      distinct (b_objcore b') \<and> set (b_objcore b') = {oc. oc_ban s' oc = Some i} \<and> b_refcount b' = length (b_objcore b') + T' i"
    and "\<And>oc i. oc_ban s' oc = Some i \<Longrightarrow> i \<in> set (bl_list s)" and "\<And>i. 0 < T' i \<Longrightarrow> i \<in> set (bl_list s)"
  shows "ban_inv pcre_compile T' s'"
proof -
  have l: "bl_list s' = bl_list s" "bl_start s' = bl_start s" using assms(2) by (simp_all add: same_bans_def)
  have "\<exists>b'. bl_ban s' i = Some b' \<and> ban_wf pcre_compile T' s' i b'" if i: "i \<in> set (bl_list s)" for i
  proof -
    obtain b where b: "bl_ban s i = Some b" "ban_wf pcre_compile T s i b" using ban_invD(7) [OF assms(1) i] by blast
    obtain b' where b': "bl_ban s' i = Some b'" "b_spec b' = b_spec b" using same_bansD [OF assms(2) b(1)] by blast
    then show ?thesis using assms(3) [OF i b'(1)] b(2) by (auto simp: ban_wf_def)
  qed
  then show ?thesis
    using ban_invD(1-3) [OF assms(1)] l assms(4,5) covered_same [OF assms(2) ban_invD(4) [OF assms(1)]]
    by (auto simp: ban_inv_def)
qed

subsection \<open>References keep the invariant\<close>

lemma start_in_list:
  assumes "ban_inv pcre_compile T s"
  shows "\<exists>i b. bl_start s = Some i \<and> i \<in> set (bl_list s) \<and> bl_ban s i = Some b \<and> ban_wf pcre_compile T s i b"
proof -
  have "List.hd (bl_list s) \<in> set (bl_list s)" using ban_invD(1) [OF assms] by simp
  then show ?thesis using ban_invD(3) [OF assms] ban_invD(7) [OF assms] by blast
qed

lemma same_bans_upd:
  assumes "bl_ban s i = Some b" and "b_flags b' = b_flags b" and "b_spec b' = b_spec b"
  shows "same_bans s (s\<lparr>bl_ban := (bl_ban s)(i \<mapsto> b'), oc_ban := f\<rparr>)"
  using assms by (simp add: same_bans_def)

lemma BAN_NewObjCore_ok:
  assumes "ban_inv pcre_compile T s" and "oc_ban s oc = None"
  shows "\<exists>s'. BAN_NewObjCore oc s = Some s' \<and> ban_inv pcre_compile T s' \<and> oc_ban s' = (oc_ban s)(oc := bl_start s) \<and> bl_list s' = bl_list s"
proof -
  obtain i b where i: "bl_start s = Some i" "i \<in> set (bl_list s)" "bl_ban s i = Some b" "ban_wf pcre_compile T s i b"
    using start_in_list [OF assms(1)] by blast
  let ?b = "b\<lparr>b_refcount := b_refcount b + 1, b_objcore := b_objcore b @ [oc]\<rparr>"
  let ?s = "s\<lparr>bl_ban := (bl_ban s)(i \<mapsto> ?b), oc_ban := (oc_ban s)(oc \<mapsto> i)\<rparr>"
  have run: "BAN_NewObjCore oc s = Some ?s"
    using i assms(2) by (simp add: BAN_NewObjCore_def ban_ref_def ban_upd_def)
  have "ban_inv pcre_compile T ?s"
  proof (rule ban_inv_same [OF assms(1)])
    show "same_bans s ?s" by (rule same_bans_upd [OF i(3)]) simp_all
  next
    fix j b' assume j: "j \<in> set (bl_list s)" "bl_ban ?s j = Some b'"
    then show "distinct (b_objcore b') \<and> set (b_objcore b') = {oc'. oc_ban ?s oc' = Some j} \<and> b_refcount b' = length (b_objcore b') + T j"
      using i(4) assms(2) ban_invD(7) [OF assms(1) j(1)] by (cases "j = i") (auto simp: ban_wf_def)
  qed (use i(2) ban_invD [OF assms(1)] in \<open>auto split: if_splits\<close>)
  then show ?thesis using run i(1) by simp
qed

text \<open>Taking an object off its ban.\<close>

definition unlink_oc :: "'o \<Rightarrow> ban_id \<Rightarrow> 'o bans \<Rightarrow> 'o bans" where
  "unlink_oc oc i s = (case bl_ban s i of
     None \<Rightarrow> s
   | Some b \<Rightarrow> s\<lparr>bl_ban := (bl_ban s)(i \<mapsto> b\<lparr>b_refcount := b_refcount b - 1, b_objcore := remove1 oc (b_objcore b)\<rparr>),
        oc_ban := (oc_ban s)(oc := None)\<rparr>)"

lemma unlink_oc_ok:
  assumes "ban_inv pcre_compile T s" and "oc_ban s oc = Some i"
  shows "ban_inv pcre_compile T (unlink_oc oc i s)" "same_bans s (unlink_oc oc i s)"
    and "\<exists>b. bl_ban s i = Some b \<and> 0 < b_refcount b"
proof -
  obtain b where b: "bl_ban s i = Some b" "ban_wf pcre_compile T s i b"
    using ban_invD(7) [OF assms(1) ban_invD(5) [OF assms]] by blast
  then have mem: "oc \<in> set (b_objcore b)" using assms(2) by (auto simp: ban_wf_def)
  then show "\<exists>b. bl_ban s i = Some b \<and> 0 < b_refcount b"
    using b by (auto simp: ban_wf_def intro: length_pos_if_in_set)
  have u: "unlink_oc oc i s = s\<lparr>bl_ban := (bl_ban s)(i \<mapsto> b\<lparr>b_refcount := b_refcount b - 1, b_objcore := remove1 oc (b_objcore b)\<rparr>),
        oc_ban := (oc_ban s)(oc := None)\<rparr>" (is "_ = ?s") using b(1) by (simp add: unlink_oc_def)
  show same: "same_bans s (unlink_oc oc i s)" unfolding u by (rule same_bans_upd [OF b(1)]) simp_all
  show "ban_inv pcre_compile T (unlink_oc oc i s)"
  proof (rule ban_inv_same [OF assms(1) same])
    fix j b' assume j: "j \<in> set (bl_list s)" "bl_ban (unlink_oc oc i s) j = Some b'"
    show "distinct (b_objcore b') \<and> set (b_objcore b') = {oc'. oc_ban (unlink_oc oc i s) oc' = Some j} \<and>
        b_refcount b' = length (b_objcore b') + T j"
    proof (cases "j = i")
      case True
      then have b': "b' = b\<lparr>b_refcount := b_refcount b - 1, b_objcore := remove1 oc (b_objcore b)\<rparr>" using j(2) u by simp
      have "length (b_objcore b) = Suc (length (remove1 oc (b_objcore b)))"
        using mem length_pos_if_in_set [OF mem] by (simp add: length_remove1)
      then show ?thesis using True b(2) unfolding b' u by (auto simp: ban_wf_def)
    next
      case False
      then show ?thesis using j ban_invD(7) [OF assms(1) j(1)] assms(2) unfolding u by (auto simp: ban_wf_def)
    qed
  qed (use ban_invD [OF assms(1)] u in \<open>auto split: if_splits\<close>)
qed

lemma covered_butlast:
  assumes "covered s" and "bl_list s = xs @ [i]" and "i \<notin> set xs"
  shows "covered (s\<lparr>bl_list := xs, bl_ban := (bl_ban s)(i := None), n_ban := k, n_ban_retire := r\<rparr>)"
  unfolding covered_def
proof (intro allI impI)
  fix us j vs b
  let ?s = "s\<lparr>bl_list := xs, bl_ban := (bl_ban s)(i := None), n_ban := k, n_ban_retire := r\<rparr>"
  assume a: "bl_list ?s = us @ j # vs" "bl_ban ?s j = Some b" "gone b"
  then have j: "bl_list s = us @ j # (vs @ [i])" "bl_ban s j = Some b" "j \<noteq> i" using assms(2) by (auto split: if_splits)
  have "(\<exists>m \<in> set us. \<exists>c. bl_ban s m = Some c \<and> \<not> gone c \<and> b_spec c = b_spec b)"
    using assms(1) j(1,2) a(3) unfolding covered_def by blast
  moreover have "i \<notin> set us" using a(1) assms(2,3) by auto
  ultimately show "vs = [] \<and> bl_magic ?s = Some j \<or> (\<exists>m \<in> set us. \<exists>c. bl_ban ?s m = Some c \<and> \<not> gone c \<and> b_spec c = b_spec b)"
    by (auto split: if_splits)
qed

text \<open>Retiring the last ban: only one that nothing refers to, and never the newest.\<close>

lemma retire_ok:
  assumes "ban_inv pcre_compile T s"
  shows "\<exists>s'. (do { (s, bf) \<leftarrow> ban_CheckLast s; (case bf of None \<Rightarrow> Some s | Some i \<Rightarrow> BAN_Free i s) }) = Some s' \<and>
    ban_inv pcre_compile T s' \<and> oc_ban s' = oc_ban s \<and> (bl_list s' = bl_list s \<or> bl_list s' = butlast (bl_list s))"
proof -
  let ?i = "last (bl_list s)"
  have l: "bl_list s = butlast (bl_list s) @ [?i]" using ban_invD(1) [OF assms] by simp
  have mem: "?i \<in> set (bl_list s)" using ban_invD(1) [OF assms] by simp
  obtain b where b: "bl_ban s ?i = Some b" "ban_wf pcre_compile T s ?i b" using ban_invD(7) [OF assms mem] by blast
  show ?thesis
  proof (cases "?i \<noteq> List.hd (bl_list s) \<and> b_refcount b = 0")
    case False
    then show ?thesis using assms b ban_invD(1) [OF assms] by (auto simp: ban_CheckLast_def Let_def)
  next
    case True
    let ?s = "s\<lparr>bl_list := butlast (bl_list s), bl_ban := (bl_ban s)(?i := None), n_ban := n_ban s - 1, n_ban_retire := n_ban_retire s + 1\<rparr>"
    have e: "b_objcore b = []" "T ?i = 0" "\<And>oc. oc_ban s oc \<noteq> Some ?i" using True b(2) by (auto simp: ban_wf_def)
    have ne: "butlast (bl_list s) \<noteq> []" using True ban_invD(1) [OF assms] by (cases "bl_list s") auto
    have inl: "\<And>j. j \<in> set (bl_list s) \<Longrightarrow> j \<noteq> ?i \<Longrightarrow> j \<in> set (butlast (bl_list s))"
      using arg_cong [OF l, of set] by simp
    have a1: "\<And>oc i. oc_ban s oc = Some i \<Longrightarrow> i \<in> set (butlast (bl_list s))" using inl ban_invD(5) [OF assms] e(3) by metis
    have a2: "\<And>i. 0 < T i \<Longrightarrow> i \<in> set (butlast (bl_list s))" using inl ban_invD(6) [OF assms] e(2) by (metis less_not_refl)
    have hd: "List.hd (butlast (bl_list s)) = List.hd (bl_list s)" using ne by (cases "bl_list s") (auto split: if_splits)
    have notin: "?i \<notin> set (butlast (bl_list s))" using ban_invD(2) [OF assms] l by (metis distinct.simps(2) distinct_append distinct_butlast not_distinct_conv_prefix)
    have "ban_inv pcre_compile T ?s"
      unfolding ban_inv_def
    proof (intro conjI)
      show "covered ?s" by (rule covered_butlast [OF ban_invD(4) [OF assms] l notin])
      show "bl_start ?s = Some (List.hd (bl_list ?s))" using ban_invD(3) [OF assms] hd by simp
      show "\<forall>i\<in>set (bl_list ?s). \<exists>b. bl_ban ?s i = Some b \<and> ban_wf pcre_compile T ?s i b"
      proof
        fix j assume "j \<in> set (bl_list ?s)"
        then have j: "j \<in> set (bl_list s)" "j \<noteq> ?i" using notin by (auto dest: in_set_butlastD)
        then show "\<exists>b. bl_ban ?s j = Some b \<and> ban_wf pcre_compile T ?s j b"
          using ban_invD(7) [OF assms j(1)] by (auto simp: ban_wf_def)
      qed
      show "\<forall>oc i. oc_ban ?s oc = Some i \<longrightarrow> i \<in> set (bl_list ?s)" "\<forall>i. 0 < T i \<longrightarrow> i \<in> set (bl_list ?s)"
        using a1 a2 by simp_all
    qed (use ban_invD(2) [OF assms] ne in \<open>simp_all add: distinct_butlast\<close>)
    moreover have "(do { (s, bf) \<leftarrow> ban_CheckLast s; (case bf of None \<Rightarrow> Some s | Some i \<Rightarrow> BAN_Free i s) }) = Some ?s"
      using True b(1) e(1) ban_invD(1) [OF assms] by (simp add: ban_CheckLast_def Let_def BAN_Free_def)
    ultimately show ?thesis by simp
  qed
qed

lemma BAN_DestroyObj_ok:
  assumes "ban_inv pcre_compile T s"
  shows "\<exists>s'. BAN_DestroyObj oc s = Some s' \<and> ban_inv pcre_compile T s' \<and> oc_ban s' = (oc_ban s)(oc := None)"
proof (cases "oc_ban s oc")
  case None
  then show ?thesis using assms by (auto simp: BAN_DestroyObj_def fun_upd_idem)
next
  case (Some i)
  note u = unlink_oc_ok [OF assms Some]
  obtain b where b: "bl_ban s i = Some b" "0 < b_refcount b" using u(3) by blast
  have "BAN_DestroyObj oc s = (do { (s, bf) \<leftarrow> ban_CheckLast (unlink_oc oc i s); (case bf of None \<Rightarrow> Some s | Some i \<Rightarrow> BAN_Free i s) })"
    using Some b by (simp add: BAN_DestroyObj_def ban_unref_def ban_upd_def unlink_oc_def)
  moreover have "oc_ban (unlink_oc oc i s) = (oc_ban s)(oc := None)" using b by (simp add: unlink_oc_def)
  ultimately show ?thesis using retire_ok [OF u(1)] by auto
qed

lemma ban_ref_ok:
  assumes "ban_inv pcre_compile T s" and mem: "i \<in> set (bl_list s)"
  shows "\<exists>s'. ban_ref i s = Some s' \<and> ban_inv pcre_compile (T(i := T i + 1)) s' \<and> same_bans s s' \<and> oc_ban s' = oc_ban s"
proof -
  obtain b where b: "bl_ban s i = Some b" "ban_wf pcre_compile T s i b" using ban_invD(7) [OF assms] by blast
  let ?s = "s\<lparr>bl_ban := (bl_ban s)(i \<mapsto> b\<lparr>b_refcount := b_refcount b + 1\<rparr>), oc_ban := oc_ban s\<rparr>"
  have same: "same_bans s ?s" by (rule same_bans_upd [OF b(1)]) simp_all
  have "ban_inv pcre_compile (T(i := T i + 1)) ?s"
  proof (rule ban_inv_same [OF assms(1) same])
    fix j b' assume j: "j \<in> set (bl_list s)" "bl_ban ?s j = Some b'"
    then show "distinct (b_objcore b') \<and> set (b_objcore b') = {oc. oc_ban ?s oc = Some j} \<and>
        b_refcount b' = length (b_objcore b') + (T(i := T i + 1)) j"
      using b(2) ban_invD(7) [OF assms(1) j(1)] by (cases "j = i") (auto simp: ban_wf_def)
  qed (use ban_invD(5,6) [OF assms(1)] mem in \<open>auto split: if_splits\<close>)
  moreover have "ban_ref i s = Some ?s" using b(1) by (simp add: ban_ref_def ban_upd_def)
  ultimately show ?thesis using same by auto
qed

lemma ban_unref_ok:
  assumes "ban_inv pcre_compile T s" and "0 < T i"
  shows "\<exists>s'. ban_unref i s = Some s' \<and> ban_inv pcre_compile (T(i := T i - 1)) s' \<and> same_bans s s' \<and> oc_ban s' = oc_ban s"
proof -
  have mem: "i \<in> set (bl_list s)" using ban_invD(6) [OF assms] .
  obtain b where b: "bl_ban s i = Some b" "ban_wf pcre_compile T s i b" using ban_invD(7) [OF assms(1) mem] by blast
  let ?s = "s\<lparr>bl_ban := (bl_ban s)(i \<mapsto> b\<lparr>b_refcount := b_refcount b - 1\<rparr>), oc_ban := oc_ban s\<rparr>"
  have same: "same_bans s ?s" by (rule same_bans_upd [OF b(1)]) simp_all
  have "ban_inv pcre_compile (T(i := T i - 1)) ?s"
  proof (rule ban_inv_same [OF assms(1) same])
    fix j b' assume j: "j \<in> set (bl_list s)" "bl_ban ?s j = Some b'"
    then show "distinct (b_objcore b') \<and> set (b_objcore b') = {oc. oc_ban ?s oc = Some j} \<and>
        b_refcount b' = length (b_objcore b') + (T(i := T i - 1)) j"
      using b(2) assms(2) ban_invD(7) [OF assms(1) j(1)] by (cases "j = i") (auto simp: ban_wf_def)
  qed (use ban_invD(5,6) [OF assms(1)] mem in \<open>auto split: if_splits\<close>)
  moreover have "ban_unref i s = Some ?s" using b assms(2) by (simp add: ban_unref_def ban_upd_def ban_wf_def)
  ultimately show ?thesis using same by auto
qed

lemma BAN_TailRef_ok:
  assumes "ban_inv pcre_compile T s"
  shows "\<exists>s' i. BAN_TailRef s = Some (s', i) \<and> ban_inv pcre_compile (T(i := T i + 1)) s' \<and> bl_list s' = bl_list s"
proof -
  have "last (bl_list s) \<in> set (bl_list s)" using ban_invD(1) [OF assms] by simp
  from ban_ref_ok [OF assms this] show ?thesis
    using ban_invD(1) [OF assms] by (auto simp: BAN_TailRef_def same_bans_def)
qed

subsection \<open>Checking an object\<close>

text \<open>The request and the object a check is made with.\<close>

definition check_http :: "http \<Rightarrow> http \<Rightarrow> bool" where
  "check_http objhttp reqhttp \<longleftrightarrow> http_full objhttp \<and> http_full reqhttp \<and> t_b (h_hd reqhttp ! HTTP_HDR_URL) \<noteq> NULL"

text \<open>The tests of the ban hold for the object and the request.\<close>

definition ban_hits :: "(string \<Rightarrow> string + char list) \<Rightarrow> (char list \<Rightarrow> string \<Rightarrow> bool) \<Rightarrow> http \<Rightarrow> http \<Rightarrow> 'o bans \<Rightarrow> ban_id \<Rightarrow> bool" where
  "ban_hits pcre_compile pcre_exec objhttp reqhttp s i \<longleftrightarrow>
     (\<exists>b sp cs. bl_ban s i = Some b \<and> b_spec b = Some sp \<and> spec_means pcre_compile sp cs \<and>
        list_all (cond_holds pcre_compile pcre_exec objhttp reqhttp) cs)"

lemma spec_evaluates:
  assumes "spec_means pcre_compile sp cs" and "check_http objhttp reqhttp"
  shows "\<exists>k. ban_evaluate pcre_exec sp objhttp reqhttp n = Some (list_all (cond_holds pcre_compile pcre_exec objhttp reqhttp) cs, k)"
  using assms ban_evaluate_spec [of pcre_compile cs objhttp reqhttp pcre_exec _ n] by (auto simp: spec_means_def check_http_def)

lemma ban_hits_iff:
  assumes "bl_ban s i = Some b" "b_spec b = Some sp" "spec_means pcre_compile sp cs" and "check_http objhttp reqhttp"
  shows "ban_hits pcre_compile pcre_exec objhttp reqhttp s i \<longleftrightarrow> list_all (cond_holds pcre_compile pcre_exec objhttp reqhttp) cs"
proof
  assume "ban_hits pcre_compile pcre_exec objhttp reqhttp s i"
  then obtain cs' where cs': "spec_means pcre_compile sp cs'" "list_all (cond_holds pcre_compile pcre_exec objhttp reqhttp) cs'"
    using assms(1,2) unfolding ban_hits_def by force
  then show "list_all (cond_holds pcre_compile pcre_exec objhttp reqhttp) cs"
    using spec_evaluates [OF cs'(1) assms(4), of pcre_exec 0] spec_evaluates [OF assms(3,4), of pcre_exec 0]
    by (metis option.inject prod.inject)
next
  assume "list_all (cond_holds pcre_compile pcre_exec objhttp reqhttp) cs"
  then show "ban_hits pcre_compile pcre_exec objhttp reqhttp s i" using assms(1-3) unfolding ban_hits_def by blast
qed

lemma ban_check_loop_spec:
  assumes "\<forall>i \<in> set pre. \<exists>b. bl_ban s i = Some b \<and> ban_wf pcre_compile T s i b" and "target \<notin> set pre" and "check_http objhttp reqhttp"
  shows "\<exists>m sk k. ban_check_loop pcre_exec objhttp reqhttp has_req s target (pre @ target # post) skipped tests = Some (m, sk, k) \<and>
    (m \<noteq> None \<longleftrightarrow> (\<exists>i \<in> set pre. \<exists>b. bl_ban s i = Some b \<and> \<not> gone b \<and> (has_req \<or> b_flags b AND BAN_F_REQ = 0) \<and>
       ban_hits pcre_compile pcre_exec objhttp reqhttp s i)) \<and>
    (has_req \<longrightarrow> sk = skipped)"
  using assms(1,2)
proof (induction pre arbitrary: skipped tests)
  case Nil
  then show ?case by simp
next
  case (Cons i pre)
  obtain b sp cs where b: "bl_ban s i = Some b" "b_spec b = Some sp" "spec_means pcre_compile sp cs"
    using Cons.prems(1) by (fastforce simp: ban_wf_def)
  note hits = ban_hits_iff [OF b assms(3), of pcre_exec]
  obtain k where k: "ban_evaluate pcre_exec sp objhttp reqhttp tests = Some (list_all (cond_holds pcre_compile pcre_exec objhttp reqhttp) cs, k)"
    using spec_evaluates [OF b(3) assms(3)] by blast
  have ih: "\<exists>m sk k. ban_check_loop pcre_exec objhttp reqhttp has_req s target (pre @ target # post) skipped' tests' = Some (m, sk, k) \<and>
    (m \<noteq> None \<longleftrightarrow> (\<exists>i \<in> set pre. \<exists>b. bl_ban s i = Some b \<and> \<not> gone b \<and> (has_req \<or> b_flags b AND BAN_F_REQ = 0) \<and>
       ban_hits pcre_compile pcre_exec objhttp reqhttp s i)) \<and> (has_req \<longrightarrow> sk = skipped')" for skipped' tests'
    using Cons.IH Cons.prems by simp
  have ne: "i \<noteq> target" using Cons.prems(2) by auto
  consider "gone b" | "\<not> gone b" "\<not> has_req" "b_flags b AND BAN_F_REQ \<noteq> 0"
    | "\<not> gone b" "has_req \<or> b_flags b AND BAN_F_REQ = 0" by blast
  then show ?case
  proof cases
    case 1
    then show ?thesis using ih [of skipped tests] b(1) ne by (simp add: gone_def)
  next
    case 2
    then show ?thesis using ih [of "skipped + 1" tests] b(1) ne by (simp add: gone_def)
  next
    case 3
    show ?thesis
    proof (cases "list_all (cond_holds pcre_compile pcre_exec objhttp reqhttp) cs")
      case True
      then have "ban_check_loop pcre_exec objhttp reqhttp has_req s target ((i # pre) @ target # post) skipped tests = Some (Some i, skipped, k)"
        using 3 b(1,2) k ne by (auto simp: gone_def)
      then show ?thesis using 3 b(1) True hits by auto
    next
      case False
      then have "ban_check_loop pcre_exec objhttp reqhttp has_req s target ((i # pre) @ target # post) skipped tests =
          ban_check_loop pcre_exec objhttp reqhttp has_req s target (pre @ target # post) skipped k"
        using 3 b(1,2) k ne by (auto simp: gone_def)
      then show ?thesis using ih [of skipped k] False hits b(1) by simp
    qed
  qed
qed

lemma ban_inv_counters [simp]:
  "ban_inv pcre_compile T (s\<lparr>n_ban_obj_test := x, n_ban_re_test := y\<rparr>) = ban_inv pcre_compile T s"
  "ban_inv pcre_compile T (s\<lparr>n_ban_dups := z\<rparr>) = ban_inv pcre_compile T s"
  by (simp_all add: ban_inv_def ban_wf_def covered_def)

text \<open>Bans that are gone change no verdict: a newer one with the same tests is still there.\<close>

lemma gone_is_covered:
  assumes "ban_inv pcre_compile T s" and "bl_list s = pre @ ob # post" and "i \<in> set pre"
    and "ban_hits pcre_compile pcre_exec objhttp reqhttp s i"
  shows "\<exists>j \<in> set pre. \<exists>b. bl_ban s j = Some b \<and> \<not> gone b \<and> ban_hits pcre_compile pcre_exec objhttp reqhttp s j"
proof -
  obtain b sp cs where b: "bl_ban s i = Some b" "b_spec b = Some sp" "spec_means pcre_compile sp cs"
      "list_all (cond_holds pcre_compile pcre_exec objhttp reqhttp) cs" using assms(4) by (auto simp: ban_hits_def)
  show ?thesis
  proof (cases "gone b")
    case False
    then show ?thesis using assms(3,4) b(1) by blast
  next
    case True
    obtain us vs where pre: "pre = us @ i # vs" using assms(3) by (meson split_list)
    then have "bl_list s = us @ i # (vs @ ob # post)" using assms(2) by simp
    then obtain j c where j: "j \<in> set us" "bl_ban s j = Some c" "\<not> gone c" "b_spec c = b_spec b"
      using ban_invD(4) [OF assms(1)] b(1) True unfolding covered_def by blast
    then have "ban_hits pcre_compile pcre_exec objhttp reqhttp s j" using b unfolding ban_hits_def by auto
    then show ?thesis using j pre by auto
  qed
qed

lemma upd_commute:
  "b\<lparr>b_objcore := x, b_refcount := y\<rparr> = b\<lparr>b_refcount := y, b_objcore := x\<rparr>"
  "s\<lparr>bl_ban := B, n_ban_obj_test := m, n_ban_re_test := n, oc_ban := f\<rparr> =
     s\<lparr>bl_ban := B, oc_ban := f, n_ban_obj_test := m, n_ban_re_test := n\<rparr>"
  by simp_all

lemma ban_check_object_ok:
  assumes inv: "ban_inv pcre_compile T s" and ob: "oc_ban s oc = Some ob" and ht: "check_http objhttp reqhttp"
  shows "\<exists>s' banned. ban_check_object pcre_exec objhttp reqhttp has_req oc s = Some (s', banned) \<and> ban_inv pcre_compile T s' \<and>
    bl_list s' = bl_list s \<and>
    (banned \<longrightarrow> oc_ban s' = (oc_ban s)(oc := None) \<and>
       (\<exists>i \<in> set (takeWhile (\<lambda>i. i \<noteq> ob) (bl_list s)). ban_hits pcre_compile pcre_exec objhttp reqhttp s i)) \<and>
    (has_req \<and> \<not> banned \<longrightarrow> oc_ban s' = (oc_ban s)(oc := bl_start s) \<and>
       \<not> (\<exists>i \<in> set (takeWhile (\<lambda>i. i \<noteq> ob) (bl_list s)). ban_hits pcre_compile pcre_exec objhttp reqhttp s i))"
proof -
  have obl: "ob \<in> set (bl_list s)" using ban_invD(5) [OF inv ob] .
  obtain pre post where l: "bl_list s = pre @ ob # post" and np: "ob \<notin> set pre" using split_list_first [OF obl] by blast
  have tw: "takeWhile (\<lambda>i. i \<noteq> ob) (bl_list s) = pre" unfolding l using np by (induction pre) auto
  obtain b0 c0 where b0: "bl_start s = Some b0" "bl_ban s b0 = Some c0" "b0 = List.hd (bl_list s)"
    using start_in_list [OF inv] ban_invD(3) [OF inv] by auto
  have dw: "dropWhile (\<lambda>i. i \<noteq> b0) (bl_list s) = bl_list s" using b0(3) ban_invD(1) [OF inv] by (cases "bl_list s") auto
  obtain c where c: "bl_ban s ob = Some c" "0 < b_refcount c" using unlink_oc_ok(3) [OF inv ob] by blast
  show ?thesis
  proof (cases "b0 = ob")
    case True
    then have "pre = []" using l b0(3) np by (cases pre) auto
    then show ?thesis using True inv ob b0 c(1) by (auto simp: ban_check_object_def tw fun_upd_idem)
  next
    case ne: False
    have "\<forall>i \<in> set pre. \<exists>b. bl_ban s i = Some b \<and> ban_wf pcre_compile T s i b"
      using ban_invD(7) [OF inv] l by simp
    from ban_check_loop_spec [OF this np ht, of pcre_exec has_req post 0 0]
    obtain m sk k where loop: "ban_check_loop pcre_exec objhttp reqhttp has_req s ob (bl_list s) 0 0 = Some (m, sk, k)"
        "m \<noteq> None \<longleftrightarrow> (\<exists>i \<in> set pre. \<exists>b. bl_ban s i = Some b \<and> \<not> gone b \<and> (has_req \<or> b_flags b AND BAN_F_REQ = 0) \<and>
           ban_hits pcre_compile pcre_exec objhttp reqhttp s i)"
        "has_req \<longrightarrow> sk = 0"
      unfolding l by blast
    note u = unlink_oc_ok [OF inv ob]
    have uo: "oc_ban (unlink_oc oc ob s) = (oc_ban s)(oc := None)" using c by (simp add: unlink_oc_def)
    have ub: "bl_start (unlink_oc oc ob s) = Some b0" "bl_list (unlink_oc oc ob s) = bl_list s"
      using u(2) b0(1) by (simp_all add: same_bans_def)
    show ?thesis
    proof (cases m)
      case (Some i)
      let ?s = "(unlink_oc oc ob s)\<lparr>n_ban_obj_test := n_ban_obj_test s + 1, n_ban_re_test := n_ban_re_test s + k\<rparr>"
      have "ban_check_object pcre_exec objhttp reqhttp has_req oc s = Some (?s, True)"
        using ob b0 c ne loop(1) dw Some by (simp add: ban_check_object_def ban_unref_def ban_upd_def unlink_oc_def Let_def)
      moreover have "\<exists>i \<in> set pre. ban_hits pcre_compile pcre_exec objhttp reqhttp s i" using loop(2) Some by blast
      ultimately show ?thesis using u(1) uo ub(2) unfolding tw by auto
    next
      case None
      have nohit: "has_req \<longrightarrow> \<not> (\<exists>i \<in> set pre. ban_hits pcre_compile pcre_exec objhttp reqhttp s i)"
        using loop(2) None gone_is_covered [OF inv l] by blast
      show ?thesis
      proof (cases "sk = 0")
        case False
        then have "ban_check_object pcre_exec objhttp reqhttp has_req oc s = Some (s, False)"
          using ob b0 c ne loop(1) dw None by (simp add: ban_check_object_def)
        then show ?thesis using inv loop(3) False by auto
      next
        case True
        obtain s' where s': "BAN_NewObjCore oc (unlink_oc oc ob s) = Some s'" "ban_inv pcre_compile T s'"
            "oc_ban s' = (oc_ban (unlink_oc oc ob s))(oc := Some b0)" "bl_list s' = bl_list s"
          using BAN_NewObjCore_ok [OF u(1), of oc] uo ub by auto
        let ?s = "s'\<lparr>n_ban_obj_test := n_ban_obj_test s + 1, n_ban_re_test := n_ban_re_test s + k\<rparr>"
        have "ban_check_object pcre_exec objhttp reqhttp has_req oc s = Some (?s, False)"
          using ob b0(1,2) c ne loop(1) dw None True s'(1)
          by (auto simp: ban_check_object_def BAN_NewObjCore_def ban_unref_def ban_ref_def ban_upd_def unlink_oc_def Let_def upd_commute)
        then show ?thesis using s' uo nohit b0(1) unfolding tw by auto
      qed
    qed
  qed
qed

subsection \<open>Adding a ban\<close>

lemma spec_prefix_eq:
  assumes "spec_means pcre_compile sp cs" "spec_means pcre_compile sp' cs'" and "take (length sp) sp' = sp"
  shows "sp' = sp"
proof -
  let ?v = "concat (map (\<lambda>c. test_bytes (test_of pcre_compile c)) cs)" and ?v' = "concat (map (\<lambda>c. test_bytes (test_of pcre_compile c)) cs')"
  obtain f f' where f: "sp = ban_make_spec f ?v" "sp' = ban_make_spec f' ?v'" using assms(1,2) by (auto simp: spec_means_def)
  have "take 4 sp' = take 4 (take (length sp) sp')" by (simp add: f(1) ban_make_spec_def)
  then have "take 4 sp' = take 4 sp" using assms(3) by simp
  then have "vbe32enc (of_nat (length ?v + 13)) = vbe32enc (of_nat (length ?v' + 13))" by (simp add: f ban_make_spec_def)
  then have "(of_nat (length ?v + 13) :: u32) = of_nat (length ?v' + 13)"
    using vbe32_roundtrip [of _ "[]"] by (metis append_Nil2 option.inject)
  then have "unat (of_nat (length ?v + 13) :: u32) = unat (of_nat (length ?v' + 13) :: u32)" by (rule arg_cong)
  moreover have "unat (of_nat (length ?v + 13) :: u32) = length ?v + 13"
    by (rule unat_of_nat_small) (use assms(1) in \<open>simp add: spec_means_def\<close>)
  moreover have "unat (of_nat (length ?v' + 13) :: u32) = length ?v' + 13"
    by (rule unat_of_nat_small) (use assms(2) in \<open>simp add: spec_means_def\<close>)
  ultimately have "length sp' = length sp" by (simp add: f ban_make_spec_def)
  then show ?thesis using assms(3) by simp
qed

text \<open>The bans \<open>B\<close> are those of \<open>s\<close>, some older repetitions of \<open>sp\<close> being marked.\<close>

definition marked :: "char list \<Rightarrow> ban_id list \<Rightarrow> 'o bans \<Rightarrow> 'o bans \<Rightarrow> bool" where
  "marked sp is s s' \<longleftrightarrow> s' = s\<lparr>bl_ban := bl_ban s'\<rparr> \<and>
     (\<forall>j. bl_ban s' j = bl_ban s j \<or> j \<in> set is \<and> (\<exists>b. bl_ban s j = Some b \<and> b_spec b = Some sp \<and>
        bl_ban s' j = Some (b\<lparr>b_flags := b_flags b OR BAN_F_GONE\<rparr>)))"

lemma ban_dup_loop_marked:
  assumes "\<forall>j \<in> set is. \<exists>b spj cs. bl_ban s j = Some b \<and> b_spec b = Some spj \<and> spec_means pcre_compile spj cs"
    and "spec_means pcre_compile sp cs0" and "distinct is"
  shows "\<exists>s' n. ban_dup_loop sp is k s = Some (s', n) \<and> marked sp is s s'"
  using assms(1,3)
proof (induction "is" arbitrary: k s)
  case Nil
  then show ?case by (simp add: marked_def)
next
  case (Cons i "is")
  obtain b spi cs where b: "bl_ban s i = Some b" "b_spec b = Some spi" "spec_means pcre_compile spi cs" using Cons.prems(1) by auto
  show ?case
  proof (cases "gone b \<or> take (length sp) spi \<noteq> sp")
    case True
    then have "ban_dup_loop sp (i # is) k s = ban_dup_loop sp is k s" using b by (auto simp: gone_def)
    moreover obtain s' n where "ban_dup_loop sp is k s = Some (s', n)" "marked sp is s s'"
      using Cons.IH [of s k] Cons.prems by (metis distinct.simps(2) list.set_intros(2))
    ultimately show ?thesis by (auto simp: marked_def)
  next
    case False
    then have spi: "spi = sp" using spec_prefix_eq [OF assms(2) b(3)] by simp
    let ?s = "s\<lparr>bl_ban := (bl_ban s)(i \<mapsto> b\<lparr>b_flags := b_flags b OR BAN_F_GONE\<rparr>)\<rparr>"
    have step: "ban_dup_loop sp (i # is) k s = ban_dup_loop sp is (k + 1) ?s" using b False by (auto simp: gone_def)
    have "\<forall>j \<in> set is. \<exists>b spj cs. bl_ban ?s j = Some b \<and> b_spec b = Some spj \<and> spec_means pcre_compile spj cs"
      using Cons.prems by auto
    from Cons.IH [OF this, of "k + 1"] Cons.prems(2) obtain s' n where s': "ban_dup_loop sp is (k + 1) ?s = Some (s', n)" "marked sp is ?s s'"
      by (metis distinct.simps(2))
    have ni: "i \<notin> set is" using Cons.prems(2) by simp
    have e: "s' = ?s\<lparr>bl_ban := bl_ban s'\<rparr>" and m: "bl_ban s' j = bl_ban ?s j \<or> j \<in> set is \<and> (\<exists>b. bl_ban ?s j = Some b \<and> b_spec b = Some sp \<and>
        bl_ban s' j = Some (b\<lparr>b_flags := b_flags b OR BAN_F_GONE\<rparr>))" for j
      using s'(2) unfolding marked_def by blast+
    have "s' = s\<lparr>bl_ban := bl_ban s'\<rparr>" by (rule trans [OF e]) simp
    moreover have "bl_ban s' j = bl_ban s j \<or> j \<in> set (i # is) \<and> (\<exists>b. bl_ban s j = Some b \<and> b_spec b = Some sp \<and>
        bl_ban s' j = Some (b\<lparr>b_flags := b_flags b OR BAN_F_GONE\<rparr>))" for j
      using m [of j] b(1,2) spi ni by (cases "j = i") auto
    ultimately have "marked sp (i # is) s s'" unfolding marked_def by blast
    then show ?thesis using step s'(1) by auto
  qed
qed

lemma marked_inv:
  assumes inv: "ban_inv pcre_compile T s" and l: "bl_list s = i # is" and bi: "bl_ban s i = Some bi" "\<not> gone bi" "b_spec bi = Some sp"
    and m: "marked sp is s s'"
  shows "ban_inv pcre_compile T s'"
proof -
  have s': "bl_list s' = bl_list s" "bl_start s' = bl_start s" "bl_magic s' = bl_magic s" "oc_ban s' = oc_ban s"
    using m unfolding marked_def by (metis bans.select_convs bans.surjective bans.update_convs(2))+
  have mk: "bl_ban s' j = bl_ban s j \<or> j \<in> set is \<and> (\<exists>b. bl_ban s j = Some b \<and> b_spec b = Some sp \<and>
        bl_ban s' j = Some (b\<lparr>b_flags := b_flags b OR BAN_F_GONE\<rparr>))" for j using m unfolding marked_def by blast
  have ii: "bl_ban s' i = Some bi" using mk [of i] bi(1) ban_invD(2) [OF inv] l by auto
  have wf: "\<exists>b'. bl_ban s' j = Some b' \<and> ban_wf pcre_compile T s' j b'" if j: "j \<in> set (bl_list s)" for j
    using mk [of j] ban_invD(7) [OF inv j] s'(4) by (auto simp: ban_wf_def)
  have "covered s'"
    unfolding covered_def
  proof (intro allI impI)
    fix xs j ys b assume a: "bl_list s' = xs @ j # ys" "bl_ban s' j = Some b" "gone b"
    have "i \<in> set xs" using a ii bi(2) s'(1) l by (cases xs) auto
    show "ys = [] \<and> bl_magic s' = Some j \<or> (\<exists>k \<in> set xs. \<exists>c. bl_ban s' k = Some c \<and> \<not> gone c \<and> b_spec c = b_spec b)"
    proof (cases "b_spec b = Some sp")
      case True
      then show ?thesis using \<open>i \<in> set xs\<close> ii bi(2,3) by auto
    next
      case False
      then have "bl_ban s j = Some b" using mk [of j] a(2) by auto
      then have "ys = [] \<and> bl_magic s = Some j \<or> (\<exists>k \<in> set xs. \<exists>c. bl_ban s k = Some c \<and> \<not> gone c \<and> b_spec c = b_spec b)"
        using ban_invD(4) [OF inv] a(1,3) s'(1) unfolding covered_def by metis
      then show ?thesis using mk False s'(3) by (metis option.inject)
    qed
  qed
  then show ?thesis using wf ban_invD [OF inv] s' by (auto simp: ban_inv_def)
qed

lemma insert_head_inv:
  assumes inv: "ban_inv pcre_compile T s" and fresh: "bl_ban s i = None"
    and b: "b_refcount b = 0" "b_objcore b = []" "\<not> gone b" "b_spec b = Some sp" "spec_means pcre_compile sp cs"
  shows "ban_inv pcre_compile T (s\<lparr>bl_ban := (bl_ban s)(i \<mapsto> b), bl_list := i # bl_list s, bl_start := Some i,
               n_ban := k, n_ban_add := n\<rparr>)" (is "ban_inv _ _ ?s")
proof -
  have ni: "i \<notin> set (bl_list s)" using ban_invD(7) [OF inv, of i] fresh by auto
  have T: "T i = 0" using ban_invD(6) [OF inv, of i] ni by auto
  have oc: "oc_ban s oc \<noteq> Some i" for oc using ban_invD(5) [OF inv] ni by blast
  have wf: "\<exists>b'. bl_ban ?s j = Some b' \<and> ban_wf pcre_compile T ?s j b'" if "j \<in> set (bl_list ?s)" for j
  proof (cases "j = i")
    case True
    then show ?thesis using b T oc by (auto simp: ban_wf_def)
  next
    case False
    then show ?thesis using that ban_invD(7) [OF inv, of j] by (auto simp: ban_wf_def)
  qed
  have "covered ?s"
    unfolding covered_def
  proof (intro allI impI)
    fix xs j ys b' assume a: "bl_list ?s = xs @ j # ys" "bl_ban ?s j = Some b'" "gone b'"
    have "j \<noteq> i" using a b(3) by auto
    then obtain xs' where xs: "xs = i # xs'" "bl_list s = xs' @ j # ys" using a(1) by (cases xs) auto
    have "ys = [] \<and> bl_magic s = Some j \<or> (\<exists>k \<in> set xs'. \<exists>c. bl_ban s k = Some c \<and> \<not> gone c \<and> b_spec c = b_spec b')"
      using ban_invD(4) [OF inv] xs(2) a(2,3) \<open>j \<noteq> i\<close> unfolding covered_def by fastforce
    then show "ys = [] \<and> bl_magic ?s = Some j \<or> (\<exists>k \<in> set xs. \<exists>c. bl_ban ?s k = Some c \<and> \<not> gone c \<and> b_spec c = b_spec b')"
      using xs ni by auto
  qed
  then show ?thesis using wf ban_invD(2,5,6) [OF inv] ni by (auto simp: ban_inv_def)
qed

lemma BAN_Insert_ok:
  assumes inv: "ban_inv pcre_compile T s" and fresh: "bl_ban s i = None"
    and b: "b_refcount b = 0" "b_objcore b = []" "\<not> gone b" "b_vsb b = Some v" "spec_means pcre_compile (ban_make_spec (b_flags b) v) cs"
  shows "\<exists>s'. BAN_Insert ban_dups t0 i b s = Some s' \<and> ban_inv pcre_compile T s' \<and> bl_list s' = i # bl_list s \<and> oc_ban s' = oc_ban s"
proof -
  let ?sp = "ban_make_spec (b_flags b) v"
  let ?b = "b\<lparr>b_vsb := None, b_time := t0, b_spec := Some ?sp\<rparr>"
  let ?s = "s\<lparr>bl_ban := (bl_ban s)(i \<mapsto> ?b), bl_list := i # bl_list s, bl_start := Some i,
               n_ban := n_ban s + 1, n_ban_add := n_ban_add s + 1\<rparr>"
  have inv1: "ban_inv pcre_compile T ?s"
    by (rule insert_head_inv [OF inv fresh, where cs = cs]) (use b in \<open>simp_all add: gone_def\<close>)
  let ?be = "last (i # bl_list s)"
  show ?thesis
  proof (cases "ban_dups \<and> ?be \<noteq> i")
    case False
    then show ?thesis using inv1 b(4) by (auto simp: BAN_Insert_def Let_def)
  next
    case True
    have be: "?be \<in> set (bl_list ?s)" by simp
    obtain s2 where s2: "ban_ref ?be ?s = Some s2" "ban_inv pcre_compile (T(?be := T ?be + 1)) s2" "same_bans ?s s2" "oc_ban s2 = oc_ban s"
      using ban_ref_ok [OF inv1 be] by auto
    have l2: "bl_list s2 = i # bl_list s" using s2(3) by (simp add: same_bans_def)
    obtain b2 where b2: "bl_ban s2 i = Some b2" "b_flags b2 = b_flags b" "b_spec b2 = Some ?sp" using same_bansD [OF s2(3), of i ?b] by auto
    have "\<forall>j \<in> set (bl_list s). \<exists>b spj cs. bl_ban s2 j = Some b \<and> b_spec b = Some spj \<and> spec_means pcre_compile spj cs"
      using ban_invD(7) [OF s2(2)] l2 by (fastforce simp: ban_wf_def)
    from ban_dup_loop_marked [OF this b(5), of 0] obtain s3 n where
      s3: "ban_dup_loop ?sp (bl_list s) 0 s2 = Some (s3, n)" "marked ?sp (bl_list s) s2 s3" using ban_invD(2) [OF inv] by auto
    have inv3: "ban_inv pcre_compile (T(?be := T ?be + 1)) s3"
      by (rule marked_inv [OF s2(2) l2 b2(1) _ b2(3) s3(2)]) (use b(3) b2(2) in \<open>simp add: gone_def\<close>)
    have l3: "bl_list s3 = i # bl_list s" "oc_ban s3 = oc_ban s"
      using s3(2) l2 s2(4) unfolding marked_def by (metis bans.select_convs(1,5) bans.surjective bans.update_convs(2))+
    obtain s4 where s4: "ban_unref ?be s3 = Some s4" "ban_inv pcre_compile T s4" "same_bans s3 s4" "oc_ban s4 = oc_ban s3"
      using ban_unref_ok [OF inv3, of ?be] by auto
    have "BAN_Insert ban_dups t0 i b s = Some (s4\<lparr>n_ban_dups := n_ban_dups s4 + n\<rparr>)"
      using True b(4) s2(1) s3(1) s4(1) l2 by (simp add: BAN_Insert_def Let_def)
    then show ?thesis using s4 l3 by (auto simp: same_bans_def)
  qed
qed

lemma ban_add_tests_fresh:
  assumes "ban_add_tests pcre_compile (BAN_New :: 'o ban) cs = Some (Inr b)" and "list_all (cond_ok pcre_compile) cs"
    and "length (concat (map (\<lambda>c. test_bytes (test_of pcre_compile c)) cs)) + 13 < 2 ^ 32"
  shows "b_refcount b = 0" "b_objcore b = []" "\<not> gone b"
    and "\<exists>v. b_vsb b = Some v \<and> spec_means pcre_compile (ban_make_spec (b_flags b) v) cs"
proof -
  have "b_vsb (BAN_New :: 'o ban) = Some []" by (simp add: BAN_New_def)
  from ban_add_tests_ok [OF assms(2) this] assms(1)
  have b: "b = BAN_New\<lparr>b_flags := (if list_ex cond_req cs then b_flags (BAN_New :: 'o ban) OR BAN_F_REQ else b_flags (BAN_New :: 'o ban)),
      b_vsb := Some (concat (map (\<lambda>c. test_bytes (test_of pcre_compile c)) cs))\<rparr>" by auto
  show "b_refcount b = 0" "b_objcore b = []" "\<not> gone b"
    unfolding b by (auto simp: BAN_New_def gone_def BAN_F_REQ_def BAN_F_GONE_def)
  show "\<exists>v. b_vsb b = Some v \<and> spec_means pcre_compile (ban_make_spec (b_flags b) v) cs"
    using assms(2,3) unfolding b by (auto simp: spec_means_def)
qed

lemma BAN_Init_ok: "\<exists>s. BAN_Init t0 = Some s \<and> ban_inv pcre_compile (\<lambda>_. 0) (s :: 'o bans) \<and> oc_ban s = (\<lambda>_. None)"
proof -
  have "spec_means pcre_compile (ban_make_spec f []) []" for f by (auto simp: spec_means_def)
  then show ?thesis
    by (auto simp: BAN_Init_def BAN_Insert_def BAN_New_def ban_inv_def ban_wf_def covered_def Let_def Cons_eq_append_conv)
qed

subsection \<open>Every run of the ban list\<close>

text \<open>
  The states the operations lead to from \<open>BAN_Init\<close>, in any order; \<open>T\<close> counts the tail references
  that are held.
\<close>

inductive ban_reach :: "(string \<Rightarrow> string + char list) \<Rightarrow> 'o bans \<Rightarrow> (ban_id \<Rightarrow> nat) \<Rightarrow> bool"
  for pcre_compile where
  init: "BAN_Init t0 = Some s \<Longrightarrow> ban_reach pcre_compile s (\<lambda>_. 0)"
| insert: "ban_reach pcre_compile s T \<Longrightarrow> bl_ban s i = None \<Longrightarrow> list_all (cond_ok pcre_compile) cs \<Longrightarrow>
    length (concat (map (\<lambda>c. test_bytes (test_of pcre_compile c)) cs)) + 13 < 2 ^ 32 \<Longrightarrow>
    ban_add_tests pcre_compile BAN_New cs = Some (Inr b) \<Longrightarrow> BAN_Insert ban_dups t0 i b s = Some s' \<Longrightarrow> ban_reach pcre_compile s' T"
| new: "ban_reach pcre_compile s T \<Longrightarrow> BAN_NewObjCore oc s = Some s' \<Longrightarrow> ban_reach pcre_compile s' T"
| destroy: "ban_reach pcre_compile s T \<Longrightarrow> BAN_DestroyObj oc s = Some s' \<Longrightarrow> ban_reach pcre_compile s' T"
| check: "ban_reach pcre_compile s T \<Longrightarrow> check_http objhttp reqhttp \<Longrightarrow>
    ban_check_object pcre_exec objhttp reqhttp has_req oc s = Some (s', banned) \<Longrightarrow> ban_reach pcre_compile s' T"
| tailref: "ban_reach pcre_compile s T \<Longrightarrow> BAN_TailRef s = Some (s', i) \<Longrightarrow> ban_reach pcre_compile s' (T(i := T i + 1))"
| tailderef: "ban_reach pcre_compile s T \<Longrightarrow> 0 < T i \<Longrightarrow> BAN_TailDeref i s = Some s' \<Longrightarrow> ban_reach pcre_compile s' (T(i := T i - 1))"

lemma ban_reach_inv: "ban_reach pcre_compile s T \<Longrightarrow> ban_inv pcre_compile T s"
proof (induction rule: ban_reach.induct)
  case (init t0 s)
  then show ?case using BAN_Init_ok [of t0 pcre_compile, where 'o = 'a] by auto
next
  case (insert s T i cs b ban_dups t0 s')
  note f = ban_add_tests_fresh [OF insert(5,3,4)]
  from f(4) obtain v where "b_vsb b = Some v" "spec_means pcre_compile (ban_make_spec (b_flags b) v) cs" by blast
  from BAN_Insert_ok [OF insert(7,2) f(1-3) this, of ban_dups t0] show ?case using insert(6) by auto
next
  case (new s T oc s')
  then have "oc_ban s oc = None" by (simp add: BAN_NewObjCore_def bind_eq_Some_conv)
  from BAN_NewObjCore_ok [OF new(3) this] show ?case using new(2) by auto
next
  case (destroy s T oc s')
  from BAN_DestroyObj_ok [OF destroy(3), of oc] show ?case using destroy(2) by auto
next
  case (check s T objhttp reqhttp pcre_exec has_req oc s' banned)
  then obtain ob where "oc_ban s oc = Some ob" by (auto simp: ban_check_object_def bind_eq_Some_conv)
  from ban_check_object_ok [OF check(4) this check(2), of pcre_exec has_req] show ?case using check(3) by auto
next
  case (tailref s T s' i)
  from BAN_TailRef_ok [OF tailref(3)] show ?case using tailref(2) by (auto simp: fun_upd_def)
next
  case (tailderef s T i s')
  from ban_unref_ok [OF tailderef(4,2)] show ?case using tailderef(3) by (auto simp: BAN_TailDeref_def fun_upd_def)
qed

text \<open>Every ban of the list can be printed.\<close>

lemma ban_list_loop_ok:
  assumes "\<And>i. i \<in> set l \<Longrightarrow> \<exists>b. bl_ban s i = Some b \<and> ban_wf pcre_compile T s i b"
  shows "\<exists>ls. ban_list_loop bl l s = Some ls"
  using assms
proof (induction l)
  case (Cons i l)
  obtain b sp cs where b: "bl_ban s i = Some b" "b_spec b = Some sp" "spec_means pcre_compile sp cs"
    using Cons.prems [of i] by (auto simp: ban_wf_def)
  obtain f where f: "sp = ban_make_spec f (concat (map (\<lambda>c. test_bytes (test_of pcre_compile c)) cs))"
    "list_all (cond_ok pcre_compile) cs" "length (concat (map (\<lambda>c. test_bytes (test_of pcre_compile c)) cs)) + 13 < 2 ^ 32"
    using b(3) unfolding spec_means_def by blast
  obtain t where "ban_render sp = Some t" unfolding f(1) using ban_render_spec [OF f(2,3)] by blast
  then show ?case using Cons.IH Cons.prems b by auto
qed simp

lemma ccf_ban_list_ok:
  assumes "ban_inv pcre_compile T s"
  shows "\<exists>s' ls. ccf_ban_list s = Some (s', ls)"
proof -
  obtain s1 i where 1: "BAN_TailRef s = Some (s1, i)" "ban_inv pcre_compile (T(i := T i + 1)) s1"
    using BAN_TailRef_ok [OF assms] by (auto simp: fun_upd_def)
  obtain ls where ls: "ban_list_loop i (bl_list s1) s1 = Some ls"
    using ban_list_loop_ok [of "bl_list s1" s1 pcre_compile "T(i := T i + 1)" i] ban_invD(7) [OF 1(2)] by blast
  have "0 < (T(i := T i + 1)) i" by simp
  from ban_unref_ok [OF 1(2) this] obtain s2 where "BAN_TailDeref i s1 = Some s2" by (auto simp: BAN_TailDeref_def)
  then show ?thesis using 1(1) ls by (simp add: ccf_ban_list_def)
qed

text \<open>A run for the examples: an object is made, then two equal bans are added.\<close>

definition ex_bans :: "nat bans option" where
  "ex_bans = do {
     s \<leftarrow> BAN_Init 0;
     s \<leftarrow> BAN_NewObjCore 7 s;
     r \<leftarrow> ban_add_tests ex_compile BAN_New ex_conds;
     (case r of Inl _ \<Rightarrow> None | Inr b \<Rightarrow> do { s \<leftarrow> BAN_Insert True 1 1 b s; BAN_Insert True 2 2 b s })
   }"

lemma ex_bans_reach: "\<exists>s. ex_bans = Some s \<and> ban_reach ex_compile s (\<lambda>_. 0)"
proof -
  have ok: "list_all (cond_ok ex_compile) ex_conds" by (simp add: ex_conds_def ex_compile_def)
  have "length (concat (map (\<lambda>c. test_bytes (test_of ex_compile c)) ex_conds)) < 100" by code_simp
  then have len: "length (concat (map (\<lambda>c. test_bytes (test_of ex_compile c)) ex_conds)) + 13 < 2 ^ 32" by simp
  have ev: "map_option (\<lambda>s. (bl_ban s 1 = None, bl_ban s 2 = None)) (do { s \<leftarrow> BAN_Init 0; BAN_NewObjCore (7 :: nat) s }) = Some (True, True)"
    "map_option (\<lambda>s. bl_ban s 2 = None) (do { s \<leftarrow> BAN_Init 0; s \<leftarrow> BAN_NewObjCore (7 :: nat) s;
       r \<leftarrow> ban_add_tests ex_compile BAN_New ex_conds; (case r of Inl _ \<Rightarrow> None | Inr b \<Rightarrow> BAN_Insert True 1 1 b s) }) = Some True"
    "\<not> Option.is_none ex_bans" by code_simp+
  obtain s0 :: "nat bans" where s0: "BAN_Init 0 = Some s0" using ev(1) by (auto simp: bind_eq_Some_conv)
  obtain s1 where s1: "BAN_NewObjCore 7 s0 = Some s1" "bl_ban s1 1 = None" using ev(1) s0 by auto
  obtain b s2 where s2: "ban_add_tests ex_compile BAN_New ex_conds = Some (Inr b)" "BAN_Insert True 1 1 b s1 = Some s2" "bl_ban s2 2 = None"
    using ev(2) s0 s1 by (cases "ban_add_tests ex_compile (BAN_New :: nat ban) ex_conds"; cases "the (ban_add_tests ex_compile (BAN_New :: nat ban) ex_conds)") auto
  obtain s3 where s3: "BAN_Insert True 2 2 b s2 = Some s3" "ex_bans = Some s3"
    using ev(3) s0 s1 s2 by (auto simp: ex_bans_def Option.is_none_def)
  have "ban_reach ex_compile s1 (\<lambda>_. 0)" by (rule ban_reach.new [OF ban_reach.init [OF s0] s1(1)])
  from ban_reach.insert [OF this s1(2) ok len s2(1,2)]
  have "ban_reach ex_compile s2 (\<lambda>_. 0)" .
  from ban_reach.insert [OF this s2(3) ok len s2(1) s3(1)] show ?thesis using s3(2) by blast
qed

lemma check_http_ex: "check_http http_ex http_ex"
  by (simp add: check_http_def) (simp add: http_ex_def HTTP_HDR_URL_def lit_def)

text \<open>
  C5: in every state that the operations on bans of a running cache reach one after the other, each of
  them runs through without a failed assertion or access to a freed ban: adding a ban of tests on known fields with header
  names of at most 126 characters, giving a new object its reference, destroying any object, checking an object, taking and
  releasing a tail reference, and listing the bans; and every object's reference and every tail reference points to a ban
  of the list. The loading of bans from persistent storage (\<open>BAN_Reload\<close>, \<open>BAN_RefBan\<close>) is not among the operations.
\<close>
theorem ban_list_safe:
  assumes "ban_reach pcre_compile s T"
  shows "(oc_ban s oc = None \<longrightarrow> BAN_NewObjCore oc s \<noteq> None) \<and> BAN_DestroyObj oc s \<noteq> None \<and>
    (oc_ban s oc \<noteq> None \<and> check_http objhttp reqhttp \<longrightarrow> ban_check_object pcre_exec objhttp reqhttp has_req oc s \<noteq> None) \<and>
    BAN_TailRef s \<noteq> None \<and> (0 < T i \<longrightarrow> BAN_TailDeref i s \<noteq> None) \<and> ccf_ban_list s \<noteq> None \<and>
    (bl_ban s j = None \<and> list_all (cond_ok pcre_compile) cs \<and>
       length (concat (map (\<lambda>c. test_bytes (test_of pcre_compile c)) cs)) + 13 < 2 ^ 32 \<longrightarrow>
       (\<exists>b. ban_add_tests pcre_compile BAN_New cs = Some (Inr b) \<and> BAN_Insert ban_dups t0 j b s \<noteq> None)) \<and>
    (\<forall>k. oc_ban s oc = Some k \<or> 0 < T k \<longrightarrow> k \<in> set (bl_list s) \<and> bl_ban s k \<noteq> None)"
proof (intro conjI impI allI)
  note inv = ban_reach_inv [OF assms]
  show "BAN_NewObjCore oc s \<noteq> None" if "oc_ban s oc = None" using BAN_NewObjCore_ok [OF inv that] by auto
  show "BAN_DestroyObj oc s \<noteq> None" using BAN_DestroyObj_ok [OF inv] by (metis option.distinct(1))
  show "ban_check_object pcre_exec objhttp reqhttp has_req oc s \<noteq> None" if "oc_ban s oc \<noteq> None \<and> check_http objhttp reqhttp"
    using that ban_check_object_ok [OF inv, of oc _ objhttp reqhttp pcre_exec has_req] by fastforce
  show "BAN_TailRef s \<noteq> None" using BAN_TailRef_ok [OF inv] by auto
  show "ccf_ban_list s \<noteq> None" using ccf_ban_list_ok [OF inv] by auto
  show "BAN_TailDeref i s \<noteq> None" if "0 < T i" using ban_unref_ok [OF inv that] by (auto simp: BAN_TailDeref_def)
  show "\<exists>b. ban_add_tests pcre_compile BAN_New cs = Some (Inr b) \<and> BAN_Insert ban_dups t0 j b s \<noteq> None"
    if c: "bl_ban s j = None \<and> list_all (cond_ok pcre_compile) cs \<and>
       length (concat (map (\<lambda>c. test_bytes (test_of pcre_compile c)) cs)) + 13 < 2 ^ 32"
  proof -
    obtain b where b: "ban_add_tests pcre_compile (BAN_New :: 'a ban) cs = Some (Inr b)"
      using ban_add_tests_ok [of pcre_compile cs "BAN_New :: 'a ban"] c by (auto simp: BAN_New_def)
    note f = ban_add_tests_fresh [OF b]
    obtain v where "b_vsb b = Some v" "spec_means pcre_compile (ban_make_spec (b_flags b) v) cs" using f(4) c by blast
    from BAN_Insert_ok [OF inv _ f(1-3) this, of j ban_dups t0] show ?thesis using c b by auto
  qed
  fix k assume k: "oc_ban s oc = Some k \<or> 0 < T k"
  then show "k \<in> set (bl_list s)" using ban_invD(5,6) [OF inv] by blast
  then show "bl_ban s k \<noteq> None" using ban_invD(7) [OF inv] by (metis option.distinct(1))
qed

theorem ban_list_safe_witness:
  "\<exists>s. ex_bans = Some s \<and> BAN_DestroyObj 7 s \<noteq> None \<and> BAN_NewObjCore 8 s \<noteq> None \<and> 0 \<in> set (bl_list s)"
proof -
  obtain s where s: "ex_bans = Some s" "ban_reach ex_compile s (\<lambda>_. 0)" using ex_bans_reach by blast
  have "map_option (\<lambda>s. (oc_ban s 7, oc_ban s 8)) ex_bans = Some (Some 0, None)" by code_simp
  then have "oc_ban s 7 = Some 0" "oc_ban s 8 = None" unfolding s(1) by simp_all
  then have "BAN_DestroyObj 7 s \<noteq> None" "BAN_NewObjCore 8 s \<noteq> None" "0 \<in> set (bl_list s)"
    using ban_list_safe [OF s(2), of 7] ban_list_safe [OF s(2), of 8] by simp_all
  then show ?thesis using s(1) by (intro exI [of _ s]) simp
qed

text \<open>
  C30: checking an object in any reachable state finds it banned exactly
  when some ban newer than the object's own has tests that all hold, bans marked as duplicates
  included; a banned object loses its reference, any other then refers to the newest ban.
\<close>
theorem BAN_CheckObject_correct:
  assumes "ban_reach pcre_compile s T" and "oc_ban s oc = Some ob" and "check_http objhttp reqhttp"
  shows "\<exists>s' banned. BAN_CheckObject pcre_exec objhttp reqhttp oc s = Some (s', banned) \<and>
    (banned \<longleftrightarrow> (\<exists>i \<in> set (takeWhile (\<lambda>i. i \<noteq> ob) (bl_list s)). ban_hits pcre_compile pcre_exec objhttp reqhttp s i)) \<and>
    oc_ban s' = (oc_ban s)(oc := (if banned then None else Some (List.hd (bl_list s))))"
proof -
  note inv = ban_reach_inv [OF assms(1)]
  show ?thesis
    using ban_check_object_ok [OF inv assms(2,3), of pcre_exec True] ban_invD(3) [OF inv]
    by (auto simp: BAN_CheckObject_def)
qed

theorem BAN_CheckObject_correct_witness:
  "\<exists>s s' i. ex_bans = Some s \<and> BAN_CheckObject ex_exec http_ex http_ex 7 s = Some (s', True) \<and> oc_ban s' 7 = None \<and>
     ban_hits ex_compile ex_exec http_ex http_ex s i"
proof -
  obtain s where s: "ex_bans = Some s" "ban_reach ex_compile s (\<lambda>_. 0)" using ex_bans_reach by blast
  have "map_option (\<lambda>s. oc_ban s 7) ex_bans = Some (Some 0)" "map_option snd (ex_bans \<bind> BAN_CheckObject ex_exec http_ex http_ex 7) = Some True"
    by code_simp+
  then have "oc_ban s 7 = Some 0" "\<exists>s'. BAN_CheckObject ex_exec http_ex http_ex 7 s = Some (s', True)" unfolding s(1) by auto
  then obtain s' i where "BAN_CheckObject ex_exec http_ex http_ex 7 s = Some (s', True)" "oc_ban s' 7 = None"
      "ban_hits ex_compile ex_exec http_ex http_ex s i"
    using BAN_CheckObject_correct [OF s(2) _ check_http_ex, of 7 0 ex_exec] by auto
  then show ?thesis using s(1) by blast
qed

end
