(* ===== verification/Objects.thy ===== *)
theory Objects
  imports Complex_Main Hash_Slinger Binary_Heap Http
begin

text \<open>
  Objects and object cores (\<^verbatim>\<open>bin/varnishd/cache.h\<close>, and the default methods of an object core in
  \<^verbatim>\<open>bin/varnishd/stevedore.c\<close>), shared by the expiry code and the object lookup.

  Both structures live in stores indexed by references; \<open>None\<close> in a store is memory that is not
  allocated or has been freed, and an operation that follows a reference to it returns \<open>None\<close>, as it
  does for a failed assertion. The field \<open>timer_idx\<close> of an object core is kept by the expiry heap
  (\<open>bh_idx\<close>), the field \<open>ban\<close> by the ban list (\<open>oc_ban\<close>). Of the storage of an object the model has the
  LRU list of its stevedore. Times are exact rational numbers: the rounding and the special values of
  a C \<open>double\<close> are not represented.
\<close>

type_synonym ob_ref = nat
type_synonym lru_ref = nat

record exp =
  e_ttl :: rat
  e_grace :: rat
  e_keep :: rat
  e_age :: rat
  e_entered :: rat

record object =
  o_objcore :: "oc_ref option"
  o_lru :: lru_ref
  o_vary :: "char list option"
  o_hits :: int
  o_exp :: exp
  o_last_lru :: rat
  o_http :: http
  o_overflow :: bool

record busyobj =
  bo_vary :: "char list option"

record objcore =
  oc_refcnt :: u32
  oc_methods :: bool
  oc_priv :: "ob_ref option"
  oc_objhead :: "oh_ref option"
  oc_busyobj :: "busyobj option"
  oc_timer_when :: rat
  oc_flags :: u32

definition OC_F_BUSY :: u32 where "OC_F_BUSY = 2"
definition OC_F_PASS :: u32 where "OC_F_PASS = 4"
definition OC_F_LRUDONTMOVE :: u32 where "OC_F_LRUDONTMOVE = 16"

abbreviation oc_busy :: "objcore \<Rightarrow> bool" where
  "oc_busy c \<equiv> oc_flags c AND OC_F_BUSY \<noteq> 0"

text \<open>The state the expiry code works on: the heap, the LRU lists, the stores and its counters.\<close>

record exp_state =
  es_heap :: "oc_ref binheap"
  es_lru :: "lru_ref \<Rightarrow> oc_ref list"
  es_oc :: "oc_ref \<rightharpoonup> objcore"
  es_ob :: "ob_ref \<rightharpoonup> object"
  n_lru_moved :: nat
  n_expired :: nat
  n_lru_nuked :: nat

text \<open>The default methods, behind the assertions of the inline functions that call them.\<close>

definition oc_getobj :: "oc_ref \<Rightarrow> 'z exp_state_scheme \<Rightarrow> ob_ref option option" where
  "oc_getobj oc s = do { c \<leftarrow> es_oc s oc; assert_c (\<not> oc_busy c); assert_c (oc_methods c); Some (oc_priv c) }"

definition oc_getlru :: "oc_ref \<Rightarrow> 'z exp_state_scheme \<Rightarrow> lru_ref option" where
  "oc_getlru oc s = do {
     c \<leftarrow> es_oc s oc;
     assert_c (oc_methods c);
     b \<leftarrow> oc_priv c;
     ob \<leftarrow> es_ob s b;
     Some (o_lru ob)
   }"

definition oc_freeobj :: "oc_ref \<Rightarrow> 'z exp_state_scheme \<Rightarrow> 'z exp_state_scheme option" where
  "oc_freeobj oc s = do {
     c \<leftarrow> es_oc s oc;
     assert_c (oc_methods c);
     b \<leftarrow> oc_priv c;
     ob \<leftarrow> es_ob s b;
     Some (s\<lparr>es_oc := (es_oc s)(oc \<mapsto> c\<lparr>oc_priv := None, oc_methods := False\<rparr>), es_ob := (es_ob s)(b := None)\<rparr>)
   }"

definition oc_updatemeta :: "oc_ref \<Rightarrow> 'z exp_state_scheme \<Rightarrow> unit option" where
  "oc_updatemeta oc s = do { c \<leftarrow> es_oc s oc; assert_c (oc_methods c) }"

definition AssertObjBusy :: "object \<Rightarrow> 'z exp_state_scheme \<Rightarrow> unit option" where
  "AssertObjBusy ob s = do { oc \<leftarrow> o_objcore ob; c \<leftarrow> es_oc s oc; assert_c (oc_busy c) }"

text \<open>\<open>HSH_Ref\<close> of \<^verbatim>\<open>cache_hash.c\<close>: one more reference to an object core that has some.\<close>

definition HSH_Ref :: "oc_ref \<Rightarrow> 'z exp_state_scheme \<Rightarrow> 'z exp_state_scheme option" where
  "HSH_Ref oc s = do {
     c \<leftarrow> es_oc s oc;
     assert_c (oc_objhead c \<noteq> None);
     assert_c (oc_refcnt c > 0);
     Some (s\<lparr>es_oc := (es_oc s)(oc \<mapsto> c\<lparr>oc_refcnt := oc_refcnt c + 1\<rparr>)\<rparr>)
   }"

text \<open>Unlinking from a list an element that must be on it.\<close>

definition tailq_remove :: "'a \<Rightarrow> 'a list \<Rightarrow> 'a list option" where
  "tailq_remove x xs = (if x \<in> set xs then Some (remove1 x xs) else None)"

lemma tailq_remove_Some [simp]: "x \<in> set xs \<Longrightarrow> tailq_remove x xs = Some (remove1 x xs)"
  by (simp add: tailq_remove_def)

text \<open>The list of an object core depends on its methods, its object and the object's storage only.\<close>

lemma oc_getlru_alt:
  "oc_getlru oc s = do { c \<leftarrow> es_oc s oc; assert_c (oc_methods c); b \<leftarrow> oc_priv c; map_option o_lru (es_ob s b) }"
  by (auto simp: oc_getlru_def split: Option.bind_splits)

lemma oc_getlru_eq_Some:
  "oc_getlru oc s = Some l \<longleftrightarrow>
     (\<exists>c b ob. es_oc s oc = Some c \<and> oc_methods c \<and> oc_priv c = Some b \<and> es_ob s b = Some ob \<and> o_lru ob = l)"
  by (auto simp: oc_getlru_def bind_eq_Some_conv)

lemma oc_getlru_cong:
  assumes "map_option (\<lambda>c. (oc_methods c, oc_priv c)) (es_oc s' oc) = map_option (\<lambda>c. (oc_methods c, oc_priv c)) (es_oc s oc)"
    and "\<And>b. map_option o_lru (es_ob s' b) = map_option o_lru (es_ob s b)"
  shows "oc_getlru oc s' = oc_getlru oc s"
  using assms by (cases "es_oc s oc"; cases "es_oc s' oc") (simp_all add: oc_getlru_alt)

end
