(* ===== verification/Expire.thy ===== *)
theory Expire
  imports Objects
begin

text \<open>
  Expiry and LRU handling, \<^verbatim>\<open>bin/varnishd/cache_expire.c\<close>.

  Every cached object is on a binary heap ordered by the time its timer fires and on the LRU list of
  its stevedore. The mutexes are not state: each definition is one critical section, and an argument
  says whether a \<open>Lck_Trylock\<close> failed. The thread \<open>exp_timer\<close> is modelled by one round of its loop,
  with the clock readings as arguments; its release of the object, like that of \<open>EXP_NukeOne\<close>, is the
  argument \<open>deref\<close>, which the object lookup instantiates with \<open>HSH_Deref\<close>. The argument \<open>fresh\<close>
  is the content of memory a growing heap obtains.
\<close>

subsection \<open>The timers of an object\<close>

record exp_params =
  default_keep :: rat
  default_grace :: rat

definition EXP_Clr :: "exp \<Rightarrow> exp" where
  "EXP_Clr e = e\<lparr>e_ttl := -1, e_grace := -1, e_keep := -1, e_age := 0, e_entered := 0\<rparr>"

definition EXP_Get_ttl :: "exp \<Rightarrow> rat" where
  "EXP_Get_ttl e = (if e_ttl e > 0 then e_ttl e else -1)"

definition EXP_Get_grace :: "exp \<Rightarrow> rat" where
  "EXP_Get_grace e = (if e_grace e > 0 then e_grace e else 0)"

definition EXP_Get_keep :: "exp \<Rightarrow> rat" where
  "EXP_Get_keep e = (if e_keep e > 0 then e_keep e else 0)"

definition EXP_Set_ttl :: "exp \<Rightarrow> rat \<Rightarrow> exp" where
  "EXP_Set_ttl e v = (if v > 0 then e\<lparr>e_ttl := v\<rparr> else e\<lparr>e_ttl := -1, e_grace := -1, e_keep := -1\<rparr>)"

definition EXP_Set_grace :: "exp \<Rightarrow> rat \<Rightarrow> exp" where
  "EXP_Set_grace e v = (if v > 0 then e\<lparr>e_grace := v\<rparr> else e\<lparr>e_grace := -1\<rparr>)"

definition EXP_Set_keep :: "exp \<Rightarrow> rat \<Rightarrow> exp" where
  "EXP_Set_keep e v = (if v > 0 then e\<lparr>e_keep := v\<rparr> else e\<lparr>e_keep := -1\<rparr>)"

text \<open>The first argument is the session's \<open>struct exp\<close>, when there is a session.\<close>

definition EXP_Ttl :: "exp option \<Rightarrow> exp \<Rightarrow> rat" where
  "EXP_Ttl sp e =
     (let r = e_ttl e;
          r = (case sp of Some se \<Rightarrow> if e_ttl se > 0 \<and> e_ttl se < r then e_ttl se else r | None \<Rightarrow> r)
      in e_entered e + r)"

definition EXP_Grace :: "exp_params \<Rightarrow> exp option \<Rightarrow> exp \<Rightarrow> rat" where
  "EXP_Grace params sp e =
     (let r = default_grace params;
          r = (if e_grace e \<ge> 0 then e_grace e else r);
          r = (case sp of Some se \<Rightarrow> if e_grace se > 0 \<and> e_grace se < r then e_grace se else r | None \<Rightarrow> r)
      in EXP_Ttl sp e + r)"

definition EXP_Keep :: "exp_params \<Rightarrow> exp option \<Rightarrow> exp \<Rightarrow> rat" where
  "EXP_Keep params sp e =
     (let r = default_keep params;
          r = (if e_keep e > 0 then e_keep e else r);
          r = (case sp of Some se \<Rightarrow> if e_keep se > 0 \<and> e_keep se < r then e_keep se else r | None \<Rightarrow> r)
      in EXP_Ttl sp e + r)"

subsection \<open>The heap of object cores\<close>

definition timer_when :: "'z exp_state_scheme \<Rightarrow> oc_ref \<Rightarrow> rat" where
  "timer_when s oc = (case es_oc s oc of Some c \<Rightarrow> oc_timer_when c | None \<Rightarrow> 0)"

definition object_cmp :: "'z exp_state_scheme \<Rightarrow> oc_ref cmp_fn" where
  "object_cmp s a b = (timer_when s a < timer_when s b)"

text \<open>\<open>object_update\<close> stores the index of an object core; the heap keeps these in \<open>bh_idx\<close>.\<close>

abbreviation timer_idx :: "'z exp_state_scheme \<Rightarrow> oc_ref \<Rightarrow> u32" where
  "timer_idx s \<equiv> bh_idx (es_heap s)"

definition EXP_Init :: "u32 \<Rightarrow> (nat \<Rightarrow> oc_ref option) \<Rightarrow> oc_ref binheap option" where
  "EXP_Init page fresh = binheap_new page fresh True (\<lambda>_. BINHEAP_NOIDX)"

definition update_object_when :: "exp_params \<Rightarrow> ob_ref \<Rightarrow> 'z exp_state_scheme \<Rightarrow> ('z exp_state_scheme \<times> bool) option" where
  "update_object_when params b s = do {
     ob \<leftarrow> es_ob s b;
     oc \<leftarrow> o_objcore ob;
     c \<leftarrow> es_oc s oc;
     let when = EXP_Keep params None (o_exp ob);
     let w2 = EXP_Grace params None (o_exp ob);
     let when = (if w2 > when then w2 else when);
     (if when = oc_timer_when c then Some (s, False)
      else Some (s\<lparr>es_oc := (es_oc s)(oc \<mapsto> c\<lparr>oc_timer_when := when\<rparr>)\<rparr>, True))
   }"

definition exp_insert :: "(nat \<Rightarrow> oc_ref option) \<Rightarrow> oc_ref \<Rightarrow> lru_ref \<Rightarrow> 'z exp_state_scheme \<Rightarrow> 'z exp_state_scheme option" where
  "exp_insert fresh oc lru s = do {
     assert_c (timer_idx s oc = BINHEAP_NOIDX);
     h \<leftarrow> binheap_insert parent (object_cmp s) fresh (es_heap s) oc;
     assert_c (bh_idx h oc \<noteq> BINHEAP_NOIDX);
     Some (s\<lparr>es_heap := h, es_lru := (es_lru s)(lru := es_lru s lru @ [oc])\<rparr>)
   }"

definition EXP_Inject :: "(nat \<Rightarrow> oc_ref option) \<Rightarrow> oc_ref \<Rightarrow> lru_ref \<Rightarrow> rat \<Rightarrow> 'z exp_state_scheme \<Rightarrow> 'z exp_state_scheme option" where
  "EXP_Inject fresh oc lru when s = do {
     c \<leftarrow> es_oc s oc;
     exp_insert fresh oc lru (s\<lparr>es_oc := (es_oc s)(oc \<mapsto> c\<lparr>oc_timer_when := when\<rparr>)\<rparr>)
   }"

definition EXP_Insert :: "exp_params \<Rightarrow> (nat \<Rightarrow> oc_ref option) \<Rightarrow> ob_ref \<Rightarrow> 'z exp_state_scheme \<Rightarrow> 'z exp_state_scheme option" where
  "EXP_Insert params fresh b s = do {
     ob \<leftarrow> es_ob s b;
     oc \<leftarrow> o_objcore ob;
     AssertObjBusy ob s;
     s \<leftarrow> HSH_Ref oc s;
     assert_c (e_entered (o_exp ob) \<noteq> 0);
     let s = s\<lparr>es_ob := (es_ob s)(b \<mapsto> ob\<lparr>o_last_lru := e_entered (o_exp ob)\<rparr>)\<rparr>;
     lru \<leftarrow> oc_getlru oc s;
     (s, _) \<leftarrow> update_object_when params b s;
     s \<leftarrow> exp_insert fresh oc lru s;
     oc_updatemeta oc s;
     Some s
   }"

definition EXP_Touch :: "bool \<Rightarrow> oc_ref \<Rightarrow> 'z exp_state_scheme \<Rightarrow> ('z exp_state_scheme \<times> bool) option" where
  "EXP_Touch trylock oc s = do {
     c \<leftarrow> es_oc s oc;
     (if oc_flags c AND OC_F_LRUDONTMOVE \<noteq> 0 then Some (s, False)
      else do {
        lru \<leftarrow> oc_getlru oc s;
        (if trylock then Some (s, False)
         else if timer_idx s oc \<noteq> BINHEAP_NOIDX then do {
           l \<leftarrow> tailq_remove oc (es_lru s lru);
           Some (s\<lparr>es_lru := (es_lru s)(lru := l @ [oc]), n_lru_moved := n_lru_moved s + 1\<rparr>, True)
         }
         else Some (s, True))
      })
   }"

definition EXP_Rearm :: "exp_params \<Rightarrow> ob_ref \<Rightarrow> 'z exp_state_scheme \<Rightarrow> 'z exp_state_scheme option" where
  "EXP_Rearm params b s = do {
     ob \<leftarrow> es_ob s b;
     (case o_objcore ob of
        None \<Rightarrow> Some s
      | Some oc \<Rightarrow> do {
          lru \<leftarrow> oc_getlru oc s;
          s \<leftarrow> (if timer_idx s oc \<noteq> BINHEAP_NOIDX then do {
                  (s, changed) \<leftarrow> update_object_when params b s;
                  (if changed then do {
                     h \<leftarrow> binheap_reorder parent child (object_cmp s) (es_heap s) (timer_idx s oc);
                     assert_c (bh_idx h oc \<noteq> BINHEAP_NOIDX);
                     Some (s\<lparr>es_heap := h\<rparr>)
                   }
                   else Some s)
                }
                else Some s);
          oc_updatemeta oc s;
          Some s
        })
   }"

text \<open>
  One round of the expiry thread. \<open>t\<close> is the timestamp at hand and \<open>now\<close> the one a refresh gives;
  the result has the object core that was expired, if any, and the timestamp for the next round.
\<close>

definition exp_timer ::
  "(oc_ref option \<Rightarrow> ob_ref option \<Rightarrow> 'z exp_state_scheme \<Rightarrow> 'z exp_state_scheme option) \<Rightarrow> rat \<Rightarrow> rat \<Rightarrow> bool \<Rightarrow>
   'z exp_state_scheme \<Rightarrow> ('z exp_state_scheme \<times> oc_ref option \<times> rat) option" where
  "exp_timer deref t now trylock s = (case binheap_root (es_heap s) of
     None \<Rightarrow> Some (s, None, t)
   | Some oc \<Rightarrow> do {
       c \<leftarrow> es_oc s oc;
       let t = (if oc_timer_when c > t then now else t);
       (if oc_timer_when c > t then Some (s, None, t)
        else do {
          lru \<leftarrow> oc_getlru oc s;
          (if trylock then Some (s, None, t)
           else do {
             assert_c (timer_idx s oc \<noteq> BINHEAP_NOIDX);
             h \<leftarrow> binheap_delete parent child (object_cmp s) (es_heap s) (timer_idx s oc);
             assert_c (bh_idx h oc = BINHEAP_NOIDX);
             lru \<leftarrow> oc_getlru oc s;
             l \<leftarrow> tailq_remove oc (es_lru s lru);
             let s = s\<lparr>es_heap := h, es_lru := (es_lru s)(lru := l), n_expired := n_expired s + 1\<rparr>;
             assert_c (oc_objhead c \<noteq> None);
             b \<leftarrow> oc_getobj oc s;
             assert_c (b \<noteq> None);
             s \<leftarrow> deref (Some oc) None s;
             Some (s, Some oc, t)
           })
        })
     })"

text \<open>The scan of \<open>EXP_NukeOne\<close>: the first object core of the list with a single reference.\<close>

fun nuke_scan :: "'z exp_state_scheme \<Rightarrow> oc_ref list \<Rightarrow> oc_ref option option" where
  "nuke_scan s [] = Some None"
| "nuke_scan s (oc # ocs) = do {
     c \<leftarrow> es_oc s oc;
     assert_c (timer_idx s oc \<noteq> BINHEAP_NOIDX);
     (if oc_refcnt c = 1 then Some (Some oc) else nuke_scan s ocs)
   }"

definition EXP_NukeOne ::
  "(oc_ref option \<Rightarrow> ob_ref option \<Rightarrow> 'z exp_state_scheme \<Rightarrow> 'z exp_state_scheme option) \<Rightarrow> lru_ref \<Rightarrow>
   'z exp_state_scheme \<Rightarrow> ('z exp_state_scheme \<times> int) option" where
  "EXP_NukeOne deref lru s = do {
     r \<leftarrow> nuke_scan s (es_lru s lru);
     (case r of
        None \<Rightarrow> Some (s, -1)
      | Some oc \<Rightarrow> do {
          l \<leftarrow> tailq_remove oc (es_lru s lru);
          h \<leftarrow> binheap_delete parent child (object_cmp s) (es_heap s) (timer_idx s oc);
          assert_c (bh_idx h oc = BINHEAP_NOIDX);
          let s = s\<lparr>es_heap := h, es_lru := (es_lru s)(lru := l), n_lru_nuked := n_lru_nuked s + 1\<rparr>;
          b \<leftarrow> oc_getobj oc s;
          assert_c (b \<noteq> None);
          s \<leftarrow> deref None b s;
          Some (s, 1)
        })
   }"

subsection \<open>The invariant\<close>

text \<open>
  The heap is in order, an object core is on the list of its stevedore exactly when it is on the heap,
  and no list has one twice.
\<close>

definition exp_inv :: "'z exp_state_scheme \<Rightarrow> bool" where
  "exp_inv s \<longleftrightarrow> vm_inv (timer_when s) (es_heap s) \<and> (\<forall>l. distinct (es_lru s l)) \<and>
     (\<forall>l oc. oc \<in> set (es_lru s l) \<longleftrightarrow> oc \<in> bh_members (es_heap s) \<and> oc_getlru oc s = Some l) \<and>
     (\<forall>oc \<in> bh_members (es_heap s). oc_getlru oc s \<noteq> None)"

text \<open>The object cores that wait for their timer.\<close>

abbreviation on_heap :: "'z exp_state_scheme \<Rightarrow> oc_ref set" where
  "on_heap s \<equiv> bh_members (es_heap s)"

lemma exp_invD:
  assumes "exp_inv s"
  shows "vm_inv (timer_when s) (es_heap s)" "distinct (es_lru s l)"
    "oc \<in> set (es_lru s l) \<longleftrightarrow> oc \<in> on_heap s \<and> oc_getlru oc s = Some l"
    "oc \<in> on_heap s \<Longrightarrow> \<exists>l. oc_getlru oc s = Some l \<and> oc \<in> set (es_lru s l)"
  using assms unfolding exp_inv_def by fast+

lemma object_cmp_key: "object_cmp s = (\<lambda>a b. timer_when s a < timer_when s b)"
  by (simp add: object_cmp_def fun_eq_iff)

lemma heap_idx_iff: "exp_inv s \<Longrightarrow> timer_idx s oc \<noteq> BINHEAP_NOIDX \<longleftrightarrow> oc \<in> on_heap s"
  by (auto simp: exp_inv_def heap_inv_def content_ok_def)

lemma vm_inv_idx: "vm_inv key h \<Longrightarrow> bh_idx h p \<noteq> BINHEAP_NOIDX \<longleftrightarrow> p \<in> bh_members h"
  by (auto simp: heap_inv_def content_ok_def)

text \<open>The order depends on the keys of the elements only.\<close>

lemma vm_inv_cong:
  assumes inv: "vm_inv key h" and eq: "\<And>q. q \<in> bh_members h \<Longrightarrow> key' q = key q"
  shows "vm_inv key' h"
proof -
  have i: "page_ok (bh_page h)" "bh_next h \<le> UINT_MAX" "content_ok h" "heap_order parent (\<lambda>a b. key a < key b) h"
    using inv by (simp_all add: heap_inv_def)
  have "\<not> key' (the (bh_A h v)) < key' (the (bh_A h w))"
    if v: "1 < v" "v < bh_next h" "parent (bh_page h) v = Some w" for v w
  proof -
    have "1 \<le> w" "w < v" using vm.par_less [OF i(1) v(1)] v i(2) by (auto dest: less_le_trans)
    then have "the (bh_A h v) \<in> bh_members h" "the (bh_A h w) \<in> bh_members h"
      using content_cell [OF i(3), of v] content_cell [OF i(3), of w] v by (force dest: less_trans)+
    then show ?thesis using i(4) v eq unfolding heap_order_def by metis
  qed
  then show ?thesis using inv by (auto simp: heap_inv_def heap_order_def)
qed

text \<open>Changes of the stores that keep the timers and the lists of what is on the heap.\<close>

lemma exp_inv_frame:
  assumes "exp_inv s" and "es_heap s' = es_heap s" and "es_lru s' = es_lru s"
    and "\<And>oc. oc \<in> on_heap s \<Longrightarrow> timer_when s' oc = timer_when s oc \<and> oc_getlru oc s' = oc_getlru oc s"
  shows "exp_inv s'"
proof -
  have "vm_inv (timer_when s') (es_heap s)"
    using vm_inv_cong [OF exp_invD(1) [OF assms(1)], of "timer_when s'"] assms(4) by blast
  moreover have "oc \<in> on_heap s \<and> oc_getlru oc s' = Some l \<longleftrightarrow> oc \<in> on_heap s \<and> oc_getlru oc s = Some l" for oc l
    using assms(4) by auto
  ultimately show ?thesis using assms unfolding exp_inv_def by auto
qed

text \<open>Taking an object core off the heap and its list, and putting one on.\<close>

lemma pull_ok:
  assumes inv: "exp_inv s" and oc: "oc \<in> on_heap s" and l: "oc_getlru oc s = Some l"
  shows "\<exists>h. binheap_delete parent child (object_cmp s) (es_heap s) (timer_idx s oc) = Some h \<and>
    bh_idx h oc = BINHEAP_NOIDX \<and> bh_members h = on_heap s - {oc} \<and> oc \<in> set (es_lru s l) \<and>
    (\<forall>s' :: 'z exp_state_scheme. es_heap s' = h \<longrightarrow> es_lru s' = (es_lru s)(l := remove1 oc (es_lru s l)) \<longrightarrow>
      es_oc s' = es_oc s \<longrightarrow> es_ob s' = es_ob s \<longrightarrow> exp_inv s')"
proof -
  note i = exp_invD [OF inv]
  obtain h where h: "binheap_delete parent child (object_cmp s) (es_heap s) (timer_idx s oc) = Some h"
      "vm_inv (timer_when s) h" "bh_members h = on_heap s - {oc}"
    using vm_heap.delete_ok [OF i(1) oc] unfolding object_cmp_key by blast
  have "exp_inv s'" if s': "es_heap s' = h" "es_lru s' = (es_lru s)(l := remove1 oc (es_lru s l))"
      "es_oc s' = es_oc s" "es_ob s' = es_ob s" for s' :: "'z exp_state_scheme"
  proof -
    have t: "timer_when s' = timer_when s" "\<And>x. oc_getlru x s' = oc_getlru x s"
      by (simp_all add: timer_when_def oc_getlru_def s' fun_eq_iff)
    have "x \<in> set (es_lru s' k) \<longleftrightarrow> x \<in> bh_members h \<and> oc_getlru x s = Some k" for x k
      using i(2) [of l] i(3) [of x] l by (cases "k = l") (auto simp: s'(2) h(3))
    moreover have "distinct (es_lru s' k)" for k using i(2) by (simp add: s'(2))
    ultimately show ?thesis using h(2,3) i(4) by (fastforce simp: exp_inv_def t s'(1))
  qed
  then show ?thesis using h i(3) oc l vm_inv_idx [OF h(2), of oc] by blast
qed

definition heap_room :: "'z exp_state_scheme \<Rightarrow> bool" where
  "heap_room s \<longleftrightarrow> unat (bh_next (es_heap s)) < HEAP_MAX"

lemma exp_insert_ok:
  assumes inv: "exp_inv s" and oc: "oc \<notin> on_heap s" and l: "oc_getlru oc s = Some l" and room: "heap_room s"
  shows "\<exists>h. exp_insert fresh oc l s = Some (s\<lparr>es_heap := h, es_lru := (es_lru s)(l := es_lru s l @ [oc])\<rparr>) \<and>
    bh_members h = insert oc (on_heap s) \<and> exp_inv (s\<lparr>es_heap := h, es_lru := (es_lru s)(l := es_lru s l @ [oc])\<rparr>)"
proof -
  note i = exp_invD [OF inv]
  have no: "timer_idx s oc = BINHEAP_NOIDX" using heap_idx_iff [OF inv] oc by blast
  have nx: "bh_next (es_heap s) < UINT_MAX"
    using room by (simp add: heap_room_def HEAP_MAX_def UINT_MAX_def word_less_nat_alt)
  obtain h where h: "binheap_insert parent (object_cmp s) fresh (es_heap s) oc = Some h"
      "vm_inv (timer_when s) h" "bh_members h = insert oc (on_heap s)"
    using vm_heap.insert_ok [OF i(1) no nx, of fresh] room unfolding object_cmp_key heap_room_def by blast
  let ?s = "s\<lparr>es_heap := h, es_lru := (es_lru s)(l := es_lru s l @ [oc])\<rparr>"
  have t: "timer_when ?s = timer_when s" "\<And>x. oc_getlru x ?s = oc_getlru x s"
    by (simp_all add: timer_when_def oc_getlru_def fun_eq_iff)
  have "x \<in> set (es_lru ?s k) \<longleftrightarrow> x \<in> bh_members h \<and> oc_getlru x s = Some k" for x k
    using i(3) [of x] oc l by (cases "k = l") (auto simp: h(3))
  moreover have "distinct (es_lru ?s k)" for k using i(2,3) oc by auto
  ultimately have "exp_inv ?s" using h(2,3) i(4) l by (fastforce simp: exp_inv_def t)
  then show ?thesis
    using h no vm_inv_idx [OF h(2), of oc] by (intro exI [of _ h]) (simp add: exp_insert_def panic_simps)
qed

subsection \<open>Operations\<close>

text \<open>When the timer of an object fires: when its lifetime and the longer of keep and grace are over.\<close>

definition exp_when :: "exp_params \<Rightarrow> exp \<Rightarrow> rat" where
  "exp_when params e = e_entered e + e_ttl e +
     max (if e_keep e > 0 then e_keep e else default_keep params) (if e_grace e \<ge> 0 then e_grace e else default_grace params)"

lemma exp_when_code:
  "(if EXP_Grace params None e > EXP_Keep params None e then EXP_Grace params None e else EXP_Keep params None e) = exp_when params e"
  by (simp add: EXP_Grace_def EXP_Keep_def EXP_Ttl_def exp_when_def Let_def max_def)

lemma update_object_when_eq:
  assumes "es_ob s b = Some ob" and "o_objcore ob = Some oc" and "es_oc s oc = Some c"
  shows "update_object_when params b s =
    Some (s\<lparr>es_oc := (es_oc s)(oc \<mapsto> c\<lparr>oc_timer_when := exp_when params (o_exp ob)\<rparr>)\<rparr>, exp_when params (o_exp ob) \<noteq> oc_timer_when c)"
proof -
  have "s\<lparr>es_oc := (es_oc s)(oc \<mapsto> c)\<rparr> = s" using assms(3) by (simp add: fun_upd_idem)
  then show ?thesis using assms unfolding update_object_when_def Let_def exp_when_code by simp
qed

text \<open>Changing an object core that is not on the heap, or only its references.\<close>

lemma exp_inv_oc_off:
  assumes "exp_inv s" and "oc \<notin> on_heap s" and "es_heap s' = es_heap s" and "es_lru s' = es_lru s"
    and "\<And>x. x \<noteq> oc \<Longrightarrow> es_oc s' x = es_oc s x" and "\<And>x. map_option o_lru (es_ob s' x) = map_option o_lru (es_ob s x)"
  shows "exp_inv s'"
proof (rule exp_inv_frame [OF assms(1,3,4)])
  fix x assume "x \<in> on_heap s"
  then have "x \<noteq> oc" using assms(2) by blast
  then show "timer_when s' x = timer_when s x \<and> oc_getlru x s' = oc_getlru x s"
    using assms(5,6) oc_getlru_cong [of s' x s] by (simp add: timer_when_def)
qed

lemma EXP_Insert_ok:
  assumes inv: "exp_inv s" and ob: "es_ob s b = Some ob" "o_objcore ob = Some oc" and c: "es_oc s oc = Some c"
    and busy: "oc_busy c" and ref: "oc_objhead c \<noteq> None" "oc_refcnt c > 0" and m: "oc_methods c" "oc_priv c = Some b"
    and ent: "e_entered (o_exp ob) \<noteq> 0" and oc: "oc \<notin> on_heap s" and room: "heap_room s"
  shows "\<exists>h. EXP_Insert params fresh b s = Some (s\<lparr>es_oc := (es_oc s)(oc \<mapsto> c\<lparr>oc_refcnt := oc_refcnt c + 1, oc_timer_when := exp_when params (o_exp ob)\<rparr>),
      es_ob := (es_ob s)(b \<mapsto> ob\<lparr>o_last_lru := e_entered (o_exp ob)\<rparr>),
      es_heap := h, es_lru := (es_lru s)(o_lru ob := es_lru s (o_lru ob) @ [oc])\<rparr>) \<and>
    bh_members h = insert oc (on_heap s) \<and>
    exp_inv (s\<lparr>es_oc := (es_oc s)(oc \<mapsto> c\<lparr>oc_refcnt := oc_refcnt c + 1, oc_timer_when := exp_when params (o_exp ob)\<rparr>),
      es_ob := (es_ob s)(b \<mapsto> ob\<lparr>o_last_lru := e_entered (o_exp ob)\<rparr>),
      es_heap := h, es_lru := (es_lru s)(o_lru ob := es_lru s (o_lru ob) @ [oc])\<rparr>)"
proof -
  let ?c = "c\<lparr>oc_refcnt := oc_refcnt c + 1, oc_timer_when := exp_when params (o_exp ob)\<rparr>"
  let ?s1 = "s\<lparr>es_oc := (es_oc s)(oc \<mapsto> c\<lparr>oc_refcnt := oc_refcnt c + 1\<rparr>), es_ob := (es_ob s)(b \<mapsto> ob\<lparr>o_last_lru := e_entered (o_exp ob)\<rparr>)\<rparr>"
  let ?s = "s\<lparr>es_oc := (es_oc s)(oc \<mapsto> ?c), es_ob := (es_ob s)(b \<mapsto> ob\<lparr>o_last_lru := e_entered (o_exp ob)\<rparr>)\<rparr>"
  have "exp_inv ?s" using exp_inv_oc_off [OF inv oc, of ?s] ob by auto
  moreover have "oc_getlru oc ?s = Some (o_lru ob)" "oc_getlru oc ?s1 = Some (o_lru ob)"
    using m by (simp_all add: oc_getlru_def panic_simps)
  ultimately obtain h where h: "exp_insert fresh oc (o_lru ob) ?s = Some (?s\<lparr>es_heap := h, es_lru := (es_lru s)(o_lru ob := es_lru s (o_lru ob) @ [oc])\<rparr>)"
      "bh_members h = insert oc (on_heap s)" "exp_inv (?s\<lparr>es_heap := h, es_lru := (es_lru s)(o_lru ob := es_lru s (o_lru ob) @ [oc])\<rparr>)"
    using exp_insert_ok [of ?s oc "o_lru ob" fresh] oc room by (auto simp: heap_room_def)
  have u: "update_object_when params b ?s1 = Some (?s, exp_when params (o_exp ob) \<noteq> oc_timer_when c)"
    using update_object_when_eq [of ?s1 b "ob\<lparr>o_last_lru := e_entered (o_exp ob)\<rparr>" oc "c\<lparr>oc_refcnt := oc_refcnt c + 1\<rparr>" params] ob by simp
  have "EXP_Insert params fresh b s = Some (?s\<lparr>es_heap := h, es_lru := (es_lru s)(o_lru ob := es_lru s (o_lru ob) @ [oc])\<rparr>)"
    using ob c busy ref m ent u h(1) \<open>oc_getlru oc ?s1 = _\<close>
    by (simp add: EXP_Insert_def AssertObjBusy_def HSH_Ref_def oc_updatemeta_def panic_simps)
  then show ?thesis using h(2,3) by (intro exI [of _ h]) simp
qed

lemma EXP_Touch_ok:
  assumes inv: "exp_inv s" and c: "es_oc s oc = Some c" and l: "oc_getlru oc s = Some l"
  shows "\<exists>moved r. EXP_Touch trylock oc s = Some (if moved then s\<lparr>es_lru := (es_lru s)(l := remove1 oc (es_lru s l) @ [oc]),
      n_lru_moved := n_lru_moved s + 1\<rparr> else s, r) \<and>
    (moved \<longleftrightarrow> oc_flags c AND OC_F_LRUDONTMOVE = 0 \<and> \<not> trylock \<and> oc \<in> on_heap s) \<and>
    exp_inv (if moved then s\<lparr>es_lru := (es_lru s)(l := remove1 oc (es_lru s l) @ [oc]), n_lru_moved := n_lru_moved s + 1\<rparr> else s)"
proof -
  note i = exp_invD [OF inv]
  let ?s = "s\<lparr>es_lru := (es_lru s)(l := remove1 oc (es_lru s l) @ [oc]), n_lru_moved := n_lru_moved s + 1\<rparr>"
  have "exp_inv ?s" if oc: "oc \<in> on_heap s"
  proof -
    have "timer_when ?s = timer_when s" "\<And>x. oc_getlru x ?s = oc_getlru x s"
      by (simp_all add: timer_when_def oc_getlru_def fun_eq_iff)
    moreover have "set (es_lru ?s k) = set (es_lru s k)" "distinct (es_lru ?s k)" for k
      using i(2) [of l] i(2) [of k] i(3) [of oc l] oc l by auto
    ultimately show ?thesis using inv unfolding exp_inv_def by simp
  qed
  moreover have "oc \<in> on_heap s \<Longrightarrow> oc \<in> set (es_lru s l)" using i(3) [of oc l] l by blast
  ultimately show ?thesis
    using heap_idx_iff [OF inv, of oc] c l inv
    by (intro exI [of _ "oc_flags c AND OC_F_LRUDONTMOVE = 0 \<and> \<not> trylock \<and> oc \<in> on_heap s"]
        exI [of _ "oc_flags c AND OC_F_LRUDONTMOVE = 0 \<and> \<not> trylock"]) (auto simp: EXP_Touch_def)
qed

lemma EXP_Rearm_ok:
  assumes inv: "exp_inv s" and ob: "es_ob s b = Some ob" "o_objcore ob = Some oc" and c: "es_oc s oc = Some c"
    and m: "oc_methods c" "oc_priv c = Some b"
  shows "\<exists>h c'. EXP_Rearm params b s = Some (s\<lparr>es_oc := (es_oc s)(oc \<mapsto> c'), es_heap := h\<rparr>) \<and> bh_members h = on_heap s \<and>
    c' = (if oc \<in> on_heap s then c\<lparr>oc_timer_when := exp_when params (o_exp ob)\<rparr> else c) \<and>
    exp_inv (s\<lparr>es_oc := (es_oc s)(oc \<mapsto> c'), es_heap := h\<rparr>)"
proof -
  note i = exp_invD [OF inv]
  let ?c = "c\<lparr>oc_timer_when := exp_when params (o_exp ob)\<rparr>"
  let ?s = "s\<lparr>es_oc := (es_oc s)(oc \<mapsto> ?c)\<rparr>"
  have l: "oc_getlru oc s = Some (o_lru ob)" using c m ob by (simp add: oc_getlru_def panic_simps)
  have u: "update_object_when params b s = Some (?s, exp_when params (o_exp ob) \<noteq> oc_timer_when c)"
    by (rule update_object_when_eq [OF ob c])
  have same: "s\<lparr>es_oc := (es_oc s)(oc \<mapsto> c), es_heap := es_heap s\<rparr> = s" using c by (simp add: fun_upd_idem)
  show ?thesis
  proof (cases "oc \<in> on_heap s \<and> exp_when params (o_exp ob) \<noteq> oc_timer_when c")
    case True
    obtain h where h: "binheap_reorder parent child (object_cmp ?s) (es_heap s) (timer_idx s oc) = Some h"
        "vm_inv (timer_when ?s) h" "bh_members h = on_heap s"
      using vm_heap.reorder_ok [OF i(1), of oc "timer_when ?s"] True
      unfolding object_cmp_key by (auto simp: timer_when_def)
    have "oc_getlru x (?s\<lparr>es_heap := h\<rparr>) = oc_getlru x s" for x
      by (rule oc_getlru_cong) (auto simp: c)
    moreover have "timer_when (?s\<lparr>es_heap := h\<rparr>) = timer_when ?s" by (simp add: timer_when_def fun_eq_iff)
    ultimately have "exp_inv (?s\<lparr>es_heap := h\<rparr>)" using inv h(2,3) by (simp add: exp_inv_def)
    then show ?thesis
      using True h u l ob m heap_idx_iff [OF inv, of oc] vm_inv_idx [OF h(2), of oc]
      by (intro exI [of _ h] exI [of _ ?c]) (simp add: EXP_Rearm_def oc_updatemeta_def panic_simps)
  next
    case False
    let ?c1 = "if oc \<in> on_heap s then ?c else c"
    have "?c1 = c" using False by auto
    then have "s\<lparr>es_oc := (es_oc s)(oc \<mapsto> ?c1), es_heap := es_heap s\<rparr> = s" using same by simp
    moreover have "EXP_Rearm params b s = Some s"
      using False u l ob m c heap_idx_iff [OF inv, of oc] \<open>?c1 = c\<close> same
      by (auto simp: EXP_Rearm_def oc_updatemeta_def panic_simps)
    ultimately show ?thesis using inv by (intro exI [of _ "es_heap s"] exI [of _ ?c1]) simp
  qed
qed

lemma on_heap_object:
  assumes "exp_inv s" and "oc \<in> on_heap s"
  shows "\<exists>c b ob. es_oc s oc = Some c \<and> oc_methods c \<and> oc_priv c = Some b \<and> es_ob s b = Some ob \<and>
    oc_getlru oc s = Some (o_lru ob) \<and> oc \<in> set (es_lru s (o_lru ob)) \<and> timer_when s oc = oc_timer_when c"
proof -
  obtain l where l: "oc_getlru oc s = Some l" "oc \<in> set (es_lru s l)" using exp_invD(4) [OF assms] by blast
  then obtain c b ob where "es_oc s oc = Some c" "oc_methods c" "oc_priv c = Some b" "es_ob s b = Some ob" "o_lru ob = l"
    unfolding oc_getlru_eq_Some by blast
  then show ?thesis using l by (simp add: timer_when_def)
qed

text \<open>The state after an object core was pulled, before its reference is released.\<close>

definition pulled :: "oc_ref \<Rightarrow> 'z exp_state_scheme \<Rightarrow> 'z exp_state_scheme \<Rightarrow> bool" where
  "pulled oc s s' \<longleftrightarrow> exp_inv s' \<and> on_heap s' = on_heap s - {oc} \<and> es_oc s' = es_oc s \<and> es_ob s' = es_ob s \<and>
     (\<forall>l. es_lru s' l = remove1 oc (es_lru s l)) \<and> exp_state.more s' = exp_state.more s"

lemma exp_timer_spec:
  assumes inv: "exp_inv s"
    and busy: "\<And>oc c. oc \<in> on_heap s \<Longrightarrow> es_oc s oc = Some c \<Longrightarrow> oc_timer_when c \<le> max t now \<Longrightarrow> \<not> oc_busy c \<and> oc_objhead c \<noteq> None"
  shows "(\<exists>t'. exp_timer deref t now trylock s = Some (s, None, t') \<and>
      (trylock \<or> (\<forall>oc \<in> on_heap s. t < timer_when s oc \<and> now < timer_when s oc))) \<or>
    (\<exists>oc s1 t'. exp_timer deref t now trylock s = do { s' \<leftarrow> deref (Some oc) None s1; Some (s', Some oc, t') } \<and>
      oc \<in> on_heap s \<and> (\<forall>q \<in> on_heap s. timer_when s oc \<le> timer_when s q) \<and> timer_when s oc \<le> t' \<and> t' \<in> {t, now} \<and> pulled oc s s1)"
proof (cases "binheap_root (es_heap s)")
  case None
  then have "on_heap s = {}" using vm_heap.root_ok [OF exp_invD(1) [OF inv]] by simp
  then show ?thesis using None by (simp add: exp_timer_def)
next
  case (Some oc)
  then have root: "oc \<in> on_heap s" "\<And>q. q \<in> on_heap s \<Longrightarrow> timer_when s oc \<le> timer_when s q"
    using vm_heap.root_ok [OF exp_invD(1) [OF inv]] by (auto simp: not_less)
  obtain c b ob where o: "es_oc s oc = Some c" "oc_methods c" "oc_priv c = Some b" "es_ob s b = Some ob"
      "oc_getlru oc s = Some (o_lru ob)" "oc \<in> set (es_lru s (o_lru ob))" "timer_when s oc = oc_timer_when c"
    using on_heap_object [OF inv root(1)] by blast
  define t' where "t' = (if oc_timer_when c > t then now else t)"
  show ?thesis
  proof (cases "oc_timer_when c > t' \<or> trylock")
    case True
    have "exp_timer deref t now trylock s = Some (s, None, t')"
      using True Some o(1,5) by (auto simp: exp_timer_def t'_def Let_def)
    moreover have "t < timer_when s q \<and> now < timer_when s q" if "q \<in> on_heap s" "\<not> trylock" for q
    proof -
      have "t < oc_timer_when c" "now < oc_timer_when c" using True that by (auto simp: t'_def split: if_splits)
      then show ?thesis using root(2) [OF that(1)] o(7) by simp
    qed
    ultimately show ?thesis by blast
  next
    case False
    note nb = busy [OF root(1) o(1)]
    have due: "oc_timer_when c \<le> t'" "t' \<in> {t, now}" using False by (auto simp: t'_def)
    then have nb: "\<not> oc_busy c" "oc_objhead c \<noteq> None" using nb by (auto simp: max_def split: if_splits)
    obtain h where h: "binheap_delete parent child (object_cmp s) (es_heap s) (timer_idx s oc) = Some h"
        "bh_idx h oc = BINHEAP_NOIDX" "bh_members h = on_heap s - {oc}"
        "\<And>s' :: 'a exp_state_scheme. es_heap s' = h \<Longrightarrow> es_lru s' = (es_lru s)(o_lru ob := remove1 oc (es_lru s (o_lru ob))) \<Longrightarrow>
          es_oc s' = es_oc s \<Longrightarrow> es_ob s' = es_ob s \<Longrightarrow> exp_inv s'"
      using pull_ok [OF inv root(1) o(5)] by blast
    let ?s = "s\<lparr>es_heap := h, es_lru := (es_lru s)(o_lru ob := remove1 oc (es_lru s (o_lru ob))), n_expired := n_expired s + 1\<rparr>"
    have "exp_timer deref t now trylock s = do { s' \<leftarrow> deref (Some oc) None ?s; Some (s', Some oc, t') }"
      using False Some o h(1,2) heap_idx_iff [OF inv, of oc] root(1) nb due
      by (simp add: exp_timer_def t'_def [symmetric] oc_getobj_def panic_simps)
    moreover have "remove1 oc (es_lru s l) = es_lru s l" if "l \<noteq> o_lru ob" for l
      using exp_invD(3) [OF inv, of oc l] o(5) that by (auto simp: remove1_idem)
    then have "pulled oc s ?s" using h(3) h(4) [of ?s] by (auto simp: pulled_def)
    ultimately show ?thesis
      using root due o(7) by (intro disjI2 exI [of _ oc] exI [of _ ?s] exI [of _ t'] conjI ballI) simp_all
  qed
qed

lemma nuke_scan_find:
  assumes "exp_inv s" and "set xs \<subseteq> on_heap s"
  shows "nuke_scan s xs = Some (List.find (\<lambda>oc. map_option oc_refcnt (es_oc s oc) = Some 1) xs)"
  using assms(2)
proof (induction xs)
  case (Cons oc xs)
  then show ?case using on_heap_object [OF assms(1), of oc] heap_idx_iff [OF assms(1), of oc] by (auto simp: panic_simps)
qed simp

lemma EXP_NukeOne_spec:
  assumes inv: "exp_inv s"
    and busy: "\<And>oc c. oc \<in> on_heap s \<Longrightarrow> es_oc s oc = Some c \<Longrightarrow> oc_refcnt c = 1 \<Longrightarrow> \<not> oc_busy c"
  shows "case List.find (\<lambda>oc. map_option oc_refcnt (es_oc s oc) = Some 1) (es_lru s l) of
    None \<Rightarrow> EXP_NukeOne deref l s = Some (s, -1)
  | Some oc \<Rightarrow> \<exists>b s1. EXP_NukeOne deref l s = do { s' \<leftarrow> deref None (Some b) s1; Some (s', 1) } \<and> pulled oc s s1 \<and>
      oc \<in> on_heap s \<and> map_option oc_priv (es_oc s oc) = Some (Some b)"
proof -
  have sub: "set (es_lru s l) \<subseteq> on_heap s" using exp_invD(3) [OF inv] by blast
  note scan = nuke_scan_find [OF inv sub]
  show ?thesis
  proof (cases "List.find (\<lambda>oc. map_option oc_refcnt (es_oc s oc) = Some 1) (es_lru s l)")
    case None
    then show ?thesis using scan by (simp add: EXP_NukeOne_def)
  next
    case (Some oc)
    then have oc: "oc \<in> set (es_lru s l)" "map_option oc_refcnt (es_oc s oc) = Some 1" by (auto simp: find_Some_iff)
    then have on: "oc \<in> on_heap s" "oc_getlru oc s = Some l" using exp_invD(3) [OF inv] by blast+
    obtain c b ob where o: "es_oc s oc = Some c" "oc_methods c" "oc_priv c = Some b" "es_ob s b = Some ob" "o_lru ob = l"
      using on_heap_object [OF inv on(1)] on(2) by auto
    obtain h where h: "binheap_delete parent child (object_cmp s) (es_heap s) (timer_idx s oc) = Some h"
        "bh_idx h oc = BINHEAP_NOIDX" "bh_members h = on_heap s - {oc}"
        "\<And>s' :: 'a exp_state_scheme. es_heap s' = h \<Longrightarrow> es_lru s' = (es_lru s)(l := remove1 oc (es_lru s l)) \<Longrightarrow>
          es_oc s' = es_oc s \<Longrightarrow> es_ob s' = es_ob s \<Longrightarrow> exp_inv s'"
      using pull_ok [OF inv on] by blast
    let ?s = "s\<lparr>es_heap := h, es_lru := (es_lru s)(l := remove1 oc (es_lru s l)), n_lru_nuked := n_lru_nuked s + 1\<rparr>"
    have "EXP_NukeOne deref l s = do { s' \<leftarrow> deref None (Some b) ?s; Some (s', 1) }"
      using scan Some oc o h(1,2) busy [OF on(1) o(1)] by (simp add: EXP_NukeOne_def oc_getobj_def panic_simps)
    moreover have "remove1 oc (es_lru s k) = es_lru s k" if "k \<noteq> l" for k
      using exp_invD(3) [OF inv, of oc k] on(2) that by (auto simp: remove1_idem)
    then have "pulled oc s ?s" using h(3) h(4) [of ?s] by (auto simp: pulled_def)
    ultimately have "\<exists>b s1. EXP_NukeOne deref l s = do { s' \<leftarrow> deref None (Some b) s1; Some (s', 1) } \<and> pulled oc s s1 \<and>
        oc \<in> on_heap s \<and> map_option oc_priv (es_oc s oc) = Some (Some b)"
      using on(1) o(1,3) by (intro exI [of _ b] exI [of _ ?s]) simp
    then show ?thesis using Some by simp
  qed
qed

lemma EXP_Init_ok:
  assumes "5 \<le> k" and "k \<le> 22"
  shows "\<exists>h. EXP_Init (2 ^ k) fresh = Some h \<and> bh_members h = {} \<and> bh_next h = 1 \<and>
    (\<forall>s :: 'z exp_state_scheme. es_heap s = h \<longrightarrow> (\<forall>l. es_lru s l = []) \<longrightarrow> exp_inv s \<and> heap_room s)"
proof -
  obtain h where h: "binheap_new (2 ^ k) fresh True (\<lambda>_ :: oc_ref. BINHEAP_NOIDX) = Some h"
      "\<And>cmp. heap_inv page_ok parent UINT_MAX cmp h" "bh_members h = {}" "bh_next h = 1"
    using binheap_new_ok [OF assms, of "\<lambda>_ :: oc_ref. BINHEAP_NOIDX" fresh parent] by (metis option.inject)
  then show ?thesis by (intro exI [of _ h]) (auto simp: EXP_Init_def exp_inv_def heap_room_def HEAP_MAX_def)
qed

subsection \<open>An example\<close>

definition ex_exp :: exp where
  "ex_exp = \<lparr>e_ttl = 10, e_grace = 5, e_keep = 0, e_age = 0, e_entered = 100\<rparr>"

definition ex_oc :: objcore where
  "ex_oc = \<lparr>oc_refcnt = 1, oc_methods = True, oc_priv = Some 2, oc_objhead = Some 3, oc_busyobj = Some \<lparr>bo_vary = None\<rparr>,
     oc_timer_when = 0, oc_flags = OC_F_BUSY\<rparr>"

definition ex_ob :: object where
  "ex_ob = \<lparr>o_objcore = Some 1, o_lru = 0, o_vary = None, o_hits = 0, o_exp = ex_exp, o_last_lru = 0, o_http = http_ex, o_overflow = False\<rparr>"

definition ex_state :: "oc_ref binheap \<Rightarrow> exp_state" where
  "ex_state h = \<lparr>es_heap = h, es_lru = (\<lambda>_. []), es_oc = [1 \<mapsto> ex_oc], es_ob = [2 \<mapsto> ex_ob], n_lru_moved = 0, n_expired = 0, n_lru_nuked = 0\<rparr>"

abbreviation ex_params :: exp_params where
  "ex_params \<equiv> \<lparr>default_keep = 0, default_grace = 10\<rparr>"

lemma ex_inserted:
  "\<exists>h s. EXP_Init 4096 (\<lambda>_. None) = Some h \<and> exp_inv (ex_state h) \<and> EXP_Insert ex_params (\<lambda>_. None) 2 (ex_state h) = Some s \<and>
    exp_inv s \<and> on_heap s = {1} \<and> es_lru s 0 = [1] \<and> es_oc s = [1 \<mapsto> ex_oc\<lparr>oc_refcnt := 2, oc_timer_when := 115\<rparr>] \<and>
    es_ob s = [2 \<mapsto> ex_ob\<lparr>o_last_lru := 100\<rparr>]"
proof -
  obtain h where h: "EXP_Init (2 ^ 12) (\<lambda>_. None) = Some h" "bh_members h = {}"
      "\<And>s :: exp_state. es_heap s = h \<Longrightarrow> (\<And>l. es_lru s l = []) \<Longrightarrow> exp_inv s \<and> heap_room s"
    using EXP_Init_ok [of 12 "\<lambda>_. None"] by auto
  then have i: "exp_inv (ex_state h)" "heap_room (ex_state h)" by (simp_all add: ex_state_def)
  have w: "exp_when ex_params ex_exp = 115" "e_entered ex_exp = 100" by (simp_all add: exp_when_def ex_exp_def)
  let ?s = "\<lambda>h'. (ex_state h)\<lparr>es_oc := [1 \<mapsto> ex_oc\<lparr>oc_refcnt := 2, oc_timer_when := 115\<rparr>],
    es_ob := [2 \<mapsto> ex_ob\<lparr>o_last_lru := 100\<rparr>], es_heap := h', es_lru := (\<lambda>_. [])(0 := [1])\<rparr>"
  have "\<exists>h'. EXP_Insert ex_params (\<lambda>_. None) 2 (ex_state h) = Some (?s h') \<and> bh_members h' = {1} \<and> exp_inv (?s h')"
    using EXP_Insert_ok [OF i(1), of 2 ex_ob 1 ex_oc ex_params "\<lambda>_. None"] i h(2) w
    by (simp add: ex_state_def ex_ob_def ex_oc_def OC_F_BUSY_def)
  then obtain h' where h': "EXP_Insert ex_params (\<lambda>_. None) 2 (ex_state h) = Some (?s h')" "bh_members h' = {1}" "exp_inv (?s h')"
    by blast
  then show ?thesis using h(1) i(1) by (intro exI [of _ h] exI [of _ "?s h'"]) simp
qed

lemma ex_unbusied:
  "\<exists>s :: exp_state. exp_inv s \<and> on_heap s = {1} \<and> es_lru s 0 = [1] \<and> es_ob s = [2 \<mapsto> ex_ob\<lparr>o_last_lru := 100\<rparr>] \<and>
    es_oc s = [1 \<mapsto> ex_oc\<lparr>oc_refcnt := 1, oc_timer_when := 115, oc_flags := 0, oc_busyobj := None\<rparr>]"
proof -
  obtain s :: exp_state where s: "exp_inv s" "on_heap s = {1}" "es_lru s 0 = [1]" "es_ob s = [2 \<mapsto> ex_ob\<lparr>o_last_lru := 100\<rparr>]"
      "es_oc s = [1 \<mapsto> ex_oc\<lparr>oc_refcnt := 2, oc_timer_when := 115\<rparr>]"
    using ex_inserted by blast
  let ?s = "s\<lparr>es_oc := [1 \<mapsto> ex_oc\<lparr>oc_refcnt := 1, oc_timer_when := 115, oc_flags := 0, oc_busyobj := None\<rparr>]\<rparr>"
  have "exp_inv ?s"
    by (rule exp_inv_frame [OF s(1)]) (simp_all add: timer_when_def oc_getlru_def s)
  then show ?thesis using s by (intro exI [of _ ?s]) simp
qed

subsection \<open>Properties\<close>

text \<open>
  One round of the expiry thread leaves everything alone when the list lock is
  taken or no object's timer has fired by either clock reading; otherwise it takes an object whose timer
  has fired, and whose timer is the earliest of all, off the heap and its LRU list, changes nothing else
  and releases its reference.
\<close>
theorem exp_timer_due:
  assumes "exp_inv s"
    and "\<And>oc c. oc \<in> on_heap s \<Longrightarrow> es_oc s oc = Some c \<Longrightarrow> oc_timer_when c \<le> max t now \<Longrightarrow> \<not> oc_busy c \<and> oc_objhead c \<noteq> None"
  shows "(\<exists>t'. exp_timer deref t now trylock s = Some (s, None, t') \<and>
      (trylock \<or> (\<forall>oc \<in> on_heap s. t < timer_when s oc \<and> now < timer_when s oc))) \<or>
    (\<exists>oc s1 t'. exp_timer deref t now trylock s = do { s' \<leftarrow> deref (Some oc) None s1; Some (s', Some oc, t') } \<and>
      oc \<in> on_heap s \<and> (\<forall>q \<in> on_heap s. timer_when s oc \<le> timer_when s q) \<and> timer_when s oc \<le> t' \<and> t' \<in> {t, now} \<and> pulled oc s s1)"
  by (rule exp_timer_spec [OF assms])

theorem exp_timer_due_witness:
  "\<exists>(s :: exp_state) s' t'. on_heap s = {1} \<and> exp_timer (\<lambda>_ _ s. Some s) 100 120 False s = Some (s', Some 1, t') \<and> on_heap s' = {} \<and> es_lru s' 0 = []"
proof -
  obtain s :: exp_state where s: "exp_inv s" "on_heap s = {1}" "es_lru s 0 = [1]"
      "es_oc s = [1 \<mapsto> ex_oc\<lparr>oc_refcnt := 1, oc_timer_when := 115, oc_flags := 0, oc_busyobj := None\<rparr>]"
    using ex_unbusied by blast
  have "timer_when s 1 = 115" by (simp add: timer_when_def s(4))
  moreover have "\<not> oc_busy c \<and> oc_objhead c \<noteq> None" if "oc \<in> on_heap s" "es_oc s oc = Some c" for oc c
    using that by (auto simp: s(2,4) ex_oc_def)
  ultimately have "\<exists>s1 t'. exp_timer (\<lambda>_ _ s. Some s) 100 120 False s = Some (s1, Some 1, t') \<and> pulled 1 s s1"
    using exp_timer_due [OF s(1), of 100 120 "\<lambda>_ _ s. Some s" False] unfolding s(2) by auto
  then obtain s1 t' where r: "exp_timer (\<lambda>_ _ s. Some s) 100 120 False s = Some (s1, Some 1, t')" "pulled 1 s s1" by blast
  have "on_heap s1 = {}" "es_lru s1 0 = []" using r(2) s(2,3) unfolding pulled_def by simp_all
  with r(1) s(2) show ?thesis by blast
qed

text \<open>
  The thread panics when the timer of the first object on the heap has
  fired while the object is still busy, as \<open>EXP_Insert\<close> leaves it until \<open>HSH_Unbusy\<close>.
\<close>
theorem exp_timer_busy_panics:
  assumes "exp_inv s" and "oc \<in> on_heap s" and "\<And>q. q \<in> on_heap s \<Longrightarrow> q \<noteq> oc \<Longrightarrow> timer_when s oc < timer_when s q"
    and "es_oc s oc = Some c" and "oc_busy c" and "oc_timer_when c \<le> now"
  shows "exp_timer deref t now False s = None"
proof -
  have tw: "timer_when s oc = oc_timer_when c" using assms(4) by (simp add: timer_when_def)
  obtain p where p: "binheap_root (es_heap s) = Some p" "p \<in> on_heap s" "\<forall>q \<in> on_heap s. \<not> timer_when s q < timer_when s p"
    using vm_heap.root_ok [OF exp_invD(1) [OF assms(1)]] assms(2) by (cases "binheap_root (es_heap s)") auto
  then have "p = oc" using assms(2,3) by force
  then show ?thesis using p(1) assms(4-6)
    by (auto simp: exp_timer_def oc_getobj_def Let_def panic_simps split: Option.bind_splits)
qed

theorem exp_timer_busy_panics_witness:
  "\<exists>h s. EXP_Init 4096 (\<lambda>_. None) = Some h \<and> EXP_Insert ex_params (\<lambda>_. None) 2 (ex_state h) = Some s \<and>
    exp_timer (\<lambda>_ _ s. Some s) 100 120 False s = None"
proof -
  obtain h s where s: "EXP_Init 4096 (\<lambda>_. None) = Some h" "EXP_Insert ex_params (\<lambda>_. None) 2 (ex_state h) = Some s"
      "exp_inv s" "on_heap s = {1}" "es_oc s = [1 \<mapsto> ex_oc\<lparr>oc_refcnt := 2, oc_timer_when := 115\<rparr>]"
    using ex_inserted by blast
  have "exp_timer (\<lambda>_ _ s. Some s) 100 120 False s = None"
    by (rule exp_timer_busy_panics [OF s(3), of 1 "ex_oc\<lparr>oc_refcnt := 2, oc_timer_when := 115\<rparr>"])
      (simp_all add: s(4,5) ex_oc_def OC_F_BUSY_def)
  then show ?thesis using s(1,2) by blast
qed

end
