(* ===== verification/Vary.thy ===== *)
theory Vary
  imports Http
begin

text \<open>
  Vary matching, \<^verbatim>\<open>bin/varnishd/cache_vary.c\<close>.

  An object fetched in answer to a response with a \<open>Vary\<close> header keeps a string of entries, one for
  each header named: two bytes of length, the name as \<open>http_GetHdr\<close> takes it with a NUL, and the
  value the request had. A lookup compares it with a string built in the session's workspace. The
  model has the bytes from \<open>vary_b\<close> to \<open>vary_e\<close> as a list and \<open>vary_l\<close> as an offset into it; a read or
  write outside of the list is \<open>None\<close>.
\<close>

subsection \<open>The code\<close>

abbreviation H_Vary :: string where "H_Vary \<equiv> HTTP_Init_hdr ''Vary''"
abbreviation H_Accept_Encoding :: string where "H_Accept_Encoding \<equiv> HTTP_Init_hdr ''Accept-Encoding''"

text \<open>The trailing space of a value is left out.\<close>

definition rtrim :: "string \<Rightarrow> string" where
  "rtrim s = rev (dropWhile vct_issp (rev s))"

lemma dropWhile2_shorter: "dropWhile P (dropWhile Q p) = d # q \<Longrightarrow> length q < length p"
  using length_dropWhile_le [of P "dropWhile Q p"] length_dropWhile_le [of Q p] by simp

function vry_create_loop :: "http \<Rightarrow> string \<Rightarrow> char list \<Rightarrow> char list option" where
  "vry_create_loop sphttp p sb = (case p of
     [] \<Rightarrow> Some sb
   | c # p' \<Rightarrow>
       if vct_issp c then vry_create_loop sphttp p' sb
       else do {
         let name = takeWhile (\<lambda>c. \<not> vct_issp c \<and> c \<noteq> CHR '','') p;
         let q = dropWhile (\<lambda>c. \<not> vct_issp c \<and> c \<noteq> CHR '','') p;
         let sbh = char_of (1 + length name) # name @ '':'' @ [NUL];
         h \<leftarrow> http_GetHdr sphttp (butlast sbh);
         (l, val) \<leftarrow> (case h of
            Some h \<Rightarrow> do {
              assert_c (h = [] \<or> \<not> vct_issp (List.hd h));
              assert_c (length (rtrim h) \<le> 0xffff);
              Some (length (rtrim h), rtrim h)
            }
          | None \<Rightarrow> Some (0xffff, []));
         let sb = sb @ vbe16enc (of_nat l) @ sbh @ val;
         (case dropWhile vct_issp q of
            [] \<Rightarrow> Some sb
          | d # q' \<Rightarrow> do { assert_c (d = CHR '',''); vry_create_loop sphttp q' sb })
       })"
  by pat_completeness auto
termination
proof (relation "measure (\<lambda>(sphttp, p, sb). length p)", goal_cases)
  case (3 sphttp p sb c p' name q)
  show ?case using dropWhile2_shorter [OF 3(10) [unfolded 3(4)]] by simp
qed simp_all

definition VRY_Create :: "http \<Rightarrow> http \<Rightarrow> char list option option" where
  "VRY_Create sphttp hp = do {
     v \<leftarrow> http_GetHdr hp H_Vary;
     (case v of
        None \<Rightarrow> Some None
      | Some v \<Rightarrow> do {
          let v = (case v of c # v' \<Rightarrow> if c = CHR '':'' then v' else v | [] \<Rightarrow> v);
          sb \<leftarrow> vry_create_loop sphttp v [];
          Some (Some (sb @ [CHR 0xff, CHR 0xff, NUL]))
        })
   }"

text \<open>Reading memory: a byte, and the comparison of \<open>n\<close> bytes, which stops at the first difference.\<close>

definition byte_at :: "char list \<Rightarrow> nat \<Rightarrow> char option" where
  "byte_at p i = (if i < length p then Some (p ! i) else None)"

fun memeq :: "nat \<Rightarrow> char list \<Rightarrow> char list \<Rightarrow> bool option" where
  "memeq 0 xs ys = Some True"
| "memeq (Suc n) (x # xs) (y # ys) = (if x = y then memeq n xs ys else Some False)"
| "memeq (Suc n) xs ys = None"

definition vry_len :: "char list \<Rightarrow> nat option" where
  "vry_len p = do {
     l \<leftarrow> vbe16dec p;
     c \<leftarrow> byte_at p 2;
     Some (2 + of_char c + 2 + (if l = 0xffff then 0 else unat l))
   }"

definition vry_cmp :: "bool \<Rightarrow> char list \<Rightarrow> char list \<Rightarrow> nat option" where
  "vry_cmp http_gzip_support v1 v2 = do {
     n \<leftarrow> vry_len v1;
     same \<leftarrow> memeq n v1 v2;
     (if same then Some 0
      else do {
        c \<leftarrow> byte_at v1 2;
        hdr \<leftarrow> memeq (of_char c + 2) (drop 2 v1) (drop 2 v2);
        Some (if \<not> hdr then 1
              else if http_gzip_support \<and> strcaseeq H_Accept_Encoding (cstr (drop 2 v1)) then 0
              else 2)
      })
   }"

text \<open>Writing a run of bytes into the buffer.\<close>

definition buf_put :: "char list \<Rightarrow> nat \<Rightarrow> char list \<Rightarrow> char list option" where
  "buf_put buf k xs = (if k + length xs \<le> length buf then Some (take k buf @ xs @ drop (k + length xs) buf) else None)"

text \<open>The new entry \<open>VRY_Match\<close> builds at \<open>vsp\<close>, for the header of the entry at \<open>vary\<close>.\<close>

definition vry_entry :: "http \<Rightarrow> char list \<Rightarrow> nat \<Rightarrow> char list \<Rightarrow> bool \<Rightarrow> (nat \<times> char list \<times> bool) option" where
  "vry_entry sphttp vary vsp buf oflo = do {
     h \<leftarrow> http_GetHdr sphttp (cstr (drop 2 vary));
     (lh, val) \<leftarrow> (case h of
        Some h \<Rightarrow> do { assert_c (length (rtrim h) < 0xffff); Some (length (rtrim h), rtrim h) }
      | None \<Rightarrow> Some (0xffff, []));
     c \<leftarrow> byte_at vary 2;
     let ln = 2 + of_char c + 2 + (if lh = 0xffff then 0 else lh);
     let (vsp, oflo) = (if vsp + ln \<ge> length buf then (0, True) else (vsp, oflo));
     assert_c (vsp + ln + 2 < length buf);
     assert_c (2 + of_char c + 2 \<le> length vary);
     buf \<leftarrow> buf_put buf vsp (vbe16enc (of_nat lh) @ take (of_char c + 2) (drop 2 vary) @ val);
     buf \<leftarrow> buf_put buf (vsp + ln + 2) [NUL];
     Some (vsp, buf, oflo)
   }"

function vry_match_loop :: "bool \<Rightarrow> http \<Rightarrow> char list \<Rightarrow> nat \<Rightarrow> char list \<Rightarrow> bool \<Rightarrow> bool \<Rightarrow> (nat \<times> char list \<times> bool \<times> bool) option" where
  "vry_match_loop http_gzip_support sphttp vary vsp buf retval oflo = do {
     c \<leftarrow> byte_at vary 2;
     (if c = NUL then Some (vsp, buf, retval, oflo)
      else do {
        i \<leftarrow> vry_cmp http_gzip_support vary (drop vsp buf);
        (vsp, buf, oflo, i) \<leftarrow> (if i = 1 then do {
             (vsp, buf, oflo) \<leftarrow> vry_entry sphttp vary vsp buf oflo;
             i \<leftarrow> vry_cmp http_gzip_support vary (drop vsp buf);
             assert_c (i \<noteq> 1);
             Some (vsp, buf, oflo, i)
           }
           else Some (vsp, buf, oflo, i));
        n1 \<leftarrow> vry_len (drop vsp buf);
        n2 \<leftarrow> vry_len vary;
        vry_match_loop http_gzip_support sphttp (drop n2 vary) (vsp + n1) buf (retval \<and> i = 0) oflo
      })
   }"
  by pat_completeness auto
termination
proof (relation "measure (\<lambda>(g, hp, vary, vsp, buf, r, f). length vary)", goal_cases)
  case 1
  then show ?case by simp
next
  case 2
  then show ?case by (auto simp: vry_len_def byte_at_def bind_eq_Some_conv split: if_splits)
qed

definition VRY_Match :: "bool \<Rightarrow> http \<Rightarrow> char list \<Rightarrow> char list \<Rightarrow> (char list \<times> nat option \<times> bool) option" where
  "VRY_Match http_gzip_support sphttp vary buf = do {
     (vsp, buf, retval, oflo) \<leftarrow> vry_match_loop http_gzip_support sphttp vary 0 buf True False;
     let oflo = (oflo \<or> vsp + 3 > length buf);
     let vsp = (if oflo then 0 else vsp);
     buf \<leftarrow> buf_put buf vsp [CHR 0xff, CHR 0xff, NUL];
     Some (buf, if oflo then None else Some (vsp + 3), retval)
   }"

function VRY_Validate :: "char list \<Rightarrow> unit option" where
  "VRY_Validate vary = do {
     c \<leftarrow> byte_at vary 2;
     (if c = NUL then Some ()
      else do {
        assert_c (length (cstr (drop 3 vary)) = of_char c);
        n \<leftarrow> vry_len vary;
        VRY_Validate (drop n vary)
      })
   }"
  by pat_completeness auto
termination
  by (relation "measure length") (auto simp: vry_len_def byte_at_def bind_eq_Some_conv split: if_splits)

declare vry_create_loop.simps [simp del] vry_match_loop.simps [simp del] VRY_Validate.simps [simp del]

subsection \<open>Entries\<close>

text \<open>What is compared: the value of a header without the space around it, if the request has it.\<close>

definition vary_val :: "http \<Rightarrow> string \<Rightarrow> string option" where
  "vary_val hp name = map_option rtrim (hdr_value name (h_lines hp))"

definition vry_field :: "string \<times> string option \<Rightarrow> char list" where
  "vry_field f = (case f of (name, val) \<Rightarrow>
     vbe16enc (case val of Some v \<Rightarrow> of_nat (length v) | None \<Rightarrow> 0xffff) @ HTTP_Init_hdr name @ [NUL] @ (case val of Some v \<Rightarrow> v | None \<Rightarrow> []))"

definition vary_name_ok :: "string \<Rightarrow> bool" where
  "vary_name_ok name \<longleftrightarrow> length name < 127 \<and> NUL \<notin> set name"

definition vary_val_ok :: "string option \<Rightarrow> bool" where
  "vary_val_ok val \<longleftrightarrow> (\<forall>v. val = Some v \<longrightarrow> length v < 0xffff)"

lemma vbe16_dec_enc: "vbe16dec (vbe16enc u @ r) = Some u"
proof -
  have "push_bit 8 (take_bit 8 (drop_bit 8 u)) OR take_bit 8 u = u"
    by (rule bit_word_eqI) (auto simp: bit_simps)
  moreover have "(of_char (char_of (unat (x AND 0xff))) :: u16) = x AND 0xff" for x :: u16
  proof -
    have "unat (x AND 0xff) < 256" by (simp add: and_ff unat_take_bit)
    then show ?thesis by (simp add: of_char_word)
  qed
  ultimately show ?thesis by (simp add: vbe16dec_def vbe16enc_def and_ff)
qed

lemma length_vbe16enc [simp]: "length (vbe16enc u) = 2"
  by (simp add: vbe16enc_def)

lemma vbe16enc_inj: "vbe16enc u = vbe16enc w \<longleftrightarrow> u = w"
  by (metis option.inject vbe16_dec_enc)

lemma val_len_inj:
  assumes "vary_val_ok v" "vary_val_ok w"
  shows "(case v of Some x \<Rightarrow> of_nat (length x) | None \<Rightarrow> 0xffff) = (case w of Some x \<Rightarrow> of_nat (length x) | None \<Rightarrow> (0xffff :: u16)) \<longleftrightarrow>
    map_option length v = map_option length w"
proof -
  have "unat (of_nat (length x) :: u16) = length x" if "length x < 0xffff" for x :: string
    using that by (simp add: unat_of_nat)
  then show ?thesis using assms by (auto simp: vary_val_ok_def word_unat_eq_iff split: option.splits)
qed

lemma field_name:
  assumes "vary_name_ok name"
  shows "char_of (length name + 1) \<noteq> NUL" "(of_char (char_of (length name + 1) :: char) :: nat) = length name + 1"
proof -
  show c: "(of_char (char_of (length name + 1) :: char) :: nat) = length name + 1"
    using assms by (simp add: vary_name_ok_def)
  show "char_of (length name + 1) \<noteq> NUL"
  proof
    assume "char_of (length name + 1) = NUL"
    then have "(of_char (char_of (length name + 1) :: char) :: nat) = of_char NUL" by simp
    then show False unfolding c by simp
  qed
qed

lemma field_head:
  assumes "vary_name_ok name"
  shows "byte_at (vry_field (name, val) @ r) 2 = Some (char_of (length name + 1))"
    "drop 2 (vry_field (name, val) @ r) = HTTP_Init_hdr name @ NUL # (case val of Some v \<Rightarrow> v | None \<Rightarrow> []) @ r"
    "cstr (drop 2 (vry_field (name, val) @ r)) = HTTP_Init_hdr name"
proof -
  show "byte_at (vry_field (name, val) @ r) 2 = Some (char_of (length name + 1))"
    by (simp add: byte_at_def vry_field_def HTTP_Init_hdr_def nth_append)
  show d: "drop 2 (vry_field (name, val) @ r) = HTTP_Init_hdr name @ NUL # (case val of Some v \<Rightarrow> v | None \<Rightarrow> []) @ r"
    by (simp add: vry_field_def)
  have "NUL \<notin> set (HTTP_Init_hdr name)"
    using field_name(1) [OF assms] assms by (auto simp: HTTP_Init_hdr_def vary_name_ok_def)
  then show "cstr (drop 2 (vry_field (name, val) @ r)) = HTTP_Init_hdr name" unfolding d by simp
qed

lemma length_field: "length (vry_field (name, val)) = 2 + (length name + 3) + (case val of Some v \<Rightarrow> length v | None \<Rightarrow> 0)"
  by (simp add: vry_field_def HTTP_Init_hdr_def split: option.splits)

lemma vry_len_field:
  assumes "vary_name_ok name" "vary_val_ok val"
  shows "vry_len (vry_field (name, val) @ r) = Some (length (vry_field (name, val)))"
proof -
  let ?u = "(case val of Some v \<Rightarrow> of_nat (length v) | None \<Rightarrow> 0xffff) :: u16"
  have "vbe16dec (vry_field (name, val) @ r) = Some ?u"
    using vbe16_dec_enc [of ?u] by (simp add: vry_field_def)
  moreover have "(if ?u = 0xffff then 0 else unat ?u) = (case val of Some v \<Rightarrow> length v | None \<Rightarrow> 0)"
    using assms(2) by (auto simp: vary_val_ok_def word_unat_eq_iff unat_of_nat split: option.splits)
  ultimately show ?thesis
    using field_head(1) [OF assms(1)] field_name(2) [OF assms(1)] by (simp add: vry_len_def length_field split: option.splits)
qed

lemma memeq_diff:
  "i < n \<Longrightarrow> i < length xs \<Longrightarrow> i < length ys \<Longrightarrow> xs ! i \<noteq> ys ! i \<Longrightarrow> memeq n xs ys = Some False"
proof (induction n xs ys arbitrary: i rule: memeq.induct)
  case (2 n x xs y ys)
  then show ?case by (cases i) auto
qed auto

lemma memeq_same_length: "length a = length b \<Longrightarrow> memeq (length a) (a @ r) (b @ r') = Some (a = b)"
  by (induction a b rule: list_induct2) auto

lemma init_hdr_inj: "HTTP_Init_hdr a = HTTP_Init_hdr b \<longleftrightarrow> a = b"
  by (auto simp: HTTP_Init_hdr_def)

lemma memeq_hdr:
  assumes "vary_name_ok a" "vary_name_ok b"
  shows "memeq (Suc (Suc (Suc (length a)))) (HTTP_Init_hdr a @ NUL # x) (HTTP_Init_hdr b @ NUL # y) = Some (a = b)"
proof (cases "length a = length b")
  case True
  then have "memeq (length (HTTP_Init_hdr a @ [NUL])) ((HTTP_Init_hdr a @ [NUL]) @ x) ((HTTP_Init_hdr b @ [NUL]) @ y) =
      Some (HTTP_Init_hdr a @ [NUL] = HTTP_Init_hdr b @ [NUL])"
    by (intro memeq_same_length) (simp add: HTTP_Init_hdr_def)
  moreover have "length (HTTP_Init_hdr a @ [NUL]) = length a + 3" by (simp add: HTTP_Init_hdr_def)
  ultimately show ?thesis by (simp add: init_hdr_inj numeral_3_eq_3)
next
  case False
  have "char_of (length a + 1) \<noteq> (char_of (length b + 1) :: char)"
    using field_name(2) [OF assms(1)] field_name(2) [OF assms(2)] False by (metis add_right_cancel)
  then have "memeq (Suc (Suc (Suc (length a)))) (HTTP_Init_hdr a @ NUL # x) (HTTP_Init_hdr b @ NUL # y) = Some False"
    by (intro memeq_diff [of 0]) (simp_all add: HTTP_Init_hdr_def)
  then show ?thesis using False by auto
qed

lemma memeq_field:
  assumes "vary_name_ok a" "vary_name_ok b" "vary_val_ok v" "vary_val_ok w"
  shows "memeq (length (vry_field (a, v))) (vry_field (a, v) @ r) (vry_field (b, w) @ r') = Some (a = b \<and> v = w)"
proof (cases "map_option length v = map_option length w")
  case lv: True
  show ?thesis
  proof (cases "length a = length b")
    case True
    then have "length (vry_field (a, v)) = length (vry_field (b, w))"
      using lv by (cases v; cases w) (simp_all add: length_field)
    moreover have "vry_field (a, v) = vry_field (b, w) \<longleftrightarrow> a = b \<and> v = w"
      using lv by (cases v; cases w) (auto simp: vry_field_def HTTP_Init_hdr_def)
    ultimately show ?thesis using memeq_same_length [of "vry_field (a, v)" "vry_field (b, w)" r r'] by simp
  next
    case False
    have "char_of (length a + 1) \<noteq> (char_of (length b + 1) :: char)"
      using field_name(2) [OF assms(1)] field_name(2) [OF assms(2)] False by (metis add_right_cancel)
    then have "memeq (length (vry_field (a, v))) (vry_field (a, v) @ r) (vry_field (b, w) @ r') = Some False"
      by (intro memeq_diff [of 2]) (simp_all add: length_field, simp add: vry_field_def HTTP_Init_hdr_def nth_append)
    then show ?thesis using False by auto
  qed
next
  case False
  let ?x = "vbe16enc (case v of Some x \<Rightarrow> of_nat (length x) | None \<Rightarrow> 0xffff)"
  let ?y = "vbe16enc (case w of Some x \<Rightarrow> of_nat (length x) | None \<Rightarrow> 0xffff)"
  have "?x \<noteq> ?y" using False val_len_inj [OF assms(3,4)] by (simp add: vbe16enc_inj)
  then obtain i where i: "i < 2" "?x ! i \<noteq> ?y ! i" by (metis length_vbe16enc nth_equalityI)
  then have "memeq (length (vry_field (a, v))) (vry_field (a, v) @ r) (vry_field (b, w) @ r') = Some False"
    by (intro memeq_diff [of i]) (simp_all add: length_field, simp add: vry_field_def nth_append)
  then show ?thesis using False by auto
qed

lemma accept_encoding_hdr: "length a < 127 \<Longrightarrow> strcaseeq H_Accept_Encoding (HTTP_Init_hdr a) \<longleftrightarrow> strcaseeq ''Accept-Encoding'' a"
proof -
  assume a: "length a < 127"
  have "tolower (char_of (length a + 1)) = tolower (char_of (16 :: nat)) \<longleftrightarrow> length a = 15"
  proof
    assume e: "tolower (char_of (length a + 1)) = tolower (char_of (16 :: nat))"
    have "tolower (char_of (16 :: nat)) = char_of (16 :: nat)" by (simp add: tolower_def)
    with e have "tolower (char_of (length a + 1)) = char_of (16 :: nat)" by simp
    then have "(of_char (tolower (char_of (length a + 1))) :: nat) = 16" by simp
    then show "length a = 15" using a by (auto simp: tolower_def split: if_splits)
  qed simp
  moreover have "strcaseeq ''Accept-Encoding'' a \<Longrightarrow> length a = 15"
    unfolding strcaseeq_def by (drule arg_cong [of _ _ length]) simp
  ultimately show ?thesis
    by (auto simp: strcaseeq_def HTTP_Init_hdr_def)
qed

text \<open>What a comparison of two entries says.\<close>

definition vary_verdict :: "bool \<Rightarrow> string \<Rightarrow> string option \<Rightarrow> string option \<Rightarrow> bool" where
  "vary_verdict gzip name v w \<longleftrightarrow> v = w \<or> gzip \<and> strcaseeq ''Accept-Encoding'' name"

lemma vry_cmp_field:
  assumes "vary_name_ok a" "vary_name_ok b" "vary_val_ok v" "vary_val_ok w"
  shows "vry_cmp gzip (vry_field (a, v) @ r) (vry_field (b, w) @ r') =
    Some (if a \<noteq> b then 1 else if vary_verdict gzip a v w then 0 else 2)"
proof -
  have "length a < 127" using assms(1) by (simp add: vary_name_ok_def)
  then show ?thesis
    using vry_len_field [OF assms(1,3), of r] memeq_field [OF assms, of r r'] field_head [OF assms(1), of v r]
      field_name [OF assms(1)] field_head(2) [OF assms(2), of w r'] memeq_hdr [OF assms(1,2)] accept_encoding_hdr [of a]
    by (auto simp: vry_cmp_def vary_verdict_def simp del: drop_append)
qed

lemma vry_cmp_end:
  assumes "vary_name_ok a" "vary_val_ok v" "3 \<le> length ys" "ys ! 2 = NUL"
  shows "vry_cmp gzip (vry_field (a, v) @ r) ys = Some 1"
proof -
  note h = field_head [OF assms(1), of v r] field_name [OF assms(1)]
  have n2: "(vry_field (a, v) @ r) ! 2 = char_of (length a + 1)" "2 < length (vry_field (a, v) @ r)"
    using h(1) by (auto simp: byte_at_def split: if_splits)
  have "memeq (length (vry_field (a, v))) (vry_field (a, v) @ r) ys = Some False"
    using assms(3,4) n2 h(4) by (intro memeq_diff [of 2]) (simp_all add: length_field)
  moreover have "memeq (Suc (Suc (Suc (length a)))) (drop 2 (vry_field (a, v) @ r)) (drop 2 ys) = Some False"
    unfolding h(2) using assms(3,4) h(4) by (intro memeq_diff [of 0]) (simp_all add: HTTP_Init_hdr_def)
  ultimately show ?thesis
    using vry_len_field [OF assms(1,2), of r] h by (simp add: vry_cmp_def)
qed

subsection \<open>The buffer of a session\<close>

text \<open>The entry of a request for a header, and the buffers made of such entries up to an end marker.\<close>

abbreviation req_field :: "http \<Rightarrow> string \<Rightarrow> char list" where
  "req_field hp name \<equiv> vry_field (name, vary_val hp name)"

definition req_vals_ok :: "http \<Rightarrow> bool" where
  "req_vals_ok hp \<longleftrightarrow> (\<forall>name. vary_val_ok (vary_val hp name))"

inductive vb_ok :: "http \<Rightarrow> char list \<Rightarrow> bool" for hp where
  vb_end: "3 \<le> length xs \<Longrightarrow> xs ! 2 = NUL \<Longrightarrow> vb_ok hp xs"
| vb_field: "vb_ok hp xs \<Longrightarrow> vary_name_ok name \<Longrightarrow> vb_ok hp (req_field hp name @ xs)"

lemma buf_put_ok:
  assumes "k + length xs \<le> length buf"
  shows "\<exists>buf'. buf_put buf k xs = Some buf' \<and> length buf' = length buf \<and> take k buf' = take k buf \<and>
    drop k buf' = xs @ drop (k + length xs) buf"
  using assms by (simp add: buf_put_def)

text \<open>A new entry, when there is room for it and the marker after it.\<close>

lemma vry_entry_ok:
  assumes hp: "http_full hp" "req_vals_ok hp" and nm: "vary_name_ok name"
    and room: "vsp + length (req_field hp name) + 3 \<le> length buf"
  shows "\<exists>buf' xs. vry_entry hp (vry_field (name, v) @ r) vsp buf oflo = Some (vsp, buf', oflo) \<and> length buf' = length buf \<and>
    take vsp buf' = take vsp buf \<and> drop vsp buf' = req_field hp name @ xs \<and> vb_ok hp xs"
proof -
  define w where "w = vary_val hp name"
  define lh where "lh = (case w of Some x \<Rightarrow> length x | None \<Rightarrow> 0xffff)"
  define ln where "ln = length (req_field hp name)"
  define tx where "tx = (case w of Some x \<Rightarrow> x | None \<Rightarrow> [])"
  note h = field_head [OF nm, of v r] field_name [OF nm]
  have vok: "vary_val_ok w" using hp(2) by (simp add: req_vals_ok_def w_def)
  have nl: "length name < 127" using nm by (simp add: vary_name_ok_def)
  have get: "http_GetHdr hp (cstr (drop 2 (vry_field (name, v) @ r))) = Some (hdr_value name (h_lines hp))"
    unfolding h(3) by (rule http_GetHdr_value [OF hp(1) nl])
  have val: "(case hdr_value name (h_lines hp) of
      Some h \<Rightarrow> do { assert_c (length (rtrim h) < 0xffff); Some (length (rtrim h), rtrim h) } | None \<Rightarrow> Some (0xffff, [])) = Some (lh, tx)"
    using vok by (auto simp: w_def vary_val_def vary_val_ok_def lh_def tx_def split: option.splits)
  have ln: "2 + (length name + 1) + 2 + (if lh = 0xffff then 0 else lh) = ln"
    using vok by (auto simp: ln_def length_field lh_def w_def [symmetric] vary_val_ok_def split: option.splits)
  have bytes: "vbe16enc (of_nat lh) @ take (length name + 1 + 2) (drop 2 (vry_field (name, v) @ r)) @ tx = req_field hp name"
    unfolding h(2) w_def [symmetric] lh_def tx_def
    by (simp add: vry_field_def HTTP_Init_hdr_def split: option.splits)
  obtain b1 where b1: "buf_put buf vsp (req_field hp name) = Some b1" "length b1 = length buf" "take vsp b1 = take vsp buf"
      "drop vsp b1 = req_field hp name @ drop (vsp + ln) buf"
    using buf_put_ok [of vsp "req_field hp name" buf] room unfolding ln_def by auto
  obtain b2 where b2: "buf_put b1 (vsp + ln + 2) [NUL] = Some b2" "length b2 = length b1"
      "take (vsp + ln + 2) b2 = take (vsp + ln + 2) b1" "drop (vsp + ln + 2) b2 = NUL # drop (vsp + ln + 3) b1"
    using buf_put_ok [of "vsp + ln + 2" "[NUL]" b1] room b1(2) unfolding ln_def by (auto simp: numeral_3_eq_3)
  have run: "vry_entry hp (vry_field (name, v) @ r) vsp buf oflo = Some (vsp, b2, oflo)"
  proof -
    have "2 + (length name + 1) + 2 \<le> length (vry_field (name, v) @ r)" by (simp add: length_field)
    then show ?thesis
      using get val h(1,5) ln bytes b1(1) b2(1) room unfolding ln_def [symmetric]
      by (simp add: vry_entry_def panic_simps)
  qed
  have t1: "take vsp b2 = take vsp b1"
    using arg_cong [OF b2(3), of "take vsp"] by (simp add: min_def)
  have "take (ln + 2) (drop vsp b2) = take (ln + 2) (drop vsp b1)"
    using arg_cong [OF b2(3), of "drop vsp"] by (simp add: drop_take)
  then have "take ln (drop vsp b2) = req_field hp name"
    using b1(4) ln_def by (metis append_eq_conv_conj le_add1 min.absorb1 take_take)
  then have d2: "drop vsp b2 = req_field hp name @ drop (vsp + ln) b2"
    by (metis append_take_drop_id drop_drop add.commute)
  have "drop 2 (drop (vsp + ln) b2) = NUL # drop (vsp + ln + 3) b1" using b2(4) by (simp add: add.commute)
  then have "vb_ok hp (drop (vsp + ln) b2)"
    using room b1(2) b2(2) ln_def by (intro vb_end) (simp_all add: nth_via_drop)
  then show ?thesis using run t1 b1(2,3) b2(2) d2 by (intro exI [of _ b2] exI [of _ "drop (vsp + ln) b2"]) simp
qed

text \<open>The whole comparison.\<close>

lemma vry_match_loop_ok:
  assumes hp: "http_full hp" "req_vals_ok hp"
    and fs: "list_all (\<lambda>(name, v). vary_name_ok name \<and> vary_val_ok v) fs"
    and room: "vsp + length (concat (map (\<lambda>(name, v). req_field hp name) fs)) + 3 \<le> length buf" and vb: "vb_ok hp (drop vsp buf)"
    and rest: "3 \<le> length r" "r ! 2 = NUL"
  shows "\<exists>buf' xs. vry_match_loop gzip hp (concat (map vry_field fs) @ r) vsp buf retval oflo =
      Some (vsp + length (concat (map (\<lambda>(name, v). req_field hp name) fs)), buf',
        retval \<and> (\<forall>(name, v) \<in> set fs. vary_verdict gzip name v (vary_val hp name)), oflo) \<and>
    length buf' = length buf \<and> take vsp buf' = take vsp buf \<and>
    drop vsp buf' = concat (map (\<lambda>(name, v). req_field hp name) fs) @ xs \<and> vb_ok hp xs"
  using fs room vb
proof (induction fs arbitrary: vsp buf retval)
  case Nil
  then show ?case using rest by (subst vry_match_loop.simps) (simp add: byte_at_def)
next
  case (Cons f fs)
  obtain name v where f: "f = (name, v)" by (cases f)
  let ?tail = "concat (map vry_field fs) @ r"
  let ?E = "req_field hp name" and ?rest = "concat (map (\<lambda>(name, v). req_field hp name) fs)"
  have ok: "vary_name_ok name" "vary_val_ok v" "vary_val_ok (vary_val hp name)"
    using Cons.prems(1) hp(2) by (simp_all add: f req_vals_ok_def)
  have rm: "vsp + length ?E + 3 \<le> length buf" using Cons.prems(2) by (simp add: f)
  have cmp: "vry_cmp gzip (vry_field (name, v) @ ?tail) (?E @ ys) = Some (if vary_verdict gzip name v (vary_val hp name) then 0 else 2)" for ys
    using vry_cmp_field [OF ok(1,1,2,3)] by simp
  have "\<exists>b2 ys. (do {
        i \<leftarrow> vry_cmp gzip (vry_field (name, v) @ ?tail) (drop vsp buf);
        if i = 1 then do {
             (vsp, buf, oflo) \<leftarrow> vry_entry hp (vry_field (name, v) @ ?tail) vsp buf oflo;
             i \<leftarrow> vry_cmp gzip (vry_field (name, v) @ ?tail) (drop vsp buf);
             assert_c (i \<noteq> 1);
             Some (vsp, buf, oflo, i)
           }
           else Some (vsp, buf, oflo, i) }) = Some (vsp, b2, oflo, if vary_verdict gzip name v (vary_val hp name) then 0 else 2) \<and>
      length b2 = length buf \<and> take vsp b2 = take vsp buf \<and> drop vsp b2 = ?E @ ys \<and> vb_ok hp ys"
    (is "\<exists>b2 ys. ?step = _ \<and> _")
  proof -
    have new: ?thesis if "vry_cmp gzip (vry_field (name, v) @ ?tail) (drop vsp buf) = Some 1"
    proof -
      obtain b2 ys where b2: "vry_entry hp (vry_field (name, v) @ ?tail) vsp buf oflo = Some (vsp, b2, oflo)" "length b2 = length buf"
          "take vsp b2 = take vsp buf" "drop vsp b2 = ?E @ ys" "vb_ok hp ys"
        using vry_entry_ok [OF hp ok(1) rm, of v ?tail oflo] by blast
      have "?step = Some (vsp, b2, oflo, if vary_verdict gzip name v (vary_val hp name) then 0 else 2)"
        using that b2(1) cmp [of ys] by (simp add: b2(4))
      then show ?thesis using b2(2-5) by blast
    qed
    from Cons.prems(3) show ?thesis
    proof (cases rule: vb_ok.cases)
      case vb_end
      then show ?thesis using new vry_cmp_end [OF ok(1,2)] by blast
    next
      case (vb_field xs n')
      note c = vry_cmp_field [OF ok(1) vb_field(3) ok(2), of "vary_val hp n'" gzip ?tail xs]
      have vn: "vary_val_ok (vary_val hp n')" using hp(2) by (simp add: req_vals_ok_def)
      show ?thesis
      proof (cases "name = n'")
        case True
        then show ?thesis using c vn vb_field by (intro exI [of _ buf] exI [of _ xs]) simp
      next
        case False
        then show ?thesis using new c vn vb_field(1) by simp
      qed
    qed
  qed
  then obtain b2 ys where step: "?step = Some (vsp, b2, oflo, if vary_verdict gzip name v (vary_val hp name) then 0 else 2)"
      and b2: "length b2 = length buf" "take vsp b2 = take vsp buf" "drop vsp b2 = ?E @ ys" "vb_ok hp ys"
    by blast
  have d2: "drop (vsp + length ?E) b2 = ys" using arg_cong [OF b2(3), of "drop (length ?E)"] by (simp add: add.commute)
  have t2: "take (vsp + length ?E) b2 = take vsp buf @ ?E"
    using b2(2,3) by (simp add: take_add)
  have IH: "\<exists>buf' xs. vry_match_loop gzip hp ?tail (vsp + length ?E) b2 (retval \<and> vary_verdict gzip name v (vary_val hp name)) oflo =
      Some (vsp + length ?E + length ?rest, buf', (retval \<and> vary_verdict gzip name v (vary_val hp name)) \<and>
        (\<forall>(name, v) \<in> set fs. vary_verdict gzip name v (vary_val hp name)), oflo) \<and>
    length buf' = length b2 \<and> take (vsp + length ?E) buf' = take (vsp + length ?E) b2 \<and>
    drop (vsp + length ?E) buf' = ?rest @ xs \<and> vb_ok hp xs"
    by (rule Cons.IH) (use Cons.prems(1,2) b2(1,4) d2 in \<open>auto simp: f\<close>)
  then obtain b3 xs where b3: "vry_match_loop gzip hp ?tail (vsp + length ?E) b2 (retval \<and> vary_verdict gzip name v (vary_val hp name)) oflo =
      Some (vsp + length ?E + length ?rest, b3, (retval \<and> vary_verdict gzip name v (vary_val hp name)) \<and>
        (\<forall>(name, v) \<in> set fs. vary_verdict gzip name v (vary_val hp name)), oflo)"
    "length b3 = length b2" "take (vsp + length ?E) b3 = take vsp buf @ ?E" "drop (vsp + length ?E) b3 = ?rest @ xs" "vb_ok hp xs"
    unfolding t2 by blast
  have len: "vry_len (vry_field (name, v) @ ?tail) = Some (length (vry_field (name, v)))" "vry_len (drop vsp b2) = Some (length ?E)"
    using vry_len_field [OF ok(1,2)] vry_len_field [OF ok(1,3)] b2(3) by simp_all
  have "vry_match_loop gzip hp (vry_field (name, v) @ ?tail) vsp buf retval oflo =
      vry_match_loop gzip hp ?tail (vsp + length ?E) b2 (retval \<and> vary_verdict gzip name v (vary_val hp name)) oflo"
  proof -
    obtain i where i: "vry_cmp gzip (vry_field (name, v) @ ?tail) (drop vsp buf) = Some i"
        "(if i = 1 then do {
             (vsp, buf, oflo) \<leftarrow> vry_entry hp (vry_field (name, v) @ ?tail) vsp buf oflo;
             i \<leftarrow> vry_cmp gzip (vry_field (name, v) @ ?tail) (drop vsp buf);
             assert_c (i \<noteq> 1);
             Some (vsp, buf, oflo, i)
           }
           else Some (vsp, buf, oflo, i)) = Some (vsp, b2, oflo, if vary_verdict gzip name v (vary_val hp name) then 0 else 2)"
      using step unfolding bind_eq_Some_conv [of "vry_cmp gzip (vry_field (name, v) @ ?tail) (drop vsp buf)"] by blast
    show ?thesis
      using field_name(1) [OF ok(1)] field_head(1) [OF ok(1)] len
      by (subst vry_match_loop.simps) (simp only: i if_False bind.bind_lunit, simp)
  qed
  moreover have "take vsp b3 = take vsp buf" "drop vsp b3 = ?E @ ?rest @ xs"
  proof -
    have "vsp \<le> length buf" using rm by simp
    then show "take vsp b3 = take vsp buf" using arg_cong [OF b3(3), of "take vsp"] by (simp add: min_def)
    have "take (length ?E) (drop vsp b3) = ?E"
      using arg_cong [OF b3(3), of "drop vsp"] \<open>vsp \<le> length buf\<close> by (simp add: drop_take)
    then show "drop vsp b3 = ?E @ ?rest @ xs"
      using b3(4) by (metis append_take_drop_id drop_drop add.commute)
  qed
  ultimately show ?case using b3(1,2,5) b2(1) by (intro exI [of _ b3] exI [of _ xs]) (simp add: f add.assoc conj_assoc)
qed

lemma VRY_Match_ok:
  assumes hp: "http_full hp" "req_vals_ok hp"
    and fs: "list_all (\<lambda>(name, v). vary_name_ok name \<and> vary_val_ok v) fs"
    and room: "length (concat (map (\<lambda>(name, v). req_field hp name) fs)) + 3 \<le> length buf" and vb: "vb_ok hp buf"
    and rest: "3 \<le> length r" "r ! 2 = NUL"
  shows "\<exists>buf'. VRY_Match gzip hp (concat (map vry_field fs) @ r) buf =
      Some (buf', Some (length (concat (map (\<lambda>(name, v). req_field hp name) fs)) + 3),
        \<forall>(name, v) \<in> set fs. vary_verdict gzip name v (vary_val hp name)) \<and>
    length buf' = length buf \<and> vb_ok hp buf'"
proof -
  let ?E = "concat (map (\<lambda>(name, v). req_field hp name) fs)"
  obtain b xs where b: "vry_match_loop gzip hp (concat (map vry_field fs) @ r) 0 buf True False =
      Some (length ?E, b, \<forall>(name, v) \<in> set fs. vary_verdict gzip name v (vary_val hp name), False)"
    "length b = length buf" "b = ?E @ xs" "vb_ok hp xs"
    using vry_match_loop_ok [OF hp fs, of 0 buf r gzip True False] room vb rest by auto
  have put: "buf_put b (length ?E) [CHR 0xff, CHR 0xff, NUL] = Some (?E @ [CHR 0xff, CHR 0xff, NUL] @ drop 3 xs)"
    using room b(2) unfolding b(3) by (simp add: buf_put_def)
  have "vb_ok hp (concat (map (\<lambda>(name, v). req_field hp name) gs) @ [CHR 0xff, CHR 0xff, NUL] @ drop 3 xs)"
    if "list_all (\<lambda>(name, v). vary_name_ok name \<and> vary_val_ok v) gs" for gs :: "(string \<times> string option) list"
    using that by (induction gs) (auto intro: vb_ok.intros)
  from this [OF fs] show ?thesis
    using put b(1,2) room by (intro exI [of _ "?E @ [CHR 0xff, CHR 0xff, NUL] @ drop 3 xs"]) (auto simp: VRY_Match_def b(3))
qed

text \<open>A sequence of entries passes validation.\<close>

lemma Validate_field:
  assumes "vary_name_ok name" "vary_val_ok v"
  shows "VRY_Validate (vry_field (name, v) @ r) = VRY_Validate r"
proof -
  have "drop 3 (vry_field (name, v) @ r) = (name @ '':'') @ NUL # (case v of Some v \<Rightarrow> v | None \<Rightarrow> []) @ r"
    using field_head(2) [OF assms(1), of v r] by (simp add: vry_field_def HTTP_Init_hdr_def)
  moreover have "NUL \<notin> set (name @ '':'')" using assms(1) by (simp add: vary_name_ok_def)
  ultimately have "cstr (drop 3 (vry_field (name, v) @ r)) = name @ '':''"
    using cstr_append_NUL [of "name @ '':''"] by (simp only:) blast
  then show ?thesis
    using field_head(1) [OF assms(1), of v r] field_name [OF assms(1)] vry_len_field [OF assms, of r]
    by (simp add: VRY_Validate.simps [of "vry_field (name, v) @ r"])
qed

lemma vb_ok_Validate: "vb_ok hp buf \<Longrightarrow> req_vals_ok hp \<Longrightarrow> VRY_Validate buf = Some ()"
  by (induction rule: vb_ok.induct) (simp add: VRY_Validate.simps byte_at_def, simp add: Validate_field req_vals_ok_def)

subsection \<open>Creating the string of an object\<close>

text \<open>A \<open>Vary\<close> header: names separated by commas, with space around them.\<close>

fun vary_text :: "(string \<times> string \<times> string) list \<Rightarrow> string" where
  "vary_text [] = []"
| "vary_text [(a, name, b)] = a @ name @ b"
| "vary_text ((a, name, b) # ns) = a @ name @ b @ CHR '','' # vary_text ns"

definition vary_item_ok :: "string \<times> string \<times> string \<Rightarrow> bool" where
  "vary_item_ok it = (case it of (a, name, b) \<Rightarrow> list_all vct_issp a \<and> list_all vct_issp b \<and> name \<noteq> [] \<and> vary_name_ok name \<and>
     list_all (\<lambda>c. \<not> vct_issp c \<and> c \<noteq> CHR '','' \<and> c \<noteq> CHR '':'') name)"

lemma create_skip: "list_all vct_issp a \<Longrightarrow> vry_create_loop hp (a @ p) sb = vry_create_loop hp p sb"
proof (induction a)
  case (Cons c a)
  then show ?case by (simp add: vry_create_loop.simps [of hp "c # a @ p"])
qed simp

lemma create_step:
  assumes "p \<noteq> []" and "\<not> vct_issp (List.hd p)"
  shows "vry_create_loop hp p sb = do {
         let name = takeWhile (\<lambda>c. \<not> vct_issp c \<and> c \<noteq> CHR '','') p;
         let sbh = char_of (1 + length name) # name @ '':'' @ [NUL];
         h \<leftarrow> http_GetHdr hp (butlast sbh);
         (l, val) \<leftarrow> (case h of
            Some h \<Rightarrow> do {
              assert_c (h = [] \<or> \<not> vct_issp (List.hd h));
              assert_c (length (rtrim h) \<le> 0xffff);
              Some (length (rtrim h), rtrim h)
            }
          | None \<Rightarrow> Some (0xffff, []));
         let sb = sb @ vbe16enc (of_nat l) @ sbh @ val;
         (case dropWhile vct_issp (dropWhile (\<lambda>c. \<not> vct_issp c \<and> c \<noteq> CHR '','') p) of
            [] \<Rightarrow> Some sb
          | d # q' \<Rightarrow> do { assert_c (d = CHR '',''); vry_create_loop hp q' sb })
       }"
proof -
  obtain c p' where p: "p = c # p'" using assms(1) by (cases p) auto
  then show ?thesis using assms(2) unfolding p list.sel by (subst vry_create_loop.simps) (simp only: list.case if_False Let_def)
qed

lemma create_name:
  assumes hp: "http_full hp" "req_vals_ok hp" and it: "vary_item_ok (a, name, b)" and p: "p = [] \<or> List.hd p = CHR '',''"
  shows "vry_create_loop hp (a @ name @ b @ p) sb = (case p of [] \<Rightarrow> Some (sb @ req_field hp name)
    | _ # q \<Rightarrow> vry_create_loop hp q (sb @ req_field hp name))"
proof -
  have nm: "vary_name_ok name" "length name < 127" and nn: "name \<noteq> []" "list_all (\<lambda>c. \<not> vct_issp c \<and> c \<noteq> CHR '','') name"
    and sp: "list_all vct_issp a" "list_all vct_issp b"
    using it by (auto simp: vary_item_ok_def vary_name_ok_def list_all_iff)
  have comma: "\<not> vct_issp (CHR '','')" by (simp add: vct_classes)
  have stop: "takeWhile (\<lambda>c. \<not> vct_issp c \<and> c \<noteq> CHR '','') (name @ b @ p) = name"
    "dropWhile (\<lambda>c. \<not> vct_issp c \<and> c \<noteq> CHR '','') (name @ b @ p) = b @ p"
    using nn(2) sp(2) p by (cases b; cases p; auto simp: list_all_iff takeWhile_append2 dropWhile_append2)+
  have skip: "dropWhile vct_issp (b @ p) = p"
    using sp(2) p comma by (cases p) (auto simp: list_all_iff dropWhile_append2)
  have get: "http_GetHdr hp (butlast (char_of (1 + length name) # name @ '':'' @ [NUL])) = Some (hdr_value name (h_lines hp))"
    using http_GetHdr_value [OF hp(1) nm(2)] by (simp add: HTTP_Init_hdr_def butlast_append)
  have val: "(case hdr_value name (h_lines hp) of Some h \<Rightarrow> do { assert_c (h = [] \<or> \<not> vct_issp (List.hd h)); assert_c (length (rtrim h) \<le> 0xffff);
        Some (length (rtrim h), rtrim h) } | None \<Rightarrow> Some (0xffff, [])) =
      Some (case vary_val hp name of Some v \<Rightarrow> length v | None \<Rightarrow> 0xffff, case vary_val hp name of Some v \<Rightarrow> v | None \<Rightarrow> [])"
  proof (cases "hdr_value name (h_lines hp)")
    case (Some h)
    then have "h = [] \<or> \<not> vct_issp (List.hd h)" by (auto simp: hdr_value_def dest: hd_dropWhile)
    moreover have "vary_val_ok (Some (rtrim h))"
      using hp(2) Some unfolding req_vals_ok_def vary_val_def by (metis option.map(2))
    then have "length (rtrim h) \<le> 0xffff" by (simp add: vary_val_ok_def)
    ultimately show ?thesis using Some by (auto simp: vary_val_def)
  qed (simp add: vary_val_def)
  have bytes: "vbe16enc (of_nat (case vary_val hp name of Some v \<Rightarrow> length v | None \<Rightarrow> 0xffff)) @ (char_of (1 + length name) # name @ '':'' @ [NUL]) @
      (case vary_val hp name of Some v \<Rightarrow> v | None \<Rightarrow> []) = req_field hp name"
    by (simp add: vry_field_def HTTP_Init_hdr_def split: option.splits)
  have "vry_create_loop hp (name @ b @ p) sb = (case p of [] \<Rightarrow> Some (sb @ req_field hp name)
      | _ # q \<Rightarrow> vry_create_loop hp q (sb @ req_field hp name))"
  proof -
    have "name @ b @ p \<noteq> []" "\<not> vct_issp (List.hd (name @ b @ p))" using nn by (cases name; simp)+
    note step = create_step [OF this, of hp sb]
    show ?thesis unfolding step stop skip Let_def get
      using p by (simp only: bind.bind_lunit val prod.case bytes) (cases p; simp)
  qed
  then show ?thesis using create_skip [OF sp(1)] by simp
qed

lemma create_loop_text:
  assumes hp: "http_full hp" "req_vals_ok hp" and ok: "list_all vary_item_ok ns"
  shows "vry_create_loop hp (vary_text ns) sb = Some (sb @ concat (map (\<lambda>(a, name, b). req_field hp name) ns))"
  using ok
proof (induction ns arbitrary: sb rule: vary_text.induct)
  case 1
  then show ?case by (simp add: vry_create_loop.simps)
next
  case (2 a name b)
  then show ?case using create_name [OF hp, of a name b "[]" sb] by simp
next
  case (3 a name b n ns)
  then show ?case using create_name [OF hp, of a name b "CHR '','' # vary_text (n # ns)" sb] by simp
qed

lemma vary_text_start: "list_all vary_item_ok ns \<Longrightarrow> (case vary_text ns of c # v \<Rightarrow> if c = CHR '':'' then v else vary_text ns | [] \<Rightarrow> vary_text ns) = vary_text ns"
proof (cases ns rule: vary_text.cases)
  case (2 a name b)
  moreover assume "list_all vary_item_ok ns"
  moreover have "\<not> vct_issp (CHR '':'')" by (simp add: vct_classes)
  ultimately show ?thesis by (cases a; cases name; auto simp: vary_item_ok_def)
next
  case (3 a name b n ns')
  moreover assume "list_all vary_item_ok ns"
  moreover have "\<not> vct_issp (CHR '':'')" by (simp add: vct_classes)
  ultimately show ?thesis by (cases a; cases name; auto simp: vary_item_ok_def)
qed simp

lemma VRY_Create_ok:
  assumes "http_full sphttp" "req_vals_ok sphttp" "http_full hp" and "hdr_value ''Vary'' (h_lines hp) = Some (vary_text ns)"
    and "list_all vary_item_ok ns"
  shows "VRY_Create sphttp hp =
    Some (Some (concat (map vry_field (map (\<lambda>(a, name, b). (name, vary_val sphttp name)) ns)) @ [CHR 0xff, CHR 0xff, NUL]))"
proof -
  have "http_GetHdr hp H_Vary = Some (Some (vary_text ns))" using http_GetHdr_value [OF assms(3), of "''Vary''"] assms(4) by simp
  moreover have "map (\<lambda>(a, name, b). req_field sphttp name) ns = map vry_field (map (\<lambda>(a, name, b). (name, vary_val sphttp name)) ns)" by auto
  then have "vry_create_loop sphttp (vary_text ns) [] =
      Some (concat (map vry_field (map (\<lambda>(a, name, b). (name, vary_val sphttp name)) ns)))"
    using create_loop_text [OF assms(1,2,5), of "[]"] by (simp only: append_Nil)
  ultimately show ?thesis
    using vary_text_start [OF assms(5)] by (simp add: VRY_Create_def del: map_map)
qed

lemma VRY_Validate_ok:
  "list_all (\<lambda>(name, v). vary_name_ok name \<and> vary_val_ok v) fs \<Longrightarrow> VRY_Validate (concat (map vry_field fs) @ [CHR 0xff, CHR 0xff, NUL]) = Some ()"
  by (induction fs) (simp add: VRY_Validate.simps byte_at_def, clarsimp simp: Validate_field)

lemma length_rtrim: "length (rtrim s) \<le> length s"
  using length_dropWhile_le [of vct_issp "rev s"] by (simp add: rtrim_def)

lemma req_vals_ok_lines:
  assumes "list_all (\<lambda>s. length s < 0xffff) (h_lines hp)"
  shows "req_vals_ok hp"
proof -
  have "length v < 0xffff" if v: "vary_val hp name = Some v" for name v
  proof -
    obtain l where l: "l \<in> set (h_lines hp)" "v = rtrim (dropWhile vct_issp (drop (length name + 1) l))"
      using v unfolding vary_val_def hdr_value_def by (auto simp: find_Some_iff in_set_conv_nth)
    have "length v \<le> length l"
      using length_rtrim [of "dropWhile vct_issp (drop (length name + 1) l)"] length_dropWhile_le [of vct_issp "drop (length name + 1) l"] l(2) by simp
    then show ?thesis using assms l(1) by (auto simp: list_all_iff)
  qed
  then show ?thesis by (auto simp: req_vals_ok_def vary_val_ok_def)
qed

subsection \<open>Properties\<close>

text \<open>
  C11: for a response with a well-formed \<open>Vary\<close> header, the string
  created from the request that fetched it is valid, and matching it against any request whose vary buffer has room for
  it succeeds exactly when both requests agree on every header named, absent headers included, except that with gzip
  support \<open>Accept-Encoding\<close> is not compared. The buffer stays usable for further matches.
\<close>
theorem VRY_Create_Match:
  assumes "http_full r1" "req_vals_ok r1" "http_full r2" "req_vals_ok r2" "http_full hp"
    and "hdr_value ''Vary'' (h_lines hp) = Some (vary_text ns)" and "list_all vary_item_ok ns"
    and "length (concat (map (\<lambda>(a, name, b). req_field r2 name) ns)) + 3 \<le> length buf" and "vb_ok r2 buf"
  shows "\<exists>vary buf' l. VRY_Create r1 hp = Some (Some vary) \<and> VRY_Validate vary = Some () \<and>
    VRY_Match gzip r2 vary buf = Some (buf', Some l, \<forall>(a, name, b) \<in> set ns.
      vary_val r1 name = vary_val r2 name \<or> gzip \<and> strcaseeq ''Accept-Encoding'' name) \<and>
    length buf' = length buf \<and> vb_ok r2 buf'"
proof -
  let ?fs = "map (\<lambda>(a, name, b). (name, vary_val r1 name)) ns"
  have fs: "list_all (\<lambda>(name, v). vary_name_ok name \<and> vary_val_ok v) ?fs"
    using assms(2,7) by (auto simp: list_all_iff vary_item_ok_def req_vals_ok_def)
  have e: "map (\<lambda>(name, v). req_field r2 name) ?fs = map (\<lambda>(a, name, b). req_field r2 name) ns" by auto
  have b: "(\<forall>(name, v) \<in> set ?fs. vary_verdict gzip name v (vary_val r2 name)) =
      (\<forall>(a, name, b) \<in> set ns. vary_val r1 name = vary_val r2 name \<or> gzip \<and> strcaseeq ''Accept-Encoding'' name)"
    by (auto simp: vary_verdict_def)
  show ?thesis
    using VRY_Create_ok [OF assms(1,2,5,6,7)] VRY_Validate_ok [OF fs] VRY_Match_ok [OF assms(3,4) fs, of buf "[CHR 0xff, CHR 0xff, NUL]" gzip] assms(8,9)
    unfolding e b by auto
qed

definition vary_resp :: http where
  "vary_resp = http_ex\<lparr>h_hd := [lit ''GET'', lit ''/'', lit ''HTTP/1.1'', no_txt, no_txt, lit ''Vary: X-A'', lit ''X-B: 1''], h_hdf := replicate 7 0, h_nhd := 7\<rparr>"

definition vary_req :: http where
  "vary_req = http_ex\<lparr>h_hd := [lit ''GET'', lit ''/'', lit ''HTTP/1.1'', no_txt, no_txt, lit ''x-a: 2 '', lit ''X-B: 1''], h_hdf := replicate 7 0, h_nhd := 7\<rparr>"

lemma vary_ex:
  "http_full vary_resp" "http_full vary_req" "h_lines vary_resp = [''Vary: X-A'', ''X-B: 1'']" "h_lines vary_req = [''x-a: 2 '', ''X-B: 1'']"
  by (simp_all add: http_full_def http_ok_def vary_resp_def vary_req_def http_ex_def h_slots_def h_lines_def lit_def HTTP_HDR_FIRST_def numeral_eq_Suc)

lemma vary_ex_vals:
  "vary_val http_ex ''X-A'' = Some ''1''" "vary_val vary_req ''X-A'' = Some ''2''" "hdr_value ''Vary'' (h_lines vary_resp) = Some ''X-A''"
  unfolding vary_val_def http_ex_lines vary_ex by code_simp+

lemma vary_ex_ok: "req_vals_ok http_ex" "req_vals_ok vary_req" "list_all vary_item_ok [([], ''X-A'', [])]"
  by (simp_all add: req_vals_ok_lines http_ex_lines vary_ex vary_item_ok_def vary_name_ok_def vct_classes)

theorem VRY_Create_Match_witness:
  "\<exists>vary buf' l. VRY_Create http_ex vary_resp = Some (Some vary) \<and>
    VRY_Match True vary_req vary (replicate 20 NUL) = Some (buf', Some l, False)"
proof -
  have "length (req_field vary_req ''X-A'') = 9" by (simp add: length_field vary_ex_vals)
  moreover have "vb_ok vary_req (replicate 20 NUL)" by (rule vb_end) simp_all
  moreover have "\<not> strcaseeq ''Accept-Encoding'' ''X-A''" by code_simp
  ultimately show ?thesis
    using VRY_Create_Match [OF http_ex_full vary_ex_ok(1) vary_ex(2) vary_ex_ok(2) vary_ex(1), of "[([], ''X-A'', [])]" "replicate 20 NUL" True]
      vary_ex_ok(3) vary_ex_vals by auto
qed

text \<open>
  When the entry to build ends one or two bytes before the
  end of the session's workspace, \<open>VRY_Match\<close> takes it to fit and then panics in the assertion that
  asks for two bytes more.
\<close>
theorem VRY_Match_tight_panics:
  assumes "http_full hp" "req_vals_ok hp" "vary_name_ok name" "vary_val_ok v" and "buf ! 2 = NUL"
    and "length buf = length (req_field hp name) + 1 \<or> length buf = length (req_field hp name) + 2"
  shows "VRY_Match gzip hp (vry_field (name, v) @ r) buf = None"
proof -
  have nl: "length name < 127" using assms(3) by (simp add: vary_name_ok_def)
  have vok: "vary_val_ok (vary_val hp name)" using assms(2) by (simp add: req_vals_ok_def)
  have "vry_entry hp (vry_field (name, v) @ r) 0 buf False = None"
    using http_GetHdr_value [OF assms(1) nl] field_head [OF assms(3), of v r] field_name [OF assms(3)] vok assms(6)
    by (auto simp: vry_entry_def length_field vary_val_def vary_val_ok_def panic_simps simp del: drop_append split: option.splits if_splits)
  moreover have "3 \<le> length buf" using assms(6) by (auto simp: length_field)
  ultimately show ?thesis
    using vry_cmp_end [OF assms(3,4) _ assms(5), of gzip r] field_head(1) [OF assms(3), of v r] field_name(1) [OF assms(3)]
    by (simp add: VRY_Match_def vry_match_loop.simps)
qed

theorem VRY_Match_tight_panics_witness:
  "VRY_Match True vary_req (vry_field (''X-A'', Some ''2'') @ [CHR 0xff, CHR 0xff, NUL]) (replicate 11 NUL) = None"
  by (rule VRY_Match_tight_panics [OF vary_ex(2) vary_ex_ok(2)])
    (simp_all add: vary_name_ok_def vary_val_ok_def length_field vary_ex_vals)

end
