(* ===== verification/Object_Hash.thy ===== *)
theory Object_Hash
  imports Hash_Implementations Ban_List Expire Vary
begin

text \<open>
  Looking objects up, \<^verbatim>\<open>bin/varnishd/cache_hash.c\<close>: the users of the hash implementations, and
  where object heads, object cores, objects, bans, vary strings and timers meet.

  The state extends that of the expiry code with the hash implementation's own state, the
  store of object heads and the ban list. A worker's precreated structures and the session are records
  passed along. Each operation runs as a whole; what the environment decides is an argument: the
  addresses \<open>noc\<close> and \<open>noh\<close> that an allocation returns, the health of the backend, whether the
  thread pool refuses a session. \<open>None\<close> is a failed assertion or an access to freed memory.
\<close>

subsection \<open>State\<close>

record 'h cache = exp_state +
  c_hash :: 'h
  c_heads :: oh_store
  c_bans :: "oc_ref bans"
  c_queued :: "sess_ref list"
  client_drop_late :: nat

record wrk =
  w_nobjcore :: "oc_ref option"
  w_nobjhead :: "oh_ref option"
  w_nwaitinglist :: bool
  w_nbusyobj :: "busyobj option"
  n_object :: int
  n_objectcore :: int
  n_objecthead :: int
  n_waitinglist :: int
  n_objoverflow :: int
  n_vampireobject :: int

record hsess =
  sp_ref :: sess_ref
  sp_http :: http
  sp_exp :: exp
  sp_t_req :: rat
  sp_digest :: "u8 list"
  sp_hash_objhead :: "oh_ref option"
  sp_hash_ignore_busy :: bool
  sp_hash_always_miss :: bool
  sp_esi_level :: nat
  sp_vary_b :: "char list"
  sp_vary_l :: "nat option"

text \<open>The methods of a hash implementation and the parameters that matter here.\<close>

record 'h slinger =
  sl_prep :: "'h \<Rightarrow> 'h"
  sl_lookup :: "'h \<Rightarrow> oh_store \<Rightarrow> oh_ref \<Rightarrow> ('h \<times> oh_store \<times> oh_ref) option"
  sl_deref :: "'h \<Rightarrow> oh_store \<Rightarrow> oh_ref \<Rightarrow> ('h \<times> oh_store \<times> bool) option"

record hsh_params =
  p_exp :: exp_params
  http_gzip_support :: bool
  rush_exponent :: nat
  p_pcre_exec :: "char list \<Rightarrow> string \<Rightarrow> bool"

definition INT_MAX :: int where "INT_MAX = 2 ^ 31 - 1"

subsection \<open>Structures made in advance\<close>

definition new_objcore :: objcore where
  "new_objcore = \<lparr>oc_refcnt = 0, oc_methods = False, oc_priv = None, oc_objhead = None, oc_busyobj = None,
     oc_timer_when = 0, oc_flags = OC_F_BUSY\<rparr>"

definition new_objhead :: objhead where
  "new_objhead = \<lparr>oh_refcnt = 1, oh_objcs = [], oh_digest = replicate DIGEST_LEN 0, oh_waitinglist = None, oh_hoh_head = None\<rparr>"

definition HSH_Prealloc :: "'h slinger \<Rightarrow> oc_ref \<Rightarrow> oh_ref \<Rightarrow> wrk \<Rightarrow> 'h cache \<Rightarrow> wrk \<times> 'h cache" where
  "HSH_Prealloc hash noc noh w s =
     (let (w, s) = (if w_nobjcore w = None
            then (w\<lparr>w_nobjcore := Some noc, n_objectcore := n_objectcore w + 1\<rparr>, s\<lparr>es_oc := (es_oc s)(noc \<mapsto> new_objcore)\<rparr>)
            else (w, s));
          (w, s) = (if w_nobjhead w = None
            then (w\<lparr>w_nobjhead := Some noh, n_objecthead := n_objecthead w + 1\<rparr>, s\<lparr>c_heads := (c_heads s)(noh := new_objhead)\<rparr>)
            else (w, s));
          w = (if \<not> w_nwaitinglist w then w\<lparr>w_nwaitinglist := True, n_waitinglist := n_waitinglist w + 1\<rparr> else w);
          w = (if w_nbusyobj w = None then w\<lparr>w_nbusyobj := Some \<lparr>bo_vary = None\<rparr>\<rparr> else w)
      in (w, s\<lparr>c_hash := sl_prep hash (c_hash s)\<rparr>))"

definition HSH_Cleanup :: "wrk \<Rightarrow> 'h cache \<Rightarrow> wrk \<times> 'h cache" where
  "HSH_Cleanup w s =
     (let (w, s) = (case w_nobjcore w of
            Some oc \<Rightarrow> (w\<lparr>w_nobjcore := None, n_objectcore := n_objectcore w - 1\<rparr>, s\<lparr>es_oc := (es_oc s)(oc := None)\<rparr>)
          | None \<Rightarrow> (w, s));
          w = (case w_nobjhead w of Some oh \<Rightarrow> w\<lparr>w_nobjhead := None, n_objecthead := n_objecthead w - 1\<rparr> | None \<Rightarrow> w)
      in (w\<lparr>w_nwaitinglist := False, w_nbusyobj := None\<rparr>, s))"

definition HSH_DeleteObjHead :: "oh_ref \<Rightarrow> wrk \<Rightarrow> 'h cache \<Rightarrow> wrk option" where
  "HSH_DeleteObjHead oh w s = do {
     assert_c (oh_refcnt (c_heads s oh) = 0);
     assert_c (oh_objcs (c_heads s oh) = []);
     Some (w\<lparr>n_objecthead := n_objecthead w - 1\<rparr>)
   }"

text \<open>The data fed to the message digest.\<close>

definition HSH_AddString :: "string option \<Rightarrow> string \<Rightarrow> string" where
  "HSH_AddString str ctx = ctx @ (case str of Some s \<Rightarrow> s | None \<Rightarrow> []) @ ''#''"

text \<open>The debugging aid that maps the first digests seen to edge cases.\<close>

definition hsh_magiclist_now :: "u8 list list" where
  "hsh_magiclist_now = [replicate 32 0, replicate 31 0 @ [1], replicate 31 0 @ [2], replicate 31 0 @ [0x40], replicate 31 0 @ [0x80],
     1 # replicate 31 0, 2 # replicate 31 0, 0x80 # replicate 31 0, 0x40 # replicate 31 0]"

definition HSH_NMAGIC :: nat where "HSH_NMAGIC = length hsh_magiclist_now"

definition hsh_testmagic :: "u8 list list \<Rightarrow> u8 list \<Rightarrow> (u8 list list \<times> u8 list) option" where
  "hsh_testmagic was result =
     (let i = length (takeWhile (\<lambda>d. d \<noteq> result) was);
          was' = (if i = length was \<and> i < HSH_NMAGIC then was @ [result] else was)
      in if i = length was' then Some (was', result)
         else do { assert_c (i < HSH_NMAGIC); Some (was', hsh_magiclist_now ! i) })"

subsection \<open>Helpers of the lookup\<close>

text \<open>
  \<open>BAN_CheckObject\<close> of \<^verbatim>\<open>cache_ban.c\<close> with what it does to the object: a banned object loses its timers.
\<close>

definition oc_check_ban :: "hsh_params \<Rightarrow> ob_ref \<Rightarrow> http \<Rightarrow> 'h cache \<Rightarrow> ('h cache \<times> bool) option" where
  "oc_check_ban params b reqhttp s = do {
     ob \<leftarrow> es_ob s b;
     oc \<leftarrow> o_objcore ob;
     (bans, banned) \<leftarrow> BAN_CheckObject (p_pcre_exec params) (o_http ob) reqhttp oc (c_bans s);
     (if banned then do {
        let s = s\<lparr>c_bans := bans, es_ob := (es_ob s)(b \<mapsto> ob\<lparr>o_exp := EXP_Clr (o_exp ob)\<rparr>)\<rparr>;
        oc_updatemeta oc s;
        s \<leftarrow> EXP_Rearm (p_exp params) b s;
        Some (s, True)
      }
      else Some (s\<lparr>c_bans := bans\<rparr>, False))
   }"

definition sess_vary :: "hsh_params \<Rightarrow> char list option \<Rightarrow> hsess \<Rightarrow> (hsess \<times> bool) option" where
  "sess_vary params vary sp = (case vary of
     None \<Rightarrow> Some (sp, True)
   | Some v \<Rightarrow> do {
       (buf, l, m) \<leftarrow> VRY_Match (http_gzip_support params) (sp_http sp) v (sp_vary_b sp);
       Some (sp\<lparr>sp_vary_b := buf, sp_vary_l := l\<rparr>, m)
     })"

text \<open>
  The search of \<open>HSH_Lookup\<close> through the object cores of a head: the object to use, the last busy
  one that may match, and the least expired one in grace.
\<close>

fun lookup_loop :: "hsh_params \<Rightarrow> oh_ref \<Rightarrow> oc_ref list \<Rightarrow> oc_ref option \<Rightarrow> (oc_ref \<times> rat) option \<Rightarrow> hsess \<Rightarrow> 'h cache \<Rightarrow>
    (oc_ref option \<times> oc_ref option \<times> (oc_ref \<times> rat) option \<times> hsess \<times> 'h cache) option" where
  "lookup_loop params oh [] busy_oc grace sp s = Some (None, busy_oc, grace, sp, s)"
| "lookup_loop params oh (oc # ocs) busy_oc grace sp s = do {
     assert_c (oh_refcnt (c_heads s oh) > 1);
     c \<leftarrow> es_oc s oc;
     assert_c (oc_objhead c = Some oh);
     (if oc_busy c then do {
        bo \<leftarrow> oc_busyobj c;
        (if sp_hash_ignore_busy sp then lookup_loop params oh ocs busy_oc grace sp s
         else do {
           (sp, m) \<leftarrow> sess_vary params (bo_vary bo) sp;
           lookup_loop params oh ocs (if m then Some oc else busy_oc) grace sp s
         })
      }
      else do {
        b \<leftarrow> oc_getobj oc s;
        b \<leftarrow> b;
        ob \<leftarrow> es_ob s b;
        (if e_ttl (o_exp ob) \<le> 0 then lookup_loop params oh ocs busy_oc grace sp s
         else do {
           (s, banned) \<leftarrow> oc_check_ban params b (sp_http sp) s;
           (if banned then lookup_loop params oh ocs busy_oc grace sp s
            else do {
              (sp, m) \<leftarrow> sess_vary params (o_vary ob) sp;
              (if \<not> m then lookup_loop params oh ocs busy_oc grace sp s
               else if EXP_Ttl (Some (sp_exp sp)) (o_exp ob) \<ge> sp_t_req sp then Some (Some oc, busy_oc, grace, sp, s)
               else
                 let t = e_entered (o_exp ob) + e_ttl (o_exp ob);
                     grace = (if EXP_Grace (p_exp params) (Some (sp_exp sp)) (o_exp ob) \<ge> sp_t_req sp \<and>
                                 (case grace of None \<Rightarrow> True | Some (_, g) \<Rightarrow> g < t)
                              then Some (oc, t) else grace)
                 in lookup_loop params oh ocs busy_oc grace sp s)
            })
         })
      })
   }"

subsection \<open>Lookup\<close>

text \<open>
  The result has the object core and the head that are returned, both missing when the session
  was put to wait. \<open>healthy\<close> is what \<open>VDI_Healthy\<close> says with the grace candidate in \<open>sp->objcore\<close>.
\<close>

definition hsh_hit :: "'h slinger \<Rightarrow> oh_ref \<Rightarrow> oc_ref \<Rightarrow> 'h cache \<Rightarrow> 'h cache option" where
  "hsh_hit hash oh oc s = do {
     b \<leftarrow> oc_getobj oc s;
     b \<leftarrow> b;
     ob \<leftarrow> es_ob s b;
     c \<leftarrow> es_oc s oc;
     assert_c (oc_objhead c = Some oh);
     let s = s\<lparr>es_oc := (es_oc s)(oc \<mapsto> c\<lparr>oc_refcnt := oc_refcnt c + 1\<rparr>),
               es_ob := (es_ob s)(b \<mapsto> (if o_hits ob < INT_MAX then ob\<lparr>o_hits := o_hits ob + 1\<rparr> else ob))\<rparr>;
     assert_c (oh_refcnt (c_heads s oh) > 1);
     (st, hs, r) \<leftarrow> sl_deref hash (c_hash s) (c_heads s) oh;
     assert_c r;
     Some (s\<lparr>c_hash := st, c_heads := hs\<rparr>)
   }"

definition hsh_wait :: "oh_ref \<Rightarrow> hsess \<Rightarrow> wrk \<Rightarrow> 'h cache \<Rightarrow> (hsess \<times> wrk \<times> 'h cache) option" where
  "hsh_wait oh sp w s = do {
     (w, s) \<leftarrow> (if sp_esi_level sp = 0 then do {
          assert_c (w_nwaitinglist w);
          let h = c_heads s oh;
          Some (if oh_waitinglist h = None then w\<lparr>w_nwaitinglist := False\<rparr> else w,
            s\<lparr>c_heads := (c_heads s)(oh := h\<lparr>oh_waitinglist := Some ((case oh_waitinglist h of Some l \<Rightarrow> l | None \<Rightarrow> []) @ [sp_ref sp])\<rparr>)\<rparr>)
        }
        else Some (w, s));
     Some (sp\<lparr>sp_hash_objhead := Some oh\<rparr>, w, s)
   }"

definition hsh_miss :: "oh_ref \<Rightarrow> hsess \<Rightarrow> wrk \<Rightarrow> 'h cache \<Rightarrow> (oc_ref \<times> wrk \<times> 'h cache) option" where
  "hsh_miss oh sp w s = do {
     oc \<leftarrow> w_nobjcore w;
     c \<leftarrow> es_oc s oc;
     assert_c (oc_busy c);
     VRY_Validate (sp_vary_b sp);
     bo \<leftarrow> w_nbusyobj w;
     let bo = bo\<lparr>bo_vary := (if sp_vary_l sp \<noteq> None then Some (sp_vary_b sp) else None)\<rparr>;
     let h = c_heads s oh;
     Some (oc, w\<lparr>w_nobjcore := None, w_nbusyobj := None\<rparr>,
       s\<lparr>es_oc := (es_oc s)(oc \<mapsto> c\<lparr>oc_refcnt := 1, oc_busyobj := Some bo, oc_objhead := Some oh\<rparr>),
         c_heads := (c_heads s)(oh := h\<lparr>oh_objcs := oh_objcs h @ [oc]\<rparr>)\<rparr>)
   }"

text \<open>The head to search: the one a session from the waiting list brings, or that of the session's digest.\<close>

definition hsh_enter :: "'h slinger \<Rightarrow> oc_ref \<Rightarrow> oh_ref \<Rightarrow> hsess \<Rightarrow> wrk \<Rightarrow> 'h cache \<Rightarrow> (oh_ref \<times> hsess \<times> wrk \<times> 'h cache) option" where
  "hsh_enter hash noc noh sp w s = do {
     let (w, s) = HSH_Prealloc hash noc noh w s;
     nobjhead \<leftarrow> w_nobjhead w;
     let s = s\<lparr>c_heads := (c_heads s)(nobjhead := (c_heads s nobjhead)\<lparr>oh_digest := sp_digest sp\<rparr>)\<rparr>;
     (case sp_hash_objhead sp of
          Some oh \<Rightarrow> Some (oh, sp\<lparr>sp_hash_objhead := None\<rparr>, w, s)
        | None \<Rightarrow> do {
            (st, hs, oh) \<leftarrow> sl_lookup hash (c_hash s) (c_heads s) nobjhead;
            Some (oh, sp, if oh = nobjhead then w\<lparr>w_nobjhead := None\<rparr> else w, s\<lparr>c_hash := st, c_heads := hs\<rparr>)
          })
   }"

definition HSH_Lookup :: "'h slinger \<Rightarrow> hsh_params \<Rightarrow> (oc_ref option \<Rightarrow> bool) \<Rightarrow> oc_ref \<Rightarrow> oh_ref \<Rightarrow> hsess \<Rightarrow> wrk \<Rightarrow> 'h cache \<Rightarrow>
    ((oc_ref \<times> oh_ref) option \<times> hsess \<times> wrk \<times> 'h cache) option" where
  "HSH_Lookup hash params healthy noc noh sp w s = do {
     (oh, sp, w, s) \<leftarrow> hsh_enter hash noc noh sp w s;
     assert_c (oh_refcnt (c_heads s oh) > 0);
     (found, busy_oc, grace, sp, s) \<leftarrow> lookup_loop params oh (oh_objcs (c_heads s oh)) None None sp s;
     let oc = (case (found, grace) of
          (None, Some (g, _)) \<Rightarrow> if busy_oc \<noteq> None \<or> \<not> healthy (Some g) then Some g else None
        | _ \<Rightarrow> found);
     (case oc of
        Some oc \<Rightarrow>
          if \<not> sp_hash_always_miss sp then do {
            s \<leftarrow> hsh_hit hash oh oc s;
            Some (Some (oc, oh), sp, w, s)
          }
          else if busy_oc \<noteq> None then do { (sp, w, s) \<leftarrow> hsh_wait oh sp w s; Some (None, sp, w, s) }
          else do { (oc, w, s) \<leftarrow> hsh_miss oh sp w s; Some (Some (oc, oh), sp, w, s) }
      | None \<Rightarrow>
          if busy_oc \<noteq> None then do { (sp, w, s) \<leftarrow> hsh_wait oh sp w s; Some (None, sp, w, s) }
          else do { (oc, w, s) \<leftarrow> hsh_miss oh sp w s; Some (Some (oc, oh), sp, w, s) })
   }"

definition HSH_Insert :: "'h slinger \<Rightarrow> oc_ref \<Rightarrow> oh_ref \<Rightarrow> hsess \<Rightarrow> wrk \<Rightarrow> 'h cache \<Rightarrow> (oc_ref \<times> wrk \<times> 'h cache) option" where
  "HSH_Insert hash noc noh sp w s = do {
     let (w, s) = HSH_Prealloc hash noc noh w s;
     assert_c (sp_hash_objhead sp = None);
     nobjhead \<leftarrow> w_nobjhead w;
     (st, hs, oh) \<leftarrow> sl_lookup hash (c_hash s) (c_heads s) nobjhead;
     let w = (if oh = nobjhead then w\<lparr>w_nobjhead := None\<rparr> else w);
     let s = s\<lparr>c_hash := st, c_heads := hs\<rparr>;
     assert_c (oh_refcnt (c_heads s oh) > 0);
     oc \<leftarrow> w_nobjcore w;
     c \<leftarrow> es_oc s oc;
     assert_c (\<not> oc_busy c);
     let h = c_heads s oh;
     Some (oc, w\<lparr>w_nobjcore := None, n_vampireobject := n_vampireobject w + 1\<rparr>,
       s\<lparr>es_oc := (es_oc s)(oc \<mapsto> c\<lparr>oc_refcnt := 1, oc_objhead := Some oh\<rparr>),
         c_heads := (c_heads s)(oh := h\<lparr>oh_objcs := oc # oh_objcs h\<rparr>)\<rparr>)
   }"

subsection \<open>Waking and releasing\<close>

text \<open>Sessions taken off the waiting list; \<open>refuse\<close> says which the thread pool does not take.\<close>

fun rush_loop :: "nat \<Rightarrow> (sess_ref \<Rightarrow> bool) \<Rightarrow> sess_ref list \<Rightarrow> sess_ref list \<times> sess_ref list \<times> nat" where
  "rush_loop 0 refuse l = (l, [], 0)"
| "rush_loop (Suc u) refuse [] = ([], [], 0)"
| "rush_loop (Suc u) refuse (sp # l) =
     (if refuse sp then (l, [], 1)
      else case rush_loop u refuse l of (l', q, d) \<Rightarrow> (l', sp # q, d))"

definition hsh_rush :: "hsh_params \<Rightarrow> (sess_ref \<Rightarrow> bool) \<Rightarrow> oh_ref \<Rightarrow> 'h cache \<Rightarrow> 'h cache option" where
  "hsh_rush params refuse oh s = do {
     wl \<leftarrow> oh_waitinglist (c_heads s oh);
     let (l, q, d) = rush_loop (rush_exponent params) refuse wl;
     Some (s\<lparr>c_heads := (c_heads s)(oh := (c_heads s oh)\<lparr>oh_waitinglist := (if l = [] then None else Some l)\<rparr>),
             c_queued := c_queued s @ q, client_drop_late := client_drop_late s + d\<rparr>)
   }"

text \<open>Dereferencing an object core, or an object with or without one; the result is zero when it was destroyed.\<close>

definition HSH_Deref :: "'h slinger \<Rightarrow> hsh_params \<Rightarrow> (sess_ref \<Rightarrow> bool) \<Rightarrow> oc_ref option \<Rightarrow> ob_ref option \<Rightarrow> wrk \<Rightarrow> 'h cache \<Rightarrow>
    (u32 \<times> wrk \<times> 'h cache) option" where
  "HSH_Deref hash params refuse oc oo w s = do {
     assert_c (oc = None \<or> oo = None);
     oc \<leftarrow> (case oo of None \<Rightarrow> Some oc | Some b \<Rightarrow> do { ob \<leftarrow> es_ob s b; Some (o_objcore ob) });
     (if oo \<noteq> None \<and> oc = None then do {
        b \<leftarrow> oo;
        Some (0, w\<lparr>n_object := n_object w - 1\<rparr>, s\<lparr>es_ob := (es_ob s)(b := None)\<rparr>)
      }
      else do {
        oc \<leftarrow> oc;
        c \<leftarrow> es_oc s oc;
        oh \<leftarrow> oc_objhead c;
        assert_c (oh_refcnt (c_heads s oh) > 0);
        assert_c (oc_refcnt c > 0);
        let r = oc_refcnt c - 1;
        let s = s\<lparr>es_oc := (es_oc s)(oc \<mapsto> c\<lparr>oc_refcnt := r\<rparr>)\<rparr>;
        s \<leftarrow> (if r = 0 then do {
               l \<leftarrow> tailq_remove oc (oh_objcs (c_heads s oh));
               Some (s\<lparr>c_heads := (c_heads s)(oh := (c_heads s oh)\<lparr>oh_objcs := l\<rparr>)\<rparr>)
             }
             else do { assert_c (oc_methods c); Some s });
        s \<leftarrow> (if oh_waitinglist (c_heads s oh) \<noteq> None then hsh_rush params refuse oh s else Some s);
        (if r \<noteq> 0 then Some (r, w, s)
         else do {
           bans \<leftarrow> BAN_DestroyObj oc (c_bans s);
           let s = s\<lparr>c_bans := bans\<rparr>;
           assert_c (oc_ban bans oc = None);
           (w, c) \<leftarrow> (if oc_busy c then do {
                bo \<leftarrow> oc_busyobj c;
                Some (if w_nbusyobj w = None then w\<lparr>w_nbusyobj := Some bo\<rparr> else w, c\<lparr>oc_busyobj := None\<rparr>)
              }
              else Some (w, c));
           assert_c (oc_busyobj c = None);
           (w, s) \<leftarrow> (if oc_methods c then do {
                s \<leftarrow> oc_freeobj oc s;
                Some (w\<lparr>n_object := n_object w - 1\<rparr>, s)
              }
              else Some (w, s));
           let s = s\<lparr>es_oc := (es_oc s)(oc := None)\<rparr>;
           let w = w\<lparr>n_objectcore := n_objectcore w - 1\<rparr>;
           assert_c (oh_refcnt (c_heads s oh) > 0);
           (st, hs, k) \<leftarrow> sl_deref hash (c_hash s) (c_heads s) oh;
           let s = s\<lparr>c_hash := st, c_heads := hs\<rparr>;
           w \<leftarrow> (if k then Some w else HSH_DeleteObjHead oh w s);
           Some (0, w, s)
         })
      })
   }"

definition HSH_Unbusy :: "hsh_params \<Rightarrow> (sess_ref \<Rightarrow> bool) \<Rightarrow> ob_ref \<Rightarrow> wrk \<Rightarrow> 'h cache \<Rightarrow> (wrk \<times> 'h cache) option" where
  "HSH_Unbusy params refuse b w s = do {
     ob \<leftarrow> es_ob s b;
     oc \<leftarrow> o_objcore ob;
     c \<leftarrow> es_oc s oc;
     oh \<leftarrow> oc_objhead c;
     AssertObjBusy ob s;
     assert_c (oc_ban (c_bans s) oc \<noteq> None);
     assert_c (oc_refcnt c > 0);
     assert_c (oh_refcnt (c_heads s oh) > 0);
     let w = (if o_overflow ob then w\<lparr>n_objoverflow := n_objoverflow w + 1\<rparr> else w);
     l \<leftarrow> tailq_remove oc (oh_objcs (c_heads s oh));
     assert_c (w_nbusyobj w = None);
     let w = w\<lparr>w_nbusyobj := oc_busyobj c\<rparr>;
     let s = s\<lparr>c_heads := (c_heads s)(oh := (c_heads s oh)\<lparr>oh_objcs := oc # l\<rparr>),
               es_oc := (es_oc s)(oc \<mapsto> c\<lparr>oc_flags := oc_flags c AND NOT OC_F_BUSY, oc_busyobj := None\<rparr>)\<rparr>;
     s \<leftarrow> (if oh_waitinglist (c_heads s oh) \<noteq> None then hsh_rush params refuse oh s else Some s);
     b' \<leftarrow> oc_getobj oc s;
     assert_c (b' = Some b);
     Some (w, s)
   }"

definition HSH_Drop :: "'h slinger \<Rightarrow> hsh_params \<Rightarrow> (sess_ref \<Rightarrow> bool) \<Rightarrow> ob_ref \<Rightarrow> wrk \<Rightarrow> 'h cache \<Rightarrow> (wrk \<times> 'h cache) option" where
  "HSH_Drop hash params refuse b w s = do {
     ob \<leftarrow> es_ob s b;
     (case o_objcore ob of None \<Rightarrow> Some () | Some oc \<Rightarrow> do { c \<leftarrow> es_oc s oc; assert_c (oc_busy c) });
     let s = s\<lparr>es_ob := (es_ob s)(b \<mapsto> ob\<lparr>o_exp := (o_exp ob)\<lparr>e_ttl := -1\<rparr>\<rparr>)\<rparr>;
     (w, s) \<leftarrow> (if o_objcore ob \<noteq> None then HSH_Unbusy params refuse b w s else Some (w, s));
     (r, w, s) \<leftarrow> HSH_Deref hash params refuse None (Some b) w s;
     Some (w, s)
   }"

subsection \<open>Purging a head\<close>

fun purge_collect :: "oh_ref \<Rightarrow> oc_ref list \<Rightarrow> nat \<Rightarrow> 'h cache \<Rightarrow> (oc_ref list \<times> 'h cache) option" where
  "purge_collect oh [] spc s = Some ([], s)"
| "purge_collect oh (oc # ocs) spc s = do {
     c \<leftarrow> es_oc s oc;
     assert_c (oc_objhead c = Some oh);
     (if oc_busy c then purge_collect oh ocs spc s
      else do {
        _ \<leftarrow> oc_getobj oc s;
        assert_c (spc \<ge> 8);
        (l, s) \<leftarrow> purge_collect oh ocs (spc - 8) (s\<lparr>es_oc := (es_oc s)(oc \<mapsto> c\<lparr>oc_refcnt := oc_refcnt c + 1\<rparr>)\<rparr>);
        Some (oc # l, s)
      })
   }"

fun purge_apply :: "'h slinger \<Rightarrow> hsh_params \<Rightarrow> (sess_ref \<Rightarrow> bool) \<Rightarrow> rat \<Rightarrow> rat \<Rightarrow> oc_ref list \<Rightarrow> wrk \<Rightarrow> 'h cache \<Rightarrow> (wrk \<times> 'h cache) option" where
  "purge_apply hash params refuse ttl grace [] w s = Some (w, s)"
| "purge_apply hash params refuse ttl grace (oc # ocs) w s = do {
     b \<leftarrow> oc_getobj oc s;
     (case b of
        None \<Rightarrow> purge_apply hash params refuse ttl grace ocs w s
      | Some b \<Rightarrow> do {
          ob \<leftarrow> es_ob s b;
          let s = s\<lparr>es_ob := (es_ob s)(b \<mapsto> ob\<lparr>o_exp := (o_exp ob)\<lparr>e_ttl := ttl, e_grace := grace\<rparr>\<rparr>)\<rparr>;
          s \<leftarrow> EXP_Rearm (p_exp params) b s;
          (r, w, s) \<leftarrow> HSH_Deref hash params refuse None (Some b) w s;
          purge_apply hash params refuse ttl grace ocs w s
        })
   }"

definition HSH_Purge :: "'h slinger \<Rightarrow> hsh_params \<Rightarrow> (sess_ref \<Rightarrow> bool) \<Rightarrow> nat \<Rightarrow> oh_ref \<Rightarrow> rat \<Rightarrow> rat \<Rightarrow> wrk \<Rightarrow> 'h cache \<Rightarrow>
    (wrk \<times> 'h cache) option" where
  "HSH_Purge hash params refuse spc oh ttl grace w s = do {
     assert_c (oh_refcnt (c_heads s oh) > 0);
     (l, s) \<leftarrow> purge_collect oh (oh_objcs (c_heads s oh)) spc s;
     purge_apply hash params refuse (if ttl > 0 then ttl else -1) (if grace > 0 then grace else -1) l w s
   }"

end
