(* ===== verification/Object_Refs.thy ===== *)
theory Object_Refs
  imports Object_Hash
begin

text \<open>
  The references between sessions, object heads, object cores, objects, the expiry heap and the LRU lists
  (\<^verbatim>\<open>cache_hash.c\<close> with \<^verbatim>\<open>cache_expire.c\<close> and \<^verbatim>\<open>cache_ban.c\<close>).

  Who holds a reference is not part of the program's state, so the invariant counts it beside: \<open>H oc\<close> is the
  number of references sessions and threads hold on an object core, \<open>V oh\<close> the number held on an object head
  by sessions that are not on its waiting list. The lemmas are proved for every hash implementation, in the
  locale \<open>hash_slinger\<close>.
\<close>

subsection \<open>The invariant\<close>

definition waiting :: "objhead \<Rightarrow> sess_ref list" where
  "waiting h = (case oh_waitinglist h of Some l \<Rightarrow> l | None \<Rightarrow> [])"

definition head_ok :: "(oh_ref \<Rightarrow> nat) \<Rightarrow> 'h cache \<Rightarrow> oh_ref \<Rightarrow> bool" where
  "head_ok V s oh \<longleftrightarrow> distinct (oh_objcs (c_heads s oh)) \<and>
     (\<forall>oc \<in> set (oh_objcs (c_heads s oh)). \<exists>c. es_oc s oc = Some c \<and> oc_objhead c = Some oh) \<and>
     oh_refcnt (c_heads s oh) = int (length (oh_objcs (c_heads s oh)) + length (waiting (c_heads s oh)) + V oh) \<and>
     oh_waitinglist (c_heads s oh) \<noteq> Some []"

text \<open>An object core under a head; one that is not banned or expired has a ban reference.\<close>

definition core_ok :: "(oc_ref \<Rightarrow> nat) \<Rightarrow> 'h cache \<Rightarrow> oc_ref \<Rightarrow> objcore \<Rightarrow> bool" where
  "core_ok H s oc c \<longleftrightarrow> unat (oc_refcnt c) = H oc + (if oc \<in> on_heap s then 1 else 0) \<and> 0 < oc_refcnt c \<and>
     (oc_busyobj c \<noteq> None \<longleftrightarrow> oc_busy c) \<and> (\<not> oc_busy c \<longrightarrow> oc_methods c) \<and>
     (\<not> oc_methods c \<longrightarrow> oc_refcnt c = 1) \<and> (oc_busy c \<longrightarrow> 0 < H oc) \<and>
     (oc_methods c \<longrightarrow> (\<exists>b ob. oc_priv c = Some b \<and> es_ob s b = Some ob \<and> o_objcore ob = Some oc \<and> http_full (o_http ob) \<and>
        (oc_busy c \<or> 0 < e_ttl (o_exp ob) \<longrightarrow> oc_ban (c_bans s) oc \<noteq> None)))"

definition cache_inv :: "('h \<Rightarrow> oh_ref set) \<Rightarrow> ('h \<Rightarrow> oh_store \<Rightarrow> bool) \<Rightarrow> (string \<Rightarrow> string + char list) \<Rightarrow> (ban_id \<Rightarrow> nat) \<Rightarrow>
    (oc_ref \<Rightarrow> nat) \<Rightarrow> (oh_ref \<Rightarrow> nat) \<Rightarrow> 'h cache \<Rightarrow> bool" where
  "cache_inv heads hinv pcre_compile T H V s \<longleftrightarrow>
     exp_inv s \<and> hinv (c_hash s) (c_heads s) \<and> ban_inv pcre_compile T (c_bans s) \<and>
     (\<forall>oh \<in> heads (c_hash s). head_ok V s oh) \<and> (\<forall>oh. 0 < V oh \<longrightarrow> oh \<in> heads (c_hash s)) \<and>
     (\<forall>oc c oh. es_oc s oc = Some c \<longrightarrow> oc_objhead c = Some oh \<longrightarrow>
        oh \<in> heads (c_hash s) \<and> oc \<in> set (oh_objcs (c_heads s oh)) \<and> core_ok H s oc c) \<and>
     (\<forall>oc. 0 < H oc \<or> oc \<in> on_heap s \<longrightarrow> (\<exists>c oh. es_oc s oc = Some c \<and> oc_objhead c = Some oh)) \<and>
     (\<forall>oc. oc_ban (c_bans s) oc \<noteq> None \<longrightarrow> (\<exists>c oh. es_oc s oc = Some c \<and> oc_objhead c = Some oh \<and> oc_methods c))"

lemma cache_invD:
  assumes "cache_inv heads hinv pcre_compile T H V s"
  shows "exp_inv s" "hinv (c_hash s) (c_heads s)" "ban_inv pcre_compile T (c_bans s)"
    "oh \<in> heads (c_hash s) \<Longrightarrow> head_ok V s oh" "0 < V oh \<Longrightarrow> oh \<in> heads (c_hash s)"
    "es_oc s oc = Some c \<Longrightarrow> oc_objhead c = Some oh \<Longrightarrow> oh \<in> heads (c_hash s) \<and> oc \<in> set (oh_objcs (c_heads s oh)) \<and> core_ok H s oc c"
    "0 < H oc \<or> oc \<in> on_heap s \<Longrightarrow> \<exists>c oh. es_oc s oc = Some c \<and> oc_objhead c = Some oh"
    "oc_ban (c_bans s) oc \<noteq> None \<Longrightarrow> \<exists>c oh. es_oc s oc = Some c \<and> oc_objhead c = Some oh \<and> oc_methods c"
  using assms unfolding cache_inv_def by blast+

text \<open>
  Changes that leave the structure alone: only timers and the \<open>struct exp\<close> of objects differ.
\<close>

definition same_cores :: "'h cache \<Rightarrow> 'h cache \<Rightarrow> bool" where
  "same_cores s s' \<longleftrightarrow> c_heads s' = c_heads s \<and> c_hash s' = c_hash s \<and> on_heap s' = on_heap s \<and>
     (\<forall>oc. map_option (\<lambda>c. c\<lparr>oc_timer_when := 0\<rparr>) (es_oc s' oc) = map_option (\<lambda>c. c\<lparr>oc_timer_when := 0\<rparr>) (es_oc s oc)) \<and>
     (\<forall>b. map_option (\<lambda>ob. ob\<lparr>o_exp := undefined\<rparr>) (es_ob s' b) = map_option (\<lambda>ob. ob\<lparr>o_exp := undefined\<rparr>) (es_ob s b))"

lemma same_cores_refl [simp]: "same_cores s s"
  by (simp add: same_cores_def)

lemma same_cores_trans: "same_cores s s1 \<Longrightarrow> same_cores s1 s2 \<Longrightarrow> same_cores s s2"
  by (simp add: same_cores_def)

lemma same_cores_sym: "same_cores s s' \<Longrightarrow> same_cores s' s"
  by (simp add: same_cores_def)

lemma same_coresD:
  assumes "same_cores s s'"
  shows "c_heads s' = c_heads s" "c_hash s' = c_hash s" "on_heap s' = on_heap s"
    "es_oc s oc = Some c \<Longrightarrow> \<exists>t. es_oc s' oc = Some (c\<lparr>oc_timer_when := t\<rparr>)"
    "es_ob s b = Some ob \<Longrightarrow> \<exists>e. es_ob s' b = Some (ob\<lparr>o_exp := e\<rparr>)"
proof -
  show "c_heads s' = c_heads s" "c_hash s' = c_hash s" "on_heap s' = on_heap s" using assms by (simp_all add: same_cores_def)
  assume c: "es_oc s oc = Some c"
  then obtain c' where c': "es_oc s' oc = Some c'" "c'\<lparr>oc_timer_when := 0\<rparr> = c\<lparr>oc_timer_when := 0\<rparr>"
    using assms unfolding same_cores_def by (metis (no_types, lifting) map_option_eq_Some)
  then have "c' = c\<lparr>oc_timer_when := oc_timer_when c'\<rparr>" by (cases c, cases c') simp
  then show "\<exists>t. es_oc s' oc = Some (c\<lparr>oc_timer_when := t\<rparr>)" using c'(1) by metis
next
  assume c: "es_ob s b = Some ob"
  then obtain c' where c': "es_ob s' b = Some c'" "c'\<lparr>o_exp := undefined\<rparr> = ob\<lparr>o_exp := undefined\<rparr>"
    using assms unfolding same_cores_def by (metis (no_types, lifting) map_option_eq_Some)
  then have "c' = ob\<lparr>o_exp := o_exp c'\<rparr>" by (cases ob, cases c') simp
  then show "\<exists>e. es_ob s' b = Some (ob\<lparr>o_exp := e\<rparr>)" using c'(1) by metis
qed

lemma cache_inv_same:
  assumes inv: "cache_inv heads hinv pcre_compile T H V s" and same: "same_cores s s'" and e: "exp_inv s'" and bn: "ban_inv pcre_compile T (c_bans s')"
    and bans: "\<And>oc c b ob. es_oc s' oc = Some c \<Longrightarrow> oc_priv c = Some b \<Longrightarrow> es_ob s' b = Some ob \<Longrightarrow> o_objcore ob = Some oc \<Longrightarrow>
      oc_busy c \<or> 0 < e_ttl (o_exp ob) \<Longrightarrow> oc_ban (c_bans s') oc = None \<Longrightarrow>
      oc_ban (c_bans s) oc = None \<and> (oc_busy c \<or> (\<forall>ob0. es_ob s b = Some ob0 \<longrightarrow> 0 < e_ttl (o_exp ob0)))"
    and from_bans: "\<And>oc. oc_ban (c_bans s') oc \<noteq> None \<Longrightarrow> oc_ban (c_bans s) oc \<noteq> None"
  shows "cache_inv heads hinv pcre_compile T H V s'"
proof -
  note d = same_coresD [OF same] and d' = same_coresD [OF same_cores_sym [OF same]]
  have head: "head_ok V s' oh" if "head_ok V s oh" for oh
    using that d(4) unfolding head_ok_def d(1) by fastforce
  have core: "core_ok H s' oc c'" if c: "es_oc s oc = Some c" "core_ok H s oc c" and c': "es_oc s' oc = Some c'" for oc c c'
  proof -
    obtain t where t: "c' = c\<lparr>oc_timer_when := t\<rparr>" using d(4) [OF c(1)] c' by auto
    have "\<exists>b ob. oc_priv c' = Some b \<and> es_ob s' b = Some ob \<and> o_objcore ob = Some oc \<and> http_full (o_http ob) \<and>
        (oc_busy c' \<or> 0 < e_ttl (o_exp ob) \<longrightarrow> oc_ban (c_bans s') oc \<noteq> None)" if m: "oc_methods c'"
    proof -
      obtain b ob where b: "oc_priv c = Some b" "es_ob s b = Some ob" "o_objcore ob = Some oc" "http_full (o_http ob)"
          "oc_busy c \<or> 0 < e_ttl (o_exp ob) \<Longrightarrow> oc_ban (c_bans s) oc \<noteq> None"
        using c(2) m unfolding core_ok_def t by auto
      then obtain e where e: "es_ob s' b = Some (ob\<lparr>o_exp := e\<rparr>)" using d(5) by blast
      have "oc_ban (c_bans s') oc \<noteq> None" if "oc_busy c \<or> 0 < e_ttl e"
      proof
        assume "oc_ban (c_bans s') oc = None"
        then have "oc_ban (c_bans s) oc = None \<and> (oc_busy c \<or> 0 < e_ttl (o_exp ob))"
          using bans [OF c', of b "ob\<lparr>o_exp := e\<rparr>"] that b(1-3) e by (simp add: t)
        then show False using b(5) by blast
      qed
      then show ?thesis using b e by (simp add: t)
    qed
    then show ?thesis using c(2) unfolding core_ok_def t d(3) by simp
  qed
  note i = cache_invD [OF inv]
  have att: "es_oc s' oc = Some c' \<Longrightarrow> oc_objhead c' = Some oh \<Longrightarrow>
      oh \<in> heads (c_hash s) \<and> oc \<in> set (oh_objcs (c_heads s oh)) \<and> core_ok H s' oc c'" for oc c' oh
  proof -
    assume a: "es_oc s' oc = Some c'" "oc_objhead c' = Some oh"
    obtain t where t: "es_oc s oc = Some (c'\<lparr>oc_timer_when := t\<rparr>)" using d'(4) [OF a(1)] by blast
    with i(6) [OF t] a core [OF t _ a(1)] show ?thesis by simp
  qed
  have att2: "\<exists>c oh. es_oc s' oc = Some c \<and> oc_objhead c = Some oh" if "0 < H oc \<or> oc \<in> on_heap s" for oc
    using i(7) [OF that] d(4) by fastforce
  have own: "\<exists>c oh. es_oc s' oc = Some c \<and> oc_objhead c = Some oh \<and> oc_methods c" if "oc_ban (c_bans s') oc \<noteq> None" for oc
    using i(8) [OF from_bans [OF that]] d(4) by fastforce
  show ?thesis
    unfolding cache_inv_def d(1-3) using i(2,4,5) e bn head att att2 own by blast
qed

subsection \<open>The search under a head\<close>

lemma core_object:
  assumes "cache_inv heads hinv pcre_compile T H V s" and "es_oc s oc = Some c" and "oc_objhead c = Some oh" and "oc_methods c"
  shows "\<exists>b ob. oc_priv c = Some b \<and> es_ob s b = Some ob \<and> o_objcore ob = Some oc \<and> http_full (o_http ob) \<and>
    (oc_busy c \<or> 0 < e_ttl (o_exp ob) \<longrightarrow> oc_ban (c_bans s) oc \<noteq> None)"
  using cache_invD(6) [OF assms(1-3)] assms(4) by (auto simp: core_ok_def)

definition req_ok :: "http \<Rightarrow> bool" where
  "req_ok hp \<longleftrightarrow> http_full hp \<and> t_b (h_hd hp ! HTTP_HDR_URL) \<noteq> NULL"

text \<open>A banned object: some ban newer than the one it was checked against last holds for it.\<close>

definition is_banned :: "(string \<Rightarrow> string + char list) \<Rightarrow> hsh_params \<Rightarrow> http \<Rightarrow> 'h cache \<Rightarrow> oc_ref \<Rightarrow> object \<Rightarrow> bool" where
  "is_banned pcre_compile params reqhttp s oc ob \<longleftrightarrow>
     (\<exists>i \<in> set (takeWhile (\<lambda>i. oc_ban (c_bans s) oc \<noteq> Some i) (bl_list (c_bans s))).
        ban_hits pcre_compile (p_pcre_exec params) (o_http ob) reqhttp (c_bans s) i)"

text \<open>Checking an object changes no ban's tests.\<close>

lemma ban_upd_same:
  assumes "ban_upd i f s = Some s'" and "\<And>b. b_flags (f b) = b_flags b \<and> b_spec (f b) = b_spec b"
  shows "same_bans s s'"
  using assms by (auto simp: ban_upd_def same_bans_def bind_eq_Some_conv)

lemma ban_unref_same: "ban_unref i s = Some s' \<Longrightarrow> same_bans s s'"
  by (auto simp: ban_unref_def bind_eq_Some_conv elim!: ban_upd_same)

lemma ban_check_same:
  assumes "ban_check_object pcre_exec objhttp reqhttp has_req oc s = Some (s', banned)"
  shows "same_bans s s'"
proof -
  consider "s' = s"
    | ob b0 s1 s2 t s3 x y z where "ban_unref ob s = Some s1" "ban_upd ob (\<lambda>b. b\<lparr>b_objcore := remove1 oc (b_objcore b)\<rparr>) s1 = Some s2"
      "ban_upd b0 (\<lambda>b. b\<lparr>b_objcore := b_objcore b @ [oc]\<rparr>) s2 = Some t" "ban_ref b0 t = Some s3"
      "s' = s3\<lparr>n_ban_obj_test := x, n_ban_re_test := y, oc_ban := z\<rparr>"
    | ob s1 s2 x y z where "ban_unref ob s = Some s1" "ban_upd ob (\<lambda>b. b\<lparr>b_objcore := remove1 oc (b_objcore b)\<rparr>) s1 = Some s2"
      "s' = s2\<lparr>n_ban_obj_test := x, n_ban_re_test := y, oc_ban := z\<rparr>"
    using assms unfolding ban_check_object_def Let_def
    by (auto elim!: bind_eq_Some_conv [THEN iffD1, elim_format] simp del: not_None_eq split: if_splits prod.splits)
  then show ?thesis
  proof cases
    case 2
    have "same_bans s1 s2" by (rule ban_upd_same [OF 2(2)]) simp
    moreover have "same_bans s2 t" by (rule ban_upd_same [OF 2(3)]) simp
    moreover have "same_bans t s3" by (rule ban_upd_same [OF 2(4) [unfolded ban_ref_def]]) simp
    moreover have "same_bans s3 s'" unfolding 2(5) by (simp add: same_bans_def)
    ultimately show ?thesis using ban_unref_same [OF 2(1)] same_bans_trans by blast
  next
    case 3
    have "same_bans s1 s2" by (rule ban_upd_same [OF 3(2)]) simp
    moreover have "same_bans s2 s'" unfolding 3(3) by (simp add: same_bans_def)
    ultimately show ?thesis using ban_unref_same [OF 3(1)] same_bans_trans by blast
  qed simp
qed

lemma ban_hits_same:
  assumes "same_bans s s'"
  shows "ban_hits pcre_compile pcre_exec objhttp reqhttp s' i \<longleftrightarrow> ban_hits pcre_compile pcre_exec objhttp reqhttp s i"
  unfolding ban_hits_def using same_bansD [OF assms] same_bansD [OF same_bans_sym [OF assms]] by metis

lemma oc_check_ban_ok:
  assumes inv: "cache_inv heads hinv pcre_compile T H V s" and c: "es_oc s oc = Some c" "oc_objhead c = Some oh" "\<not> oc_busy c"
    and b: "oc_priv c = Some b" "es_ob s b = Some ob" "0 < e_ttl (o_exp ob)" and req: "req_ok reqhttp"
  shows "\<exists>s' banned. oc_check_ban params b reqhttp s = Some (s', banned) \<and> cache_inv heads hinv pcre_compile T H V s' \<and> same_cores s s' \<and>
    (banned \<longleftrightarrow> is_banned pcre_compile params reqhttp s oc ob) \<and> (\<not> banned \<longrightarrow> es_ob s' = es_ob s \<and> es_oc s' = es_oc s) \<and>
    (\<forall>b'. b' \<noteq> b \<longrightarrow> es_ob s' b' = es_ob s b') \<and> (\<forall>oc'. oc' \<noteq> oc \<longrightarrow> es_oc s' oc' = es_oc s oc' \<and> oc_ban (c_bans s') oc' = oc_ban (c_bans s) oc') \<and>
    same_bans (c_bans s) (c_bans s')"
proof -
  note i = cache_invD [OF inv]
  have m: "oc_methods c" using i(6) [OF c(1,2)] c(3) by (simp add: core_ok_def)
  have ob: "o_objcore ob = Some oc" "http_full (o_http ob)" "oc_ban (c_bans s) oc \<noteq> None"
    using core_object [OF inv c(1,2) m] b by auto
  then obtain k where k: "oc_ban (c_bans s) oc = Some k" by blast
  have ch: "check_http (o_http ob) reqhttp" using req ob(2) by (simp add: check_http_def req_ok_def)
  obtain bans banned where r: "ban_check_object (p_pcre_exec params) (o_http ob) reqhttp True oc (c_bans s) = Some (bans, banned)"
      "ban_inv pcre_compile T bans" "bl_list bans = bl_list (c_bans s)"
      "banned \<Longrightarrow> oc_ban bans = (oc_ban (c_bans s))(oc := None)" "\<not> banned \<Longrightarrow> oc_ban bans = (oc_ban (c_bans s))(oc := bl_start (c_bans s))"
      "banned \<longleftrightarrow> (\<exists>i \<in> set (takeWhile (\<lambda>i. i \<noteq> k) (bl_list (c_bans s))). ban_hits pcre_compile (p_pcre_exec params) (o_http ob) reqhttp (c_bans s) i)"
    using ban_check_object_ok [OF i(3) k ch, of "p_pcre_exec params" True] by blast
  note sb = ban_check_same [OF r(1)]
  have st: "bl_start (c_bans s) \<noteq> None" using ban_invD(3) [OF i(3)] by simp
  have verdict: "banned \<longleftrightarrow> is_banned pcre_compile params reqhttp s oc ob"
    unfolding r(6) is_banned_def k by (simp add: eq_commute)
  show ?thesis
  proof (cases banned)
    case False
    let ?s = "s\<lparr>c_bans := bans\<rparr>"
    have run: "oc_check_ban params b reqhttp s = Some (?s, False)"
      using b(2) ob(1) r(1) False by (simp add: oc_check_ban_def BAN_CheckObject_def)
    have same: "same_cores s ?s" by (simp add: same_cores_def)
    have "exp_inv ?s" by (rule exp_inv_frame [OF i(1)]) (simp_all add: timer_when_def oc_getlru_def)
    then have "cache_inv heads hinv pcre_compile T H V ?s"
      using r(2) r(5) [OF False] st k by (intro cache_inv_same [OF inv same]) (auto split: if_splits)
    then show ?thesis using run same verdict False sb r(5) [OF False] by (intro exI [of _ ?s] exI [of _ False]) simp
  next
    case True
    let ?ob = "ob\<lparr>o_exp := EXP_Clr (o_exp ob)\<rparr>"
    let ?s = "s\<lparr>c_bans := bans, es_ob := (es_ob s)(b \<mapsto> ?ob)\<rparr>"
    have e: "exp_inv ?s"
      by (rule exp_inv_frame [OF i(1)]) (use b(2) in \<open>auto simp: timer_when_def intro!: oc_getlru_cong\<close>)
    obtain h c' where h: "EXP_Rearm (p_exp params) b ?s = Some (?s\<lparr>es_oc := (es_oc s)(oc \<mapsto> c'), es_heap := h\<rparr>)"
        "bh_members h = on_heap s" "\<exists>t. c' = c\<lparr>oc_timer_when := t\<rparr>" "exp_inv (?s\<lparr>es_oc := (es_oc s)(oc \<mapsto> c'), es_heap := h\<rparr>)"
      using EXP_Rearm_ok [OF e, of b ?ob oc c "p_exp params"] ob(1) c(1) m b(1) by (fastforce intro: exI [of _ "oc_timer_when c"])
    let ?s' = "?s\<lparr>es_oc := (es_oc s)(oc \<mapsto> c'), es_heap := h\<rparr>"
    obtain t where t: "c' = c\<lparr>oc_timer_when := t\<rparr>" using h(3) by blast
    have run: "oc_check_ban params b reqhttp s = Some (?s', True)"
      using b(2) ob(1) r(1) True h(1) c(1) m by (simp add: oc_check_ban_def BAN_CheckObject_def oc_updatemeta_def)
    have same: "same_cores s ?s'" using c(1) b(2) h(2) by (simp add: same_cores_def t)
    have "cache_inv heads hinv pcre_compile T H V ?s'"
    proof (rule cache_inv_same [OF inv same h(4)])
      show "ban_inv pcre_compile T (c_bans ?s')" using r(2) by simp
      show "oc_ban (c_bans ?s') x \<noteq> None \<Longrightarrow> oc_ban (c_bans s) x \<noteq> None" for x using r(4) [OF True] by (auto split: if_splits)
      fix x cx bx obx
      assume x: "es_oc ?s' x = Some cx" "oc_priv cx = Some bx" "es_ob ?s' bx = Some obx" "o_objcore obx = Some x"
        "oc_busy cx \<or> 0 < e_ttl (o_exp obx)" "oc_ban (c_bans ?s') x = None"
      have "x \<noteq> oc"
      proof
        assume "x = oc"
        then have "cx = c'" using x(1) by simp
        then show False using x(2,3,5) b(1) c(3) by (auto simp: t EXP_Clr_def)
      qed
      then have "bx \<noteq> b" using x(3,4) ob(1) by (auto split: if_splits)
      then show "oc_ban (c_bans s) x = None \<and> (oc_busy cx \<or> (\<forall>ob0. es_ob s bx = Some ob0 \<longrightarrow> 0 < e_ttl (o_exp ob0)))"
        using x \<open>x \<noteq> oc\<close> r(4) [OF True] by simp
    qed
    then show ?thesis using run same verdict True sb r(4) [OF True] by (intro exI [of _ ?s'] exI [of _ True]) simp
  qed
qed

text \<open>A session's request and its vary buffer; vary strings that can be matched with it.\<close>

definition sess_ok :: "hsess \<Rightarrow> bool" where
  "sess_ok sp \<longleftrightarrow> req_ok (sp_http sp) \<and> req_vals_ok (sp_http sp) \<and> vb_ok (sp_http sp) (sp_vary_b sp)"

definition same_sess :: "hsess \<Rightarrow> hsess \<Rightarrow> bool" where
  "same_sess sp sp' \<longleftrightarrow> sp'\<lparr>sp_vary_b := [], sp_vary_l := None\<rparr> = sp\<lparr>sp_vary_b := [], sp_vary_l := None\<rparr> \<and>
     length (sp_vary_b sp') = length (sp_vary_b sp)"

lemma same_sess_refl [simp]: "same_sess sp sp"
  by (simp add: same_sess_def)

lemma same_sess_trans: "same_sess sp sp1 \<Longrightarrow> same_sess sp1 sp2 \<Longrightarrow> same_sess sp sp2"
  by (simp add: same_sess_def)

lemma same_sessD:
  assumes "same_sess sp sp'"
  shows "sp_http sp' = sp_http sp" "sp_exp sp' = sp_exp sp" "sp_t_req sp' = sp_t_req sp" "sp_hash_objhead sp' = sp_hash_objhead sp"
    "sp_ref sp' = sp_ref sp" "sp_esi_level sp' = sp_esi_level sp" "sp_hash_always_miss sp' = sp_hash_always_miss sp"
    "length (sp_vary_b sp') = length (sp_vary_b sp)"
  using assms by (cases sp, cases sp', simp add: same_sess_def)+

definition vary_fields :: "(string \<times> string option) list \<Rightarrow> char list \<Rightarrow> bool" where
  "vary_fields fs v \<longleftrightarrow> (\<exists>r. v = concat (map vry_field fs) @ r \<and> 3 \<le> length r \<and> r ! 2 = NUL) \<and>
     list_all (\<lambda>(name, v). vary_name_ok name \<and> vary_val_ok v) fs"

definition vary_fits :: "nat \<Rightarrow> http \<Rightarrow> char list \<Rightarrow> bool" where
  "vary_fits n hp v \<longleftrightarrow> (\<exists>fs. vary_fields fs v \<and> length (concat (map (\<lambda>(name, v). req_field hp name) fs)) + 3 \<le> n)"

definition vary_matches :: "bool \<Rightarrow> http \<Rightarrow> char list \<Rightarrow> bool" where
  "vary_matches gzip hp v \<longleftrightarrow> (\<exists>fs. vary_fields fs v \<and> (\<forall>(name, v) \<in> set fs. vary_verdict gzip name v (vary_val hp name)))"

lemma sess_vary_ok:
  assumes "sess_ok sp" and "\<And>v. vary = Some v \<Longrightarrow> vary_fits (length (sp_vary_b sp)) (sp_http sp) v"
  shows "\<exists>sp' m. sess_vary params vary sp = Some (sp', m) \<and> sess_ok sp' \<and> same_sess sp sp' \<and>
    (m \<longrightarrow> (\<forall>v. vary = Some v \<longrightarrow> vary_matches (http_gzip_support params) (sp_http sp) v))"
proof (cases vary)
  case None
  then show ?thesis using assms(1) by (auto simp: sess_vary_def)
next
  case (Some v)
  obtain fs r where f: "v = concat (map vry_field fs) @ r" "3 \<le> length r" "r ! 2 = NUL" "list_all (\<lambda>(name, v). vary_name_ok name \<and> vary_val_ok v) fs"
      "length (concat (map (\<lambda>(name, v). req_field (sp_http sp) name) fs)) + 3 \<le> length (sp_vary_b sp)" "vary_fields fs v"
    using assms(2) [OF Some] unfolding vary_fits_def vary_fields_def by blast
  have h: "http_full (sp_http sp)" "req_vals_ok (sp_http sp)" "vb_ok (sp_http sp) (sp_vary_b sp)"
    using assms(1) by (simp_all add: sess_ok_def req_ok_def)
  obtain buf where b: "VRY_Match (http_gzip_support params) (sp_http sp) v (sp_vary_b sp) =
      Some (buf, Some (length (concat (map (\<lambda>(name, v). req_field (sp_http sp) name) fs)) + 3),
        \<forall>(name, v) \<in> set fs. vary_verdict (http_gzip_support params) name v (vary_val (sp_http sp) name))"
      "length buf = length (sp_vary_b sp)" "vb_ok (sp_http sp) buf"
    using VRY_Match_ok [OF h(1,2) f(4,5) h(3) f(2,3), of "http_gzip_support params"] unfolding f(1) by blast
  show ?thesis
    using Some b assms(1) f(6) by (auto simp: sess_vary_def sess_ok_def same_sess_def vary_matches_def)
qed

definition cores_fit :: "hsess \<Rightarrow> 'h cache \<Rightarrow> bool" where
  "cores_fit sp s \<longleftrightarrow> (\<forall>oc c oh. es_oc s oc = Some c \<longrightarrow> oc_objhead c = Some oh \<longrightarrow>
     (\<forall>bo v. oc_busyobj c = Some bo \<longrightarrow> bo_vary bo = Some v \<longrightarrow> vary_fits (length (sp_vary_b sp)) (sp_http sp) v) \<and>
     (\<forall>b ob v. oc_priv c = Some b \<longrightarrow> es_ob s b = Some ob \<longrightarrow> o_vary ob = Some v \<longrightarrow> vary_fits (length (sp_vary_b sp)) (sp_http sp) v))"

lemma cores_fit_same:
  assumes "cores_fit sp s" "same_cores s s'" "same_sess sp sp'"
  shows "cores_fit sp' s'"
  unfolding cores_fit_def
proof (intro allI impI conjI, goal_cases)
  case (1 oc c oh bo v)
  obtain t where "es_oc s oc = Some (c\<lparr>oc_timer_when := t\<rparr>)" using same_coresD(4) [OF same_cores_sym [OF assms(2)] 1(1)] by blast
  then show ?case using assms(1) 1 unfolding cores_fit_def same_sessD(1,8) [OF assms(3)] by fastforce
next
  case (2 oc c oh b ob v)
  obtain t e where "es_oc s oc = Some (c\<lparr>oc_timer_when := t\<rparr>)" "es_ob s b = Some (ob\<lparr>o_exp := e\<rparr>)"
    using same_coresD(4,5) [OF same_cores_sym [OF assms(2)]] 2(1,4) by blast
  then show ?case using assms(1) 2 unfolding cores_fit_def same_sessD(1,8) [OF assms(3)] by fastforce
qed

text \<open>An object that answers a request, if its time is right.\<close>

definition object_of :: "'h cache \<Rightarrow> oc_ref \<Rightarrow> object \<Rightarrow> bool" where
  "object_of s oc ob \<longleftrightarrow> (\<exists>c b. es_oc s oc = Some c \<and> \<not> oc_busy c \<and> oc_priv c = Some b \<and> es_ob s b = Some ob)"

definition candidate :: "(string \<Rightarrow> string + char list) \<Rightarrow> hsh_params \<Rightarrow> hsess \<Rightarrow> 'h cache \<Rightarrow> oc_ref \<Rightarrow> object \<Rightarrow> bool" where
  "candidate pcre_compile params sp s oc ob \<longleftrightarrow> object_of s oc ob \<and> 0 < e_ttl (o_exp ob) \<and>
     \<not> is_banned pcre_compile params (sp_http sp) s oc ob \<and>
     (\<forall>v. o_vary ob = Some v \<longrightarrow> vary_matches (http_gzip_support params) (sp_http sp) v)"

text \<open>What an earlier check leaves of a candidate.\<close>

lemma candidate_back:
  assumes "candidate pcre_compile params sp' s' oc' ob'" and "same_sess sp sp'" and "same_bans (c_bans s) (c_bans s')"
    and "es_oc s' oc' = es_oc s oc'" "oc_ban (c_bans s') oc' = oc_ban (c_bans s) oc'"
    and "\<And>c b. es_oc s oc' = Some c \<Longrightarrow> \<not> oc_busy c \<Longrightarrow> oc_priv c = Some b \<Longrightarrow> es_ob s' b = es_ob s b"
  shows "candidate pcre_compile params sp s oc' ob'"
proof -
  have "object_of s oc' ob'" using assms(1,4,6) by (auto simp: candidate_def object_of_def)
  moreover have "is_banned pcre_compile params (sp_http sp) s' oc' ob' \<longleftrightarrow> is_banned pcre_compile params (sp_http sp) s oc' ob'"
    using assms(3,5) ban_hits_same [OF assms(3)] by (simp add: is_banned_def same_bans_def)
  ultimately show ?thesis using assms(1) by (simp add: candidate_def same_sessD [OF assms(2)])
qed

definition found_ok :: "(string \<Rightarrow> string + char list) \<Rightarrow> hsh_params \<Rightarrow> hsess \<Rightarrow> 'h cache \<Rightarrow> oc_ref list \<Rightarrow> oc_ref \<Rightarrow> bool" where
  "found_ok pcre_compile params sp s ocs oc \<longleftrightarrow> oc \<in> set ocs \<and>
     (\<exists>ob. candidate pcre_compile params sp s oc ob \<and> sp_t_req sp \<le> EXP_Ttl (Some (sp_exp sp)) (o_exp ob))"

definition grace_ok :: "(string \<Rightarrow> string + char list) \<Rightarrow> hsh_params \<Rightarrow> hsess \<Rightarrow> 'h cache \<Rightarrow> oc_ref list \<Rightarrow> oc_ref \<Rightarrow> bool" where
  "grace_ok pcre_compile params sp s ocs oc \<longleftrightarrow> oc \<in> set ocs \<and>
     (\<exists>ob. candidate pcre_compile params sp s oc ob \<and> EXP_Ttl (Some (sp_exp sp)) (o_exp ob) < sp_t_req sp \<and>
        sp_t_req sp \<le> EXP_Grace (p_exp params) (Some (sp_exp sp)) (o_exp ob))"

definition busy_in :: "'h cache \<Rightarrow> oc_ref list \<Rightarrow> oc_ref \<Rightarrow> bool" where
  "busy_in s ocs oc \<longleftrightarrow> oc \<in> set ocs \<and> (\<exists>c. es_oc s oc = Some c \<and> oc_busy c)"

definition loop_result :: "('h \<Rightarrow> oh_ref set) \<Rightarrow> ('h \<Rightarrow> oh_store \<Rightarrow> bool) \<Rightarrow> (string \<Rightarrow> string + char list) \<Rightarrow> (ban_id \<Rightarrow> nat) \<Rightarrow>
    (oc_ref \<Rightarrow> nat) \<Rightarrow> (oh_ref \<Rightarrow> nat) \<Rightarrow> hsh_params \<Rightarrow> oc_ref list \<Rightarrow> oc_ref option \<Rightarrow> (oc_ref \<times> rat) option \<Rightarrow> hsess \<Rightarrow> 'h cache \<Rightarrow>
    (oc_ref option \<times> oc_ref option \<times> (oc_ref \<times> rat) option \<times> hsess \<times> 'h cache) option \<Rightarrow> bool" where
  "loop_result heads hinv pcre_compile T H V params ocs busy grace sp s r \<longleftrightarrow>
     (\<exists>found busy' grace' sp' s'. r = Some (found, busy', grace', sp', s') \<and> cache_inv heads hinv pcre_compile T H V s' \<and>
        same_cores s s' \<and> sess_ok sp' \<and> same_sess sp sp' \<and>
        (\<forall>oc. found = Some oc \<longrightarrow> found_ok pcre_compile params sp s ocs oc) \<and>
        (\<forall>g t. grace' = Some (g, t) \<longrightarrow> grace = Some (g, t) \<or> grace_ok pcre_compile params sp s ocs g) \<and>
        (\<forall>oc. busy' = Some oc \<longrightarrow> busy = Some oc \<or> busy_in s ocs oc))"

text \<open>One step of the search: from the result for the rest to the result for the whole list.\<close>

lemma loop_result_Cons:
  assumes "loop_result heads hinv pcre_compile T H V params ocs busy1 grace1 sp1 s1 r"
    and "same_cores s s1" and "same_sess sp sp1" and "same_bans (c_bans s) (c_bans s1)" and "oc \<notin> set ocs"
    and "\<And>oc'. oc' \<noteq> oc \<Longrightarrow> es_oc s1 oc' = es_oc s oc' \<and> oc_ban (c_bans s1) oc' = oc_ban (c_bans s) oc'"
    and "\<And>oc' c b. oc' \<noteq> oc \<Longrightarrow> oc' \<in> set ocs \<Longrightarrow> es_oc s oc' = Some c \<Longrightarrow> \<not> oc_busy c \<Longrightarrow> oc_priv c = Some b \<Longrightarrow> es_ob s1 b = es_ob s b"
    and "\<And>o'. busy1 = Some o' \<Longrightarrow> busy = Some o' \<or> busy_in s (oc # ocs) o'"
    and "\<And>g t. grace1 = Some (g, t) \<Longrightarrow> grace = Some (g, t) \<or> grace_ok pcre_compile params sp s (oc # ocs) g"
  shows "loop_result heads hinv pcre_compile T H V params (oc # ocs) busy grace sp s r"
proof -
  obtain found busy' grace' sp' s' where r: "r = Some (found, busy', grace', sp', s')" "cache_inv heads hinv pcre_compile T H V s'"
      "same_cores s1 s'" "sess_ok sp'" "same_sess sp1 sp'"
      "\<And>oc. found = Some oc \<Longrightarrow> found_ok pcre_compile params sp1 s1 ocs oc"
      "\<And>g t. grace' = Some (g, t) \<Longrightarrow> grace1 = Some (g, t) \<or> grace_ok pcre_compile params sp1 s1 ocs g"
      "\<And>oc. busy' = Some oc \<Longrightarrow> busy1 = Some oc \<or> busy_in s1 ocs oc"
    using assms(1) unfolding loop_result_def by blast
  note ss = same_sessD [OF assms(3)]
  have cand: "candidate pcre_compile params sp s x ob" if "candidate pcre_compile params sp1 s1 x ob" "x \<in> set ocs" for x ob
    using candidate_back [OF that(1) assms(3,4)] assms(5-7) that(2) by metis
  have "found_ok pcre_compile params sp s (oc # ocs) x" if "found = Some x" for x
    using r(6) [OF that] cand unfolding found_ok_def ss by auto
  moreover have "grace_ok pcre_compile params sp s (oc # ocs) x" if "grace_ok pcre_compile params sp1 s1 ocs x" for x
    using that cand unfolding grace_ok_def ss by auto
  moreover have "busy_in s (oc # ocs) x" if "busy_in s1 ocs x" for x
  proof -
    have "x \<noteq> oc" using that assms(5) by (auto simp: busy_in_def)
    then show ?thesis using that assms(6) by (auto simp: busy_in_def)
  qed
  ultimately show ?thesis
    unfolding loop_result_def using r(1,2,4,7,8) same_cores_trans [OF assms(2) r(3)] same_sess_trans [OF assms(3) r(5)] assms(8,9) by blast
qed

lemma lookup_loop_ok:
  assumes "cache_inv heads hinv pcre_compile T H V s" and "oh \<in> heads (c_hash s)" and "0 < V oh"
    and "set ocs \<subseteq> set (oh_objcs (c_heads s oh))" and "distinct ocs" and "sess_ok sp" and "cores_fit sp s"
  shows "loop_result heads hinv pcre_compile T H V params ocs busy grace sp s (lookup_loop params oh ocs busy grace sp s)"
  using assms
proof (induction ocs arbitrary: busy grace sp s)
  case Nil
  then show ?case by (simp add: loop_result_def)
next
  case (Cons oc ocs)
  note inv = Cons.prems(1) and i = cache_invD [OF Cons.prems(1)]
  have hd: "head_ok V s oh" using i(4) Cons.prems(2) by blast
  have mem: "oc \<in> set (oh_objcs (c_heads s oh))" "oc \<notin> set ocs" using Cons.prems(4,5) by auto
  have ref: "1 < oh_refcnt (c_heads s oh)"
    using hd mem(1) Cons.prems(3) unfolding head_ok_def by (cases "oh_objcs (c_heads s oh)") auto
  obtain c where c: "es_oc s oc = Some c" "oc_objhead c = Some oh" using hd mem(1) unfolding head_ok_def by blast
  have ck: "core_ok H s oc c" using i(6) [OF c] by blast
  have fit: "\<And>bo v. oc_busyobj c = Some bo \<Longrightarrow> bo_vary bo = Some v \<Longrightarrow> vary_fits (length (sp_vary_b sp)) (sp_http sp) v"
    "\<And>b ob v. oc_priv c = Some b \<Longrightarrow> es_ob s b = Some ob \<Longrightarrow> o_vary ob = Some v \<Longrightarrow> vary_fits (length (sp_vary_b sp)) (sp_http sp) v"
    using Cons.prems(7) c unfolding cores_fit_def by blast+
  have rest: "loop_result heads hinv pcre_compile T H V params ocs busy1 grace1 sp1 s1 (lookup_loop params oh ocs busy1 grace1 sp1 s1)"
    if "cache_inv heads hinv pcre_compile T H V s1" "same_cores s s1" "sess_ok sp1" "same_sess sp sp1" for busy1 grace1 sp1 s1
    by (rule Cons.IH)
      (use that Cons.prems(2-5,7) cores_fit_same [OF Cons.prems(7) that(2,4)] in \<open>auto simp: same_coresD(1,2) [OF that(2)]\<close>)
  have same: "loop_result heads hinv pcre_compile T H V params (oc # ocs) busy grace sp s (lookup_loop params oh ocs busy1 grace1 sp1 s)"
    if "sess_ok sp1" "same_sess sp sp1" "\<And>o'. busy1 = Some o' \<Longrightarrow> busy = Some o' \<or> busy_in s (oc # ocs) o'"
      "\<And>g t. grace1 = Some (g, t) \<Longrightarrow> grace = Some (g, t) \<or> grace_ok pcre_compile params sp s (oc # ocs) g" for busy1 grace1 sp1
    by (rule loop_result_Cons [OF rest [OF inv same_cores_refl that(1,2)] same_cores_refl that(2) same_bans_refl mem(2)])
      (use that(3,4) in auto)
  show ?case
  proof (cases "oc_busy c")
    case True
    then obtain bo where bo: "oc_busyobj c = Some bo" using ck unfolding core_ok_def by blast
    obtain sp1 m where v: "sess_vary params (bo_vary bo) sp = Some (sp1, m)" "sess_ok sp1" "same_sess sp sp1"
      using sess_vary_ok [OF Cons.prems(6), of "bo_vary bo" params] fit(1) [OF bo] by blast
    have "busy_in s (oc # ocs) oc" using True c(1) by (simp add: busy_in_def)
    then show ?thesis
      using ref c True bo v same [OF Cons.prems(6) same_sess_refl, of busy grace] same [OF v(2,3), of "if m then Some oc else busy" grace]
      by (auto split: if_splits)
  next
    case False
    then have m: "oc_methods c" using ck by (simp add: core_ok_def)
    obtain b ob where b: "oc_priv c = Some b" "es_ob s b = Some ob" "o_objcore ob = Some oc"
      using core_object [OF inv c m] by blast
    have get: "oc_getobj oc s = Some (Some b)" using c(1) False m b(1) by (simp add: oc_getobj_def)
    show ?thesis
    proof (cases "e_ttl (o_exp ob) \<le> 0")
      case True
      then show ?thesis
        using ref c False get b(2) same [OF Cons.prems(6) same_sess_refl, of busy grace] by simp
    next
      case ttl: False
      have req: "req_ok (sp_http sp)" using Cons.prems(6) by (simp add: sess_ok_def)
      obtain s1 banned where k: "oc_check_ban params b (sp_http sp) s = Some (s1, banned)" "cache_inv heads hinv pcre_compile T H V s1"
          "same_cores s s1" "banned \<longleftrightarrow> is_banned pcre_compile params (sp_http sp) s oc ob"
          "\<And>b'. b' \<noteq> b \<Longrightarrow> es_ob s1 b' = es_ob s b'"
          "\<And>oc'. oc' \<noteq> oc \<Longrightarrow> es_oc s1 oc' = es_oc s oc' \<and> oc_ban (c_bans s1) oc' = oc_ban (c_bans s) oc'"
          "same_bans (c_bans s) (c_bans s1)"
        using oc_check_ban_ok [OF inv c False b(1,2) _ req, of params] ttl by force
      have other: "es_ob s1 b' = es_ob s b'" if x: "oc' \<noteq> oc" "oc' \<in> set ocs" "es_oc s oc' = Some c'" "\<not> oc_busy c'" "oc_priv c' = Some b'" for oc' c' b'
      proof -
        obtain cc where "es_oc s oc' = Some cc" "oc_objhead cc = Some oh" using hd Cons.prems(4) x(2) unfolding head_ok_def by fastforce
        then have "\<exists>ob'. es_ob s b' = Some ob' \<and> o_objcore ob' = Some oc'"
          using i(6) [of oc' cc oh] x(3-5) by (auto simp: core_ok_def)
        then have "b' \<noteq> b" using b(2,3) x(1) by auto
        then show ?thesis by (rule k(5))
      qed
      have step: "loop_result heads hinv pcre_compile T H V params (oc # ocs) busy grace sp s (lookup_loop params oh ocs busy grace1 sp1 s1)"
        if "sess_ok sp1" "same_sess sp sp1" "\<And>g t. grace1 = Some (g, t) \<Longrightarrow> grace = Some (g, t) \<or> grace_ok pcre_compile params sp s (oc # ocs) g" for grace1 sp1
        by (rule loop_result_Cons [OF rest [OF k(2,3) that(1,2)] k(3) that(2) k(7) mem(2) k(6) other]) (use that(3) in auto)
      show ?thesis
      proof (cases banned)
        case True
        then show ?thesis using ref c False get b(2) ttl k(1) step [OF Cons.prems(6) same_sess_refl, of grace] by simp
      next
        case nb: False
        obtain sp1 m where v: "sess_vary params (o_vary ob) sp = Some (sp1, m)" "sess_ok sp1" "same_sess sp sp1"
            "m \<Longrightarrow> (\<forall>v. o_vary ob = Some v \<longrightarrow> vary_matches (http_gzip_support params) (sp_http sp) v)"
          using sess_vary_ok [OF Cons.prems(6), of "o_vary ob" params] fit(2) [OF b(1,2)] by blast
        note ss = same_sessD [OF v(3)]
        have cand: "candidate pcre_compile params sp s oc ob" if m
          using v(4) [OF that] nb k(4) c(1) False b(1,2) ttl by (simp add: candidate_def object_of_def)
        have loop: "lookup_loop params oh (oc # ocs) busy grace sp s =
            (if \<not> m then lookup_loop params oh ocs busy grace sp1 s1
             else if EXP_Ttl (Some (sp_exp sp)) (o_exp ob) \<ge> sp_t_req sp then Some (Some oc, busy, grace, sp1, s1)
             else let t = e_entered (o_exp ob) + e_ttl (o_exp ob);
                      grace = (if EXP_Grace (p_exp params) (Some (sp_exp sp)) (o_exp ob) \<ge> sp_t_req sp \<and>
                                 (case grace of None \<Rightarrow> True | Some (_, g) \<Rightarrow> g < t) then Some (oc, t) else grace)
                 in lookup_loop params oh ocs busy grace sp1 s1)"
          using ref c False get b(2) ttl k(1) nb v(1) by (simp add: ss Let_def)
        show ?thesis
        proof (cases "m \<and> EXP_Ttl (Some (sp_exp sp)) (o_exp ob) \<ge> sp_t_req sp")
          case True
          then have "found_ok pcre_compile params sp s (oc # ocs) oc" using cand by (auto simp: found_ok_def)
          then show ?thesis unfolding loop using True k(2,3) v(2,3) by (auto simp: loop_result_def)
        next
          case old: False
          have "grace_ok pcre_compile params sp s (oc # ocs) oc"
            if m "EXP_Grace (p_exp params) (Some (sp_exp sp)) (o_exp ob) \<ge> sp_t_req sp"
            using cand that old by (auto simp: grace_ok_def not_le)
          then show ?thesis unfolding loop using old by (auto simp: Let_def intro!: step v(2,3) split: if_splits)
        qed
      qed
    qed
  qed
qed

subsection \<open>Taking and giving references\<close>

lemma head_ok_cong:
  assumes "head_ok V s oh" and "V' oh = V oh" and "c_heads s' oh = c_heads s oh"
    and "\<And>oc c. oc \<in> set (oh_objcs (c_heads s oh)) \<Longrightarrow> es_oc s oc = Some c \<Longrightarrow> oc_objhead c = Some oh \<Longrightarrow>
      \<exists>c'. es_oc s' oc = Some c' \<and> oc_objhead c' = Some oh"
  shows "head_ok V' s' oh"
  using assms(1,4) unfolding head_ok_def assms(2,3) by blast

lemma core_ok_cong:
  assumes "core_ok H s oc c" and "H' oc = H oc" and "oc \<in> on_heap s' \<longleftrightarrow> oc \<in> on_heap s" and "oc_ban (c_bans s') oc = oc_ban (c_bans s) oc"
    and "\<And>b ob. oc_priv c = Some b \<Longrightarrow> es_ob s b = Some ob \<Longrightarrow> o_objcore ob = Some oc \<Longrightarrow>
      \<exists>ob'. es_ob s' b = Some ob' \<and> o_objcore ob' = Some oc \<and> o_http ob' = o_http ob \<and> o_exp ob' = o_exp ob"
  shows "core_ok H' s' oc c"
proof -
  have "\<exists>b ob. oc_priv c = Some b \<and> es_ob s' b = Some ob \<and> o_objcore ob = Some oc \<and> http_full (o_http ob) \<and>
        (oc_busy c \<or> 0 < e_ttl (o_exp ob) \<longrightarrow> oc_ban (c_bans s') oc \<noteq> None)" if m: "oc_methods c"
  proof -
    obtain b ob where b: "oc_priv c = Some b" "es_ob s b = Some ob" "o_objcore ob = Some oc" "http_full (o_http ob)"
        "oc_busy c \<or> 0 < e_ttl (o_exp ob) \<longrightarrow> oc_ban (c_bans s) oc \<noteq> None"
      using assms(1) m unfolding core_ok_def by blast
    then obtain ob' where "es_ob s' b = Some ob'" "o_objcore ob' = Some oc" "o_http ob' = o_http ob" "o_exp ob' = o_exp ob"
      using assms(5) by blast
    then show ?thesis using b assms(4) by auto
  qed
  then show ?thesis using assms(1) unfolding core_ok_def assms(2,3) by blast
qed

text \<open>Object cores and heads that belong to no one yet do not matter.\<close>

lemma exp_inv_same_stores:
  assumes "exp_inv s" "es_heap s' = es_heap s" "es_lru s' = es_lru s" "es_ob s' = es_ob s" "\<And>oc. oc \<in> on_heap s \<Longrightarrow> es_oc s' oc = es_oc s oc"
  shows "exp_inv s'"
  by (rule exp_inv_frame [OF assms(1-3)]) (use assms(4,5) in \<open>simp add: timer_when_def oc_getlru_def\<close>)

lemma exp_inv_keep:
  assumes "exp_inv s" "es_heap s' = es_heap s" "es_lru s' = es_lru s"
    and "\<And>x c b ob. x \<in> on_heap s \<Longrightarrow> es_oc s x = Some c \<Longrightarrow> oc_methods c \<Longrightarrow> oc_priv c = Some b \<Longrightarrow> es_ob s b = Some ob \<Longrightarrow>
      es_oc s' x = Some c \<and> es_ob s' b = Some ob"
  shows "exp_inv s'"
proof (rule exp_inv_frame [OF assms(1-3)])
  fix x assume x: "x \<in> on_heap s"
  obtain k b ob where k: "es_oc s x = Some k" "oc_methods k" "oc_priv k = Some b" "es_ob s b = Some ob"
    using exp_invD(4) [OF assms(1) x] by (auto simp: oc_getlru_eq_Some)
  then show "timer_when s' x = timer_when s x \<and> oc_getlru x s' = oc_getlru x s"
    using assms(4) [OF x k] by (simp add: timer_when_def oc_getlru_def)
qed

lemma cache_inv_private:
  assumes inv: "cache_inv heads hinv pcre_compile T H V s"
    and eq: "es_heap s' = es_heap s" "es_lru s' = es_lru s" "es_ob s' = es_ob s" "c_bans s' = c_bans s"
    and oc: "\<And>x c. oc_objhead c \<noteq> None \<Longrightarrow> es_oc s' x = Some c \<longleftrightarrow> es_oc s x = Some c"
    and hd: "\<And>a. a \<in> heads (c_hash s) \<Longrightarrow> c_heads s' a = c_heads s a" "heads (c_hash s') = heads (c_hash s)" "hinv (c_hash s') (c_heads s')"
  shows "cache_inv heads hinv pcre_compile T H V s'"
proof -
  note i = cache_invD [OF inv]
  have on: "on_heap s' = on_heap s" using eq(1) by simp
  have same: "es_oc s' x = es_oc s x" if x: "x \<in> on_heap s" for x
  proof -
    obtain c oh where "es_oc s x = Some c" "oc_objhead c = Some oh" using i(7) [of x] x by blast
    then show ?thesis using oc [of c x] by simp
  qed
  have e: "exp_inv s'" using exp_inv_same_stores [OF i(1) eq(1-3) same] .
  have h: "head_ok V s' oh" if "oh \<in> heads (c_hash s)" for oh
    by (rule head_ok_cong [OF i(4) [OF that]]) (use oc hd(1) [OF that] in auto)
  have c: "core_ok H s' x c" if "core_ok H s x c" for x c
    by (rule core_ok_cong [OF that]) (use eq in auto)
  have att: "oh \<in> heads (c_hash s) \<and> x \<in> set (oh_objcs (c_heads s' oh)) \<and> core_ok H s' x c"
    if "es_oc s' x = Some c" "oc_objhead c = Some oh" for x c oh
    using i(6) [of x c oh] that oc [of c x] hd(1) [of oh] c by auto
  have att2: "\<exists>c oh. es_oc s' x = Some c \<and> oc_objhead c = Some oh" if "0 < H x \<or> x \<in> on_heap s" for x
    using i(7) [OF that] oc by force
  have own: "\<exists>c oh. es_oc s' x = Some c \<and> oc_objhead c = Some oh \<and> oc_methods c" if "oc_ban (c_bans s) x \<noteq> None" for x
    using i(8) [OF that] oc by force
  show ?thesis unfolding cache_inv_def on eq(4) hd(2) using e hd(3) i(3,5) h att att2 own by blast
qed

text \<open>One reference to a head more or less.\<close>

lemma cache_inv_ref:
  assumes inv: "cache_inv heads hinv pcre_compile T H V s"
    and eq: "es_heap s' = es_heap s" "es_lru s' = es_lru s" "es_ob s' = es_ob s" "es_oc s' = es_oc s" "c_bans s' = c_bans s"
    and hs: "c_heads s' = oh_add_ref (c_heads s) oh k" "oh \<in> heads (c_hash s)" "heads (c_hash s') = heads (c_hash s)" "hinv (c_hash s') (c_heads s')"
    and V: "int (V' oh) = int (V oh) + k" "\<And>x. x \<noteq> oh \<Longrightarrow> V' x = V x"
  shows "cache_inv heads hinv pcre_compile T H V' s'"
proof -
  note i = cache_invD [OF inv]
  have on: "on_heap s' = on_heap s" using eq(1) by simp
  have e: "exp_inv s'" using exp_inv_same_stores [OF i(1) eq(1-3)] eq(4) by simp
  have h: "head_ok V' s' a" if a: "a \<in> heads (c_hash s)" for a
  proof (cases "a = oh")
    case True
    then show ?thesis using i(4) [OF a] V(1) unfolding head_ok_def hs(1) eq(4) by (simp add: waiting_def)
  next
    case False
    then show ?thesis by (intro head_ok_cong [OF i(4) [OF a]]) (use V(2) in \<open>auto simp: hs(1) eq(4)\<close>)
  qed
  have c: "core_ok H s' x c" if "core_ok H s x c" for x c
    by (rule core_ok_cong [OF that]) (use eq in auto)
  have v: "x \<in> heads (c_hash s)" if "0 < V' x" for x using that V(2) hs(2) i(5) by (cases "x = oh") auto
  have att: "a \<in> heads (c_hash s) \<and> x \<in> set (oh_objcs (c_heads s' a)) \<and> core_ok H s' x c"
    if "es_oc s x = Some c" "oc_objhead c = Some a" for x c a
    using i(6) [OF that] c by (auto simp: hs(1))
  show ?thesis unfolding cache_inv_def on eq(4,5) hs(3) using e hs(4) i(3,7,8) h att v by blast
qed

text \<open>A head that is new in the hash.\<close>

lemma cache_inv_newhead:
  assumes inv: "cache_inv heads hinv pcre_compile T H V s"
    and eq: "es_heap s' = es_heap s" "es_lru s' = es_lru s" "es_ob s' = es_ob s" "es_oc s' = es_oc s" "c_bans s' = c_bans s"
    and hs: "c_heads s' = (c_heads s)(a := h)" "a \<notin> heads (c_hash s)" "heads (c_hash s') = insert a (heads (c_hash s))" "hinv (c_hash s') (c_heads s')"
    and h: "oh_objcs h = []" "oh_waitinglist h = None" "oh_refcnt h = 1"
  shows "cache_inv heads hinv pcre_compile T H (V(a := V a + 1)) s'"
proof -
  note i = cache_invD [OF inv]
  have on: "on_heap s' = on_heap s" using eq(1) by simp
  have e: "exp_inv s'" using exp_inv_same_stores [OF i(1) eq(1-3)] eq(4) by simp
  have "V a = 0" using i(5) hs(2) by blast
  then have new: "head_ok (V(a := V a + 1)) s' a" using h by (simp add: head_ok_def hs(1) waiting_def)
  have old: "head_ok (V(a := V a + 1)) s' x" if x: "x \<in> heads (c_hash s)" for x
    by (rule head_ok_cong [OF i(4) [OF x]]) (use x hs(2) in \<open>auto simp: hs(1) eq(4)\<close>)
  have c: "core_ok H s' x c" if "core_ok H s x c" for x c
    by (rule core_ok_cong [OF that]) (use eq in auto)
  have att: "b \<in> insert a (heads (c_hash s)) \<and> x \<in> set (oh_objcs (c_heads s' b)) \<and> core_ok H s' x c"
    if "es_oc s x = Some c" "oc_objhead c = Some b" for x c b
    using i(6) [OF that] c hs(2) by (auto simp: hs(1))
  have v: "x \<in> insert a (heads (c_hash s))" if "0 < (V(a := V a + 1)) x" for x using that i(5) by (auto split: if_splits)
  have hd: "head_ok (V(a := V a + 1)) s' x" if "x \<in> insert a (heads (c_hash s))" for x using that new old by blast
  show ?thesis unfolding cache_inv_def on eq(4,5) hs(3) using e hs(4) i(3,7,8) hd att v by blast
qed

text \<open>A change of one object core and its head, with the rest as before.\<close>

lemma cache_inv_core:
  assumes inv: "cache_inv heads hinv pcre_compile T H V s" and e: "exp_inv s'" and on: "\<And>x. x \<noteq> oc \<Longrightarrow> x \<in> on_heap s' \<longleftrightarrow> x \<in> on_heap s"
    and hs: "heads (c_hash s') = heads (c_hash s)" "hinv (c_hash s') (c_heads s')" "\<And>a. a \<noteq> oh \<Longrightarrow> c_heads s' a = c_heads s a"
    and bn: "ban_inv pcre_compile T (c_bans s')" "\<And>x. x \<noteq> oc \<Longrightarrow> oc_ban (c_bans s') x = oc_ban (c_bans s) x" and hd: "oh \<in> heads (c_hash s)" "head_ok V' s' oh"
    and V: "\<And>a. a \<noteq> oh \<Longrightarrow> V' a = V a" and H: "\<And>x. x \<noteq> oc \<Longrightarrow> H' x = H x"
    and oc: "es_oc s' oc = Some c'" "oc_objhead c' = Some oh" "core_ok H' s' oc c'" "\<And>x. x \<noteq> oc \<Longrightarrow> es_oc s' x = es_oc s x"
    and bm: "oc_ban (c_bans s') oc \<noteq> None \<Longrightarrow> oc_methods c'"
    and was: "\<And>c. es_oc s oc = Some c \<Longrightarrow> oc_objhead c = Some oh \<or> oc_objhead c = None"
    and mem: "\<And>x. x \<noteq> oc \<Longrightarrow> x \<in> set (oh_objcs (c_heads s' oh)) \<longleftrightarrow> x \<in> set (oh_objcs (c_heads s oh))" "oc \<in> set (oh_objcs (c_heads s' oh))"
    and ob: "\<And>x b ob. x \<noteq> oc \<Longrightarrow> es_ob s b = Some ob \<Longrightarrow> o_objcore ob = Some x \<Longrightarrow> es_ob s' b = Some ob"
  shows "cache_inv heads hinv pcre_compile T H' V' s'"
proof -
  note i = cache_invD [OF inv]
  have h: "head_ok V' s' a" if a: "a \<in> heads (c_hash s)" for a
  proof (cases "a = oh")
    case False
    show ?thesis
    proof (rule head_ok_cong [OF i(4) [OF a]])
      show "V' a = V a" "c_heads s' a = c_heads s a" using V hs(3) False by simp_all
      fix x c assume "es_oc s x = Some c" "oc_objhead c = Some a"
      moreover then have "x \<noteq> oc" using was False by auto
      ultimately show "\<exists>c'. es_oc s' x = Some c' \<and> oc_objhead c' = Some a" using oc(4) by auto
    qed
  qed (use hd in simp)
  have att: "a \<in> heads (c_hash s) \<and> x \<in> set (oh_objcs (c_heads s' a)) \<and> core_ok H' s' x c"
    if x: "es_oc s' x = Some c" "oc_objhead c = Some a" for x c a
  proof (cases "x = oc")
    case True
    then show ?thesis using x oc(1-3) hd(1) mem(2) by simp
  next
    case False
    note j = i(6) [of x c a]
    have "core_ok H' s' x c"
      by (rule core_ok_cong [of H s]) (use j x oc(4) [OF False] H [OF False] on [OF False] bn(2) [OF False] ob [OF False] in auto)
    then show ?thesis using j x oc(4) [OF False] mem(1) [OF False] hs(3) [of a] by (cases "a = oh") auto
  qed
  have att2: "\<exists>c a. es_oc s' x = Some c \<and> oc_objhead c = Some a" if "0 < H' x \<or> x \<in> on_heap s'" for x
    using that i(7) [of x] oc(1,2,4) H on by (cases "x = oc") auto
  have v: "x \<in> heads (c_hash s)" if "0 < V' x" for x using that V hd(1) i(5) by (cases "x = oh") auto
  have own: "\<exists>c a. es_oc s' x = Some c \<and> oc_objhead c = Some a \<and> oc_methods c" if "oc_ban (c_bans s') x \<noteq> None" for x
    using that i(8) [of x] oc(1,2,4) bn(2) bm by (cases "x = oc") auto
  show ?thesis unfolding cache_inv_def hs(1) using e hs(2) bn(1) h att att2 v own by blast
qed

subsection \<open>Entering a lookup\<close>

abbreviation slinger_of :: "('h \<Rightarrow> 'h) \<Rightarrow> ('h \<Rightarrow> oh_store \<Rightarrow> oh_ref \<Rightarrow> ('h \<times> oh_store \<times> oh_ref) option) \<Rightarrow>
    ('h \<Rightarrow> oh_store \<Rightarrow> oh_ref \<Rightarrow> ('h \<times> oh_store \<times> bool) option) \<Rightarrow> 'h slinger" where
  "slinger_of prep lookup deref \<equiv> \<lparr>sl_prep = prep, sl_lookup = lookup, sl_deref = deref\<rparr>"

text \<open>A worker's precreated structures belong to no one else.\<close>

definition private_core :: "'h cache \<Rightarrow> oc_ref \<Rightarrow> bool" where
  "private_core s oc \<longleftrightarrow> (\<exists>c. es_oc s oc = Some c \<and> oc_busy c \<and> oc_objhead c = None \<and> oc_busyobj c = None \<and> \<not> oc_methods c)"

definition private_head :: "('h \<Rightarrow> oh_ref set) \<Rightarrow> 'h cache \<Rightarrow> oh_ref \<Rightarrow> bool" where
  "private_head heads s oh \<longleftrightarrow> oh \<notin> heads (c_hash s) \<and> oh_refcnt (c_heads s oh) = 1 \<and> oh_objcs (c_heads s oh) = [] \<and>
     oh_waitinglist (c_heads s oh) = None"

definition wrk_ok :: "('h \<Rightarrow> oh_ref set) \<Rightarrow> wrk \<Rightarrow> 'h cache \<Rightarrow> bool" where
  "wrk_ok heads w s \<longleftrightarrow> (\<forall>oc. w_nobjcore w = Some oc \<longrightarrow> private_core s oc) \<and> (\<forall>oh. w_nobjhead w = Some oh \<longrightarrow> private_head heads s oh)"

definition wrk_full :: "wrk \<Rightarrow> bool" where
  "wrk_full w \<longleftrightarrow> w_nobjcore w \<noteq> None \<and> w_nwaitinglist w \<and> w_nbusyobj w \<noteq> None"

lemma HSH_Prealloc_eq:
  "HSH_Prealloc hash noc noh w s =
    (w\<lparr>w_nobjcore := Some (case w_nobjcore w of None \<Rightarrow> noc | Some x \<Rightarrow> x), w_nobjhead := Some (case w_nobjhead w of None \<Rightarrow> noh | Some x \<Rightarrow> x),
       w_nwaitinglist := True, w_nbusyobj := Some (case w_nbusyobj w of None \<Rightarrow> \<lparr>bo_vary = None\<rparr> | Some x \<Rightarrow> x),
       n_objectcore := n_objectcore w + (if w_nobjcore w = None then 1 else 0), n_objecthead := n_objecthead w + (if w_nobjhead w = None then 1 else 0),
       n_waitinglist := n_waitinglist w + (if w_nwaitinglist w then 0 else 1)\<rparr>,
     s\<lparr>es_oc := (if w_nobjcore w = None then (es_oc s)(noc \<mapsto> new_objcore) else es_oc s), c_hash := sl_prep hash (c_hash s),
       c_heads := (if w_nobjhead w = None then (c_heads s)(noh := new_objhead) else c_heads s)\<rparr>)"
  by (cases "w_nobjcore w"; cases "w_nobjhead w"; cases "w_nwaitinglist w"; cases "w_nbusyobj w") (simp_all add: HSH_Prealloc_def)

text \<open>What a lookup leaves alone until it has found its head.\<close>

definition enter_frame :: "'h cache \<Rightarrow> 'h cache \<Rightarrow> bool" where
  "enter_frame s s' \<longleftrightarrow> es_ob s' = es_ob s \<and> c_bans s' = c_bans s \<and> es_heap s' = es_heap s \<and> es_lru s' = es_lru s \<and>
     (\<forall>x c. oc_objhead c \<noteq> None \<longrightarrow> (es_oc s' x = Some c \<longleftrightarrow> es_oc s x = Some c))"

lemma wrk_ok_same: "wrk_ok heads w s \<Longrightarrow> same_cores s s' \<Longrightarrow> wrk_ok heads w s'"
  unfolding wrk_ok_def private_core_def private_head_def
  using same_coresD(4) [of s s'] by (fastforce simp: same_coresD(1,2) [of s s'])

lemma candidate_enter:
  assumes "candidate pcre_compile params sp s' oc ob" and "enter_frame s s'" and "es_oc s' oc = Some c" "oc_objhead c \<noteq> None"
  shows "candidate pcre_compile params sp s oc ob"
  using assms by (auto simp: candidate_def object_of_def is_banned_def enter_frame_def)

lemma cores_fit_enter:
  assumes "cores_fit sp s" and "enter_frame s s'"
  shows "cores_fit (sp\<lparr>sp_hash_objhead := None\<rparr>) s'"
proof -
  have e: "es_ob s' = es_ob s" "\<And>x c oh. es_oc s' x = Some c \<Longrightarrow> oc_objhead c = Some oh \<Longrightarrow> es_oc s x = Some c"
    using assms(2) by (auto simp: enter_frame_def)
  show ?thesis
    unfolding cores_fit_def
  proof (intro allI impI)
    fix oc c oh assume a: "es_oc s' oc = Some c" "oc_objhead c = Some oh"
    show "(\<forall>bo v. oc_busyobj c = Some bo \<longrightarrow> bo_vary bo = Some v \<longrightarrow> vary_fits (length (sp_vary_b (sp\<lparr>sp_hash_objhead := None\<rparr>))) (sp_http (sp\<lparr>sp_hash_objhead := None\<rparr>)) v) \<and>
      (\<forall>b ob v. oc_priv c = Some b \<longrightarrow> es_ob s' b = Some ob \<longrightarrow> o_vary ob = Some v \<longrightarrow> vary_fits (length (sp_vary_b (sp\<lparr>sp_hash_objhead := None\<rparr>))) (sp_http (sp\<lparr>sp_hash_objhead := None\<rparr>)) v)"
      using assms(1) e(2) [OF a] a(2) unfolding cores_fit_def by (simp add: e(1))
  qed
qed

lemma wrk_ok_frame:
  assumes "wrk_ok heads w s" and "heads (c_hash s') \<subseteq> heads (c_hash s)" and "\<And>a. a \<notin> heads (c_hash s) \<Longrightarrow> c_heads s' a = c_heads s a"
    and "\<And>oc. w_nobjcore w' = Some oc \<Longrightarrow> w_nobjcore w = Some oc \<and> es_oc s' oc = es_oc s oc" and "w_nobjhead w' = w_nobjhead w"
  shows "wrk_ok heads w' s'"
  using assms by (auto simp: wrk_ok_def private_core_def private_head_def)

definition refs_fit :: "(oc_ref \<Rightarrow> nat) \<Rightarrow> bool" where
  "refs_fit H \<longleftrightarrow> (\<forall>oc. H oc + 2 < 2 ^ 32)"

text \<open>
  What a lookup returns: an object core that answers the request, now with a reference; a new busy object
  core; or nothing, when the session waits for a busy one.
\<close>

definition sess_dropped :: "hsess \<Rightarrow> (oh_ref \<Rightarrow> nat) \<Rightarrow> oh_ref \<Rightarrow> nat" where
  "sess_dropped sp V = (case sp_hash_objhead sp of None \<Rightarrow> V | Some oh \<Rightarrow> V(oh := V oh - 1))"

definition answers :: "(string \<Rightarrow> string + char list) \<Rightarrow> hsh_params \<Rightarrow> hsess \<Rightarrow> 'h cache \<Rightarrow> oc_ref \<Rightarrow> bool" where
  "answers pcre_compile params sp s oc \<longleftrightarrow> (\<exists>ob. candidate pcre_compile params sp s oc ob \<and>
     (sp_t_req sp \<le> EXP_Ttl (Some (sp_exp sp)) (o_exp ob) \<or> sp_t_req sp \<le> EXP_Grace (p_exp params) (Some (sp_exp sp)) (o_exp ob)))"

definition attached_busy :: "'h cache \<Rightarrow> oc_ref \<Rightarrow> oh_ref \<Rightarrow> bool \<Rightarrow> bool" where
  "attached_busy s oc oh b \<longleftrightarrow> (\<exists>c. es_oc s oc = Some c \<and> oc_objhead c = Some oh \<and> oc_busy c = b)"

subsection \<open>Releasing a reference\<close>

lemma rush_loop_split:
  "rush_loop u refuse l = (l', q, d) \<Longrightarrow> \<exists>taken. l = taken @ l' \<and> length taken = length q + d \<and> d \<le> 1"
  by (induction u refuse l arbitrary: l' q d rule: rush_loop.induct) (fastforce split: if_splits prod.splits)+

text \<open>Sessions taken off the waiting list keep their reference to the head; so does one that is dropped.\<close>

lemma rush_ok:
  assumes "oh_waitinglist (c_heads s oh) \<noteq> Some []"
  shows "\<exists>wl q d n. (if oh_waitinglist (c_heads s oh) \<noteq> None then hsh_rush params refuse oh s else Some s) =
      Some (s\<lparr>c_heads := (c_heads s)(oh := (c_heads s oh)\<lparr>oh_waitinglist := wl\<rparr>), c_queued := q, client_drop_late := d\<rparr>) \<and>
    wl \<noteq> Some [] \<and> length (waiting (c_heads s oh)) = n + length (waiting ((c_heads s oh)\<lparr>oh_waitinglist := wl\<rparr>))"
proof (cases "oh_waitinglist (c_heads s oh)")
  case None
  then show ?thesis
    by (intro exI [of _ None] exI [of _ "c_queued s"] exI [of _ "client_drop_late s"] exI [of _ 0])
      (cases s, cases "c_heads s oh", simp add: waiting_def fun_upd_idem)
next
  case (Some wl)
  obtain l q d where r: "rush_loop (rush_exponent params) refuse wl = (l, q, d)" by (metis prod_cases3)
  obtain taken where "wl = taken @ l" using rush_loop_split [OF r] by blast
  then show ?thesis using Some r
    by (intro exI [of _ "if l = [] then None else Some l"] exI [of _ "c_queued s @ q"] exI [of _ "client_drop_late s + d"]
        exI [of _ "length taken"]) (simp add: hsh_rush_def waiting_def)
qed

lemma cache_inv_free:
  assumes inv: "cache_inv heads hinv pcre_compile T H V s" and eq: "es_heap s' = es_heap s" "es_lru s' = es_lru s"
    and c: "es_oc s oc = Some c" "oc_objhead c = Some oh" "oc \<notin> on_heap s" "es_oc s' = (es_oc s)(oc := None)"
    and iv: "hinv (c_hash s') (c_heads s')" and hs: "\<And>a. a \<noteq> oh \<Longrightarrow> c_heads s' a = c_heads s a"
    and kept: "heads (c_hash s') = heads (c_hash s) \<and> head_ok V' s' oh \<or>
      heads (c_hash s') = heads (c_hash s) - {oh} \<and> V' oh = 0 \<and> set (oh_objcs (c_heads s oh)) = {oc}"
    and mem: "set (oh_objcs (c_heads s' oh)) = set (oh_objcs (c_heads s oh)) - {oc}"
    and bn: "ban_inv pcre_compile T (c_bans s')" "oc_ban (c_bans s') = (oc_ban (c_bans s))(oc := None)"
    and V: "\<And>a. a \<noteq> oh \<Longrightarrow> V' a = V a" and H: "\<And>x. x \<noteq> oc \<Longrightarrow> H' x = H x" "H' oc = 0"
    and ob: "\<And>x b ob. x \<noteq> oc \<Longrightarrow> es_ob s b = Some ob \<Longrightarrow> o_objcore ob = Some x \<Longrightarrow> es_ob s' b = Some ob"
  shows "cache_inv heads hinv pcre_compile T H' V' s'"
proof -
  note i = cache_invD [OF inv]
  have oh: "oh \<in> heads (c_hash s)" using i(6) [OF c(1,2)] by blast
  have on: "on_heap s' = on_heap s" using eq(1) by simp
  have e: "exp_inv s'"
  proof (rule exp_inv_keep [OF i(1) eq])
    fix x k b ob1 assume x: "x \<in> on_heap s" and k: "es_oc s x = Some k" "oc_methods k" "oc_priv k = Some b" "es_ob s b = Some ob1"
    then have ne: "x \<noteq> oc" using c(3) by blast
    have "o_objcore ob1 = Some x" using i(7) [of x] x k core_object [OF inv k(1) _ k(2)] by auto
    then show "es_oc s' x = Some k \<and> es_ob s' b = Some ob1" using k ne ob [OF ne k(4)] c(4) by simp
  qed
  have h: "head_ok V' s' a" if a: "a \<in> heads (c_hash s')" for a
  proof (cases "a = oh")
    case True
    then show ?thesis using kept a by auto
  next
    case False
    then have "a \<in> heads (c_hash s)" using kept a by auto
    then show ?thesis
      by (rule head_ok_cong [OF i(4)]) (use V [OF False] hs [OF False] c False in auto)
  qed
  have att: "a \<in> heads (c_hash s') \<and> x \<in> set (oh_objcs (c_heads s' a)) \<and> core_ok H' s' x k"
    if x: "es_oc s' x = Some k" "oc_objhead k = Some a" for x k a
  proof -
    have ne: "x \<noteq> oc" and k: "es_oc s x = Some k" using x(1) c(4) by (auto split: if_splits)
    note j = i(6) [OF k x(2)]
    have "core_ok H' s' x k"
      by (rule core_ok_cong [of H s]) (use j H(1) [OF ne] on bn(2) ne ob [OF ne] in auto)
    then show ?thesis using j ne mem hs kept by (cases "a = oh") auto
  qed
  have att2: "\<exists>k a. es_oc s' x = Some k \<and> oc_objhead k = Some a" if "0 < H' x \<or> x \<in> on_heap s" for x
    using that i(7) [of x] H c(3,4) by (cases "x = oc") auto
  have v: "x \<in> heads (c_hash s')" if "0 < V' x" for x using that V kept oh i(5) by (cases "x = oh") auto
  have own: "\<exists>k a. es_oc s' x = Some k \<and> oc_objhead k = Some a \<and> oc_methods k" if "oc_ban (c_bans s') x \<noteq> None" for x
    using that i(8) [of x] bn(2) c(4) by (auto split: if_splits)
  show ?thesis unfolding cache_inv_def on using e iv bn(1) h att att2 v own by blast
qed

definition fresh_core :: "'h cache \<Rightarrow> oc_ref \<Rightarrow> oh_ref \<Rightarrow> bool" where
  "fresh_core s oc oh \<longleftrightarrow> (\<exists>c. es_oc s oc = Some c \<and> oc_objhead c = Some oh \<and> oc_busy c \<and> \<not> oc_methods c \<and> oc_refcnt c = 1)"

context hash_slinger
begin

lemma prealloc_ok:
  assumes inv: "cache_inv heads inv pcre_compile T H V s" and w: "wrk_ok heads w s" and fr: "es_oc s noc = None" "noh \<notin> heads (c_hash s)"
    and pre: "HSH_Prealloc (slinger_of prep lookup deref) noc noh w s = (w', s')"
  shows "cache_inv heads inv pcre_compile T H V s' \<and> wrk_ok heads w' s' \<and> wrk_full w' \<and> enter_frame s s' \<and>
    heads (c_hash s') = heads (c_hash s) \<and> (\<forall>a \<in> heads (c_hash s). c_heads s' a = c_heads s a) \<and>
    c_hash s' = prep (c_hash s) \<and> inv (c_hash s) (c_heads s') \<and> (\<exists>a. w_nobjhead w' = Some a)"
proof -
  note i = cache_invD [OF inv]
  have s': "s' = s\<lparr>es_oc := (if w_nobjcore w = None then (es_oc s)(noc \<mapsto> new_objcore) else es_oc s), c_hash := prep (c_hash s),
       c_heads := (if w_nobjhead w = None then (c_heads s)(noh := new_objhead) else c_heads s)\<rparr>"
    and w': "w_nobjcore w' = Some (case w_nobjcore w of None \<Rightarrow> noc | Some x \<Rightarrow> x)" "w_nobjhead w' = Some (case w_nobjhead w of None \<Rightarrow> noh | Some x \<Rightarrow> x)"
      "w_nwaitinglist w'" "w_nbusyobj w' \<noteq> None"
    using pre unfolding HSH_Prealloc_eq by auto
  have hp: "heads (prep (c_hash s)) = heads (c_hash s)" using prep_ok [OF i(2)] by blast
  have hs: "c_heads s' a = c_heads s a" if "a \<in> heads (c_hash s)" for a using that fr(2) by (auto simp: s')
  have iv: "inv (c_hash s) (c_heads s')" by (rule inv_frame [OF i(2)]) (simp add: hs same_hash_part_def)
  then have iv': "inv (c_hash s') (c_heads s')" using prep_ok by (simp add: s')
  have oc: "es_oc s' x = Some c \<longleftrightarrow> es_oc s x = Some c" if "oc_objhead c \<noteq> None" for x c
    using that fr(1) by (auto simp: s' new_objcore_def split: if_splits)
  have "cache_inv heads inv pcre_compile T H V s'"
    by (rule cache_inv_private [OF inv]) (use oc hs iv' hp in \<open>simp_all add: s'\<close>)
  moreover have "enter_frame s s'" using oc by (simp add: enter_frame_def s')
  moreover have "wrk_ok heads w' s'"
    using w fr unfolding wrk_ok_def w' private_core_def private_head_def
    by (auto simp: s' hp new_objcore_def new_objhead_def OC_F_BUSY_def split: option.splits)
  ultimately show ?thesis using w' hs iv hp by (auto simp: wrk_full_def s')
qed

lemma enter_ok:
  assumes inv: "cache_inv heads inv pcre_compile T H V s" and w: "wrk_ok heads w s" and fr: "es_oc s noc = None" "noh \<notin> heads (c_hash s)"
    and dig: "length (sp_digest sp) = DIGEST_LEN" and held: "\<And>oh. sp_hash_objhead sp = Some oh \<Longrightarrow> 0 < V oh"
  shows "\<exists>oh w' s' V'. hsh_enter (slinger_of prep lookup deref) noc noh sp w s = Some (oh, sp\<lparr>sp_hash_objhead := None\<rparr>, w', s') \<and>
    V' = (if sp_hash_objhead sp = None then V(oh := V oh + 1) else V) \<and> cache_inv heads inv pcre_compile T H V' s' \<and> 0 < V' oh \<and>
    wrk_ok heads w' s' \<and> wrk_full w' \<and> enter_frame s s' \<and>
    (case sp_hash_objhead sp of None \<Rightarrow> digest_of (c_heads s') oh = sp_digest sp | Some oh0 \<Rightarrow> oh = oh0)"
proof -
  obtain w1 s1 where pre: "HSH_Prealloc (slinger_of prep lookup deref) noc noh w s = (w1, s1)" by fastforce
  have p: "cache_inv heads inv pcre_compile T H V s1" "wrk_ok heads w1 s1" "wrk_full w1" "enter_frame s s1"
      "heads (c_hash s1) = heads (c_hash s)" "c_hash s1 = prep (c_hash s)" "inv (c_hash s) (c_heads s1)"
    using prealloc_ok [OF inv w fr pre] by blast+
  obtain a where a: "w_nobjhead w1 = Some a" using prealloc_ok [OF inv w fr pre] by blast
  have pa: "private_head heads s1 a" using p(2) a by (simp add: wrk_ok_def)
  then have na: "a \<notin> heads (c_hash s)" by (simp add: private_head_def p(5))
  let ?s2 = "s1\<lparr>c_heads := (c_heads s1)(a := (c_heads s1 a)\<lparr>oh_digest := sp_digest sp\<rparr>)\<rparr>"
  have iv: "inv (c_hash s) (c_heads ?s2)" by (rule inv_frame [OF p(7)]) (use na in \<open>auto simp: same_hash_part_def\<close>)
  then have "inv (c_hash ?s2) (c_heads ?s2)" using prep_ok p(6) by simp
  then have i2: "cache_inv heads inv pcre_compile T H V ?s2"
    by (intro cache_inv_private [OF p(1)]) (use na p(5) in auto)
  have w2: "wrk_ok heads w1 ?s2" using p(2) pa by (auto simp: wrk_ok_def private_head_def private_core_def)
  have f2: "enter_frame s ?s2" using p(4) by (simp add: enter_frame_def)
  show ?thesis
  proof (cases "sp_hash_objhead sp")
    case (Some oh)
    then show ?thesis
      using pre a i2 w2 f2 p(3) held by (intro exI [of _ oh] exI [of _ w1] exI [of _ ?s2] exI [of _ V]) (simp add: hsh_enter_def)
  next
    case None
    then have sp: "sp\<lparr>sp_hash_objhead := None\<rparr> = sp" by (cases sp) simp
    have ref: "oh_refcnt (c_heads ?s2 a) = 1" "digest_of (c_heads ?s2) a = sp_digest sp" using pa by (simp_all add: private_head_def)
    show ?thesis
    proof (cases "\<exists>oh \<in> heads (c_hash s). digest_of (c_heads ?s2) oh = sp_digest sp")
      case True
      then obtain oh where oh: "oh \<in> heads (c_hash s)" "digest_of (c_heads ?s2) oh = sp_digest sp" by blast
      obtain st where st: "lookup (prep (c_hash s)) (c_heads ?s2) a = Some (st, oh_add_ref (c_heads ?s2) oh 1, oh)"
          "heads st = heads (c_hash s)" "inv st (oh_add_ref (c_heads ?s2) oh 1)"
        using lookup_hit [OF iv oh(1) na ref(1)] oh(2) ref(2) by metis
      let ?s3 = "?s2\<lparr>c_hash := st, c_heads := oh_add_ref (c_heads ?s2) oh 1\<rparr>"
      have ne: "oh \<noteq> a" using oh(1) na by blast
      have run: "hsh_enter (slinger_of prep lookup deref) noc noh sp w s = Some (oh, sp, w1, ?s3)"
        using pre a None st(1) ne by (simp add: hsh_enter_def p(6))
      have "cache_inv heads inv pcre_compile T H (V(oh := V oh + 1)) ?s3"
        by (rule cache_inv_ref [OF i2, where oh = oh and k = 1]) (use oh(1) st(2,3) p(5) in auto)
      moreover have "wrk_ok heads w1 ?s3"
        using w2 ne a p(5) st(2) by (auto simp: wrk_ok_def private_head_def private_core_def)
      moreover have "enter_frame s ?s3" using f2 by (simp add: enter_frame_def)
      moreover have "digest_of (c_heads ?s3) oh = sp_digest sp" using oh(2) by simp
      ultimately show ?thesis
        using run None p(3) unfolding sp by (intro exI [of _ oh] exI [of _ w1] exI [of _ ?s3] exI [of _ "V(oh := V oh + 1)"]) simp
    next
      case False
      then have miss: "\<And>oh. oh \<in> heads (c_hash s) \<Longrightarrow> digest_of (c_heads ?s2) oh \<noteq> digest_of (c_heads ?s2) a" using ref(2) by auto
      obtain st h where st: "lookup (prep (c_hash s)) (c_heads ?s2) a = Some (st, (c_heads ?s2)(a := h), a)"
          "same_user_part h (c_heads ?s2 a)" "oh_refcnt h = 1" "heads st = insert a (heads (c_hash s))" "inv st ((c_heads ?s2)(a := h))"
        using lookup_miss [OF iv na ref(1) _ miss] dig ref(2) by metis
      let ?s3 = "?s2\<lparr>c_hash := st, c_heads := (c_heads ?s2)(a := h)\<rparr>"
      have run: "hsh_enter (slinger_of prep lookup deref) noc noh sp w s = Some (a, sp, w1\<lparr>w_nobjhead := None\<rparr>, ?s3)"
        using pre a None st(1) by (simp add: hsh_enter_def p(6))
      have u: "oh_objcs h = []" "oh_waitinglist h = None" "oh_digest h = sp_digest sp"
        using st(2) pa by (simp_all add: same_user_part_def private_head_def)
      have "cache_inv heads inv pcre_compile T H (V(a := V a + 1)) ?s3"
        by (rule cache_inv_newhead [OF i2, where h = h]) (use u st(3-5) na p(5) in auto)
      moreover have "wrk_ok heads (w1\<lparr>w_nobjhead := None\<rparr>) ?s3"
        using w2 by (auto simp: wrk_ok_def private_core_def)
      moreover have "enter_frame s ?s3" using f2 by (simp add: enter_frame_def)
      moreover have "wrk_full (w1\<lparr>w_nobjhead := None\<rparr>)" using p(3) by (simp add: wrk_full_def)
      ultimately show ?thesis
        using run None u(3) unfolding sp by (intro exI [of _ a] exI [of _ "w1\<lparr>w_nobjhead := None\<rparr>"] exI [of _ ?s3] exI [of _ "V(a := V a + 1)"]) simp
    qed
  qed
qed

lemma hit_ok:
  assumes inv: "cache_inv heads inv pcre_compile T H V s" and V: "0 < V oh" and c: "es_oc s oc = Some c" "oc_objhead c = Some oh" "\<not> oc_busy c"
    and fit: "H oc + 2 < 2 ^ 32"
  shows "\<exists>s'. hsh_hit (slinger_of prep lookup deref) oh oc s = Some s' \<and>
    cache_inv heads inv pcre_compile T (H(oc := H oc + 1)) (V(oh := V oh - 1)) s' \<and> heads (c_hash s') = heads (c_hash s) \<and>
    (\<forall>a. a \<notin> heads (c_hash s) \<longrightarrow> c_heads s' a = c_heads s a) \<and> (\<forall>x. x \<noteq> oc \<longrightarrow> es_oc s' x = es_oc s x) \<and>
    attached_busy s' oc oh False \<and> digest_of (c_heads s') oh = digest_of (c_heads s) oh"
proof -
  note i = cache_invD [OF inv]
  have oh: "oh \<in> heads (c_hash s)" "oc \<in> set (oh_objcs (c_heads s oh))" and ck: "core_ok H s oc c" using i(6) [OF c(1,2)] by blast+
  have m: "oc_methods c" using ck c(3) by (simp add: core_ok_def)
  obtain b ob where b: "oc_priv c = Some b" "es_ob s b = Some ob" "o_objcore ob = Some oc" "http_full (o_http ob)"
      "0 < e_ttl (o_exp ob) \<longrightarrow> oc_ban (c_bans s) oc \<noteq> None"
    using core_object [OF inv c(1,2) m] by blast
  have hd: "head_ok V s oh" using i(4) oh(1) by blast
  then have ref: "1 < oh_refcnt (c_heads s oh)"
    using oh(2) V unfolding head_ok_def by (cases "oh_objcs (c_heads s oh)") auto
  obtain st where st: "deref (c_hash s) (c_heads s) oh = Some (st, oh_add_ref (c_heads s) oh (-1), True)"
      "heads st = heads (c_hash s)" "inv st (oh_add_ref (c_heads s) oh (-1))"
    using deref_more [OF i(2) oh(1) ref] by blast
  let ?ob = "if o_hits ob < INT_MAX then ob\<lparr>o_hits := o_hits ob + 1\<rparr> else ob" and ?c = "c\<lparr>oc_refcnt := oc_refcnt c + 1\<rparr>"
  let ?s = "s\<lparr>es_oc := (es_oc s)(oc \<mapsto> ?c), es_ob := (es_ob s)(b \<mapsto> ?ob), c_hash := st, c_heads := oh_add_ref (c_heads s) oh (-1)\<rparr>"
  have run: "hsh_hit (slinger_of prep lookup deref) oh oc s = Some ?s"
    using c b(1,2) m ref st(1) by (simp add: hsh_hit_def oc_getobj_def)
  have e: "exp_inv ?s"
    by (rule exp_inv_frame [OF i(1)]) (use c(1) b(2) in \<open>auto simp: timer_when_def intro!: oc_getlru_cong\<close>)
  have "unat (oc_refcnt c + 1) = unat (oc_refcnt c) + 1"
    using ck fit by (subst unat_add_nowrap) (auto simp: core_ok_def split: if_splits)
  then have ck': "core_ok (H(oc := H oc + 1)) ?s oc ?c"
    using ck b m c(3) unfolding core_ok_def by (auto simp: word_less_nat_alt)
  have hd': "head_ok (V(oh := V oh - 1)) ?s oh"
    using hd V c unfolding head_ok_def by (auto simp: waiting_def)
  have "cache_inv heads inv pcre_compile T (H(oc := H oc + 1)) (V(oh := V oh - 1)) ?s"
    by (rule cache_inv_core [OF inv e, where oh = oh and oc = oc and c' = ?c])
      (use st oh c b m hd' ck' i(3) in auto)
  then show ?thesis using run st(2) oh(1) c(2,3) by (auto simp: attached_busy_def)
qed

lemma wait_ok:
  assumes inv: "cache_inv heads inv pcre_compile T H V s" and V: "0 < V oh" and w: "w_nwaitinglist w"
  shows "\<exists>w' s'. hsh_wait oh sp w s = Some (sp\<lparr>sp_hash_objhead := Some oh\<rparr>, w', s') \<and>
    cache_inv heads inv pcre_compile T H (if sp_esi_level sp = 0 then V(oh := V oh - 1) else V) s' \<and>
    w_nobjcore w' = w_nobjcore w \<and> w_nobjhead w' = w_nobjhead w \<and> es_oc s' = es_oc s \<and> c_hash s' = c_hash s \<and>
    (\<forall>a. a \<notin> heads (c_hash s) \<longrightarrow> c_heads s' a = c_heads s a)"
proof (cases "sp_esi_level sp = 0")
  case True
  note i = cache_invD [OF inv]
  have oh: "oh \<in> heads (c_hash s)" using i(5) [OF V] .
  let ?h = "(c_heads s oh)\<lparr>oh_waitinglist := Some (waiting (c_heads s oh) @ [sp_ref sp])\<rparr>"
  let ?s = "s\<lparr>c_heads := (c_heads s)(oh := ?h)\<rparr>"
  let ?w = "if oh_waitinglist (c_heads s oh) = None then w\<lparr>w_nwaitinglist := False\<rparr> else w"
  have run: "hsh_wait oh sp w s = Some (sp\<lparr>sp_hash_objhead := Some oh\<rparr>, ?w, ?s)"
    using True w by (simp add: hsh_wait_def waiting_def Let_def)
  have e: "exp_inv ?s" by (rule exp_inv_same_stores [OF i(1)]) simp_all
  have iv: "inv (c_hash ?s) (c_heads ?s)" using inv_frame [OF i(2), of "c_heads ?s"] by (auto simp: same_hash_part_def)
  have hd: "head_ok (V(oh := V oh - 1)) ?s a" if a: "a \<in> heads (c_hash s)" for a
    using i(4) [OF a] V by (auto simp: head_ok_def waiting_def)
  have ck: "core_ok H ?s x c" if "core_ok H s x c" for x c by (rule core_ok_cong [OF that]) auto
  have "cache_inv heads inv pcre_compile T H (V(oh := V oh - 1)) ?s"
    unfolding cache_inv_def using e iv i(3,5,6,7,8) hd ck by (auto simp: V split: if_splits)
  then show ?thesis using run True oh by (intro exI [of _ ?w] exI [of _ ?s]) auto
next
  case False
  then show ?thesis using inv by (auto simp: hsh_wait_def)
qed

lemma miss_ok:
  assumes inv: "cache_inv heads inv pcre_compile T H V s" and V: "0 < V oh" and w: "wrk_ok heads w s" "wrk_full w"
    and sp: "sess_ok sp"
  shows "\<exists>oc w' s'. hsh_miss oh sp w s = Some (oc, w', s') \<and> w_nobjcore w = Some oc \<and>
    cache_inv heads inv pcre_compile T (H(oc := H oc + 1)) (V(oh := V oh - 1)) s' \<and> H oc = 0 \<and>
    (\<exists>c bo. es_oc s' oc = Some c \<and> oc_busy c \<and> oc_objhead c = Some oh \<and> \<not> oc_methods c \<and> oc_refcnt c = 1 \<and> oc_busyobj c = Some bo) \<and>
    w_nobjcore w' = None \<and> w_nobjhead w' = w_nobjhead w \<and> c_hash s' = c_hash s \<and>
    (\<forall>a. a \<notin> heads (c_hash s) \<longrightarrow> c_heads s' a = c_heads s a) \<and> digest_of (c_heads s') oh = digest_of (c_heads s) oh \<and>
    es_ob s' = es_ob s \<and> es_heap s' = es_heap s"
proof -
  note i = cache_invD [OF inv]
  obtain oc bo where wo: "w_nobjcore w = Some oc" "w_nbusyobj w = Some bo" using w(2) by (auto simp: wrk_full_def)
  obtain c where c: "es_oc s oc = Some c" "oc_busy c" "oc_objhead c = None" "oc_busyobj c = None" "\<not> oc_methods c"
    using w(1) wo(1) by (auto simp: wrk_ok_def private_core_def)
  have oh: "oh \<in> heads (c_hash s)" using i(5) [OF V] .
  have off: "oc \<notin> on_heap s" "H oc = 0" using i(7) [of oc] c(1,3) by (auto intro: ccontr)
  have nin: "oc \<notin> set (oh_objcs (c_heads s oh))" using i(4) [OF oh] c(1,3) unfolding head_ok_def by auto
  let ?bo = "bo\<lparr>bo_vary := if sp_vary_l sp \<noteq> None then Some (sp_vary_b sp) else None\<rparr>"
  let ?c = "c\<lparr>oc_refcnt := 1, oc_busyobj := Some ?bo, oc_objhead := Some oh\<rparr>"
  let ?h = "(c_heads s oh)\<lparr>oh_objcs := oh_objcs (c_heads s oh) @ [oc]\<rparr>"
  let ?s = "s\<lparr>es_oc := (es_oc s)(oc \<mapsto> ?c), c_heads := (c_heads s)(oh := ?h)\<rparr>"
  have run: "hsh_miss oh sp w s = Some (oc, w\<lparr>w_nobjcore := None, w_nbusyobj := None\<rparr>, ?s)"
  proof -
    have "VRY_Validate (sp_vary_b sp) = Some ()" using vb_ok_Validate sp unfolding sess_ok_def by blast
    then show ?thesis using wo c(1,2) by (simp add: hsh_miss_def Let_def)
  qed
  have e: "exp_inv ?s" by (rule exp_inv_same_stores [OF i(1)]) (use off in auto)
  have iv: "inv (c_hash ?s) (c_heads ?s)" using inv_frame [OF i(2), of "c_heads ?s"] by (auto simp: same_hash_part_def)
  have hd: "head_ok (V(oh := V oh - 1)) ?s oh"
    using i(4) [OF oh] V nin unfolding head_ok_def by (auto simp: waiting_def)
  have ck: "core_ok (H(oc := H oc + 1)) ?s oc ?c" using off c(2,5) by (simp add: core_ok_def)
  have "cache_inv heads inv pcre_compile T (H(oc := H oc + 1)) (V(oh := V oh - 1)) ?s"
    by (rule cache_inv_core [OF inv e, where oh = oh and oc = oc and c' = ?c]) (use iv oh hd ck c i(3) i(8) [of oc] in auto)
  then show ?thesis
    using run wo(1) off(2) c(2,5) oh by (intro exI [of _ oc] exI [of _ "w\<lparr>w_nobjcore := None, w_nbusyobj := None\<rparr>"] exI [of _ ?s]) auto
qed

lemma Lookup_ok:
  assumes inv: "cache_inv heads inv pcre_compile T H V s" and w: "wrk_ok heads w s" and fr: "es_oc s noc = None" "noh \<notin> heads (c_hash s)"
    and dig: "length (sp_digest sp) = DIGEST_LEN" and held: "\<And>oh. sp_hash_objhead sp = Some oh \<Longrightarrow> 0 < V oh"
    and sp: "sess_ok sp" "cores_fit sp s" and fit: "refs_fit H"
  shows "\<exists>r sp' w' s'. HSH_Lookup (slinger_of prep lookup deref) params healthy noc noh sp w s = Some (r, sp', w', s') \<and> wrk_ok heads w' s' \<and>
    (case r of
       Some (oc, oh) \<Rightarrow> cache_inv heads inv pcre_compile T (H(oc := H oc + 1)) (sess_dropped sp V) s' \<and> sp_hash_objhead sp' = None \<and>
         (attached_busy s' oc oh False \<and> answers pcre_compile params sp s oc \<or> fresh_core s' oc oh \<and> H oc = 0) \<and>
         (sp_hash_objhead sp = None \<longrightarrow> digest_of (c_heads s') oh = sp_digest sp)
     | None \<Rightarrow> (\<exists>oh. sp_hash_objhead sp' = Some oh \<and> (\<exists>oc. attached_busy s oc oh True) \<and>
         cache_inv heads inv pcre_compile T H (if sp_esi_level sp = 0 then sess_dropped sp V else (sess_dropped sp V)(oh := sess_dropped sp V oh + 1)) s'))"
proof -
  obtain oh w1 s1 V1 where en: "hsh_enter (slinger_of prep lookup deref) noc noh sp w s = Some (oh, sp\<lparr>sp_hash_objhead := None\<rparr>, w1, s1)"
      "V1 = (if sp_hash_objhead sp = None then V(oh := V oh + 1) else V)" "cache_inv heads inv pcre_compile T H V1 s1" "0 < V1 oh"
      "wrk_ok heads w1 s1" "wrk_full w1" "enter_frame s s1"
      "case sp_hash_objhead sp of None \<Rightarrow> digest_of (c_heads s1) oh = sp_digest sp | Some oh0 \<Rightarrow> oh = oh0"
    using enter_ok [OF inv w fr dig held] by blast
  let ?sp = "sp\<lparr>sp_hash_objhead := None\<rparr>"
  have Vd: "V1(oh := V1 oh - 1) = sess_dropped sp V" using en(2,8) by (auto simp: sess_dropped_def split: option.splits)
  note i1 = cache_invD [OF en(3)]
  have oh: "oh \<in> heads (c_hash s1)" using i1(5) [OF en(4)] .
  have ref: "0 < oh_refcnt (c_heads s1 oh)" by (rule inv_refcnt [OF i1(2) oh])
  have hd: "head_ok V1 s1 oh" using i1(4) oh by blast
  have sok: "sess_ok ?sp" using sp(1) by (simp add: sess_ok_def)
  have "loop_result heads inv pcre_compile T H V1 params (oh_objcs (c_heads s1 oh)) None None ?sp s1
      (lookup_loop params oh (oh_objcs (c_heads s1 oh)) None None ?sp s1)"
    using hd by (intro lookup_loop_ok [OF en(3) oh en(4) _ _ sok cores_fit_enter [OF sp(2) en(7)]]) (auto simp: head_ok_def)
  then obtain found busy grace sp2 s2 where lp: "lookup_loop params oh (oh_objcs (c_heads s1 oh)) None None ?sp s1 = Some (found, busy, grace, sp2, s2)"
      "cache_inv heads inv pcre_compile T H V1 s2" "same_cores s1 s2" "sess_ok sp2" "same_sess ?sp sp2"
      "\<And>oc. found = Some oc \<Longrightarrow> found_ok pcre_compile params ?sp s1 (oh_objcs (c_heads s1 oh)) oc"
      "\<And>g t. grace = Some (g, t) \<Longrightarrow> grace_ok pcre_compile params ?sp s1 (oh_objcs (c_heads s1 oh)) g"
      "\<And>oc. busy = Some oc \<Longrightarrow> busy_in s1 (oh_objcs (c_heads s1 oh)) oc"
    unfolding loop_result_def by auto
  note ss = same_sessD [OF lp(5)] and sc = same_coresD [OF lp(3)]
  have w2: "wrk_ok heads w1 s2" by (rule wrk_ok_same [OF en(5) lp(3)])
  have att: "\<exists>c. es_oc s1 oc = Some c \<and> oc_objhead c = Some oh" if "oc \<in> set (oh_objcs (c_heads s1 oh))" for oc
    using hd that unfolding head_ok_def by blast
  have cand: "candidate pcre_compile params sp s oc ob" if a: "candidate pcre_compile params ?sp s1 oc ob" "oc \<in> set (oh_objcs (c_heads s1 oh))" for oc ob
  proof -
    obtain c where "es_oc s1 oc = Some c" "oc_objhead c = Some oh" using att [OF a(2)] by blast
    then show ?thesis using candidate_enter [OF a(1) en(7)] by (simp add: candidate_def)
  qed
  have busy: "\<exists>oc. attached_busy s oc oh True" if b: "busy \<noteq> None"
  proof -
    obtain oc where "busy_in s1 (oh_objcs (c_heads s1 oh)) oc" using b lp(8) by blast
    then obtain c where "es_oc s1 oc = Some c" "oc_objhead c = Some oh" "oc_busy c" using att by (fastforce simp: busy_in_def)
    then show ?thesis using en(7) by (auto simp: enter_frame_def attached_busy_def)
  qed
  have dg: "digest_of (c_heads s1) oh = sp_digest sp" if "sp_hash_objhead sp = None" using en(8) that by simp
  define oc0 where "oc0 = (case (found, grace) of (None, Some (g, _)) \<Rightarrow> if busy \<noteq> None \<or> \<not> healthy (Some g) then Some g else None | _ \<Rightarrow> found)"
  have ans: "oc \<in> set (oh_objcs (c_heads s1 oh)) \<and> answers pcre_compile params sp s oc \<and> (\<exists>ob. object_of s1 oc ob)" if o: "oc0 = Some oc" for oc
  proof -
    consider "found_ok pcre_compile params ?sp s1 (oh_objcs (c_heads s1 oh)) oc" | "grace_ok pcre_compile params ?sp s1 (oh_objcs (c_heads s1 oh)) oc"
      using o lp(6,7) unfolding oc0_def by (auto split: option.splits if_splits)
    then obtain ob where a: "oc \<in> set (oh_objcs (c_heads s1 oh))" "candidate pcre_compile params ?sp s1 oc ob"
        "sp_t_req sp \<le> EXP_Ttl (Some (sp_exp sp)) (o_exp ob) \<or> sp_t_req sp \<le> EXP_Grace (p_exp params) (Some (sp_exp sp)) (o_exp ob)"
      by cases (auto simp: found_ok_def grace_ok_def)
    then show ?thesis using cand [OF a(2,1)] unfolding answers_def by (auto simp: candidate_def)
  qed
  have run: "HSH_Lookup (slinger_of prep lookup deref) params healthy noc noh sp w s =
      (case oc0 of
        Some oc \<Rightarrow>
          if \<not> sp_hash_always_miss sp2 then do {
            s \<leftarrow> hsh_hit (slinger_of prep lookup deref) oh oc s2;
            Some (Some (oc, oh), sp2, w1, s)
          }
          else if busy \<noteq> None then do { (sp, w, s) \<leftarrow> hsh_wait oh sp2 w1 s2; Some (None, sp, w, s) }
          else do { (oc, w, s) \<leftarrow> hsh_miss oh sp2 w1 s2; Some (Some (oc, oh), sp2, w, s) }
      | None \<Rightarrow>
          if busy \<noteq> None then do { (sp, w, s) \<leftarrow> hsh_wait oh sp2 w1 s2; Some (None, sp, w, s) }
          else do { (oc, w, s) \<leftarrow> hsh_miss oh sp2 w1 s2; Some (Some (oc, oh), sp2, w, s) })"
    unfolding HSH_Lookup_def oc0_def using en(1) ref lp(1) by (cases busy; cases found; cases grace) (auto split: option.splits)
  consider (hit) oc where "oc0 = Some oc" "\<not> sp_hash_always_miss sp2" | (wait) "oc0 = None \<or> sp_hash_always_miss sp2" "busy \<noteq> None"
    | (miss) "oc0 = None \<or> sp_hash_always_miss sp2" "busy = None" by (cases oc0) auto
  then show ?thesis
  proof cases
    case (hit oc)
    have a: "oc \<in> set (oh_objcs (c_heads s1 oh))" "answers pcre_compile params sp s oc" "\<exists>ob. object_of s1 oc ob" using ans [OF hit(1)] by blast+
    obtain c where c: "es_oc s1 oc = Some c" "oc_objhead c = Some oh" "\<not> oc_busy c" using a(3) att [OF a(1)] by (auto simp: object_of_def)
    obtain t where t: "es_oc s2 oc = Some (c\<lparr>oc_timer_when := t\<rparr>)" using sc(4) [OF c(1)] by blast
    have "H oc + 2 < 2 ^ 32" using fit by (simp add: refs_fit_def)
    then obtain s' where s': "hsh_hit (slinger_of prep lookup deref) oh oc s2 = Some s'"
        "cache_inv heads inv pcre_compile T (H(oc := H oc + 1)) (V1(oh := V1 oh - 1)) s'" "heads (c_hash s') = heads (c_hash s2)"
        "\<And>a. a \<notin> heads (c_hash s2) \<Longrightarrow> c_heads s' a = c_heads s2 a" "\<And>x. x \<noteq> oc \<Longrightarrow> es_oc s' x = es_oc s2 x"
        "attached_busy s' oc oh False" "digest_of (c_heads s') oh = digest_of (c_heads s2) oh"
      using hit_ok [OF lp(2) en(4) t] c(2,3) by auto
    have "w_nobjcore w1 \<noteq> Some oc" using w2 t c(2) by (auto simp: wrk_ok_def private_core_def)
    then have "wrk_ok heads w1 s'" using s'(3-5) by (intro wrk_ok_frame [OF w2]) auto
    then show ?thesis using run hit s'(1,6,7) s'(2) [unfolded Vd] a(2) dg ss(4) by (simp add: sc(1))
  next
    case wait
    obtain w' s' where s': "hsh_wait oh sp2 w1 s2 = Some (sp2\<lparr>sp_hash_objhead := Some oh\<rparr>, w', s')"
        "cache_inv heads inv pcre_compile T H (if sp_esi_level sp2 = 0 then V1(oh := V1 oh - 1) else V1) s'"
        "w_nobjcore w' = w_nobjcore w1" "w_nobjhead w' = w_nobjhead w1" "es_oc s' = es_oc s2" "c_hash s' = c_hash s2"
        "\<And>a. a \<notin> heads (c_hash s2) \<Longrightarrow> c_heads s' a = c_heads s2 a"
      using wait_ok [OF lp(2) en(4), of w1 sp2] en(6) unfolding wrk_full_def by blast
    have "wrk_ok heads w' s'" using s'(3-7) by (intro wrk_ok_frame [OF w2]) auto
    moreover have "V1 = (sess_dropped sp V)(oh := sess_dropped sp V oh + 1)" using en(4) unfolding Vd [symmetric] by auto
    ultimately show ?thesis using run wait s'(1) s'(2) [unfolded Vd] busy [OF wait(2)] ss(6) by (auto split: option.splits)
  next
    case miss
    obtain oc w' s' where s': "hsh_miss oh sp2 w1 s2 = Some (oc, w', s')"
        "cache_inv heads inv pcre_compile T (H(oc := H oc + 1)) (V1(oh := V1 oh - 1)) s'" "H oc = 0"
        "fresh_core s' oc oh" "w_nobjcore w' = None" "w_nobjhead w' = w_nobjhead w1" "c_hash s' = c_hash s2"
        "\<And>a. a \<notin> heads (c_hash s2) \<Longrightarrow> c_heads s' a = c_heads s2 a" "digest_of (c_heads s') oh = digest_of (c_heads s2) oh"
      using miss_ok [OF lp(2) en(4) w2 en(6) lp(4)] unfolding fresh_core_def by auto
    have "wrk_ok heads w' s'" using s'(5-8) by (intro wrk_ok_frame [OF w2]) auto
    then show ?thesis using run miss s'(1,3,4,9) s'(2) [unfolded Vd] dg ss(4) by (auto simp: sc(1) split: option.splits)
  qed
qed

lemma Deref_more_ok:
  assumes inv: "cache_inv heads inv pcre_compile T H V s" and c: "es_oc s oc = Some c" "oc_objhead c = Some oh" and H: "0 < H oc"
    and r: "oc_refcnt c \<noteq> 1" "\<not> oc_busy c" and arg: "oc0 = Some oc \<and> oo = None \<or> oc0 = None \<and> (\<exists>b ob. oo = Some b \<and> es_ob s b = Some ob \<and> o_objcore ob = Some oc)"
  shows "\<exists>s' n. HSH_Deref (slinger_of prep lookup deref) params refuse oc0 oo w s = Some (oc_refcnt c - 1, w, s') \<and>
    cache_inv heads inv pcre_compile T (H(oc := H oc - 1)) (V(oh := V oh + n)) s' \<and>
    es_oc s' = (es_oc s)(oc \<mapsto> c\<lparr>oc_refcnt := oc_refcnt c - 1\<rparr>) \<and> c_hash s' = c_hash s \<and>
    (\<forall>a. a \<noteq> oh \<longrightarrow> c_heads s' a = c_heads s a) \<and> es_heap s' = es_heap s"
proof -
  note i = cache_invD [OF inv]
  have oh: "oh \<in> heads (c_hash s)" "oc \<in> set (oh_objcs (c_heads s oh))" and ck: "core_ok H s oc c" using i(6) [OF c] by blast+
  have hd: "head_ok V s oh" using i(4) oh(1) by blast
  have m: "oc_methods c" and pos: "0 < oc_refcnt c" using ck r by (auto simp: core_ok_def)
  have r1: "unat (oc_refcnt c - 1) = unat (oc_refcnt c) - 1" "oc_refcnt c - 1 \<noteq> 0" using pos r(1) by (auto simp: unat_minus_one word_gt_0)
  let ?c = "c\<lparr>oc_refcnt := oc_refcnt c - 1\<rparr>"
  let ?s1 = "s\<lparr>es_oc := (es_oc s)(oc \<mapsto> ?c)\<rparr>"
  obtain wl q d n where ru: "(if oh_waitinglist (c_heads ?s1 oh) \<noteq> None then hsh_rush params refuse oh ?s1 else Some ?s1) =
      Some (?s1\<lparr>c_heads := (c_heads s)(oh := (c_heads s oh)\<lparr>oh_waitinglist := wl\<rparr>), c_queued := q, client_drop_late := d\<rparr>)"
      "wl \<noteq> Some []" "length (waiting (c_heads s oh)) = n + length (waiting ((c_heads s oh)\<lparr>oh_waitinglist := wl\<rparr>))"
    using rush_ok [of ?s1 oh params refuse] hd by (auto simp: head_ok_def)
  let ?s = "?s1\<lparr>c_heads := (c_heads s)(oh := (c_heads s oh)\<lparr>oh_waitinglist := wl\<rparr>), c_queued := q, client_drop_late := d\<rparr>"
  have run: "HSH_Deref (slinger_of prep lookup deref) params refuse oc0 oo w s = Some (oc_refcnt c - 1, w, ?s)"
    using arg c m pos r1(2) inv_refcnt [OF i(2) oh(1)] ru(1) by (auto simp: HSH_Deref_def Let_def simp del: not_None_eq)
  have e: "exp_inv ?s" by (rule exp_inv_frame [OF i(1)]) (use c(1) in \<open>auto simp: timer_when_def intro!: oc_getlru_cong\<close>)
  have iv: "inv (c_hash ?s) (c_heads ?s)" using inv_frame [OF i(2), of "c_heads ?s"] by (auto simp: same_hash_part_def)
  have hd': "head_ok (V(oh := V oh + n)) ?s oh" using hd ru(2,3) c unfolding head_ok_def by (auto simp: waiting_def)
  have ck': "core_ok (H(oc := H oc - 1)) ?s oc ?c"
    using ck m H r1 r(2) unfolding core_ok_def by (auto simp: word_gt_0 split: if_splits)
  have "cache_inv heads inv pcre_compile T (H(oc := H oc - 1)) (V(oh := V oh + n)) ?s"
    by (rule cache_inv_core [OF inv e, where oh = oh and oc = oc and c' = ?c]) (use iv oh hd' ck' c m i(3) in auto)
  then show ?thesis using run by (intro exI [of _ ?s] exI [of _ n]) simp
qed

lemma Deref_last_ok:
  assumes inv: "cache_inv heads inv pcre_compile T H V s" and c: "es_oc s oc = Some c" "oc_objhead c = Some oh" and H: "0 < H oc"
    and r: "oc_refcnt c = 1" and arg: "oc0 = Some oc \<and> oo = None \<or> oc0 = None \<and> (\<exists>b ob. oo = Some b \<and> es_ob s b = Some ob \<and> o_objcore ob = Some oc)"
  shows "\<exists>w' s' n. HSH_Deref (slinger_of prep lookup deref) params refuse oc0 oo w s = Some (0, w', s') \<and>
    cache_inv heads inv pcre_compile T (H(oc := H oc - 1)) (V(oh := V oh + n)) s' \<and> es_oc s' = (es_oc s)(oc := None) \<and>
    w_nobjcore w' = w_nobjcore w \<and> w_nobjhead w' = w_nobjhead w \<and> heads (c_hash s') \<subseteq> heads (c_hash s) \<and>
    (\<forall>a. a \<noteq> oh \<longrightarrow> c_heads s' a = c_heads s a) \<and> (\<forall>b. oc_priv c = Some b \<longrightarrow> oc_methods c \<longrightarrow> es_ob s' b = None) \<and>
    es_heap s' = es_heap s"
proof -
  note i = cache_invD [OF inv]
  have oh: "oh \<in> heads (c_hash s)" "oc \<in> set (oh_objcs (c_heads s oh))" and ck: "core_ok H s oc c" using i(6) [OF c] by blast+
  have hd: "head_ok V s oh" using i(4) oh(1) by blast
  have off: "oc \<notin> on_heap s" "H oc = 1" using ck r H by (auto simp: core_ok_def split: if_splits)
  let ?c = "c\<lparr>oc_refcnt := 0\<rparr>" and ?l = "remove1 oc (oh_objcs (c_heads s oh))"
  let ?s1 = "s\<lparr>es_oc := (es_oc s)(oc \<mapsto> ?c), c_heads := (c_heads s)(oh := (c_heads s oh)\<lparr>oh_objcs := ?l\<rparr>)\<rparr>"
  obtain wl q d n where ru: "(if oh_waitinglist (c_heads ?s1 oh) \<noteq> None then hsh_rush params refuse oh ?s1 else Some ?s1) =
      Some (?s1\<lparr>c_heads := (c_heads ?s1)(oh := (c_heads ?s1 oh)\<lparr>oh_waitinglist := wl\<rparr>), c_queued := q, client_drop_late := d\<rparr>)"
      "wl \<noteq> Some []" "length (waiting (c_heads ?s1 oh)) = n + length (waiting ((c_heads ?s1 oh)\<lparr>oh_waitinglist := wl\<rparr>))"
    using rush_ok [of ?s1 oh params refuse] hd by (auto simp: head_ok_def)
  let ?h = "(c_heads s oh)\<lparr>oh_objcs := ?l, oh_waitinglist := wl\<rparr>"
  let ?hs = "(c_heads s)(oh := ?h)"
  obtain bans where bn: "BAN_DestroyObj oc (c_bans s) = Some bans" "ban_inv pcre_compile T bans" "oc_ban bans = (oc_ban (c_bans s))(oc := None)"
    using BAN_DestroyObj_ok [OF i(3)] by blast
  have iv1: "inv (c_hash s) ?hs" using inv_frame [OF i(2), of ?hs] by (auto simp: same_hash_part_def)
  have ref: "0 < oh_refcnt (?hs oh)" using inv_refcnt [OF iv1 oh(1)] .
  have len: "oh_refcnt ?h = int (length ?l + 1 + length (waiting ?h) + (V oh + n))"
    using hd ru(3) length_pos_if_in_set [OF oh(2)] by (simp add: head_ok_def waiting_def length_remove1 oh(2))
  obtain st k where st: "deref (c_hash s) ?hs oh = Some (st, oh_add_ref ?hs oh (-1), k)" "inv st (oh_add_ref ?hs oh (-1))"
      "(1 < oh_refcnt ?h \<and> k \<and> heads st = heads (c_hash s)) \<or>
       (oh_refcnt ?h = 1 \<and> heads st = heads (c_hash s) - {oh} \<and> ?l = [] \<and> wl = None \<and> V oh + n = 0)"
  proof (cases "1 < oh_refcnt ?h")
    case True
    then show ?thesis using that deref_more [OF iv1 oh(1)] by fastforce
  next
    case False
    then have one: "oh_refcnt ?h = 1" using ref by simp
    then have "length ?l + length (waiting ?h) + (V oh + n) = 0" using len by linarith
    then have "?l = [] \<and> waiting ?h = [] \<and> V oh + n = 0" unfolding add_is_0 length_0_conv by blast
    then show ?thesis using that deref_last [OF iv1 oh(1)] one ru(2) by (auto simp: waiting_def split: option.splits)
  qed
  obtain b ob where ob: "oc_methods c \<Longrightarrow> oc_priv c = Some b \<and> es_ob s b = Some ob \<and> o_objcore ob = Some oc"
    using core_object [OF inv c] by blast
  let ?obs = "if oc_methods c then (es_ob s)(b := None) else es_ob s"
  let ?s = "s\<lparr>es_oc := (es_oc s)(oc := None), es_ob := ?obs, c_hash := st, c_heads := oh_add_ref ?hs oh (-1), c_bans := bans, c_queued := q, client_drop_late := d\<rparr>"
  have bz: "oc_busyobj c \<noteq> None \<longleftrightarrow> oc_busy c" using ck by (simp add: core_ok_def)
  have "\<exists>w'. HSH_Deref (slinger_of prep lookup deref) params refuse oc0 oo w s = Some (0, w', ?s) \<and>
      w_nobjcore w' = w_nobjcore w \<and> w_nobjhead w' = w_nobjhead w"
  proof -
    have del: "HSH_DeleteObjHead oh w' s' = Some (w'\<lparr>n_objecthead := n_objecthead w' - 1\<rparr>)" if "c_heads s' = oh_add_ref ?hs oh (-1)" "\<not> k"
      for w' and s' :: "'st cache"
      using st(3) that by (auto simp: HSH_DeleteObjHead_def)
    have arg': "assert_c (oc0 = None \<or> oo = None) = Some ()"
        "(case oo of None \<Rightarrow> Some oc0 | Some b \<Rightarrow> do { ob \<leftarrow> es_ob s b; Some (o_objcore ob) }) = Some (Some oc)"
      using arg by auto
    have "?hs oh = ?h" "oh_refcnt ?h = oh_refcnt (c_heads s oh)" by simp_all
    then show ?thesis
      unfolding HSH_Deref_def arg' Let_def using c ref ru(1) oh(2) r bn st(1) ob bz
      by (cases "oc_methods c"; cases "oc_busy c"; cases k) (auto simp: oc_freeobj_def del fun_upd_twist simp del: not_None_eq)
  qed
  then obtain w' where "HSH_Deref (slinger_of prep lookup deref) params refuse oc0 oo w s = Some (0, w', ?s)"
      "w_nobjcore w' = w_nobjcore w" "w_nobjhead w' = w_nobjhead w" by blast
  moreover have "cache_inv heads inv pcre_compile T (H(oc := H oc - 1)) (V(oh := V oh + n)) ?s"
  proof (rule cache_inv_free [OF inv, where oc = oc and c = c and oh = oh])
    show "heads (c_hash ?s) = heads (c_hash s) \<and> head_ok (V(oh := V oh + n)) ?s oh \<or>
      heads (c_hash ?s) = heads (c_hash s) - {oh} \<and> (V(oh := V oh + n)) oh = 0 \<and> set (oh_objcs (c_heads s oh)) = {oc}"
      using st(3)
    proof
      assume a: "1 < oh_refcnt ?h \<and> k \<and> heads st = heads (c_hash s)"
      have "head_ok (V(oh := V oh + n)) ?s oh"
        using hd len ru(2) unfolding head_ok_def by (auto simp: waiting_def)
      then show ?thesis using a by simp
    next
      assume a: "oh_refcnt ?h = 1 \<and> heads st = heads (c_hash s) - {oh} \<and> ?l = [] \<and> wl = None \<and> V oh + n = 0"
      then show ?thesis using oh(2) by (cases "oh_objcs (c_heads s oh)") (auto split: if_splits)
    qed
    show "set (oh_objcs (c_heads ?s oh)) = set (oh_objcs (c_heads s oh)) - {oc}" using hd by (simp add: head_ok_def)
    show "x \<noteq> oc \<Longrightarrow> es_ob s y = Some z \<Longrightarrow> o_objcore z = Some x \<Longrightarrow> es_ob ?s y = Some z" for x y z using ob by auto
  qed (use c off bn st in auto)
  moreover have "heads st \<subseteq> heads (c_hash s)" using st(3) by auto
  ultimately show ?thesis using ob by (intro exI [of _ w'] exI [of _ ?s] exI [of _ n]) auto
qed

end

end
