(* ===== verification/Object_Life.thy ===== *)
theory Object_Life
  imports Object_Refs
begin

text \<open>
  The life of an object, across \<^verbatim>\<open>cache_hash.c\<close>, \<^verbatim>\<open>cache_expire.c\<close>, \<^verbatim>\<open>cache_ban.c\<close> and
  \<^verbatim>\<open>stevedore.c\<close>: a lookup that misses makes a busy object core, the fetch makes an object for it,
  enters it on the expiry heap and its LRU list and then releases it to other sessions; sessions take and drop
  references; the expiry thread and the LRU drop the last one. Every one of these operations keeps the
  invariant \<open>cache_inv\<close> of \<^verbatim>\<open>Object_Refs\<close>, for every hash implementation.
\<close>

subsection \<open>Making the object\<close>

text \<open>
  \<open>STV_MkObject\<close> of \<^verbatim>\<open>stevedore.c\<close>. The size of \<open>struct object\<close> is a parameter, \<open>lru\<close> the list of the
  stevedore that owns the storage at \<open>ptr\<close>; \<open>oc\<close> is \<open>sp->objcore\<close>, whose reference moves to the object.
\<close>

record stv_objsecrets =
  soc_nhttp :: nat
  soc_lhttp :: u32
  soc_wsl :: u32
  soc_exp :: exp

definition HTTP_create :: "nat \<Rightarrow> http" where
  "HTTP_create nhttp = \<lparr>h_logtag = HTTP_NoTag, h_hd = replicate nhttp no_txt, h_hdf = replicate nhttp 0,
     h_nhd = 0, h_status = 0, h_protover = 0, h_conds = 0\<rparr>"

definition STV_MkObject :: "u64 \<Rightarrow> stv_objsecrets \<Rightarrow> u64 \<Rightarrow> u32 \<Rightarrow> lru_ref \<Rightarrow> oc_ref option \<Rightarrow> wrk \<Rightarrow> 'h cache \<Rightarrow>
    (ob_ref \<times> wrk \<times> 'h cache) option" where
  "STV_MkObject sizeof_object soc ptr ltot lru oc w s = do {
     assert_c (PAOK ptr);
     assert_c (PAOK (ucast (soc_wsl soc)));
     assert_c (PAOK (ucast (soc_lhttp soc)));
     assert_c (ucast ltot \<ge> sizeof_object + ucast (soc_lhttp soc) + ucast (soc_wsl soc));
     let l = (ucast (PRNDDN (ucast ltot - (sizeof_object + ucast (soc_lhttp soc)))) :: u32);
     assert_c (l \<ge> soc_wsl soc);
     ws \<leftarrow> WS_Init (ptr + sizeof_object + ucast (soc_lhttp soc)) (soc_wsl soc);
     assert_c (WS_Assert ws);
     assert_c (ws_e ws \<le> ptr + ucast ltot);
     let b = unat ptr;
     let ob = \<lparr>o_objcore = oc, o_lru = lru, o_vary = None, o_hits = 0, o_exp = soc_exp soc, o_last_lru = 0,
              o_http = http_Setup (HTTP_create (soc_nhttp soc)), o_overflow = False\<rparr>;
     let w = w\<lparr>n_object := n_object w + 1\<rparr>;
     (case oc of
        None \<Rightarrow> Some (b, w, s\<lparr>es_ob := (es_ob s)(b \<mapsto> ob)\<rparr>)
      | Some oc \<Rightarrow> do {
          c \<leftarrow> es_oc s oc;
          bans \<leftarrow> BAN_NewObjCore oc (c_bans s);
          Some (b, w, s\<lparr>es_oc := (es_oc s)(oc \<mapsto> c\<lparr>oc_methods := True, oc_priv := Some b\<rparr>),
            es_ob := (es_ob s)(b \<mapsto> ob), c_bans := bans\<rparr>)
        })
   }"

text \<open>What \<open>STV_NewObject\<close> guarantees of the sizes it passes on.\<close>

definition mk_fits :: "u64 \<Rightarrow> stv_objsecrets \<Rightarrow> u64 \<Rightarrow> u32 \<Rightarrow> bool" where
  "mk_fits sizeof_object soc ptr ltot \<longleftrightarrow> ptr \<noteq> NULL \<and> PAOK ptr \<and> PAOK sizeof_object \<and> PAOK (ucast (soc_lhttp soc)) \<and> PAOK (ucast (soc_wsl soc)) \<and>
     0 < soc_wsl soc \<and> unat sizeof_object + unat (soc_lhttp soc) + unat (soc_wsl soc) \<le> unat ltot \<and> unat ptr + 2 ^ 34 \<le> 2 ^ 64 \<and>
     HTTP_HDR_FIRST \<le> soc_nhttp soc"

lemma mk_fits_room:
  assumes "mk_fits sizeof_object soc ptr ltot"
  shows "sizeof_object + ucast (soc_lhttp soc) + ucast (soc_wsl soc) \<le> ucast ltot"
    "soc_wsl soc \<le> (ucast (PRNDDN (ucast ltot - (sizeof_object + ucast (soc_lhttp soc)))) :: u32)"
    "\<exists>ws. WS_Init (ptr + sizeof_object + ucast (soc_lhttp soc)) (soc_wsl soc) = Some ws \<and> WS_Assert ws \<and> ws_e ws \<le> ptr + ucast ltot"
proof -
  let ?z = "unat sizeof_object" and ?h = "unat (soc_lhttp soc)" and ?w = "unat (soc_wsl soc)" and ?t = "unat ltot"
  have a: "8 dvd unat ptr" "8 dvd ?z" "8 dvd ?h" "8 dvd ?w" "0 < ?w" "?z + ?h + ?w \<le> ?t" "unat ptr + 2 ^ 34 \<le> 2 ^ 64" "ptr \<noteq> NULL"
    using assms by (auto simp: mk_fits_def PAOK_dvd word_less_nat_alt)
  have t: "?t < 2 ^ 32" "?h < 2 ^ 32" "?w < 2 ^ 32" using unsigned_less [of ltot] unsigned_less [of "soc_lhttp soc"] unsigned_less [of "soc_wsl soc"] by simp_all
  have u: "unat (ucast ltot :: u64) = ?t" "unat (ucast (soc_lhttp soc) :: u64) = ?h" "unat (ucast (soc_wsl soc) :: u64) = ?w"
    by simp_all
  have lim: "?z + ?h < 2 ^ 64" "?z + ?h + ?w < 2 ^ 64" "unat ptr + ?z < 2 ^ 64" "unat ptr + ?z + ?h < 2 ^ 64" "unat ptr + ?t < 2 ^ 64"
    "unat ptr + ?z + ?h + 2 ^ 33 \<le> 2 ^ 64"
    using a(6,7) t(1) by (simp_all del: unat_u32_bound)
  have zh: "unat (sizeof_object + ucast (soc_lhttp soc)) = ?z + ?h" using lim(1) by (subst unat_add_nowrap) (simp_all add: u)
  have zhw: "unat (sizeof_object + ucast (soc_lhttp soc) + ucast (soc_wsl soc)) = ?z + ?h + ?w" using lim(2) by (subst unat_add_nowrap) (simp_all add: u zh)
  show "sizeof_object + ucast (soc_lhttp soc) + ucast (soc_wsl soc) \<le> ucast ltot" using a by (simp add: word_le_nat_alt u zhw)
  have d: "unat (ucast ltot - (sizeof_object + ucast (soc_lhttp soc)) :: u64) = ?t - (?z + ?h)"
    using a by (subst unat_sub) (simp_all add: word_le_nat_alt u zh)
  have p: "unat (PRNDDN (ucast ltot - (sizeof_object + ucast (soc_lhttp soc)))) = 8 * ((?t - (?z + ?h)) div 8)" by (simp add: unat_PRNDDN d)
  then have "unat (ucast (PRNDDN (ucast ltot - (sizeof_object + ucast (soc_lhttp soc)))) :: u32) = 8 * ((?t - (?z + ?h)) div 8)"
    using mod_less [of "8 * ((?t - (?z + ?h)) div 8)" "2 ^ 32"] le_less_trans [OF _ t(1), of "8 * ((?t - (?z + ?h)) div 8)"]
    by (simp add: unat_ucast_down32)
  moreover have "?w \<le> 8 * ((?t - (?z + ?h)) div 8)"
  proof -
    obtain k where k: "?w = 8 * k" using a(4) by (auto elim: dvdE)
    have "8 * k \<le> ?t - (?z + ?h)" using a(6) k by linarith
    then have "k \<le> (?t - (?z + ?h)) div 8" by (simp add: less_eq_div_iff_mult_less_eq mult.commute)
    then show ?thesis using k by simp
  qed
  ultimately show "soc_wsl soc \<le> (ucast (PRNDDN (ucast ltot - (sizeof_object + ucast (soc_lhttp soc)))) :: u32)"
    by (simp add: word_le_nat_alt)
  have s1: "unat (ptr + sizeof_object) = unat ptr + ?z" using lim(3) by (subst unat_add_nowrap) simp_all
  have s: "unat (ptr + sizeof_object + ucast (soc_lhttp soc)) = unat ptr + ?z + ?h" using lim(4) by (subst unat_add_nowrap) (simp_all add: u s1)
  have pos: "ptr + sizeof_object + ucast (soc_lhttp soc) \<noteq> NULL" using s a(8) by (metis add_is_0 unat_eq_zero unsigned_0)
  obtain ws where ws: "WS_Init (ptr + sizeof_object + ucast (soc_lhttp soc)) (soc_wsl soc) = Some ws" "ws_ok ws" "unat (ws_e ws) = unat ptr + ?z + ?h + ?w"
    using WS_Init_ok [OF pos, of "soc_wsl soc"] a lim(6) by (auto simp: PAOK_dvd s u)
  moreover have "unat (ptr + ucast ltot) = unat ptr + ?t" using lim(5) by (subst unat_add_nowrap) (simp_all add: u)
  ultimately show "\<exists>ws. WS_Init (ptr + sizeof_object + ucast (soc_lhttp soc)) (soc_wsl soc) = Some ws \<and> WS_Assert ws \<and> ws_e ws \<le> ptr + ucast ltot"
    using a by (auto simp: word_le_nat_alt ws_ok_def)
qed

lemma created_full: "HTTP_HDR_FIRST \<le> n \<Longrightarrow> http_full (http_Setup (HTTP_create n))"
  by (simp add: http_full_def http_ok_def http_Setup_def HTTP_create_def h_slots_def)

lemma STV_MkObject_ok:
  assumes inv: "cache_inv heads hinv pcre_compile T H V s" and fits: "mk_fits sizeof_object soc ptr ltot"
    and c: "es_oc s oc = Some c" "oc_objhead c = Some oh" "oc_busy c" "\<not> oc_methods c" and fr: "es_ob s (unat ptr) = None"
  shows "\<exists>w' s'. STV_MkObject sizeof_object soc ptr ltot lru (Some oc) w s = Some (unat ptr, w', s') \<and>
    cache_inv heads hinv pcre_compile T H V s' \<and> es_heap s' = es_heap s \<and> c_heads s' = c_heads s \<and> c_hash s' = c_hash s \<and>
    (\<exists>c' ob. es_oc s' oc = Some c' \<and> oc_busy c' \<and> oc_methods c' \<and> oc_priv c' = Some (unat ptr) \<and> oc_objhead c' = Some oh \<and>
       es_ob s' (unat ptr) = Some ob \<and> o_objcore ob = Some oc \<and> o_exp ob = soc_exp soc) \<and>
    w_nbusyobj w' = w_nbusyobj w"
proof -
  note i = cache_invD [OF inv]
  let ?b = "unat ptr"
  let ?ob = "\<lparr>o_objcore = Some oc, o_lru = lru, o_vary = None, o_hits = 0, o_exp = soc_exp soc, o_last_lru = 0,
     o_http = http_Setup (HTTP_create (soc_nhttp soc)), o_overflow = False\<rparr>"
  let ?c = "c\<lparr>oc_methods := True, oc_priv := Some ?b\<rparr>"
  obtain bans where bn: "BAN_NewObjCore oc (c_bans s) = Some bans" "ban_inv pcre_compile T bans" "oc_ban bans = (oc_ban (c_bans s))(oc := bl_start (c_bans s))"
    using BAN_NewObjCore_ok [OF i(3), of oc] i(8) [of oc] c(1,4) by auto
  let ?s = "s\<lparr>es_oc := (es_oc s)(oc \<mapsto> ?c), es_ob := (es_ob s)(?b \<mapsto> ?ob), c_bans := bans\<rparr>"
  have st: "bl_start (c_bans s) \<noteq> None" using ban_invD(3) [OF i(3)] by simp
  have run: "STV_MkObject sizeof_object soc ptr ltot lru (Some oc) w s = Some (?b, w\<lparr>n_object := n_object w + 1\<rparr>, ?s)"
    using mk_fits_room [OF fits] fits c(1) bn(1) by (auto simp: STV_MkObject_def mk_fits_def Let_def)
  have oh: "oh \<in> heads (c_hash s)" "oc \<in> set (oh_objcs (c_heads s oh))" and ck: "core_ok H s oc c" using i(6) [OF c(1,2)] by blast+
  have off: "oc \<notin> on_heap s" using exp_invD(4) [OF i(1), of oc] c(1,4) by (auto simp: oc_getlru_eq_Some)
  have e: "exp_inv ?s"
    by (rule exp_inv_keep [OF i(1)]) (use off fr in auto)
  have ck': "core_ok H ?s oc ?c"
    using ck c(3,4) st bn(3) fits created_full [of "soc_nhttp soc"] off by (auto simp: core_ok_def mk_fits_def)
  have hd: "head_ok V ?s oh" by (rule head_ok_cong [OF i(4) [OF oh(1)]]) (use c in auto)
  have "cache_inv heads hinv pcre_compile T H V ?s"
    by (rule cache_inv_core [OF inv e, where oh = oh and oc = oc and c' = ?c]) (use oh hd ck' c i(2) bn fr in auto)
  then show ?thesis using run c(2,3) by (intro exI [of _ "w\<lparr>n_object := n_object w + 1\<rparr>"] exI [of _ ?s]) simp
qed

subsection \<open>Entering it\<close>

text \<open>The expiry heap holds a reference of its own.\<close>

lemma EXP_Insert_cache:
  assumes inv: "cache_inv heads hinv pcre_compile T H V s" and c: "es_oc s oc = Some c" "oc_objhead c = Some oh" "oc_busy c" "oc_methods c" "oc_priv c = Some b"
    and ob: "es_ob s b = Some ob" "e_entered (o_exp ob) \<noteq> 0" and oc: "oc \<notin> on_heap s" and room: "heap_room s" and fit: "H oc + 2 < 2 ^ 32"
  shows "\<exists>s'. EXP_Insert params fresh b s = Some s' \<and> cache_inv heads hinv pcre_compile T H V s' \<and> on_heap s' = insert oc (on_heap s) \<and>
    c_heads s' = c_heads s \<and> c_hash s' = c_hash s \<and> (\<forall>x. x \<noteq> oc \<longrightarrow> es_oc s' x = es_oc s x) \<and>
    (\<exists>c' ob'. es_oc s' oc = Some c' \<and> oc_busy c' \<and> oc_methods c' \<and> oc_priv c' = Some b \<and> oc_objhead c' = Some oh \<and>
       es_ob s' b = Some ob' \<and> o_exp ob' = o_exp ob)"
proof -
  note i = cache_invD [OF inv]
  have oh: "oh \<in> heads (c_hash s)" "oc \<in> set (oh_objcs (c_heads s oh))" and ck: "core_ok H s oc c" using i(6) [OF c(1,2)] by blast+
  have co: "o_objcore ob = Some oc" using core_object [OF inv c(1,2,4)] c(5) ob(1) by auto
  let ?c = "c\<lparr>oc_refcnt := oc_refcnt c + 1, oc_timer_when := exp_when params (o_exp ob)\<rparr>"
  let ?s = "\<lambda>h. s\<lparr>es_oc := (es_oc s)(oc \<mapsto> ?c), es_ob := (es_ob s)(b \<mapsto> ob\<lparr>o_last_lru := e_entered (o_exp ob)\<rparr>),
      es_heap := h, es_lru := (es_lru s)(o_lru ob := es_lru s (o_lru ob) @ [oc])\<rparr>"
  have "0 < oc_refcnt c" "oc_objhead c \<noteq> None" using ck c(2) by (auto simp: core_ok_def)
  then obtain h where h: "EXP_Insert params fresh b s = Some (?s h)" "bh_members h = insert oc (on_heap s)" "exp_inv (?s h)"
    using EXP_Insert_ok [OF i(1) ob(1) co c(1,3) _ _ c(4,5) ob(2) oc room, of params fresh] by auto
  have "unat (oc_refcnt c + 1) = unat (oc_refcnt c) + 1"
    using ck fit oc by (subst unat_add_nowrap) (auto simp: core_ok_def)
  then have ck': "core_ok H (?s h) oc ?c" using ck ob(1) c oc h(2) unfolding core_ok_def by (auto simp: word_less_nat_alt)
  have hd: "head_ok V (?s h) oh" by (rule head_ok_cong [OF i(4) [OF oh(1)]]) (use c in auto)
  have "cache_inv heads hinv pcre_compile T H V (?s h)"
    by (rule cache_inv_core [OF inv h(3), where oh = oh and oc = oc and c' = ?c]) (use oh hd ck' c i(2,3) h(2) ob(1) co in auto)
  then show ?thesis using h(1,2) c by (intro exI [of _ "?s h"]) simp
qed

context hash_slinger
begin

text \<open>The object is there for other sessions, and those that wait for it are woken.\<close>

lemma Unbusy_ok:
  assumes inv: "cache_inv heads inv pcre_compile T H V s" and c: "es_oc s oc = Some c" "oc_objhead c = Some oh" "oc_busy c" "oc_methods c" "oc_priv c = Some b"
    and w: "w_nbusyobj w = None"
  shows "\<exists>w' s' n. HSH_Unbusy params refuse b w s = Some (w', s') \<and> cache_inv heads inv pcre_compile T H (V(oh := V oh + n)) s' \<and>
    attached_busy s' oc oh False \<and> w_nobjcore w' = w_nobjcore w \<and> w_nobjhead w' = w_nobjhead w \<and> c_hash s' = c_hash s \<and>
    (\<forall>a. a \<noteq> oh \<longrightarrow> c_heads s' a = c_heads s a) \<and> (\<forall>x. x \<noteq> oc \<longrightarrow> es_oc s' x = es_oc s x) \<and> es_ob s' = es_ob s \<and> es_heap s' = es_heap s \<and>
    map_option oc_priv (es_oc s' oc) = Some (Some b)"
proof -
  note i = cache_invD [OF inv]
  have oh: "oh \<in> heads (c_hash s)" "oc \<in> set (oh_objcs (c_heads s oh))" and ck: "core_ok H s oc c" using i(6) [OF c(1,2)] by blast+
  have hd: "head_ok V s oh" using i(4) oh(1) by blast
  obtain ob where ob: "es_ob s b = Some ob" "o_objcore ob = Some oc" "oc_ban (c_bans s) oc \<noteq> None"
    using core_object [OF inv c(1,2,4)] c(3,5) by auto
  have nb: "(oc_flags c AND NOT OC_F_BUSY) AND OC_F_BUSY = 0" by (simp add: and.assoc)
  let ?c = "c\<lparr>oc_flags := oc_flags c AND NOT OC_F_BUSY, oc_busyobj := None\<rparr>"
  let ?h = "(c_heads s oh)\<lparr>oh_objcs := oc # remove1 oc (oh_objcs (c_heads s oh))\<rparr>"
  let ?s1 = "s\<lparr>c_heads := (c_heads s)(oh := ?h), es_oc := (es_oc s)(oc \<mapsto> ?c)\<rparr>"
  obtain wl q d n where ru: "(if oh_waitinglist (c_heads ?s1 oh) \<noteq> None then hsh_rush params refuse oh ?s1 else Some ?s1) =
      Some (?s1\<lparr>c_heads := (c_heads ?s1)(oh := ?h\<lparr>oh_waitinglist := wl\<rparr>), c_queued := q, client_drop_late := d\<rparr>)"
      "wl \<noteq> Some []" "length (waiting ?h) = n + length (waiting (?h\<lparr>oh_waitinglist := wl\<rparr>))"
    using rush_ok [of ?s1 oh params refuse] hd by (auto simp: head_ok_def)
  let ?s = "?s1\<lparr>c_heads := (c_heads ?s1)(oh := ?h\<lparr>oh_waitinglist := wl\<rparr>), c_queued := q, client_drop_late := d\<rparr>"
  let ?w = "(if o_overflow ob then w\<lparr>n_objoverflow := n_objoverflow w + 1\<rparr> else w)\<lparr>w_nbusyobj := oc_busyobj c\<rparr>"
  have "0 < oc_refcnt c" using ck by (simp add: core_ok_def)
  then have run: "HSH_Unbusy params refuse b w s = Some (?w, ?s)"
    using c ob oh(2) w inv_refcnt [OF i(2) oh(1)] ru(1) nb
    by (auto simp: HSH_Unbusy_def AssertObjBusy_def oc_getobj_def Let_def simp del: not_None_eq)
  have e: "exp_inv ?s" by (rule exp_inv_frame [OF i(1)]) (use c(1) in \<open>auto simp: timer_when_def intro!: oc_getlru_cong\<close>)
  have iv: "inv (c_hash ?s) (c_heads ?s)" using inv_frame [OF i(2), of "c_heads ?s"] by (auto simp: same_hash_part_def)
  have hd': "head_ok (V(oh := V oh + n)) ?s oh"
    using hd ru(2,3) c oh(2) length_pos_if_in_set [OF oh(2)] unfolding head_ok_def by (auto simp: waiting_def length_remove1)
  have ck': "core_ok H ?s oc ?c" using ck c nb unfolding core_ok_def by auto
  have "cache_inv heads inv pcre_compile T H (V(oh := V oh + n)) ?s"
    by (rule cache_inv_core [OF inv e, where oh = oh and oc = oc and c' = ?c]) (use iv oh hd' ck' c i(3) hd in \<open>auto simp: head_ok_def\<close>)
  then show ?thesis using run c(2,5) nb by (intro exI [of _ ?w] exI [of _ ?s] exI [of _ n]) (simp add: attached_busy_def)
qed

subsection \<open>Dropping references\<close>

lemma Deref_ok:
  assumes inv: "cache_inv heads inv pcre_compile T H V s" and c: "es_oc s oc = Some c" "oc_objhead c = Some oh" and H: "0 < H oc"
    and busy: "oc_busy c \<longrightarrow> oc_refcnt c = 1"
    and arg: "oc0 = Some oc \<and> oo = None \<or> oc0 = None \<and> (\<exists>b ob. oo = Some b \<and> es_ob s b = Some ob \<and> o_objcore ob = Some oc)"
  shows "\<exists>r w' s' n. HSH_Deref (slinger_of prep lookup deref) params refuse oc0 oo w s = Some (r, w', s') \<and>
    unat r = H oc - 1 + (if oc \<in> on_heap s then 1 else 0) \<and>
    cache_inv heads inv pcre_compile T (H(oc := H oc - 1)) (V(oh := V oh + n)) s' \<and> (r = 0 \<longleftrightarrow> es_oc s' oc = None) \<and>
    (\<forall>x. x \<noteq> oc \<longrightarrow> es_oc s' x = es_oc s x) \<and> w_nobjcore w' = w_nobjcore w \<and> w_nobjhead w' = w_nobjhead w \<and>
    heads (c_hash s') \<subseteq> heads (c_hash s) \<and> (\<forall>a. a \<noteq> oh \<longrightarrow> c_heads s' a = c_heads s a) \<and> es_heap s' = es_heap s"
proof -
  have ck: "core_ok H s oc c" using cache_invD(6) [OF inv c] by blast
  then have ref: "unat (oc_refcnt c) = H oc + (if oc \<in> on_heap s then 1 else 0)" by (simp add: core_ok_def)
  show ?thesis
  proof (cases "oc_refcnt c = 1")
    case True
    then have "unat (oc_refcnt c) = 1" by simp
    then have "H oc - 1 + (if oc \<in> on_heap s then 1 else 0) = 0" using ref H by (auto split: if_splits)
    then show ?thesis using Deref_last_ok [OF inv c H True arg, of params refuse w] by fastforce
  next
    case False
    have "oc_refcnt c \<noteq> 0" using ck by (auto simp: core_ok_def)
    then have u: "unat (oc_refcnt c - 1) = unat (oc_refcnt c) - 1" by (simp add: unat_minus_one)
    have "oc_refcnt c - 1 \<noteq> 0" using False by auto
    then show ?thesis using Deref_more_ok [OF inv c H False _ arg, of params refuse w] busy False ref H u by fastforce
  qed
qed

end

subsection \<open>Expiry and the LRU\<close>

text \<open>
  Both take an object core off the heap and its list, so that the heap's reference is theirs, and then drop it.
\<close>

definition cache_deref :: "'h slinger \<Rightarrow> hsh_params \<Rightarrow> (sess_ref \<Rightarrow> bool) \<Rightarrow> wrk \<Rightarrow> oc_ref option \<Rightarrow> ob_ref option \<Rightarrow> 'h cache \<Rightarrow> 'h cache option" where
  "cache_deref hash params refuse w oc oo s = do { (r, w, s) \<leftarrow> HSH_Deref hash params refuse oc oo w s; Some s }"

lemma pulled_ok:
  assumes inv: "cache_inv heads hinv pcre_compile T H V s" and oc: "oc \<in> on_heap s" and p: "pulled oc s s1"
  shows "cache_inv heads hinv pcre_compile T (H(oc := H oc + 1)) V s1"
proof -
  note i = cache_invD [OF inv]
  have e: "exp_inv s1" "on_heap s1 = on_heap s - {oc}" "es_oc s1 = es_oc s" "es_ob s1 = es_ob s" "exp_state.more s1 = exp_state.more s"
    using p by (simp_all add: pulled_def)
  have m: "c_hash s1 = c_hash s" "c_heads s1 = c_heads s" "c_bans s1 = c_bans s" using e(5) by (cases s, cases s1, simp)+
  obtain c oh where c: "es_oc s oc = Some c" "oc_objhead c = Some oh" using i(7) oc by blast
  have oh: "oh \<in> heads (c_hash s)" "oc \<in> set (oh_objcs (c_heads s oh))" and ck: "core_ok H s oc c" using i(6) [OF c] by blast+
  have ck': "core_ok (H(oc := H oc + 1)) s1 oc c" using ck oc unfolding core_ok_def by (auto simp: e m)
  have hd: "head_ok V s1 oh" by (rule head_ok_cong [OF i(4) [OF oh(1)]]) (use c in \<open>auto simp: e m\<close>)
  show ?thesis
    by (rule cache_inv_core [OF inv e(1), where oh = oh and oc = oc and c' = c]) (use oh hd ck' c i(2,3) i(8) [of oc] in \<open>auto simp: e m\<close>)
qed

lemma heap_core:
  assumes inv: "cache_inv heads hinv pcre_compile T H V s" and oc: "oc \<in> on_heap s"
  shows "\<exists>c oh b ob. es_oc s oc = Some c \<and> oc_objhead c = Some oh \<and> oc_methods c \<and> oc_priv c = Some b \<and> es_ob s b = Some ob \<and>
    o_objcore ob = Some oc \<and> unat (oc_refcnt c) = H oc + 1 \<and> (oc_busy c \<longrightarrow> 0 < H oc)"
proof -
  note i = cache_invD [OF inv]
  obtain c oh where c: "es_oc s oc = Some c" "oc_objhead c = Some oh" using i(7) oc by blast
  have m: "oc_methods c" using exp_invD(4) [OF i(1) oc] c(1) by (auto simp: oc_getlru_eq_Some)
  show ?thesis using core_object [OF inv c m] i(6) [OF c] oc c m unfolding core_ok_def by auto
qed

lemma heap_core_single:
  assumes "cache_inv heads hinv pcre_compile T H V s" and "oc \<in> on_heap s"
  shows "map_option oc_refcnt (es_oc s oc) = Some 1 \<longleftrightarrow> H oc = 0"
proof -
  obtain c where c: "es_oc s oc = Some c" "unat (oc_refcnt c) = H oc + 1" using heap_core [OF assms] by blast
  have "oc_refcnt c = 1 \<longleftrightarrow> unat (oc_refcnt c) = 1" by (simp add: word_unat_eq_iff)
  then show ?thesis using c by simp
qed

context hash_slinger
begin

lemma nuke_ok:
  assumes inv: "cache_inv heads inv pcre_compile T H V s"
  shows "case List.find (\<lambda>oc. H oc = 0) (es_lru s l) of
    None \<Rightarrow> EXP_NukeOne (cache_deref (slinger_of prep lookup deref) params refuse w) l s = Some (s, -1)
  | Some oc \<Rightarrow> \<exists>s' V'. EXP_NukeOne (cache_deref (slinger_of prep lookup deref) params refuse w) l s = Some (s', 1) \<and>
      cache_inv heads inv pcre_compile T H V' s' \<and> es_oc s' oc = None \<and> on_heap s' = on_heap s - {oc} \<and>
      (\<forall>x. x \<noteq> oc \<longrightarrow> es_oc s' x = es_oc s x)"
proof -
  note i = cache_invD [OF inv]
  have sub: "x \<in> on_heap s" if "x \<in> set (es_lru s l)" for x using exp_invD(3) [OF i(1)] that by blast
  have find: "List.find (\<lambda>oc. map_option oc_refcnt (es_oc s oc) = Some 1) (es_lru s l) = List.find (\<lambda>oc. H oc = 0) (es_lru s l)"
    by (rule find_cong) (use heap_core_single [OF inv] sub in blast)+
  have busy: "\<not> oc_busy c" if a: "oc \<in> on_heap s" "es_oc s oc = Some c" "oc_refcnt c = 1" for oc c
    using heap_core [OF inv a(1)] a by auto
  have sp: "case List.find (\<lambda>oc. H oc = 0) (es_lru s l) of
    None \<Rightarrow> EXP_NukeOne (cache_deref (slinger_of prep lookup deref) params refuse w) l s = Some (s, -1)
  | Some oc \<Rightarrow> \<exists>b s1. EXP_NukeOne (cache_deref (slinger_of prep lookup deref) params refuse w) l s =
        do { s' \<leftarrow> cache_deref (slinger_of prep lookup deref) params refuse w None (Some b) s1; Some (s', 1) } \<and> pulled oc s s1 \<and>
      oc \<in> on_heap s \<and> map_option oc_priv (es_oc s oc) = Some (Some b)"
    unfolding find [symmetric] using EXP_NukeOne_spec [OF i(1)] busy by blast
  show ?thesis
  proof (cases "List.find (\<lambda>oc. H oc = 0) (es_lru s l)")
    case None
    then show ?thesis using sp by simp
  next
    case (Some oc)
    then obtain b s1 where n: "EXP_NukeOne (cache_deref (slinger_of prep lookup deref) params refuse w) l s =
          do { s' \<leftarrow> cache_deref (slinger_of prep lookup deref) params refuse w None (Some b) s1; Some (s', 1) }"
        "pulled oc s s1" "oc \<in> on_heap s" "map_option oc_priv (es_oc s oc) = Some (Some b)"
      using sp by auto
    have "H oc = 0" using Some by (auto simp: find_Some_iff)
    obtain c oh ob where c: "es_oc s oc = Some c" "oc_objhead c = Some oh" "es_ob s b = Some ob" "o_objcore ob = Some oc" "unat (oc_refcnt c) = H oc + 1"
      using heap_core [OF inv n(3)] n(4) by (metis map_option_eq_Some option.inject)
    have p: "on_heap s1 = on_heap s - {oc}" "es_oc s1 = es_oc s" "es_ob s1 = es_ob s" using n(2) by (simp_all add: pulled_def)
    have r1: "oc_refcnt c = 1" using c(5) \<open>H oc = 0\<close> by (simp add: word_unat_eq_iff)
    obtain r w' s' k where d: "HSH_Deref (slinger_of prep lookup deref) params refuse None (Some b) w s1 = Some (r, w', s')"
        "unat r = 0" "cache_inv heads inv pcre_compile T H (V(oh := V oh + k)) s'" "r = 0 \<longleftrightarrow> es_oc s' oc = None"
        "\<And>x. x \<noteq> oc \<Longrightarrow> es_oc s' x = es_oc s1 x" "es_heap s' = es_heap s1"
      using Deref_ok [OF pulled_ok [OF inv n(3,2)], of oc c oh None "Some b" params refuse w] c r1 \<open>H oc = 0\<close> p by (auto simp: fun_upd_idem)
    have "r = 0" using d(2) by (simp add: unat_eq_zero)
    then show ?thesis using Some n(1) d p by (auto simp: cache_deref_def)
  qed
qed

lemma timer_ok:
  assumes inv: "cache_inv heads inv pcre_compile T H V s"
    and busy: "\<And>oc c. oc \<in> on_heap s \<Longrightarrow> es_oc s oc = Some c \<Longrightarrow> oc_timer_when c \<le> max t now \<Longrightarrow> \<not> oc_busy c"
  shows "(\<exists>t'. exp_timer (cache_deref (slinger_of prep lookup deref) params refuse w) t now trylock s = Some (s, None, t') \<and>
      (trylock \<or> (\<forall>oc \<in> on_heap s. t < timer_when s oc \<and> now < timer_when s oc))) \<or>
    (\<exists>oc s' t' V'. exp_timer (cache_deref (slinger_of prep lookup deref) params refuse w) t now trylock s = Some (s', Some oc, t') \<and>
      oc \<in> on_heap s \<and> timer_when s oc \<le> t' \<and> t' \<in> {t, now} \<and> cache_inv heads inv pcre_compile T H V' s' \<and>
      on_heap s' = on_heap s - {oc} \<and> (es_oc s' oc = None \<longleftrightarrow> H oc = 0) \<and> (\<forall>x. x \<noteq> oc \<longrightarrow> es_oc s' x = es_oc s x))"
proof -
  note i = cache_invD [OF inv]
  have b2: "\<not> oc_busy c \<and> oc_objhead c \<noteq> None" if a: "oc \<in> on_heap s" "es_oc s oc = Some c" "oc_timer_when c \<le> max t now" for oc c
    using heap_core [OF inv a(1)] a busy by auto
  have deref: "\<exists>s' V'. cache_deref (slinger_of prep lookup deref) params refuse w (Some oc) None s1 = Some s' \<and>
      cache_inv heads inv pcre_compile T H V' s' \<and> on_heap s' = on_heap s - {oc} \<and> (es_oc s' oc = None \<longleftrightarrow> H oc = 0) \<and> (\<forall>x. x \<noteq> oc \<longrightarrow> es_oc s' x = es_oc s x)"
    if a: "oc \<in> on_heap s" "timer_when s oc \<le> max t now" "pulled oc s s1" for oc s1
  proof -
    obtain c oh where c: "es_oc s oc = Some c" "oc_objhead c = Some oh" "unat (oc_refcnt c) = H oc + 1" using heap_core [OF inv a(1)] by blast
    have p: "on_heap s1 = on_heap s - {oc}" "es_oc s1 = es_oc s" using a(3) by (simp_all add: pulled_def)
    have nb: "\<not> oc_busy c" using busy [OF a(1) c(1)] a(2) c(1) by (simp add: timer_when_def)
    obtain r w' s' k where d: "HSH_Deref (slinger_of prep lookup deref) params refuse (Some oc) None w s1 = Some (r, w', s')"
        "unat r = H oc" "cache_inv heads inv pcre_compile T H (V(oh := V oh + k)) s'" "r = 0 \<longleftrightarrow> es_oc s' oc = None"
        "\<And>x. x \<noteq> oc \<Longrightarrow> es_oc s' x = es_oc s1 x" "es_heap s' = es_heap s1"
      using Deref_ok [OF pulled_ok [OF inv a(1,3)], of oc c oh "Some oc" None params refuse w] c nb p by (auto simp: fun_upd_idem)
    have "r = 0 \<longleftrightarrow> H oc = 0" using d(2) by (metis unat_eq_zero)
    then show ?thesis using d p by (auto simp: cache_deref_def)
  qed
  have "(\<exists>t'. exp_timer (cache_deref (slinger_of prep lookup deref) params refuse w) t now trylock s = Some (s, None, t') \<and>
      (trylock \<or> (\<forall>oc \<in> on_heap s. t < timer_when s oc \<and> now < timer_when s oc))) \<or>
    (\<exists>oc s1 t'. exp_timer (cache_deref (slinger_of prep lookup deref) params refuse w) t now trylock s =
        do { s' \<leftarrow> cache_deref (slinger_of prep lookup deref) params refuse w (Some oc) None s1; Some (s', Some oc, t') } \<and>
      oc \<in> on_heap s \<and> (\<forall>q \<in> on_heap s. timer_when s oc \<le> timer_when s q) \<and> timer_when s oc \<le> t' \<and> t' \<in> {t, now} \<and> pulled oc s s1)"
    using exp_timer_spec [OF i(1)] b2 by blast
  then consider t' where "exp_timer (cache_deref (slinger_of prep lookup deref) params refuse w) t now trylock s = Some (s, None, t')"
      "trylock \<or> (\<forall>oc \<in> on_heap s. t < timer_when s oc \<and> now < timer_when s oc)"
    | oc s1 t' where "exp_timer (cache_deref (slinger_of prep lookup deref) params refuse w) t now trylock s =
        do { s' \<leftarrow> cache_deref (slinger_of prep lookup deref) params refuse w (Some oc) None s1; Some (s', Some oc, t') }"
      "oc \<in> on_heap s" "timer_when s oc \<le> t'" "t' \<in> {t, now}" "pulled oc s s1"
    by blast
  then show ?thesis
  proof cases
    case (2 oc s1 t')
    then have "timer_when s oc \<le> max t now" by auto
    from deref [OF 2(2) this 2(5)] 2 show ?thesis by fastforce
  qed blast
qed

end

subsection \<open>The cache with the critical bit tree\<close>

definition hcb_slinger :: "hcb_state slinger" where
  "hcb_slinger = slinger_of hcb_prep hcb_lookup hcb_deref"

abbreviation hcb_cache_inv :: "(string \<Rightarrow> string + char list) \<Rightarrow> (ban_id \<Rightarrow> nat) \<Rightarrow> (oc_ref \<Rightarrow> nat) \<Rightarrow> (oh_ref \<Rightarrow> nat) \<Rightarrow> hcb_state cache \<Rightarrow> bool" where
  "hcb_cache_inv \<equiv> cache_inv (\<lambda>st. hcb_leaves (hcb_root st)) hcb_inv"

text \<open>The cache as the child process starts it.\<close>

definition cache_start :: "oc_ref binheap \<Rightarrow> oc_ref bans \<Rightarrow> hcb_state cache" where
  "cache_start h bans = \<lparr>es_heap = h, es_lru = \<lambda>_. [], es_oc = Map.empty, es_ob = Map.empty, n_lru_moved = 0, n_expired = 0, n_lru_nuked = 0,
     c_hash = hcb_start, c_heads = \<lambda>_. new_objhead, c_bans = bans, c_queued = [], client_drop_late = 0\<rparr>"

lemma cache_start_inv:
  "\<exists>h bans. hcb_cache_inv pcre_compile (\<lambda>_. 0) (\<lambda>_. 0) (\<lambda>_. 0) (cache_start h bans) \<and> heap_room (cache_start h bans) \<and> oc_ban bans = (\<lambda>_. None)"
proof -
  obtain h where h: "bh_members h = {}" "\<And>s :: hcb_state cache. es_heap s = h \<Longrightarrow> (\<forall>l. es_lru s l = []) \<Longrightarrow> exp_inv s \<and> heap_room s"
    using EXP_Init_ok [of 12 "\<lambda>_. None", where 'z = "\<lparr>c_hash :: hcb_state, c_heads :: oh_store, c_bans :: oc_ref bans, c_queued :: sess_ref list, client_drop_late :: nat\<rparr>"] by auto
  obtain bans :: "oc_ref bans" where b: "ban_inv pcre_compile (\<lambda>_. 0) bans" "oc_ban bans = (\<lambda>_. None)" using BAN_Init_ok by blast
  have "exp_inv (cache_start h bans)" "heap_room (cache_start h bans)" using h(2) [of "cache_start h bans"] by (simp_all add: cache_start_def)
  then show ?thesis using b h(1) by (intro exI [of _ h] exI [of _ bans]) (simp add: cache_inv_def cache_start_def hcb_inv_def hcb_start_def)
qed

text \<open>
  C2: with the critical bit tree, looking an object up in a consistent cache whose vary strings fit into
  the session's vary buffer does not panic and leaves the cache consistent, with every reference accounted for. It returns an object core that is not busy, has not
  expired for the request beyond its grace, is not banned, and whose vary string matches the request, with one
  reference more; or a new busy object core, which only this session holds; or nothing, and then the
  session is left with the head of a busy object core to wait for. The head has the digest of the request.
\<close>
theorem HSH_Lookup_critbit:
  assumes "hcb_cache_inv pcre_compile T H V s" and "wrk_ok (\<lambda>st. hcb_leaves (hcb_root st)) w s" and "es_oc s noc = None" "noh \<notin> hcb_leaves (hcb_root (c_hash s))"
    and "length (sp_digest sp) = DIGEST_LEN" and "\<And>oh. sp_hash_objhead sp = Some oh \<Longrightarrow> 0 < V oh"
    and "sess_ok sp" "cores_fit sp s" and "refs_fit H"
  shows "\<exists>r sp' w' s'. HSH_Lookup hcb_slinger params healthy noc noh sp w s = Some (r, sp', w', s') \<and> wrk_ok (\<lambda>st. hcb_leaves (hcb_root st)) w' s' \<and>
    (case r of
       Some (oc, oh) \<Rightarrow> hcb_cache_inv pcre_compile T (H(oc := H oc + 1)) (sess_dropped sp V) s' \<and> sp_hash_objhead sp' = None \<and>
         (attached_busy s' oc oh False \<and> answers pcre_compile params sp s oc \<or> fresh_core s' oc oh \<and> H oc = 0) \<and>
         (sp_hash_objhead sp = None \<longrightarrow> digest_of (c_heads s') oh = sp_digest sp)
     | None \<Rightarrow> (\<exists>oh. sp_hash_objhead sp' = Some oh \<and> (\<exists>oc. attached_busy s oc oh True) \<and>
         hcb_cache_inv pcre_compile T H (if sp_esi_level sp = 0 then sess_dropped sp V else (sess_dropped sp V)(oh := sess_dropped sp V oh + 1)) s'))"
  unfolding hcb_slinger_def by (rule hcb.Lookup_ok [OF assms])

definition life_params :: hsh_params where
  "life_params = \<lparr>p_exp = ex_params, http_gzip_support = True, rush_exponent = 3, p_pcre_exec = (\<lambda>_ _. False)\<rparr>"

definition life_wrk :: wrk where
  "life_wrk = \<lparr>w_nobjcore = None, w_nobjhead = None, w_nwaitinglist = False, w_nbusyobj = None, n_object = 0, n_objectcore = 0,
     n_objecthead = 0, n_waitinglist = 0, n_objoverflow = 0, n_vampireobject = 0\<rparr>"

definition life_sess :: hsess where
  "life_sess = \<lparr>sp_ref = 0, sp_http = http_ex, sp_exp = ex_exp, sp_t_req = 100, sp_digest = replicate 32 7, sp_hash_objhead = None,
     sp_hash_ignore_busy = False, sp_hash_always_miss = False, sp_esi_level = 0, sp_vary_b = replicate 20 NUL, sp_vary_l = None\<rparr>"

lemma life_sess_ok: "sess_ok life_sess" "length (sp_digest life_sess) = DIGEST_LEN" "sp_hash_objhead life_sess = None"
proof -
  have "vb_ok http_ex (replicate 20 NUL)" by (rule vb_end) simp_all
  then show "sess_ok life_sess" "length (sp_digest life_sess) = DIGEST_LEN" "sp_hash_objhead life_sess = None"
    using vary_ex_ok http_ex_full by (simp_all add: sess_ok_def life_sess_def req_ok_def http_ex_def lit_def HTTP_HDR_URL_def DIGEST_LEN_def)
qed

lemma life_ok:
  "wrk_ok heads life_wrk s" "cores_fit life_sess (cache_start h bans)" "refs_fit (\<lambda>_. 0)" "es_oc (cache_start h bans) x = None" "y \<notin> hcb_leaves (hcb_root (c_hash (cache_start h bans)))"
  by (simp_all add: wrk_ok_def life_wrk_def cores_fit_def cache_start_def refs_fit_def hcb_start_def)

theorem HSH_Lookup_critbit_witness:
  "\<exists>h bans oc oh sp' w' s'. HSH_Lookup hcb_slinger life_params (\<lambda>_. True) 1 1 life_sess life_wrk (cache_start h bans) = Some (Some (oc, oh), sp', w', s') \<and>
     fresh_core s' oc oh \<and> digest_of (c_heads s') oh = replicate 32 7"
proof -
  obtain h bans where i: "hcb_cache_inv (\<lambda>_. Inl []) (\<lambda>_. 0) (\<lambda>_. 0) (\<lambda>_. 0) (cache_start h bans)" using cache_start_inv by blast
  have "\<not> answers (\<lambda>_. Inl []) life_params life_sess (cache_start h bans) oc" "\<not> attached_busy (cache_start h bans) oc oh True" for oc oh
    by (simp_all add: answers_def candidate_def object_of_def attached_busy_def cache_start_def)
  then show ?thesis
    using HSH_Lookup_critbit [OF i life_ok(1) life_ok(4,5) life_sess_ok(2) _ life_sess_ok(1) life_ok(2,3), where noc = 1 and noh = 1 and params = life_params and healthy = "\<lambda>_. True"] life_sess_ok(3)
    by (fastforce simp: life_sess_def split: option.splits)
qed

text \<open>A session that has missed and holds a fresh busy object core.\<close>

lemma life_miss:
  "\<exists>s oc oh. hcb_cache_inv (\<lambda>_. Inl []) (\<lambda>_. 0) ((\<lambda>_. 0)(oc := 1)) (\<lambda>_. 0) s \<and> fresh_core s oc oh \<and> es_ob s = Map.empty \<and> heap_room s \<and> on_heap s = {}"
proof -
  obtain h bans where i: "hcb_cache_inv (\<lambda>_. Inl []) (\<lambda>_. 0) (\<lambda>_. 0) (\<lambda>_. 0) (cache_start h bans)" "heap_room (cache_start h bans)" "on_heap (cache_start h bans) = {}"
    using cache_start_inv cache_invD(7) [where s = "cache_start _ _"] life_ok(4) by (metis (no_types, lifting) all_not_in_conv option.distinct(1))
  obtain oh w s1 where en: "hcb_cache_inv (\<lambda>_. Inl []) (\<lambda>_. 0) (\<lambda>_. 0) ((\<lambda>_. 0)(oh := 1)) s1" "wrk_ok (\<lambda>st. hcb_leaves (hcb_root st)) w s1" "wrk_full w" "enter_frame (cache_start h bans) s1"
    using hcb.enter_ok [OF i(1) life_ok(1,4,5) life_sess_ok(2)] life_sess_ok(3) by fastforce
  obtain oc s' where m: "hcb_cache_inv (\<lambda>_. Inl []) (\<lambda>_. 0) ((\<lambda>_. 0)(oc := 1)) (\<lambda>_. 0) s'" "fresh_core s' oc oh" "es_ob s' = es_ob s1" "es_heap s' = es_heap s1"
    using hcb.miss_ok [OF en(1) _ en(2,3) life_sess_ok(1), of oh] by (auto simp: fresh_core_def fun_upd_idem)
  then show ?thesis using en(4) i(2,3) by (auto simp: enter_frame_def cache_start_def heap_room_def)
qed

lemma fetch_steps_ok:
  assumes "hcb_cache_inv pcre_compile T H V s" and "fresh_core s oc oh" and "mk_fits sizeof_object soc ptr ltot" and "es_ob s (unat ptr) = None"
    and "e_entered (soc_exp soc) \<noteq> 0" and "heap_room s" and "refs_fit H" and "w_nbusyobj w = None"
  shows "\<exists>w' s' V'. do {
      (b, w, s) \<leftarrow> STV_MkObject sizeof_object soc ptr ltot lru (Some oc) w s;
      s \<leftarrow> EXP_Insert params fresh b s;
      HSH_Unbusy hparams refuse b w s
    } = Some (w', s') \<and> hcb_cache_inv pcre_compile T H V' s' \<and> attached_busy s' oc oh False \<and> on_heap s' = insert oc (on_heap s) \<and>
    (\<exists>c ob. es_oc s' oc = Some c \<and> oc_priv c = Some (unat ptr) \<and> es_ob s' (unat ptr) = Some ob \<and> o_exp ob = soc_exp soc)"
proof -
  obtain c where c: "es_oc s oc = Some c" "oc_objhead c = Some oh" "oc_busy c" "\<not> oc_methods c" "oc_refcnt c = 1"
    using assms(2) by (auto simp: fresh_core_def)
  have off: "oc \<notin> on_heap s" using exp_invD(4) [OF cache_invD(1) [OF assms(1)], of oc] c(1,4) by (auto simp: oc_getlru_eq_Some)
  obtain w1 s1 c1 ob1 where m: "STV_MkObject sizeof_object soc ptr ltot lru (Some oc) w s = Some (unat ptr, w1, s1)" "hcb_cache_inv pcre_compile T H V s1"
      "es_heap s1 = es_heap s" "es_oc s1 oc = Some c1" "oc_objhead c1 = Some oh" "oc_busy c1" "oc_methods c1" "oc_priv c1 = Some (unat ptr)"
      "es_ob s1 (unat ptr) = Some ob1" "o_exp ob1 = soc_exp soc" "w_nbusyobj w1 = w_nbusyobj w"
    using STV_MkObject_ok [OF assms(1,3) c(1-4) assms(4), of lru w] by blast
  have "heap_room s1" "oc \<notin> on_heap s1" "H oc + 2 < 2 ^ 32" "e_entered (o_exp ob1) \<noteq> 0" using assms(5-7) off m(3,10) by (auto simp: heap_room_def refs_fit_def)
  then obtain s2 c2 ob2 where e: "EXP_Insert params fresh (unat ptr) s1 = Some s2" "hcb_cache_inv pcre_compile T H V s2" "on_heap s2 = insert oc (on_heap s)"
      "es_oc s2 oc = Some c2" "oc_objhead c2 = Some oh" "oc_busy c2" "oc_methods c2" "oc_priv c2 = Some (unat ptr)" "es_ob s2 (unat ptr) = Some ob2" "o_exp ob2 = soc_exp soc"
    using EXP_Insert_cache [OF m(2,4-9), of params fresh] m(3,10) by auto
  obtain w3 s3 n where u: "HSH_Unbusy hparams refuse (unat ptr) w1 s2 = Some (w3, s3)" "hcb_cache_inv pcre_compile T H (V(oh := V oh + n)) s3"
      "attached_busy s3 oc oh False" "es_ob s3 = es_ob s2" "es_heap s3 = es_heap s2" "map_option oc_priv (es_oc s3 oc) = Some (Some (unat ptr))"
    using hcb.Unbusy_ok [OF e(2,4-8), of w1 hparams refuse] m(11) assms(8) by auto
  show ?thesis
    using m(1) e(1,3,9,10) u by (intro exI [of _ w3] exI [of _ s3] exI [of _ "V(oh := V oh + n)"]) auto
qed

text \<open>
  C6: the steps with which a fetch turns a busy object core into a cached object, making the
  object on the storage, entering it on the expiry heap and the LRU list and marking it no longer busy, run
  through without a failed assertion and leave the cache consistent, with the heap holding one reference and
  the session its own.
\<close>
theorem fetch_makes_object:
  assumes "hcb_cache_inv pcre_compile T H V s" and "fresh_core s oc oh" and "mk_fits sizeof_object soc ptr ltot" and "es_ob s (unat ptr) = None"
    and "e_entered (soc_exp soc) \<noteq> 0" and "heap_room s" and "refs_fit H" and "w_nbusyobj w = None"
  shows "\<exists>w' s' V'. do {
      (b, w, s) \<leftarrow> STV_MkObject sizeof_object soc ptr ltot lru (Some oc) w s;
      s \<leftarrow> EXP_Insert params fresh b s;
      HSH_Unbusy hparams refuse b w s
    } = Some (w', s') \<and> hcb_cache_inv pcre_compile T H V' s' \<and> attached_busy s' oc oh False \<and> on_heap s' = insert oc (on_heap s) \<and>
    (\<exists>c ob. es_oc s' oc = Some c \<and> oc_priv c = Some (unat ptr) \<and> es_ob s' (unat ptr) = Some ob \<and> o_exp ob = soc_exp soc)"
  by (rule fetch_steps_ok [OF assms])

definition life_soc :: stv_objsecrets where
  "life_soc = \<lparr>soc_nhttp = 10, soc_lhttp = 800, soc_wsl = 64, soc_exp = ex_exp\<rparr>"

lemma life_soc_fits: "mk_fits 184 life_soc 4096 2048" "e_entered (soc_exp life_soc) \<noteq> 0"
  by (simp_all add: mk_fits_def life_soc_def PAOK_def PALGN_def HTTP_HDR_FIRST_def ex_exp_def)

theorem fetch_makes_object_witness:
  "\<exists>s oc w' s'. do {
      (b, w, s) \<leftarrow> STV_MkObject 184 life_soc 4096 2048 0 (Some oc) life_wrk s;
      s \<leftarrow> EXP_Insert ex_params (\<lambda>_. None) b s;
      HSH_Unbusy life_params (\<lambda>_. False) b w s
    } = Some (w', (s' :: hcb_state cache)) \<and> on_heap s' = {oc}"
proof -
  obtain s oc oh where m: "hcb_cache_inv (\<lambda>_. Inl []) (\<lambda>_. 0) ((\<lambda>_. 0)(oc := 1)) (\<lambda>_. 0) s" "fresh_core s oc oh" "es_ob s = Map.empty" "heap_room s" "on_heap s = {}"
    using life_miss by blast
  have p: "refs_fit ((\<lambda>_. 0)(oc := 1))" "w_nbusyobj life_wrk = None" "es_ob s (unat 4096) = None" using m(3) by (simp_all add: refs_fit_def life_wrk_def)
  note f = fetch_makes_object [OF m(1,2) life_soc_fits(1) p(3) life_soc_fits(2) m(4) p(1,2), where lru = 0 and params = ex_params and fresh = "\<lambda>_. None" and hparams = life_params and refuse = "\<lambda>_. False"]
  show ?thesis using f unfolding m(5) by blast
qed

text \<open>A cache with one object that no session holds.\<close>

lemma life_cached:
  "\<exists>s oc V. hcb_cache_inv (\<lambda>_. Inl []) (\<lambda>_. 0) (\<lambda>_. 0) V s \<and> on_heap s = {oc} \<and> (\<forall>c. es_oc s oc = Some c \<longrightarrow> \<not> oc_busy c)"
proof -
  obtain s oc oh where m: "hcb_cache_inv (\<lambda>_. Inl []) (\<lambda>_. 0) ((\<lambda>_. 0)(oc := 1)) (\<lambda>_. 0) s" "fresh_core s oc oh" "es_ob s = Map.empty" "heap_room s" "on_heap s = {}"
    using life_miss by blast
  have p: "refs_fit ((\<lambda>_. 0)(oc := 1))" "w_nbusyobj life_wrk = None" "es_ob s (unat 4096) = None" using m(3) by (simp_all add: refs_fit_def life_wrk_def)
  obtain s1 V1 where f: "hcb_cache_inv (\<lambda>_. Inl []) (\<lambda>_. 0) ((\<lambda>_. 0)(oc := 1)) V1 s1" "attached_busy s1 oc oh False" "on_heap s1 = {oc}"
    using fetch_steps_ok [OF m(1,2) life_soc_fits(1) p(3) life_soc_fits(2) m(4) p(1,2)] unfolding m(5) by blast
  obtain c where c: "es_oc s1 oc = Some c" "oc_objhead c = Some oh" "\<not> oc_busy c" using f(2) by (auto simp: attached_busy_def)
  have r: "oc_refcnt c \<noteq> 1" using cache_invD(6) [OF f(1) c(1,2)] f(3) by (auto simp: core_ok_def)
  obtain s2 V2 where "hcb_cache_inv (\<lambda>_. Inl []) (\<lambda>_. 0) (\<lambda>_. 0) V2 s2" "es_oc s2 oc = Some (c\<lparr>oc_refcnt := oc_refcnt c - 1\<rparr>)" "es_heap s2 = es_heap s1"
    using hcb.Deref_more_ok [OF f(1) c(1,2) _ r c(3), of "Some oc" None life_params "\<lambda>_. False" life_wrk] by (auto simp: fun_upd_idem)
  then show ?thesis using f(3) c(3) by (intro exI [of _ s2] exI [of _ oc] exI [of _ V2]) auto
qed

text \<open>
  C3: with the critical bit tree, dropping a reference that a session holds never panics and leaves the
  cache consistent. It returns the number of references left, those of other sessions and that of the expiry heap;
  the object core is freed exactly when there are none, and no other object core is touched.
\<close>
theorem HSH_Deref_critbit:
  assumes "hcb_cache_inv pcre_compile T H V s" and "es_oc s oc = Some c" "oc_objhead c = Some oh" and "0 < H oc" and "oc_busy c \<longrightarrow> oc_refcnt c = 1"
    and "oc0 = Some oc \<and> oo = None \<or> oc0 = None \<and> (\<exists>b ob. oo = Some b \<and> es_ob s b = Some ob \<and> o_objcore ob = Some oc)"
  shows "\<exists>r w' s' n. HSH_Deref hcb_slinger params refuse oc0 oo w s = Some (r, w', s') \<and>
    unat r = H oc - 1 + (if oc \<in> on_heap s then 1 else 0) \<and> (r = 0 \<longleftrightarrow> es_oc s' oc = None) \<and>
    hcb_cache_inv pcre_compile T (H(oc := H oc - 1)) (V(oh := V oh + n)) s' \<and> (\<forall>x. x \<noteq> oc \<longrightarrow> es_oc s' x = es_oc s x)"
  using hcb.Deref_ok [OF assms, of params refuse w] unfolding hcb_slinger_def
  by (elim exE conjE) (intro exI conjI; assumption)

theorem HSH_Deref_critbit_witness:
  "\<exists>s oc w' s'. HSH_Deref hcb_slinger life_params (\<lambda>_. False) (Some oc) None life_wrk s = Some (0, w', s') \<and> es_oc s oc \<noteq> None \<and> es_oc s' oc = None"
proof -
  obtain s oc oh where m: "hcb_cache_inv (\<lambda>_. Inl []) (\<lambda>_. 0) ((\<lambda>_. 0)(oc := 1)) (\<lambda>_. 0) s" "fresh_core s oc oh" using life_miss by blast
  then obtain c where c: "es_oc s oc = Some c" "oc_objhead c = Some oh" "oc_refcnt c = 1" by (auto simp: fresh_core_def)
  have "core_ok ((\<lambda>_. 0)(oc := 1)) s oc c" using cache_invD(6) [OF m(1) c(1,2)] by blast
  then have off: "oc \<notin> on_heap s" using c(3) by (auto simp: core_ok_def split: if_splits)
  obtain r w' s' where d: "HSH_Deref hcb_slinger life_params (\<lambda>_. False) (Some oc) None life_wrk s = Some (r, w', s')" "unat r = 0" "r = 0 \<longleftrightarrow> es_oc s' oc = None"
    using HSH_Deref_critbit [OF m(1) c(1,2), of "Some oc" None life_params "\<lambda>_. False" life_wrk] c(3) off by auto
  have "r = 0" using d(2) by (simp add: unat_eq_zero)
  then show ?thesis using d c(1) by (intro exI [of _ s] exI [of _ oc] exI [of _ w'] exI [of _ s']) simp
qed

text \<open>
  C7: with the critical bit tree, making room takes the least recently used object of the
  stevedore that no session holds: its object core leaves the heap and the list, is destroyed and gives back its
  references to ban and head, and nothing else changes; when sessions hold every object, nothing happens and the result is -1.
\<close>
theorem EXP_NukeOne_frees:
  assumes "hcb_cache_inv pcre_compile T H V s"
  shows "case List.find (\<lambda>oc. H oc = 0) (es_lru s l) of
    None \<Rightarrow> EXP_NukeOne (cache_deref hcb_slinger params refuse w) l s = Some (s, -1)
  | Some oc \<Rightarrow> \<exists>s' V'. EXP_NukeOne (cache_deref hcb_slinger params refuse w) l s = Some (s', 1) \<and>
      hcb_cache_inv pcre_compile T H V' s' \<and> es_oc s' oc = None \<and> on_heap s' = on_heap s - {oc} \<and>
      (\<forall>x. x \<noteq> oc \<longrightarrow> es_oc s' x = es_oc s x)"
  unfolding hcb_slinger_def by (rule hcb.nuke_ok [OF assms])

theorem EXP_NukeOne_frees_witness:
  "\<exists>s l s'. EXP_NukeOne (cache_deref hcb_slinger life_params (\<lambda>_. False) life_wrk) l s = Some (s', 1)"
proof -
  obtain s oc V where m: "hcb_cache_inv (\<lambda>_. Inl []) (\<lambda>_. 0) (\<lambda>_. 0) V s" "on_heap s = {oc}" using life_cached by blast
  obtain l where l: "oc \<in> set (es_lru s l)" using exp_invD(4) [OF cache_invD(1) [OF m(1)], of oc] m(2) by auto
  then show ?thesis
    using EXP_NukeOne_frees [OF m(1), where l = l and params = life_params and refuse = "\<lambda>_. False" and w = life_wrk] by (cases "es_lru s l") auto
qed

text \<open>
  C15: with the critical bit tree, a round of the expiry thread that finds a timer fired takes
  that object off the heap and its list and drops the heap's reference, provided that no object whose timer has fired is busy (for such a one the expiry thread
  panics): the object is freed exactly when no session
  holds it, and the cache stays consistent; when no timer has fired or the list is locked, nothing changes.
\<close>
theorem exp_timer_cache:
  assumes "hcb_cache_inv pcre_compile T H V s"
    and "\<And>oc c. oc \<in> on_heap s \<Longrightarrow> es_oc s oc = Some c \<Longrightarrow> oc_timer_when c \<le> max t now \<Longrightarrow> \<not> oc_busy c"
  shows "(\<exists>t'. exp_timer (cache_deref hcb_slinger params refuse w) t now trylock s = Some (s, None, t') \<and>
      (trylock \<or> (\<forall>oc \<in> on_heap s. t < timer_when s oc \<and> now < timer_when s oc))) \<or>
    (\<exists>oc s' t' V'. exp_timer (cache_deref hcb_slinger params refuse w) t now trylock s = Some (s', Some oc, t') \<and>
      oc \<in> on_heap s \<and> timer_when s oc \<le> t' \<and> t' \<in> {t, now} \<and> hcb_cache_inv pcre_compile T H V' s' \<and>
      on_heap s' = on_heap s - {oc} \<and> (es_oc s' oc = None \<longleftrightarrow> H oc = 0) \<and> (\<forall>x. x \<noteq> oc \<longrightarrow> es_oc s' x = es_oc s x))"
  unfolding hcb_slinger_def by (rule hcb.timer_ok [OF assms])

theorem exp_timer_cache_witness:
  "\<exists>s oc t s'. exp_timer (cache_deref hcb_slinger life_params (\<lambda>_. False) life_wrk) t t False s = Some (s', Some oc, t) \<and> es_oc s' oc = None"
proof -
  obtain s oc V where m: "hcb_cache_inv (\<lambda>_. Inl []) (\<lambda>_. 0) (\<lambda>_. 0) V s" "on_heap s = {oc}" "\<And>c. es_oc s oc = Some c \<Longrightarrow> \<not> oc_busy c"
    using life_cached by blast
  show ?thesis
    using exp_timer_cache [OF m(1), where t = "timer_when s oc" and now = "timer_when s oc" and params = life_params and refuse = "\<lambda>_. False" and w = life_wrk and trylock = False] m(2,3) by auto
qed

end
