(* ===== verification/Storage.thy ===== *)
theory Storage
  imports Varnish_Prelude
begin

text \<open>
  What a storage device promises to \<^verbatim>\<open>bin/varnishd/stevedore.c\<close> (\<^verbatim>\<open>stevedore.h\<close>, \<open>struct storage\<close> of
  \<^verbatim>\<open>cache.h\<close>): the methods \<open>alloc\<close>, \<open>trim\<close> and \<open>free\<close> of a stevedore, as the locale
  \<open>storage_device\<close>, and what follows from its laws for any sequence of calls.
\<close>

subsection \<open>Storage\<close>

text \<open>
  The size fields are \<open>unsigned\<close>, although sizes are asked for as \<open>size_t\<close>. The fields \<open>priv\<close> and
  \<open>stevedore\<close> point to the structure the storage is part of and to its device, which the models have by other means.
\<close>

record storage =
  st_ptr :: nat
  st_len :: u32
  st_space :: u32

type_synonym st_ref = nat

text \<open>The memory that a caller may use: the storages handed out and not given back, with address and space.\<close>

type_synonym st_live = "st_ref \<rightharpoonup> nat \<times> nat"

definition apart :: "st_live \<Rightarrow> bool" where
  "apart L \<longleftrightarrow> (\<forall>x y p n q m. L x = Some (p, n) \<longrightarrow> L y = Some (q, m) \<longrightarrow> x \<noteq> y \<longrightarrow> {p..<p + n} \<inter> {q..<q + m} = {})"

lemma apartD:
  assumes "apart L" and "L x = Some (p, n)" and "L y = Some (q, m)" and "x \<noteq> y"
  shows "{p..<p + n} \<inter> {q..<q + m} = {}"
  using assms unfolding apart_def by blast

lemma apart_upd:
  assumes "apart L" and "\<And>y q m. L y = Some (q, m) \<Longrightarrow> y \<noteq> x \<Longrightarrow> {p..<p + n} \<inter> {q..<q + m} = {}"
  shows "apart (L(x \<mapsto> (p, n)))"
  unfolding apart_def
proof (intro allI impI)
  fix a b p' n' q m
  assume ab: "(L(x \<mapsto> (p, n))) a = Some (p', n')" "(L(x \<mapsto> (p, n))) b = Some (q, m)" "a \<noteq> b"
  show "{p'..<p' + n'} \<inter> {q..<q + m} = {}"
  proof (cases "a = x \<or> b = x")
    case True
    then show ?thesis using ab assms(2) [of b q m] assms(2) [of a p' n'] by auto
  next
    case False
    then show ?thesis using ab apartD [OF assms(1), of a p' n' b q m] by simp
  qed
qed

lemma apart_del: "apart L \<Longrightarrow> apart (L(x := None))"
  unfolding apart_def by (metis fun_upd_apply option.distinct(1))

text \<open>How much memory that is.\<close>

definition in_use :: "st_live \<Rightarrow> nat" where
  "in_use L = (\<Sum>x \<in> dom L. snd (the (L x)))"

lemma in_use_new:
  assumes "finite (dom L)" and "L x = None"
  shows "in_use (L(x \<mapsto> (p, n))) = in_use L + n"
proof -
  have "x \<notin> dom L" using assms(2) by auto
  then have "in_use (L(x \<mapsto> (p, n))) = n + (\<Sum>y \<in> dom L. snd (the ((L(x \<mapsto> (p, n))) y)))" using assms(1) by (simp add: in_use_def)
  also have "(\<Sum>y \<in> dom L. snd (the ((L(x \<mapsto> (p, n))) y))) = in_use L" unfolding in_use_def using assms(2) by (intro sum.cong) auto
  finally show ?thesis by (simp only: add.commute)
qed

lemma in_use_del:
  assumes "finite (dom L)" and "L x = Some (p, n)"
  shows "in_use (L(x := None)) + n = in_use L"
proof -
  have "(L(x := None))(x \<mapsto> (p, n)) = L" using assms(2) by auto
  then show ?thesis using in_use_new [of "L(x := None)" x p n] assms(1) by simp
qed

lemma in_use_upd:
  assumes "finite (dom L)" and "L x = Some (p, n)"
  shows "in_use (L(x \<mapsto> (q, m))) + n = in_use L + m"
  using in_use_del [OF assms] in_use_new [of "L(x := None)" x q m] assms(1) by simp

subsection \<open>Calls of a device\<close>

text \<open>
  A call with what the environment answers during it: for an allocation and a trim the answers \<open>'e\<close> and \<open>'f\<close> of the
  system's allocator.
\<close>

datatype ('e, 'f) dev_call = Alloc 'e u64 | Trim 'f st_ref u64 | Free st_ref

fun dev_step :: "('e \<Rightarrow> u64 \<Rightarrow> 's \<Rightarrow> ('s \<times> st_ref option) option) \<Rightarrow> ('f \<Rightarrow> st_ref \<Rightarrow> u64 \<Rightarrow> 's \<Rightarrow> 's option) \<Rightarrow> (st_ref \<Rightarrow> 's \<Rightarrow> 's option) \<Rightarrow>
    ('e, 'f) dev_call \<Rightarrow> 's \<Rightarrow> 's option" where
  "dev_step alloc trim free (Alloc e sz) s = map_option fst (alloc e sz s)"
| "dev_step alloc trim free (Trim f x sz) s = trim f x sz s"
| "dev_step alloc trim free (Free x) s = free x s"

fun dev_run :: "(('e, 'f) dev_call \<Rightarrow> 's \<Rightarrow> 's option) \<Rightarrow> ('e, 'f) dev_call list \<Rightarrow> 's \<Rightarrow> 's option" where
  "dev_run step [] s = Some s"
| "dev_run step (c # cs) s = step c s \<bind> dev_run step cs"

text \<open>
  The calls a client may make: sizes the device takes, storage it holds, a trim to less than the space; and the
  answers that the environment may give.
\<close>

fun dev_legal :: "('s \<Rightarrow> st_live) \<Rightarrow> (u64 \<Rightarrow> 's \<Rightarrow> bool) \<Rightarrow> ('e \<Rightarrow> u64 \<Rightarrow> 's \<Rightarrow> bool) \<Rightarrow> ('f \<Rightarrow> st_ref \<Rightarrow> u64 \<Rightarrow> 's \<Rightarrow> bool) \<Rightarrow> ('e, 'f) dev_call \<Rightarrow> 's \<Rightarrow> bool" where
  "dev_legal live takes aok tok (Alloc e sz) s = (takes sz s \<and> aok e sz s)"
| "dev_legal live takes aok tok (Trim f x sz) s = (0 < sz \<and> (case live s x of Some (_, n) \<Rightarrow> unat sz < n | None \<Rightarrow> False) \<and> tok f x sz s)"
| "dev_legal live takes aok tok (Free x) s = (live s x \<noteq> None)"

fun dev_legals :: "(('e, 'f) dev_call \<Rightarrow> 's \<Rightarrow> 's option) \<Rightarrow> (('e, 'f) dev_call \<Rightarrow> 's \<Rightarrow> bool) \<Rightarrow> ('e, 'f) dev_call list \<Rightarrow> 's \<Rightarrow> bool" where
  "dev_legals step legal [] s = True"
| "dev_legals step legal (c # cs) s = (legal c s \<and> (case step c s of Some s' \<Rightarrow> dev_legals step legal cs s' | None \<Rightarrow> True))"

subsection \<open>The contract\<close>

locale storage_device =
  fixes inv :: "'s \<Rightarrow> bool"
    and live :: "'s \<Rightarrow> st_live"
    and takes :: "u64 \<Rightarrow> 's \<Rightarrow> bool"
    and aok :: "'e \<Rightarrow> u64 \<Rightarrow> 's \<Rightarrow> bool"
    and tok :: "'f \<Rightarrow> st_ref \<Rightarrow> u64 \<Rightarrow> 's \<Rightarrow> bool"
    and alloc :: "'e \<Rightarrow> u64 \<Rightarrow> 's \<Rightarrow> ('s \<times> st_ref option) option"
    and trim :: "'f \<Rightarrow> st_ref \<Rightarrow> u64 \<Rightarrow> 's \<Rightarrow> 's option"
    and free :: "st_ref \<Rightarrow> 's \<Rightarrow> 's option"
  assumes live_apart: "inv s \<Longrightarrow> apart (live s)"
    and alloc_law: "inv s \<Longrightarrow> takes sz s \<Longrightarrow> aok e sz s \<Longrightarrow> \<exists>s' r. alloc e sz s = Some (s', r) \<and> inv s' \<and>
      (case r of None \<Rightarrow> live s' = live s | Some x \<Rightarrow> live s x = None \<and> (\<exists>p n. unat sz \<le> n \<and> live s' = (live s)(x \<mapsto> (p, n))))"
    and trim_law: "inv s \<Longrightarrow> live s x = Some (p, n) \<Longrightarrow> 0 < sz \<Longrightarrow> unat sz < n \<Longrightarrow> tok f x sz s \<Longrightarrow>
      \<exists>s' q m. trim f x sz s = Some s' \<and> inv s' \<and> unat sz \<le> m \<and> m \<le> n \<and> live s' = (live s)(x \<mapsto> (q, m))"
    and free_law: "inv s \<Longrightarrow> live s x \<noteq> None \<Longrightarrow> \<exists>s'. free x s = Some s' \<and> inv s' \<and> live s' = (live s)(x := None)"
begin

lemma step_ok:
  assumes "inv s" and "dev_legal live takes aok tok c s"
  shows "\<exists>s'. dev_step alloc trim free c s = Some s' \<and> inv s'"
proof (cases c)
  case (Alloc e sz)
  then show ?thesis using assms alloc_law [of s sz e] by auto
next
  case (Trim f x sz)
  then show ?thesis using assms trim_law [of s x _ _ sz f] by (auto split: option.splits)
next
  case (Free x)
  then show ?thesis using assms free_law [of s x] by auto
qed

text \<open>No sequence of legal calls panics, and after it no two storages share memory.\<close>

lemma run_ok:
  assumes "inv s" and "dev_legals (dev_step alloc trim free) (dev_legal live takes aok tok) cs s"
  shows "\<exists>s'. dev_run (dev_step alloc trim free) cs s = Some s' \<and> inv s' \<and> apart (live s')"
  using assms
proof (induction cs arbitrary: s)
  case (Cons c cs)
  then obtain s' where "dev_step alloc trim free c s = Some s'" "inv s'" using step_ok [of s c] by auto
  then show ?case using Cons by auto
qed (simp add: live_apart)

end

end
