(* ===== verification/Storage_File.thy ===== *)
theory Storage_File
  imports Storage
begin

text \<open>
  The file storage, \<^verbatim>\<open>bin/varnishd/storage_file.c\<close>: an allocator of page multiples from mapped ranges of a
  file, with the ranges in address order, the free ones also on a list per size, and neighbours joined when freed.

  The ranges live in a store indexed by references; the lists \<open>order\<close>, \<open>used\<close> and \<open>free\<close> are lists of
  references. Range sizes and positions are natural numbers: a range is mapped memory, so they cannot wrap. The sizes
  asked for are words, as their rounding can. The addresses that \<open>malloc\<close> returns for the nodes and the results of
  \<open>mmap\<close> are arguments.
\<close>

subsection \<open>Linked lists\<close>

definition tailq_next :: "'a \<Rightarrow> 'a list \<Rightarrow> 'a option" where
  "tailq_next x l = (case dropWhile (\<lambda>y. y \<noteq> x) l of _ # y # _ \<Rightarrow> Some y | _ \<Rightarrow> None)"

definition tailq_prev :: "'a \<Rightarrow> 'a list \<Rightarrow> 'a option" where
  "tailq_prev x l = (case rev (takeWhile (\<lambda>y. y \<noteq> x) l) of y # _ \<Rightarrow> Some y | [] \<Rightarrow> None)"

definition tailq_insert_before :: "'a \<Rightarrow> 'a \<Rightarrow> 'a list \<Rightarrow> 'a list" where
  "tailq_insert_before x n l = takeWhile (\<lambda>y. y \<noteq> x) l @ n # dropWhile (\<lambda>y. y \<noteq> x) l"

definition tailq_insert_after :: "'a \<Rightarrow> 'a \<Rightarrow> 'a list \<Rightarrow> 'a list" where
  "tailq_insert_after x n l = takeWhile (\<lambda>y. y \<noteq> x) l @ x # n # tl (dropWhile (\<lambda>y. y \<noteq> x) l)"

lemma tailq_split [simp]:
  assumes "x \<notin> set xs"
  shows "takeWhile (\<lambda>y. y \<noteq> x) (xs @ x # ys) = xs" "dropWhile (\<lambda>y. y \<noteq> x) (xs @ x # ys) = x # ys"
  using assms by (auto simp: takeWhile_append dropWhile_append)

lemma tailq_at [simp]:
  assumes "x \<notin> set xs"
  shows "tailq_next x (xs @ x # ys) = (case ys of [] \<Rightarrow> None | y # _ \<Rightarrow> Some y)"
    "tailq_insert_before x n (xs @ x # ys) = xs @ n # x # ys"
    "tailq_insert_after x n (xs @ x # ys) = xs @ x # n # ys"
  using assms by (simp_all add: tailq_next_def tailq_insert_before_def tailq_insert_after_def)

lemma tailq_prev_at [simp]:
  assumes "x \<notin> set xs"
  shows "tailq_prev x (xs @ x # ys) = (if xs = [] then None else Some (last xs))"
  unfolding tailq_prev_def tailq_split(1) [OF assms] by (cases xs rule: rev_cases) simp_all

subsection \<open>State\<close>

type_synonym smf_ref = nat

definition NBUCKET :: nat where "NBUCKET = 128 div 4 + 1"

definition MINPAGES :: nat where "MINPAGES = 128"

record smf =
  smf_alloced :: bool
  smf_size :: nat
  smf_offset :: nat
  smf_ptr :: nat
  smf_flist :: "nat option"
  smf_s :: storage

record smf_sc =
  sc_pagesize :: nat
  sc_smf :: "smf_ref \<rightharpoonup> smf"
  sc_order :: "smf_ref list"
  sc_free :: "nat \<Rightarrow> smf_ref list"
  sc_used :: "smf_ref list"
  g_smf :: int
  g_smf_frag :: int
  g_smf_large :: int
  sc_filesize :: nat
  smf_c_req :: int
  smf_c_fail :: int
  smf_c_bytes :: int
  smf_c_freed :: int
  smf_g_alloc :: int
  smf_g_bytes :: int
  smf_g_space :: int

definition smf_upd :: "smf_ref \<Rightarrow> (smf \<Rightarrow> smf) \<Rightarrow> smf_sc \<Rightarrow> smf_sc option" where
  "smf_upd x f sc = do { r \<leftarrow> sc_smf sc x; Some (sc\<lparr>sc_smf := (sc_smf sc)(x \<mapsto> f r)\<rparr>) }"

subsection \<open>The free lists\<close>

text \<open>Where \<open>insfree\<close> puts a range: before the first one with a larger offset.\<close>

fun insfree_pos :: "smf_sc \<Rightarrow> nat \<Rightarrow> nat \<Rightarrow> smf_ref \<Rightarrow> nat \<Rightarrow> smf_ref list \<Rightarrow> smf_ref list option" where
  "insfree_pos sc b ns x off [] = Some [x]"
| "insfree_pos sc b ns x off (y # ys) = do {
     r \<leftarrow> sc_smf sc y;
     assert_c (smf_size r \<ge> ns);
     assert_c (\<not> smf_alloced r);
     assert_c (smf_flist r = Some b);
     (if off < smf_offset r then Some (x # y # ys)
      else do { l \<leftarrow> insfree_pos sc b ns x off ys; Some (y # l) })
   }"

definition insfree :: "smf_ref \<Rightarrow> smf_sc \<Rightarrow> smf_sc option" where
  "insfree x sc = do {
     r \<leftarrow> sc_smf sc x;
     assert_c (\<not> smf_alloced r);
     assert_c (smf_flist r = None);
     assert_c (sc_pagesize sc \<noteq> 0);
     let b = smf_size r div sc_pagesize sc;
     let (b, sc) = (if b \<ge> NBUCKET then (NBUCKET - 1, sc\<lparr>g_smf_large := g_smf_large sc + 1\<rparr>)
                    else (b, sc\<lparr>g_smf_frag := g_smf_frag sc + 1\<rparr>));
     l \<leftarrow> insfree_pos sc b (b * sc_pagesize sc) x (smf_offset r) (sc_free sc b);
     Some (sc\<lparr>sc_smf := (sc_smf sc)(x \<mapsto> r\<lparr>smf_flist := Some b\<rparr>), sc_free := (sc_free sc)(b := l)\<rparr>)
   }"

definition remfree :: "smf_ref \<Rightarrow> smf_sc \<Rightarrow> smf_sc option" where
  "remfree x sc = do {
     r \<leftarrow> sc_smf sc x;
     assert_c (\<not> smf_alloced r);
     assert_c (smf_flist r \<noteq> None);
     assert_c (sc_pagesize sc \<noteq> 0);
     let b = smf_size r div sc_pagesize sc;
     let (b, sc) = (if b \<ge> NBUCKET then (NBUCKET - 1, sc\<lparr>g_smf_large := g_smf_large sc - 1\<rparr>)
                    else (b, sc\<lparr>g_smf_frag := g_smf_frag sc - 1\<rparr>));
     assert_c (smf_flist r = Some b);
     assert_c (x \<in> set (sc_free sc b));
     Some (sc\<lparr>sc_smf := (sc_smf sc)(x \<mapsto> r\<lparr>smf_flist := None\<rparr>), sc_free := (sc_free sc)(b := remove1 x (sc_free sc b))\<rparr>)
   }"

subsection \<open>Allocating\<close>

text \<open>The first range of the buckets from \<open>b\<close> on, but for the last bucket.\<close>

fun first_bucket :: "smf_sc \<Rightarrow> nat list \<Rightarrow> smf_ref option" where
  "first_bucket sc [] = None"
| "first_bucket sc (b # bs) = (case sc_free sc b of x # _ \<Rightarrow> Some x | [] \<Rightarrow> first_bucket sc bs)"

fun first_large :: "smf_sc \<Rightarrow> nat \<Rightarrow> smf_ref list \<Rightarrow> smf_ref option option" where
  "first_large sc bytes [] = Some None"
| "first_large sc bytes (x # xs) = do {
     r \<leftarrow> sc_smf sc x;
     (if smf_size r \<ge> bytes then Some (Some x) else first_large sc bytes xs)
   }"

definition alloc_smf :: "smf_ref \<Rightarrow> nat \<Rightarrow> smf_sc \<Rightarrow> (smf_sc \<times> smf_ref option) option" where
  "alloc_smf n bytes sc = do {
     assert_c (sc_pagesize sc \<noteq> 0);
     assert_c (bytes mod sc_pagesize sc = 0);
     let b = min (bytes div sc_pagesize sc) (NBUCKET - 1);
     sp \<leftarrow> (case first_bucket sc [b..<NBUCKET - 1] of
              Some x \<Rightarrow> Some (Some x)
            | None \<Rightarrow> first_large sc bytes (sc_free sc (NBUCKET - 1)));
     (case sp of
        None \<Rightarrow> Some (sc, None)
      | Some sp \<Rightarrow> do {
          r \<leftarrow> sc_smf sc sp;
          assert_c (smf_size r \<ge> bytes);
          sc \<leftarrow> remfree sp sc;
          (if smf_size r = bytes then do {
             sc \<leftarrow> smf_upd sp (\<lambda>r. r\<lparr>smf_alloced := True\<rparr>) sc;
             Some (sc\<lparr>sc_used := sc_used sc @ [sp]\<rparr>, Some sp)
           }
           else do {
             r \<leftarrow> sc_smf sc sp;
             let r2 = r\<lparr>smf_size := bytes, smf_alloced := True\<rparr>;
             let r = r\<lparr>smf_offset := smf_offset r + bytes, smf_ptr := smf_ptr r + bytes, smf_size := smf_size r - bytes\<rparr>;
             let sc = sc\<lparr>g_smf := g_smf sc + 1, sc_smf := (sc_smf sc)(n \<mapsto> r2, sp \<mapsto> r),
                         sc_order := tailq_insert_before sp n (sc_order sc), sc_used := sc_used sc @ [n]\<rparr>;
             sc \<leftarrow> insfree sp sc;
             Some (sc, Some n)
           })
        })
   }"

subsection \<open>Freeing\<close>

definition joins :: "smf \<Rightarrow> smf \<Rightarrow> bool" where
  "joins r r2 \<longleftrightarrow> smf_ptr r2 = smf_ptr r + smf_size r \<and> smf_offset r2 = smf_offset r + smf_size r"

definition free_next :: "smf_ref \<Rightarrow> smf_sc \<Rightarrow> smf_sc option" where
  "free_next sp sc = (case tailq_next sp (sc_order sc) of
     None \<Rightarrow> Some sc
   | Some sp2 \<Rightarrow> do {
       r \<leftarrow> sc_smf sc sp;
       r2 \<leftarrow> sc_smf sc sp2;
       (if \<not> smf_alloced r2 \<and> joins r r2 then do {
          let sc = sc\<lparr>sc_smf := (sc_smf sc)(sp \<mapsto> r\<lparr>smf_size := smf_size r + smf_size r2\<rparr>),
                      sc_order := remove1 sp2 (sc_order sc)\<rparr>;
          sc \<leftarrow> remfree sp2 sc;
          Some (sc\<lparr>sc_smf := (sc_smf sc)(sp2 := None), g_smf := g_smf sc - 1\<rparr>)
        }
        else Some sc)
     })"

text \<open>The result has the range that is to go on a free list.\<close>

definition free_prev :: "smf_ref \<Rightarrow> smf_sc \<Rightarrow> (smf_sc \<times> smf_ref) option" where
  "free_prev sp sc = (case tailq_prev sp (sc_order sc) of
     None \<Rightarrow> Some (sc, sp)
   | Some sp2 \<Rightarrow> do {
       r \<leftarrow> sc_smf sc sp;
       r2 \<leftarrow> sc_smf sc sp2;
       (if \<not> smf_alloced r2 \<and> joins r2 r then do {
          sc \<leftarrow> remfree sp2 sc;
          sc \<leftarrow> smf_upd sp2 (\<lambda>q. q\<lparr>smf_size := smf_size q + smf_size r\<rparr>) sc;
          Some (sc\<lparr>sc_smf := (sc_smf sc)(sp := None), sc_order := remove1 sp (sc_order sc), g_smf := g_smf sc - 1\<rparr>, sp2)
        }
        else Some (sc, sp))
     })"

definition free_smf :: "smf_ref \<Rightarrow> smf_sc \<Rightarrow> smf_sc option" where
  "free_smf sp sc = do {
     r \<leftarrow> sc_smf sc sp;
     assert_c (smf_alloced r);
     assert_c (smf_size r > 0);
     assert_c (sc_pagesize sc \<noteq> 0);
     assert_c (smf_size r mod sc_pagesize sc = 0);
     assert_c (sp \<in> set (sc_used sc));
     let sc = sc\<lparr>sc_used := remove1 sp (sc_used sc), sc_smf := (sc_smf sc)(sp \<mapsto> r\<lparr>smf_alloced := False\<rparr>)\<rparr>;
     sc \<leftarrow> free_next sp sc;
     (sc, sp) \<leftarrow> free_prev sp sc;
     insfree sp sc
   }"

definition trim_smf :: "smf_ref \<Rightarrow> smf_ref \<Rightarrow> nat \<Rightarrow> smf_sc \<Rightarrow> smf_sc option" where
  "trim_smf n sp bytes sc = do {
     r \<leftarrow> sc_smf sc sp;
     assert_c (smf_alloced r);
     assert_c (bytes > 0);
     assert_c (bytes < smf_size r);
     assert_c (sc_pagesize sc \<noteq> 0);
     assert_c (bytes mod sc_pagesize sc = 0);
     assert_c (smf_size r mod sc_pagesize sc = 0);
     let r2 = r\<lparr>smf_size := smf_size r - bytes, smf_ptr := smf_ptr r + bytes, smf_offset := smf_offset r + bytes\<rparr>;
     free_smf n (sc\<lparr>g_smf := g_smf sc + 1, sc_smf := (sc_smf sc)(n \<mapsto> r2, sp \<mapsto> r\<lparr>smf_size := bytes\<rparr>),
       sc_order := tailq_insert_after sp n (sc_order sc), sc_used := sc_used sc @ [n]\<rparr>)
   }"

subsection \<open>Opening\<close>

definition no_storage :: storage where
  "no_storage = \<lparr>st_ptr = 0, st_len = 0, st_space = 0\<rparr>"

fun order_insert :: "smf_sc \<Rightarrow> smf_ref \<Rightarrow> nat \<Rightarrow> smf_ref list \<Rightarrow> smf_ref list option" where
  "order_insert sc n p [] = Some [n]"
| "order_insert sc n p (y # ys) = do {
     r \<leftarrow> sc_smf sc y;
     (if p < smf_ptr r then Some (n # y # ys) else do { l \<leftarrow> order_insert sc n p ys; Some (y # l) })
   }"

definition new_smf :: "smf_ref \<Rightarrow> nat \<Rightarrow> nat \<Rightarrow> nat \<Rightarrow> smf_sc \<Rightarrow> smf_sc option" where
  "new_smf n p off len sc = do {
     assert_c (sc_pagesize sc \<noteq> 0);
     assert_c (len mod sc_pagesize sc = 0);
     l \<leftarrow> order_insert sc n p (sc_order sc);
     let r = \<lparr>smf_alloced = True, smf_size = len, smf_offset = off, smf_ptr = p, smf_flist = None, smf_s = no_storage\<rparr>;
     free_smf n (sc\<lparr>g_smf := g_smf sc + 1, sc_smf := (sc_smf sc)(n \<mapsto> r), sc_order := l, sc_used := n # sc_used sc\<rparr>)
   }"


subsection \<open>The invariant\<close>

definition bucket :: "nat \<Rightarrow> nat \<Rightarrow> nat" where
  "bucket ps sz = min (sz div ps) (NBUCKET - 1)"

abbreviation rng :: "smf_sc \<Rightarrow> smf_ref \<Rightarrow> smf" where
  "rng sc x \<equiv> the (sc_smf sc x)"

abbreviation smf_end :: "smf \<Rightarrow> nat" where
  "smf_end r \<equiv> smf_ptr r + smf_size r"

definition ranges :: "smf_sc \<Rightarrow> smf list" where
  "ranges sc = map (rng sc) (sc_order sc)"

text \<open>
  The ranges do not overlap and are in the order of their addresses; each is on the list its state and size ask
  for, but for those in \<open>F\<close>, which are in transit.
\<close>

definition smf_wf :: "smf_ref set \<Rightarrow> smf_sc \<Rightarrow> bool" where
  "smf_wf F sc \<longleftrightarrow> 0 < sc_pagesize sc \<and> distinct (sc_order sc) \<and> dom (sc_smf sc) = set (sc_order sc) \<and> F \<subseteq> set (sc_order sc) \<and>
     sorted_wrt (\<lambda>r q. smf_end r \<le> smf_ptr q) (ranges sc) \<and>
     (\<forall>x r. sc_smf sc x = Some r \<longrightarrow> 0 < smf_size r \<and> sc_pagesize sc dvd smf_size r \<and>
        smf_flist r = (if smf_alloced r \<or> x \<in> F then None else Some (bucket (sc_pagesize sc) (smf_size r)))) \<and>
     distinct (sc_used sc) \<and> set (sc_used sc) = {x. \<exists>r. sc_smf sc x = Some r \<and> smf_alloced r \<and> x \<notin> F} \<and>
     (\<forall>b. distinct (sc_free sc b) \<and>
        set (sc_free sc b) = {x. \<exists>r. sc_smf sc x = Some r \<and> \<not> smf_alloced r \<and> x \<notin> F \<and> bucket (sc_pagesize sc) (smf_size r) = b})"

text \<open>No two free ranges that could be one.\<close>

definition joinable :: "smf \<Rightarrow> smf \<Rightarrow> bool" where
  "joinable r q \<longleftrightarrow> \<not> smf_alloced r \<and> \<not> smf_alloced q \<and> joins r q"

definition coalesced :: "smf_sc \<Rightarrow> bool" where
  "coalesced sc \<longleftrightarrow> successively (\<lambda>r q. \<not> joinable r q) (ranges sc)"

definition smf_inv :: "smf_sc \<Rightarrow> bool" where
  "smf_inv sc \<longleftrightarrow> smf_wf {} sc \<and> coalesced sc"

lemma smf_wfD:
  assumes "smf_wf F sc"
  shows "0 < sc_pagesize sc" "distinct (sc_order sc)" "dom (sc_smf sc) = set (sc_order sc)" "F \<subseteq> set (sc_order sc)"
    "sorted_wrt (\<lambda>r q. smf_end r \<le> smf_ptr q) (ranges sc)"
    "sc_smf sc x = Some r \<Longrightarrow> 0 < smf_size r" "sc_smf sc x = Some r \<Longrightarrow> sc_pagesize sc dvd smf_size r"
    "sc_smf sc x = Some r \<Longrightarrow> smf_flist r = (if smf_alloced r \<or> x \<in> F then None else Some (bucket (sc_pagesize sc) (smf_size r)))"
    "distinct (sc_used sc)" "x \<in> set (sc_used sc) \<longleftrightarrow> (\<exists>r. sc_smf sc x = Some r \<and> smf_alloced r \<and> x \<notin> F)"
    "distinct (sc_free sc b)"
    "x \<in> set (sc_free sc b) \<longleftrightarrow> (\<exists>r. sc_smf sc x = Some r \<and> \<not> smf_alloced r \<and> x \<notin> F \<and> bucket (sc_pagesize sc) (smf_size r) = b)"
  using assms unfolding smf_wf_def by (blast | simp)+

lemma bucket_le: "bucket ps sz \<le> NBUCKET - 1"
  by (simp add: bucket_def)

lemma bucket_size:
  assumes "bucket ps sz = b"
  shows "b * ps \<le> sz"
proof -
  have "b * ps \<le> sz div ps * ps" using assms by (intro mult_le_mono1) (simp add: bucket_def)
  then show ?thesis by (rule le_trans) (rule div_times_less_eq_dividend)
qed

lemma NBUCKET_bucket: "(if NBUCKET \<le> sz div ps then NBUCKET - 1 else sz div ps) = bucket ps sz"
  by (auto simp: bucket_def NBUCKET_def)

subsection \<open>The free lists are right\<close>

lemma insfree_pos_ok:
  assumes "\<And>y. y \<in> set l \<Longrightarrow> \<exists>r. sc_smf sc y = Some r \<and> ns \<le> smf_size r \<and> \<not> smf_alloced r \<and> smf_flist r = Some b"
  shows "\<exists>l'. insfree_pos sc b ns x off l = Some l' \<and> set l' = insert x (set l) \<and> (x \<notin> set l \<longrightarrow> distinct l \<longrightarrow> distinct l')"
  using assms
proof (induction l)
  case (Cons y ys)
  obtain l' where l': "insfree_pos sc b ns x off ys = Some l'" "set l' = insert x (set ys)" "x \<notin> set ys \<longrightarrow> distinct ys \<longrightarrow> distinct l'"
    using Cons by (metis list.set_intros(2))
  obtain r where r: "sc_smf sc y = Some r" "ns \<le> smf_size r" "\<not> smf_alloced r" "smf_flist r = Some b" using Cons.prems [of y] by auto
  then show ?case using l' by auto
qed simp

lemma insfree_ok:
  assumes wf: "smf_wf (insert x F) sc" and x: "x \<notin> F" "sc_smf sc x = Some r" "\<not> smf_alloced r"
  shows "\<exists>sc'. insfree x sc = Some sc' \<and> smf_wf F sc' \<and> sc_order sc' = sc_order sc \<and> sc_used sc' = sc_used sc \<and> sc_pagesize sc' = sc_pagesize sc \<and>
    sc_smf sc' = (sc_smf sc)(x \<mapsto> r\<lparr>smf_flist := Some (bucket (sc_pagesize sc) (smf_size r))\<rparr>)"
proof -
  note w = smf_wfD [OF wf]
  let ?b = "bucket (sc_pagesize sc) (smf_size r)"
  have fl: "smf_flist r = None" using w(8) [OF x(2)] by simp
  let ?st = "if NBUCKET \<le> smf_size r div sc_pagesize sc then sc\<lparr>g_smf_large := g_smf_large sc + 1\<rparr> else sc\<lparr>g_smf_frag := g_smf_frag sc + 1\<rparr>"
  have st: "sc_smf ?st = sc_smf sc" "sc_free ?st = sc_free sc" "sc_pagesize ?st = sc_pagesize sc" "sc_order ?st = sc_order sc" "sc_used ?st = sc_used sc" by simp_all
  have "\<exists>q. sc_smf ?st y = Some q \<and> ?b * sc_pagesize sc \<le> smf_size q \<and> \<not> smf_alloced q \<and> smf_flist q = Some ?b" if "y \<in> set (sc_free sc ?b)" for y
    using that bucket_size [of "sc_pagesize sc" _ ?b] w(8) [of y] unfolding w(12) st by auto
  then obtain l where l: "insfree_pos ?st ?b (?b * sc_pagesize sc) x (smf_offset r) (sc_free sc ?b) = Some l" "set l = insert x (set (sc_free sc ?b))" "distinct l"
    using insfree_pos_ok [of "sc_free sc ?b" ?st "?b * sc_pagesize sc" ?b x "smf_offset r"] w(11,12) by blast
  let ?sc = "?st\<lparr>sc_smf := (sc_smf sc)(x \<mapsto> r\<lparr>smf_flist := Some ?b\<rparr>), sc_free := (sc_free sc)(?b := l)\<rparr>"
  have run: "insfree x sc = Some ?sc"
    using x(2,3) fl w(1) l(1) NBUCKET_bucket [of "smf_size r" "sc_pagesize sc"] by (auto simp: insfree_def Let_def split: if_splits)
  have "smf_wf F ?sc"
    unfolding smf_wf_def
  proof (intro conjI allI impI)
    show "sorted_wrt (\<lambda>r q. smf_end r \<le> smf_ptr q) (ranges ?sc)"
      using w(5) x(2) unfolding ranges_def sorted_wrt_map by (auto simp: st elim!: sorted_wrt_mono_rel [rotated])
    fix b
    show "set (sc_free ?sc b) = {y. \<exists>q. sc_smf ?sc y = Some q \<and> \<not> smf_alloced q \<and> y \<notin> F \<and> bucket (sc_pagesize ?sc) (smf_size q) = b}"
      using w(12) l(2) x by (auto simp: st)
    show "distinct (sc_free ?sc b)" using l(3) w(11) by simp
  qed (use w x in \<open>auto simp: st split: if_splits\<close>)
  then show ?thesis using run by (intro exI [of _ ?sc]) (simp add: st)
qed

lemma remfree_ok:
  assumes wf: "smf_wf F sc" and x: "x \<notin> F" "sc_smf sc x = Some r" "\<not> smf_alloced r"
  shows "\<exists>sc'. remfree x sc = Some sc' \<and> smf_wf (insert x F) sc' \<and> sc_order sc' = sc_order sc \<and> sc_used sc' = sc_used sc \<and> sc_pagesize sc' = sc_pagesize sc \<and>
    sc_smf sc' = (sc_smf sc)(x \<mapsto> r\<lparr>smf_flist := None\<rparr>)"
proof -
  note w = smf_wfD [OF wf]
  let ?b = "bucket (sc_pagesize sc) (smf_size r)"
  have fl: "smf_flist r = Some ?b" "x \<in> set (sc_free sc ?b)" using w(8) [OF x(2)] w(12) x by auto
  let ?st = "if NBUCKET \<le> smf_size r div sc_pagesize sc then sc\<lparr>g_smf_large := g_smf_large sc - 1\<rparr> else sc\<lparr>g_smf_frag := g_smf_frag sc - 1\<rparr>"
  have st: "sc_smf ?st = sc_smf sc" "sc_free ?st = sc_free sc" "sc_pagesize ?st = sc_pagesize sc" "sc_order ?st = sc_order sc" "sc_used ?st = sc_used sc" by simp_all
  let ?sc = "?st\<lparr>sc_smf := (sc_smf sc)(x \<mapsto> r\<lparr>smf_flist := None\<rparr>), sc_free := (sc_free sc)(?b := remove1 x (sc_free sc ?b))\<rparr>"
  have run: "remfree x sc = Some ?sc"
    using x(2,3) fl w(1) NBUCKET_bucket [of "smf_size r" "sc_pagesize sc"] by (auto simp: remfree_def Let_def split: if_splits)
  have "smf_wf (insert x F) ?sc"
    unfolding smf_wf_def
  proof (intro conjI allI impI)
    show "sorted_wrt (\<lambda>r q. smf_end r \<le> smf_ptr q) (ranges ?sc)"
      using w(5) x(2) unfolding ranges_def sorted_wrt_map by (auto simp: st elim!: sorted_wrt_mono_rel [rotated])
    fix b
    show "set (sc_free ?sc b) = {y. \<exists>q. sc_smf ?sc y = Some q \<and> \<not> smf_alloced q \<and> y \<notin> insert x F \<and> bucket (sc_pagesize ?sc) (smf_size q) = b}"
      using w(11,12) x by (auto simp: st)
    show "distinct (sc_free ?sc b)" using w(11) by simp
  qed (use w x in \<open>auto simp: st split: if_splits\<close>)
  then show ?thesis using run by (intro exI [of _ ?sc]) (simp add: st)
qed

subsection \<open>Allocating keeps the invariant\<close>

text \<open>What the users of the storage see: the ranges in use.\<close>

definition smf_live :: "smf_sc \<Rightarrow> smf_ref \<Rightarrow> (nat \<times> nat \<times> nat \<times> storage) option" where
  "smf_live sc x = (case sc_smf sc x of
     Some r \<Rightarrow> if smf_alloced r then Some (smf_ptr r, smf_offset r, smf_size r, smf_s r) else None
   | None \<Rightarrow> None)"

definition smf_total :: "smf_sc \<Rightarrow> nat" where
  "smf_total sc = sum_list (map smf_size (ranges sc))"

text \<open>The memory the ranges cover.\<close>

definition rmem :: "smf \<Rightarrow> nat set" where
  "rmem r = {smf_ptr r..<smf_end r}"

definition smf_mem :: "smf_sc \<Rightarrow> nat set" where
  "smf_mem sc = \<Union> (rmem ` set (ranges sc))"

lemma rmem_join: "smf_ptr q = smf_end r \<Longrightarrow> {smf_ptr r..<smf_ptr r + (smf_size r + smf_size q)} = rmem r \<union> rmem q"
  by (auto simp: rmem_def)

lemma order_split:
  assumes "smf_wf F sc" and "sc_smf sc x = Some r"
  shows "\<exists>xs ys. sc_order sc = xs @ x # ys \<and> x \<notin> set xs \<and> x \<notin> set ys"
proof -
  have "x \<in> set (sc_order sc)" using smf_wfD(3) [OF assms(1)] assms(2) by blast
  then obtain xs ys where "sc_order sc = xs @ x # ys" by (meson split_list)
  then show ?thesis using smf_wfD(2) [OF assms(1)] by auto
qed

lemma first_bucket_Some: "first_bucket sc bs = Some x \<Longrightarrow> \<exists>b \<in> set bs. x \<in> set (sc_free sc b)"
  by (induction bs) (auto split: list.splits)

lemma first_bucket_None: "first_bucket sc bs = None \<Longrightarrow> b \<in> set bs \<Longrightarrow> sc_free sc b = []"
  by (induction bs) (auto split: list.splits)

lemma first_large_eq:
  assumes "\<And>x. x \<in> set l \<Longrightarrow> sc_smf sc x \<noteq> None"
  shows "first_large sc bytes l = Some (List.find (\<lambda>x. bytes \<le> smf_size (rng sc x)) l)"
  using assms
proof (induction l)
  case (Cons a l)
  obtain r where "sc_smf sc a = Some r" using Cons.prems [of a] by auto
  then show ?case using Cons by simp
qed simp

lemma bucket_mono: "a \<le> b \<Longrightarrow> bucket ps a \<le> bucket ps b"
  by (auto simp: bucket_def intro: min.coboundedI1 div_le_mono)

lemma alloc_search:
  assumes wf: "smf_wf {} sc" and bytes: "sc_pagesize sc dvd bytes"
  shows "\<exists>sp. (case first_bucket sc [min (bytes div sc_pagesize sc) (NBUCKET - 1)..<NBUCKET - 1] of
        Some x \<Rightarrow> Some (Some x) | None \<Rightarrow> first_large sc bytes (sc_free sc (NBUCKET - 1))) = Some sp \<and>
    (case sp of
       None \<Rightarrow> \<forall>x r. sc_smf sc x = Some r \<longrightarrow> \<not> smf_alloced r \<longrightarrow> smf_size r < bytes
     | Some x \<Rightarrow> \<exists>r. sc_smf sc x = Some r \<and> \<not> smf_alloced r \<and> bytes \<le> smf_size r)"
proof -
  note w = smf_wfD [OF wf]
  let ?ps = "sc_pagesize sc" and ?b = "min (bytes div sc_pagesize sc) (NBUCKET - 1)"
  have large: "first_large sc bytes (sc_free sc (NBUCKET - 1)) = Some (List.find (\<lambda>x. bytes \<le> smf_size (rng sc x)) (sc_free sc (NBUCKET - 1)))"
    by (rule first_large_eq) (use w(12) in blast)
  show ?thesis
  proof (cases "first_bucket sc [?b..<NBUCKET - 1]")
    case (Some x)
    then obtain c where c: "?b \<le> c" "c < NBUCKET - 1" "x \<in> set (sc_free sc c)" using first_bucket_Some [OF Some] by (metis atLeastLessThan_iff set_upt)
    then obtain r where r: "sc_smf sc x = Some r" "\<not> smf_alloced r" "bucket ?ps (smf_size r) = c" using w(12) by blast
    have "bytes = bytes div ?ps * ?ps" using bytes by simp
    also have "\<dots> \<le> c * ?ps" using c(1,2) by (intro mult_le_mono1) auto
    also have "\<dots> \<le> smf_size r" by (rule bucket_size [OF r(3)])
    finally show ?thesis using Some r by auto
  next
    case None
    show ?thesis
    proof (cases "List.find (\<lambda>x. bytes \<le> smf_size (rng sc x)) (sc_free sc (NBUCKET - 1))")
      case None': None
      have "smf_size r < bytes" if r: "sc_smf sc x = Some r" "\<not> smf_alloced r" for x r
      proof (rule ccontr)
        assume "\<not> smf_size r < bytes"
        then have ge: "?b \<le> bucket ?ps (smf_size r)" "bytes \<le> smf_size r"
          using bucket_mono [of bytes "smf_size r" ?ps] by (simp_all add: bucket_def)
        have mem: "x \<in> set (sc_free sc (bucket ?ps (smf_size r)))" using w(12) r by auto
        then have "bucket ?ps (smf_size r) = NBUCKET - 1"
          using first_bucket_None [OF None, of "bucket ?ps (smf_size r)"] ge(1) bucket_le [of ?ps "smf_size r"]
          by (cases "bucket ?ps (smf_size r) < NBUCKET - 1") auto
        then show False using None' mem ge(2) r(1) by (auto simp: find_None_iff)
      qed
      then show ?thesis using None None' large by auto
    next
      case (Some x)
      then have "x \<in> set (sc_free sc (NBUCKET - 1))" "bytes \<le> smf_size (rng sc x)" by (auto simp: find_Some_iff)
      then show ?thesis using None Some large w(12) by auto
    qed
  qed
qed

text \<open>Splitting the front off a free range.\<close>

lemma split_wf:
  assumes wf: "smf_wf {sp} sc" and sp: "sc_smf sc sp = Some r" "\<not> smf_alloced r" and n: "sc_smf sc n = None"
    and bytes: "sc_pagesize sc dvd bytes" "0 < bytes" "bytes < smf_size r" and ord: "sc_order sc = xs @ sp # ys" "sp \<notin> set xs"
    and sc': "sc_smf sc' = (sc_smf sc)(n \<mapsto> r\<lparr>smf_size := bytes, smf_alloced := True\<rparr>,
        sp \<mapsto> r\<lparr>smf_offset := smf_offset r + bytes, smf_ptr := smf_ptr r + bytes, smf_size := smf_size r - bytes\<rparr>)"
      "sc_order sc' = xs @ n # sp # ys" "sc_used sc' = sc_used sc @ [n]" "sc_pagesize sc' = sc_pagesize sc" "sc_free sc' = sc_free sc"
  shows "smf_wf {sp} sc'" "ranges sc' = map (rng sc) xs @ r\<lparr>smf_size := bytes, smf_alloced := True\<rparr> #
    r\<lparr>smf_offset := smf_offset r + bytes, smf_ptr := smf_ptr r + bytes, smf_size := smf_size r - bytes\<rparr> # map (rng sc) ys"
proof -
  note w = smf_wfD [OF wf]
  have dist: "n \<notin> set xs" "n \<noteq> sp" "n \<notin> set ys" "sp \<notin> set ys" "distinct xs" "distinct ys" "set xs \<inter> set ys = {}"
    using w(2,3) n sp(1) unfolding ord(1) by (auto simp: domIff)
  let ?r2 = "r\<lparr>smf_size := bytes, smf_alloced := True\<rparr>" and ?r = "r\<lparr>smf_offset := smf_offset r + bytes, smf_ptr := smf_ptr r + bytes, smf_size := smf_size r - bytes\<rparr>"
  have old: "map (rng sc') xs = map (rng sc) xs" "map (rng sc') ys = map (rng sc) ys" using dist ord(2) by (auto simp: sc'(1))
  show rg: "ranges sc' = map (rng sc) xs @ ?r2 # ?r # map (rng sc) ys" using dist old by (simp add: ranges_def sc'(1,2))
  have rg0: "ranges sc = map (rng sc) xs @ r # map (rng sc) ys" using sp(1) by (simp add: ranges_def ord(1))
  have srt: "sorted_wrt (\<lambda>r q. smf_end r \<le> smf_ptr q) (ranges sc')"
    using w(5) bytes(3) unfolding rg rg0 by (fastforce simp: sorted_wrt_append)
  have fl: "smf_flist r = None" using w(8) [OF sp(1)] by simp
  have dv: "sc_pagesize sc dvd smf_size r - bytes" using w(7) [OF sp(1)] bytes(1) by (rule dvd_diff_nat)
  show "smf_wf {sp} sc'"
    unfolding smf_wf_def sc'(3-5)
  proof (intro conjI allI impI)
    show "dom (sc_smf sc') = set (sc_order sc')" using w(3) by (auto simp: sc'(1,2) ord(1))
    show "set (sc_used sc @ [n]) = {x. \<exists>r. sc_smf sc' x = Some r \<and> smf_alloced r \<and> x \<notin> {sp}}"
      using w(10) dist n by (auto simp: sc'(1))
    show "set (sc_free sc b) = {x. \<exists>r. sc_smf sc' x = Some r \<and> \<not> smf_alloced r \<and> x \<notin> {sp} \<and> bucket (sc_pagesize sc) (smf_size r) = b}" for b
      using w(12) dist n by (auto simp: sc'(1))
    show "distinct (sc_used sc @ [n])" using w(9,10) n by auto
  qed (use w dist ord bytes srt fl dv in \<open>auto simp: sc'(1,2) split: if_splits\<close>)
qed

text \<open>A range that joins the free lists or leaves them is otherwise the same.\<close>

lemma flist_upd_ranges:
  assumes "sc_smf sc x = Some r" and "sc_smf sc' = (sc_smf sc)(x \<mapsto> r\<lparr>smf_flist := f\<rparr>)" and "sc_order sc' = sc_order sc"
  shows "map (\<lambda>r. r\<lparr>smf_flist := None\<rparr>) (ranges sc') = map (\<lambda>r. r\<lparr>smf_flist := None\<rparr>) (ranges sc)"
  using assms by (auto simp: ranges_def)

lemma ranges_flist:
  assumes "map (\<lambda>r. r\<lparr>smf_flist := None\<rparr>) rs = map (\<lambda>r. r\<lparr>smf_flist := None\<rparr>) qs"
  shows "sum_list (map smf_size rs) = sum_list (map smf_size qs)"
    "successively (\<lambda>r q. \<not> joinable r q) rs = successively (\<lambda>r q. \<not> joinable r q) qs" "rmem ` set rs = rmem ` set qs"
proof -
  have "rmem ` set (map (\<lambda>r. r\<lparr>smf_flist := None\<rparr>) rs) = rmem ` set (map (\<lambda>r. r\<lparr>smf_flist := None\<rparr>) qs)" using assms by simp
  then show "rmem ` set rs = rmem ` set qs" by (simp add: rmem_def image_image)
  have "map smf_size (map (\<lambda>r. r\<lparr>smf_flist := None\<rparr>) rs) = map smf_size (map (\<lambda>r. r\<lparr>smf_flist := None\<rparr>) qs)" using assms by simp
  then show "sum_list (map smf_size rs) = sum_list (map smf_size qs)" by (simp add: o_def)
  have "successively (\<lambda>r q. \<not> joinable r q) (map (\<lambda>r. r\<lparr>smf_flist := None\<rparr>) rs) = successively (\<lambda>r q. \<not> joinable r q) (map (\<lambda>r. r\<lparr>smf_flist := None\<rparr>) qs)" using assms by simp
  then show "successively (\<lambda>r q. \<not> joinable r q) rs = successively (\<lambda>r q. \<not> joinable r q) qs" by (simp add: successively_map joinable_def joins_def)
qed

lemma alloc_smf_ok:
  assumes inv: "smf_inv sc" and bytes: "sc_pagesize sc dvd bytes" "0 < bytes" and n: "sc_smf sc n = None"
  shows "\<exists>sc' res. alloc_smf n bytes sc = Some (sc', res) \<and> smf_inv sc' \<and> smf_total sc' = smf_total sc \<and> smf_mem sc' = smf_mem sc \<and> sc_pagesize sc' = sc_pagesize sc \<and>
    (case res of
       None \<Rightarrow> sc' = sc \<and> (\<forall>x r. sc_smf sc x = Some r \<longrightarrow> \<not> smf_alloced r \<longrightarrow> smf_size r < bytes)
     | Some x \<Rightarrow> smf_live sc x = None \<and> (\<exists>y r. sc_smf sc y = Some r \<and> \<not> smf_alloced r \<and> bytes \<le> smf_size r \<and>
         smf_live sc' = (smf_live sc)(x \<mapsto> (smf_ptr r, smf_offset r, bytes, smf_s r))))"
proof -
  have wf: "smf_wf {} sc" and co: "coalesced sc" using inv by (auto simp: smf_inv_def)
  note w = smf_wfD [OF wf]
  obtain sp where sp: "(case first_bucket sc [min (bytes div sc_pagesize sc) (NBUCKET - 1)..<NBUCKET - 1] of
        Some x \<Rightarrow> Some (Some x) | None \<Rightarrow> first_large sc bytes (sc_free sc (NBUCKET - 1))) = Some sp"
      "case sp of None \<Rightarrow> \<forall>x r. sc_smf sc x = Some r \<longrightarrow> \<not> smf_alloced r \<longrightarrow> smf_size r < bytes
       | Some x \<Rightarrow> \<exists>r. sc_smf sc x = Some r \<and> \<not> smf_alloced r \<and> bytes \<le> smf_size r"
    using alloc_search [OF wf bytes(1)] by blast
  have md: "bytes mod sc_pagesize sc = 0" using bytes(1) by simp
  show ?thesis
  proof (cases sp)
    case None
    then have "alloc_smf n bytes sc = Some (sc, None)" using sp(1) w(1) md by (simp add: alloc_smf_def Let_def)
    then show ?thesis using inv sp(2) None by auto
  next
    case (Some x)
    then obtain r where r: "sc_smf sc x = Some r" "\<not> smf_alloced r" "bytes \<le> smf_size r" using sp(2) by auto
    obtain sc1 where sc1: "remfree x sc = Some sc1" "smf_wf {x} sc1" "sc_order sc1 = sc_order sc" "sc_used sc1 = sc_used sc" "sc_pagesize sc1 = sc_pagesize sc"
        "sc_smf sc1 = (sc_smf sc)(x \<mapsto> r\<lparr>smf_flist := None\<rparr>)"
      using remfree_ok [OF wf _ r(1,2)] by auto
    note w1 = smf_wfD [OF sc1(2)]
    obtain xs ys where o: "sc_order sc = xs @ x # ys" "x \<notin> set xs" "x \<notin> set ys" using order_split [OF wf r(1)] by blast
    have rg: "ranges sc = map (rng sc) xs @ r # map (rng sc) ys" using r(1) by (simp add: ranges_def o(1))
    have co': "successively (\<lambda>r q. \<not> joinable r q) (map (rng sc) xs @ r # map (rng sc) ys)" using co unfolding coalesced_def rg .
    show ?thesis
    proof (cases "smf_size r = bytes")
      case True
      let ?r = "r\<lparr>smf_flist := None, smf_alloced := True\<rparr>"
      let ?sc = "sc1\<lparr>sc_smf := (sc_smf sc1)(x \<mapsto> ?r), sc_used := sc_used sc1 @ [x]\<rparr>"
      have run: "alloc_smf n bytes sc = Some (?sc, Some x)"
        using sp(1) Some w(1) md r sc1(1,6) True by (simp add: alloc_smf_def Let_def smf_upd_def)
      have rg': "ranges ?sc = map (rng sc) xs @ ?r # map (rng sc) ys" using o(2,3) by (auto simp: ranges_def sc1(3,6) o(1))
      have "smf_wf {} ?sc"
        unfolding smf_wf_def
      proof (intro conjI allI impI)
        show "sorted_wrt (\<lambda>r q. smf_end r \<le> smf_ptr q) (ranges ?sc)" using w(5) unfolding rg rg' by (simp add: sorted_wrt_append)
        show "set (sc_used ?sc) = {x. \<exists>r. sc_smf ?sc x = Some r \<and> smf_alloced r \<and> x \<notin> {}}" by (rule set_eqI) (auto simp: w1(10) sc1(6))
        show "distinct (sc_used ?sc)" using w1(9) by (simp add: w1(10))
        show "set (sc_free ?sc b) = {x. \<exists>r. sc_smf ?sc x = Some r \<and> \<not> smf_alloced r \<and> x \<notin> {} \<and> bucket (sc_pagesize ?sc) (smf_size r) = b}" for b
          by (rule set_eqI) (auto simp: w1(12) sc1(6))
      qed (use w(1-3,6-8) w1(11) r(1) in \<open>auto simp: sc1(3,5,6) split: if_splits\<close>)
      moreover have "coalesced ?sc"
        using co' unfolding coalesced_def rg' by (auto simp: successively_append_iff successively_Cons joinable_def)
      moreover have "smf_total ?sc = smf_total sc" by (simp add: smf_total_def rg rg')
      moreover have "smf_mem ?sc = smf_mem sc" by (simp add: smf_mem_def rg rg' rmem_def)
      moreover have "smf_live ?sc = (smf_live sc)(x \<mapsto> (smf_ptr r, smf_offset r, bytes, smf_s r))" using True by (auto simp: smf_live_def sc1(6) fun_eq_iff)
      moreover have "smf_live sc x = None" using r by (simp add: smf_live_def)
      ultimately show ?thesis using run r by (intro exI [of _ ?sc] exI [of _ "Some x"]) (auto simp: smf_inv_def sc1(5))
    next
      case False
      let ?q = "r\<lparr>smf_flist := None\<rparr>"
      let ?r2 = "?q\<lparr>smf_size := bytes, smf_alloced := True\<rparr>" and ?r = "?q\<lparr>smf_offset := smf_offset ?q + bytes, smf_ptr := smf_ptr ?q + bytes, smf_size := smf_size ?q - bytes\<rparr>"
      let ?sc = "sc1\<lparr>g_smf := g_smf sc1 + 1, sc_smf := (sc_smf sc1)(n \<mapsto> ?r2, x \<mapsto> ?r), sc_order := tailq_insert_before x n (sc_order sc1), sc_used := sc_used sc1 @ [n]\<rparr>"
      have s: "sc_smf sc1 x = Some ?q" "\<not> smf_alloced ?q" "sc_smf sc1 n = None" "sc_order sc1 = xs @ x # ys" "bytes < smf_size ?q" "n \<noteq> x"
        using r n False by (auto simp: sc1(3,6) o(1))
      have rest: "map (rng sc1) xs = map (rng sc) xs" "map (rng sc1) ys = map (rng sc) ys" using o(2,3) by (auto simp: sc1(6))
      have wf2: "smf_wf {x} ?sc" and rg2: "ranges ?sc = map (rng sc) xs @ ?r2 # ?r # map (rng sc) ys"
        using split_wf [OF sc1(2) s(1,2,3) _ bytes(2) s(5,4) o(2), of ?sc] bytes(1) o(2) unfolding rest by (simp_all add: sc1(5) s(4))
      obtain sc2 where sc2: "insfree x ?sc = Some sc2" "smf_wf {} sc2" "sc_order sc2 = sc_order ?sc" "sc_pagesize sc2 = sc_pagesize ?sc"
          "sc_smf sc2 = (sc_smf ?sc)(x \<mapsto> ?r\<lparr>smf_flist := Some (bucket (sc_pagesize ?sc) (smf_size ?r))\<rparr>)"
        using insfree_ok [of x "{}" ?sc ?r] wf2 r(2) by auto
      have run: "alloc_smf n bytes sc = Some (sc2, Some n)"
        using sp(1) Some w(1) md r(1,3) sc1(1) s(1) False sc2(1) by (simp add: alloc_smf_def Let_def)
      have "map (\<lambda>r. r\<lparr>smf_flist := None\<rparr>) (ranges sc2) = map (\<lambda>r. r\<lparr>smf_flist := None\<rparr>) (ranges ?sc)"
        by (rule flist_upd_ranges [OF _ sc2(5,3)]) simp
      note rf = ranges_flist [OF this]
      have "successively (\<lambda>r q. \<not> joinable r q) (ranges ?sc)"
        using co' r(3) unfolding rg2 by (auto simp: successively_append_iff successively_Cons joinable_def joins_def)
      then have "coalesced sc2" unfolding coalesced_def rf(2) .
      moreover have "smf_total sc2 = smf_total sc" unfolding smf_total_def rf(1) rg2 rg using r(3) by simp
      moreover have "smf_mem sc2 = smf_mem sc" unfolding smf_mem_def rf(3) rg2 rg using r(3) by (auto simp: rmem_def)
      moreover have "smf_live sc2 = (smf_live sc)(n \<mapsto> (smf_ptr r, smf_offset r, bytes, smf_s r))"
        using s(6) r(1,2) n by (auto simp: smf_live_def sc2(5) sc1(6) fun_eq_iff)
      moreover have "smf_live sc n = None" using n by (simp add: smf_live_def)
      ultimately show ?thesis using run r sc2(2,4) by (intro exI [of _ sc2] exI [of _ "Some n"]) (auto simp: smf_inv_def sc1(5))
    qed
  qed
qed

subsection \<open>Freeing keeps the invariant\<close>

text \<open>Two neighbours in transit become one.\<close>

lemma merge_wf:
  assumes wf: "smf_wf {x, y} sc" and r: "sc_smf sc x = Some r" "sc_smf sc y = Some q" "\<not> smf_alloced r" "\<not> smf_alloced q" "joins r q"
    and ord: "sc_order sc = xs @ x # y # ys"
    and sc': "sc_smf sc' = (sc_smf sc)(x \<mapsto> r\<lparr>smf_size := smf_size r + smf_size q\<rparr>, y := None)"
      "sc_order sc' = xs @ x # ys" "sc_used sc' = sc_used sc" "sc_pagesize sc' = sc_pagesize sc" "sc_free sc' = sc_free sc"
  shows "smf_wf {x} sc'" "ranges sc' = map (rng sc) xs @ r\<lparr>smf_size := smf_size r + smf_size q\<rparr> # map (rng sc) ys"
    "ranges sc = map (rng sc) xs @ r # q # map (rng sc) ys"
proof -
  note w = smf_wfD [OF wf]
  have dist: "x \<notin> set xs" "y \<notin> set xs" "x \<noteq> y" "x \<notin> set ys" "y \<notin> set ys" "distinct xs" "distinct ys" "set xs \<inter> set ys = {}"
    using w(2) unfolding ord by auto
  let ?r = "r\<lparr>smf_size := smf_size r + smf_size q\<rparr>"
  show rg: "ranges sc' = map (rng sc) xs @ ?r # map (rng sc) ys" using dist by (auto simp: ranges_def sc'(1,2))
  show rg0: "ranges sc = map (rng sc) xs @ r # q # map (rng sc) ys" using r(1,2) by (simp add: ranges_def ord)
  have srt: "sorted_wrt (\<lambda>r q. smf_end r \<le> smf_ptr q) (ranges sc')"
    using w(5) r(5) unfolding rg rg0 by (fastforce simp: sorted_wrt_append joins_def)
  have fl: "smf_flist r = None" using w(8) [OF r(1)] by simp
  show "smf_wf {x} sc'"
    unfolding smf_wf_def sc'(3-5)
  proof (intro conjI allI impI)
    show "dom (sc_smf sc') = set (sc_order sc')" using w(3) dist by (auto simp: sc'(1,2) ord)
    show "set (sc_used sc) = {z. \<exists>r. sc_smf sc' z = Some r \<and> smf_alloced r \<and> z \<notin> {x}}"
      using r(4) by (auto simp: w(10) sc'(1) r(2))
    show "set (sc_free sc b) = {z. \<exists>r. sc_smf sc' z = Some r \<and> \<not> smf_alloced r \<and> z \<notin> {x} \<and> bucket (sc_pagesize sc) (smf_size r) = b}" for b
      by (auto simp: w(12) sc'(1))
  qed (use w(1,6-9,11) dist r(1,2) srt fl in \<open>auto simp: sc'(1,2) split: if_splits\<close>)
qed

lemma remfree_frame:
  assumes "remfree x sc = Some sc'" and "y \<noteq> x"
  shows "remfree x (sc\<lparr>sc_smf := (sc_smf sc)(y \<mapsto> v), sc_order := l\<rparr>) = Some (sc'\<lparr>sc_smf := (sc_smf sc')(y \<mapsto> v), sc_order := l\<rparr>)"
proof -
  obtain r where r: "sc_smf sc x = Some r" using assms(1) by (auto simp: remfree_def bind_eq_Some_conv)
  have t: "(sc_smf sc)(y \<mapsto> v, x \<mapsto> q) = (sc_smf sc)(x \<mapsto> q, y \<mapsto> v)" for q using assms(2) by (simp add: fun_upd_twist)
  show ?thesis
    using assms r unfolding remfree_def
    by (cases "NBUCKET \<le> smf_size r div sc_pagesize sc") (simp_all add: Let_def t assert_c_bind_eq_Some del: not_None_eq, auto)
qed

lemma free_next_ok:
  assumes wf: "smf_wf {sp} sc" and sp: "sc_smf sc sp = Some r" "\<not> smf_alloced r" and ord: "sc_order sc = xs @ sp # ys"
    and co: "successively (\<lambda>r q. \<not> joinable r q) (map (rng sc) ys)"
  shows "\<exists>sc' r' ys'. free_next sp sc = Some sc' \<and> smf_wf {sp} sc' \<and> sc_order sc' = xs @ sp # ys' \<and> sc_smf sc' sp = Some r' \<and> \<not> smf_alloced r' \<and>
    smf_ptr r' = smf_ptr r \<and> smf_offset r' = smf_offset r \<and> smf_live sc' = smf_live sc \<and> smf_total sc' = smf_total sc \<and> smf_mem sc' = smf_mem sc \<and> sc_pagesize sc' = sc_pagesize sc \<and>
    ranges sc' = map (rng sc) xs @ r' # map (rng sc) ys' \<and> successively (\<lambda>r q. \<not> joinable r q) (r' # map (rng sc) ys')"
proof (cases ys)
  case Nil
  have "sp \<notin> set xs" using smf_wfD(2) [OF wf] unfolding ord by auto
  then have "free_next sp sc = Some sc" using ord Nil by (simp add: free_next_def)
  moreover have "ranges sc = map (rng sc) xs @ [r]" using sp(1) by (simp add: ranges_def ord Nil)
  ultimately show ?thesis using wf sp ord Nil by (intro exI [of _ sc] exI [of _ r] exI [of _ ys]) simp
next
  case (Cons y ys2)
  note w = smf_wfD [OF wf]
  have dist: "sp \<notin> set xs" "y \<notin> set xs" "sp \<noteq> y" "y \<notin> set ys2" using w(2) unfolding ord Cons by auto
  obtain q where q: "sc_smf sc y = Some q" using w(3) ord Cons by (metis domIff in_set_conv_decomp list.set_intros(2) option.exhaust Un_iff set_append)
  have rg: "ranges sc = map (rng sc) xs @ r # map (rng sc) ys" using sp(1) by (simp add: ranges_def ord)
  show ?thesis
  proof (cases "\<not> smf_alloced q \<and> joins r q")
    case False
    then have "free_next sp sc = Some sc" using ord Cons dist sp q by (auto simp: free_next_def)
    moreover have "successively (\<lambda>r q. \<not> joinable r q) (r # map (rng sc) ys)" using co False q by (simp add: Cons successively_Cons joinable_def)
    ultimately show ?thesis using wf sp ord rg by (intro exI [of _ sc] exI [of _ r] exI [of _ ys]) simp
  next
    case True
    obtain sc1 where sc1: "remfree y sc = Some sc1" "smf_wf (insert y {sp}) sc1" "sc_order sc1 = sc_order sc" "sc_used sc1 = sc_used sc" "sc_pagesize sc1 = sc_pagesize sc"
        "sc_smf sc1 = (sc_smf sc)(y \<mapsto> q\<lparr>smf_flist := None\<rparr>)"
      using remfree_ok [OF wf _ q] dist True by auto
    let ?r = "r\<lparr>smf_size := smf_size r + smf_size q\<rparr>"
    let ?sc = "sc1\<lparr>sc_smf := (sc_smf sc1)(sp \<mapsto> ?r, y := None), sc_order := xs @ sp # ys2, g_smf := g_smf sc1 - 1\<rparr>"
    have rm: "remove1 y (sc_order sc) = xs @ sp # ys2" using dist by (simp add: ord Cons remove1_append)
    have run: "free_next sp sc = Some ?sc"
      using ord Cons dist sp(1) q True remfree_frame [OF sc1(1) dist(3), where v = ?r and l = "xs @ sp # ys2"] rm
      by (simp add: free_next_def Let_def)
    have s: "sc_smf sc1 sp = Some r" "sc_smf sc1 y = Some (q\<lparr>smf_flist := None\<rparr>)" using dist sp(1) by (auto simp: sc1(6))
    have rest: "map (rng sc1) xs = map (rng sc) xs" "map (rng sc1) ys2 = map (rng sc) ys2" using dist by (auto simp: sc1(6))
    have m: "smf_wf {sp} ?sc" "ranges ?sc = map (rng sc) xs @ ?r # map (rng sc) ys2"
      using merge_wf [of sp y sc1 r "q\<lparr>smf_flist := None\<rparr>" xs ys2 ?sc] sc1(2,3) s sp(2) True unfolding rest
      by (simp_all add: insert_commute ord Cons joins_def)
    have "successively (\<lambda>r q. \<not> joinable r q) (?r # map (rng sc) ys2)"
      using co True q by (auto simp: Cons successively_Cons joinable_def joins_def)
    moreover have "smf_live ?sc = smf_live sc" using sp q True dist by (auto simp: smf_live_def sc1(6) fun_eq_iff)
    moreover have "smf_total ?sc = smf_total sc" using q by (simp add: smf_total_def rg m(2) Cons)
    moreover have "smf_mem ?sc = smf_mem sc"
      using q True rmem_join [of q r] unfolding smf_mem_def rg m(2) Cons by (auto simp: rmem_def joins_def)
    ultimately show ?thesis using run m dist sp(2) by (intro exI [of _ ?sc] exI [of _ ?r] exI [of _ ys2]) (simp add: sc1(5))
  qed
qed

lemma free_prev_ok:
  assumes wf: "smf_wf {sp} sc" and sp: "sc_smf sc sp = Some r" "\<not> smf_alloced r" and ord: "sc_order sc = xs @ sp # ys"
    and co: "successively (\<lambda>r q. \<not> joinable r q) (map (rng sc) xs)" "successively (\<lambda>r q. \<not> joinable r q) (r # map (rng sc) ys)"
  shows "\<exists>sc' sp' r'. free_prev sp sc = Some (sc', sp') \<and> smf_wf {sp'} sc' \<and> sc_smf sc' sp' = Some r' \<and> \<not> smf_alloced r' \<and>
    smf_live sc' = smf_live sc \<and> smf_total sc' = smf_total sc \<and> smf_mem sc' = smf_mem sc \<and> sc_pagesize sc' = sc_pagesize sc \<and> successively (\<lambda>r q. \<not> joinable r q) (ranges sc')"
proof (cases xs rule: rev_cases)
  case Nil
  then have "free_prev sp sc = Some (sc, sp)" using ord by (simp add: free_prev_def tailq_prev_def)
  moreover have "ranges sc = r # map (rng sc) ys" using sp(1) by (simp add: ranges_def ord Nil)
  ultimately show ?thesis using wf sp co by (intro exI [of _ sc] exI [of _ sp] exI [of _ r]) simp
next
  case (snoc xs2 y)
  note w = smf_wfD [OF wf]
  have dist: "sp \<notin> set xs" "y \<notin> set xs2" "sp \<noteq> y" "y \<notin> set ys" "sp \<notin> set ys" "sp \<notin> set xs2" using w(2) unfolding ord snoc by auto
  obtain q where q: "sc_smf sc y = Some q" using w(3) unfolding ord snoc by (metis Un_iff domIff in_set_conv_decomp option.exhaust set_append)
  have rg: "ranges sc = map (rng sc) xs @ r # map (rng sc) ys" using sp(1) by (simp add: ranges_def ord)
  have prev: "tailq_prev sp (sc_order sc) = Some y" unfolding ord tailq_prev_at [OF dist(1)] by (simp add: snoc)
  show ?thesis
  proof (cases "\<not> smf_alloced q \<and> joins q r")
    case False
    then have "free_prev sp sc = Some (sc, sp)" using prev sp q by (auto simp: free_prev_def)
    moreover have "successively (\<lambda>r q. \<not> joinable r q) (ranges sc)" using co False q sp by (auto simp: rg snoc successively_append_iff successively_Cons joinable_def)
    ultimately show ?thesis using wf sp by (intro exI [of _ sc] exI [of _ sp] exI [of _ r]) simp
  next
    case True
    obtain sc1 where sc1: "remfree y sc = Some sc1" "smf_wf (insert y {sp}) sc1" "sc_order sc1 = sc_order sc" "sc_used sc1 = sc_used sc" "sc_pagesize sc1 = sc_pagesize sc"
        "sc_smf sc1 = (sc_smf sc)(y \<mapsto> q\<lparr>smf_flist := None\<rparr>)"
      using remfree_ok [OF wf _ q] dist True by auto
    let ?q = "q\<lparr>smf_flist := None\<rparr>"
    let ?r = "?q\<lparr>smf_size := smf_size ?q + smf_size r\<rparr>"
    let ?sc = "sc1\<lparr>sc_smf := (sc_smf sc1)(y \<mapsto> ?r, sp := None), sc_order := xs2 @ y # ys, g_smf := g_smf sc1 - 1\<rparr>"
    have rm: "remove1 sp (sc_order sc) = xs2 @ y # ys" using dist by (simp add: ord snoc remove1_append)
    have run: "free_prev sp sc = Some (?sc, y)"
      using prev sp(1) q True sc1(1,3,6) rm by (simp add: free_prev_def smf_upd_def)
    have s: "sc_smf sc1 sp = Some r" "sc_smf sc1 y = Some ?q" using dist sp(1) by (auto simp: sc1(6))
    have rest: "map (rng sc1) xs2 = map (rng sc) xs2" "map (rng sc1) ys = map (rng sc) ys" using dist by (auto simp: sc1(6))
    have m: "smf_wf {y} ?sc" "ranges ?sc = map (rng sc) xs2 @ ?r # map (rng sc) ys"
      using merge_wf [of y sp sc1 ?q r xs2 ys ?sc] sc1(2,3) s sp(2) True unfolding rest
      by (simp_all add: ord snoc joins_def)
    have "successively (\<lambda>r q. \<not> joinable r q) (ranges ?sc)"
      using co True q sp(2) unfolding m(2) snoc by (auto simp: successively_append_iff successively_Cons joinable_def joins_def)
    moreover have "smf_live ?sc = smf_live sc" using sp q True dist by (auto simp: smf_live_def sc1(6) fun_eq_iff)
    moreover have "smf_total ?sc = smf_total sc" using q unfolding smf_total_def rg m(2) by (simp add: snoc)
    moreover have "smf_mem ?sc = smf_mem sc"
      using q True rmem_join [of r q] unfolding smf_mem_def rg m(2) snoc by (auto simp: rmem_def joins_def)
    ultimately show ?thesis using run m(1) dist True by (intro exI [of _ ?sc] exI [of _ y] exI [of _ ?r]) (simp add: sc1(5))
  qed
qed

lemma free_smf_ok:
  assumes inv: "smf_inv sc" and sp: "sc_smf sc sp = Some r" "smf_alloced r"
  shows "\<exists>sc'. free_smf sp sc = Some sc' \<and> smf_inv sc' \<and> smf_live sc' = (smf_live sc)(sp := None) \<and> smf_total sc' = smf_total sc \<and>
    smf_mem sc' = smf_mem sc \<and> sc_pagesize sc' = sc_pagesize sc"
proof -
  have wf: "smf_wf {} sc" and co: "coalesced sc" using inv by (auto simp: smf_inv_def)
  note w = smf_wfD [OF wf]
  obtain xs ys where o: "sc_order sc = xs @ sp # ys" "sp \<notin> set xs" "sp \<notin> set ys" using order_split [OF wf sp(1)] by blast
  have rg: "ranges sc = map (rng sc) xs @ r # map (rng sc) ys" using sp(1) by (simp add: ranges_def o(1))
  let ?r = "r\<lparr>smf_alloced := False\<rparr>"
  let ?s0 = "sc\<lparr>sc_used := remove1 sp (sc_used sc), sc_smf := (sc_smf sc)(sp \<mapsto> ?r)\<rparr>"
  have s0: "sc_smf ?s0 sp = Some ?r" "\<not> smf_alloced ?r" "sc_order ?s0 = xs @ sp # ys" using o(1) by simp_all
  have rest: "map (rng ?s0) xs = map (rng sc) xs" "map (rng ?s0) ys = map (rng sc) ys" using o(2,3) by auto
  have rg0: "ranges ?s0 = map (rng sc) xs @ ?r # map (rng sc) ys" using o by (auto simp: ranges_def)
  have fl: "smf_flist r = None" using w(8) [OF sp(1)] sp(2) by simp
  have wf0: "smf_wf {sp} ?s0"
    unfolding smf_wf_def
  proof (intro conjI allI impI)
    show "sorted_wrt (\<lambda>r q. smf_end r \<le> smf_ptr q) (ranges ?s0)" using w(5) unfolding rg rg0 by (simp add: sorted_wrt_append)
    show "set (sc_used ?s0) = {x. \<exists>r. sc_smf ?s0 x = Some r \<and> smf_alloced r \<and> x \<notin> {sp}}" using w(9) by (auto simp: w(10))
    show "set (sc_free ?s0 b) = {x. \<exists>r. sc_smf ?s0 x = Some r \<and> \<not> smf_alloced r \<and> x \<notin> {sp} \<and> bucket (sc_pagesize ?s0) (smf_size r) = b}" for b
      using sp by (auto simp: w(12))
  qed (use w(1-3,6-9,11) sp(1) fl o(1) in \<open>auto split: if_splits\<close>)
  have co0: "successively (\<lambda>r q. \<not> joinable r q) (map (rng ?s0) ys)" "successively (\<lambda>r q. \<not> joinable r q) (map (rng ?s0) xs)"
    using co unfolding coalesced_def rg rest by (auto simp: successively_append_iff successively_Cons)
  obtain s1 r1 ys1 where s1: "free_next sp ?s0 = Some s1" "smf_wf {sp} s1" "sc_order s1 = xs @ sp # ys1" "sc_smf s1 sp = Some r1" "\<not> smf_alloced r1"
      "smf_live s1 = smf_live ?s0" "smf_total s1 = smf_total ?s0" "smf_mem s1 = smf_mem ?s0" "sc_pagesize s1 = sc_pagesize ?s0"
      "ranges s1 = map (rng ?s0) xs @ r1 # map (rng ?s0) ys1" "successively (\<lambda>r q. \<not> joinable r q) (r1 # map (rng ?s0) ys1)"
    using free_next_ok [OF wf0 s0 co0(1)] by blast
  have m: "map (rng s1) xs = map (rng ?s0) xs" "map (rng s1) ys1 = map (rng ?s0) ys1"
    using s1(10) unfolding ranges_def s1(3) by (auto simp: append_eq_append_conv)
  obtain s2 sp2 r2 where s2: "free_prev sp s1 = Some (s2, sp2)" "smf_wf {sp2} s2" "sc_smf s2 sp2 = Some r2" "\<not> smf_alloced r2"
      "smf_live s2 = smf_live s1" "smf_total s2 = smf_total s1" "smf_mem s2 = smf_mem s1" "sc_pagesize s2 = sc_pagesize s1" "successively (\<lambda>r q. \<not> joinable r q) (ranges s2)"
    using free_prev_ok [OF s1(2,4,5,3)] co0(2) s1(11) unfolding m by blast
  obtain s3 where s3: "insfree sp2 s2 = Some s3" "smf_wf {} s3" "sc_order s3 = sc_order s2" "sc_pagesize s3 = sc_pagesize s2"
      "sc_smf s3 = (sc_smf s2)(sp2 \<mapsto> r2\<lparr>smf_flist := Some (bucket (sc_pagesize s2) (smf_size r2))\<rparr>)"
    using insfree_ok [of sp2 "{}" s2 r2] s2(2-4) by auto
  note rf = ranges_flist [OF flist_upd_ranges [OF s2(3) s3(5,3)]]
  have "smf_size r mod sc_pagesize sc = 0" using w(7) [OF sp(1)] by simp
  moreover have "sp \<in> set (sc_used sc)" using sp by (simp add: w(10))
  ultimately have run: "free_smf sp sc = Some s3"
    using sp w(1) w(6) [OF sp(1)] s1(1) s2(1) s3(1) by (simp add: free_smf_def)
  have "smf_live s3 = smf_live s2" using s2(3,4) by (auto simp: smf_live_def s3(5) fun_eq_iff)
  also have "\<dots> = (smf_live sc)(sp := None)" unfolding s2(5) s1(6) by (auto simp: smf_live_def fun_eq_iff)
  finally have lv: "smf_live s3 = (smf_live sc)(sp := None)" .
  have "smf_total s3 = smf_total s2" by (simp add: smf_total_def rf(1))
  also have "\<dots> = smf_total sc" unfolding s2(6) s1(7) by (simp add: smf_total_def rg rg0)
  finally have tt: "smf_total s3 = smf_total sc" .
  have "smf_mem s3 = smf_mem s2" by (simp add: smf_mem_def rf(3))
  also have "\<dots> = smf_mem sc" unfolding s2(7) s1(8) by (simp add: smf_mem_def rg rg0 rmem_def)
  finally have mm: "smf_mem s3 = smf_mem sc" .
  have "coalesced s3" using s2(9) unfolding coalesced_def rf(2) .
  then show ?thesis using run lv tt mm s3(2,4) s2(8) s1(9) by (auto simp: smf_inv_def)
qed

text \<open>A range in use added to the order keeps the invariant.\<close>

lemma smf_inv_insert:
  assumes inv: "smf_inv sc" and ord: "sc_order sc = xs @ ys" and n: "sc_smf sc n = None" and r: "smf_alloced r" "0 < smf_size r" "sc_pagesize sc dvd smf_size r" "smf_flist r = None"
    and lo: "\<And>x. x \<in> set xs \<Longrightarrow> smf_end (rng sc x) \<le> smf_ptr r" and hi: "\<And>y. y \<in> set ys \<Longrightarrow> smf_end r \<le> smf_ptr (rng sc y)"
    and sc': "sc_smf sc' = (sc_smf sc)(n \<mapsto> r)" "sc_order sc' = xs @ n # ys" "set (sc_used sc') = insert n (set (sc_used sc))" "distinct (sc_used sc')"
      "sc_pagesize sc' = sc_pagesize sc" "sc_free sc' = sc_free sc"
  shows "smf_inv sc'" "smf_live sc' = (smf_live sc)(n \<mapsto> (smf_ptr r, smf_offset r, smf_size r, smf_s r))" "smf_total sc' = smf_total sc + smf_size r"
    "smf_mem sc' = smf_mem sc \<union> rmem r"
proof -
  have wf: "smf_wf {} sc" and co: "coalesced sc" using inv by (auto simp: smf_inv_def)
  note w = smf_wfD [OF wf]
  have dist: "n \<notin> set xs" "n \<notin> set ys" using w(3) n unfolding ord by (auto simp: domIff)
  have rg: "ranges sc' = map (rng sc) xs @ r # map (rng sc) ys" using dist by (auto simp: ranges_def sc'(1,2))
  have rg0: "ranges sc = map (rng sc) xs @ map (rng sc) ys" by (simp add: ranges_def ord)
  have "smf_wf {} sc'"
    unfolding smf_wf_def sc'(5,6)
  proof (intro conjI allI impI)
    show "sorted_wrt (\<lambda>r q. smf_end r \<le> smf_ptr q) (ranges sc')" using w(5) lo hi unfolding rg rg0 by (auto simp: sorted_wrt_append)
    show "dom (sc_smf sc') = set (sc_order sc')" using w(3) by (auto simp: sc'(1,2) ord)
    show "distinct (sc_order sc')" using w(2) dist by (simp add: sc'(2) ord)
    show "set (sc_used sc') = {x. \<exists>r. sc_smf sc' x = Some r \<and> smf_alloced r \<and> x \<notin> {}}" using r(1) n by (auto simp: w(10) sc'(1,3))
    show "set (sc_free sc b) = {x. \<exists>r. sc_smf sc' x = Some r \<and> \<not> smf_alloced r \<and> x \<notin> {} \<and> bucket (sc_pagesize sc) (smf_size r) = b}" for b
      using r(1) n by (auto simp: w(12) sc'(1))
  qed (use w(1,6-8,11) r sc'(4) in \<open>auto simp: sc'(1) split: if_splits\<close>)
  moreover have "coalesced sc'"
    using co r(1) unfolding coalesced_def rg rg0 by (auto simp: successively_append_iff successively_Cons joinable_def)
  ultimately show "smf_inv sc'" by (simp add: smf_inv_def)
  show "smf_live sc' = (smf_live sc)(n \<mapsto> (smf_ptr r, smf_offset r, smf_size r, smf_s r))" using r(1) by (auto simp: smf_live_def sc'(1) fun_eq_iff)
  show "smf_total sc' = smf_total sc + smf_size r" by (simp add: smf_total_def rg rg0)
  show "smf_mem sc' = smf_mem sc \<union> rmem r" by (auto simp: smf_mem_def rg rg0)
qed

subsection \<open>Trimming and opening keep the invariant\<close>

lemma shrink_wf:
  assumes inv: "smf_inv sc" and sp: "sc_smf sc sp = Some r" "smf_alloced r" and bytes: "sc_pagesize sc dvd bytes" "0 < bytes" "bytes < smf_size r"
  defines "sc' \<equiv> sc\<lparr>sc_smf := (sc_smf sc)(sp \<mapsto> r\<lparr>smf_size := bytes\<rparr>)\<rparr>"
  shows "smf_inv sc'" "smf_live sc' = (smf_live sc)(sp \<mapsto> (smf_ptr r, smf_offset r, bytes, smf_s r))" "smf_total sc = smf_total sc' + (smf_size r - bytes)"
    "smf_mem sc = smf_mem sc' \<union> {smf_ptr r + bytes..<smf_end r}"
proof -
  have wf: "smf_wf {} sc" and co: "coalesced sc" using inv by (auto simp: smf_inv_def)
  note w = smf_wfD [OF wf]
  obtain xs ys where o: "sc_order sc = xs @ sp # ys" "sp \<notin> set xs" "sp \<notin> set ys" using order_split [OF wf sp(1)] by blast
  let ?r = "r\<lparr>smf_size := bytes\<rparr>"
  have rg: "ranges sc = map (rng sc) xs @ r # map (rng sc) ys" using sp(1) by (simp add: ranges_def o(1))
  have rg': "ranges sc' = map (rng sc) xs @ ?r # map (rng sc) ys" using o by (auto simp: sc'_def ranges_def)
  have "smf_wf {} sc'"
    unfolding smf_wf_def
  proof (intro conjI allI impI)
    show "sorted_wrt (\<lambda>r q. smf_end r \<le> smf_ptr q) (ranges sc')" using w(5) bytes(3) unfolding rg rg' by (fastforce simp: sorted_wrt_append)
    show "set (sc_used sc') = {x. \<exists>r. sc_smf sc' x = Some r \<and> smf_alloced r \<and> x \<notin> {}}" using sp by (auto simp: w(10) sc'_def)
    show "set (sc_free sc' b) = {x. \<exists>r. sc_smf sc' x = Some r \<and> \<not> smf_alloced r \<and> x \<notin> {} \<and> bucket (sc_pagesize sc') (smf_size r) = b}" for b
      using sp by (auto simp: w(12) sc'_def)
  qed (use w(1-3,6-9,11) sp bytes in \<open>auto simp: sc'_def split: if_splits\<close>)
  moreover have "coalesced sc'"
    using co sp(2) unfolding coalesced_def rg rg' by (auto simp: successively_append_iff successively_Cons joinable_def)
  ultimately show "smf_inv sc'" by (simp add: smf_inv_def)
  show "smf_live sc' = (smf_live sc)(sp \<mapsto> (smf_ptr r, smf_offset r, bytes, smf_s r))" using sp by (auto simp: smf_live_def sc'_def fun_eq_iff)
  show "smf_total sc = smf_total sc' + (smf_size r - bytes)" using bytes(3) by (simp add: smf_total_def rg rg')
  have "rmem r = rmem ?r \<union> {smf_ptr r + bytes..<smf_end r}" using bytes(3) by (auto simp: rmem_def)
  then show "smf_mem sc = smf_mem sc' \<union> {smf_ptr r + bytes..<smf_end r}" by (auto simp: smf_mem_def rg rg')
qed

lemma trim_smf_ok:
  assumes inv: "smf_inv sc" and sp: "sc_smf sc sp = Some r" "smf_alloced r" and n: "sc_smf sc n = None"
    and bytes: "sc_pagesize sc dvd bytes" "0 < bytes" "bytes < smf_size r"
  shows "\<exists>sc'. trim_smf n sp bytes sc = Some sc' \<and> smf_inv sc' \<and> smf_live sc' = (smf_live sc)(sp \<mapsto> (smf_ptr r, smf_offset r, bytes, smf_s r)) \<and>
    smf_total sc' = smf_total sc \<and> smf_mem sc' = smf_mem sc \<and> sc_pagesize sc' = sc_pagesize sc"
proof -
  have wf: "smf_wf {} sc" using inv by (simp add: smf_inv_def)
  note w = smf_wfD [OF wf]
  obtain xs ys where o: "sc_order sc = xs @ sp # ys" "sp \<notin> set xs" "sp \<notin> set ys" using order_split [OF wf sp(1)] by blast
  have rg: "ranges sc = map (rng sc) xs @ r # map (rng sc) ys" using sp(1) by (simp add: ranges_def o(1))
  have np: "n \<noteq> sp" using n sp(1) by auto
  let ?s1 = "sc\<lparr>sc_smf := (sc_smf sc)(sp \<mapsto> r\<lparr>smf_size := bytes\<rparr>)\<rparr>"
  let ?r2 = "r\<lparr>smf_size := smf_size r - bytes, smf_ptr := smf_ptr r + bytes, smf_offset := smf_offset r + bytes\<rparr>"
  let ?s2 = "sc\<lparr>g_smf := g_smf sc + 1, sc_smf := (sc_smf sc)(n \<mapsto> ?r2, sp \<mapsto> r\<lparr>smf_size := bytes\<rparr>),
       sc_order := tailq_insert_after sp n (sc_order sc), sc_used := sc_used sc @ [n]\<rparr>"
  note s1 = shrink_wf [OF inv sp bytes]
  have fl: "smf_flist r = None" using w(8) [OF sp(1)] sp(2) by simp
  have dv: "sc_pagesize sc dvd smf_size r - bytes" using w(7) [OF sp(1)] bytes(1) by (rule dvd_diff_nat)
  have lo: "smf_end (rng ?s1 x) \<le> smf_ptr ?r2" if "x \<in> set (xs @ [sp])" for x
    using that w(5) o(2) bytes(3) unfolding rg by (fastforce simp: sorted_wrt_append)
  have hi: "smf_end ?r2 \<le> smf_ptr (rng ?s1 y)" if "y \<in> set ys" for y
    using that w(5) o(3) bytes(3) unfolding rg by (fastforce simp: sorted_wrt_append)
  have us: "n \<notin> set (sc_used sc)" using n by (simp add: w(10))
  have ins: "smf_inv ?s2" "smf_live ?s2 = (smf_live ?s1)(n \<mapsto> (smf_ptr ?r2, smf_offset ?r2, smf_size ?r2, smf_s ?r2))" "smf_total ?s2 = smf_total ?s1 + smf_size ?r2"
    "smf_mem ?s2 = smf_mem ?s1 \<union> rmem ?r2"
    using smf_inv_insert [OF s1(1), where xs = "xs @ [sp]" and ys = ys and n = n and r = ?r2 and sc' = ?s2] o n np sp(2) bytes(3) dv fl lo hi us w(9)
    by (simp_all add: fun_upd_twist)
  have get: "sc_smf ?s2 n = Some ?r2" "smf_alloced ?r2" using np sp(2) by simp_all
  obtain s3 where s3: "free_smf n ?s2 = Some s3" "smf_inv s3" "smf_live s3 = (smf_live ?s2)(n := None)" "smf_total s3 = smf_total ?s2"
      "smf_mem s3 = smf_mem ?s2" "sc_pagesize s3 = sc_pagesize ?s2"
    using free_smf_ok [OF ins(1) get] by blast
  have run: "trim_smf n sp bytes sc = Some s3"
    using sp bytes w(1) w(7) [OF sp(1)] s3(1) by (simp add: trim_smf_def Let_def)
  have lv: "smf_live s3 = (smf_live sc)(sp \<mapsto> (smf_ptr r, smf_offset r, bytes, smf_s r))"
    using n np unfolding s3(3) ins(2) s1(2) by (auto simp: fun_eq_iff smf_live_def)
  have mm: "smf_mem s3 = smf_mem sc" using bytes(3) unfolding s3(5) ins(4) s1(4) by (simp add: rmem_def)
  have tt: "smf_total s3 = smf_total sc" unfolding s3(4) ins(3) s1(3) by simp
  show ?thesis using run s3(2,6) lv mm tt by simp
qed

lemma order_insert_ok:
  assumes "\<And>x. x \<in> set l \<Longrightarrow> sc_smf sc x \<noteq> None" and "sorted_wrt (\<lambda>x y. smf_ptr (rng sc x) \<le> smf_ptr (rng sc y)) l"
  shows "\<exists>xs ys. l = xs @ ys \<and> order_insert sc n p l = Some (xs @ n # ys) \<and> (\<forall>x \<in> set xs. smf_ptr (rng sc x) \<le> p) \<and> (\<forall>y \<in> set ys. p < smf_ptr (rng sc y))"
  using assms
proof (induction l)
  case (Cons z l)
  obtain r where r: "sc_smf sc z = Some r" using Cons.prems(1) [of z] by auto
  obtain xs ys where "l = xs @ ys" "order_insert sc n p l = Some (xs @ n # ys)" "\<forall>x \<in> set xs. smf_ptr (rng sc x) \<le> p" "\<forall>y \<in> set ys. p < smf_ptr (rng sc y)"
    using Cons by auto
  then have "\<not> p < smf_ptr r \<Longrightarrow> ?case" using r by (intro exI [of _ "z # xs"] exI [of _ ys]) auto
  moreover have "p < smf_ptr r \<Longrightarrow> ?case" using r Cons.prems(2) by (intro exI [of _ "[]"] exI [of _ "z # l"]) auto
  ultimately show ?case by blast
qed simp

text \<open>Mapped memory that is not in use yet becomes a free range.\<close>

lemma new_smf_ok:
  assumes inv: "smf_inv sc" and n: "sc_smf sc n = None" and len: "sc_pagesize sc dvd len" "0 < len" and new: "{p..<p + len} \<inter> smf_mem sc = {}"
  shows "\<exists>sc'. new_smf n p off len sc = Some sc' \<and> smf_inv sc' \<and> smf_live sc' = smf_live sc \<and>
    smf_total sc' = smf_total sc + len \<and> smf_mem sc' = smf_mem sc \<union> {p..<p + len} \<and> sc_pagesize sc' = sc_pagesize sc"
proof -
  have wf: "smf_wf {} sc" using inv by (simp add: smf_inv_def)
  note w = smf_wfD [OF wf]
  have def: "\<And>x. x \<in> set (sc_order sc) \<Longrightarrow> sc_smf sc x \<noteq> None" using w(3) by auto
  have "sorted_wrt (\<lambda>x y. smf_ptr (rng sc x) \<le> smf_ptr (rng sc y)) (sc_order sc)"
    using w(5) unfolding ranges_def sorted_wrt_map by (rule sorted_wrt_mono_rel [rotated]) auto
  then obtain xs ys where o: "sc_order sc = xs @ ys" "order_insert sc n p (sc_order sc) = Some (xs @ n # ys)"
      "\<forall>x \<in> set xs. smf_ptr (rng sc x) \<le> p" "\<forall>y \<in> set ys. p < smf_ptr (rng sc y)"
    using order_insert_ok [OF def, of "sc_order sc" n p] by blast
  let ?r = "\<lparr>smf_alloced = True, smf_size = len, smf_offset = off, smf_ptr = p, smf_flist = None, smf_s = no_storage\<rparr>"
  let ?s = "sc\<lparr>g_smf := g_smf sc + 1, sc_smf := (sc_smf sc)(n \<mapsto> ?r), sc_order := xs @ n # ys, sc_used := n # sc_used sc\<rparr>"
  have apart: "{p..<p + len} \<inter> rmem (rng sc x) = {}" "0 < smf_size (rng sc x)" if "x \<in> set (sc_order sc)" for x
    using that new w(6) [of x] def [OF that] by (auto simp: smf_mem_def ranges_def)
  have lo: "smf_end (rng sc x) \<le> smf_ptr ?r" if x: "x \<in> set xs" for x
  proof (rule ccontr)
    assume "\<not> smf_end (rng sc x) \<le> smf_ptr ?r"
    then have "p \<in> {p..<p + len} \<inter> rmem (rng sc x)" using x o(3) len(2) by (auto simp: rmem_def)
    then show False using apart(1) [of x] x by (auto simp: o(1))
  qed
  have hi: "smf_end ?r \<le> smf_ptr (rng sc y)" if y: "y \<in> set ys" for y
  proof (rule ccontr)
    assume "\<not> smf_end ?r \<le> smf_ptr (rng sc y)"
    then have "smf_ptr (rng sc y) \<in> {p..<p + len} \<inter> rmem (rng sc y)" using y o(4) apart(2) [of y] by (auto simp: rmem_def o(1))
    then show False using apart(1) [of y] y by (auto simp: o(1))
  qed
  have us: "n \<notin> set (sc_used sc)" using n by (simp add: w(10))
  have ins: "smf_inv ?s" "smf_live ?s = (smf_live sc)(n \<mapsto> (smf_ptr ?r, smf_offset ?r, smf_size ?r, smf_s ?r))" "smf_total ?s = smf_total sc + smf_size ?r"
    "smf_mem ?s = smf_mem sc \<union> rmem ?r"
    using smf_inv_insert [OF inv, where xs = xs and ys = ys and n = n and r = ?r and sc' = ?s] o(1) n len lo hi us w(9) by simp_all
  obtain s3 where s3: "free_smf n ?s = Some s3" "smf_inv s3" "smf_live s3 = (smf_live ?s)(n := None)" "smf_total s3 = smf_total ?s"
      "smf_mem s3 = smf_mem ?s" "sc_pagesize s3 = sc_pagesize ?s"
    using free_smf_ok [OF ins(1), of n ?r] by auto
  have run: "new_smf n p off len sc = Some s3" using w(1) len(1) o(2) s3(1) by (simp add: new_smf_def Let_def)
  have "smf_live s3 = smf_live sc" using n unfolding s3(3) ins(2) by (auto simp: fun_eq_iff smf_live_def)
  then show ?thesis using run s3(2) unfolding s3(4-6) ins(3,4) by (simp add: s3(4-6) ins(3,4) rmem_def)
qed

end
