(* ===== verification/Storage_Smf.thy ===== *)
theory Storage_Smf
  imports Storage_File
begin

text \<open>
  The device methods of \<^verbatim>\<open>bin/varnishd/storage_file.c\<close> over the ranges of \<^verbatim>\<open>Storage_File\<close>: mapping the
  file in chunks at the start, and the methods \<open>alloc\<close>, \<open>trim\<close> and \<open>free\<close> with their rounding to whole pages and
  the counters. The device keeps the contract of \<^verbatim>\<open>Storage\<close> for sizes that the rounding does not wrap.
\<close>

subsection \<open>Mapping the file\<close>

text \<open>The state that \<open>smf_init\<close> makes, for the page size and file size it settles on.\<close>

definition smf_init :: "nat \<Rightarrow> nat \<Rightarrow> smf_sc" where
  "smf_init pagesize filesize = \<lparr>sc_pagesize = pagesize, sc_smf = Map.empty, sc_order = [], sc_free = (\<lambda>_. []), sc_used = [],
     g_smf = 0, g_smf_frag = 0, g_smf_large = 0, sc_filesize = filesize, smf_c_req = 0, smf_c_fail = 0, smf_c_bytes = 0, smf_c_freed = 0,
     smf_g_alloc = 0, smf_g_bytes = 0, smf_g_space = 0\<rparr>"

text \<open>
  \<open>mm len off\<close> is what \<open>mmap\<close> answers, \<open>None\<close> when it fails; \<open>mal\<close> picks the address of a new node. The largest
  size not to try again and the number of bytes mapped so far are passed along. The first of the recursive calls
  asserts that \<open>h\<close> is not 0.
\<close>

definition SSIZE_MAX :: nat where "SSIZE_MAX = 2 ^ 63 - 1"

lemma chunk_half_less:
  fixes sz ps :: nat
  defines "h \<equiv> (if sz div 2 > SSIZE_MAX then SSIZE_MAX else sz div 2)"
  assumes "h - h mod ps \<noteq> 0"
  shows "h - h mod ps < sz"
proof -
  have "h \<le> sz div 2" by (simp add: h_def)
  then have "h - h mod ps \<le> sz div 2" by linarith
  then show ?thesis using assms(2) by linarith
qed

function smf_open_chunk :: "(smf_sc \<Rightarrow> smf_ref) \<Rightarrow> (nat \<Rightarrow> nat \<Rightarrow> nat option) \<Rightarrow> nat \<Rightarrow> nat \<Rightarrow> nat \<Rightarrow> nat \<Rightarrow> smf_sc \<Rightarrow> (nat \<times> nat \<times> smf_sc) option" where
  "smf_open_chunk mal mm sz off fail tot sc = do {
     assert_c (sz \<noteq> 0);
     assert_c (sc_pagesize sc \<noteq> 0);
     assert_c (sz mod sc_pagesize sc = 0);
     (if fail < sc_pagesize sc * MINPAGES then Some (fail, tot, sc)
      else (case (if sz > 0 \<and> sz < fail \<and> sz < SSIZE_MAX then mm sz off else None) of
          Some p \<Rightarrow> do { sc \<leftarrow> new_smf (mal sc) p off sz sc; Some (fail, tot + sz, sc) }
        | None \<Rightarrow>
          let fail = (if sz < fail then sz else fail);
              h = (if sz div 2 > SSIZE_MAX then SSIZE_MAX else sz div 2);
              h = h - h mod sc_pagesize sc
          in if h = 0 then None
             else do {
               (fail, tot, sc) \<leftarrow> smf_open_chunk mal mm h off fail tot sc;
               smf_open_chunk mal mm (sz - h) (off + h) fail tot sc
             }))
   }"
  by pat_completeness auto
termination
proof (relation "measure (\<lambda>(_, _, sz, _). sz)", goal_cases)
  case (2 mal mm sz off fail tot sc a b c f h0 h)
  have "h < sz" using 2(9) unfolding 2(8) unfolding 2(7) by (rule chunk_half_less)
  then show ?case by simp
next
  case (3 mal mm sz off fail tot sc a b c f h0 h)
  have "sz - h < sz" using 3(1,9) by simp
  then show ?case by simp
qed simp

declare smf_open_chunk.simps [simp del]

definition smf_open :: "(smf_sc \<Rightarrow> smf_ref) \<Rightarrow> (nat \<Rightarrow> nat \<Rightarrow> nat option) \<Rightarrow> nat \<Rightarrow> smf_sc \<Rightarrow> (nat + smf_sc) option" where
  "smf_open mal mm getpagesize sc = do {
     (fail, tot, sc) \<leftarrow> smf_open_chunk mal mm (sc_filesize sc) 0 (2 ^ 30) 0 sc;
     (if tot < MINPAGES * getpagesize then Some (Inl 2)
      else Some (Inr (sc\<lparr>smf_g_space := smf_g_space sc + int (sc_filesize sc)\<rparr>)))
   }"

text \<open>What the code relies on: a new node is not one in use, and mappings in place do not overlap.\<close>

definition malloc_fresh :: "(smf_sc \<Rightarrow> smf_ref) \<Rightarrow> bool" where
  "malloc_fresh mal \<longleftrightarrow> (\<forall>sc. smf_inv sc \<longrightarrow> sc_smf sc (mal sc) = None)"

definition mmap_apart :: "(nat \<Rightarrow> nat \<Rightarrow> nat option) \<Rightarrow> bool" where
  "mmap_apart mm \<longleftrightarrow> (\<forall>s off p s2 off2 p2. mm s off = Some p \<longrightarrow> mm s2 off2 = Some p2 \<longrightarrow> off + s \<le> off2 \<longrightarrow> {p..<p + s} \<inter> {p2..<p2 + s2} = {})"

definition unmapped :: "(nat \<Rightarrow> nat \<Rightarrow> nat option) \<Rightarrow> nat \<Rightarrow> smf_sc \<Rightarrow> bool" where
  "unmapped mm off sc \<longleftrightarrow> (\<forall>s off2 p. off \<le> off2 \<longrightarrow> mm s off2 = Some p \<longrightarrow> {p..<p + s} \<inter> smf_mem sc = {})"

lemma half_pages:
  fixes ps sz :: nat
  assumes "ps dvd sz" and "2 * ps \<le> sz" and "0 < ps"
  defines "h \<equiv> sz div 2 - sz div 2 mod ps"
  shows "ps dvd h" "0 < h" "h < sz" "ps dvd sz - h" "4 * ps \<le> sz \<Longrightarrow> 2 * ps \<le> h" "4 * ps \<le> sz \<Longrightarrow> 2 * ps \<le> sz - h"
proof -
  have h: "h = sz div 2 div ps * ps" by (simp add: h_def minus_mod_eq_div_mult)
  show "ps dvd h" by (simp add: h)
  then show "ps dvd sz - h" using assms(1) by simp
  have "1 \<le> sz div 2 div ps" using assms(2,3) by (simp add: div_greater_zero_iff Suc_le_eq)
  then show "0 < h" using assms(3) by (simp add: h)
  have le: "h \<le> sz div 2" by (simp add: h_def)
  then show "h < sz" using assms(2,3) by linarith
  show "2 * ps \<le> sz - h" if "4 * ps \<le> sz" using that le by linarith
  show "2 * ps \<le> h" if "4 * ps \<le> sz"
  proof -
    have "2 * ps \<le> sz div 2" using that by linarith
    then have "2 \<le> sz div 2 div ps" using assms(3) by (simp add: less_eq_div_iff_mult_less_eq)
    then show ?thesis unfolding h by (rule mult_le_mono1)
  qed
qed

lemma unmapped_mono: "unmapped mm off sc \<Longrightarrow> off \<le> off2 \<Longrightarrow> unmapped mm off2 sc"
  unfolding unmapped_def using order_trans by blast

lemma unmapped_new:
  assumes "mmap_apart mm" and "unmapped mm off sc" and "mm sz off = Some p" and "smf_mem sc' = smf_mem sc \<union> {p..<p + sz}"
  shows "unmapped mm (off + sz) sc'"
  unfolding unmapped_def
proof (intro allI impI)
  fix s off2 q
  assume q: "off + sz \<le> off2" "mm s off2 = Some q"
  have "{p..<p + sz} \<inter> {q..<q + s} = {}" using assms(1,3) q unfolding mmap_apart_def by blast
  moreover have "{q..<q + s} \<inter> smf_mem sc = {}" using unmapped_mono [OF assms(2), of off2] q unfolding unmapped_def by auto
  ultimately show "{q..<q + s} \<inter> smf_mem sc' = {}" unfolding assms(4) by blast
qed

definition chunk_post :: "(nat \<Rightarrow> nat \<Rightarrow> nat option) \<Rightarrow> nat \<Rightarrow> nat \<Rightarrow> nat \<Rightarrow> nat \<Rightarrow> smf_sc \<Rightarrow> nat \<Rightarrow> nat \<Rightarrow> smf_sc \<Rightarrow> bool" where
  "chunk_post mm sz off fail tot sc fail' tot' sc' \<longleftrightarrow> smf_inv sc' \<and> smf_live sc' = smf_live sc \<and> sc_pagesize sc' = sc_pagesize sc \<and>
    fail' \<le> fail \<and> tot \<le> tot' \<and> tot' \<le> tot + sz \<and> smf_total sc' + tot = smf_total sc + tot' \<and> unmapped mm (off + sz) sc' \<and>
    (sc_pagesize sc * MINPAGES \<le> fail \<longrightarrow> fail \<le> SSIZE_MAX \<longrightarrow> (\<forall>s off2. s < fail \<longrightarrow> mm s off2 \<noteq> None) \<longrightarrow> fail' = fail \<and> tot' = tot + sz)"

lemma chunk_post_two:
  assumes "chunk_post mm h off f tot sc f1 t1 s1" and "chunk_post mm (sz - h) (off + h) f1 t1 s1 f2 t2 s2" and "h < sz"
    and "f \<le> fail" and "\<And>s off2. sc_pagesize sc * MINPAGES \<le> fail \<Longrightarrow> fail \<le> SSIZE_MAX \<Longrightarrow> \<forall>s off2. s < fail \<longrightarrow> mm s off2 \<noteq> None \<Longrightarrow> f = fail"
  shows "chunk_post mm sz off fail tot sc f2 t2 s2"
proof -
  have "f2 = fail \<and> t2 = tot + sz" if a: "sc_pagesize sc * MINPAGES \<le> fail" "fail \<le> SSIZE_MAX" "\<forall>s off2. s < fail \<longrightarrow> mm s off2 \<noteq> None"
  proof -
    have "f = fail" using assms(5) [OF a] .
    then have "f1 = fail" "t1 = tot + h" using assms(1) a by (auto simp: chunk_post_def)
    then show ?thesis using assms(1-3) a by (auto simp: chunk_post_def)
  qed
  then show ?thesis using assms(1-4) unfolding chunk_post_def by auto
qed

text \<open>
  The whole recursion. It does not panic when it starts with two pages or more, as a failure for less than
  \<open>MINPAGES\<close> makes the calls below return at once; and it maps everything when \<open>mmap\<close> does not fail.
\<close>

lemma smf_open_chunk_ok:
  assumes "smf_inv sc" and "sc_pagesize sc dvd sz" and "0 < sz" and "2 * sc_pagesize sc \<le> sz \<or> fail < sc_pagesize sc * MINPAGES"
    and "malloc_fresh mal" and "mmap_apart mm" and "unmapped mm off sc" and "sz \<le> SSIZE_MAX"
  shows "\<exists>fail' tot' sc'. smf_open_chunk mal mm sz off fail tot sc = Some (fail', tot', sc') \<and> chunk_post mm sz off fail tot sc fail' tot' sc'"
  using assms
proof (induction mal mm sz off fail tot sc rule: smf_open_chunk.induct)
  case (1 mal mm sz off fail tot sc)
  note prems = 1(3-10)
  let ?ps = "sc_pagesize sc"
  have ps: "0 < ?ps" "sz mod ?ps = 0" using prems(1,2) by (auto simp: smf_inv_def dest: smf_wfD(1))
  let ?ans = "if sz > 0 \<and> sz < fail \<and> sz < SSIZE_MAX then mm sz off else None"
  consider (stop) "fail < ?ps * MINPAGES" | (map) p where "\<not> fail < ?ps * MINPAGES" "?ans = Some p" | (halve) "\<not> fail < ?ps * MINPAGES" "?ans = None"
    by (cases ?ans) auto
  then show ?case
  proof cases
    case stop
    then show ?thesis using prems ps by (subst smf_open_chunk.simps) (auto simp: chunk_post_def intro: unmapped_mono)
  next
    case map
    then have p: "mm sz off = Some p" by (auto split: if_splits)
    have fr: "sc_smf sc (mal sc) = None" using prems(1,5) unfolding malloc_fresh_def by blast
    have "{p..<p + sz} \<inter> smf_mem sc = {}" using prems(7) p unfolding unmapped_def by auto
    then obtain sc' where sc': "new_smf (mal sc) p off sz sc = Some sc'" "smf_inv sc'" "smf_live sc' = smf_live sc" "smf_total sc' = smf_total sc + sz"
        "smf_mem sc' = smf_mem sc \<union> {p..<p + sz}" "sc_pagesize sc' = sc_pagesize sc"
      using new_smf_ok [OF prems(1) fr prems(2,3), of p off] by blast
    have "smf_open_chunk mal mm sz off fail tot sc = Some (fail, tot + sz, sc')"
      using prems(3) ps map sc'(1) by (subst smf_open_chunk.simps) simp
    then show ?thesis using sc' unmapped_new [OF prems(6,7) p sc'(5)] by (simp add: chunk_post_def)
  next
    case halve
    let ?f = "if sz < fail then sz else fail"
    let ?h = "sz div 2 - sz div 2 mod ?ps"
    have h0: "(if sz div 2 > SSIZE_MAX then SSIZE_MAX else sz div 2) = sz div 2" using prems(8) by auto
    have big: "2 * ?ps \<le> sz" using prems(4) halve(1) by auto
    note h = half_pages [OF prems(2) big ps(1)]
    have small: "4 * ?ps \<le> sz \<or> ?f < ?ps * MINPAGES" by (auto simp: MINPAGES_def)
    have s1: "2 * ?ps \<le> ?h \<or> ?f < ?ps * MINPAGES" using small h(5) by blast
    have "\<exists>f1 t1 s1. smf_open_chunk mal mm ?h off ?f tot sc = Some (f1, t1, s1) \<and> chunk_post mm ?h off ?f tot sc f1 t1 s1"
      using 1(1) [of "()" "()" "()", OF _ _ _ halve refl h0 [symmetric] refl _ prems(1) h(1,2) s1 prems(5-7)] prems(3,8) ps h(2,3) by simp
    then obtain f1 t1 s1 where r1: "smf_open_chunk mal mm ?h off ?f tot sc = Some (f1, t1, s1)" "chunk_post mm ?h off ?f tot sc f1 t1 s1" by blast
    have p1: "smf_inv s1" "sc_pagesize s1 = ?ps" "f1 \<le> ?f" "unmapped mm (off + ?h) s1" using r1(2) by (simp_all add: chunk_post_def)
    have s2: "2 * ?ps \<le> sz - ?h \<or> f1 < ?ps * MINPAGES" using small h(6) p1(3) by linarith
    have le: "sz - ?h \<le> SSIZE_MAX" "0 < sz - ?h" "?h \<noteq> 0" using prems(8) h(2,3) by linarith+
    have "\<exists>f2 t2 s2. smf_open_chunk mal mm (sz - ?h) (off + ?h) f1 t1 s1 = Some (f2, t2, s2) \<and> chunk_post mm (sz - ?h) (off + ?h) f1 t1 s1 f2 t2 s2"
      using 1(2) [of "()" "()" "()", OF _ _ _ halve refl h0 [symmetric] refl le(3) r1(1) refl refl p1(1), unfolded p1(2)] prems(3,5,6) ps h(4) s2 p1(4) le(1,2) by simp
    then obtain f2 t2 s2 where r2: "smf_open_chunk mal mm (sz - ?h) (off + ?h) f1 t1 s1 = Some (f2, t2, s2)" "chunk_post mm (sz - ?h) (off + ?h) f1 t1 s1 f2 t2 s2" by blast
    have "smf_open_chunk mal mm sz off fail tot sc = Some (f2, t2, s2)"
      using prems(3) ps halve h(2) r1(1) r2(1) by (subst smf_open_chunk.simps) (simp add: Let_def h0 del: not_less)
    moreover have "chunk_post mm sz off fail tot sc f2 t2 s2"
    proof (rule chunk_post_two [OF r1(2) r2(2) h(3)])
      show "?f = fail" if "fail \<le> SSIZE_MAX" "\<forall>s off2. s < fail \<longrightarrow> mm s off2 \<noteq> None"
        using halve(2) that(1) that(2) [rule_format, of sz off] prems(3) by (auto split: if_splits)
    qed simp
    ultimately show ?thesis by blast
  qed
qed

subsection \<open>The methods\<close>

text \<open>
  Rounding up to whole pages. The mask is computed in \<open>unsigned\<close> and widened with zeros, so it clears the upper
  half of the size as well.
\<close>

definition smf_round :: "nat \<Rightarrow> u64 \<Rightarrow> u64" where
  "smf_round ps sz = (let pagesize = (of_nat ps :: u32) in (sz + ucast (pagesize - 1)) AND ucast (NOT (pagesize - 1)))"

definition smf_alloc :: "smf_ref \<Rightarrow> u64 \<Rightarrow> smf_sc \<Rightarrow> (smf_sc \<times> st_ref option) option" where
  "smf_alloc n sz sc = do {
     assert_c (sz > 0);
     let sz = smf_round (sc_pagesize sc) sz;
     (sc, res) \<leftarrow> alloc_smf n (unat sz) (sc\<lparr>smf_c_req := smf_c_req sc + 1\<rparr>);
     (case res of
        None \<Rightarrow> Some (sc\<lparr>smf_c_fail := smf_c_fail sc + 1\<rparr>, None)
      | Some x \<Rightarrow> do {
          r \<leftarrow> sc_smf sc x;
          let sc = sc\<lparr>smf_g_alloc := smf_g_alloc sc + 1, smf_c_bytes := smf_c_bytes sc + int (smf_size r),
                      smf_g_bytes := smf_g_bytes sc + int (smf_size r), smf_g_space := smf_g_space sc - int (smf_size r)\<rparr>;
          assert_c (smf_size r = unat sz);
          Some (sc\<lparr>sc_smf := (sc_smf sc)(x \<mapsto> r\<lparr>smf_s := \<lparr>st_ptr = smf_ptr r, st_len = 0, st_space = ucast sz\<rparr>\<rparr>)\<rparr>, Some x)
        })
   }"

definition smf_trim :: "smf_ref \<Rightarrow> st_ref \<Rightarrow> u64 \<Rightarrow> smf_sc \<Rightarrow> smf_sc option" where
  "smf_trim n x sz sc = do {
     r \<leftarrow> sc_smf sc x;
     assert_c (sz > 0);
     assert_c (sz \<le> ucast (st_space (smf_s r)));
     assert_c (unat sz \<le> smf_size r);
     let sz = smf_round (sc_pagesize sc) sz;
     (if smf_size r > unat sz then do {
        let d = int (smf_size r - unat sz);
        sc \<leftarrow> trim_smf n x (unat sz) (sc\<lparr>smf_c_freed := smf_c_freed sc + d, smf_g_bytes := smf_g_bytes sc - d, smf_g_space := smf_g_space sc + d\<rparr>);
        r \<leftarrow> sc_smf sc x;
        assert_c (smf_size r = unat sz);
        Some (sc\<lparr>sc_smf := (sc_smf sc)(x \<mapsto> r\<lparr>smf_s := (smf_s r)\<lparr>st_space := ucast sz\<rparr>\<rparr>)\<rparr>)
      }
      else Some sc)
   }"

definition smf_free :: "st_ref \<Rightarrow> smf_sc \<Rightarrow> smf_sc option" where
  "smf_free x sc = do {
     r \<leftarrow> sc_smf sc x;
     free_smf x (sc\<lparr>smf_g_alloc := smf_g_alloc sc - 1, smf_c_freed := smf_c_freed sc + int (smf_size r),
       smf_g_bytes := smf_g_bytes sc - int (smf_size r), smf_g_space := smf_g_space sc + int (smf_size r)\<rparr>)
   }"

subsection \<open>Rounding\<close>

lemma mask_widen:
  assumes "k < 32"
  shows "(ucast (NOT (mask k) :: u32) :: u64) = mask 32 AND NOT (mask k)"
  by (rule bit_eqI) (auto simp: bit_simps)

lemma page_mask:
  assumes "k < 32"
  shows "(of_nat (2 ^ k) :: u32) - 1 = mask k"
  by (simp add: mask_eq_exp_minus_1)

lemma smf_round_unat:
  assumes ps: "ps = 2 ^ k" "k < 32" and sz: "unat sz + ps \<le> 2 ^ 64"
  shows "unat (smf_round ps sz) = ps * ((unat sz + ps - 1) div ps) mod 2 ^ 32"
proof -
  let ?x = "sz + (mask k :: u64)"
  have mk: "(ucast (mask k :: u32) :: u64) = mask k" using ps(2) by (simp add: bit_eq_iff bit_simps) auto
  have "(2::nat) ^ k - 1 < 2 ^ LENGTH(64)" using power_strict_increasing [of k 32 "2::nat"] ps(2) by simp
  then have um: "unat (mask k :: u64) = ps - 1"
    using unat_of_nat_small [of "2 ^ k - 1", where 'a = 64] of_nat_mask_eq [of k, where 'a = u64] by (simp add: ps(1) mask_eq_exp_minus_1)
  have "unat sz + unat (mask k :: u64) < 2 ^ LENGTH(64)" using sz unfolding um ps(1) by simp
  then have ux: "unat ?x = unat sz + ps - 1" using um ps(1) by (simp add: unat_add_nowrap)
  have "smf_round ps sz = take_bit 32 ?x AND NOT (mask k)"
    unfolding smf_round_def ps(1) Let_def page_mask [OF ps(2)] mask_widen [OF ps(2)] mk by (simp add: take_bit_eq_mask and.assoc)
  then have "unat (smf_round ps sz) = ps * ((unat sz + ps - 1) mod 2 ^ 32 div ps)"
    by (simp only: unat_and_not_mask unat_take_bit ux ps(1))
  also have "(unat sz + ps - 1) mod 2 ^ 32 div ps = (unat sz + ps - 1) div ps mod 2 ^ (32 - k)"
  proof -
    have e: "(2::nat) ^ 32 = ps * 2 ^ (32 - k)" using ps by (simp flip: power_add)
    show ?thesis unfolding e mod_mult2_eq using ps(1) by simp
  qed
  also have "ps * ((unat sz + ps - 1) div ps mod 2 ^ (32 - k)) = ps * ((unat sz + ps - 1) div ps) mod 2 ^ 32"
    using ps by (simp add: mult_mod_right flip: power_add)
  finally show ?thesis .
qed

lemma smf_round_exact:
  assumes ps: "ps = 2 ^ k" "k < 32" and sz: "unat sz + ps \<le> 2 ^ 32"
  shows "unat (smf_round ps sz) = ps * ((unat sz + ps - 1) div ps)" "unat sz \<le> unat (smf_round ps sz)" "ps dvd unat (smf_round ps sz)"
    "unat (smf_round ps sz) < unat sz + ps" "unat (smf_round ps sz) < 2 ^ 32"
proof -
  let ?x = "unat sz + ps - 1"
  have pos: "0 < ps" by (simp add: ps(1))
  have lt: "?x < 2 ^ 32" using sz pos by linarith
  have le: "ps * (?x div ps) \<le> ?x" by simp
  have "unat (smf_round ps sz) = ps * (?x div ps) mod 2 ^ 32" by (rule smf_round_unat [OF ps]) (use sz in simp)
  also have "\<dots> = ps * (?x div ps)" by (rule mod_less) (rule le_less_trans [OF le lt])
  finally show eq: "unat (smf_round ps sz) = ps * (?x div ps)" .
  show "ps dvd unat (smf_round ps sz)" unfolding eq by simp
  show "unat (smf_round ps sz) < 2 ^ 32" unfolding eq using le lt by linarith
  show "unat (smf_round ps sz) < unat sz + ps" unfolding eq using le pos by linarith
  have "?x < ps * (?x div ps) + ps" using pos dividend_less_div_times [of ps ?x] by (simp add: mult.commute)
  then show "unat sz \<le> unat (smf_round ps sz)" unfolding eq using pos by linarith
qed

subsection \<open>The contract\<close>

definition smf_dev_live :: "smf_sc \<Rightarrow> st_live" where
  "smf_dev_live sc x = (case sc_smf sc x of
     Some r \<Rightarrow> if smf_alloced r then Some (st_ptr (smf_s r), unat (st_space (smf_s r))) else None
   | None \<Rightarrow> None)"

text \<open>The pages are a power of two; the storages tell where their ranges are; the gauges count them.\<close>

definition smf_dev_inv :: "smf_sc \<Rightarrow> bool" where
  "smf_dev_inv sc \<longleftrightarrow> smf_inv sc \<and> (\<exists>k < 32. sc_pagesize sc = 2 ^ k) \<and>
     (\<forall>x p off sz s. smf_live sc x = Some (p, off, sz, s) \<longrightarrow> st_ptr s = p \<and> unat (st_space s) = sz) \<and>
     smf_g_bytes sc = int (in_use (smf_dev_live sc)) \<and> smf_g_alloc sc = int (card (dom (smf_dev_live sc)))"

definition smf_takes :: "u64 \<Rightarrow> smf_sc \<Rightarrow> bool" where
  "smf_takes sz sc \<longleftrightarrow> 0 < sz \<and> uint sz + int (sc_pagesize sc) \<le> 2 ^ 32"

lemma smf_takes_nat: "smf_takes sz sc \<longleftrightarrow> 0 < sz \<and> unat sz + sc_pagesize sc \<le> 2 ^ 32"
proof -
  have "uint sz = int (unat sz)" by simp
  then have "uint sz + int (sc_pagesize sc) \<le> 2 ^ 32 \<longleftrightarrow> int (unat sz + sc_pagesize sc) \<le> int (2 ^ 32)" by (simp only: of_nat_add of_nat_power of_nat_numeral)
  then show ?thesis unfolding smf_takes_def of_nat_le_iff by blast
qed

definition smf_aok :: "smf_ref \<Rightarrow> u64 \<Rightarrow> smf_sc \<Rightarrow> bool" where
  "smf_aok n sz sc \<longleftrightarrow> sc_smf sc n = None"

definition smf_tok :: "smf_ref \<Rightarrow> st_ref \<Rightarrow> u64 \<Rightarrow> smf_sc \<Rightarrow> bool" where
  "smf_tok n x sz sc \<longleftrightarrow> sc_smf sc n = None"

lemma smf_dev_live_alt: "smf_dev_live sc x = map_option (\<lambda>(_, _, _, s). (st_ptr s, unat (st_space s))) (smf_live sc x)"
  by (auto simp: smf_dev_live_def smf_live_def split: option.splits)

lemma smf_live_Some: "smf_live sc x = Some (p, off, sz, s) \<longleftrightarrow> (\<exists>r. sc_smf sc x = Some r \<and> smf_alloced r \<and> smf_ptr r = p \<and> smf_offset r = off \<and> smf_size r = sz \<and> smf_s r = s)"
  by (auto simp: smf_live_def split: option.splits)

lemma smf_stats [simp]:
  "smf_inv (sc\<lparr>smf_c_req := a\<rparr>) = smf_inv sc" "smf_live (sc\<lparr>smf_c_req := a\<rparr>) = smf_live sc"
  "smf_inv (sc\<lparr>smf_c_fail := a\<rparr>) = smf_inv sc" "smf_live (sc\<lparr>smf_c_fail := a\<rparr>) = smf_live sc"
  "smf_inv (sc\<lparr>smf_c_bytes := a\<rparr>) = smf_inv sc" "smf_live (sc\<lparr>smf_c_bytes := a\<rparr>) = smf_live sc"
  "smf_inv (sc\<lparr>smf_c_freed := a\<rparr>) = smf_inv sc" "smf_live (sc\<lparr>smf_c_freed := a\<rparr>) = smf_live sc"
  "smf_inv (sc\<lparr>smf_g_alloc := a\<rparr>) = smf_inv sc" "smf_live (sc\<lparr>smf_g_alloc := a\<rparr>) = smf_live sc"
  "smf_inv (sc\<lparr>smf_g_bytes := a\<rparr>) = smf_inv sc" "smf_live (sc\<lparr>smf_g_bytes := a\<rparr>) = smf_live sc"
  "smf_inv (sc\<lparr>smf_g_space := a\<rparr>) = smf_inv sc" "smf_live (sc\<lparr>smf_g_space := a\<rparr>) = smf_live sc"
  by (simp_all add: smf_inv_def smf_wf_def coalesced_def ranges_def smf_live_def fun_eq_iff)

lemma smf_dev_live_cong: "smf_live sc' = smf_live sc \<Longrightarrow> smf_dev_live sc' = smf_dev_live sc"
  by (simp add: fun_eq_iff smf_dev_live_alt)

lemma smf_live_finite: "smf_inv sc \<Longrightarrow> finite (dom (smf_dev_live sc))"
proof -
  assume "smf_inv sc"
  then have "dom (sc_smf sc) = set (sc_order sc)" by (auto simp: smf_inv_def dest: smf_wfD(3))
  moreover have "dom (smf_dev_live sc) \<subseteq> dom (sc_smf sc)" by (auto simp: smf_dev_live_def split: option.splits)
  ultimately show ?thesis by (metis finite_set rev_finite_subset)
qed

lemma smf_dev_live_range:
  assumes "smf_dev_inv sc" and "smf_dev_live sc x = Some (p, n)"
  shows "\<exists>r. sc_smf sc x = Some r \<and> smf_alloced r \<and> smf_ptr r = p \<and> smf_size r = n \<and> st_ptr (smf_s r) = p \<and> unat (st_space (smf_s r)) = n"
proof -
  obtain p0 off sz s where l: "smf_live sc x = Some (p0, off, sz, s)" "p = st_ptr s" "n = unat (st_space s)"
    using assms(2) by (auto simp: smf_dev_live_alt)
  moreover have "st_ptr s = p0 \<and> unat (st_space s) = sz" using assms(1) l(1) unfolding smf_dev_inv_def by blast
  ultimately show ?thesis by (auto simp: smf_live_Some)
qed

text \<open>Ranges in use do not overlap.\<close>

lemma smf_live_apart:
  assumes "smf_dev_inv sc"
  shows "apart (smf_dev_live sc)"
  unfolding apart_def
proof (intro allI impI)
  fix x y p n q m
  assume *: "smf_dev_live sc x = Some (p, n)" "smf_dev_live sc y = Some (q, m)" "x \<noteq> y"
  obtain r r2 where r: "sc_smf sc x = Some r" "smf_ptr r = p" "smf_size r = n" "sc_smf sc y = Some r2" "smf_ptr r2 = q" "smf_size r2 = m"
    using smf_dev_live_range [OF assms] *(1,2) by metis
  have wf: "smf_wf {} sc" using assms by (simp add: smf_dev_inv_def smf_inv_def)
  then have "x \<in> set (sc_order sc)" "y \<in> set (sc_order sc)" using smf_wfD(3) r by auto
  then obtain i j where ij: "i < length (sc_order sc)" "sc_order sc ! i = x" "j < length (sc_order sc)" "sc_order sc ! j = y" by (auto simp: in_set_conv_nth)
  then have "i < j \<or> j < i" using *(3) by (metis nat_neq_iff)
  then have "p + n \<le> q \<or> q + m \<le> p"
    using smf_wfD(5) [OF wf] ij r unfolding ranges_def sorted_wrt_map sorted_wrt_iff_nth_less by fastforce
  then show "{p..<p + n} \<inter> {q..<q + m} = {}" by auto
qed

lemma smf_set_s:
  assumes "smf_inv sc" and "sc_smf sc x = Some r"
  shows "smf_inv (sc\<lparr>sc_smf := (sc_smf sc)(x \<mapsto> r\<lparr>smf_s := s\<rparr>)\<rparr>)"
    "smf_alloced r \<Longrightarrow> smf_live (sc\<lparr>sc_smf := (sc_smf sc)(x \<mapsto> r\<lparr>smf_s := s\<rparr>)\<rparr>) = (smf_live sc)(x \<mapsto> (smf_ptr r, smf_offset r, smf_size r, s))"
proof -
  let ?sc = "sc\<lparr>sc_smf := (sc_smf sc)(x \<mapsto> r\<lparr>smf_s := s\<rparr>)\<rparr>"
  have wf: "smf_wf {} sc" and co: "coalesced sc" using assms(1) by (auto simp: smf_inv_def)
  note w = smf_wfD [OF wf]
  have "smf_wf {} ?sc"
    unfolding smf_wf_def
  proof (intro conjI allI impI)
    show "sorted_wrt (\<lambda>r q. smf_end r \<le> smf_ptr q) (ranges ?sc)"
      using w(5) assms(2) unfolding ranges_def sorted_wrt_map by (auto elim!: sorted_wrt_mono_rel [rotated])
    show "set (sc_used ?sc) = {x. \<exists>r. sc_smf ?sc x = Some r \<and> smf_alloced r \<and> x \<notin> {}}" using assms(2) by (auto simp: w(10))
    show "set (sc_free ?sc b) = {x. \<exists>r. sc_smf ?sc x = Some r \<and> \<not> smf_alloced r \<and> x \<notin> {} \<and> bucket (sc_pagesize ?sc) (smf_size r) = b}" for b
      using assms(2) by (auto simp: w(12))
  qed (use w(1-3,6-9,11) assms(2) in \<open>auto split: if_splits\<close>)
  moreover have "coalesced ?sc"
    using co assms(2) unfolding coalesced_def ranges_def successively_map by (auto elim!: successively_mono simp: joinable_def joins_def)
  ultimately show "smf_inv ?sc" by (simp add: smf_inv_def)
  show "smf_live ?sc = (smf_live sc)(x \<mapsto> (smf_ptr r, smf_offset r, smf_size r, s))" if "smf_alloced r"
    using that by (auto simp: smf_live_def fun_eq_iff)
qed

text \<open>The operations on ranges leave the gauges of the device and the file size alone.\<close>

definition gauges :: "smf_sc \<Rightarrow> int \<times> int \<times> int \<times> nat" where
  "gauges sc = (smf_g_alloc sc, smf_g_bytes sc, smf_g_space sc, sc_filesize sc)"

lemma gauges_upd [simp]:
  "gauges (sc\<lparr>sc_smf := a\<rparr>) = gauges sc" "gauges (sc\<lparr>sc_order := b\<rparr>) = gauges sc" "gauges (sc\<lparr>sc_used := b\<rparr>) = gauges sc" "gauges (sc\<lparr>sc_free := c\<rparr>) = gauges sc"
  "gauges (sc\<lparr>g_smf := d\<rparr>) = gauges sc" "gauges (sc\<lparr>g_smf_large := d\<rparr>) = gauges sc" "gauges (sc\<lparr>g_smf_frag := d\<rparr>) = gauges sc"
  by (simp_all add: gauges_def)

lemma insfree_gauges: "insfree x sc = Some sc' \<Longrightarrow> gauges sc = g \<Longrightarrow> gauges sc' = g"
  by (auto simp: insfree_def Let_def bind_eq_Some_conv split: if_splits)

lemma remfree_gauges: "remfree x sc = Some sc' \<Longrightarrow> gauges sc = g \<Longrightarrow> gauges sc' = g"
  unfolding remfree_def Let_def assert_c_bind by (cases "sc_smf sc x") (auto split: if_splits simp del: in_set_remove1)

lemma smf_upd_gauges: "smf_upd x f sc = Some sc' \<Longrightarrow> gauges sc = g \<Longrightarrow> gauges sc' = g"
  by (auto simp: smf_upd_def bind_eq_Some_conv)

lemma alloc_smf_gauges:
  assumes "alloc_smf n bytes sc = Some (sc', res)" and "gauges sc = g"
  shows "gauges sc' = g"
proof -
  define sp where "sp = (case first_bucket sc [min (bytes div sc_pagesize sc) (NBUCKET - 1)..<NBUCKET - 1] of
    Some x \<Rightarrow> Some (Some x) | None \<Rightarrow> first_large sc bytes (sc_free sc (NBUCKET - 1)))"
  show ?thesis
    using assms unfolding alloc_smf_def Let_def sp_def [symmetric]
    by (auto simp: bind_eq_Some_conv split: option.splits if_splits elim!: insfree_gauges remfree_gauges smf_upd_gauges)
qed

lemma free_next_gauges: "free_next x sc = Some sc' \<Longrightarrow> gauges sc = g \<Longrightarrow> gauges sc' = g"
  by (auto simp: free_next_def Let_def bind_eq_Some_conv split: option.splits if_splits elim!: remfree_gauges)

lemma free_prev_gauges: "free_prev x sc = Some (sc', y) \<Longrightarrow> gauges sc = g \<Longrightarrow> gauges sc' = g"
  by (auto simp: free_prev_def Let_def bind_eq_Some_conv split: option.splits if_splits elim!: remfree_gauges smf_upd_gauges)

lemma free_smf_gauges: "free_smf x sc = Some sc' \<Longrightarrow> gauges sc = g \<Longrightarrow> gauges sc' = g"
  by (auto simp: free_smf_def Let_def bind_eq_Some_conv elim!: insfree_gauges free_next_gauges free_prev_gauges)

lemma trim_smf_gauges: "trim_smf n x bytes sc = Some sc' \<Longrightarrow> gauges sc = g \<Longrightarrow> gauges sc' = g"
  by (auto simp: trim_smf_def Let_def bind_eq_Some_conv elim!: free_smf_gauges)

lemma smf_dev_live_upd:
  assumes "smf_live sc' = (smf_live sc)(x \<mapsto> (p, off, sz, s))"
  shows "smf_dev_live sc' = (smf_dev_live sc)(x \<mapsto> (st_ptr s, unat (st_space s)))"
  by (auto simp: fun_eq_iff smf_dev_live_alt assms)

lemma smf_dev_live_del:
  assumes "smf_live sc' = (smf_live sc)(x := None)"
  shows "smf_dev_live sc' = (smf_dev_live sc)(x := None)"
  by (auto simp: fun_eq_iff smf_dev_live_alt assms)

text \<open>The invariant after a change of what is in use, with the gauges moved along.\<close>

lemma smf_dev_invI:
  assumes "smf_inv sc" and "sc_pagesize sc = 2 ^ k" and "k < 32" and "smf_g_bytes sc = int (in_use (smf_dev_live sc))"
    and "smf_g_alloc sc = int (card (dom (smf_dev_live sc)))"
    and "\<And>x p off sz s. smf_live sc x = Some (p, off, sz, s) \<Longrightarrow> st_ptr s = p \<and> unat (st_space s) = sz"
  shows "smf_dev_inv sc"
  using assms unfolding smf_dev_inv_def by blast

lemma smf_alloc_ok:
  assumes inv: "smf_dev_inv sc" and sz: "smf_takes sz sc" and n: "smf_aok n sz sc"
  shows "\<exists>sc' res. smf_alloc n sz sc = Some (sc', res) \<and> smf_dev_inv sc' \<and>
    (case res of
       None \<Rightarrow> smf_dev_live sc' = smf_dev_live sc \<and> (\<forall>x r. sc_smf sc x = Some r \<longrightarrow> \<not> smf_alloced r \<longrightarrow> smf_size r < unat (smf_round (sc_pagesize sc) sz))
     | Some x \<Rightarrow> smf_dev_live sc x = None \<and> (\<exists>p. smf_dev_live sc' = (smf_dev_live sc)(x \<mapsto> (p, unat (smf_round (sc_pagesize sc) sz)))) \<and>
         (\<exists>y r. sc_smf sc y = Some r \<and> \<not> smf_alloced r \<and> unat (smf_round (sc_pagesize sc) sz) \<le> smf_size r))"
proof -
  obtain k where k: "sc_pagesize sc = 2 ^ k" "k < 32" using inv by (auto simp: smf_dev_inv_def)
  let ?sz = "smf_round (sc_pagesize sc) sz"
  note rd = smf_round_exact [OF k, of sz]
  have b: "sc_pagesize sc dvd unat ?sz" "0 < unat ?sz" "unat ?sz < 2 ^ 32" using rd(2,3,5) sz by (auto simp: smf_takes_nat word_less_nat_alt)
  let ?s0 = "sc\<lparr>smf_c_req := smf_c_req sc + 1\<rparr>"
  have i0: "smf_inv ?s0" "sc_smf ?s0 n = None" using inv n by (simp_all add: smf_dev_inv_def smf_aok_def)
  obtain s1 res where s1: "alloc_smf n (unat ?sz) ?s0 = Some (s1, res)" "smf_inv s1" "sc_pagesize s1 = sc_pagesize sc"
      "case res of
         None \<Rightarrow> s1 = ?s0 \<and> (\<forall>x r. sc_smf ?s0 x = Some r \<longrightarrow> \<not> smf_alloced r \<longrightarrow> smf_size r < unat ?sz)
       | Some x \<Rightarrow> smf_live ?s0 x = None \<and> (\<exists>y r. sc_smf ?s0 y = Some r \<and> \<not> smf_alloced r \<and> unat ?sz \<le> smf_size r \<and>
           smf_live s1 = (smf_live ?s0)(x \<mapsto> (smf_ptr r, smf_offset r, unat ?sz, smf_s r)))"
    using alloc_smf_ok [OF i0(1) _ b(2) i0(2)] b(1) by auto
  have g: "gauges s1 = gauges sc" by (rule alloc_smf_gauges [OF s1(1)]) (simp add: gauges_def)
  show ?thesis
  proof (cases res)
    case None
    let ?sc = "?s0\<lparr>smf_c_fail := smf_c_fail ?s0 + 1\<rparr>"
    have "smf_alloc n sz sc = Some (?sc, None)" using s1 None sz by (simp add: smf_alloc_def Let_def smf_takes_nat)
    moreover have "smf_live ?sc = smf_live sc" by simp
    ultimately show ?thesis using inv smf_dev_live_cong [of ?sc sc] s1(4) None by (auto simp: smf_dev_inv_def)
  next
    case (Some x)
    then have big: "\<exists>y r. sc_smf sc y = Some r \<and> \<not> smf_alloced r \<and> unat ?sz \<le> smf_size r" using s1(4) by auto
    obtain p off s where l1: "smf_live s1 = (smf_live sc)(x \<mapsto> (p, off, unat ?sz, s))" and l0: "smf_live sc x = None" using s1(4) Some by auto
    then obtain r where r: "sc_smf s1 x = Some r" "smf_alloced r" "smf_size r = unat ?sz" "smf_ptr r = p" "smf_offset r = off"
      using smf_live_Some [of s1 x p off "unat ?sz" s] by auto
    let ?st = "\<lparr>st_ptr = smf_ptr r, st_len = 0, st_space = ucast ?sz\<rparr>"
    let ?s2 = "s1\<lparr>smf_g_alloc := smf_g_alloc s1 + 1, smf_c_bytes := smf_c_bytes s1 + int (smf_size r),
       smf_g_bytes := smf_g_bytes s1 + int (smf_size r), smf_g_space := smf_g_space s1 - int (smf_size r)\<rparr>"
    let ?sc = "?s2\<lparr>sc_smf := (sc_smf ?s2)(x \<mapsto> r\<lparr>smf_s := ?st\<rparr>)\<rparr>"
    have run: "smf_alloc n sz sc = Some (?sc, Some x)" using s1(1) Some r sz by (simp add: smf_alloc_def Let_def smf_takes_nat)
    have i2: "smf_inv ?s2" "sc_smf ?s2 x = Some r" using s1(2) r(1) by simp_all
    have inv2: "smf_inv ?sc" and "smf_live ?sc = (smf_live ?s2)(x \<mapsto> (smf_ptr r, smf_offset r, smf_size r, ?st))"
      using smf_set_s [OF i2] r(2) by auto
    then have live: "smf_live ?sc = (smf_live sc)(x \<mapsto> (p, off, unat ?sz, ?st))" using l1 r by simp
    have sp: "unat (ucast ?sz :: u32) = unat ?sz" using b(3) by (simp add: unat_ucast_down32)
    have dl: "smf_dev_live ?sc = (smf_dev_live sc)(x \<mapsto> (p, unat ?sz))" using smf_dev_live_upd [OF live] r(4) sp by simp
    have d0: "smf_dev_live sc x = None" using l0 by (simp add: smf_dev_live_alt)
    have fin: "finite (dom (smf_dev_live sc))" using inv by (simp add: smf_dev_inv_def smf_live_finite)
    have "smf_dev_inv ?sc"
    proof (rule smf_dev_invI [OF inv2 _ k(2)])
      show "sc_pagesize ?sc = 2 ^ k" using s1(3) k(1) by simp
      show "smf_g_bytes ?sc = int (in_use (smf_dev_live ?sc))"
        using g inv r(3) unfolding dl in_use_new [OF fin d0] by (simp add: smf_dev_inv_def gauges_def)
      show "smf_g_alloc ?sc = int (card (dom (smf_dev_live ?sc)))"
        using g inv fin d0 unfolding dl by (simp add: smf_dev_inv_def gauges_def domIff)
      show "st_ptr s' = p' \<and> unat (st_space s') = sz'" if "smf_live ?sc x' = Some (p', off', sz', s')" for x' p' off' sz' s'
        using that inv r(4) sp unfolding live smf_dev_inv_def by (auto split: if_splits)
    qed
    then show ?thesis using run dl d0 big by auto
  qed
qed

lemma smf_free_ok:
  assumes inv: "smf_dev_inv sc" and x: "smf_dev_live sc x \<noteq> None"
  shows "\<exists>sc'. smf_free x sc = Some sc' \<and> smf_dev_inv sc' \<and> smf_dev_live sc' = (smf_dev_live sc)(x := None)"
proof -
  obtain p n where pn: "smf_dev_live sc x = Some (p, n)" using x by auto
  obtain k where k: "sc_pagesize sc = 2 ^ k" "k < 32" using inv by (auto simp: smf_dev_inv_def)
  obtain r where r: "sc_smf sc x = Some r" "smf_alloced r" "smf_size r = n" using smf_dev_live_range [OF inv pn] by blast
  let ?s0 = "sc\<lparr>smf_g_alloc := smf_g_alloc sc - 1, smf_c_freed := smf_c_freed sc + int (smf_size r),
       smf_g_bytes := smf_g_bytes sc - int (smf_size r), smf_g_space := smf_g_space sc + int (smf_size r)\<rparr>"
  have i0: "smf_inv ?s0" "sc_smf ?s0 x = Some r" using inv r by (simp_all add: smf_dev_inv_def)
  obtain s1 where s1: "free_smf x ?s0 = Some s1" "smf_inv s1" "smf_live s1 = (smf_live ?s0)(x := None)" "sc_pagesize s1 = sc_pagesize ?s0"
    using free_smf_ok [OF i0 r(2)] by blast
  have g: "gauges s1 = gauges ?s0" by (rule free_smf_gauges [OF s1(1)]) simp
  have live: "smf_live s1 = (smf_live sc)(x := None)" using s1(3) by simp
  note dl = smf_dev_live_del [OF live]
  have fin: "finite (dom (smf_dev_live sc))" using inv by (simp add: smf_dev_inv_def smf_live_finite)
  have "smf_dev_inv s1"
  proof (rule smf_dev_invI [OF s1(2) _ k(2)])
    show "sc_pagesize s1 = 2 ^ k" using s1(4) k(1) by simp
    show "smf_g_bytes s1 = int (in_use (smf_dev_live s1))"
      using g inv r(3) in_use_del [OF fin pn] unfolding dl by (simp add: smf_dev_inv_def gauges_def)
    have "0 < card (dom (smf_dev_live sc))" using fin pn by (auto simp: card_gt_0_iff)
    then show "smf_g_alloc s1 = int (card (dom (smf_dev_live s1)))"
      using g inv fin pn unfolding dl by (simp add: smf_dev_inv_def gauges_def domI of_nat_diff)
    show "st_ptr s' = p' \<and> unat (st_space s') = sz'" if "smf_live s1 x' = Some (p', off', sz', s')" for x' p' off' sz' s'
      using that inv unfolding live smf_dev_inv_def by (auto split: if_splits)
  qed
  then show ?thesis using s1(1) r(1) dl by (simp add: smf_free_def)
qed

lemma smf_trim_ok:
  assumes inv: "smf_dev_inv sc" and x: "smf_dev_live sc x = Some (p, n)" and sz: "0 < sz" "unat sz < n" and nw: "smf_tok f x sz sc"
  shows "\<exists>sc'. smf_trim f x sz sc = Some sc' \<and> smf_dev_inv sc' \<and> smf_dev_live sc' = (smf_dev_live sc)(x \<mapsto> (p, unat (smf_round (sc_pagesize sc) sz))) \<and>
    unat sz \<le> unat (smf_round (sc_pagesize sc) sz) \<and> unat (smf_round (sc_pagesize sc) sz) \<le> n"
proof -
  obtain k where k: "sc_pagesize sc = 2 ^ k" "k < 32" using inv by (auto simp: smf_dev_inv_def)
  obtain r where r: "sc_smf sc x = Some r" "smf_alloced r" "smf_size r = n" "smf_ptr r = p" "st_ptr (smf_s r) = p" "unat (st_space (smf_s r)) = n"
    using smf_dev_live_range [OF inv x] by blast
  let ?sz = "smf_round (sc_pagesize sc) sz"
  have n32: "n < 2 ^ 32" using r(6) unat_u32_bound [of "st_space (smf_s r)"] by simp
  have dv: "sc_pagesize sc dvd n" using inv r(1,3) by (auto simp: smf_dev_inv_def smf_inv_def dest: smf_wfD(7))
  have fit: "unat sz + sc_pagesize sc \<le> 2 ^ 32"
  proof -
    obtain c where c: "n = sc_pagesize sc * c" using dv by blast
    obtain d where d: "(2::nat) ^ 32 = sc_pagesize sc * d" unfolding k(1) using k(2) by (metis dvdE le_imp_power_dvd less_imp_le)
    have "c < d" using n32 unfolding c d by simp
    then have "sc_pagesize sc * (c + 1) \<le> 2 ^ 32" unfolding d by (intro mult_le_mono) auto
    then show ?thesis using sz(2) c by simp
  qed
  note rd = smf_round_exact [OF k fit]
  have le: "unat ?sz \<le> n"
  proof (rule ccontr)
    assume "\<not> unat ?sz \<le> n"
    then obtain c d where cd: "n = sc_pagesize sc * c" "unat ?sz = sc_pagesize sc * d" "c < d" using dv rd(3) by (metis dvdE not_le nat_mult_less_cancel1 mult_less_cancel1)
    then have "sc_pagesize sc * (c + 1) \<le> unat ?sz" unfolding cd(2) by (intro mult_le_mono) auto
    then show False using rd(4) sz(2) cd(1) by simp
  qed
  have sp: "sz \<le> ucast (st_space (smf_s r))" "unat sz \<le> smf_size r" using r sz(2) by (simp_all add: word_le_nat_alt)
  have us: "unat (ucast ?sz :: u32) = unat ?sz" using rd(5) by (simp add: unat_ucast_down32)
  show ?thesis
  proof (cases "unat ?sz = n")
    case True
    then have "smf_trim f x sz sc = Some sc" using r sz sp by (simp add: smf_trim_def Let_def)
    moreover have "(smf_dev_live sc)(x \<mapsto> (p, unat ?sz)) = smf_dev_live sc" using x True by auto
    ultimately show ?thesis using inv rd(2) le by simp
  next
    case False
    then have lt: "unat ?sz < smf_size r" using le r(3) by simp
    define d where "d = int (smf_size r - unat ?sz)"
    let ?s0 = "sc\<lparr>smf_c_freed := smf_c_freed sc + d, smf_g_bytes := smf_g_bytes sc - d, smf_g_space := smf_g_space sc + d\<rparr>"
    have i0: "smf_inv ?s0" "sc_smf ?s0 x = Some r" "sc_smf ?s0 f = None" "sc_pagesize ?s0 dvd unat ?sz" "0 < unat ?sz"
      using inv r nw rd(2,3) sz(1) by (simp_all add: smf_dev_inv_def smf_tok_def word_less_nat_alt)
    obtain s1 where s1: "trim_smf f x (unat ?sz) ?s0 = Some s1" "smf_inv s1" "smf_live s1 = (smf_live ?s0)(x \<mapsto> (smf_ptr r, smf_offset r, unat ?sz, smf_s r))"
        "sc_pagesize s1 = sc_pagesize ?s0"
      using trim_smf_ok [OF i0(1,2) r(2) i0(3-5) lt] by blast
    have g: "gauges s1 = gauges ?s0" by (rule trim_smf_gauges [OF s1(1)]) simp
    obtain r1 where r1: "sc_smf s1 x = Some r1" "smf_alloced r1" "smf_size r1 = unat ?sz" "smf_ptr r1 = p" "smf_offset r1 = smf_offset r" "smf_s r1 = smf_s r"
      using smf_live_Some [of s1 x "smf_ptr r" "smf_offset r" "unat ?sz" "smf_s r"] r(4) by (auto simp: s1(3))
    let ?st = "(smf_s r1)\<lparr>st_space := ucast ?sz\<rparr>"
    let ?sc = "s1\<lparr>sc_smf := (sc_smf s1)(x \<mapsto> r1\<lparr>smf_s := ?st\<rparr>)\<rparr>"
    have run: "smf_trim f x sz sc = Some ?sc" using r sz sp lt s1(1) [unfolded d_def] r1 by (simp add: smf_trim_def Let_def)
    have inv2: "smf_inv ?sc" and "smf_live ?sc = (smf_live s1)(x \<mapsto> (smf_ptr r1, smf_offset r1, smf_size r1, ?st))"
      using smf_set_s [OF s1(2) r1(1)] r1(2) by auto
    then have live: "smf_live ?sc = (smf_live sc)(x \<mapsto> (p, smf_offset r, unat ?sz, ?st))" using s1(3) r1 by simp
    have dl: "smf_dev_live ?sc = (smf_dev_live sc)(x \<mapsto> (p, unat ?sz))" using smf_dev_live_upd [OF live] r1(6) r(5) us by simp
    have fin: "finite (dom (smf_dev_live sc))" using inv by (simp add: smf_dev_inv_def smf_live_finite)
    have "smf_dev_inv ?sc"
    proof (rule smf_dev_invI [OF inv2 _ k(2)])
      show "sc_pagesize ?sc = 2 ^ k" using s1(4) k(1) by simp
      have "d + int (unat ?sz) = int n" using lt r(3) by (simp only: d_def of_nat_diff)
      moreover have "int (in_use (smf_dev_live ?sc)) + int n = int (in_use (smf_dev_live sc)) + int (unat ?sz)"
        using in_use_upd [OF fin x, of p "unat ?sz"] unfolding dl by (metis of_nat_add)
      moreover have "smf_g_bytes ?sc = int (in_use (smf_dev_live sc)) - d" using g inv by (simp add: smf_dev_inv_def gauges_def)
      ultimately show "smf_g_bytes ?sc = int (in_use (smf_dev_live ?sc))" by linarith
      show "smf_g_alloc ?sc = int (card (dom (smf_dev_live ?sc)))"
        using g inv x unfolding dl by (simp add: smf_dev_inv_def gauges_def insert_absorb domI)
      show "st_ptr s' = p' \<and> unat (st_space s') = sz'" if "smf_live ?sc x' = Some (p', off', sz', s')" for x' p' off' sz' s'
        using that inv r(5) r1(6) us unfolding live smf_dev_inv_def by (auto split: if_splits)
    qed
    then show ?thesis using run dl rd(2) le by simp
  qed
qed

interpretation smf: storage_device smf_dev_inv smf_dev_live smf_takes smf_aok smf_tok smf_alloc smf_trim smf_free
proof (unfold_locales, goal_cases)
  case (1 s)
  then show ?case by (rule smf_live_apart)
next
  case (2 s sz e)
  obtain k where k: "sc_pagesize s = 2 ^ k" "k < 32" using 2(1) by (auto simp: smf_dev_inv_def)
  have "unat sz \<le> unat (smf_round (sc_pagesize s) sz)" using smf_round_exact(2) [OF k] 2(2) by (simp add: smf_takes_nat)
  then show ?case using smf_alloc_ok [OF 2] by (force split: option.splits)
next
  case (3 s x p n sz f)
  then show ?case using smf_trim_ok by blast
next
  case (4 s x)
  then show ?case by (rule smf_free_ok)
qed

subsection \<open>Results\<close>

lemma smf_init_inv: "0 < ps \<Longrightarrow> smf_inv (smf_init ps fs)"
  by (simp add: smf_init_def smf_inv_def smf_wf_def coalesced_def ranges_def)

lemma smf_init_simps [simp]:
  "sc_pagesize (smf_init ps fs) = ps" "sc_filesize (smf_init ps fs) = fs" "smf_live (smf_init ps fs) = Map.empty" "smf_total (smf_init ps fs) = 0"
  "gauges (smf_init ps fs) = (0, 0, 0, fs)" "smf_mem (smf_init ps fs) = {}" "sc_smf (smf_init ps fs) = Map.empty"
  by (simp_all add: smf_init_def smf_live_def smf_total_def ranges_def gauges_def smf_mem_def fun_eq_iff)

lemma new_smf_gauges: "new_smf n p off len sc = Some sc' \<Longrightarrow> gauges sc = g \<Longrightarrow> gauges sc' = g"
  by (auto simp: new_smf_def Let_def bind_eq_Some_conv elim!: free_smf_gauges)

lemma smf_dev_inv_unused:
  assumes "smf_inv sc" and "sc_pagesize sc = 2 ^ k" and "k < 32" and "smf_live sc = Map.empty" and "smf_g_bytes sc = 0" and "smf_g_alloc sc = 0"
  shows "smf_dev_inv sc"
proof (rule smf_dev_invI [OF assms(1-3)])
  have "smf_dev_live sc = Map.empty" by (simp add: fun_eq_iff smf_dev_live_alt assms(4))
  then show "smf_g_bytes sc = int (in_use (smf_dev_live sc))" "smf_g_alloc sc = int (card (dom (smf_dev_live sc)))" using assms(5,6) by (simp_all add: in_use_def)
qed (simp add: assms(4))

lemma smf_open_chunk_gauges: "smf_open_chunk mal mm sz off fail tot sc = Some (fail', tot', sc') \<Longrightarrow> gauges sc = g \<Longrightarrow> gauges sc' = g"
proof (induction mal mm sz off fail tot sc arbitrary: fail' tot' sc' rule: smf_open_chunk.induct)
  case (1 mal mm sz off fail tot sc)
  let ?ans = "if sz > 0 \<and> sz < fail \<and> sz < SSIZE_MAX then mm sz off else None"
  have a: "sz \<noteq> 0" "sc_pagesize sc \<noteq> 0" "sz mod sc_pagesize sc = 0" using 1(3) by (auto simp: smf_open_chunk.simps [of mal mm sz] bind_eq_Some_conv)
  show ?case
  proof (cases "fail < sc_pagesize sc * MINPAGES")
    case True
    then show ?thesis using 1(3,4) a by (simp add: smf_open_chunk.simps [of mal mm sz])
  next
    case False
    show ?thesis
    proof (cases ?ans)
      case (Some p)
      then show ?thesis using 1(3,4) a False
        by (simp add: smf_open_chunk.simps [of mal mm sz] bind_eq_Some_conv) (metis new_smf_gauges)
    next
      case None
      let ?f = "if sz < fail then sz else fail" and ?h0 = "if sz div 2 > SSIZE_MAX then SSIZE_MAX else sz div 2"
      let ?h = "?h0 - ?h0 mod sc_pagesize sc"
      have "?h \<noteq> 0 \<and> (\<exists>f1 t1 s1. smf_open_chunk mal mm ?h off ?f tot sc = Some (f1, t1, s1) \<and> smf_open_chunk mal mm (sz - ?h) (off + ?h) f1 t1 s1 = Some (fail', tot', sc'))"
        using 1(3) a False None by (subst (asm) smf_open_chunk.simps) (auto simp: Let_def bind_eq_Some_conv simp del: diff_is_0_eq not_less split: if_split_asm)
      then obtain f1 t1 s1 where r: "?h \<noteq> 0" "smf_open_chunk mal mm ?h off ?f tot sc = Some (f1, t1, s1)"
          "smf_open_chunk mal mm (sz - ?h) (off + ?h) f1 t1 s1 = Some (fail', tot', sc')" by blast
      have asserts: "assert_c (sz \<noteq> 0) = Some ()" "assert_c (sc_pagesize sc \<noteq> 0) = Some ()" "assert_c (sz mod sc_pagesize sc = 0) = Some ()" using a by simp_all
      have "gauges s1 = g" by (rule 1(1) [OF asserts False None refl refl refl r(1,2) 1(4)])
      then show ?thesis by (rule 1(2) [OF asserts False None refl refl refl r(1,2) refl refl r(3)])
    qed
  qed
qed

text \<open>A small example device: 50 pages of 4 bytes, mapped at an address.\<close>

definition smf_ex :: smf_sc where
  "smf_ex = the (new_smf 1 64 0 200 (smf_init 4 200))"

definition smf_ex_calls :: "(smf_ref, smf_ref) dev_call list" where
  "smf_ex_calls = [Alloc 2 5, Alloc 3 1, Alloc 4 60, Trim 5 2 3, Free 3, Alloc 6 4, Free 2]"

lemma smf_ex_inv: "smf_dev_inv smf_ex"
proof -
  obtain sc where sc: "new_smf 1 64 0 200 (smf_init 4 200) = Some sc" "smf_inv sc" "smf_live sc = Map.empty" "sc_pagesize sc = 4"
    using new_smf_ok [OF smf_init_inv, of 4 200 1 200 64 0] by auto
  have "gauges sc = (0, 0, 0, 200)" by (rule new_smf_gauges [OF sc(1)]) simp
  then have "smf_dev_inv sc" using sc by (intro smf_dev_inv_unused [of sc 2]) (simp_all add: gauges_def)
  then show ?thesis unfolding smf_ex_def sc(1) by simp
qed

text \<open>Two cases the code does not foresee: a size in the last page below 4 GB, and pages that are not a power of two.\<close>

lemma smf_alloc_last_page:
  "(do { (sc, x) \<leftarrow> smf_alloc 2 4294967295 smf_ex; x \<leftarrow> x; r \<leftarrow> sc_smf sc x; Some (st_space (smf_s r), Option.is_none (smf_free x sc)) }) = Some (0, True)"
  by code_simp

lemma smf_alloc_odd_pages: "Option.is_none (smf_alloc 2 1 (the (new_smf 1 64 0 120 (smf_init 12 120))))"
  by code_simp

text \<open>
  C18: any sequence of calls of the methods of the file storage that a client may make (sizes that
  leave room for the rounding below \<open>2 ^ 32\<close>, storage it holds, trims to less than the space) runs without a failed
  assertion; at the end the ranges are in address order without overlap, every range is on the list its state and size ask for, no
  two free neighbours are left unjoined, the gauges count what is in use, and no two storages in use share memory.\<close>

theorem smf_device_safe:
  assumes "smf_dev_inv sc"
    and "dev_legals (dev_step smf_alloc smf_trim smf_free) (dev_legal smf_dev_live smf_takes smf_aok smf_tok) calls sc"
  shows "\<exists>sc'. dev_run (dev_step smf_alloc smf_trim smf_free) calls sc = Some sc' \<and> smf_dev_inv sc' \<and> apart (smf_dev_live sc')"
  using assms by (rule smf.run_ok)

theorem smf_device_safe_witness:
  "\<exists>sc'. dev_run (dev_step smf_alloc smf_trim smf_free) smf_ex_calls smf_ex = Some sc' \<and> smf_dev_inv sc' \<and> apart (smf_dev_live sc')"
proof (rule smf_device_safe [OF smf_ex_inv])
  show "dev_legals (dev_step smf_alloc smf_trim smf_free) (dev_legal smf_dev_live smf_takes smf_aok smf_tok) smf_ex_calls smf_ex" by code_simp
qed

text \<open>
  C31: an allocation rounds the size up to whole pages. It fails exactly when no free range is that large,
  and then changes nothing that is in use; otherwise it hands out storage of exactly the rounded size, with all other storage as it was.\<close>

theorem smf_alloc_exact:
  assumes "smf_dev_inv sc" and "smf_takes sz sc" and "smf_aok n sz sc"
  shows "\<exists>sc' res. smf_alloc n sz sc = Some (sc', res) \<and> smf_dev_inv sc' \<and>
    (res = None \<longleftrightarrow> (\<forall>x r. sc_smf sc x = Some r \<longrightarrow> \<not> smf_alloced r \<longrightarrow> smf_size r < unat (smf_round (sc_pagesize sc) sz))) \<and>
    (case res of
       None \<Rightarrow> smf_dev_live sc' = smf_dev_live sc
     | Some x \<Rightarrow> smf_dev_live sc x = None \<and> (\<exists>p. smf_dev_live sc' = (smf_dev_live sc)(x \<mapsto> (p, unat (smf_round (sc_pagesize sc) sz)))))"
proof -
  obtain sc' res where "smf_alloc n sz sc = Some (sc', res)" "smf_dev_inv sc'"
    "case res of
       None \<Rightarrow> smf_dev_live sc' = smf_dev_live sc \<and> (\<forall>x r. sc_smf sc x = Some r \<longrightarrow> \<not> smf_alloced r \<longrightarrow> smf_size r < unat (smf_round (sc_pagesize sc) sz))
     | Some x \<Rightarrow> smf_dev_live sc x = None \<and> (\<exists>p. smf_dev_live sc' = (smf_dev_live sc)(x \<mapsto> (p, unat (smf_round (sc_pagesize sc) sz)))) \<and>
         (\<exists>y r. sc_smf sc y = Some r \<and> \<not> smf_alloced r \<and> unat (smf_round (sc_pagesize sc) sz) \<le> smf_size r)"
    using smf_alloc_ok [OF assms] by blast
  then show ?thesis by (cases res) (auto simp: not_less)
qed

theorem smf_alloc_exact_witness: "\<exists>sc' x p. smf_alloc 2 7 smf_ex = Some (sc', Some x) \<and> smf_dev_inv sc' \<and> smf_dev_live sc' x = Some (p, 8)"
proof -
  have a: "smf_takes 7 smf_ex" "smf_aok 2 7 smf_ex" by code_simp+
  have "unat (smf_round (sc_pagesize smf_ex) 7) = 8" by code_simp
  moreover have "\<exists>r. sc_smf smf_ex 1 = Some r \<and> \<not> smf_alloced r \<and> 8 \<le> smf_size r"
  proof -
    have "(case sc_smf smf_ex 1 of Some r \<Rightarrow> \<not> smf_alloced r \<and> 8 \<le> smf_size r | None \<Rightarrow> False)" by code_simp
    then show ?thesis by (auto split: option.splits)
  qed
  ultimately show ?thesis using smf_alloc_exact [OF smf_ex_inv a] by (force simp: not_less split: option.splits)
qed

lemma fold_max_ge: "m \<le> fold max xs (m::nat) \<and> (\<forall>x \<in> set xs. x \<le> fold max xs m)"
  by (induction xs arbitrary: m) (auto intro: order_trans [rotated] max.cobounded1 max.cobounded2, (metis max.bounded_iff)+)

lemma malloc_max_fresh: "malloc_fresh (\<lambda>sc. Suc (fold max (sc_order sc) 0))"
  unfolding malloc_fresh_def
proof (intro allI impI)
  fix sc
  assume "smf_inv sc"
  then have "dom (sc_smf sc) = set (sc_order sc)" by (auto simp: smf_inv_def dest: smf_wfD(3))
  moreover have "Suc (fold max (sc_order sc) 0) \<notin> set (sc_order sc)" using fold_max_ge [of 0 "sc_order sc"] by fastforce
  ultimately show "sc_smf sc (Suc (fold max (sc_order sc) 0)) = None" by auto
qed

text \<open>
  C32: opening the file storage ends: for a file of two pages or more it either gives up, with exit
  code 2 when less than \<open>MINPAGES\<close> pages of the system could be mapped, or leaves a device with nothing in use whose ranges are the
  chunks that were mapped; and when \<open>mmap\<close> fails for no chunk below 1 GB, the whole file is mapped, however large it is.\<close>

theorem smf_open_maps:
  assumes "pagesize = 2 ^ k" and "k < 32" and "pagesize dvd filesize" and "2 * pagesize \<le> filesize" and "filesize \<le> SSIZE_MAX"
    and "malloc_fresh mal" and "mmap_apart mm"
  shows "\<exists>res. smf_open mal mm getpagesize (smf_init pagesize filesize) = Some res \<and>
    (case res of
       Inl c \<Rightarrow> c = 2
     | Inr sc \<Rightarrow> smf_dev_inv sc \<and> smf_dev_live sc = Map.empty \<and> MINPAGES * getpagesize \<le> smf_total sc \<and> smf_total sc \<le> filesize) \<and>
    (pagesize * MINPAGES \<le> 2 ^ 30 \<longrightarrow> MINPAGES * getpagesize \<le> filesize \<longrightarrow> (\<forall>s off. s < 2 ^ 30 \<longrightarrow> mm s off \<noteq> None) \<longrightarrow>
      (\<exists>sc. res = Inr sc \<and> smf_total sc = filesize))"
proof -
  let ?s0 = "smf_init pagesize filesize"
  have i0: "smf_inv ?s0" using assms(1) by (intro smf_init_inv) simp
  have "unmapped mm 0 ?s0" by (simp add: unmapped_def)
  moreover have "0 < filesize" using assms(1,4) by (metis le_zero_eq mult_eq_0_iff neq0_conv power_not_zero zero_neq_numeral)
  ultimately obtain f t s where run: "smf_open_chunk mal mm filesize 0 (2 ^ 30) 0 ?s0 = Some (f, t, s)" "chunk_post mm filesize 0 (2 ^ 30) 0 ?s0 f t s"
    using smf_open_chunk_ok [OF i0, of filesize "2 ^ 30" mal mm 0 0] assms by auto
  have g: "gauges s = (0, 0, 0, filesize)" by (rule smf_open_chunk_gauges [OF run(1)]) simp
  note p = run(2) [unfolded chunk_post_def]
  let ?s = "s\<lparr>smf_g_space := smf_g_space s + int (sc_filesize s)\<rparr>"
  have "smf_total ?s = smf_total s" by (simp add: smf_total_def ranges_def)
  then have tot: "smf_total ?s = t" "t \<le> filesize" using p by simp_all
  have "smf_dev_inv ?s" by (rule smf_dev_inv_unused [OF _ _ assms(2)]) (use p assms(1) g in \<open>simp_all add: gauges_def\<close>)
  moreover have "smf_dev_live ?s = Map.empty" using p by (simp add: fun_eq_iff smf_dev_live_alt)
  moreover have "t = filesize" if "pagesize * MINPAGES \<le> 2 ^ 30" "\<forall>s off. s < 2 ^ 30 \<longrightarrow> mm s off \<noteq> None"
    using p that by (simp add: SSIZE_MAX_def)
  moreover define B where "B \<longleftrightarrow> (\<forall>s off. s < 2 ^ 30 \<longrightarrow> mm s off \<noteq> None)"
  ultimately show ?thesis using tot run(1) unfolding B_def [symmetric] by (cases "t < MINPAGES * getpagesize") (auto simp: smf_open_def)
qed

theorem smf_open_maps_witness:
  "\<exists>sc. smf_open (\<lambda>sc. Suc (fold max (sc_order sc) 0)) (\<lambda>s off. Some (65536 + off)) 4096 (smf_init (2 ^ 12) (2 ^ 31)) = Some (Inr sc) \<and>
    smf_dev_inv sc \<and> smf_total sc = 2 ^ 31"
proof -
  have "mmap_apart (\<lambda>s off. Some (65536 + off))" by (auto simp: mmap_apart_def)
  then show ?thesis
    using smf_open_maps [OF refl _ _ _ _ malloc_max_fresh, of 12 "2 ^ 31" "\<lambda>s off. Some (65536 + off)" 4096]
    by (auto simp: SSIZE_MAX_def MINPAGES_def)
qed

text \<open>
  The rounding of a size to whole pages is done modulo \<open>2 ^ 32\<close>. It gives the number of pages that
  hold the size exactly when that is below \<open>2 ^ 32\<close>, that is when the size is at most \<open>2 ^ 32\<close> less a page; above, the device
  hands out less than was asked for, and nothing at all for the sizes of the last page.\<close>

theorem smf_round_wraps:
  assumes "pagesize = 2 ^ k" and "k < 32" and "unat sz + pagesize \<le> 2 ^ 64"
  shows "unat (smf_round pagesize sz) = pagesize * ((unat sz + pagesize - 1) div pagesize) mod 2 ^ 32 \<and>
    (unat sz \<le> unat (smf_round pagesize sz) \<longleftrightarrow> unat sz + pagesize \<le> 2 ^ 32) \<and>
    (2 ^ 32 < unat sz + pagesize \<longrightarrow> unat sz \<le> 2 ^ 32 \<longrightarrow> smf_round pagesize sz = 0)"
proof -
  let ?r = "unat (smf_round pagesize sz)"
  note eq = smf_round_unat [OF assms]
  have pos: "0 < pagesize" by (simp add: assms(1))
  have small: "?r < 2 ^ 32" unfolding eq by simp
  have zero: "?r = 0" if a: "2 ^ 32 < unat sz + pagesize" "unat sz \<le> 2 ^ 32"
  proof -
    obtain d where d: "(2::nat) ^ 32 = pagesize * d" unfolding assms(1) using assms(2) by (metis dvdE le_imp_power_dvd less_imp_le)
    have "(unat sz + pagesize - 1) div pagesize = d"
      using a pos unfolding d by (intro div_nat_eqI) (simp_all add: algebra_simps)
    then show ?thesis unfolding eq unfolding d by simp
  qed
  have "\<not> unat sz \<le> ?r" if a: "2 ^ 32 < unat sz + pagesize"
  proof (cases "unat sz \<le> 2 ^ 32")
    case True
    have "pagesize \<le> 2 ^ 31" unfolding assms(1) using assms(2) by (intro power_increasing) auto
    then show ?thesis using zero [OF a True] a by simp
  next
    case False
    then show ?thesis using small by linarith
  qed
  then show ?thesis using eq zero smf_round_exact(2) [OF assms(1,2), of sz] by (metis not_le unsigned_eq_0_iff)
qed

theorem smf_round_wraps_witness: "smf_round 4096 4294967295 = 0 \<and> unat (smf_round 4096 4294963200) = 4294963200"
  using smf_round_wraps [of 4096 12 4294967295] smf_round_wraps [of 4096 12 4294963200] by simp

end
