(* ===== verification/Storage_Malloc.thy ===== *)
theory Storage_Malloc
  imports Storage
begin

text \<open>
  The malloc storage, \<^verbatim>\<open>bin/varnishd/storage_malloc.c\<close>: a limit and a count of bytes in front of \<open>malloc\<close>. What
  \<open>malloc\<close>, \<open>calloc\<close> and \<open>realloc\<close> answer are arguments of the operations. The device keeps the contract of
  \<^verbatim>\<open>Storage\<close> for sizes below 4 GB.
\<close>

subsection \<open>State\<close>

record sma =
  sma_sz :: u64
  sma_s :: storage

record sma_sc =
  sma_max :: u64
  sma_allocd :: u64
  sma_nodes :: "st_ref \<rightharpoonup> sma"
  sma_c_req :: int
  sma_c_fail :: int
  sma_c_bytes :: int
  sma_c_freed :: int
  sma_g_alloc :: int
  sma_g_bytes :: int
  sma_g_space :: int

definition SIZE_MAX :: u64 where "SIZE_MAX = - 1"

text \<open>The gauge of the space left is kept only when there is a limit.\<close>

definition sma_space :: "int \<Rightarrow> sma_sc \<Rightarrow> sma_sc" where
  "sma_space d sc = (if sma_max sc \<noteq> SIZE_MAX then sc\<lparr>sma_g_space := sma_g_space sc + d\<rparr> else sc)"

subsection \<open>The methods\<close>

text \<open>The error messages of \<open>sma_init\<close>; \<open>bytes\<close> is what \<open>str2bytes\<close> makes of the argument. On the platforms modelled a
  \<open>uintmax_t\<close> fits a \<open>size_t\<close>, so that it is never too big.\<close>

datatype sma_error = TooManyArguments | BadSize | TooSmall

definition sma_init :: "(char list \<Rightarrow> u64 option) \<Rightarrow> char list list \<Rightarrow> sma_error + sma_sc" where
  "sma_init bytes av =
     (let sc = \<lparr>sma_max = SIZE_MAX, sma_allocd = 0, sma_nodes = Map.empty, sma_c_req = 0, sma_c_fail = 0, sma_c_bytes = 0, sma_c_freed = 0,
                sma_g_alloc = 0, sma_g_bytes = 0, sma_g_space = 0\<rparr>
      in if length av > 1 then Inl TooManyArguments
         else if av = [] \<or> hd av = [] then Inr sc
         else (case bytes (hd av) of
             None \<Rightarrow> Inl BadSize
           | Some u \<Rightarrow> if u < 1024 * 1024 then Inl TooSmall else Inr (sc\<lparr>sma_max := u\<rparr>)))"

definition sma_open :: "sma_sc \<Rightarrow> sma_sc" where
  "sma_open sc = sc\<lparr>sma_c_req := 0, sma_c_fail := 0, sma_c_bytes := 0, sma_c_freed := 0, sma_g_alloc := 0, sma_g_bytes := 0,
     sma_g_space := (if sma_max sc \<noteq> SIZE_MAX then uint (sma_max sc) else 0)\<rparr>"

text \<open>\<open>e\<close> has the address of the memory and of the \<open>struct sma\<close>, or is \<open>None\<close> when one of the two could not be had.\<close>

definition sma_alloc :: "(nat \<times> st_ref) option \<Rightarrow> u64 \<Rightarrow> sma_sc \<Rightarrow> (sma_sc \<times> st_ref option) option" where
  "sma_alloc e sz sc =
     (let sc = sc\<lparr>sma_c_req := sma_c_req sc + 1\<rparr>;
          (sz, sc) = (if sma_allocd sc + sz > sma_max sc then (0, sc\<lparr>sma_c_fail := sma_c_fail sc + uint sz\<rparr>)
                      else (sz, sma_space (- uint sz) (sc\<lparr>sma_allocd := sma_allocd sc + sz, sma_c_bytes := sma_c_bytes sc + uint sz,
                              sma_g_alloc := sma_g_alloc sc + 1, sma_g_bytes := sma_g_bytes sc + uint sz\<rparr>)))
      in if sz = 0 then Some (sc, None)
         else (case e of
             None \<Rightarrow> Some (sma_space (uint sz) (sc\<lparr>sma_c_fail := sma_c_fail sc + 1, sma_c_bytes := sma_c_bytes sc - uint sz,
                              sma_g_alloc := sma_g_alloc sc - 1, sma_g_bytes := sma_g_bytes sc - uint sz\<rparr>), None)
           | Some (p, x) \<Rightarrow>
               Some (sc\<lparr>sma_nodes := (sma_nodes sc)(x \<mapsto> \<lparr>sma_sz = sz, sma_s = \<lparr>st_ptr = p, st_len = 0, st_space = ucast sz\<rparr>\<rparr>)\<rparr>, Some x)))"

definition sma_free :: "st_ref \<Rightarrow> sma_sc \<Rightarrow> sma_sc option" where
  "sma_free x sc = do {
     r \<leftarrow> sma_nodes sc x;
     assert_c (sma_sz r = ucast (st_space (sma_s r)));
     let sc = sma_space (uint (sma_sz r)) (sc\<lparr>sma_allocd := sma_allocd sc - sma_sz r, sma_g_alloc := sma_g_alloc sc - 1,
                sma_g_bytes := sma_g_bytes sc - uint (sma_sz r), sma_c_freed := sma_c_freed sc + uint (sma_sz r)\<rparr>);
     Some (sc\<lparr>sma_nodes := (sma_nodes sc)(x := None)\<rparr>)
   }"

text \<open>\<open>q\<close> is the answer of \<open>realloc\<close>.\<close>

definition sma_trim :: "nat option \<Rightarrow> st_ref \<Rightarrow> u64 \<Rightarrow> sma_sc \<Rightarrow> sma_sc option" where
  "sma_trim q x sz sc = do {
     r \<leftarrow> sma_nodes sc x;
     assert_c (sma_sz r = ucast (st_space (sma_s r)));
     assert_c (sz < sma_sz r);
     let delta = sma_sz r - sz;
     (if delta < 256 then Some sc
      else (case q of
          None \<Rightarrow> Some sc
        | Some p \<Rightarrow>
            (let sc = sma_space (uint delta) (sc\<lparr>sma_allocd := sma_allocd sc - delta, sma_g_bytes := sma_g_bytes sc - uint delta,
                        sma_c_freed := sma_c_freed sc + uint delta\<rparr>)
             in Some (sc\<lparr>sma_nodes := (sma_nodes sc)(x \<mapsto> \<lparr>sma_sz = sz, sma_s = (sma_s r)\<lparr>st_ptr := p, st_space := ucast sz\<rparr>\<rparr>)\<rparr>))))
   }"

definition sma_used_space :: "sma_sc \<Rightarrow> u64" where
  "sma_used_space sc = sma_allocd sc"

definition sma_free_space :: "sma_sc \<Rightarrow> u64" where
  "sma_free_space sc = sma_max sc - sma_allocd sc"

subsection \<open>The contract\<close>

definition sma_live :: "sma_sc \<Rightarrow> st_live" where
  "sma_live sc x = map_option (\<lambda>r. (st_ptr (sma_s r), unat (st_space (sma_s r)))) (sma_nodes sc x)"

definition sma_inv :: "sma_sc \<Rightarrow> bool" where
  "sma_inv sc \<longleftrightarrow> finite (dom (sma_nodes sc)) \<and> apart (sma_live sc) \<and> (\<forall>x r. sma_nodes sc x = Some r \<longrightarrow> sma_sz r = ucast (st_space (sma_s r))) \<and>
     in_use (sma_live sc) \<le> unat (sma_allocd sc) \<and> sma_allocd sc \<le> sma_max sc \<and>
     sma_g_bytes sc = int (in_use (sma_live sc)) \<and> sma_g_alloc sc = int (card (dom (sma_live sc))) \<and>
     (sma_max sc \<noteq> SIZE_MAX \<longrightarrow> sma_g_space sc = uint (sma_max sc) - sma_g_bytes sc)"

text \<open>Sizes that fit the field of the space and do not wrap the count.\<close>

definition sma_takes :: "u64 \<Rightarrow> sma_sc \<Rightarrow> bool" where
  "sma_takes sz sc \<longleftrightarrow> 0 < sz \<and> uint sz < 2 ^ 32 \<and> uint (sma_allocd sc) + uint sz < 2 ^ 64"

text \<open>\<open>malloc\<close> returns memory that is not in use, \<open>realloc\<close> memory in use by no other storage.\<close>

definition sma_aok :: "(nat \<times> st_ref) option \<Rightarrow> u64 \<Rightarrow> sma_sc \<Rightarrow> bool" where
  "sma_aok e sz sc \<longleftrightarrow> (case e of None \<Rightarrow> True
     | Some (p, x) \<Rightarrow> sma_nodes sc x = None \<and> (\<forall>y q m. sma_live sc y = Some (q, m) \<longrightarrow> {p..<p + unat sz} \<inter> {q..<q + m} = {}))"

definition sma_tok :: "nat option \<Rightarrow> st_ref \<Rightarrow> u64 \<Rightarrow> sma_sc \<Rightarrow> bool" where
  "sma_tok q x sz sc \<longleftrightarrow> (case q of None \<Rightarrow> True
     | Some p \<Rightarrow> \<forall>y q m. sma_live sc y = Some (q, m) \<longrightarrow> y \<noteq> x \<longrightarrow> {p..<p + unat sz} \<inter> {q..<q + m} = {})"

lemma sma_takes_nat: "sma_takes sz sc \<longleftrightarrow> 0 < sz \<and> unat sz < 2 ^ 32 \<and> unat (sma_allocd sc) + unat sz < 2 ^ 64"
proof -
  have u: "uint w = int (unat w)" for w :: u64 by simp
  have "uint sz < 2 ^ 32 \<longleftrightarrow> int (unat sz) < int (2 ^ 32)" "uint (sma_allocd sc) + uint sz < 2 ^ 64 \<longleftrightarrow> int (unat (sma_allocd sc) + unat sz) < int (2 ^ 64)"
    unfolding u by (simp_all only: of_nat_add of_nat_power of_nat_numeral)
  then show ?thesis unfolding sma_takes_def of_nat_less_iff by blast
qed

lemma sma_space_simps [simp]:
  "sma_max (sma_space d sc) = sma_max sc" "sma_allocd (sma_space d sc) = sma_allocd sc" "sma_nodes (sma_space d sc) = sma_nodes sc"
  "sma_g_alloc (sma_space d sc) = sma_g_alloc sc" "sma_g_bytes (sma_space d sc) = sma_g_bytes sc"
  "sma_g_space (sma_space d sc) = (if sma_max sc \<noteq> SIZE_MAX then sma_g_space sc + d else sma_g_space sc)"
  by (simp_all add: sma_space_def)

lemma sma_live_cong: "sma_nodes sc' = sma_nodes sc \<Longrightarrow> sma_live sc' = sma_live sc"
  by (simp add: sma_live_def fun_eq_iff)

lemma sma_live_upd: "sma_nodes sc' = (sma_nodes sc)(x \<mapsto> r) \<Longrightarrow> sma_live sc' = (sma_live sc)(x \<mapsto> (st_ptr (sma_s r), unat (st_space (sma_s r))))"
  by (simp add: sma_live_def fun_eq_iff)

lemma sma_live_del: "sma_nodes sc' = (sma_nodes sc)(x := None) \<Longrightarrow> sma_live sc' = (sma_live sc)(x := None)"
  by (simp add: sma_live_def fun_eq_iff)

lemma sma_live_dom [simp]: "dom (sma_live sc) = dom (sma_nodes sc)"
  by (auto simp: sma_live_def)

lemma sma_liveD:
  assumes "sma_inv sc" and "sma_live sc x = Some (p, n)"
  shows "\<exists>r. sma_nodes sc x = Some r \<and> st_ptr (sma_s r) = p \<and> unat (st_space (sma_s r)) = n \<and> sma_sz r = ucast (st_space (sma_s r)) \<and> unat (sma_sz r) = n"
  using assms by (auto simp: sma_live_def sma_inv_def)

lemma sma_alloc_ok:
  assumes inv: "sma_inv sc" and sz: "sma_takes sz sc" and e: "sma_aok e sz sc"
  shows "\<exists>sc' res. sma_alloc e sz sc = Some (sc', res) \<and> sma_inv sc' \<and> sma_max sc' = sma_max sc \<and>
    (case res of
       None \<Rightarrow> sma_live sc' = sma_live sc
     | Some x \<Rightarrow> sma_live sc x = None \<and> (\<exists>p. e = Some (p, x) \<and> sma_live sc' = (sma_live sc)(x \<mapsto> (p, unat sz))))"
proof -
  note s = sz [unfolded sma_takes_nat]
  have sum: "unat (sma_allocd sc + sz) = unat (sma_allocd sc) + unat sz" using s by (simp add: unat_add_nowrap)
  show ?thesis
  proof (cases "sma_allocd sc + sz > sma_max sc")
    case True
    let ?sc = "sc\<lparr>sma_c_req := sma_c_req sc + 1, sma_c_fail := sma_c_fail sc + uint sz\<rparr>"
    have "sma_alloc e sz sc = Some (?sc, None)" using True by (simp add: sma_alloc_def Let_def)
    moreover have "sma_live ?sc = sma_live sc" by (rule sma_live_cong) simp
    ultimately show ?thesis using inv by (simp add: sma_inv_def)
  next
    case False
    let ?s1 = "sma_space (- uint sz) (sc\<lparr>sma_c_req := sma_c_req sc + 1, sma_allocd := sma_allocd sc + sz, sma_c_bytes := sma_c_bytes sc + uint sz,
                 sma_g_alloc := sma_g_alloc sc + 1, sma_g_bytes := sma_g_bytes sc + uint sz\<rparr>)"
    have nz: "sz \<noteq> 0" using s by auto
    show ?thesis
    proof (cases e)
      case None
      let ?sc = "sma_space (uint sz) (?s1\<lparr>sma_c_fail := sma_c_fail ?s1 + 1, sma_c_bytes := sma_c_bytes ?s1 - uint sz,
                   sma_g_alloc := sma_g_alloc ?s1 - 1, sma_g_bytes := sma_g_bytes ?s1 - uint sz\<rparr>)"
      have "sma_alloc e sz sc = Some (?sc, None)" using False nz None by (simp add: sma_alloc_def Let_def)
      moreover have live: "sma_live ?sc = sma_live sc" by (rule sma_live_cong) simp
      moreover have "sma_inv ?sc" unfolding sma_inv_def live using inv False sum by (simp add: sma_inv_def)
      ultimately show ?thesis by simp
    next
      case (Some px)
      then obtain p x where px: "e = Some (p, x)" by (cases px) simp
      let ?r = "\<lparr>sma_sz = sz, sma_s = \<lparr>st_ptr = p, st_len = 0, st_space = ucast sz\<rparr>\<rparr>"
      let ?sc = "?s1\<lparr>sma_nodes := (sma_nodes ?s1)(x \<mapsto> ?r)\<rparr>"
      have run: "sma_alloc e sz sc = Some (?sc, Some x)" using False nz px by (simp add: sma_alloc_def Let_def)
      have us: "unat (ucast sz :: u32) = unat sz" using s by (simp add: unat_ucast_down32)
      then have uc: "(ucast (ucast sz :: u32) :: u64) = sz" by (simp add: word_unat_eq_iff)
      have live: "sma_live ?sc = (sma_live sc)(x \<mapsto> (p, unat sz))" using sma_live_upd [of ?sc sc x ?r] us by simp
      have no: "sma_live sc x = None" using e px by (simp add: sma_aok_def sma_live_def)
      have fin: "finite (dom (sma_live sc))" using inv by (simp add: sma_inv_def)
      have ap: "apart (sma_live ?sc)" unfolding live
        by (rule apart_upd) (use inv e px in \<open>auto simp: sma_inv_def sma_aok_def\<close>)
      have cd: "card (insert x (dom (sma_nodes sc))) = Suc (card (dom (sma_nodes sc)))" using fin no by (simp add: sma_live_def domIff)
      have "sma_inv ?sc"
        unfolding sma_inv_def using inv False sum uc ap no fin cd unfolding live in_use_new [OF fin no]
        by (auto simp: sma_inv_def sma_live_def not_less)
      then show ?thesis using run live no px by simp
    qed
  qed
qed

lemma sma_free_ok:
  assumes inv: "sma_inv sc" and x: "sma_live sc x \<noteq> None"
  shows "\<exists>sc'. sma_free x sc = Some sc' \<and> sma_inv sc' \<and> sma_live sc' = (sma_live sc)(x := None) \<and> sma_max sc' = sma_max sc"
proof -
  obtain p n where pn: "sma_live sc x = Some (p, n)" using x by auto
  obtain r where r: "sma_nodes sc x = Some r" "sma_sz r = ucast (st_space (sma_s r))" "unat (sma_sz r) = n" using sma_liveD [OF inv pn] by blast
  define sc' where "sc' = (sma_space (uint (sma_sz r)) (sc\<lparr>sma_allocd := sma_allocd sc - sma_sz r, sma_g_alloc := sma_g_alloc sc - 1,
                sma_g_bytes := sma_g_bytes sc - uint (sma_sz r), sma_c_freed := sma_c_freed sc + uint (sma_sz r)\<rparr>))\<lparr>sma_nodes := (sma_nodes sc)(x := None)\<rparr>"
  have run: "sma_free x sc = Some sc'" using r by (simp add: sma_free_def Let_def sc'_def)
  have sc': "sma_max sc' = sma_max sc" "sma_allocd sc' = sma_allocd sc - sma_sz r" "sma_nodes sc' = (sma_nodes sc)(x := None)" "sma_g_alloc sc' = sma_g_alloc sc - 1"
      "sma_g_bytes sc' = sma_g_bytes sc - uint (sma_sz r)" "sma_max sc \<noteq> SIZE_MAX \<Longrightarrow> sma_g_space sc' = sma_g_space sc + uint (sma_sz r)"
    by (simp_all add: sc'_def)
  note i = inv [unfolded sma_inv_def]
  note live = sma_live_del [OF sc'(3)]
  have fin: "finite (dom (sma_live sc))" using i by simp
  have iu: "in_use (sma_live sc') + n = in_use (sma_live sc)" unfolding live by (rule in_use_del [OF fin pn])
  have ge: "unat (sma_sz r) \<le> unat (sma_allocd sc)" using iu i r(3) by linarith
  have sub: "unat (sma_allocd sc') = unat (sma_allocd sc) - n" unfolding sc'(2) unat_sub_le [OF ge] r(3) ..
  have iu2: "int (in_use (sma_live sc')) = int (in_use (sma_live sc)) - uint (sma_sz r)" using iu r(3) by (metis add_diff_cancel_right' of_nat_add of_nat_unat)
  have "0 < card (dom (sma_nodes sc))" using fin r(1) by (auto simp: card_gt_0_iff)
  then have cd: "int (card (dom (sma_live sc'))) = int (card (dom (sma_live sc))) - 1" using fin r(1) by (simp add: sc'(3) domI of_nat_diff)
  have le: "sma_allocd sc' \<le> sma_max sc" using i sub unfolding word_le_nat_alt by linarith
  have "sma_inv sc'"
    unfolding sma_inv_def
  proof (intro conjI impI)
    show "apart (sma_live sc')" unfolding live using i by (intro apart_del) simp
    show "\<forall>y q. sma_nodes sc' y = Some q \<longrightarrow> sma_sz q = ucast (st_space (sma_s q))" using i by (auto simp: sc'(3))
    show "in_use (sma_live sc') \<le> unat (sma_allocd sc')" using iu sub i by linarith
    show "sma_g_space sc' = uint (sma_max sc') - sma_g_bytes sc'" if "sma_max sc' \<noteq> SIZE_MAX" using that i sc'(1,5,6) by simp
  qed (use i iu2 cd le in \<open>simp_all add: sc'\<close>)
  then show ?thesis using run live sc'(1) by simp
qed

lemma sma_trim_ok:
  assumes inv: "sma_inv sc" and x: "sma_live sc x = Some (p, n)" and sz: "0 < sz" "unat sz < n" and f: "sma_tok f x sz sc"
  shows "\<exists>sc' q m. sma_trim f x sz sc = Some sc' \<and> sma_inv sc' \<and> unat sz \<le> m \<and> m \<le> n \<and> sma_live sc' = (sma_live sc)(x \<mapsto> (q, m)) \<and> sma_max sc' = sma_max sc"
proof -
  obtain r where r: "sma_nodes sc x = Some r" "sma_sz r = ucast (st_space (sma_s r))" "unat (sma_sz r) = n" using sma_liveD [OF inv x] by blast
  have lt: "sz < sma_sz r" using sz r(3) by (simp add: word_less_nat_alt)
  let ?d = "sma_sz r - sz"
  show ?thesis
  proof (cases "?d < 256 \<or> f = None")
    case True
    then have "sma_trim f x sz sc = Some sc" using r lt by (auto simp: sma_trim_def Let_def)
    moreover have "(sma_live sc)(x \<mapsto> (p, n)) = sma_live sc" using x by auto
    ultimately show ?thesis using inv sz by (intro exI [of _ sc] exI [of _ p] exI [of _ n]) simp
  next
    case False
    then obtain q where q: "f = Some q" by auto
    define sc' where "sc' = (sma_space (uint ?d) (sc\<lparr>sma_allocd := sma_allocd sc - ?d, sma_g_bytes := sma_g_bytes sc - uint ?d, sma_c_freed := sma_c_freed sc + uint ?d\<rparr>))
        \<lparr>sma_nodes := (sma_nodes sc)(x \<mapsto> \<lparr>sma_sz = sz, sma_s = (sma_s r)\<lparr>st_ptr := q, st_space := ucast sz\<rparr>\<rparr>)\<rparr>"
    have run: "sma_trim f x sz sc = Some sc'" using r lt False q by (simp add: sma_trim_def Let_def sc'_def)
    have sc': "sma_max sc' = sma_max sc" "sma_allocd sc' = sma_allocd sc - ?d" "sma_nodes sc' = (sma_nodes sc)(x \<mapsto> \<lparr>sma_sz = sz, sma_s = (sma_s r)\<lparr>st_ptr := q, st_space := ucast sz\<rparr>\<rparr>)"
        "sma_g_alloc sc' = sma_g_alloc sc" "sma_g_bytes sc' = sma_g_bytes sc - uint ?d" "sma_max sc \<noteq> SIZE_MAX \<Longrightarrow> sma_g_space sc' = sma_g_space sc + uint ?d"
      by (simp_all add: sc'_def)
    note i = inv [unfolded sma_inv_def]
    have n32: "n < 2 ^ 32" using r(2,3) unat_u32_bound [of "st_space (sma_s r)"] by simp
    have us: "unat (ucast sz :: u32) = unat sz" using sz n32 by (simp add: unat_ucast_down32)
    then have uc: "(ucast (ucast sz :: u32) :: u64) = sz" by (simp add: word_unat_eq_iff)
    have live: "sma_live sc' = (sma_live sc)(x \<mapsto> (q, unat sz))" using sma_live_upd [OF sc'(3)] us by simp
    have fin: "finite (dom (sma_live sc))" using i by simp
    have iu: "in_use (sma_live sc') + n = in_use (sma_live sc) + unat sz" unfolding live by (rule in_use_upd [OF fin x])
    have d: "unat ?d = n - unat sz" using sz r(3) by (simp add: unat_sub_le)
    have ge: "unat ?d \<le> unat (sma_allocd sc)" using iu i d by linarith
    have sub: "unat (sma_allocd sc') = unat (sma_allocd sc) - (n - unat sz)" unfolding sc'(2) unat_sub_le [OF ge] d ..
    have "int (in_use (sma_live sc')) + int n = int (in_use (sma_live sc)) + int (unat sz)" using iu by (metis of_nat_add)
    moreover have "int (unat ?d) = int n - int (unat sz)" unfolding d using sz(2) by (simp only: of_nat_diff less_imp_le)
    ultimately have iu2: "int (in_use (sma_live sc')) = int (in_use (sma_live sc)) - uint ?d" by simp
    have le: "sma_allocd sc' \<le> sma_max sc" using i sub unfolding word_le_nat_alt by linarith
    have dm: "dom (sma_nodes sc') = dom (sma_nodes sc)" using r(1) by (auto simp: sc'(3))
    have "sma_inv sc'"
      unfolding sma_inv_def sma_live_dom dm
    proof (intro conjI impI)
      show "apart (sma_live sc')" unfolding live by (rule apart_upd) (use i f q in \<open>auto simp: sma_tok_def\<close>)
      show "\<forall>y q. sma_nodes sc' y = Some q \<longrightarrow> sma_sz q = ucast (st_space (sma_s q))" using i uc by (auto simp: sc'(3))
      show "in_use (sma_live sc') \<le> unat (sma_allocd sc')" using iu sub i sz by linarith
      show "sma_g_space sc' = uint (sma_max sc') - sma_g_bytes sc'" if "sma_max sc' \<noteq> SIZE_MAX" using that i sc'(1,5,6) by simp
    qed (use i iu2 le in \<open>simp_all add: sc'(1,4,5)\<close>)
    then show ?thesis using run live sz sc'(1) by (intro exI [of _ sc'] exI [of _ q] exI [of _ "unat sz"]) simp
  qed
qed

interpretation sma: storage_device sma_inv sma_live sma_takes sma_aok sma_tok sma_alloc sma_trim sma_free
proof (unfold_locales, goal_cases)
  case (1 s)
  then show ?case by (simp add: sma_inv_def)
next
  case (2 s sz e)
  then show ?case using sma_alloc_ok [OF 2] by (force split: option.splits)
next
  case (3 s x p n sz f)
  then show ?case using sma_trim_ok by blast
next
  case (4 s x)
  then show ?case using sma_free_ok by blast
qed

subsection \<open>Results\<close>

lemma sma_step_max: "dev_step sma_alloc sma_trim sma_free c sc = Some sc' \<Longrightarrow> sma_max sc' = sma_max sc"
proof (cases c)
  case (Alloc e sz)
  then show "dev_step sma_alloc sma_trim sma_free c sc = Some sc' \<Longrightarrow> sma_max sc' = sma_max sc"
    by (auto simp: sma_alloc_def Let_def split: if_splits option.splits)
next
  case (Trim f x sz)
  then show "dev_step sma_alloc sma_trim sma_free c sc = Some sc' \<Longrightarrow> sma_max sc' = sma_max sc"
    by (auto simp: sma_trim_def Let_def bind_eq_Some_conv split: if_splits option.splits)
next
  case (Free x)
  then show "dev_step sma_alloc sma_trim sma_free c sc = Some sc' \<Longrightarrow> sma_max sc' = sma_max sc"
    by (auto simp: sma_free_def Let_def bind_eq_Some_conv)
qed

lemma sma_run_max: "dev_run (dev_step sma_alloc sma_trim sma_free) cs sc = Some sc' \<Longrightarrow> sma_max sc' = sma_max sc"
  by (induction cs arbitrary: sc) (auto simp: bind_eq_Some_conv dest: sma_step_max)

lemma sma_open_inv:
  assumes "sma_init bytes av = Inr sc"
  shows "sma_inv (sma_open sc)" "sma_max (sma_open sc) = sma_max sc"
proof -
  have sc: "sma_nodes sc = Map.empty" "sma_allocd sc = 0" using assms by (auto simp: sma_init_def Let_def split: if_splits option.splits)
  have "sma_live (sma_open sc) = Map.empty" by (simp add: fun_eq_iff sma_live_def sma_open_def sc)
  then show "sma_inv (sma_open sc)" using sc by (simp add: sma_inv_def sma_open_def apart_def in_use_def)
  show "sma_max (sma_open sc) = sma_max sc" by (simp add: sma_open_def)
qed

text \<open>
  A failure of \<open>malloc\<close> is not taken off the count again, as it is off the gauges: what could not be had counts as in use
  from then on.
\<close>

lemma sma_alloc_leaks:
  assumes "sz \<noteq> 0" and "sma_allocd sc + sz \<le> sma_max sc"
  shows "\<exists>sc'. sma_alloc None sz sc = Some (sc', None) \<and> sma_live sc' = sma_live sc \<and> sma_g_bytes sc' = sma_g_bytes sc \<and> sma_allocd sc' = sma_allocd sc + sz"
  using assms by (auto simp: sma_alloc_def Let_def not_le [symmetric] intro!: sma_live_cong)

text \<open>Nor is there a check that a size fits the field of the space: storage of 4 GB or more cannot be given back.\<close>

lemma sma_alloc_large:
  assumes "2 ^ 32 \<le> unat sz" and "sma_allocd sc + sz \<le> sma_max sc"
  shows "\<exists>sc'. sma_alloc (Some (p, x)) sz sc = Some (sc', Some x) \<and> sma_free x sc' = None"
proof -
  have "unat (ucast (ucast sz :: u32) :: u64) < 2 ^ 32" by simp
  then have "sz \<noteq> ucast (ucast sz :: u32)" using assms(1) by (metis not_le)
  moreover have "sz \<noteq> 0" using assms(1) by auto
  ultimately show ?thesis using assms(2) by (simp add: sma_alloc_def Let_def not_le [symmetric] sma_free_def)
qed

text \<open>
  C33: a malloc storage that was configured and opened runs any sequence of legal calls without a
  failed assertion, whatever \<open>malloc\<close> and \<open>realloc\<close> answer; no two storages in use share memory, and together they are never more
  than the configured size; the count of bytes is at least what is in use, and the gauges are exact.\<close>

theorem sma_within_limit:
  assumes "sma_init bytes av = Inr sc"
    and "dev_legals (dev_step sma_alloc sma_trim sma_free) (dev_legal sma_live sma_takes sma_aok sma_tok) calls (sma_open sc)"
  shows "\<exists>sc'. dev_run (dev_step sma_alloc sma_trim sma_free) calls (sma_open sc) = Some sc' \<and> apart (sma_live sc') \<and>
    in_use (sma_live sc') \<le> unat (sma_used_space sc') \<and> unat (sma_used_space sc') \<le> unat (sma_max sc) \<and>
    sma_g_bytes sc' = int (in_use (sma_live sc')) \<and> (sma_max sc \<noteq> SIZE_MAX \<longrightarrow> sma_g_space sc' = uint (sma_max sc) - sma_g_bytes sc')"
proof -
  note o = sma_open_inv [OF assms(1)]
  obtain sc' where r: "dev_run (dev_step sma_alloc sma_trim sma_free) calls (sma_open sc) = Some sc'" "sma_inv sc'" "apart (sma_live sc')"
    using sma.run_ok [OF o(1) assms(2)] by blast
  have "sma_max sc' = sma_max sc" using sma_run_max [OF r(1)] o(2) by simp
  then show ?thesis using r by (simp add: sma_inv_def sma_used_space_def word_le_nat_alt)
qed

definition sma_ex_calls :: "((nat \<times> st_ref) option, nat option) dev_call list" where
  "sma_ex_calls = [Alloc (Some (64, 1)) 600, Alloc (Some (1000, 2)) 20, Alloc None 30, Trim (Some 64) 1 100, Free 2]"

theorem sma_within_limit_witness:
  "\<exists>sc'. dev_run (dev_step sma_alloc sma_trim sma_free) sma_ex_calls (sma_open (projr (sma_init (\<lambda>_. Some 1048576) [''1M'']))) = Some sc' \<and> apart (sma_live sc') \<and>
    in_use (sma_live sc') \<le> unat (sma_used_space sc') \<and> unat (sma_used_space sc') \<le> 1048576 \<and> sma_g_space sc' = 1048576 - sma_g_bytes sc'"
proof -
  let ?sc = "projr (sma_init (\<lambda>_. Some 1048576) [''1M''])"
  have i: "sma_init (\<lambda>_. Some 1048576) [''1M''] = Inr ?sc" "sma_max ?sc = 1048576" by (simp_all add: sma_init_def Let_def)
  have l: "dev_legals (dev_step sma_alloc sma_trim sma_free) (dev_legal sma_live sma_takes sma_aok sma_tok) sma_ex_calls (sma_open ?sc)"
    by (simp add: sma_ex_calls_def sma_init_def sma_open_def Let_def sma_alloc_def sma_trim_def sma_free_def sma_takes_def sma_aok_def sma_tok_def sma_live_def
        sma_space_def SIZE_MAX_def)
  show ?thesis using sma_within_limit [OF i(1) l] i(2) by (auto simp: SIZE_MAX_def)
qed

end
