(* ===== verification/Http_Time.thy ===== *)
theory Http_Time
  imports Complex_Main Chars
begin

text \<open>
  Dates, \<^verbatim>\<open>lib/libvarnish/time.c\<close>: printing a time in the format of HTTP and reading the four formats that servers
  send. Of the C library it has \<open>gmtime\<close>, \<open>timegm\<close>, \<open>strftime\<close> and \<open>strptime\<close>, the latter two for the conversions that
  the formats use and with the behaviour of the GNU library: a number skips spaces and takes digits up to its width
  as long as it can stay in range, names are compared without case. Times are whole seconds from 1970 on, and years are
  unbounded; \<open>gmtime_r\<close> of the C library fails from the year \<open>2 ^ 31\<close> on, a time that is not considered.
\<close>

subsection \<open>The calendar\<close>

record tm =
  tm_sec :: int
  tm_min :: int
  tm_hour :: int
  tm_mday :: int
  tm_mon :: int
  tm_year :: int
  tm_wday :: int

definition tm_zero :: tm where
  "tm_zero = \<lparr>tm_sec = 0, tm_min = 0, tm_hour = 0, tm_mday = 0, tm_mon = 0, tm_year = 0, tm_wday = 0\<rparr>"

definition leap_year :: "int \<Rightarrow> bool" where
  "leap_year y \<longleftrightarrow> y mod 4 = 0 \<and> y mod 100 \<noteq> 0 \<or> y mod 400 = 0"

definition year_days :: "int \<Rightarrow> int" where
  "year_days y = (if leap_year y then 366 else 365)"

definition month_days :: "int \<Rightarrow> int list" where
  "month_days y = [31, if leap_year y then 29 else 28, 31, 30, 31, 30, 31, 31, 30, 31, 30, 31]"

text \<open>The days from the first of January 1970 to that of another year.\<close>

definition days_before :: "int \<Rightarrow> int" where
  "days_before y = 365 * (y - 1970) + (y - 1) div 4 - (y - 1) div 100 + (y - 1) div 400 - 477"

definition timegm :: "tm \<Rightarrow> int" where
  "timegm t = (let y = tm_year t + 1900 in
     (days_before y + sum_list (take (nat (tm_mon t)) (month_days y)) + tm_mday t - 1) * 86400 + tm_hour t * 3600 + tm_min t * 60 + tm_sec t)"

function find_year :: "int \<Rightarrow> int \<Rightarrow> int \<times> int" where
  "find_year y d = (if d < year_days y then (y, d) else find_year (y + 1) (d - year_days y))"
  by pat_completeness auto
termination
  by (relation "measure (\<lambda>(y, d). nat d)") (auto simp: year_days_def split: if_splits)

declare find_year.simps [simp del]

fun find_month :: "int list \<Rightarrow> int \<Rightarrow> int \<times> int" where
  "find_month [] d = (0, d)"
| "find_month (l # ls) d = (if d < l then (0, d) else let (m, r) = find_month ls (d - l) in (m + 1, r))"

definition gmtime :: "int \<Rightarrow> tm" where
  "gmtime t = (let d = t div 86400; r = t mod 86400; (y, yd) = find_year 1970 d; (m, md) = find_month (month_days y) yd in
     \<lparr>tm_sec = r mod 60, tm_min = r div 60 mod 60, tm_hour = r div 3600, tm_mday = md + 1, tm_mon = m, tm_year = y - 1900, tm_wday = (d + 4) mod 7\<rparr>)"

subsection \<open>Formats\<close>

definition day_names :: "string list" where
  "day_names = [''Sunday'', ''Monday'', ''Tuesday'', ''Wednesday'', ''Thursday'', ''Friday'', ''Saturday'']"

definition month_names :: "string list" where
  "month_names = [''January'', ''February'', ''March'', ''April'', ''May'', ''June'', ''July'', ''August'', ''September'', ''October'', ''November'', ''December'']"

datatype fmt_item = F_Char char | F_Space | F_Dir char

text \<open>\<^verbatim>\<open>%T\<close> is \<^verbatim>\<open>%H:%M:%S\<close> and \<^verbatim>\<open>%F\<close> is \<^verbatim>\<open>%Y-%m-%d\<close>.\<close>

fun fmt_items :: "string \<Rightarrow> fmt_item list" where
  "fmt_items [] = []"
| "fmt_items [c] = [F_Char c]"
| "fmt_items (c # d # f) =
     (if c = CHR ''%''
      then (if d = CHR ''T'' then [F_Dir CHR ''H'', F_Char CHR '':'', F_Dir CHR ''M'', F_Char CHR '':'', F_Dir CHR ''S'']
            else if d = CHR ''F'' then [F_Dir CHR ''Y'', F_Char CHR ''-'', F_Dir CHR ''m'', F_Char CHR ''-'', F_Dir CHR ''d'']
            else [F_Dir d]) @ fmt_items f
      else (if c = CHR '' '' then F_Space else F_Char c) # fmt_items (d # f))"

definition two_digits :: "int \<Rightarrow> string" where
  "two_digits n = [char_of (48 + nat n div 10 mod 10), char_of (48 + nat n mod 10)]"

definition strftime_item :: "tm \<Rightarrow> fmt_item \<Rightarrow> string" where
  "strftime_item t i = (case i of
     F_Char c \<Rightarrow> [c]
   | F_Space \<Rightarrow> '' ''
   | F_Dir c \<Rightarrow>
       if c = CHR ''a'' then take 3 (day_names ! nat (tm_wday t))
       else if c = CHR ''A'' then day_names ! nat (tm_wday t)
       else if c = CHR ''b'' then take 3 (month_names ! nat (tm_mon t))
       else if c = CHR ''d'' then two_digits (tm_mday t)
       else if c = CHR ''m'' then two_digits (tm_mon t + 1)
       else if c = CHR ''y'' then two_digits (tm_year t mod 100)
       else if c = CHR ''Y'' then dec (nat (tm_year t + 1900))
       else if c = CHR ''H'' then two_digits (tm_hour t)
       else if c = CHR ''M'' then two_digits (tm_min t)
       else if c = CHR ''S'' then two_digits (tm_sec t)
       else [])"

text \<open>The result is \<open>None\<close> when the text and its final NUL do not fit into \<open>n\<close> bytes.\<close>

definition strftime :: "nat \<Rightarrow> string \<Rightarrow> tm \<Rightarrow> string option" where
  "strftime n f t = (let s = concat (map (strftime_item t) (fmt_items f)) in if length s < n then Some s else None)"

definition isspace :: "char \<Rightarrow> bool" where
  "isspace c \<longleftrightarrow> c \<in> {CHR '' '', CHR 0x09, CHR 0x0a, CHR 0x0b, CHR 0x0c, CHR 0x0d}"

definition digit :: "char \<Rightarrow> int" where
  "digit c = int (of_char c) - 48"

definition isdigit :: "char \<Rightarrow> bool" where
  "isdigit c \<longleftrightarrow> 0 \<le> digit c \<and> digit c \<le> 9"

fun get_digits :: "nat \<Rightarrow> int \<Rightarrow> int \<Rightarrow> string \<Rightarrow> int \<times> string" where
  "get_digits 0 hi v s = (v, s)"
| "get_digits (Suc n) hi v [] = (v, [])"
| "get_digits (Suc n) hi v (c # s) = (if v * 10 \<le> hi \<and> isdigit c then get_digits n hi (v * 10 + digit c) s else (v, c # s))"

definition get_number :: "int \<Rightarrow> int \<Rightarrow> nat \<Rightarrow> string \<Rightarrow> (int \<times> string) option" where
  "get_number lo hi n s = (case dropWhile (\<lambda>c. c = CHR '' '') s of
     [] \<Rightarrow> None
   | c # s \<Rightarrow>
       if isdigit c
       then (let (v, r) = get_digits (n - 1) hi (digit c) s in if lo \<le> v \<and> v \<le> hi then Some (v, r) else None)
       else None)"

text \<open>The index of the first name of a list that the text begins with, in full or by its first three letters.\<close>

fun get_name :: "string list \<Rightarrow> string \<Rightarrow> (int \<times> string) option" where
  "get_name [] s = None"
| "get_name (n # ns) s =
     (if length n \<le> length s \<and> strncaseeq (length n) n s then Some (0, drop (length n) s)
      else if 3 \<le> length s \<and> strncaseeq 3 n s then Some (0, drop 3 s)
      else map_option (\<lambda>(i, r). (i + 1, r)) (get_name ns s))"

definition strptime_dir :: "char \<Rightarrow> string \<Rightarrow> tm \<Rightarrow> (string \<times> tm) option" where
  "strptime_dir c s t =
     (if c = CHR ''a'' \<or> c = CHR ''A'' then map_option (\<lambda>(i, r). (r, t\<lparr>tm_wday := i\<rparr>)) (get_name day_names s)
      else if c = CHR ''b'' then map_option (\<lambda>(i, r). (r, t\<lparr>tm_mon := i\<rparr>)) (get_name month_names s)
      else if c = CHR ''d'' then map_option (\<lambda>(i, r). (r, t\<lparr>tm_mday := i\<rparr>)) (get_number 1 31 2 s)
      else if c = CHR ''m'' then map_option (\<lambda>(i, r). (r, t\<lparr>tm_mon := i - 1\<rparr>)) (get_number 1 12 2 s)
      else if c = CHR ''y'' then map_option (\<lambda>(i, r). (r, t\<lparr>tm_year := if i \<ge> 69 then i else i + 100\<rparr>)) (get_number 0 99 2 s)
      else if c = CHR ''Y'' then map_option (\<lambda>(i, r). (r, t\<lparr>tm_year := i - 1900\<rparr>)) (get_number 0 9999 4 s)
      else if c = CHR ''H'' then map_option (\<lambda>(i, r). (r, t\<lparr>tm_hour := i\<rparr>)) (get_number 0 23 2 s)
      else if c = CHR ''M'' then map_option (\<lambda>(i, r). (r, t\<lparr>tm_min := i\<rparr>)) (get_number 0 59 2 s)
      else if c = CHR ''S'' then map_option (\<lambda>(i, r). (r, t\<lparr>tm_sec := i\<rparr>)) (get_number 0 61 2 s)
      else None)"

fun strptime_items :: "fmt_item list \<Rightarrow> string \<Rightarrow> tm \<Rightarrow> (string \<times> tm) option" where
  "strptime_items [] s t = Some (s, t)"
| "strptime_items (F_Char c # f) s t = (case s of [] \<Rightarrow> None | d # r \<Rightarrow> if d = c then strptime_items f r t else None)"
| "strptime_items (F_Space # f) s t = strptime_items f (dropWhile isspace s) t"
| "strptime_items (F_Dir c # f) s t = (case strptime_dir c s t of None \<Rightarrow> None | Some (r, t) \<Rightarrow> strptime_items f r t)"

definition strptime :: "string \<Rightarrow> string \<Rightarrow> tm \<Rightarrow> (string \<times> tm) option" where
  "strptime s f t = strptime_items (fmt_items f) s t"

subsection \<open>The operations\<close>

definition TIM_FORMAT_SIZE :: nat where "TIM_FORMAT_SIZE = 30"

definition TIM_format :: "rat \<Rightarrow> string option" where
  "TIM_format t = strftime TIM_FORMAT_SIZE ''%a, %d %b %Y %T GMT'' (gmtime \<lfloor>t\<rfloor>)"

definition fmts :: "string list" where
  "fmts = [''%a, %d %b %Y %T GMT'', ''%A, %d-%b-%y %T GMT'', ''%a %b %d %T %Y'', ''%F %T'']"

fun parse_fmts :: "string list \<Rightarrow> string \<Rightarrow> int" where
  "parse_fmts [] p = 0"
| "parse_fmts (r # rs) p = (case strptime p r tm_zero of None \<Rightarrow> parse_fmts rs p | Some (_, t) \<Rightarrow> timegm t)"

definition TIM_parse :: "string \<Rightarrow> int" where
  "TIM_parse p = parse_fmts fmts p"

subsection \<open>From seconds to a date and back\<close>

lemma div_pred:
  assumes "0 < (k::int)"
  shows "y div k - (y - 1) div k = (if y mod k = 0 then 1 else 0)"
proof (cases "y mod k = 0")
  case True
  then have "y - 1 = k * (y div k - 1) + (k - 1)" by (auto simp: algebra_simps)
  then have "(y - 1) div k = y div k - 1" by (rule int_div_pos_eq) (use assms in auto)
  then show ?thesis using True by simp
next
  case False
  have "y - 1 = k * (y div k) + (y mod k - 1)" by simp
  moreover have "0 \<le> y mod k - 1" "y mod k - 1 < k" using False assms pos_mod_sign [of k y] pos_mod_bound [of k y] by linarith+
  ultimately have "(y - 1) div k = y div k" by (rule int_div_pos_eq)
  then show ?thesis using False by simp
qed

lemma div_mod_twice: "(r::int) = r div a div a * (a * a) + r div a mod a * a + r mod a"
proof -
  have "r = (r div a div a * a + r div a mod a) * a + r mod a" by simp
  then show ?thesis by (simp only: algebra_simps)
qed

lemma century_mod: "(y::int) mod 100 = 0 \<longrightarrow> y mod 4 = 0" "(y::int) mod 400 = 0 \<longrightarrow> y mod 100 = 0"
  unfolding mod_eq_0_iff_dvd using dvd_trans [of 4 100 y] dvd_trans [of 100 400 y] by simp_all

lemma leap_year_alt: "leap_year y \<longleftrightarrow> y mod 4 = 0 \<and> (y mod 100 = 0 \<longrightarrow> y mod 400 = 0)"
  unfolding leap_year_def using century_mod [of y] by (cases "y mod 100 = 0"; cases "y mod 400 = 0") simp_all

lemma leap_count:
  assumes "c100 \<longrightarrow> c4" "c400 \<longrightarrow> c100"
  shows "365 + (if c4 then 1 else 0) - (if c100 then 1 else 0) + (if c400 then 1 else (0::int)) = (if c4 \<and> (c100 \<longrightarrow> c400) then 366 else 365)"
  using assms by (cases c4; cases c100; cases c400) simp_all

lemma days_before_Suc: "days_before (y + 1) = days_before y + year_days y"
proof -
  have "days_before (y + 1) - days_before y = 365 + (y div 4 - (y - 1) div 4) - (y div 100 - (y - 1) div 100) + (y div 400 - (y - 1) div 400)"
    by (simp add: days_before_def)
  also have "\<dots> = 365 + (if y mod 4 = 0 then 1 else 0) - (if y mod 100 = 0 then 1 else 0) + (if y mod 400 = 0 then 1 else 0)"
    by (subst (1 2 3) div_pred) (rule TrueI refl | simp)+
  also have "\<dots> = year_days y" unfolding year_days_def leap_year_alt by (rule leap_count [OF century_mod])
  finally show ?thesis by (simp only: algebra_simps)
qed

lemma find_year_ok:
  assumes "0 \<le> d" "find_year y d = (y', r)"
  shows "y \<le> y' \<and> 0 \<le> r \<and> r < year_days y' \<and> days_before y + d = days_before y' + r"
  using assms
proof (induction y d rule: find_year.induct)
  case (1 y d)
  show ?case
  proof (cases "d < year_days y")
    case True
    then show ?thesis using "1.prems" by (simp add: find_year.simps)
  next
    case False
    then have "find_year (y + 1) (d - year_days y) = (y', r)" using "1.prems" by (simp add: find_year.simps)
    then show ?thesis using "1.IH" [OF False] False days_before_Suc [of y] by simp
  qed
qed

lemma find_month_ok:
  assumes "0 \<le> d" "d < sum_list ls" "find_month ls d = (m, r)"
  shows "0 \<le> m \<and> m < int (length ls) \<and> 0 \<le> r \<and> r < ls ! nat m \<and> d = sum_list (take (nat m) ls) + r"
  using assms
proof (induction ls arbitrary: d m)
  case (Cons l ls)
  show ?case
  proof (cases "d < l")
    case False
    obtain m' where m': "find_month ls (d - l) = (m', r)" "m = m' + 1" using Cons.prems(3) False by (auto split: prod.splits)
    then have "0 \<le> m' \<and> m' < int (length ls) \<and> 0 \<le> r \<and> r < ls ! nat m' \<and> d - l = sum_list (take (nat m') ls) + r"
      using Cons.IH [of "d - l" m'] Cons.prems False by simp
    moreover from this have "nat m = Suc (nat m')" using m'(2) by (simp add: nat_add_distrib)
    ultimately show ?thesis using m'(2) by simp
  qed (use Cons.prems in auto)
qed simp

lemma sum_month_days [simp]: "sum_list (month_days y) = year_days y"
  by (simp add: month_days_def year_days_def)

lemma length_month_days [simp]: "length (month_days y) = 12"
  by (simp add: month_days_def)

lemma month_days_le: "0 \<le> m \<Longrightarrow> m < 12 \<Longrightarrow> month_days y ! nat m \<le> 31"
proof -
  assume "0 \<le> m" "m < 12"
  then have "month_days y ! nat m \<in> set (month_days y)" by simp
  then show ?thesis by (auto simp: month_days_def split: if_splits)
qed

text \<open>What the fields of a date can be.\<close>

definition tm_ok :: "tm \<Rightarrow> bool" where
  "tm_ok t \<longleftrightarrow> 0 \<le> tm_sec t \<and> tm_sec t \<le> 59 \<and> 0 \<le> tm_min t \<and> tm_min t \<le> 59 \<and> 0 \<le> tm_hour t \<and> tm_hour t \<le> 23 \<and> 1 \<le> tm_mday t \<and> tm_mday t \<le> 31
     \<and> 0 \<le> tm_mon t \<and> tm_mon t \<le> 11 \<and> 70 \<le> tm_year t \<and> 0 \<le> tm_wday t \<and> tm_wday t \<le> 6"

lemma gmtime_ok:
  assumes "0 \<le> t"
  shows "tm_ok (gmtime t)" "timegm (gmtime t) = t" "days_before (tm_year (gmtime t) + 1900) * 86400 \<le> t" "t < days_before (tm_year (gmtime t) + 1901) * 86400"
proof -
  obtain y yd where y: "find_year 1970 (t div 86400) = (y, yd)" by force
  have "days_before 1970 = 0" by (simp add: days_before_def)
  then have y': "1970 \<le> y" "0 \<le> yd" "yd < year_days y" "t div 86400 = days_before y + yd"
    using find_year_ok [OF _ y] assms by auto
  obtain m md where m: "find_month (month_days y) yd = (m, md)" by force
  have m': "0 \<le> m" "m < 12" "0 \<le> md" "md < month_days y ! nat m" "yd = sum_list (take (nat m) (month_days y)) + md"
    using find_month_ok [OF y'(2) _ m] y'(3) by auto
  define d r sec mi ho wd where "d = t div 86400" and "r = t mod 86400" and "sec = r mod 60" and "mi = r div 60 mod 60" and "ho = r div 3600" and "wd = (d + 4) mod 7"
  have t: "t = d * 86400 + r" by (simp add: d_def r_def)
  have dy: "d = days_before y + yd" using y'(4) by (simp add: d_def)
  have g: "gmtime t = \<lparr>tm_sec = sec, tm_min = mi, tm_hour = ho, tm_mday = md + 1, tm_mon = m, tm_year = y - 1900, tm_wday = wd\<rparr>"
    by (simp add: gmtime_def Let_def y m d_def r_def sec_def mi_def ho_def wd_def)
  have r: "0 \<le> r" "r < 86400" by (simp_all add: r_def)
  have bounds: "ho \<le> 23" "0 \<le> ho" "0 \<le> wd" "wd \<le> 6" "0 \<le> sec" "sec \<le> 59" "0 \<le> mi" "mi \<le> 59"
    using zdiv_mono1 [of r 86399 3600] pos_imp_zdiv_nonneg_iff [of 3600 r] r
      pos_mod_bound [of 7 "d + 4"] pos_mod_bound [of 60 r] pos_mod_bound [of 60 "r div 60"]
    unfolding ho_def wd_def sec_def mi_def by simp_all
  have "r div 3600 = r div 60 div 60" using zdiv_zmult2_eq [of 60 r 60] by simp
  then have split: "r = ho * 3600 + mi * 60 + sec" unfolding ho_def mi_def sec_def using div_mod_twice [of r 60] by simp
  have clear: "tm_ok (gmtime t) \<and> timegm (gmtime t) = t \<and> days_before (tm_year (gmtime t) + 1900) * 86400 \<le> t \<and> t < days_before (tm_year (gmtime t) + 1901) * 86400"
    if "t = d * 86400 + r" "0 \<le> r" "r < 86400" "r = ho * 3600 + mi * 60 + sec"
    using that bounds m' y'(1-3) dy month_days_le [of m y] days_before_Suc [of y]
    unfolding g tm_ok_def timegm_def Let_def by (simp add: add.commute)
  then show "tm_ok (gmtime t)" "timegm (gmtime t) = t" "days_before (tm_year (gmtime t) + 1900) * 86400 \<le> t" "t < days_before (tm_year (gmtime t) + 1901) * 86400"
    using t r split by blast+
qed

subsection \<open>Reading what was printed\<close>

lemma digit_char [simp]: "n < 10 \<Longrightarrow> digit (char_of (48 + n :: nat)) = int n"
  by (simp add: digit_def)

lemma isdigit_char [simp]: "n < 10 \<Longrightarrow> isdigit (char_of (48 + n :: nat))"
  by (simp add: isdigit_def)

lemma digit_char_not_space [simp]: "n < 10 \<Longrightarrow> char_of (48 + n :: nat) \<noteq> CHR '' ''"
proof
  assume "n < 10" "char_of (48 + n) = CHR '' ''"
  then have "isdigit (CHR '' '')" using isdigit_char [of n] by simp
  then show False by (simp add: isdigit_def digit_def)
qed

lemma get_digits_numeral [simp]:
  "get_digits (numeral k) hi v [] = (v, [])"
  "get_digits (numeral k) hi v (c # s) = (if v * 10 \<le> hi \<and> isdigit c then get_digits (pred_numeral k) hi (v * 10 + digit c) s else (v, c # s))"
  by (simp_all add: numeral_eq_Suc)

lemma get_number_two_digits:
  assumes "0 \<le> n" "lo \<le> n" "n \<le> hi" "hi \<le> 99"
  shows "get_number lo hi 2 (two_digits n @ s) = Some (n, s)"
proof -
  obtain k where k: "n = int k" using assms(1) nonneg_int_cases by blast
  have d: "k div 10 < 10" "k mod 10 < 10" using assms k by simp_all
  have e: "int (k div 10) * 10 + int (k mod 10) = int k" by (metis mult.commute mult_div_mod_eq of_nat_add of_nat_mult of_nat_numeral)
  then have "int (k div 10) * 10 \<le> hi" using assms(3) k by linarith
  then show ?thesis using d e assms k by (simp add: two_digits_def get_number_def)
qed

lemma get_number_year:
  assumes "1000 \<le> y" "y \<le> 9999"
  shows "get_number 0 9999 4 (dec (nat y) @ s) = Some (y, s)"
proof -
  obtain k where k: "y = int k" using assms(1) nonneg_int_cases [of y] by auto
  define q1 q2 a where "q1 = k div 10" and "q2 = q1 div 10" and "a = q2 div 10"
  define b c d where "b = q2 mod 10" and "c = q1 mod 10" and "d = k mod 10"
  have e: "k = 10 * q1 + d" "q1 = 10 * q2 + c" "q2 = 10 * a + b" "b < 10" "c < 10" "d < 10"
    by (simp_all add: q1_def q2_def a_def b_def c_def d_def)
  have k': "1000 \<le> k" "k \<le> 9999" using assms k by simp_all
  then have lt: "a < 10" "1 \<le> a" "\<not> k < 10" "\<not> q1 < 10" "\<not> q2 < 10" using e by linarith+
  have "dec k = [char_of (48 + a), char_of (48 + b), char_of (48 + c), char_of (48 + d)]"
    using lt dec.simps [of k] dec.simps [of q1] dec.simps [of q2] dec.simps [of a]
    by (simp add: q1_def [symmetric] q2_def [symmetric] a_def [symmetric] b_def [symmetric] c_def [symmetric] d_def [symmetric])
  moreover have "int k = 10 * int q1 + int d" "int q1 = 10 * int q2 + int c" "int q2 = 10 * int a + int b" using e(1-3) by simp_all
  then have "int a * 10 \<le> 9999" "(int a * 10 + int b) * 10 \<le> 9999" "((int a * 10 + int b) * 10 + int c) * 10 \<le> 9999"
     "((int a * 10 + int b) * 10 + int c) * 10 + int d = y" using assms k by (simp_all add: algebra_simps)
  ultimately show ?thesis using lt e(4-6) k assms by (simp add: get_number_def)
qed

lemma less_7_cases: "n < 7 \<Longrightarrow> n = 0 \<or> n = 1 \<or> n = 2 \<or> n = 3 \<or> n = 4 \<or> n = 5 \<or> n = (6::nat)"
  by auto

lemma less_12_cases: "n < 12 \<Longrightarrow> n = 0 \<or> n = 1 \<or> n = 2 \<or> n = 3 \<or> n = 4 \<or> n = 5 \<or> n = 6 \<or> n = 7 \<or> n = 8 \<or> n = 9 \<or> n = 10 \<or> n = (11::nat)"
  by arith

lemma get_name_day:
  assumes "n < 7"
  shows "get_name day_names (take 3 (day_names ! n) @ CHR '','' # s) = Some (int n, CHR '','' # s)"
  using less_7_cases [OF assms] by (elim disjE) (simp_all add: day_names_def strncaseeq_def tolower_def)

lemma get_name_month:
  assumes "n < 12"
  shows "get_name month_names (take 3 (month_names ! n) @ CHR '' '' # s) = Some (int n, CHR '' '' # s)"
  using less_12_cases [OF assms] by (elim disjE) (simp_all add: month_names_def strncaseeq_def tolower_def)

text \<open>The examples of section 3.3.1 of RFC 2616, as in the test driver of the file.\<close>

lemma TIM_parse_examples:
  "TIM_parse ''Sun, 06 Nov 1994 08:49:37 GMT'' = 784111777"
  "TIM_parse ''Sunday, 06-Nov-94 08:49:37 GMT'' = 784111777"
  "TIM_parse ''Sun Nov  6 08:49:37 1994'' = 784111777"
  by (simp_all add: TIM_parse_def fmts_def strptime_def strptime_dir_def day_names_def month_names_def strncaseeq_def tolower_def get_number_def isdigit_def digit_def
      isspace_def tm_zero_def timegm_def days_before_def month_days_def leap_year_def)

lemma isdigit_not_space: "isdigit c \<Longrightarrow> \<not> isspace c"
  by (auto simp: isspace_def isdigit_def digit_def)

lemma digit_char_not_isspace [simp]: "n < 10 \<Longrightarrow> \<not> isspace (char_of (48 + n :: nat))"
  by (rule isdigit_not_space) simp

lemma two_digits_not_space [simp]: "dropWhile isspace (two_digits n @ s) = two_digits n @ s"
  by (simp add: two_digits_def)

lemma dec_not_space [simp]: "dropWhile isspace (dec n @ s) = dec n @ s"
proof (induction n arbitrary: s rule: dec.induct)
  case (1 n)
  show ?case
  proof (cases "n < 10")
    case True
    then show ?thesis by (simp add: dec.simps)
  next
    case False
    then show ?thesis using "1.IH" [of "[char_of (48 + n mod 10)] @ s"] dec.simps [of n] by simp
  qed
qed

lemma strptime_strftime:
  assumes "tm_ok t" "tm_year t \<le> 8099"
  shows "strptime (concat (map (strftime_item t) (fmt_items ''%a, %d %b %Y %T GMT''))) ''%a, %d %b %Y %T GMT'' tm_zero = Some ([], t)"
proof -
  have day: "get_name day_names (take 3 (day_names ! nat (tm_wday t)) @ CHR '','' # s) = Some (tm_wday t, CHR '','' # s)" for s
    using get_name_day [of "nat (tm_wday t)" s] assms(1) by (simp add: tm_ok_def nat_less_iff)
  have mon: "get_name month_names (take 3 (month_names ! nat (tm_mon t)) @ CHR '' '' # s) = Some (tm_mon t, CHR '' '' # s)" for s
    using get_name_month [of "nat (tm_mon t)" s] assms(1) by (simp add: tm_ok_def nat_less_iff)
  have mon_sp: "dropWhile isspace (take 3 (month_names ! nat (tm_mon t)) @ s) = take 3 (month_names ! nat (tm_mon t)) @ s" for s
    using less_12_cases [of "nat (tm_mon t)"] assms(1)
    by (auto simp: tm_ok_def month_names_def isspace_def nat_less_iff)
  show ?thesis
    using assms
    by (simp add: strptime_def strftime_item_def strptime_dir_def tm_ok_def get_number_two_digits get_number_year day mon mon_sp isspace_def tm_zero_def)
qed

lemma days_before_mono: "y \<le> z \<Longrightarrow> days_before y \<le> days_before z"
proof (induction z rule: int_ge_induct)
  case (step z)
  then show ?case using days_before_Suc [of z] by (simp add: year_days_def)
qed simp

lemma days_before_10000: "days_before 10000 = 2932897"
  by (simp add: days_before_def)

lemma year_9999:
  assumes "0 \<le> t"
  shows "tm_year (gmtime t) \<le> 8099 \<longleftrightarrow> t < 253402300800"
proof
  assume "tm_year (gmtime t) \<le> 8099"
  then have "days_before (tm_year (gmtime t) + 1901) \<le> 2932897"
    using days_before_mono [of "tm_year (gmtime t) + 1901" 10000] days_before_10000 by simp
  then show "t < 253402300800" using gmtime_ok(4) [OF assms] by linarith
next
  assume t: "t < 253402300800"
  show "tm_year (gmtime t) \<le> 8099"
  proof (rule ccontr)
    assume "\<not> tm_year (gmtime t) \<le> 8099"
    then have "2932897 \<le> days_before (tm_year (gmtime t) + 1900)"
      using days_before_mono [of 10000 "tm_year (gmtime t) + 1900"] days_before_10000 by simp
    then show False using t gmtime_ok(3) [OF assms] by linarith
  qed
qed

lemma length_dec: "length (dec n) = (if n < 10 then 1 else Suc (length (dec (n div 10))))"
  by (subst dec.simps) simp

lemma length_dec_4:
  assumes "1000 \<le> n" "n < 10000"
  shows "length (dec n) = 4"
proof -
  have "\<not> n < 10" "\<not> n div 10 < 10" "\<not> n div 10 div 10 < 10" "n div 10 div 10 div 10 < 10" using assms by simp_all
  then show ?thesis using length_dec [of n] length_dec [of "n div 10"] length_dec [of "n div 10 div 10"] length_dec [of "n div 10 div 10 div 10"] by simp
qed

lemma length_dec_pos: "1 \<le> length (dec n)"
  by (subst length_dec) simp

lemma length_dec_5:
  assumes "10000 \<le> n"
  shows "5 \<le> length (dec n)"
proof -
  have "\<not> n < 10" "\<not> n div 10 < 10" "\<not> n div 10 div 10 < 10" "\<not> n div 10 div 10 div 10 < 10" using assms by simp_all
  then obtain q where "length (dec n) = 4 + length (dec q)"
    using length_dec [of n] length_dec [of "n div 10"] length_dec [of "n div 10 div 10"] length_dec [of "n div 10 div 10 div 10"] by auto
  then show ?thesis using length_dec_pos [of q] by simp
qed

lemma length_strftime:
  assumes "tm_ok t"
  shows "length (concat (map (strftime_item t) (fmt_items ''%a, %d %b %Y %T GMT''))) = 25 + length (dec (nat (tm_year t + 1900)))"
proof -
  have "length (take 3 (day_names ! nat (tm_wday t))) = 3"
    using less_7_cases [of "nat (tm_wday t)"] assms by (auto simp: tm_ok_def day_names_def nat_less_iff)
  moreover have "length (take 3 (month_names ! nat (tm_mon t))) = 3"
    using less_12_cases [of "nat (tm_mon t)"] assms by (auto simp: tm_ok_def month_names_def nat_less_iff)
  ultimately show ?thesis by (simp add: strftime_item_def two_digits_def)
qed

text \<open>
  C37: a time from 1970 to the end of the year 9999 is printed with 29 characters, and reading them back
  gives the time, in whole seconds; a later time does not fit the buffer and fails the assertion.
\<close>

theorem TIM_parse_format:
  assumes "0 \<le> t"
  shows "if t < 253402300800 then \<exists>s. TIM_format t = Some s \<and> length s = 29 \<and> TIM_parse s = \<lfloor>t\<rfloor> else TIM_format t = None"
proof -
  define u where "u = gmtime \<lfloor>t\<rfloor>"
  define s where "s = concat (map (strftime_item u) (fmt_items ''%a, %d %b %Y %T GMT''))"
  have n: "0 \<le> \<lfloor>t\<rfloor>" using assms by simp
  have u: "tm_ok u" "timegm u = \<lfloor>t\<rfloor>" using gmtime_ok [OF n] by (simp_all add: u_def)
  have len: "length s = 25 + length (dec (nat (tm_year u + 1900)))" unfolding s_def by (rule length_strftime [OF u(1)])
  have f: "TIM_format t = (if length s < 30 then Some s else None)"
    by (simp only: TIM_format_def strftime_def TIM_FORMAT_SIZE_def Let_def u_def s_def)
  show ?thesis
  proof (cases "t < 253402300800")
    case True
    then have y: "tm_year u \<le> 8099" using year_9999 [OF n] by (simp add: u_def floor_less_iff)
    have "1000 \<le> nat (tm_year u + 1900)" "nat (tm_year u + 1900) < 10000" using y u(1) by (auto simp: tm_ok_def nat_less_iff le_nat_iff)
    then have "length s = 29" using len length_dec_4 by simp
    moreover have "TIM_parse s = \<lfloor>t\<rfloor>"
      using strptime_strftime [OF u(1) y] u(2) unfolding s_def [symmetric] by (simp add: TIM_parse_def fmts_def)
    ultimately show ?thesis using f True by simp
  next
    case False
    then have y: "\<not> tm_year u \<le> 8099" using year_9999 [OF n] by (simp add: u_def floor_less_iff)
    then have "10000 \<le> nat (tm_year u + 1900)" by (simp add: le_nat_iff)
    then have "\<not> length s < 30" using len length_dec_5 by (simp add: not_less)
    then show ?thesis using f False by simp
  qed
qed

theorem TIM_parse_format_witness: "\<exists>s. TIM_format 784111777 = Some s \<and> length s = 29 \<and> TIM_parse s = 784111777"
  using TIM_parse_format [of 784111777] by simp

end
