(* ===== verification/Rfc2616.thy ===== *)
theory Rfc2616
  imports Http Http_Time
begin

text \<open>
  The decisions of \<^verbatim>\<open>bin/varnishd/rfc2616.c\<close> that follow RFC 2616: how long an object is fresh, whether and how a
  response carries a body, whether the client takes gzip, and whether a conditional request gets 304. They read the
  header tables of \<^verbatim>\<open>Http\<close> and the dates of \<^verbatim>\<open>Http_Time\<close>. Also \<open>http_GetHdrQ\<close> of \<^verbatim>\<open>cache_http.c\<close>, and \<open>strtoul\<close>
  with base 0 of the C library.

  A conversion of a floating point number to \<open>int\<close> that is out of range has no defined result; it is \<open>None\<close>, as a
  failed assertion is.
\<close>

subsection \<open>Numbers\<close>

definition digit_value :: "char \<Rightarrow> int" where
  "digit_value c = (let n = int (of_char c) in
     if 48 \<le> n \<and> n \<le> 57 then n - 48 else if 97 \<le> n \<and> n \<le> 102 then n - 87 else if 65 \<le> n \<and> n \<le> 70 then n - 55 else 99)"

fun read_digits :: "int \<Rightarrow> int \<Rightarrow> string \<Rightarrow> int" where
  "read_digits b v [] = v"
| "read_digits b v (c # s) = (if digit_value c < b then read_digits b (v * b + digit_value c) s else v)"

definition strtoul_sign :: "string \<Rightarrow> bool \<times> string" where
  "strtoul_sign s = (case s of
     [] \<Rightarrow> (False, [])
   | c # r \<Rightarrow> if c = CHR ''-'' then (True, r) else if c = CHR ''+'' then (False, r) else (False, s))"

definition strtoul_base :: "string \<Rightarrow> int \<times> string" where
  "strtoul_base s = (case s of
     c # d # e # r \<Rightarrow>
       if c = CHR ''0'' \<and> (d = CHR ''x'' \<or> d = CHR ''X'') \<and> digit_value e < 16 then (16, e # r)
       else if c = CHR ''0'' then (8, s) else (10, s)
   | c # r \<Rightarrow> if c = CHR ''0'' then (8, s) else (10, s)
   | [] \<Rightarrow> (10, s))"

text \<open>\<open>strtoul (s, NULL, 0)\<close>, and its assignment to an \<open>unsigned\<close>.\<close>

definition strtoul :: "string \<Rightarrow> int" where
  "strtoul s = (let (neg, s) = strtoul_sign (dropWhile isspace s); (b, s) = strtoul_base s; v = read_digits b 0 s in
     if v \<ge> 2 ^ 64 then 2 ^ 64 - 1 else if neg then (- v) mod 2 ^ 64 else v)"

definition to_unsigned :: "int \<Rightarrow> int" where
  "to_unsigned v = v mod 2 ^ 32"

text \<open>The conversion of a floating point number to \<open>int\<close>.\<close>

definition to_int :: "rat \<Rightarrow> int option" where
  "to_int x = (let v = (if x < 0 then \<lceil>x\<rceil> else \<lfloor>x\<rfloor>) in if - (2 ^ 31) \<le> v \<and> v < 2 ^ 31 then Some v else None)"

subsection \<open>Time to live\<close>

record rfc_params =
  default_ttl :: nat
  clock_skew :: nat

definition H_Age :: string where "H_Age = HTTP_Init_hdr ''Age''"
definition H_Expires :: string where "H_Expires = HTTP_Init_hdr ''Expires''"
definition H_Date :: string where "H_Date = HTTP_Init_hdr ''Date''"
definition H_Cache_Control :: string where "H_Cache_Control = HTTP_Init_hdr ''Cache-Control''"
definition H_Connection :: string where "H_Connection = HTTP_Init_hdr ''Connection''"
definition H_Transfer_Encoding :: string where "H_Transfer_Encoding = HTTP_Init_hdr ''Transfer-Encoding''"
definition H_Content_Length :: string where "H_Content_Length = HTTP_Init_hdr ''Content-Length''"
definition H_Accept_Encoding :: string where "H_Accept_Encoding = HTTP_Init_hdr ''Accept-Encoding''"
definition H_If_Modified_Since :: string where "H_If_Modified_Since = HTTP_Init_hdr ''If-Modified-Since''"
definition H_If_None_Match :: string where "H_If_None_Match = HTTP_Init_hdr ''If-None-Match''"
definition H_ETag :: string where "H_ETag = HTTP_Init_hdr ''ETag''"

definition ttl_codes :: "nat list" where
  "ttl_codes = [200, 203, 300, 301, 302, 307, 410, 404]"

definition ttl_max_age :: "string \<Rightarrow> int" where
  "ttl_max_age p = (if p \<noteq> [] \<and> List.hd p = CHR ''-'' then 0 else to_unsigned (strtoul p))"

definition ttl_expires :: "rfc_params \<Rightarrow> rat \<Rightarrow> int \<Rightarrow> int \<Rightarrow> rat option" where
  "ttl_expires prm entered h_expires h_date =
     (if h_expires = 0 then Some (of_nat (default_ttl prm))
      else if h_expires < h_date then Some 0
      else if h_date = 0 \<or> \<bar>of_int h_date - entered\<bar> < of_nat (clock_skew prm)
      then Some (if of_int h_expires < entered then 0 else of_int h_expires - entered)
      else map_option of_int (to_int (of_int h_expires - of_int h_date)))"

text \<open>The ttl and the age of the object; \<open>age0\<close> is the age before.\<close>

definition RFC2616_Ttl :: "rfc_params \<Rightarrow> rat \<Rightarrow> nat \<Rightarrow> http \<Rightarrow> rat \<Rightarrow> (rat \<times> rat) option" where
  "RFC2616_Ttl prm entered err_code hp age0 = do {
     assert_c (entered \<noteq> 0);
     a \<leftarrow> http_GetHdr hp H_Age;
     let (age, exp_age) = (case a of None \<Rightarrow> (0, age0) | Some p \<Rightarrow> (to_unsigned (strtoul p), of_int (to_unsigned (strtoul p))));
     x \<leftarrow> http_GetHdr hp H_Expires;
     let h_expires = (case x of None \<Rightarrow> 0 | Some p \<Rightarrow> TIM_parse p);
     d \<leftarrow> http_GetHdr hp H_Date;
     let h_date = (case d of None \<Rightarrow> 0 | Some p \<Rightarrow> TIM_parse p);
     (if err_code \<notin> set ttl_codes then Some (-1, exp_age)
      else do {
        (i, p) \<leftarrow> http_GetHdrField hp H_Cache_Control ''s-maxage'';
        (i, p) \<leftarrow> (if i then Some (i, p) else http_GetHdrField hp H_Cache_Control ''max-age'');
        (case (i, p) of
           (True, Some p) \<Rightarrow>
             let max_age = ttl_max_age p in Some (if age > max_age then 0 else of_int (max_age - age), exp_age)
         | _ \<Rightarrow> do { ttl \<leftarrow> ttl_expires prm entered h_expires h_date; Some (ttl, exp_age) })
      })
   }"

subsection \<open>Bodies\<close>

datatype body_status = BS_NONE | BS_ZERO | BS_ERROR | BS_CHUNKED | BS_LENGTH | BS_EOF

text \<open>The status, whether the connection is to be closed, and the value of \<open>h_content_length\<close> where it is set.\<close>

definition RFC2616_Body :: "http \<Rightarrow> http \<Rightarrow> (body_status \<times> bool \<times> string option) option" where
  "RFC2616_Body bereq hp = do {
     ka \<leftarrow> http_HdrIs hp H_Connection ''keep-alive'';
     cl \<leftarrow> http_HdrIs hp H_Connection ''close'';
     let do_close = (if h_protover hp < 11 \<and> \<not> ka then True else cl);
     req \<leftarrow> http_GetReq bereq;
     (if strcaseeq req ''head'' then Some (BS_NONE, do_close, None)
      else if h_status hp \<le> 199 then Some (BS_NONE, do_close, None)
      else if h_status hp = 204 then Some (BS_NONE, do_close, None)
      else if h_status hp = 304 then Some (BS_NONE, do_close, None)
      else do {
        chunked \<leftarrow> http_HdrIs hp H_Transfer_Encoding ''chunked'';
        (if chunked then Some (BS_CHUNKED, do_close, None)
         else do {
           te \<leftarrow> http_GetHdr hp H_Transfer_Encoding;
           (if te \<noteq> None then Some (BS_ERROR, do_close, None)
            else do {
              len \<leftarrow> http_GetHdr hp H_Content_Length;
              (if len \<noteq> None then Some (BS_LENGTH, do_close, len)
               else if ka then Some (BS_ZERO, do_close, None)
               else if cl then Some (BS_EOF, do_close, None)
               else if h_protover hp < 11 then Some (BS_EOF, do_close, None)
               else Some (BS_EOF, do_close, None))
            })
         })
      })
   }"

subsection \<open>Compression\<close>

text \<open>The tail of \<open>http_GetHdrQ\<close>: the integer part and the fraction of the weight.\<close>

fun q_int :: "rat \<Rightarrow> string \<Rightarrow> rat \<times> string" where
  "q_int a [] = (a, [])"
| "q_int a (c # h) = (if vct_isdigit c then q_int (a * 10 + of_int (digit c)) h else (a, c # h))"

fun q_frac :: "rat \<Rightarrow> rat \<Rightarrow> string \<Rightarrow> rat" where
  "q_frac a b [] = a"
| "q_frac a b (c # h) = (if vct_isdigit c then q_frac (a + b * of_int (digit c)) (b / 10) h else a)"

definition q_number :: "string \<Rightarrow> rat" where
  "q_number h = (case q_int 0 h of
     (a, c # r) \<Rightarrow> if c = CHR ''.'' then q_frac a (1 / 10) r else a
   | (a, []) \<Rightarrow> a)"

definition q_expect :: "char \<Rightarrow> string \<Rightarrow> string option" where
  "q_expect c h = (case dropWhile vct_issp h of [] \<Rightarrow> None | d # r \<Rightarrow> if d = c then Some r else None)"

text \<open>The text of the weight, when there is one.\<close>

definition q_text :: "string \<Rightarrow> string option" where
  "q_text h = do {
     h \<leftarrow> q_expect CHR '';'' h;
     h \<leftarrow> q_expect CHR ''q'' h;
     h \<leftarrow> q_expect CHR ''='' h;
     Some (dropWhile vct_issp h)
   }"

definition http_GetHdrQ :: "http \<Rightarrow> string \<Rightarrow> string \<Rightarrow> rat option" where
  "http_GetHdrQ hp hdr field = do {
     i \<leftarrow> http_GetHdrData hp hdr field;
     (case i of
        None \<Rightarrow> Some 0
      | Some h \<Rightarrow> (case q_text h of None \<Rightarrow> Some 1 | Some n \<Rightarrow> Some (q_number n)))
   }"

definition RFC2616_Req_Gzip :: "http \<Rightarrow> bool option" where
  "RFC2616_Req_Gzip hp = do {
     x \<leftarrow> http_GetHdrData hp H_Accept_Encoding ''x-gzip'';
     (if x \<noteq> None then Some True
      else do {
        q \<leftarrow> http_GetHdrQ hp H_Accept_Encoding ''gzip'';
        Some (q > 0)
      })
   }"

subsection \<open>Conditional requests\<close>

definition RFC2616_Do_Cond :: "http \<Rightarrow> http \<Rightarrow> rat \<Rightarrow> rat \<Rightarrow> bool option" where
  "RFC2616_Do_Cond hp ohp last_modified t_req = do {
     p \<leftarrow> http_GetHdr hp H_If_Modified_Since;
     let ims = (case p of None \<Rightarrow> Some False | Some p \<Rightarrow>
       if last_modified = 0 then None
       else if of_int (TIM_parse p) > t_req then None
       else if last_modified > of_int (TIM_parse p) then None
       else Some True);
     (case ims of
        None \<Rightarrow> Some False
      | Some do_cond \<Rightarrow> do {
          p \<leftarrow> http_GetHdr hp H_If_None_Match;
          (case p of
             None \<Rightarrow> Some do_cond
           | Some p \<Rightarrow> do {
               e \<leftarrow> http_GetHdr ohp H_ETag;
               (case e of None \<Rightarrow> Some do_cond | Some e \<Rightarrow> if p \<noteq> e then Some False else Some True)
             })
        })
   }"

subsection \<open>What the headers of a message say\<close>

abbreviation hval :: "string \<Rightarrow> http \<Rightarrow> string option" where
  "hval name hp \<equiv> hdr_value name (h_lines hp)"

lemmas H_defs = H_Age_def H_Expires_def H_Date_def H_Cache_Control_def H_Connection_def H_Transfer_Encoding_def H_Content_Length_def H_Accept_Encoding_def
  H_If_Modified_Since_def H_If_None_Match_def H_ETag_def

lemma GetHdr_values:
  assumes "http_full hp"
  shows "http_GetHdr hp H_Age = Some (hval ''Age'' hp)" "http_GetHdr hp H_Expires = Some (hval ''Expires'' hp)" "http_GetHdr hp H_Date = Some (hval ''Date'' hp)"
    "http_GetHdr hp H_Cache_Control = Some (hval ''Cache-Control'' hp)" "http_GetHdr hp H_Connection = Some (hval ''Connection'' hp)"
    "http_GetHdr hp H_Transfer_Encoding = Some (hval ''Transfer-Encoding'' hp)" "http_GetHdr hp H_Content_Length = Some (hval ''Content-Length'' hp)"
    "http_GetHdr hp H_Accept_Encoding = Some (hval ''Accept-Encoding'' hp)" "http_GetHdr hp H_If_Modified_Since = Some (hval ''If-Modified-Since'' hp)"
    "http_GetHdr hp H_If_None_Match = Some (hval ''If-None-Match'' hp)" "http_GetHdr hp H_ETag = Some (hval ''ETag'' hp)"
  unfolding H_defs by (rule http_GetHdr_value [OF assms]; simp)+

text \<open>The value of a directive of \<open>Cache-Control\<close>: whether it is there, and the text after its \<open>=\<close>.\<close>

definition cc_field :: "string \<Rightarrow> http \<Rightarrow> bool \<times> string option" where
  "cc_field f hp = (case Option.bind (hval ''Cache-Control'' hp) (hdrdata_loop f) of
     None \<Rightarrow> (False, None)
   | Some h \<Rightarrow> (True, q_expect CHR ''='' h \<bind> (\<lambda>r. Some (dropWhile vct_issp r))))"

lemma GetHdrField_cc:
  assumes "http_full hp"
  shows "http_GetHdrField hp H_Cache_Control f = Some (cc_field f hp)"
proof (cases "Option.bind (hval ''Cache-Control'' hp) (hdrdata_loop f)")
  case None
  then show ?thesis using GetHdr_values(4) [OF assms] by (auto simp: http_GetHdrField_def http_GetHdrData_def cc_field_def split: Option.bind_splits)
next
  case (Some h)
  then have "http_GetHdrData hp H_Cache_Control f = Some (Some h)"
    using GetHdr_values(4) [OF assms] by (auto simp: http_GetHdrData_def split: Option.bind_splits)
  then show ?thesis using Some by (cases "dropWhile vct_issp h") (simp_all add: http_GetHdrField_def cc_field_def q_expect_def del: dropWhile_eq_Nil_conv)
qed

definition cc_max_age :: "http \<Rightarrow> int option" where
  "cc_max_age hp = (let (i, p) = (if fst (cc_field ''s-maxage'' hp) then cc_field ''s-maxage'' hp else cc_field ''max-age'' hp) in map_option ttl_max_age p)"

definition hdr_age :: "http \<Rightarrow> int" where
  "hdr_age hp = (case hval ''Age'' hp of None \<Rightarrow> 0 | Some p \<Rightarrow> to_unsigned (strtoul p))"

definition hdr_date :: "string \<Rightarrow> http \<Rightarrow> int" where
  "hdr_date name hp = (case hval name hp of None \<Rightarrow> 0 | Some p \<Rightarrow> TIM_parse p)"

lemma cc_field_absent: "\<not> fst (cc_field f hp) \<Longrightarrow> cc_field f hp = (False, None)"
  by (auto simp: cc_field_def split: option.splits)

lemma RFC2616_Ttl_eq:
  assumes "http_full hp" "entered \<noteq> 0" "code \<in> set ttl_codes"
  shows "map_option fst (RFC2616_Ttl prm entered code hp age0) = (case cc_max_age hp of
      Some m \<Rightarrow> Some (of_int (max 0 (m - hdr_age hp)))
    | None \<Rightarrow> ttl_expires prm entered (hdr_date ''Expires'' hp) (hdr_date ''Date'' hp))"
proof -
  obtain i1 p1 i2 p2 where cc: "cc_field ''s-maxage'' hp = (i1, p1)" "cc_field ''max-age'' hp = (i2, p2)" by force
  have n: "\<not> i1 \<Longrightarrow> p1 = None" "\<not> i2 \<Longrightarrow> p2 = None" using cc cc_field_absent by (metis fst_conv prod.inject)+
  define q where "q = (if i1 then p1 else p2)"
  obtain ea where "RFC2616_Ttl prm entered code hp age0 = (case q of Some p \<Rightarrow> Some (if hdr_age hp > ttl_max_age p then 0 else of_int (ttl_max_age p - hdr_age hp), ea)
      | None \<Rightarrow> do { ttl \<leftarrow> ttl_expires prm entered (hdr_date ''Expires'' hp) (hdr_date ''Date'' hp); Some (ttl, ea) })"
    using assms n by (cases "hval ''Age'' hp"; cases i1; cases i2; cases p1; cases p2)
      (simp_all add: RFC2616_Ttl_def GetHdr_values GetHdrField_cc cc hdr_age_def hdr_date_def Let_def q_def)
  moreover have "cc_max_age hp = map_option ttl_max_age q" using cc by (simp add: cc_max_age_def q_def)
  ultimately show ?thesis
    by (cases q; cases "ttl_expires prm entered (hdr_date ''Expires'' hp) (hdr_date ''Date'' hp)") (simp_all add: max_def)
qed

subsection \<open>Freshness\<close>

text \<open>The clock that \<open>Expires\<close> is read by: ours when there is no \<open>Date\<close> or it is close to ours, else that of the backend.\<close>

definition expires_clock :: "rfc_params \<Rightarrow> rat \<Rightarrow> http \<Rightarrow> rat" where
  "expires_clock prm entered hp = (let d = hdr_date ''Date'' hp in if d = 0 \<or> \<bar>of_int d - entered\<bar> < of_nat (clock_skew prm) then entered else of_int d)"

lemma to_int_of_int: "0 \<le> v \<Longrightarrow> v < 2 ^ 31 \<Longrightarrow> to_int (of_int v) = Some v"
  by (simp add: to_int_def Let_def)

lemma to_int_out: "2 ^ 31 \<le> v \<Longrightarrow> to_int (of_int v) = None"
  by (simp add: to_int_def Let_def)

lemma ttl_expires_bound:
  assumes "x \<noteq> 0" "x - d < 2 ^ 31"
  shows "\<exists>ttl. ttl_expires prm entered x d = Some ttl \<and> 0 \<le> ttl \<and>
    ttl \<le> max 0 (of_int x - (if d = 0 \<or> \<bar>of_int d - entered\<bar> < of_nat (clock_skew prm) then entered else of_int d))"
proof (cases "x < d")
  case False
  then have "to_int (of_int x - of_int d) = Some (x - d)" using assms(2) to_int_of_int [of "x - d"] by simp
  then show ?thesis using assms(1) False by (auto simp: ttl_expires_def)
qed (use assms in \<open>auto simp: ttl_expires_def\<close>)

text \<open>
  C34: a response with a cacheable status whose \<open>Expires\<close> is less than \<open>2 ^ 31\<close> seconds after its \<open>Date\<close> gets a
  ttl that is never negative and never longer than its headers allow: what \<open>s-maxage\<close> or else \<open>max-age\<close> leaves after the age, if given; else the time to \<open>Expires\<close> on the clock
  that is trusted; else the default. For a later \<open>Expires\<close> the code converts a number to \<open>int\<close> that does not fit, which is
  undefined.
\<close>

theorem RFC2616_Ttl_fresh:
  assumes "http_full hp" "entered \<noteq> 0" "code \<in> set ttl_codes" "hdr_date ''Expires'' hp - hdr_date ''Date'' hp < 2 ^ 31"
  shows "\<exists>ttl. map_option fst (RFC2616_Ttl prm entered code hp age0) = Some ttl \<and> 0 \<le> ttl \<and>
    (case cc_max_age hp of
       Some m \<Rightarrow> ttl = of_int (max 0 (m - hdr_age hp))
     | None \<Rightarrow> if hdr_date ''Expires'' hp = 0 then ttl = of_nat (default_ttl prm)
              else ttl \<le> max 0 (of_int (hdr_date ''Expires'' hp) - expires_clock prm entered hp))"
proof (cases "cc_max_age hp")
  case None
  show ?thesis
  proof (cases "hdr_date ''Expires'' hp = 0")
    case True
    then show ?thesis using None RFC2616_Ttl_eq [OF assms(1-3), of prm age0] by (simp add: ttl_expires_def)
  next
    case False
    then show ?thesis using None RFC2616_Ttl_eq [OF assms(1-3), of prm age0] ttl_expires_bound [OF False assms(4), of prm entered]
      by (simp add: expires_clock_def Let_def)
  qed
next
  case (Some m)
  then show ?thesis using RFC2616_Ttl_eq [OF assms(1-3), of prm age0] by simp
qed

text \<open>What the reading of numbers does to \<open>max-age\<close>: decimal numbers up to \<open>2 ^ 32\<close> are right, larger ones wrap, a leading zero makes them octal.\<close>

lemma digit_value_char [simp]: "n < 10 \<Longrightarrow> digit_value (char_of (48 + n :: nat)) = int n"
  by (simp add: digit_value_def Let_def)

lemma read_digits_dec: "read_digits 10 v (dec n @ s) = read_digits 10 (v * 10 ^ length (dec n) + int n) s"
proof (induction n arbitrary: v s rule: dec.induct)
  case (1 n)
  show ?case
  proof (cases "n < 10")
    case True
    then have "dec n = [char_of (48 + n)]" by (simp add: dec.simps)
    then show ?thesis using True by simp
  next
    case False
    have d: "dec n = dec (n div 10) @ [char_of (48 + n mod 10)]" using False by (simp add: dec.simps [of n])
    have e: "int n = int (n div 10) * 10 + int (n mod 10)" by (metis mult.commute mult_div_mod_eq of_nat_add of_nat_mult of_nat_numeral)
    have "read_digits 10 v (dec n @ s) = read_digits 10 ((v * 10 ^ length (dec (n div 10)) + int (n div 10)) * 10 + int (n mod 10)) s"
      unfolding d using "1.IH" [OF False, of v "[char_of (48 + n mod 10)] @ s"] by simp
    also have "(v * 10 ^ length (dec (n div 10)) + int (n div 10)) * 10 + int (n mod 10) = v * 10 ^ length (dec n) + int n"
      unfolding d e by (simp add: algebra_simps)
    finally show ?thesis .
  qed
qed

lemma dec_zero: "dec 0 = ''0''"
proof -
  have "(of_char (CHR ''0'') :: nat) = 48" by simp
  then have "char_of (48 :: nat) = CHR ''0''" by (metis char_of_char)
  then show ?thesis by (subst dec.simps) simp
qed

lemma dec_head:
  assumes "0 < n"
  obtains c r where "dec n = c # r" "isdigit c" "c \<noteq> CHR ''0''"
proof -
  have "\<exists>c r. dec n = c # r \<and> isdigit c \<and> c \<noteq> CHR ''0''" using assms
  proof (induction n rule: dec.induct)
    case (1 n)
    show ?case
    proof (cases "n < 10")
      case True
      then have "dec n = [char_of (48 + n)]" by (simp add: dec.simps)
      moreover have "char_of (48 + n) \<noteq> CHR ''0''"
      proof
        assume "char_of (48 + n) = CHR ''0''"
        then have "digit (CHR ''0'') = int n" using digit_char [OF True] by simp
        then show False using "1.prems" by (simp add: digit_def)
      qed
      ultimately show ?thesis using True by simp
    next
      case False
      then have "0 < n div 10" by simp
      then show ?thesis using "1.IH" [OF False] dec.simps [of n] by auto
    qed
  qed
  then show ?thesis using that by blast
qed

lemma strtoul_dec:
  assumes "int n < 2 ^ 64"
  shows "strtoul (dec n) = int n"
proof (cases "n = 0")
  case True
  then show ?thesis by (simp add: dec_zero strtoul_def strtoul_sign_def strtoul_base_def isspace_def digit_value_def)
next
  case False
  then obtain c r where cr: "dec n = c # r" "isdigit c" "c \<noteq> CHR ''0''" using dec_head by blast
  have "\<not> isspace c" "c \<noteq> CHR ''-''" "c \<noteq> CHR ''+''" using cr(2) isdigit_not_space by (auto simp: isdigit_def digit_def)
  then have "strtoul_sign (dropWhile isspace (dec n)) = (False, dec n)" using cr(1) by (simp add: strtoul_sign_def)
  moreover have "strtoul_base (dec n) = (10, dec n)" using cr(1,3) by (auto simp: strtoul_base_def split: list.splits)
  moreover have "read_digits 10 0 (dec n) = int n" using read_digits_dec [of 0 n "[]"] by simp
  ultimately show ?thesis using assms by (simp add: strtoul_def)
qed

lemma max_age_wraps:
  assumes "int n < 2 ^ 64"
  shows "ttl_max_age (dec n) = int n mod 2 ^ 32"
proof -
  have "List.hd (dec n) \<noteq> CHR ''-''"
  proof (cases "n = 0")
    case False
    then obtain c r where "dec n = c # r" "isdigit c" using dec_head by blast
    then show ?thesis by (auto simp: isdigit_def digit_def)
  qed (simp add: dec_zero)
  then show ?thesis using strtoul_dec [OF assms] by (simp add: ttl_max_age_def to_unsigned_def)
qed

lemma max_age_octal: "ttl_max_age ''0100'' = 64"
  by (simp add: ttl_max_age_def to_unsigned_def strtoul_def strtoul_sign_def strtoul_base_def isspace_def digit_value_def)

lemma ttl_expires_undefined:
  assumes "hdr_date ''Expires'' hp \<noteq> 0" "hdr_date ''Date'' hp \<noteq> 0" "\<not> \<bar>of_int (hdr_date ''Date'' hp) - entered\<bar> < of_nat (clock_skew prm)"
    "2 ^ 31 \<le> hdr_date ''Expires'' hp - hdr_date ''Date'' hp" "cc_max_age hp = None" "http_full hp" "entered \<noteq> 0" "code \<in> set ttl_codes"
  shows "RFC2616_Ttl prm entered code hp age0 = None"
  using assms RFC2616_Ttl_eq [OF assms(6-8), of prm age0] to_int_out [OF assms(4)] by (simp add: ttl_expires_def)

subsection \<open>The body of a response\<close>

definition no_body :: "string \<Rightarrow> http \<Rightarrow> bool" where
  "no_body req hp \<longleftrightarrow> strcaseeq req ''head'' \<or> h_status hp \<le> 199 \<or> h_status hp = 204 \<or> h_status hp = 304"

definition hdr_is :: "string \<Rightarrow> http \<Rightarrow> string \<Rightarrow> bool" where
  "hdr_is name hp v \<longleftrightarrow> (case hval name hp of None \<Rightarrow> False | Some p \<Rightarrow> strcaseeq p v)"

lemma HdrIs_values:
  assumes "http_full hp"
  shows "http_HdrIs hp H_Connection v = Some (hdr_is ''Connection'' hp v)" "http_HdrIs hp H_Transfer_Encoding v = Some (hdr_is ''Transfer-Encoding'' hp v)"
  using GetHdr_values [OF assms] by (simp_all add: http_HdrIs_def hdr_is_def split: option.splits)

text \<open>
  C35: a response has no body exactly when the request was a \<open>HEAD\<close> or its status is 1xx, 204 or 304;
  otherwise \<open>Transfer-Encoding\<close> decides, chunked or an error, whatever \<open>Content-Length\<close> says, then \<open>Content-Length\<close>; without
  either the body is empty for \<open>keep-alive\<close> and else lasts until the connection is closed. The connection is marked for closing
  for \<open>close\<close>, and before HTTP/1.1 unless \<open>keep-alive\<close> is given.
\<close>

theorem RFC2616_Body_correct:
  assumes "http_full hp" "http_GetReq bereq = Some req"
  shows "\<exists>bs dc len. RFC2616_Body bereq hp = Some (bs, dc, len) \<and>
    (bs = BS_NONE \<longleftrightarrow> no_body req hp) \<and>
    (bs = BS_CHUNKED \<longleftrightarrow> \<not> no_body req hp \<and> hdr_is ''Transfer-Encoding'' hp ''chunked'') \<and>
    (bs = BS_ERROR \<longleftrightarrow> \<not> no_body req hp \<and> hval ''Transfer-Encoding'' hp \<noteq> None \<and> \<not> hdr_is ''Transfer-Encoding'' hp ''chunked'') \<and>
    (bs = BS_LENGTH \<longleftrightarrow> \<not> no_body req hp \<and> hval ''Transfer-Encoding'' hp = None \<and> hval ''Content-Length'' hp \<noteq> None) \<and>
    (bs = BS_ZERO \<longleftrightarrow> \<not> no_body req hp \<and> hval ''Transfer-Encoding'' hp = None \<and> hval ''Content-Length'' hp = None \<and> hdr_is ''Connection'' hp ''keep-alive'') \<and>
    len = (if bs = BS_LENGTH then hval ''Content-Length'' hp else None) \<and>
    (dc \<longleftrightarrow> h_protover hp < 11 \<and> \<not> hdr_is ''Connection'' hp ''keep-alive'' \<or> hdr_is ''Connection'' hp ''close'')"
proof -
  have te: "hdr_is ''Transfer-Encoding'' hp v \<Longrightarrow> \<exists>p. hval ''Transfer-Encoding'' hp = Some p" for v by (auto simp: hdr_is_def split: option.splits)
  have "RFC2616_Body bereq hp = (let dc = (if h_protover hp < 11 \<and> \<not> hdr_is ''Connection'' hp ''keep-alive'' then True else hdr_is ''Connection'' hp ''close'') in
     if no_body req hp then Some (BS_NONE, dc, None)
     else if hdr_is ''Transfer-Encoding'' hp ''chunked'' then Some (BS_CHUNKED, dc, None)
     else if hval ''Transfer-Encoding'' hp \<noteq> None then Some (BS_ERROR, dc, None)
     else if hval ''Content-Length'' hp \<noteq> None then Some (BS_LENGTH, dc, hval ''Content-Length'' hp)
     else if hdr_is ''Connection'' hp ''keep-alive'' then Some (BS_ZERO, dc, None)
     else Some (BS_EOF, dc, None))"
    using assms(2) GetHdr_values [OF assms(1)] HdrIs_values [OF assms(1)] by (simp add: RFC2616_Body_def no_body_def Let_def)
  then show ?thesis using te
    by (cases "no_body req hp"; cases "hdr_is ''Transfer-Encoding'' hp ''chunked''"; cases "hval ''Transfer-Encoding'' hp"; cases "hval ''Content-Length'' hp";
        cases "hdr_is ''Connection'' hp ''keep-alive''") (auto simp: Let_def)
qed

subsection \<open>The weight of gzip\<close>

text \<open>The digits of a weight, its integer part and its fraction.\<close>

definition q_digits :: "string \<Rightarrow> string" where
  "q_digits h = takeWhile vct_isdigit h @ (case dropWhile vct_isdigit h of c # r \<Rightarrow> if c = CHR ''.'' then takeWhile vct_isdigit r else [] | [] \<Rightarrow> [])"

lemma vct_isdigit_digit: "vct_isdigit c \<longleftrightarrow> isdigit c"
  using vct_classes by (auto simp: isdigit_def digit_def)

lemma digit_zero: "digit c = 0 \<longleftrightarrow> c = CHR ''0''"
proof
  assume "digit c = 0"
  then have "(of_char c :: nat) = of_char (CHR ''0'')" by (simp add: digit_def)
  then show "c = CHR ''0''" by (metis char_of_char)
qed (simp add: digit_def)

text \<open>The character \<open>c\<close> makes a weight positive.\<close>

abbreviation nonzero :: "string \<Rightarrow> bool" where
  "nonzero h \<equiv> list_ex (\<lambda>c. c \<noteq> CHR ''0'') h"

lemma digit_pos: "vct_isdigit c \<Longrightarrow> 0 \<le> (of_int (digit c) :: rat) \<and> ((of_int (digit c) :: rat) = 0 \<longleftrightarrow> c = CHR ''0'')"
  using digit_zero [of c] by (simp add: vct_isdigit_digit isdigit_def)

lemma q_int_spec:
  assumes "0 \<le> a"
  shows "\<exists>b. q_int a h = (b, dropWhile vct_isdigit h) \<and> 0 \<le> b \<and> (0 < b \<longleftrightarrow> 0 < a \<or> nonzero (takeWhile vct_isdigit h))"
  using assms
proof (induction h arbitrary: a)
  case (Cons c h)
  show ?case
  proof (cases "vct_isdigit c")
    case True
    have d: "0 \<le> (of_int (digit c) :: rat)" "(of_int (digit c) :: rat) = 0 \<longleftrightarrow> c = CHR ''0''" using digit_pos [OF True] by simp_all
    have "0 \<le> a * 10 + of_int (digit c)" using Cons.prems d(1) by simp
    then obtain b where b: "q_int (a * 10 + of_int (digit c)) h = (b, dropWhile vct_isdigit h)" "0 \<le> b"
        "0 < b \<longleftrightarrow> 0 < a * 10 + of_int (digit c) \<or> nonzero (takeWhile vct_isdigit h)" using Cons.IH by blast
    have "0 < a * 10 + of_int (digit c) \<longleftrightarrow> 0 < a \<or> c \<noteq> CHR ''0''" using Cons.prems d
      by (metis add.right_neutral add_nonneg_pos add_pos_nonneg less_le mult_nonneg_nonneg mult_pos_pos mult_zero_left zero_le_numeral zero_less_numeral)
    then show ?thesis using True b by auto
  qed (use Cons.prems in auto)
qed auto

lemma q_frac_spec:
  assumes "0 \<le> a" "0 < b"
  shows "0 < q_frac a b h \<longleftrightarrow> 0 < a \<or> nonzero (takeWhile vct_isdigit h)"
  using assms
proof (induction h arbitrary: a b)
  case (Cons c h)
  show ?case
  proof (cases "vct_isdigit c")
    case True
    have d: "0 \<le> (of_int (digit c) :: rat)" "(of_int (digit c) :: rat) = 0 \<longleftrightarrow> c = CHR ''0''" using digit_pos [OF True] by simp_all
    have m: "0 \<le> b * of_int (digit c)" using Cons.prems d(1) by simp
    have "0 < a + b * of_int (digit c) \<longleftrightarrow> 0 < a \<or> c \<noteq> CHR ''0''"
    proof (cases "c = CHR ''0''")
      case True
      then have "(of_int (digit c) :: rat) = 0" using d(2) by blast
      then show ?thesis using True by simp
    next
      case False
      then have "0 < b * of_int (digit c)" using d Cons.prems(2) by (metis less_le mult_pos_pos)
      then show ?thesis using False Cons.prems(1) by (simp add: add_nonneg_pos)
    qed
    then show ?thesis using True m Cons.prems Cons.IH [of "a + b * of_int (digit c)" "b / 10"] by auto
  qed auto
qed auto

lemma q_number_pos: "0 < q_number h \<longleftrightarrow> nonzero (q_digits h)"
proof -
  obtain b where b: "q_int 0 h = (b, dropWhile vct_isdigit h)" "0 \<le> b" "0 < b \<longleftrightarrow> nonzero (takeWhile vct_isdigit h)"
    using q_int_spec [of 0 h] by auto
  then show ?thesis using q_frac_spec [OF b(2), of "1 / 10"]
    by (cases "dropWhile vct_isdigit h") (auto simp: q_number_def q_digits_def simp del: dropWhile_eq_Nil_conv)
qed

text \<open>
  A client takes gzip exactly when its \<open>Accept-Encoding\<close> lists \<open>x-gzip\<close>, or lists \<open>gzip\<close>
  without a weight or with a weight that has a digit other than 0.
\<close>

theorem RFC2616_Req_Gzip_correct:
  assumes "http_full hp"
  shows "RFC2616_Req_Gzip hp = Some (\<exists>v. hval ''Accept-Encoding'' hp = Some v \<and>
    (hdrdata_loop ''x-gzip'' v \<noteq> None \<or>
     (\<exists>h. hdrdata_loop ''gzip'' v = Some h \<and> (case q_text h of None \<Rightarrow> True | Some n \<Rightarrow> nonzero (q_digits n)))))"
proof (cases "hval ''Accept-Encoding'' hp")
  case None
  then show ?thesis using GetHdr_values(8) [OF assms] by (simp add: RFC2616_Req_Gzip_def http_GetHdrQ_def http_GetHdrData_def)
next
  case (Some v)
  then show ?thesis using GetHdr_values(8) [OF assms] q_number_pos
    by (cases "hdrdata_loop ''x-gzip'' v"; cases "hdrdata_loop ''gzip'' v")
      (auto simp: RFC2616_Req_Gzip_def http_GetHdrQ_def http_GetHdrData_def split: option.splits)
qed

subsection \<open>Conditional requests\<close>

text \<open>
  C36: a request is answered with 304 exactly when it has a condition and every condition that
  can be judged holds: an \<open>If-Modified-Since\<close> that is not in the future and not before the last modification, which must
  be known, and an \<open>If-None-Match\<close> that is the \<open>ETag\<close> of the object, if it has one.
\<close>

theorem RFC2616_Do_Cond_correct:
  assumes "http_full hp" "http_full ohp"
  shows "RFC2616_Do_Cond hp ohp lm t_req = Some (
    (case hval ''If-Modified-Since'' hp of None \<Rightarrow> True | Some p \<Rightarrow> lm \<noteq> 0 \<and> of_int (TIM_parse p) \<le> t_req \<and> lm \<le> of_int (TIM_parse p)) \<and>
    (case (hval ''If-None-Match'' hp, hval ''ETag'' ohp) of (Some p, Some e) \<Rightarrow> p = e | _ \<Rightarrow> hval ''If-Modified-Since'' hp \<noteq> None))"
  using GetHdr_values(9,10) [OF assms(1)] GetHdr_values(11) [OF assms(2)]
  by (auto simp: RFC2616_Do_Cond_def Let_def split: option.splits)

subsection \<open>Examples\<close>

definition rfc_ex :: http where
  "rfc_ex = \<lparr>h_logtag = HTTP_Rx, h_hd = [no_txt, no_txt, lit ''HTTP/1.1'', lit ''200'', lit ''OK'', lit ''Cache-Control: max-age=120'', lit ''Age: 20'',
     lit ''Transfer-Encoding: chunked'', lit ''Content-Length: 3'', lit ''Accept-Encoding: gzip;q=0.5'', lit ''ETag: a''], h_hdf = replicate 11 0, h_nhd = 11,
     h_status = 200, h_protover = 11, h_conds = 0\<rparr>"

lemma rfc_ex_full: "http_full rfc_ex"
  by (simp add: rfc_ex_def http_full_def http_ok_def h_slots_def http_hdr_defs lit_def)

lemma rfc_ex_values:
  "hval ''Expires'' rfc_ex = None" "hval ''Date'' rfc_ex = None" "hval ''Accept-Encoding'' rfc_ex = Some ''gzip;q=0.5''" "hval ''If-Modified-Since'' rfc_ex = None"
  "hval ''If-None-Match'' rfc_ex = None" "hval ''Transfer-Encoding'' rfc_ex = Some ''chunked''"
  by code_simp+

lemma rfc_ex_age: "cc_max_age rfc_ex = Some 120" "hdr_age rfc_ex = 20"
  by code_simp+

theorem RFC2616_Ttl_fresh_witness:
  "map_option fst (RFC2616_Ttl \<lparr>default_ttl = 60, clock_skew = 10\<rparr> 784111777 200 rfc_ex 0) = Some 100"
  using RFC2616_Ttl_fresh [OF rfc_ex_full, of 784111777 200 "\<lparr>default_ttl = 60, clock_skew = 10\<rparr>" 0]
  by (simp add: rfc_ex_age hdr_date_def rfc_ex_values ttl_codes_def)

theorem RFC2616_Body_correct_witness:
  "\<exists>dc. RFC2616_Body http_ex rfc_ex = Some (BS_CHUNKED, dc, None)"
proof -
  have "http_GetReq http_ex = Some ''GET''" by code_simp
  moreover have "\<not> no_body ''GET'' rfc_ex" by (simp add: no_body_def rfc_ex_def strcaseeq_def tolower_def)
  moreover have "hdr_is ''Transfer-Encoding'' rfc_ex ''chunked''" by (simp add: hdr_is_def rfc_ex_values)
  ultimately show ?thesis using RFC2616_Body_correct [OF rfc_ex_full] by fastforce
qed

theorem RFC2616_Req_Gzip_correct_witness: "RFC2616_Req_Gzip rfc_ex = Some True"
proof -
  have "hdrdata_loop ''gzip'' ''gzip;q=0.5'' = Some '';q=0.5''" "q_text '';q=0.5'' = Some ''0.5''" "nonzero (q_digits ''0.5'')" by code_simp+
  then show ?thesis using RFC2616_Req_Gzip_correct [OF rfc_ex_full] by (simp add: rfc_ex_values)
qed

theorem RFC2616_Do_Cond_correct_witness: "RFC2616_Do_Cond rfc_ex rfc_ex 1 2 = Some False"
  using RFC2616_Do_Cond_correct [OF rfc_ex_full rfc_ex_full, of 1 2] by (simp add: rfc_ex_values)

end
