(* ===== verification/Request_Machine.thy ===== *)
theory Request_Machine
  imports Complex_Main Varnish_Prelude
begin

text \<open>
  The request state machine, \<^verbatim>\<open>bin/varnishd/cache_center.c\<close>: one function for each step of \<^verbatim>\<open>steps.h\<close> and the
  dispatcher. The state has what the steps test and set: the fields of the session, of its worker, and of the object and
  object core the session holds.

  What the world decides during a step is the record \<open>cnt_env\<close>, an argument of the step: what the client and the backend
  send, whether storage can be had, what the cache holds (\<^verbatim>\<open>Object_Life\<close> shows what a lookup can return), and what the
  VCL program of the user says. A pointer that the steps only compare with \<open>NULL\<close> is a \<open>bool\<close>. Every assertion of the
  steps, and of the functions they call on the fields above, is in the model, and \<open>None\<close> is its failure, as it is for
  \<open>INCOMPL\<close> and \<open>WRONG\<close>.
\<close>

subsection \<open>State\<close>

datatype cnt_step = STP_WAIT | STP_FIRST | STP_RECV | STP_START | STP_PIPE | STP_PASS | STP_LOOKUP | STP_MISS | STP_HIT | STP_FETCH
  | STP_FETCHBODY | STP_STREAMBODY | STP_PREPRESP | STP_DELIVER | STP_ERROR | STP_DONE

datatype vcl_ret = VCL_RET_DELIVER | VCL_RET_ERROR | VCL_RET_FETCH | VCL_RET_HASH | VCL_RET_HIT_FOR_PASS | VCL_RET_LOOKUP
  | VCL_RET_PASS | VCL_RET_PIPE | VCL_RET_RESTART

datatype vfp = vfp_nop | vfp_esi | vfp_gunzip | vfp_gzip | vfp_testgzip

definition RES_LEN :: u32 where "RES_LEN = push_bit 1 1"
definition RES_EOF :: u32 where "RES_EOF = push_bit 2 1"
definition RES_CHUNKED :: u32 where "RES_CHUNKED = push_bit 3 1"
definition RES_ESI :: u32 where "RES_ESI = push_bit 4 1"
definition RES_ESI_CHILD :: u32 where "RES_ESI_CHILD = push_bit 5 1"
definition RES_GUNZIP :: u32 where "RES_GUNZIP = push_bit 6 1"

record ccore =
  cc_busy :: bool
  cc_pass :: bool

record cobj =
  co_core :: "ccore option"
  co_esidata :: bool
  co_gziped :: bool
  co_len :: nat
  co_response :: nat

record csess =
  s_step :: cnt_step
  s_wrk :: bool
  s_fd :: bool
  s_xid :: u32
  s_restarts :: nat
  s_esi_level :: nat
  s_vcl :: bool
  s_director :: bool
  s_obj :: "cobj option"
  s_objcore :: "ccore option"
  s_vbc :: bool
  s_handling :: vcl_ret
  s_err_code :: nat
  s_doclose :: "string option"
  s_wantbody :: bool
  s_sendbody :: bool
  s_disable_esi :: bool
  s_hash_objhead :: bool
  s_vary_b :: bool
  s_ws_r :: bool
  s_protover :: nat
  w_vcl :: bool
  w_do_esi :: bool
  w_do_gzip :: bool
  w_do_gunzip :: bool
  w_do_stream :: bool
  w_is_gzip :: bool
  w_is_gunzip :: bool
  w_do_close :: bool
  w_h_content_length :: bool
  w_storage_hint :: "string option"
  w_vfp :: "vfp option"
  w_sctx :: bool
  w_nbusyobj :: bool
  w_bereq_ws :: bool
  w_beresp_ws :: bool
  w_resp_ws :: bool
  w_res_mode :: u32
  w_exp_ttl :: rat
  w_acct_tmp :: bool

record cnt_params =
  max_restarts :: nat
  session_linger :: nat
  http_gzip_support :: bool
  shortlived :: rat

subsection \<open>The world\<close>

text \<open>
  What a VCL method returns and sets. Only \<open>vcl_fetch\<close> can set the fields on the handling of the body, the ttl and the
  storage.
\<close>

record vcl_out =
  v_handling :: vcl_ret
  v_err_code :: "nat option"
  v_disable_esi :: bool
  v_do_esi :: bool
  v_do_gzip :: bool
  v_do_gunzip :: bool
  v_do_stream :: bool
  v_ttl :: rat
  v_storage_hint :: "string option"

datatype lookup_result = Lookup_Wait | Lookup_New | Lookup_Found cobj

record cnt_env =
  e_complete :: int
  e_polled :: bool
  e_rx :: int
  e_eof :: bool
  e_new_xid :: u32
  e_dissect :: nat
  e_protover :: nat
  e_connection :: "string option"
  e_expect :: "bool option"
  e_head :: bool
  e_vcl :: vcl_out
  e_hash_ret :: vcl_ret
  e_lookup :: lookup_result
  e_fetchhdr :: int
  e_fetchhdr2 :: int
  e_status :: nat
  e_content_length :: bool
  e_do_close :: bool
  e_gzip_hdr :: bool
  e_encoding_hdr :: bool
  e_fetch_close :: bool
  e_newobj :: bool
  e_newobj2 :: bool
  e_not_modified :: bool
  e_fetchbody_fails :: bool
  e_obj_len :: nat
  e_esidata :: bool
  e_client_gzip :: bool
  e_pipe_fd :: bool
  e_write_fails :: bool
  e_reinit :: int
  e_rxbuf :: bool

subsection \<open>Functions the steps call\<close>

definition vca_close_session :: "csess \<Rightarrow> csess" where
  "vca_close_session s = s\<lparr>s_fd := False\<rparr>"

definition vca_return_session :: "csess \<Rightarrow> csess option" where
  "vca_return_session s = do { assert_c (s_obj s = None); assert_c (\<not> s_vcl s); assert_c (s_fd s); Some s }"

definition SES_Charge :: "csess \<Rightarrow> csess" where
  "SES_Charge s = s\<lparr>w_acct_tmp := False\<rparr>"

definition AssertObjCorePassOrBusy :: "ccore option \<Rightarrow> unit option" where
  "AssertObjCorePassOrBusy oc = (case oc of None \<Rightarrow> Some () | Some c \<Rightarrow> assert_c (cc_busy c))"

definition VDI_CloseFd :: "csess \<Rightarrow> csess option" where
  "VDI_CloseFd s = do { assert_c (s_vbc s); Some (s\<lparr>s_vbc := False, w_do_close := False\<rparr>) }"

definition VDI_RecycleFd :: "csess \<Rightarrow> csess option" where
  "VDI_RecycleFd s = do { assert_c (s_vbc s); assert_c (\<not> w_do_close s); Some (s\<lparr>s_vbc := False\<rparr>) }"

text \<open>The parts of \<^verbatim>\<open>cache_hash.c\<close> that show in these fields: the spare busy object of the worker.\<close>

definition HSH_Prealloc_s :: "csess \<Rightarrow> csess" where
  "HSH_Prealloc_s s = s\<lparr>w_nbusyobj := True\<rparr>"

definition deref_core :: "ccore option \<Rightarrow> csess \<Rightarrow> csess" where
  "deref_core c s = (case c of None \<Rightarrow> s | Some c \<Rightarrow> if cc_busy c then s\<lparr>w_nbusyobj := True\<rparr> else s)"

definition HSH_Deref_obj :: "csess \<Rightarrow> csess option" where
  "HSH_Deref_obj s = do { ob \<leftarrow> s_obj s; Some (deref_core (co_core ob) (s\<lparr>s_obj := None\<rparr>)) }"

definition HSH_Deref_core :: "csess \<Rightarrow> csess option" where
  "HSH_Deref_core s = do { c \<leftarrow> s_objcore s; Some (deref_core (Some c) (s\<lparr>s_objcore := None\<rparr>)) }"

definition HSH_Unbusy_s :: "csess \<Rightarrow> csess option" where
  "HSH_Unbusy_s s = do {
     ob \<leftarrow> s_obj s;
     c \<leftarrow> co_core ob;
     assert_c (cc_busy c);
     assert_c (\<not> w_nbusyobj s);
     Some (s\<lparr>s_obj := Some (ob\<lparr>co_core := Some (c\<lparr>cc_busy := False\<rparr>)\<rparr>), w_nbusyobj := True\<rparr>)
   }"

definition HSH_Drop_s :: "csess \<Rightarrow> csess option" where
  "HSH_Drop_s s = do {
     ob \<leftarrow> s_obj s;
     AssertObjCorePassOrBusy (co_core ob);
     s \<leftarrow> (if co_core ob \<noteq> None then HSH_Unbusy_s s else Some s);
     HSH_Deref_obj s
   }"

text \<open>A new object takes over the object core of the session.\<close>

definition STV_NewObject_s :: "bool \<Rightarrow> csess \<Rightarrow> csess" where
  "STV_NewObject_s ok s = (if ok then s\<lparr>s_obj := Some \<lparr>co_core = s_objcore s, co_esidata = False, co_gziped = False, co_len = 0, co_response = 0\<rparr>, s_objcore := None\<rparr>
     else s)"

definition FetchHdr :: "int \<Rightarrow> csess \<Rightarrow> csess option" where
  "FetchHdr i s = do {
     assert_c (s_director s);
     assert_c (s_obj s = None);
     (case s_objcore s of None \<Rightarrow> Some () | Some c \<Rightarrow> assert_c (cc_busy c));
     Some (s\<lparr>s_vbc := (i = 0)\<rparr>)
   }"

definition RFC2616_Body_s :: "cnt_env \<Rightarrow> csess \<Rightarrow> csess" where
  "RFC2616_Body_s e s = s\<lparr>w_do_close := e_do_close e, w_h_content_length := w_h_content_length s \<or> e_content_length e\<rparr>"

definition FetchBody :: "cnt_env \<Rightarrow> csess \<Rightarrow> (bool \<times> csess) option" where
  "FetchBody e s = do {
     ob \<leftarrow> s_obj s;
     let s = (if w_vfp s = None then s\<lparr>w_vfp := Some vfp_nop\<rparr> else s);
     assert_c (s_director s);
     AssertObjCorePassOrBusy (co_core ob);
     assert_c (s_vbc s);
     (if e_fetchbody_fails e then do { s \<leftarrow> VDI_CloseFd s; Some (True, s) }
      else do {
        let s = s\<lparr>s_obj := Some (ob\<lparr>co_len := e_obj_len e, co_esidata := e_esidata e \<and> w_vfp s = Some vfp_esi\<rparr>)\<rparr>;
        s \<leftarrow> (if w_do_close s \<or> e_fetch_close e then VDI_CloseFd s else VDI_RecycleFd s);
        Some (False, s)
      })
   }"

definition zap_flags :: "csess \<Rightarrow> csess" where
  "zap_flags s = s\<lparr>w_do_esi := False, w_is_gzip := False, w_is_gunzip := False, w_do_gzip := False, w_do_gunzip := False, w_do_stream := False\<rparr>"

subsection \<open>The steps\<close>

text \<open>Each returns whether the worker is done with the session, and the state.\<close>

text \<open>What each method may return; the call of the method asserts it. The method of \<open>STP_PREPRESP\<close> is \<^verbatim>\<open>vcl_deliver\<close>.\<close>

definition VCL_returns :: "cnt_step \<Rightarrow> vcl_ret list" where
  "VCL_returns st = (case st of
     STP_RECV \<Rightarrow> [VCL_RET_ERROR, VCL_RET_PASS, VCL_RET_PIPE, VCL_RET_LOOKUP]
   | STP_PIPE \<Rightarrow> [VCL_RET_ERROR, VCL_RET_PIPE]
   | STP_PASS \<Rightarrow> [VCL_RET_ERROR, VCL_RET_RESTART, VCL_RET_PASS]
   | STP_MISS \<Rightarrow> [VCL_RET_ERROR, VCL_RET_RESTART, VCL_RET_PASS, VCL_RET_FETCH]
   | STP_HIT \<Rightarrow> [VCL_RET_ERROR, VCL_RET_RESTART, VCL_RET_PASS, VCL_RET_DELIVER]
   | STP_FETCH \<Rightarrow> [VCL_RET_ERROR, VCL_RET_RESTART, VCL_RET_HIT_FOR_PASS, VCL_RET_DELIVER]
   | STP_PREPRESP \<Rightarrow> [VCL_RET_RESTART, VCL_RET_DELIVER]
   | STP_ERROR \<Rightarrow> [VCL_RET_RESTART, VCL_RET_DELIVER]
   | _ \<Rightarrow> [])"

definition VCL_method :: "cnt_env \<Rightarrow> csess \<Rightarrow> csess" where
  "VCL_method e s = s\<lparr>s_handling := v_handling (e_vcl e), s_err_code := (case v_err_code (e_vcl e) of Some c \<Rightarrow> c | None \<Rightarrow> s_err_code s)\<rparr>"

definition VCL_fetch_method :: "cnt_env \<Rightarrow> csess \<Rightarrow> csess" where
  "VCL_fetch_method e s = (VCL_method e s)\<lparr>w_do_esi := v_do_esi (e_vcl e), w_do_gzip := v_do_gzip (e_vcl e), w_do_gunzip := v_do_gunzip (e_vcl e),
     w_do_stream := v_do_stream (e_vcl e), w_exp_ttl := v_ttl (e_vcl e), w_storage_hint := v_storage_hint (e_vcl e)\<rparr>"

definition cnt_wait :: "cnt_params \<Rightarrow> cnt_env \<Rightarrow> csess \<Rightarrow> (bool \<times> csess) option" where
  "cnt_wait p e s = do {
     assert_c (\<not> s_vcl s);
     assert_c (s_obj s = None);
     assert_c (s_xid s = 0);
     let i = (if e_complete e = 0 \<and> session_linger p > 0 then (if e_polled e then e_rx e else 0) else e_complete e);
     (if i = 0 then do { s \<leftarrow> vca_return_session (SES_Charge s); Some (True, s\<lparr>s_wrk := False\<rparr>) }
      else if i = 1 then Some (False, s\<lparr>s_step := STP_START\<rparr>)
      else if i = -2 then Some (False, vca_close_session s)
      else Some (False, (vca_close_session s)\<lparr>s_step := STP_DONE\<rparr>))
   }"

definition res_mode_of :: "cnt_params \<Rightarrow> cnt_env \<Rightarrow> cobj \<Rightarrow> csess \<Rightarrow> u32 \<times> string option" where
  "res_mode_of p e ob s =
     (let m = 0;
          m = (if (w_h_content_length s \<or> \<not> w_do_stream s) \<and> \<not> w_do_gzip s \<and> \<not> w_do_gunzip s then m OR RES_LEN else m);
          m = (if \<not> s_disable_esi s \<and> co_esidata ob then (m AND NOT RES_LEN) OR RES_ESI else m);
          m = (if s_esi_level s > 0 then (m AND NOT RES_LEN) OR RES_ESI_CHILD else m);
          m = (if http_gzip_support p \<and> co_gziped ob \<and> \<not> e_client_gzip e then (m AND NOT RES_LEN) OR RES_GUNZIP else m)
      in if m AND (RES_LEN OR RES_CHUNKED OR RES_EOF) = 0
         then (if co_len ob = 0 \<and> \<not> w_do_stream s then (m OR RES_LEN, s_doclose s)
               else if \<not> s_wantbody s then (m, s_doclose s)
               else if s_protover s \<ge> 11 then (m OR RES_CHUNKED, s_doclose s)
               else (m OR RES_EOF, Some ''EOF mode''))
         else (m, s_doclose s))"

definition prep_restart :: "csess \<Rightarrow> (bool \<times> csess) option" where
  "prep_restart s = do {
     s \<leftarrow> (if w_do_stream s then do { s \<leftarrow> VDI_CloseFd s; HSH_Drop_s s } else HSH_Deref_obj s);
     assert_c (s_obj s = None);
     Some (False, s\<lparr>s_restarts := s_restarts s + 1, s_director := False, w_h_content_length := False, w_bereq_ws := False,
       w_beresp_ws := False, w_resp_ws := False, s_step := STP_RECV\<rparr>)
   }"

definition cnt_prepresp :: "cnt_params \<Rightarrow> cnt_env \<Rightarrow> csess \<Rightarrow> (bool \<times> csess) option" where
  "cnt_prepresp p e s = do {
     ob \<leftarrow> s_obj s;
     assert_c (s_vcl s);
     (if w_do_stream s then AssertObjCorePassOrBusy (co_core ob) else Some ());
     let (m, dc) = res_mode_of p e ob s;
     assert_c (v_handling (e_vcl e) \<in> set (VCL_returns STP_PREPRESP));
     let s = VCL_method e (s\<lparr>w_res_mode := m, s_doclose := dc, w_resp_ws := True\<rparr>);
     (if s_handling s = VCL_RET_RESTART \<and> s_restarts s < max_restarts p then prep_restart s
      else do {
        assert_c (s_handling s = VCL_RET_DELIVER \<or> s_handling s = VCL_RET_RESTART);
        (if w_do_stream s then do { AssertObjCorePassOrBusy (co_core ob); Some (False, s\<lparr>s_step := STP_STREAMBODY\<rparr>) }
         else Some (False, s\<lparr>s_step := STP_DELIVER\<rparr>))
      })
   }"

text \<open>A write that fails closes the connection. Included ESI fragments run in sessions of their own, from \<open>STP_RECV\<close>.\<close>

definition cnt_deliver :: "cnt_env \<Rightarrow> csess \<Rightarrow> (bool \<times> csess) option" where
  "cnt_deliver e s = do {
     let s = s\<lparr>s_director := False, s_restarts := 0\<rparr>;
     let s = (if e_write_fails e then vca_close_session s else s);
     s \<leftarrow> HSH_Deref_obj s;
     Some (False, s\<lparr>w_resp_ws := False, s_step := STP_DONE\<rparr>)
   }"

definition cnt_done :: "cnt_params \<Rightarrow> cnt_env \<Rightarrow> csess \<Rightarrow> (bool \<times> csess) option" where
  "cnt_done p e s = do {
     assert_c (s_obj s = None);
     assert_c (\<not> s_vbc s);
     let s = zap_flags (s\<lparr>s_director := False, s_restarts := 0\<rparr>);
     let s = (if s_vcl s \<and> s_esi_level s = 0 then s\<lparr>w_vcl := True, s_vcl := False\<rparr> else s);
     let s = (SES_Charge s)\<lparr>s_xid := 0\<rparr>;
     (if s_esi_level s > 0 then Some (True, s)
      else do {
        let s = (if s_fd s \<and> s_doclose s \<noteq> None then vca_close_session s else s);
        (if \<not> s_fd s then Some (True, s\<lparr>s_wrk := False\<rparr>)
         else if e_reinit e = 1 then Some (False, s\<lparr>s_step := STP_START\<rparr>)
         else if e_rxbuf e then Some (False, s\<lparr>s_step := STP_WAIT\<rparr>)
         else if session_linger p > 0 then Some (False, s\<lparr>s_step := STP_WAIT\<rparr>)
         else do { s \<leftarrow> vca_return_session s; Some (True, s\<lparr>s_wrk := False\<rparr>) })
      })
   }"

definition error_object :: "cnt_env \<Rightarrow> csess \<Rightarrow> csess" where
  "error_object e s =
     (if s_obj s = None
      then (let s = STV_NewObject_s (e_newobj e) ((HSH_Prealloc_s s)\<lparr>w_exp_ttl := -1\<rparr>) in if s_obj s = None then STV_NewObject_s (e_newobj2 e) s else s)
      else s)"

definition cnt_error :: "cnt_params \<Rightarrow> cnt_env \<Rightarrow> csess \<Rightarrow> (bool \<times> csess) option" where
  "cnt_error p e s = do {
     let s = zap_flags s;
     let s = error_object e s;
     (if s_obj s = None
      then Some (False, s\<lparr>s_doclose := Some ''Out of objects'', s_director := False, w_h_content_length := False, w_beresp_ws := False, w_bereq_ws := False,
        s_step := STP_DONE\<rparr>)
      else do {
        let s = (if s_err_code s < 100 \<or> s_err_code s > 999 then s\<lparr>s_err_code := 501\<rparr> else s);
        assert_c (v_handling (e_vcl e) \<in> set (VCL_returns STP_ERROR));
        let s = VCL_method e s;
        (if s_handling s = VCL_RET_RESTART \<and> s_restarts s < max_restarts p
         then do { s \<leftarrow> HSH_Drop_s s; Some (False, s\<lparr>s_director := False, s_restarts := s_restarts s + 1, s_step := STP_RECV\<rparr>) }
         else do {
           let s = (if s_handling s = VCL_RET_RESTART then s\<lparr>s_handling := VCL_RET_DELIVER\<rparr> else s);
           assert_c (s_handling s = VCL_RET_DELIVER);
           Some (False, s\<lparr>s_doclose := Some ''error'', s_wantbody := True, s_err_code := 0, w_bereq_ws := False, s_step := STP_PREPRESP\<rparr>)
         })
      })
   }"

definition fetch_cleanup :: "csess \<Rightarrow> (bool \<times> csess) option" where
  "fetch_cleanup s = do {
     assert_c (\<not> s_vbc s);
     s \<leftarrow> (if s_objcore s \<noteq> None then HSH_Deref_core s else Some s);
     let s = s\<lparr>w_bereq_ws := False, w_beresp_ws := False, w_h_content_length := False, s_director := False, w_storage_hint := None\<rparr>;
     (case s_handling s of
        VCL_RET_RESTART \<Rightarrow> Some (False, s\<lparr>s_restarts := s_restarts s + 1, s_step := STP_RECV\<rparr>)
      | VCL_RET_ERROR \<Rightarrow> Some (False, s\<lparr>s_step := STP_ERROR\<rparr>)
      | _ \<Rightarrow> None)
   }"

text \<open>The part of \<open>cnt_fetch\<close> for a backend that has answered.\<close>

definition fetch_answer :: "cnt_env \<Rightarrow> csess \<Rightarrow> (bool \<times> csess) option" where
  "fetch_answer e s = do {
     let s = (RFC2616_Body_s e s)\<lparr>s_err_code := e_status e\<rparr>;
     assert_c (\<not> w_do_esi s);
     assert_c (v_handling (e_vcl e) \<in> set (VCL_returns STP_FETCH));
     let s = VCL_fetch_method e s;
     (case s_handling s of
        VCL_RET_HIT_FOR_PASS \<Rightarrow> Some (False, s\<lparr>s_objcore := map_option (\<lambda>c. c\<lparr>cc_pass := True\<rparr>) (s_objcore s), s_step := STP_FETCHBODY\<rparr>)
      | VCL_RET_DELIVER \<Rightarrow> do { AssertObjCorePassOrBusy (s_objcore s); Some (False, s\<lparr>s_step := STP_FETCHBODY\<rparr>) }
      | _ \<Rightarrow> do { s \<leftarrow> VDI_CloseFd s; fetch_cleanup s })
   }"

definition cnt_fetch :: "cnt_env \<Rightarrow> csess \<Rightarrow> (bool \<times> csess) option" where
  "cnt_fetch e s = do {
     assert_c (s_vcl s);
     assert_c (s_director s);
     assert_c (\<not> s_vbc s);
     assert_c (\<not> w_h_content_length s);
     assert_c (\<not> w_do_close s);
     assert_c (w_storage_hint s = None);
     s \<leftarrow> FetchHdr (e_fetchhdr e) (s\<lparr>w_beresp_ws := True\<rparr>);
     (i, s) \<leftarrow> (if e_fetchhdr e = 1 then do { s \<leftarrow> FetchHdr (e_fetchhdr2 e) s; Some (e_fetchhdr2 e, s) } else Some (e_fetchhdr e, s));
     (if i \<noteq> 0 then fetch_cleanup (s\<lparr>s_handling := VCL_RET_ERROR, s_err_code := 503\<rparr>) else fetch_answer e s)
   }"

definition body_filters :: "cnt_params \<Rightarrow> cnt_env \<Rightarrow> csess \<Rightarrow> csess option" where
  "body_filters p e s = do {
     assert_c (w_vfp s = None);
     let do_gzip = (if \<not> http_gzip_support p then False else w_do_gzip s);
     let do_gunzip = (if \<not> http_gzip_support p then False else w_do_gunzip s);
     let is_gzip = e_gzip_hdr e;
     let is_gunzip = (\<not> e_encoding_hdr e);
     assert_c (\<not> is_gzip \<or> \<not> is_gunzip);
     let do_gunzip = (if do_gunzip \<and> \<not> is_gzip then False else do_gunzip);
     let do_gzip = (if do_gzip \<and> \<not> is_gunzip then False else do_gzip);
     assert_c (\<not> do_gzip \<or> \<not> do_gunzip);
     let vfp = (if w_do_esi s then Some vfp_esi
                else if do_gunzip then Some vfp_gunzip
                else if do_gzip then Some vfp_gzip
                else if is_gzip then Some vfp_testgzip
                else w_vfp s);
     let do_stream = (if w_do_esi s \<or> s_esi_level s > 0 then False else w_do_stream s);
     let do_stream = (if \<not> s_wantbody s then False else do_stream);
     Some (s\<lparr>w_do_gzip := do_gzip, w_do_gunzip := do_gunzip, w_is_gzip := is_gzip, w_is_gunzip := is_gunzip, w_vfp := vfp, w_do_stream := do_stream\<rparr>)
   }"

text \<open>The end of a fetch that succeeded: the object core enters the expiry heap and is not busy any more.\<close>

definition fetch_publish :: "csess \<Rightarrow> csess option" where
  "fetch_publish s = do {
     ob \<leftarrow> s_obj s;
     (case co_core ob of
        None \<Rightarrow> Some s
      | Some c \<Rightarrow> do { assert_c (cc_busy c); HSH_Unbusy_s s })
   }"

definition body_object :: "cnt_params \<Rightarrow> cnt_env \<Rightarrow> csess \<Rightarrow> csess" where
  "body_object p e s =
     (let s = (if w_exp_ttl s < shortlived p \<or> s_objcore s = None then s\<lparr>w_storage_hint := Some ''Transient''\<rparr> else s);
          s = STV_NewObject_s (e_newobj e) s
      in if s_obj s = None
         then (let s = STV_NewObject_s (e_newobj2 e) s in s\<lparr>w_exp_ttl := min (w_exp_ttl s) (shortlived p)\<rparr>)
         else s)"

definition cnt_fetchbody :: "cnt_params \<Rightarrow> cnt_env \<Rightarrow> csess \<Rightarrow> (bool \<times> csess) option" where
  "cnt_fetchbody p e s = do {
     assert_c (s_handling s = VCL_RET_HIT_FOR_PASS \<or> s_handling s = VCL_RET_DELIVER);
     s \<leftarrow> body_filters p e (if s_objcore s = None then s\<lparr>w_exp_ttl := -1\<rparr> else s);
     let s = body_object p e s;
     (case s_obj s of
        None \<Rightarrow> do { s \<leftarrow> VDI_CloseFd (s\<lparr>s_err_code := 503, s_step := STP_ERROR\<rparr>); Some (False, s) }
      | Some ob \<Rightarrow> do {
          let ob = ob\<lparr>co_gziped := w_do_gzip s \<or> w_is_gzip s \<and> \<not> w_do_gunzip s, co_response := s_err_code s\<rparr>;
          let s = s\<lparr>w_storage_hint := None, s_obj := Some ob\<rparr>;
          let s = (if co_response ob = 200 \<and> e_not_modified e then s\<lparr>w_do_stream := False\<rparr> else s);
          AssertObjCorePassOrBusy (co_core ob);
          (if w_do_stream s then Some (False, s\<lparr>s_step := STP_PREPRESP\<rparr>)
           else do {
             (i, s) \<leftarrow> FetchBody e s;
             let s = s\<lparr>w_h_content_length := False, w_bereq_ws := False, w_beresp_ws := False, w_vfp := None\<rparr>;
             assert_c (\<not> s_vbc s);
             assert_c (s_director s);
             (if i then do { s \<leftarrow> HSH_Drop_s s; assert_c (s_obj s = None); Some (False, s\<lparr>s_err_code := 503, s_step := STP_ERROR\<rparr>) }
              else do { s \<leftarrow> fetch_publish s; Some (False, s\<lparr>w_acct_tmp := True, s_step := STP_PREPRESP\<rparr>) })
           })
        })
   }"

definition cnt_streambody :: "cnt_env \<Rightarrow> csess \<Rightarrow> (bool \<times> csess) option" where
  "cnt_streambody e s = do {
     assert_c (\<not> w_sctx s);
     let s = s\<lparr>w_sctx := True\<rparr>;
     assert_c (w_res_mode s AND RES_ESI_CHILD = 0);
     assert_c (s_wantbody s);
     ob \<leftarrow> s_obj s;
     AssertObjCorePassOrBusy (co_core ob);
     (i, s) \<leftarrow> FetchBody e s;
     let s = s\<lparr>w_h_content_length := False, w_bereq_ws := False, w_beresp_ws := False, w_vfp := None\<rparr>;
     assert_c (\<not> s_vbc s);
     assert_c (s_director s);
     s \<leftarrow> (if \<not> i \<and> co_core ob \<noteq> None then fetch_publish s else Some (s\<lparr>s_doclose := Some ''Stream error''\<rparr>));
     let s = s\<lparr>w_acct_tmp := True, s_director := False, s_restarts := 0, w_sctx := False\<rparr>;
     let s = (if e_write_fails e then vca_close_session s else s);
     s \<leftarrow> HSH_Deref_obj s;
     Some (False, s\<lparr>w_resp_ws := False, s_step := STP_DONE\<rparr>)
   }"

definition cnt_first :: "csess \<Rightarrow> (bool \<times> csess) option" where
  "cnt_first s = do {
     assert_c (s_xid s = 0);
     assert_c (s_restarts s = 0);
     Some (False, s\<lparr>w_acct_tmp := True, s_step := STP_WAIT\<rparr>)
   }"

definition cnt_hit :: "cnt_env \<Rightarrow> csess \<Rightarrow> (bool \<times> csess) option" where
  "cnt_hit e s = do {
     ob \<leftarrow> s_obj s;
     assert_c (s_vcl s);
     c \<leftarrow> co_core ob;
     assert_c (\<not> cc_pass c);
     assert_c (\<not> w_do_stream s);
     assert_c (v_handling (e_vcl e) \<in> set (VCL_returns STP_HIT));
     let s = VCL_method e s;
     (if s_handling s = VCL_RET_DELIVER
      then do { assert_c (\<not> w_bereq_ws s); assert_c (\<not> w_beresp_ws s); Some (False, s\<lparr>s_step := STP_PREPRESP\<rparr>) }
      else do {
        s \<leftarrow> HSH_Deref_obj s;
        let s = s\<lparr>s_objcore := None\<rparr>;
        (case s_handling s of
           VCL_RET_PASS \<Rightarrow> Some (False, s\<lparr>s_step := STP_PASS\<rparr>)
         | VCL_RET_ERROR \<Rightarrow> Some (False, s\<lparr>s_step := STP_ERROR\<rparr>)
         | VCL_RET_RESTART \<Rightarrow> Some (False, s\<lparr>s_director := False, s_restarts := s_restarts s + 1, s_step := STP_RECV\<rparr>)
         | _ \<Rightarrow> None)
      })
   }"

definition cnt_lookup :: "cnt_env \<Rightarrow> csess \<Rightarrow> (bool \<times> csess) option" where
  "cnt_lookup e s = do {
     assert_c (s_vcl s);
     s \<leftarrow> (if \<not> s_hash_objhead s then do { assert_c (\<not> s_vary_b s); assert_c (\<not> s_ws_r s); Some (s\<lparr>s_ws_r := True\<rparr>) }
           else do { assert_c (s_ws_r s); Some s });
     let s = HSH_Prealloc_s (s\<lparr>s_vary_b := True\<rparr>);
     (case e_lookup e of
        Lookup_Wait \<Rightarrow> Some (True, (SES_Charge s)\<lparr>s_hash_objhead := True, s_wrk := False\<rparr>)
      | Lookup_New \<Rightarrow>
          Some (False, s\<lparr>s_hash_objhead := False, w_nbusyobj := False, s_ws_r := False, s_vary_b := False,
            s_objcore := Some \<lparr>cc_busy = True, cc_pass = False\<rparr>, s_step := STP_MISS\<rparr>)
      | Lookup_Found ob \<Rightarrow> do {
          c \<leftarrow> co_core ob;
          assert_c (\<not> cc_busy c);
          let s = s\<lparr>s_hash_objhead := False, s_obj := Some ob, s_ws_r := False, s_vary_b := False\<rparr>;
          (if cc_pass c then do { s \<leftarrow> HSH_Deref_obj s; Some (False, s\<lparr>s_objcore := None, s_step := STP_PASS\<rparr>) }
           else Some (False, s\<lparr>s_step := STP_HIT\<rparr>))
        })
   }"

definition cnt_miss :: "cnt_env \<Rightarrow> csess \<Rightarrow> (bool \<times> csess) option" where
  "cnt_miss e s = do {
     assert_c (s_vcl s);
     assert_c (s_obj s = None);
     assert_c (s_objcore s \<noteq> None);
     assert_c (v_handling (e_vcl e) \<in> set (VCL_returns STP_MISS));
     let s = VCL_method e (s\<lparr>w_bereq_ws := True\<rparr>);
     (case s_handling s of
        VCL_RET_ERROR \<Rightarrow> do { s \<leftarrow> HSH_Deref_core s; Some (False, s\<lparr>w_bereq_ws := False, s_step := STP_ERROR\<rparr>) }
      | VCL_RET_PASS \<Rightarrow> do { s \<leftarrow> HSH_Deref_core s; Some (False, s\<lparr>s_step := STP_PASS\<rparr>) }
      | VCL_RET_FETCH \<Rightarrow> Some (False, s\<lparr>s_step := STP_FETCH\<rparr>)
      | _ \<Rightarrow> None)
   }"

definition cnt_pass :: "cnt_env \<Rightarrow> csess \<Rightarrow> (bool \<times> csess) option" where
  "cnt_pass e s = do {
     assert_c (s_vcl s);
     assert_c (s_obj s = None);
     assert_c (v_handling (e_vcl e) \<in> set (VCL_returns STP_PASS));
     let s = VCL_method e (s\<lparr>w_bereq_ws := True\<rparr>);
     (if s_handling s = VCL_RET_ERROR then Some (False, s\<lparr>w_bereq_ws := False, s_step := STP_ERROR\<rparr>)
      else do {
        assert_c (s_handling s = VCL_RET_PASS);
        Some (False, s\<lparr>w_acct_tmp := True, s_sendbody := True, s_step := STP_FETCH\<rparr>)
      })
   }"

definition cnt_pipe :: "cnt_env \<Rightarrow> csess \<Rightarrow> (bool \<times> csess) option" where
  "cnt_pipe e s = do {
     assert_c (s_vcl s);
     assert_c (v_handling (e_vcl e) \<in> set (VCL_returns STP_PIPE));
     let s = VCL_method e (s\<lparr>w_acct_tmp := True, w_bereq_ws := True\<rparr>);
     assert_c (s_handling s = VCL_RET_PIPE);
     assert_c (s_director s);
     s \<leftarrow> (if e_pipe_fd e then VDI_CloseFd ((vca_close_session s)\<lparr>s_vbc := True\<rparr>) else Some s);
     Some (False, s\<lparr>w_bereq_ws := False, s_step := STP_DONE\<rparr>)
   }"

definition cnt_recv :: "cnt_params \<Rightarrow> cnt_env \<Rightarrow> csess \<Rightarrow> (bool \<times> csess) option" where
  "cnt_recv p e s = do {
     assert_c (s_vcl s);
     assert_c (s_obj s = None);
     assert_c (\<not> s_director s);
     assert_c (v_handling (e_vcl e) \<in> set (VCL_returns STP_RECV));
     let s = (VCL_method e (s\<lparr>s_director := True\<rparr>))\<lparr>s_disable_esi := v_disable_esi (e_vcl e)\<rparr>;
     let recv_handling = s_handling s;
     (if s_restarts s \<ge> max_restarts p
      then Some (False, s\<lparr>s_err_code := (if s_err_code s = 0 then 503 else s_err_code s), s_step := STP_ERROR\<rparr>)
      else do {
        let s = (zap_flags s)\<lparr>s_handling := e_hash_ret e\<rparr>;
        assert_c (s_handling s = VCL_RET_HASH);
        let s = s\<lparr>s_wantbody := \<not> e_head e, s_sendbody := False\<rparr>;
        (case recv_handling of
           VCL_RET_LOOKUP \<Rightarrow> Some (False, s\<lparr>s_step := STP_LOOKUP\<rparr>)
         | VCL_RET_PIPE \<Rightarrow> do { assert_c (s_esi_level s = 0); Some (False, s\<lparr>s_step := STP_PIPE\<rparr>) }
         | VCL_RET_PASS \<Rightarrow> Some (False, s\<lparr>s_step := STP_PASS\<rparr>)
         | VCL_RET_ERROR \<Rightarrow> Some (False, s\<lparr>s_step := STP_ERROR\<rparr>)
         | _ \<Rightarrow> None)
      })
   }"

definition cnt_start :: "cnt_env \<Rightarrow> csess \<Rightarrow> (bool \<times> csess) option" where
  "cnt_start e s = do {
     assert_c (s_restarts s = 0);
     assert_c (s_obj s = None);
     assert_c (\<not> s_vcl s);
     let s = s\<lparr>w_acct_tmp := True, s_xid := e_new_xid e, s_vcl := True, w_vcl := False, s_protover := e_protover e\<rparr>;
     (if e_dissect e = 400 then Some (False, vca_close_session (s\<lparr>s_step := STP_DONE\<rparr>))
      else if e_dissect e \<noteq> 0 then Some (False, s\<lparr>s_err_code := e_dissect e, s_step := STP_ERROR\<rparr>)
      else let s = s\<lparr>s_doclose := e_connection e\<rparr>
           in if e_expect e = Some False then Some (False, s\<lparr>s_err_code := 417, s_step := STP_ERROR\<rparr>)
              else Some (False, s\<lparr>s_step := STP_RECV\<rparr>))
   }"

definition cnt_dispatch :: "cnt_params \<Rightarrow> cnt_env \<Rightarrow> csess \<Rightarrow> (bool \<times> csess) option" where
  "cnt_dispatch p e s = (case s_step s of
     STP_WAIT \<Rightarrow> cnt_wait p e s | STP_FIRST \<Rightarrow> cnt_first s | STP_RECV \<Rightarrow> cnt_recv p e s | STP_START \<Rightarrow> cnt_start e s
   | STP_PIPE \<Rightarrow> cnt_pipe e s | STP_PASS \<Rightarrow> cnt_pass e s | STP_LOOKUP \<Rightarrow> cnt_lookup e s | STP_MISS \<Rightarrow> cnt_miss e s
   | STP_HIT \<Rightarrow> cnt_hit e s | STP_FETCH \<Rightarrow> cnt_fetch e s | STP_FETCHBODY \<Rightarrow> cnt_fetchbody p e s
   | STP_STREAMBODY \<Rightarrow> cnt_streambody e s | STP_PREPRESP \<Rightarrow> cnt_prepresp p e s | STP_DELIVER \<Rightarrow> cnt_deliver e s
   | STP_ERROR \<Rightarrow> cnt_error p e s | STP_DONE \<Rightarrow> cnt_done p e s)"

definition flags_zero :: "csess \<Rightarrow> bool" where
  "flags_zero s \<longleftrightarrow> \<not> w_do_stream s \<and> \<not> w_is_gzip s \<and> \<not> w_do_gzip s \<and> \<not> w_is_gunzip s \<and> \<not> w_do_gunzip s \<and> \<not> w_do_esi s"

text \<open>
  The dispatcher, for the worlds \<open>es\<close> of its rounds; the result tells whether the worker got done with the session within
  them.
\<close>

fun cnt_rounds :: "cnt_params \<Rightarrow> cnt_env list \<Rightarrow> csess \<Rightarrow> (bool \<times> csess) option" where
  "cnt_rounds p [] s = Some (False, s)"
| "cnt_rounds p (e # es) s = do {
     assert_c (s_wrk s);
     (fin, s) \<leftarrow> cnt_dispatch p e s;
     (if fin then do { assert_c (flags_zero s); assert_c (\<not> w_acct_tmp s); Some (True, s) } else cnt_rounds p es s)
   }"

definition CNT_Session :: "cnt_params \<Rightarrow> cnt_env list \<Rightarrow> csess \<Rightarrow> (bool \<times> csess) option" where
  "CNT_Session p es s = do {
     assert_c (s_wrk s);
     assert_c (s_step s \<in> {STP_FIRST, STP_START, STP_LOOKUP, STP_RECV});
     assert_c (flags_zero s);
     cnt_rounds p es s
   }"

subsection \<open>The state at each step\<close>

text \<open>
  What holds of the session when a step begins. The fields of one fetch are clear outside of it, the fields of one lookup
  outside of it; a response that is streamed still has its backend connection when \<open>STP_PREPRESP\<close> begins.
\<close>

definition fetch_clean :: "csess \<Rightarrow> bool" where
  "fetch_clean s \<longleftrightarrow> \<not> s_vbc s \<and> \<not> w_h_content_length s \<and> \<not> w_do_close s \<and> w_storage_hint s = None \<and> w_vfp s = None \<and> \<not> w_sctx s"

definition hash_clean :: "csess \<Rightarrow> bool" where
  "hash_clean s \<longleftrightarrow> \<not> s_hash_objhead s \<and> \<not> s_vary_b s \<and> \<not> s_ws_r s"

definition msgs_clean :: "csess \<Rightarrow> bool" where
  "msgs_clean s \<longleftrightarrow> \<not> w_bereq_ws s \<and> \<not> w_beresp_ws s \<and> (w_resp_ws s \<longrightarrow> 0 < s_esi_level s)"

definition no_object :: "csess \<Rightarrow> bool" where
  "no_object s \<longleftrightarrow> s_obj s = None \<and> s_objcore s = None"

definition fresh_core :: "ccore option \<Rightarrow> csess \<Rightarrow> bool" where
  "fresh_core oc s \<longleftrightarrow> oc = None \<or> cc_busy (the oc) \<and> \<not> w_nbusyobj s"

definition ready_core :: "ccore option \<Rightarrow> bool" where
  "ready_core oc \<longleftrightarrow> oc = None \<or> \<not> cc_busy (the oc)"

definition between_requests :: "csess \<Rightarrow> bool" where
  "between_requests s \<longleftrightarrow> no_object s \<and> \<not> s_vcl s \<and> \<not> s_director s \<and> s_restarts s = 0 \<and> s_esi_level s = 0 \<and> fetch_clean s \<and> hash_clean s
     \<and> msgs_clean s \<and> flags_zero s"

definition streaming :: "csess \<Rightarrow> bool" where
  "streaming s \<longleftrightarrow> (\<exists>ob. s_obj s = Some ob \<and> fresh_core (co_core ob) s) \<and> s_objcore s = None \<and> s_vbc s \<and> s_director s \<and> s_wantbody s \<and> s_esi_level s = 0
     \<and> w_storage_hint s = None \<and> \<not> w_sctx s"

definition stored :: "csess \<Rightarrow> bool" where
  "stored s \<longleftrightarrow> (\<exists>ob. s_obj s = Some ob \<and> ready_core (co_core ob)) \<and> s_objcore s = None \<and> fetch_clean s \<and> \<not> w_bereq_ws s \<and> \<not> w_beresp_ws s"

definition step_inv :: "cnt_params \<Rightarrow> csess \<Rightarrow> bool" where
  "step_inv p s = (case s_step s of
     STP_FIRST \<Rightarrow> between_requests s \<and> s_xid s = 0 \<and> s_fd s
   | STP_WAIT \<Rightarrow> between_requests s \<and> s_xid s = 0 \<and> s_fd s
   | STP_START \<Rightarrow> between_requests s
   | STP_DONE \<Rightarrow> no_object s \<and> fetch_clean s \<and> hash_clean s \<and> msgs_clean s
   | STP_RECV \<Rightarrow> no_object s \<and> fetch_clean s \<and> hash_clean s \<and> msgs_clean s \<and> s_vcl s \<and> \<not> s_director s \<and> s_restarts s \<le> max_restarts p
   | STP_PIPE \<Rightarrow> no_object s \<and> fetch_clean s \<and> hash_clean s \<and> msgs_clean s \<and> s_vcl s \<and> s_director s \<and> s_esi_level s = 0
   | STP_LOOKUP \<Rightarrow> no_object s \<and> fetch_clean s \<and> msgs_clean s \<and> s_vcl s \<and> s_director s \<and> flags_zero s \<and> s_restarts s < max_restarts p
       \<and> s_vary_b s = s_hash_objhead s \<and> s_ws_r s = s_hash_objhead s
   | STP_HIT \<Rightarrow> (\<exists>ob c. s_obj s = Some ob \<and> co_core ob = Some c \<and> \<not> cc_busy c \<and> \<not> cc_pass c) \<and> s_objcore s = None \<and> fetch_clean s \<and> hash_clean s
       \<and> msgs_clean s \<and> s_vcl s \<and> s_director s \<and> flags_zero s \<and> s_restarts s < max_restarts p
   | STP_MISS \<Rightarrow> s_obj s = None \<and> s_objcore s \<noteq> None \<and> fresh_core (s_objcore s) s \<and> fetch_clean s \<and> hash_clean s \<and> msgs_clean s \<and> s_vcl s
       \<and> s_director s \<and> flags_zero s \<and> s_restarts s < max_restarts p
   | STP_PASS \<Rightarrow> no_object s \<and> fetch_clean s \<and> hash_clean s \<and> \<not> w_beresp_ws s \<and> (w_resp_ws s \<longrightarrow> 0 < s_esi_level s) \<and> s_vcl s \<and> s_director s
       \<and> flags_zero s \<and> s_restarts s < max_restarts p
   | STP_FETCH \<Rightarrow> s_obj s = None \<and> fresh_core (s_objcore s) s \<and> fetch_clean s \<and> hash_clean s \<and> (w_resp_ws s \<longrightarrow> 0 < s_esi_level s) \<and> s_vcl s
       \<and> s_director s \<and> flags_zero s \<and> s_restarts s < max_restarts p
   | STP_FETCHBODY \<Rightarrow> s_obj s = None \<and> fresh_core (s_objcore s) s \<and> s_vbc s \<and> w_vfp s = None \<and> \<not> w_sctx s \<and> hash_clean s
       \<and> (w_resp_ws s \<longrightarrow> 0 < s_esi_level s) \<and> s_vcl s \<and> s_director s \<and> s_restarts s < max_restarts p
       \<and> s_handling s \<in> {VCL_RET_HIT_FOR_PASS, VCL_RET_DELIVER}
   | STP_PREPRESP \<Rightarrow> s_vcl s \<and> hash_clean s \<and> s_restarts s \<le> max_restarts p \<and> (if w_do_stream s then streaming s else stored s)
   | STP_STREAMBODY \<Rightarrow> s_vcl s \<and> hash_clean s \<and> streaming s \<and> w_res_mode s AND RES_ESI_CHILD = 0
   | STP_DELIVER \<Rightarrow> s_vcl s \<and> hash_clean s \<and> stored s
   | STP_ERROR \<Rightarrow> no_object s \<and> fetch_clean s \<and> hash_clean s \<and> msgs_clean s \<and> s_vcl s \<and> s_restarts s \<le> max_restarts p)"

definition cnt_inv :: "cnt_params \<Rightarrow> csess \<Rightarrow> bool" where
  "cnt_inv p s \<longleftrightarrow> s_wrk s \<and> step_inv p s"

text \<open>
  What \<open>CNT_Session\<close> asserts of the worker at its end and, for a session that is not an ESI include, what the loop of the
  worker thread in \<^verbatim>\<open>cache_pool.c\<close> asserts after it.
\<close>

definition worker_clean :: "csess \<Rightarrow> bool" where
  "worker_clean s \<longleftrightarrow> flags_zero s \<and> \<not> w_acct_tmp s \<and> fetch_clean s \<and> msgs_clean s"

text \<open>How a worker leaves a session: parked on the waiting list, handed back or deleted, or as a finished include.\<close>

definition exit_ok :: "cnt_params \<Rightarrow> csess \<Rightarrow> bool" where
  "exit_ok p s \<longleftrightarrow> worker_clean s \<and>
     (if s_step s = STP_LOOKUP then \<not> s_wrk s \<and> s_hash_objhead s \<and> step_inv p s
      else if s_esi_level s = 0 then \<not> s_wrk s \<and> between_requests s \<and> s_xid s = 0
      else s_wrk s \<and> s_step s = STP_DONE \<and> no_object s \<and> hash_clean s)"

text \<open>
  The worlds the engine is written for. The VCL compiler lets a method return what \<^verbatim>\<open>lib/libvcl/generate.py\<close> lists for it;
  of these the engine has no code for \<open>restart\<close> in \<^verbatim>\<open>vcl_miss\<close> and \<^verbatim>\<open>vcl_pass\<close>, for \<open>error\<close> in \<^verbatim>\<open>vcl_pipe\<close>, and for \<open>pipe\<close> of
  an ESI include. An object that a lookup finds is not busy, and a header that is there with the value \<^verbatim>\<open>gzip\<close> is there. The
  three other conditions leave out what the engine gets wrong: a request that overflows its buffer, a restart of a
  response that is streamed through a filter, and a fetch that gets no storage at all.
\<close>

definition wait_result :: "cnt_params \<Rightarrow> cnt_env \<Rightarrow> int" where
  "wait_result p e = (if e_complete e = 0 \<and> session_linger p > 0 then (if e_polled e then e_rx e else 0) else e_complete e)"

definition cnt_legal :: "cnt_params \<Rightarrow> cnt_env \<Rightarrow> csess \<Rightarrow> bool" where
  "cnt_legal p e s = (let h = v_handling (e_vcl e) in case s_step s of
     STP_WAIT \<Rightarrow> wait_result p e \<noteq> -2
   | STP_RECV \<Rightarrow> e_hash_ret e = VCL_RET_HASH \<and> (h \<in> {VCL_RET_LOOKUP, VCL_RET_PASS, VCL_RET_ERROR} \<or> h = VCL_RET_PIPE \<and> s_esi_level s = 0)
   | STP_PIPE \<Rightarrow> h = VCL_RET_PIPE
   | STP_PASS \<Rightarrow> h \<in> {VCL_RET_PASS, VCL_RET_ERROR}
   | STP_LOOKUP \<Rightarrow> (case e_lookup e of Lookup_Found ob \<Rightarrow> co_core ob \<noteq> None \<and> ready_core (co_core ob) | _ \<Rightarrow> True)
   | STP_MISS \<Rightarrow> h \<in> {VCL_RET_ERROR, VCL_RET_PASS, VCL_RET_FETCH}
   | STP_HIT \<Rightarrow> h \<in> {VCL_RET_DELIVER, VCL_RET_PASS, VCL_RET_ERROR, VCL_RET_RESTART}
   | STP_FETCH \<Rightarrow> h \<in> {VCL_RET_HIT_FOR_PASS, VCL_RET_DELIVER, VCL_RET_ERROR, VCL_RET_RESTART}
   | STP_FETCHBODY \<Rightarrow> (e_newobj e \<or> e_newobj2 e) \<and> (e_gzip_hdr e \<longrightarrow> e_encoding_hdr e)
   | STP_PREPRESP \<Rightarrow> h = VCL_RET_DELIVER \<or> h = VCL_RET_RESTART \<and> (w_do_stream s \<longrightarrow> w_vfp s = None \<or> s_restarts s \<ge> max_restarts p)
   | STP_ERROR \<Rightarrow> h \<in> {VCL_RET_DELIVER, VCL_RET_RESTART}
   | _ \<Rightarrow> True)"

fun cnt_legals :: "cnt_params \<Rightarrow> cnt_env list \<Rightarrow> csess \<Rightarrow> bool" where
  "cnt_legals p [] s \<longleftrightarrow> True"
| "cnt_legals p (e # es) s \<longleftrightarrow> cnt_legal p e s \<and> (case cnt_dispatch p e s of Some (False, s') \<Rightarrow> cnt_legals p es s' | _ \<Rightarrow> True)"

text \<open>The result of a step is right: no panic, and the session is as the next step or the end wants it.\<close>

definition step_ok :: "cnt_params \<Rightarrow> (bool \<times> csess) option \<Rightarrow> bool" where
  "step_ok p r = (case r of None \<Rightarrow> False | Some (fin, s) \<Rightarrow> if fin then exit_ok p s else cnt_inv p s)"

lemma step_ok_simps [simp]:
  "\<not> step_ok p None"
  "step_ok p (Some (True, s)) \<longleftrightarrow> exit_ok p s"
  "step_ok p (Some (False, s)) \<longleftrightarrow> cnt_inv p s"
  by (simp_all add: step_ok_def)

lemmas clean_defs = fetch_clean_def hash_clean_def msgs_clean_def no_object_def fresh_core_def ready_core_def between_requests_def
  streaming_def stored_def flags_zero_def worker_clean_def

lemmas state_defs = cnt_inv_def step_inv_def exit_ok_def cnt_legal_def clean_defs

lemmas call_defs = vca_close_session_def vca_return_session_def SES_Charge_def AssertObjCorePassOrBusy_def VDI_CloseFd_def VDI_RecycleFd_def
  HSH_Prealloc_s_def deref_core_def HSH_Deref_obj_def HSH_Deref_core_def zap_flags_def VCL_method_def VCL_returns_def

lemma cnt_wait_ok:
  assumes "cnt_inv p s" "s_step s = STP_WAIT" "cnt_legal p e s"
  shows "step_ok p (cnt_wait p e s)"
  using assms by (auto simp: cnt_wait_def state_defs call_defs wait_result_def Let_def)

lemma cnt_first_ok:
  assumes "cnt_inv p s" "s_step s = STP_FIRST"
  shows "step_ok p (cnt_first s)"
  using assms by (auto simp: cnt_first_def state_defs call_defs)

lemma cnt_start_ok:
  assumes "cnt_inv p s" "s_step s = STP_START"
  shows "step_ok p (cnt_start e s)"
  using assms by (auto simp: cnt_start_def state_defs call_defs Let_def)

lemma cnt_recv_ok:
  assumes "cnt_inv p s" "s_step s = STP_RECV" "cnt_legal p e s"
  shows "step_ok p (cnt_recv p e s)"
  using assms by (auto simp: cnt_recv_def state_defs call_defs Let_def)

lemma cnt_pipe_ok:
  assumes "cnt_inv p s" "s_step s = STP_PIPE" "cnt_legal p e s"
  shows "step_ok p (cnt_pipe e s)"
  using assms by (auto simp: cnt_pipe_def state_defs call_defs Let_def)

lemma cnt_pass_ok:
  assumes "cnt_inv p s" "s_step s = STP_PASS" "cnt_legal p e s"
  shows "step_ok p (cnt_pass e s)"
  using assms by (auto simp: cnt_pass_def state_defs call_defs Let_def)

lemma cnt_lookup_ok:
  assumes "cnt_inv p s" "s_step s = STP_LOOKUP" "cnt_legal p e s"
  shows "step_ok p (cnt_lookup e s)"
  using assms by (auto simp: cnt_lookup_def state_defs call_defs Let_def split: lookup_result.splits option.splits if_splits)

lemma cnt_miss_ok:
  assumes "cnt_inv p s" "s_step s = STP_MISS" "cnt_legal p e s"
  shows "step_ok p (cnt_miss e s)"
  using assms by (auto simp: cnt_miss_def state_defs call_defs Let_def)

lemma cnt_hit_ok:
  assumes "cnt_inv p s" "s_step s = STP_HIT" "cnt_legal p e s"
  shows "step_ok p (cnt_hit e s)"
  using assms by (auto simp: cnt_hit_def state_defs call_defs Let_def)

lemma fetch_cleanup_ok:
  assumes "s_wrk s" "s_obj s = None" "\<not> s_vbc s" "\<not> w_do_close s" "w_vfp s = None" "\<not> w_sctx s" "hash_clean s" "w_resp_ws s \<longrightarrow> 0 < s_esi_level s"
    "s_vcl s" "s_restarts s < max_restarts p" "s_handling s \<in> {VCL_RET_ERROR, VCL_RET_RESTART}"
  shows "step_ok p (fetch_cleanup s)"
  using assms by (auto simp: fetch_cleanup_def state_defs call_defs Let_def)

lemma FetchHdr_ok:
  assumes "s_director s" "s_obj s = None" "fresh_core (s_objcore s) s"
  shows "FetchHdr i s = Some (s\<lparr>s_vbc := (i = 0)\<rparr>)"
  using assms by (auto simp: FetchHdr_def fresh_core_def split: option.splits)

lemma RFC2616_Body_s_do_esi [simp]: "w_do_esi (RFC2616_Body_s e s) = w_do_esi s"
  by (simp add: RFC2616_Body_s_def)

lemma cnt_fetch_ok:
  assumes "cnt_inv p s" "s_step s = STP_FETCH" "cnt_legal p e s"
  shows "step_ok p (cnt_fetch e s)"
proof -
  have fc: "fresh_core (s_objcore s) (s\<lparr>w_beresp_ws := True\<rparr>)" "fresh_core (s_objcore s) (s\<lparr>w_beresp_ws := True, s_vbc := b\<rparr>)" for b
    using assms(1,2) by (auto simp: state_defs)
  have rest: "s_director s" "s_obj s = None" "s_vcl s" "\<not> s_vbc s" "\<not> w_h_content_length s" "\<not> w_do_close s" "w_storage_hint s = None" "\<not> w_do_esi s"
    using assms(1,2) by (auto simp: state_defs)
  have hdr: "FetchHdr i (s\<lparr>w_beresp_ws := True\<rparr>) = Some (s\<lparr>w_beresp_ws := True, s_vbc := (i = 0)\<rparr>)" for i
    using FetchHdr_ok [of "s\<lparr>w_beresp_ws := True\<rparr>"] rest fc by simp
  have hdr2: "FetchHdr i (s\<lparr>w_beresp_ws := True, s_vbc := b\<rparr>) = Some (s\<lparr>w_beresp_ws := True, s_vbc := (i = 0)\<rparr>)" for i b
    using FetchHdr_ok [of "s\<lparr>w_beresp_ws := True, s_vbc := b\<rparr>"] rest fc by simp
  have allowed: "v_handling (e_vcl e) \<in> set (VCL_returns STP_FETCH)" using assms(2,3) by (auto simp: cnt_legal_def VCL_returns_def)
  define i where "i = (if e_fetchhdr e = 1 then e_fetchhdr2 e else e_fetchhdr e)"
  show ?thesis
  proof (cases "i = 0")
    case False
    then have "cnt_fetch e s = fetch_cleanup (s\<lparr>w_beresp_ws := True, s_vbc := False, s_handling := VCL_RET_ERROR, s_err_code := 503\<rparr>)"
      using assms(1,2) by (auto simp: cnt_fetch_def state_defs hdr hdr2 i_def)
    moreover have "step_ok p \<dots>" by (rule fetch_cleanup_ok) (use assms(1,2) in \<open>auto simp: state_defs\<close>)
    ultimately show ?thesis by simp
  next
    case True
    define t where "t = VCL_fetch_method e ((RFC2616_Body_s e (s\<lparr>w_beresp_ws := True, s_vbc := True\<rparr>))\<lparr>s_err_code := e_status e\<rparr>)"
    have t: "s_obj t = None" "s_objcore t = s_objcore s" "fresh_core (s_objcore t) t" "s_wrk t" "s_vbc t" "w_vfp t = None" "\<not> w_sctx t"
      "hash_clean t" "w_resp_ws t \<longrightarrow> 0 < s_esi_level t" "s_vcl t" "s_director t" "s_restarts t < max_restarts p"
      "s_handling t = v_handling (e_vcl e)"
      using assms(1,2) by (auto simp: t_def VCL_fetch_method_def VCL_method_def RFC2616_Body_s_def state_defs)
    have eq: "cnt_fetch e s = (case s_handling t of
           VCL_RET_HIT_FOR_PASS \<Rightarrow> Some (False, t\<lparr>s_objcore := map_option (\<lambda>c. c\<lparr>cc_pass := True\<rparr>) (s_objcore t), s_step := STP_FETCHBODY\<rparr>)
         | VCL_RET_DELIVER \<Rightarrow> do { AssertObjCorePassOrBusy (s_objcore t); Some (False, t\<lparr>s_step := STP_FETCHBODY\<rparr>) }
         | _ \<Rightarrow> do { s \<leftarrow> VDI_CloseFd t; fetch_cleanup s })"
      unfolding t_def using rest True allowed by (auto simp: cnt_fetch_def fetch_answer_def hdr hdr2 i_def Let_def split: if_splits)
    have clean: "step_ok p (fetch_cleanup (t\<lparr>s_vbc := False, w_do_close := False\<rparr>))" if "s_handling t \<in> {VCL_RET_ERROR, VCL_RET_RESTART}"
      by (rule fetch_cleanup_ok) (use t that in \<open>auto simp: hash_clean_def\<close>)
    have "s_handling t \<in> {VCL_RET_HIT_FOR_PASS, VCL_RET_DELIVER, VCL_RET_ERROR, VCL_RET_RESTART}"
      using assms(2,3) t by (simp add: cnt_legal_def Let_def)
    then show ?thesis unfolding eq using t clean
      by (cases "s_objcore s") (auto simp: VDI_CloseFd_def AssertObjCorePassOrBusy_def cnt_inv_def step_inv_def fresh_core_def hash_clean_def)
  qed
qed

lemma HSH_Unbusy_s_ok:
  assumes "s_obj s = Some ob" "co_core ob = Some c" "fresh_core (co_core ob) s"
  shows "HSH_Unbusy_s s = Some (s\<lparr>s_obj := Some (ob\<lparr>co_core := Some (c\<lparr>cc_busy := False\<rparr>)\<rparr>), w_nbusyobj := True\<rparr>)"
  using assms by (simp add: HSH_Unbusy_s_def fresh_core_def)

lemma HSH_Drop_s_ok:
  assumes "s_obj s = Some ob" "fresh_core (co_core ob) s"
  shows "\<exists>b. HSH_Drop_s s = Some (s\<lparr>s_obj := None, w_nbusyobj := b\<rparr>)"
proof (cases "co_core ob")
  case None
  then have "HSH_Drop_s s = Some (s\<lparr>s_obj := None, w_nbusyobj := w_nbusyobj s\<rparr>)"
    using assms by (simp add: HSH_Drop_s_def AssertObjCorePassOrBusy_def HSH_Deref_obj_def deref_core_def)
  then show ?thesis by blast
next
  case (Some c)
  then have "cc_busy c" using assms by (simp add: fresh_core_def)
  then have "HSH_Drop_s s = Some (s\<lparr>s_obj := None, w_nbusyobj := True\<rparr>)"
    using assms Some by (simp add: HSH_Drop_s_def AssertObjCorePassOrBusy_def HSH_Unbusy_s_ok HSH_Deref_obj_def deref_core_def)
  then show ?thesis by blast
qed

lemma cnt_deliver_ok:
  assumes "cnt_inv p s" "s_step s = STP_DELIVER"
  shows "step_ok p (cnt_deliver e s)"
  using assms by (auto simp: cnt_deliver_def state_defs call_defs Let_def split: option.splits)

lemma cnt_done_ok:
  assumes "cnt_inv p s" "s_step s = STP_DONE"
  shows "step_ok p (cnt_done p e s)"
  using assms by (auto simp: cnt_done_def state_defs call_defs Let_def)

lemma cnt_error_ok:
  assumes "cnt_inv p s" "s_step s = STP_ERROR" "cnt_legal p e s"
  shows "step_ok p (cnt_error p e s)"
  using assms by (auto simp: cnt_error_def error_object_def state_defs call_defs Let_def STV_NewObject_s_def HSH_Drop_s_def)

lemma prep_restart_ok:
  assumes "s_wrk s" "s_vcl s" "hash_clean s" "s_restarts s < max_restarts p" "if w_do_stream s then streaming s \<and> w_vfp s = None else stored s"
  shows "step_ok p (prep_restart s)"
proof (cases "w_do_stream s")
  case True
  then obtain ob where ob: "s_obj s = Some ob" "fresh_core (co_core ob) s" using assms by (auto simp: streaming_def)
  then obtain b where "HSH_Drop_s (s\<lparr>s_vbc := False, w_do_close := False\<rparr>) = Some (s\<lparr>s_vbc := False, w_do_close := False, s_obj := None, w_nbusyobj := b\<rparr>)"
    using HSH_Drop_s_ok [of "s\<lparr>s_vbc := False, w_do_close := False\<rparr>" ob] by (auto simp: fresh_core_def)
  then show ?thesis using assms True
    by (auto simp: prep_restart_def VDI_CloseFd_def streaming_def cnt_inv_def step_inv_def no_object_def fetch_clean_def hash_clean_def msgs_clean_def)
next
  case False
  then show ?thesis using assms
    by (auto simp: prep_restart_def state_defs call_defs split: option.splits)
qed

lemma res_mode_of_top:
  assumes "s_esi_level s = 0"
  shows "fst (res_mode_of p e ob s) AND RES_ESI_CHILD = 0"
  using assms by (simp add: res_mode_of_def Let_def RES_LEN_def RES_EOF_def RES_CHUNKED_def RES_ESI_def RES_ESI_CHILD_def RES_GUNZIP_def)

lemma cnt_prepresp_ok:
  assumes "cnt_inv p s" "s_step s = STP_PREPRESP" "cnt_legal p e s"
  shows "step_ok p (cnt_prepresp p e s)"
proof -
  obtain ob where ob: "s_obj s = Some ob" using assms by (auto simp: cnt_inv_def step_inv_def streaming_def stored_def split: if_splits)
  obtain m dc where m: "res_mode_of p e ob s = (m, dc)" by force
  define t where "t = VCL_method e (s\<lparr>w_res_mode := m, s_doclose := dc, w_resp_ws := True\<rparr>)"
  have t: "s_wrk t" "s_vcl t" "hash_clean t" "if w_do_stream t then streaming t else stored t" "w_do_stream t = w_do_stream s"
     "s_restarts t = s_restarts s" "s_handling t = v_handling (e_vcl e)" "s_obj t = Some ob" "w_vfp t = w_vfp s"
    using assms(1,2) ob by (auto simp: t_def VCL_method_def state_defs)
  have busy: "w_do_stream s \<Longrightarrow> AssertObjCorePassOrBusy (co_core ob) = Some ()"
    using t by (auto simp: streaming_def fresh_core_def AssertObjCorePassOrBusy_def split: option.splits)
  have h: "v_handling (e_vcl e) = VCL_RET_DELIVER \<or> v_handling (e_vcl e) = VCL_RET_RESTART"
    using assms(2,3) by (auto simp: cnt_legal_def)
  have mode: "w_do_stream s \<Longrightarrow> m AND RES_ESI_CHILD = 0"
    using res_mode_of_top [of s p e ob] m t assms(1,2) by (auto simp: cnt_inv_def step_inv_def streaming_def)
  have eq: "cnt_prepresp p e s = (if s_handling t = VCL_RET_RESTART \<and> s_restarts t < max_restarts p then prep_restart t
      else Some (False, t\<lparr>s_step := if w_do_stream s then STP_STREAMBODY else STP_DELIVER\<rparr>))"
    using assms(1,2) ob m busy h t(5,7) by (cases "w_do_stream s") (auto simp: cnt_prepresp_def VCL_returns_def t_def [symmetric] cnt_inv_def step_inv_def)
  show ?thesis
  proof (cases "s_handling t = VCL_RET_RESTART \<and> s_restarts t < max_restarts p")
    case True
    then have "step_ok p (prep_restart t)"
      by (intro prep_restart_ok) (use t assms(2,3) in \<open>auto simp: cnt_legal_def\<close>)
    then show ?thesis unfolding eq using True by simp
  next
    case False
    have "w_res_mode t = m" by (simp add: t_def VCL_method_def)
    then show ?thesis using False t mode unfolding eq
      by (auto simp: cnt_inv_def step_inv_def streaming_def stored_def hash_clean_def fetch_clean_def fresh_core_def)
  qed
qed

text \<open>What reading the body leaves alone.\<close>

definition body_frame :: "csess \<Rightarrow> csess \<Rightarrow> bool" where
  "body_frame s t \<longleftrightarrow> s_wrk t = s_wrk s \<and> s_vcl t = s_vcl s \<and> s_esi_level t = s_esi_level s \<and> s_objcore t = s_objcore s \<and> s_director t = s_director s
     \<and> w_storage_hint t = w_storage_hint s \<and> w_sctx t = w_sctx s \<and> hash_clean t = hash_clean s \<and> w_resp_ws t = w_resp_ws s \<and> s_restarts t = s_restarts s
     \<and> w_nbusyobj t = w_nbusyobj s \<and> w_do_stream t = w_do_stream s"

lemma body_filters_ok:
  assumes "w_vfp s = None" "e_gzip_hdr e \<longrightarrow> e_encoding_hdr e"
  shows "\<exists>t. body_filters p e s = Some t \<and> s_obj t = s_obj s \<and> s_vbc t = s_vbc s \<and> body_frame (s\<lparr>w_do_stream := w_do_stream t\<rparr>) t
    \<and> (w_do_stream t \<longrightarrow> s_wantbody t \<and> s_esi_level t = 0)"
  using assms by (simp add: body_filters_def Let_def assert_c_bind body_frame_def hash_clean_def) blast

lemma FetchBody_ok:
  assumes "s_obj s = Some ob" "fresh_core (co_core ob) s" "s_vbc s" "s_director s"
  shows "\<exists>t ob'. FetchBody e s = Some (e_fetchbody_fails e, t) \<and> s_obj t = Some ob' \<and> co_core ob' = co_core ob \<and> \<not> s_vbc t \<and> \<not> w_do_close t \<and> body_frame s t"
proof -
  have "AssertObjCorePassOrBusy (co_core ob) = Some ()" using assms by (auto simp: AssertObjCorePassOrBusy_def fresh_core_def split: option.splits)
  then show ?thesis using assms
    by (cases "w_vfp s = None"; cases "e_fetchbody_fails e"; cases "w_do_close s \<or> e_fetch_close e")
      (simp_all add: FetchBody_def Let_def VDI_CloseFd_def VDI_RecycleFd_def body_frame_def hash_clean_def)
qed

lemma fetch_publish_ok:
  assumes "s_obj s = Some ob" "fresh_core (co_core ob) s"
  shows "\<exists>t ob'. fetch_publish s = Some t \<and> s_obj t = Some ob' \<and> ready_core (co_core ob') \<and> s_vbc t = s_vbc s \<and> w_do_close t = w_do_close s
    \<and> w_h_content_length t = w_h_content_length s \<and> w_bereq_ws t = w_bereq_ws s \<and> w_beresp_ws t = w_beresp_ws s \<and> w_vfp t = w_vfp s
    \<and> body_frame (s\<lparr>w_nbusyobj := w_nbusyobj t\<rparr>) t"
proof (cases "co_core ob")
  case None
  then show ?thesis using assms by (simp add: fetch_publish_def ready_core_def body_frame_def hash_clean_def)
next
  case (Some c)
  then have "cc_busy c" using assms by (simp add: fresh_core_def)
  then show ?thesis using assms Some by (simp add: fetch_publish_def HSH_Unbusy_s_ok ready_core_def body_frame_def hash_clean_def)
qed

lemma body_object_ok:
  assumes "s_obj s = None" "e_newobj e \<or> e_newobj2 e" "fresh_core (s_objcore s) s"
  shows "\<exists>ob. s_obj (body_object p e s) = Some ob \<and> fresh_core (co_core ob) (body_object p e s) \<and> s_objcore (body_object p e s) = None
    \<and> s_vbc (body_object p e s) = s_vbc s \<and> s_wantbody (body_object p e s) = s_wantbody s
    \<and> body_frame (s\<lparr>s_objcore := None, w_storage_hint := w_storage_hint (body_object p e s)\<rparr>) (body_object p e s)"
  using assms by (auto simp: body_object_def STV_NewObject_s_def Let_def fresh_core_def body_frame_def hash_clean_def)

text \<open>The two ways on from a new object: it is streamed, or its body is read now.\<close>

lemma fetchbody_rest_ok:
  assumes ob: "s_obj s = Some ob" "fresh_core (co_core ob) s" "s_objcore s = None" "s_vbc s" "s_director s" "w_storage_hint s = None" "\<not> w_sctx s" "hash_clean s"
      "w_resp_ws s \<longrightarrow> 0 < s_esi_level s" "s_vcl s" "s_wrk s" "s_restarts s < max_restarts p" "\<not> w_do_stream s"
  shows "step_ok p (do {
             (i, s) \<leftarrow> FetchBody e s;
             let s = s\<lparr>w_h_content_length := False, w_bereq_ws := False, w_beresp_ws := False, w_vfp := None\<rparr>;
             assert_c (\<not> s_vbc s);
             assert_c (s_director s);
             (if i then do { s \<leftarrow> HSH_Drop_s s; assert_c (s_obj s = None); Some (False, s\<lparr>s_err_code := 503, s_step := STP_ERROR\<rparr>) }
              else do { s \<leftarrow> fetch_publish s; Some (False, s\<lparr>w_acct_tmp := True, s_step := STP_PREPRESP\<rparr>) })
           })"
proof -
  obtain t ob' where t: "FetchBody e s = Some (e_fetchbody_fails e, t)" "s_obj t = Some ob'" "co_core ob' = co_core ob" "\<not> s_vbc t" "\<not> w_do_close t" "body_frame s t"
    using FetchBody_ok [OF ob(1,2,4,5)] by blast
  then have td: "s_director t" using ob(5) by (simp add: body_frame_def)
  define u where "u = t\<lparr>w_h_content_length := False, w_bereq_ws := False, w_beresp_ws := False, w_vfp := None\<rparr>"
  have u: "s_obj u = Some ob'" "fresh_core (co_core ob') u" "\<not> s_vbc u" "\<not> w_do_close u" "\<not> w_h_content_length u" "\<not> w_bereq_ws u" "\<not> w_beresp_ws u"
      "w_vfp u = None" "body_frame s u"
    using t ob(2) by (auto simp: u_def body_frame_def fresh_core_def hash_clean_def)
  show ?thesis
  proof (cases "e_fetchbody_fails e")
    case True
    obtain b where "HSH_Drop_s u = Some (u\<lparr>s_obj := None, w_nbusyobj := b\<rparr>)" using HSH_Drop_s_ok [OF u(1,2)] by blast
    then show ?thesis using True t(1,4) td u ob(3-12)
      by (simp add: u_def [symmetric] body_frame_def cnt_inv_def step_inv_def no_object_def fetch_clean_def msgs_clean_def hash_clean_def)
  next
    case False
    obtain v obv where v: "fetch_publish u = Some v" "s_obj v = Some obv" "ready_core (co_core obv)" "s_vbc v = s_vbc u" "w_do_close v = w_do_close u"
      "w_h_content_length v = w_h_content_length u" "w_bereq_ws v = w_bereq_ws u" "w_beresp_ws v = w_beresp_ws u" "w_vfp v = w_vfp u"
      "body_frame (u\<lparr>w_nbusyobj := w_nbusyobj v\<rparr>) v"
      using fetch_publish_ok [OF u(1,2)] by blast
    then show ?thesis using False t(1,4) td u ob(3-13)
      by (simp add: u_def [symmetric] body_frame_def cnt_inv_def step_inv_def stored_def fetch_clean_def hash_clean_def)
  qed
qed

lemma cnt_fetchbody_ok:
  assumes "cnt_inv p s" "s_step s = STP_FETCHBODY" "cnt_legal p e s"
  shows "step_ok p (cnt_fetchbody p e s)"
proof -
  define s0 where "s0 = (if s_objcore s = None then s\<lparr>w_exp_ttl := -1\<rparr> else s)"
  have legal: "e_newobj e \<or> e_newobj2 e" "e_gzip_hdr e \<longrightarrow> e_encoding_hdr e" using assms(2,3) by (auto simp: cnt_legal_def)
  have s0: "s_obj s0 = None" "fresh_core (s_objcore s0) s0" "s_vbc s0" "w_vfp s0 = None" "\<not> w_sctx s0" "hash_clean s0"
      "w_resp_ws s0 \<longrightarrow> 0 < s_esi_level s0" "s_vcl s0" "s_director s0" "s_restarts s0 < max_restarts p" "s_wrk s0"
      "s_handling s = VCL_RET_HIT_FOR_PASS \<or> s_handling s = VCL_RET_DELIVER"
    using assms(1,2) by (auto simp: s0_def cnt_inv_def step_inv_def fresh_core_def hash_clean_def)
  obtain s1 where s1: "body_filters p e s0 = Some s1" "s_obj s1 = s_obj s0" "s_vbc s1 = s_vbc s0" "body_frame (s0\<lparr>w_do_stream := w_do_stream s1\<rparr>) s1"
      "w_do_stream s1 \<longrightarrow> s_wantbody s1 \<and> s_esi_level s1 = 0"
    using body_filters_ok [OF s0(4) legal(2), of p] by blast
  have "fresh_core (s_objcore s1) s1" using s1(4) s0(2) by (simp add: body_frame_def fresh_core_def)
  then obtain ob where ob: "s_obj (body_object p e s1) = Some ob" "fresh_core (co_core ob) (body_object p e s1)" "s_objcore (body_object p e s1) = None"
      "s_vbc (body_object p e s1) = s_vbc s1" "s_wantbody (body_object p e s1) = s_wantbody s1"
      "body_frame (s1\<lparr>s_objcore := None, w_storage_hint := w_storage_hint (body_object p e s1)\<rparr>) (body_object p e s1)"
    using body_object_ok [of s1 e p] s1(2) s0(1) legal(1) by auto
  define s2 where "s2 = body_object p e s1"
  define ob2 where "ob2 = ob\<lparr>co_gziped := w_do_gzip s2 \<or> w_is_gzip s2 \<and> \<not> w_do_gunzip s2, co_response := s_err_code s2\<rparr>"
  define s3 where "s3 = (if co_response ob2 = 200 \<and> e_not_modified e then s2\<lparr>w_storage_hint := None, s_obj := Some ob2, w_do_stream := False\<rparr>
    else s2\<lparr>w_storage_hint := None, s_obj := Some ob2\<rparr>)"
  have s3: "s_obj s3 = Some ob2" "fresh_core (co_core ob2) s3" "s_objcore s3 = None" "s_vbc s3" "s_director s3" "w_storage_hint s3 = None" "\<not> w_sctx s3" "hash_clean s3"
      "w_resp_ws s3 \<longrightarrow> 0 < s_esi_level s3" "s_vcl s3" "s_wrk s3" "s_restarts s3 < max_restarts p" "w_do_stream s3 \<longrightarrow> s_wantbody s3 \<and> s_esi_level s3 = 0"
    using s0 s1(2-5) ob unfolding s3_def ob2_def s2_def by (auto simp: body_frame_def fresh_core_def hash_clean_def)
  have a: "AssertObjCorePassOrBusy (co_core ob2) = Some ()"
    using s3(2) by (auto simp: AssertObjCorePassOrBusy_def fresh_core_def split: option.splits)
  show ?thesis
  proof (cases "w_do_stream s3")
    case True
    then have "cnt_fetchbody p e s = Some (False, s3\<lparr>s_step := STP_PREPRESP\<rparr>)"
      using s0(12) s1(1) ob(1) a unfolding cnt_fetchbody_def s0_def [symmetric]
      by (simp add: s2_def [symmetric] ob2_def [symmetric] s3_def [symmetric] Let_def)
    then show ?thesis using True s3 by (simp add: cnt_inv_def step_inv_def streaming_def fresh_core_def hash_clean_def)
  next
    case False
    have "cnt_fetchbody p e s = (do {
             (i, s) \<leftarrow> FetchBody e s3;
             let s = s\<lparr>w_h_content_length := False, w_bereq_ws := False, w_beresp_ws := False, w_vfp := None\<rparr>;
             assert_c (\<not> s_vbc s);
             assert_c (s_director s);
             (if i then do { s \<leftarrow> HSH_Drop_s s; assert_c (s_obj s = None); Some (False, s\<lparr>s_err_code := 503, s_step := STP_ERROR\<rparr>) }
              else do { s \<leftarrow> fetch_publish s; Some (False, s\<lparr>w_acct_tmp := True, s_step := STP_PREPRESP\<rparr>) })
           })"
      using s0(12) s1(1) ob(1) a False unfolding cnt_fetchbody_def s0_def [symmetric]
      by (simp add: s2_def [symmetric] ob2_def [symmetric] s3_def [symmetric] Let_def)
    then show ?thesis using fetchbody_rest_ok [OF s3(1-12) False, of e] by simp
  qed
qed

lemma cnt_streambody_ok:
  assumes "cnt_inv p s" "s_step s = STP_STREAMBODY"
  shows "step_ok p (cnt_streambody e s)"
proof -
  obtain ob where ob: "s_obj s = Some ob" "fresh_core (co_core ob) s"
    using assms by (auto simp: cnt_inv_def step_inv_def streaming_def)
  have s: "s_objcore s = None" "s_vbc s" "s_director s" "s_wantbody s" "s_esi_level s = 0" "w_storage_hint s = None" "\<not> w_sctx s" "hash_clean s" "s_vcl s"
      "s_wrk s" "w_res_mode s AND RES_ESI_CHILD = 0"
    using assms by (auto simp: cnt_inv_def step_inv_def streaming_def)
  have a: "AssertObjCorePassOrBusy (co_core ob) = Some ()"
    using ob(2) by (auto simp: AssertObjCorePassOrBusy_def fresh_core_def split: option.splits)
  obtain t ob' where t: "FetchBody e (s\<lparr>w_sctx := True\<rparr>) = Some (e_fetchbody_fails e, t)" "s_obj t = Some ob'" "co_core ob' = co_core ob" "\<not> s_vbc t"
      "\<not> w_do_close t" "body_frame (s\<lparr>w_sctx := True\<rparr>) t"
    using FetchBody_ok [of "s\<lparr>w_sctx := True\<rparr>" ob e] ob s by (auto simp: fresh_core_def)
  have td: "s_director t" using t(6) s by (simp add: body_frame_def)
  define u where "u = t\<lparr>w_h_content_length := False, w_bereq_ws := False, w_beresp_ws := False, w_vfp := None\<rparr>"
  have u: "s_obj u = Some ob'" "fresh_core (co_core ob') u" "\<not> s_vbc u" "\<not> w_do_close u" "\<not> w_h_content_length u" "\<not> w_bereq_ws u" "\<not> w_beresp_ws u"
      "w_vfp u = None" "body_frame (s\<lparr>w_sctx := True\<rparr>) u"
    using t(2-6) ob(2) by (auto simp: u_def body_frame_def fresh_core_def hash_clean_def)
  obtain v obv where v: "(if \<not> e_fetchbody_fails e \<and> co_core ob \<noteq> None then fetch_publish u else Some (u\<lparr>s_doclose := Some ''Stream error''\<rparr>)) = Some v"
      "s_obj v = Some obv" "s_vbc v = s_vbc u" "w_do_close v = w_do_close u" "w_h_content_length v = w_h_content_length u" "w_bereq_ws v = w_bereq_ws u"
      "w_beresp_ws v = w_beresp_ws u" "w_vfp v = w_vfp u" "body_frame (u\<lparr>w_nbusyobj := w_nbusyobj v\<rparr>) v"
  proof (cases "\<not> e_fetchbody_fails e \<and> co_core ob \<noteq> None")
    case True
    then show ?thesis using that fetch_publish_ok [OF u(1,2)] by auto
  next
    case False
    show ?thesis
      by (rule that [of "u\<lparr>s_doclose := Some ''Stream error''\<rparr>" ob']) (use False u(1) in \<open>auto simp: body_frame_def hash_clean_def\<close>)
  qed
  have "cnt_streambody e s = (do {
     let s = v\<lparr>w_acct_tmp := True, s_director := False, s_restarts := 0, w_sctx := False\<rparr>;
     let s = (if e_write_fails e then vca_close_session s else s);
     s \<leftarrow> HSH_Deref_obj s;
     Some (False, s\<lparr>w_resp_ws := False, s_step := STP_DONE\<rparr>)
   })"
    using s ob(1) a t(1,4) td v(1) unfolding cnt_streambody_def
    by (auto simp: u_def [symmetric] Let_def split: if_splits)
  then show ?thesis using s u v(2-9)
    by (auto simp: Let_def HSH_Deref_obj_def deref_core_def vca_close_session_def body_frame_def cnt_inv_def step_inv_def no_object_def fetch_clean_def msgs_clean_def
        hash_clean_def split: option.splits)
qed

lemmas steps_ok = cnt_wait_ok cnt_first_ok cnt_start_ok cnt_recv_ok cnt_pipe_ok cnt_pass_ok cnt_lookup_ok cnt_miss_ok cnt_hit_ok cnt_fetch_ok
  cnt_fetchbody_ok cnt_streambody_ok cnt_prepresp_ok cnt_deliver_ok cnt_error_ok cnt_done_ok

lemma cnt_dispatch_ok:
  assumes "cnt_inv p s" "cnt_legal p e s"
  shows "step_ok p (cnt_dispatch p e s)"
  using assms by (cases "s_step s") (simp_all add: cnt_dispatch_def steps_ok)

lemma cnt_dispatch_cases:
  assumes "cnt_inv p s" "cnt_legal p e s"
  obtains (fin) t where "cnt_dispatch p e s = Some (True, t)" "exit_ok p t" | (goes_on) t where "cnt_dispatch p e s = Some (False, t)" "cnt_inv p t"
proof -
  obtain b t where r: "cnt_dispatch p e s = Some (b, t)" using cnt_dispatch_ok [OF assms] by (cases "cnt_dispatch p e s") auto
  then have "if b then exit_ok p t else cnt_inv p t" using cnt_dispatch_ok [OF assms] by (simp add: step_ok_def)
  then show ?thesis using r that by (cases b) auto
qed

lemma cnt_rounds_ok:
  assumes "cnt_inv p s" "cnt_legals p es s"
  shows "step_ok p (cnt_rounds p es s)"
  using assms
proof (induction es arbitrary: s)
  case (Cons e es)
  have wrk: "s_wrk s" using Cons.prems by (simp add: cnt_inv_def)
  have "cnt_legal p e s" using Cons.prems by simp
  with Cons.prems(1) show ?case
  proof (cases rule: cnt_dispatch_cases)
    case (fin t)
    then have "flags_zero t" "\<not> w_acct_tmp t" by (auto simp: exit_ok_def worker_clean_def)
    then show ?thesis using fin wrk by simp
  next
    case (goes_on t)
    then show ?thesis using wrk Cons by simp
  qed
qed simp

subsection \<open>The graph of the steps\<close>

text \<open>
  The steps that can follow a step, as the \<^verbatim>\<open>DOT\<close> comments of \<^verbatim>\<open>cache_center.c\<close> draw them, and the count of restarts: an edge
  to \<open>STP_RECV\<close> from another step than \<open>STP_START\<close> is a restart.
\<close>

definition cnt_next :: "cnt_step \<Rightarrow> cnt_step list" where
  "cnt_next st = (case st of
     STP_WAIT \<Rightarrow> [STP_WAIT, STP_START, STP_DONE] | STP_FIRST \<Rightarrow> [STP_WAIT] | STP_START \<Rightarrow> [STP_DONE, STP_ERROR, STP_RECV]
   | STP_RECV \<Rightarrow> [STP_ERROR, STP_LOOKUP, STP_PIPE, STP_PASS] | STP_LOOKUP \<Rightarrow> [STP_MISS, STP_HIT, STP_PASS] | STP_MISS \<Rightarrow> [STP_ERROR, STP_PASS, STP_FETCH]
   | STP_HIT \<Rightarrow> [STP_PREPRESP, STP_PASS, STP_ERROR, STP_RECV] | STP_PASS \<Rightarrow> [STP_ERROR, STP_FETCH] | STP_PIPE \<Rightarrow> [STP_DONE]
   | STP_FETCH \<Rightarrow> [STP_FETCHBODY, STP_RECV, STP_ERROR] | STP_FETCHBODY \<Rightarrow> [STP_ERROR, STP_PREPRESP]
   | STP_PREPRESP \<Rightarrow> [STP_RECV, STP_STREAMBODY, STP_DELIVER] | STP_STREAMBODY \<Rightarrow> [STP_DONE] | STP_DELIVER \<Rightarrow> [STP_DONE]
   | STP_ERROR \<Rightarrow> [STP_DONE, STP_RECV, STP_PREPRESP] | STP_DONE \<Rightarrow> [STP_START, STP_WAIT])"

definition cnt_edge :: "csess \<Rightarrow> csess \<Rightarrow> bool" where
  "cnt_edge s t \<longleftrightarrow> s_step t \<in> set (cnt_next (s_step s)) \<and>
     s_restarts t = (if s_step t = STP_RECV \<and> s_step s \<noteq> STP_START then s_restarts s + 1
       else if s_step s \<in> {STP_DELIVER, STP_STREAMBODY, STP_DONE} then 0 else s_restarts s)"

lemmas edge_simps = cnt_edge_def cnt_next_def call_defs Let_def

lemma cnt_wait_edge: "cnt_wait p e s = Some (False, t) \<Longrightarrow> s_step s = STP_WAIT \<Longrightarrow> cnt_edge s t"
  by (auto simp: cnt_wait_def edge_simps assert_c_bind split: if_splits)

lemma cnt_first_edge: "cnt_first s = Some (False, t) \<Longrightarrow> s_step s = STP_FIRST \<Longrightarrow> cnt_edge s t"
  by (auto simp: cnt_first_def edge_simps assert_c_bind split: if_splits)

lemma cnt_start_edge: "cnt_start e s = Some (False, t) \<Longrightarrow> s_step s = STP_START \<Longrightarrow> cnt_edge s t"
  by (auto simp: cnt_start_def edge_simps assert_c_bind split: if_splits)

lemma cnt_recv_edge: "cnt_recv p e s = Some (False, t) \<Longrightarrow> s_step s = STP_RECV \<Longrightarrow> cnt_edge s t"
  by (auto simp: cnt_recv_def edge_simps assert_c_bind split: if_splits vcl_ret.splits)

lemma cnt_lookup_edge: "cnt_lookup e s = Some (False, t) \<Longrightarrow> s_step s = STP_LOOKUP \<Longrightarrow> cnt_edge s t"
  by (auto simp: cnt_lookup_def edge_simps assert_c_bind split: if_splits lookup_result.splits option.splits Option.bind_splits)

lemma cnt_miss_edge: "cnt_miss e s = Some (False, t) \<Longrightarrow> s_step s = STP_MISS \<Longrightarrow> cnt_edge s t"
  by (auto simp: cnt_miss_def edge_simps assert_c_bind split: if_splits vcl_ret.splits option.splits Option.bind_splits)

lemma cnt_hit_edge: "cnt_hit e s = Some (False, t) \<Longrightarrow> s_step s = STP_HIT \<Longrightarrow> cnt_edge s t"
  by (auto simp: cnt_hit_def edge_simps assert_c_bind split: if_splits vcl_ret.splits option.splits Option.bind_splits)

lemma cnt_pass_edge: "cnt_pass e s = Some (False, t) \<Longrightarrow> s_step s = STP_PASS \<Longrightarrow> cnt_edge s t"
  by (auto simp: cnt_pass_def edge_simps assert_c_bind split: if_splits)

lemma cnt_pipe_edge: "cnt_pipe e s = Some (False, t) \<Longrightarrow> s_step s = STP_PIPE \<Longrightarrow> cnt_edge s t"
  by (auto simp: cnt_pipe_def edge_simps assert_c_bind split: if_splits)

lemma cnt_done_edge: "cnt_done p e s = Some (False, t) \<Longrightarrow> s_step s = STP_DONE \<Longrightarrow> cnt_edge s t"
  by (auto simp: cnt_done_def edge_simps assert_c_bind split: if_splits)

lemma cnt_deliver_edge: "cnt_deliver e s = Some (False, t) \<Longrightarrow> s_step s = STP_DELIVER \<Longrightarrow> cnt_edge s t"
  by (auto simp: cnt_deliver_def edge_simps split: if_splits option.splits Option.bind_splits)

lemma fetch_cleanup_edge: "fetch_cleanup s = Some (False, t) \<Longrightarrow> s_step t = STP_RECV \<and> s_restarts t = s_restarts s + 1 \<or> s_step t = STP_ERROR \<and> s_restarts t = s_restarts s"
  by (auto simp: fetch_cleanup_def edge_simps assert_c_bind split: if_splits vcl_ret.splits option.splits Option.bind_splits)

lemma HSH_Drop_s_restarts [simp]: "HSH_Drop_s s = Some t \<Longrightarrow> s_restarts t = s_restarts s"
  by (auto simp: HSH_Drop_s_def HSH_Unbusy_s_def call_defs assert_c_bind split: if_splits option.splits Option.bind_splits)

lemma fetch_publish_restarts [simp]: "fetch_publish s = Some t \<Longrightarrow> s_restarts t = s_restarts s"
  by (auto simp: fetch_publish_def HSH_Unbusy_s_def assert_c_bind split: if_splits option.splits Option.bind_splits)

lemma FetchBody_restarts [simp]: "FetchBody e s = Some (i, t) \<Longrightarrow> s_restarts t = s_restarts s"
  by (auto simp: FetchBody_def Let_def VDI_CloseFd_def VDI_RecycleFd_def AssertObjCorePassOrBusy_def assert_c_bind split: if_splits option.splits Option.bind_splits)

lemma body_filters_restarts [simp]: "body_filters p e s = Some t \<Longrightarrow> s_restarts t = s_restarts s"
  by (auto simp: body_filters_def Let_def assert_c_bind split: if_splits)

lemma body_object_restarts [simp]: "s_restarts (body_object p e s) = s_restarts s"
  by (simp add: body_object_def Let_def STV_NewObject_s_def)

lemma FetchHdr_restarts [simp]: "FetchHdr i s = Some t \<Longrightarrow> s_restarts t = s_restarts s"
  by (auto simp: FetchHdr_def assert_c_bind split: if_splits option.splits Option.bind_splits)

lemma fetch_answer_edge:
  assumes "fetch_answer e s = Some (False, t)"
  shows "s_step t = STP_FETCHBODY \<and> s_restarts t = s_restarts s \<or> s_step t = STP_RECV \<and> s_restarts t = s_restarts s + 1 \<or> s_step t = STP_ERROR \<and> s_restarts t = s_restarts s"
proof -
  define u where "u = VCL_fetch_method e ((RFC2616_Body_s e s)\<lparr>s_err_code := e_status e\<rparr>)"
  have r: "s_restarts u = s_restarts s" by (simp add: u_def VCL_fetch_method_def VCL_method_def RFC2616_Body_s_def)
  have "(case s_handling u of
        VCL_RET_HIT_FOR_PASS \<Rightarrow> Some (False, u\<lparr>s_objcore := map_option (\<lambda>c. c\<lparr>cc_pass := True\<rparr>) (s_objcore u), s_step := STP_FETCHBODY\<rparr>)
      | VCL_RET_DELIVER \<Rightarrow> do { AssertObjCorePassOrBusy (s_objcore u); Some (False, u\<lparr>s_step := STP_FETCHBODY\<rparr>) }
      | _ \<Rightarrow> do { s \<leftarrow> VDI_CloseFd u; fetch_cleanup s }) = Some (False, t)"
    using assms unfolding fetch_answer_def Let_def u_def by (simp add: assert_c_bind split: if_splits)
  moreover have "VDI_CloseFd u \<bind> fetch_cleanup = Some (False, t) \<Longrightarrow> s_step t = STP_RECV \<and> s_restarts t = s_restarts u + 1 \<or> s_step t = STP_ERROR \<and> s_restarts t = s_restarts u"
    by (auto simp: VDI_CloseFd_def assert_c_bind dest!: fetch_cleanup_edge split: if_splits)
  ultimately show ?thesis using r by (cases "s_handling u") (auto split: Option.bind_splits)
qed

lemma cnt_fetch_edge:
  assumes "cnt_fetch e s = Some (False, t)" "s_step s = STP_FETCH"
  shows "cnt_edge s t"
  using assms by (auto simp: cnt_fetch_def cnt_edge_def cnt_next_def assert_c_bind
      dest!: fetch_cleanup_edge fetch_answer_edge FetchHdr_restarts split: if_splits Option.bind_splits)

lemma cnt_fetchbody_edge:
  assumes "cnt_fetchbody p e s = Some (False, t)" "s_step s = STP_FETCHBODY"
  shows "cnt_edge s t"
  using assms by (auto simp: cnt_fetchbody_def cnt_edge_def cnt_next_def VDI_CloseFd_def Let_def assert_c_bind
      split: if_splits option.splits Option.bind_splits prod.splits)

lemma cnt_streambody_edge:
  assumes "cnt_streambody e s = Some (False, t)" "s_step s = STP_STREAMBODY"
  shows "cnt_edge s t"
  using assms by (auto simp: cnt_streambody_def cnt_edge_def cnt_next_def HSH_Deref_obj_def deref_core_def vca_close_session_def Let_def assert_c_bind
      split: if_splits option.splits Option.bind_splits prod.splits)

lemma error_object_restarts [simp]: "s_restarts (error_object e s) = s_restarts s"
  by (simp add: error_object_def Let_def STV_NewObject_s_def HSH_Prealloc_s_def)

lemma cnt_error_edge:
  assumes "cnt_error p e s = Some (False, t)" "s_step s = STP_ERROR"
  shows "cnt_edge s t"
  using assms by (auto simp: cnt_error_def cnt_edge_def cnt_next_def VCL_method_def zap_flags_def Let_def assert_c_bind
      split: if_splits Option.bind_splits)

lemma prep_restart_edge: "prep_restart s = Some (b, t) \<Longrightarrow> s_step t = STP_RECV \<and> s_restarts t = s_restarts s + 1"
  by (auto simp: prep_restart_def VDI_CloseFd_def HSH_Deref_obj_def deref_core_def assert_c_bind split: if_splits option.splits Option.bind_splits)

lemma cnt_prepresp_edge:
  assumes "cnt_prepresp p e s = Some (False, t)" "s_step s = STP_PREPRESP"
  shows "cnt_edge s t"
  using assms by (auto simp: cnt_prepresp_def cnt_edge_def cnt_next_def VCL_method_def Let_def assert_c_bind dest!: prep_restart_edge
      split: if_splits option.splits Option.bind_splits prod.splits)

lemmas steps_edge = cnt_wait_edge cnt_first_edge cnt_start_edge cnt_recv_edge cnt_pipe_edge cnt_pass_edge cnt_lookup_edge cnt_miss_edge cnt_hit_edge cnt_fetch_edge
  cnt_fetchbody_edge cnt_streambody_edge cnt_prepresp_edge cnt_deliver_edge cnt_error_edge cnt_done_edge

lemma cnt_dispatch_edge: "cnt_dispatch p e s = Some (False, t) \<Longrightarrow> cnt_edge s t"
  by (cases "s_step s") (simp_all add: cnt_dispatch_def steps_edge)

text \<open>A bound on the rounds that a request still needs.\<close>

definition cnt_rank :: "cnt_step \<Rightarrow> nat" where
  "cnt_rank st = (case st of STP_START \<Rightarrow> 13 | STP_RECV \<Rightarrow> 12 | STP_LOOKUP \<Rightarrow> 11 | STP_MISS \<Rightarrow> 10 | STP_HIT \<Rightarrow> 10 | STP_PASS \<Rightarrow> 9 | STP_PIPE \<Rightarrow> 9 | STP_FETCH \<Rightarrow> 8
     | STP_FETCHBODY \<Rightarrow> 7 | STP_ERROR \<Rightarrow> 6 | STP_PREPRESP \<Rightarrow> 5 | _ \<Rightarrow> 0)"

definition cnt_bound :: "cnt_params \<Rightarrow> csess \<Rightarrow> nat" where
  "cnt_bound p s = (case s_step s of STP_DONE \<Rightarrow> 1 | STP_DELIVER \<Rightarrow> 2 | STP_STREAMBODY \<Rightarrow> 2
     | _ \<Rightarrow> 13 * (max_restarts p - s_restarts s) + cnt_rank (s_step s))"

text \<open>The session has left the request: the next step waits for or starts another one.\<close>

definition request_over :: "csess \<Rightarrow> bool" where
  "request_over s \<longleftrightarrow> s_step s = STP_START \<or> s_step s = STP_WAIT"

lemma cnt_bound_decreases:
  assumes "cnt_inv p s" "cnt_inv p t" "cnt_edge s t" "s_step s \<noteq> STP_WAIT" "s_step s \<noteq> STP_FIRST" "\<not> request_over t"
  shows "cnt_bound p t < cnt_bound p s"
proof -
  have le: "s_step t = STP_RECV \<Longrightarrow> s_restarts t \<le> max_restarts p" using assms(2) by (simp add: cnt_inv_def step_inv_def)
  show ?thesis using assms(3-6) le
    by (cases "s_step s") (auto simp: cnt_edge_def cnt_next_def cnt_bound_def cnt_rank_def request_over_def)
qed

lemma request_ends:
  assumes "cnt_inv p s" "cnt_legals p es s" "s_step s \<noteq> STP_WAIT" "s_step s \<noteq> STP_FIRST" "cnt_bound p s \<le> length es"
  shows "\<exists>n fin t. 0 < n \<and> n \<le> cnt_bound p s \<and> cnt_rounds p (take n es) s = Some (fin, t) \<and> (fin \<or> request_over t)"
  using assms
proof (induction "cnt_bound p s" arbitrary: s es rule: less_induct)
  case less
  have pos: "0 < cnt_bound p s" using less.prems(3,4) by (auto simp: cnt_bound_def cnt_rank_def split: cnt_step.splits)
  then obtain e es' where es: "es = e # es'" using less.prems(5) by (cases es) auto
  have wrk: "s_wrk s" and legal: "cnt_legal p e s" using less.prems(1,2) es by (auto simp: cnt_inv_def)
  from less.prems(1) legal show ?case
  proof (cases rule: cnt_dispatch_cases)
    case (fin t)
    then have "cnt_rounds p (take 1 es) s = Some (True, t)" using es wrk by (simp add: exit_ok_def worker_clean_def)
    then show ?thesis using pos by (intro exI [of _ 1]) auto
  next
    case (goes_on t)
    have round1: "cnt_rounds p (take (Suc n) es) s = cnt_rounds p (take n es') t" for n using es wrk goes_on by simp
    show ?thesis
    proof (cases "request_over t")
      case True
      then show ?thesis using pos round1 [of 0] by (intro exI [of _ 1]) auto
    next
      case False
      have lt: "cnt_bound p t < cnt_bound p s"
        by (rule cnt_bound_decreases) (use less.prems goes_on False cnt_dispatch_edge in auto)
      have "cnt_legals p es' t" using less.prems(2) es goes_on by simp
      moreover have "s_step t \<noteq> STP_WAIT" using False by (simp add: request_over_def)
      moreover have "s_step t \<noteq> STP_FIRST"
        using cnt_dispatch_edge [OF goes_on(1)] by (auto simp: cnt_edge_def cnt_next_def split: cnt_step.splits)
      ultimately obtain n fin u where "n \<le> cnt_bound p t" "cnt_rounds p (take n es') t = Some (fin, u)" "fin \<or> request_over u"
        using less.hyps [OF lt goes_on(2), of es'] less.prems(5) es lt by auto
      then show ?thesis using lt round1 [of n] by (intro exI [of _ "Suc n"]) auto
    qed
  qed
qed

subsection \<open>Between two workers and into an include\<close>

text \<open>A worker takes over a session that was parked on a waiting list, and \<^verbatim>\<open>ved_include\<close> starts the request of an include on its session.\<close>

definition resume_session :: "csess \<Rightarrow> csess \<Rightarrow> csess" where
  "resume_session w s = s\<lparr>s_wrk := True, w_vcl := w_vcl w, w_do_esi := w_do_esi w, w_do_gzip := w_do_gzip w, w_do_gunzip := w_do_gunzip w,
     w_do_stream := w_do_stream w, w_is_gzip := w_is_gzip w, w_is_gunzip := w_is_gunzip w, w_do_close := w_do_close w,
     w_h_content_length := w_h_content_length w, w_storage_hint := w_storage_hint w, w_vfp := w_vfp w, w_sctx := w_sctx w, w_nbusyobj := w_nbusyobj w,
     w_bereq_ws := w_bereq_ws w, w_beresp_ws := w_beresp_ws w, w_resp_ws := w_resp_ws w, w_res_mode := w_res_mode w, w_exp_ttl := w_exp_ttl w,
     w_acct_tmp := w_acct_tmp w\<rparr>"

definition ved_include :: "csess \<Rightarrow> csess" where
  "ved_include s = zap_flags (s\<lparr>s_esi_level := s_esi_level s + 1, s_obj := None, s_director := False, s_step := STP_RECV\<rparr>)"

lemma resume_session_ok:
  assumes "exit_ok p s" "s_step s = STP_LOOKUP" "worker_clean w" "\<not> w_resp_ws w"
  shows "cnt_inv p (resume_session w s)" "flags_zero (resume_session w s)"
  using assms by (auto simp: resume_session_def state_defs)

lemma ved_include_ok:
  assumes "cnt_inv p s" "s_step s = STP_DELIVER" "s_restarts s = 0"
  shows "cnt_inv p (ved_include s)" "flags_zero (ved_include s)"
  using assms by (auto simp: ved_include_def zap_flags_def state_defs)

subsection \<open>Where the engine stops\<close>

text \<open>Returns that the VCL compiler accepts and that the engine has no code for.\<close>

lemma vcl_return_panics:
  shows "v_handling (e_vcl e) = VCL_RET_RESTART \<Longrightarrow> cnt_miss e s = None"
    and "v_handling (e_vcl e) = VCL_RET_RESTART \<Longrightarrow> cnt_pass e s = None"
    and "v_handling (e_vcl e) = VCL_RET_ERROR \<Longrightarrow> cnt_pipe e s = None"
    and "v_handling (e_vcl e) = VCL_RET_PIPE \<Longrightarrow> s_esi_level s > 0 \<Longrightarrow> s_restarts s < max_restarts p \<Longrightarrow> cnt_recv p e s = None"
  by (simp_all add: cnt_miss_def cnt_pass_def cnt_pipe_def cnt_recv_def VCL_method_def zap_flags_def Let_def assert_c_bind)

text \<open>A restart of a streamed response keeps the filter of the body, and the next body panics on it.\<close>

lemma HSH_Drop_s_vfp [simp]: "HSH_Drop_s s = Some t \<Longrightarrow> w_vfp t = w_vfp s"
  by (auto simp: HSH_Drop_s_def HSH_Unbusy_s_def call_defs assert_c_bind split: if_splits option.splits Option.bind_splits)

lemma prep_restart_keeps_vfp: "prep_restart s = Some (b, t) \<Longrightarrow> w_vfp t = w_vfp s"
  by (auto simp: prep_restart_def VDI_CloseFd_def HSH_Deref_obj_def deref_core_def assert_c_bind split: if_splits option.splits Option.bind_splits)

lemma cnt_fetchbody_vfp_panics: "w_vfp s \<noteq> None \<Longrightarrow> cnt_fetchbody p e s = None"
proof -
  assume "w_vfp s \<noteq> None"
  then have "body_filters p e (if s_objcore s = None then s\<lparr>w_exp_ttl := -1\<rparr> else s) = None" by (auto simp: body_filters_def)
  then show ?thesis unfolding cnt_fetchbody_def by (auto simp: assert_c_def)
qed

lemma body_filters_beresp: "body_filters p e s = Some t \<Longrightarrow> w_beresp_ws t = w_beresp_ws s"
  by (auto simp: body_filters_def Let_def assert_c_bind split: if_splits)

text \<open>Without any storage the session goes to \<open>STP_ERROR\<close> with the busy object core, the storage hint and the backend response still set.\<close>

lemma cnt_fetchbody_no_storage:
  assumes "s_handling s = VCL_RET_DELIVER" "w_vfp s = None" "\<not> e_newobj e" "\<not> e_newobj2 e" "e_gzip_hdr e \<longrightarrow> e_encoding_hdr e"
    "s_obj s = None" "s_vbc s"
  shows "\<exists>t. cnt_fetchbody p e s = Some (False, t) \<and> s_step t = STP_ERROR \<and> s_objcore t = s_objcore s \<and> w_beresp_ws t = w_beresp_ws s
    \<and> (s_objcore s = None \<longrightarrow> w_storage_hint t = Some ''Transient'')"
proof -
  define s0 where "s0 = (if s_objcore s = None then s\<lparr>w_exp_ttl := -1\<rparr> else s)"
  have "w_vfp s0 = None" using assms(2) by (simp add: s0_def)
  then obtain s1 where f: "body_filters p e s0 = Some s1" "s_obj s1 = s_obj s0" "s_vbc s1 = s_vbc s0" "body_frame (s0\<lparr>w_do_stream := w_do_stream s1\<rparr>) s1"
    using body_filters_ok [OF _ assms(5), of s0 p] by blast
  have s1: "body_filters p e s0 = Some s1" "s_obj s1 = None" "s_vbc s1" "s_objcore s1 = s_objcore s" "w_beresp_ws s1 = w_beresp_ws s"
    using f body_filters_beresp [OF f(1)] assms(6,7) by (simp_all add: s0_def body_frame_def)
  have "s_obj (body_object p e s1) = None" "s_vbc (body_object p e s1)" "s_objcore (body_object p e s1) = s_objcore s"
    "w_beresp_ws (body_object p e s1) = w_beresp_ws s" "s_objcore s = None \<longrightarrow> w_storage_hint (body_object p e s1) = Some ''Transient''"
    using s1(2-5) assms(3,4) by (simp_all add: body_object_def STV_NewObject_s_def Let_def)
  then show ?thesis using s1(1) assms(1) unfolding cnt_fetchbody_def s0_def [symmetric]
    by (simp add: VDI_CloseFd_def)
qed

text \<open>A streamed pass closes the connection of the client as after an error, although the body was delivered.\<close>

lemma cnt_streambody_pass_closes:
  assumes "cnt_streambody e s = Some (False, t)" "s_obj s = Some ob" "co_core ob = None" "\<not> e_fetchbody_fails e"
  shows "s_doclose t = Some ''Stream error''"
  using assms by (auto simp: cnt_streambody_def HSH_Deref_obj_def deref_core_def vca_close_session_def Let_def assert_c_bind
      split: if_splits option.splits Option.bind_splits prod.splits)

subsection \<open>Examples\<close>

definition ex_params :: cnt_params where
  "ex_params = \<lparr>max_restarts = 4, session_linger = 0, http_gzip_support = True, shortlived = 10\<rparr>"

definition ex_vcl :: "vcl_ret \<Rightarrow> vcl_out" where
  "ex_vcl h = \<lparr>v_handling = h, v_err_code = None, v_disable_esi = False, v_do_esi = False, v_do_gzip = False, v_do_gunzip = False, v_do_stream = False,
     v_ttl = 120, v_storage_hint = None\<rparr>"

definition ex_found :: cobj where
  "ex_found = \<lparr>co_core = Some \<lparr>cc_busy = False, cc_pass = False\<rparr>, co_esidata = False, co_gziped = False, co_len = 5, co_response = 200\<rparr>"

definition ex_env :: "vcl_ret \<Rightarrow> cnt_env" where
  "ex_env h = \<lparr>e_complete = 1, e_polled = True, e_rx = 1, e_eof = False, e_new_xid = 7, e_dissect = 0, e_protover = 11, e_connection = None, e_expect = None,
     e_head = False, e_vcl = ex_vcl h, e_hash_ret = VCL_RET_HASH, e_lookup = Lookup_Found ex_found, e_fetchhdr = 0, e_fetchhdr2 = 0, e_status = 200,
     e_content_length = True, e_do_close = False, e_gzip_hdr = False, e_encoding_hdr = False, e_fetch_close = False, e_newobj = True, e_newobj2 = True,
     e_not_modified = False, e_fetchbody_fails = False, e_obj_len = 5, e_esidata = False, e_client_gzip = True, e_pipe_fd = True, e_write_fails = False,
     e_reinit = 0, e_rxbuf = False\<rparr>"

definition ex_sess :: csess where
  "ex_sess = \<lparr>s_step = STP_START, s_wrk = True, s_fd = True, s_xid = 0, s_restarts = 0, s_esi_level = 0, s_vcl = False, s_director = False, s_obj = None,
     s_objcore = None, s_vbc = False, s_handling = VCL_RET_DELIVER, s_err_code = 0, s_doclose = None, s_wantbody = True, s_sendbody = False,
     s_disable_esi = False, s_hash_objhead = False, s_vary_b = False, s_ws_r = False, s_protover = 11, w_vcl = True, w_do_esi = False, w_do_gzip = False,
     w_do_gunzip = False, w_do_stream = False, w_is_gzip = False, w_is_gunzip = False, w_do_close = False, w_h_content_length = False, w_storage_hint = None,
     w_vfp = None, w_sctx = False, w_nbusyobj = True, w_bereq_ws = False, w_beresp_ws = False, w_resp_ws = False, w_res_mode = 0, w_exp_ttl = 0,
     w_acct_tmp = False\<rparr>"

text \<open>The rounds of a miss that is fetched and delivered.\<close>

definition ex_miss :: "cnt_env list" where
  "ex_miss = map (\<lambda>h. (ex_env h)\<lparr>e_lookup := Lookup_New\<rparr>)
     [VCL_RET_DELIVER, VCL_RET_LOOKUP, VCL_RET_DELIVER, VCL_RET_FETCH, VCL_RET_DELIVER, VCL_RET_DELIVER, VCL_RET_DELIVER, VCL_RET_DELIVER, VCL_RET_DELIVER]"

lemmas ex_defs = ex_params_def ex_vcl_def ex_found_def ex_env_def ex_sess_def

lemma ex_sess_inv: "cnt_inv ex_params ex_sess" "flags_zero ex_sess" "s_step ex_sess = STP_START"
  by (simp_all add: ex_defs state_defs)

lemma ex_miss_legal: "cnt_legals ex_params ex_miss ex_sess"
  by code_simp

subsection \<open>Properties\<close>

text \<open>
  C17: every step of the state engine, begun in the state that its step wants and in a world of
  \<open>cnt_legal\<close> (no overflow of the receive buffer, no fetch without storage, no restart of a filtered stream, only VCL
  returns that the engine has code for), ends without a failed assertion: the session is then either in the state that its next step wants, or the
  worker is done with it and leaves it parked, handed back or finished, with its own fields as the next session wants them.
\<close>

theorem cnt_step_typed:
  assumes "cnt_inv p s" "cnt_legal p e s"
  shows "\<exists>fin t. cnt_dispatch p e s = Some (fin, t) \<and> (if fin then exit_ok p t else cnt_inv p t)"
  using assms by (cases rule: cnt_dispatch_cases) auto

theorem cnt_step_typed_witness:
  "\<exists>fin t. cnt_dispatch ex_params (ex_env VCL_RET_DELIVER) ex_sess = Some (fin, t) \<and> (if fin then exit_ok ex_params t else cnt_inv ex_params t)"
  using cnt_step_typed [OF ex_sess_inv(1), of "ex_env VCL_RET_DELIVER"] ex_sess_inv(3) by (simp add: cnt_legal_def)


text \<open>
  C1: a session that enters the engine at one of its entrance steps runs for any number of rounds
  without a panic, in every world of \<open>cnt_legal\<close>: no request overflows the receive buffer, every fetch gets storage, no
  streamed response with a filter is restarted, and VCL returns what the engine has code for. (In the other worlds it
  does panic, as the lemmas above and the last property show.) When the worker is done with it the worker is clean: no flag, no account, no message on its
  workspace, no storage hint and no backend connection is left, and a session that waits for a busy object can be taken
  over by any other clean worker.
\<close>

theorem CNT_Session_safe:
  assumes "cnt_inv p s" "flags_zero s" "s_step s \<in> {STP_FIRST, STP_START, STP_LOOKUP, STP_RECV}" "cnt_legals p es s"
  shows "\<exists>fin t. CNT_Session p es s = Some (fin, t) \<and> (if fin then exit_ok p t \<and> worker_clean t else cnt_inv p t) \<and>
    (\<forall>w. fin \<and> s_step t = STP_LOOKUP \<and> worker_clean w \<and> \<not> w_resp_ws w \<longrightarrow> cnt_inv p (resume_session w t) \<and> flags_zero (resume_session w t))"
proof -
  have "CNT_Session p es s = cnt_rounds p es s" using assms by (simp add: CNT_Session_def cnt_inv_def)
  then obtain fin t where t: "CNT_Session p es s = Some (fin, t)" "if fin then exit_ok p t else cnt_inv p t"
    using cnt_rounds_ok [OF assms(1,4)] by (cases "cnt_rounds p es s") (auto simp: step_ok_def)
  moreover have "worker_clean t" if fin using t(2) that by (simp add: exit_ok_def)
  ultimately show ?thesis using resume_session_ok [of p t] by (intro exI [of _ fin] exI [of _ t]) auto
qed

theorem CNT_Session_safe_witness:
  "\<exists>t. CNT_Session ex_params ex_miss ex_sess = Some (True, t) \<and> exit_ok ex_params t \<and> worker_clean t"
proof -
  have "map_option fst (CNT_Session ex_params ex_miss ex_sess) = Some True" by code_simp
  then show ?thesis
    using CNT_Session_safe [OF ex_sess_inv(1,2) _ ex_miss_legal] ex_sess_inv(3) by auto
qed


text \<open>
  C16: a request is over after at most \<open>13 (max_restarts + 1)\<close> rounds, however often the VCL program
  restarts it: then the worker is done with the session, or the session waits for or starts its next request.
\<close>

theorem request_terminates:
  assumes "cnt_inv p s" "s_step s = STP_START" "cnt_legals p es s" "13 * (max_restarts p + 1) \<le> length es"
  shows "\<exists>n fin t. 0 < n \<and> n \<le> 13 * (max_restarts p + 1) \<and> cnt_rounds p (take n es) s = Some (fin, t) \<and> (fin \<or> request_over t)"
proof -
  have "cnt_bound p s \<le> 13 * (max_restarts p + 1)" using assms(2) by (simp add: cnt_bound_def cnt_rank_def)
  then show ?thesis using request_ends [OF assms(1,3)] assms(2,4) by fastforce
qed

theorem request_terminates_witness:
  "\<exists>n fin t. 0 < n \<and> n \<le> 65 \<and> cnt_rounds ex_params (take n (ex_miss @ replicate 60 (ex_env VCL_RET_DELIVER))) ex_sess = Some (fin, t) \<and> (fin \<or> request_over t)"
proof -
  have "cnt_legals ex_params (ex_miss @ replicate 60 (ex_env VCL_RET_DELIVER)) ex_sess" by code_simp
  then show ?thesis
    using request_terminates [OF ex_sess_inv(1,3), of "ex_miss @ replicate 60 (ex_env VCL_RET_DELIVER)"] by (simp add: ex_miss_def ex_params_def)
qed


text \<open>
  C38: when a request overflows its receive buffer, \<open>cnt_wait\<close> closes the connection and stays in
  \<open>STP_WAIT\<close>; with nothing more to read the next round hands the closed session back to the acceptor, where an assertion
  fails.
\<close>

theorem cnt_wait_overflow_panics:
  assumes "cnt_inv p s" "s_step s = STP_WAIT" "wait_result p e = -2" "wait_result p e' = 0"
  shows "cnt_dispatch p e s \<noteq> None \<and> cnt_rounds p (e # e' # es) s = None"
  using assms
  by (auto simp: cnt_dispatch_def cnt_wait_def wait_result_def cnt_inv_def step_inv_def between_requests_def no_object_def call_defs Let_def)

theorem cnt_wait_overflow_panics_witness:
  "cnt_rounds ex_params [(ex_env VCL_RET_DELIVER)\<lparr>e_complete := -2\<rparr>, (ex_env VCL_RET_DELIVER)\<lparr>e_complete := 0\<rparr>] (ex_sess\<lparr>s_step := STP_WAIT\<rparr>) = None"
  using cnt_wait_overflow_panics [of ex_params "ex_sess\<lparr>s_step := STP_WAIT\<rparr>" "(ex_env VCL_RET_DELIVER)\<lparr>e_complete := -2\<rparr>" "(ex_env VCL_RET_DELIVER)\<lparr>e_complete := 0\<rparr>" "[]"]
  by (simp add: ex_defs state_defs wait_result_def)

end
