(* ===== verification/Backend_Pool.thy ===== *)
theory Backend_Pool
  imports Complex_Main Varnish_Prelude
begin

text \<open>
  One backend with its connections, \<^verbatim>\<open>bin/varnishd/cache_backend.c\<close> and the counting of references in
  \<^verbatim>\<open>cache_backend_cfg.c\<close> and \<^verbatim>\<open>cache_dir.c\<close>: connections wait on a list for reuse, a session takes one or opens a new one and
  gives it back or closes it; the backend counts its connections and the references of sessions and VCL programs. Also
  the health of a backend for one object, with the trouble list of saint mode.

  A connection is a key into the store of them. Whether an address can be connected to, what the new file descriptor is
  and whether an idle connection is still good are arguments. A worker thread is not the CLI thread, so for it
  \<open>ASSERT_CLI\<close> fails.
\<close>

subsection \<open>State\<close>

record vbc =
  vc_fd :: int
  vc_backend :: bool
  vc_addr :: bool
  vc_recycled :: bool

record trouble =
  tr_target :: nat
  tr_timeout :: rat

record backend =
  be_refcount :: int
  be_vcls :: int
  be_n_conn :: nat
  be_connlist :: "nat list"
  be_healthy :: bool
  be_troublelist :: "trouble list"
  be_nuked :: bool
  be_conns :: "nat \<rightharpoonup> vbc"

text \<open>The limits of the VCL program and the parameter; \<open>None\<close> for a threshold that the program does not give.\<close>

record vrt_backend =
  max_connections :: nat
  saintmode_threshold :: "nat option"

record conn_env =
  ce_prefer_ipv6 :: bool
  ce_ipv4 :: "int option"
  ce_ipv6 :: "int option"

subsection \<open>References\<close>

definition VBE_ReleaseConn :: "nat \<Rightarrow> backend \<Rightarrow> backend option" where
  "VBE_ReleaseConn i b = do {
     vc \<leftarrow> be_conns b i;
     assert_c (\<not> vc_backend vc);
     assert_c (vc_fd vc < 0);
     Some (b\<lparr>be_conns := (be_conns b)(i := None)\<rparr>)
   }"

fun drop_conns :: "nat list \<Rightarrow> backend \<Rightarrow> backend option" where
  "drop_conns [] b = Some b"
| "drop_conns (i # l) b = do {
     vc \<leftarrow> be_conns b i;
     b \<leftarrow> VBE_ReleaseConn i (b\<lparr>be_connlist := l, be_conns := (be_conns b)(i \<mapsto> vc\<lparr>vc_fd := (if vc_fd vc \<ge> 0 then -1 else vc_fd vc), vc_backend := False\<rparr>)\<rparr>);
     drop_conns l b
   }"

definition VBE_Nuke :: "backend \<Rightarrow> backend" where
  "VBE_Nuke b = b\<lparr>be_nuked := True\<rparr>"

definition VBE_DropRefLocked :: "bool \<Rightarrow> backend \<Rightarrow> backend option" where
  "VBE_DropRefLocked cli b = do {
     assert_c (\<not> be_nuked b);
     assert_c (be_refcount b > 0);
     let b = b\<lparr>be_refcount := be_refcount b - 1\<rparr>;
     (if be_refcount b > 0 then Some b
      else do {
        assert_c cli;
        b \<leftarrow> drop_conns (be_connlist b) b;
        Some (VBE_Nuke b)
      })
   }"

definition VBE_DropRefVcl :: "backend \<Rightarrow> backend option" where
  "VBE_DropRefVcl b = VBE_DropRefLocked True (b\<lparr>be_vcls := be_vcls b - 1\<rparr>)"

definition VBE_DropRefConn :: "bool \<Rightarrow> backend \<Rightarrow> backend option" where
  "VBE_DropRefConn cli b = do {
     assert_c (be_n_conn b > 0);
     VBE_DropRefLocked cli (b\<lparr>be_n_conn := be_n_conn b - 1\<rparr>)
   }"

text \<open>\<open>VDI_CloseFd\<close> and \<open>VDI_RecycleFd\<close> for the connection \<open>i\<close> of a session.\<close>

definition pool_CloseFd :: "nat \<Rightarrow> backend \<Rightarrow> backend option" where
  "pool_CloseFd i b = do {
     vc \<leftarrow> be_conns b i;
     assert_c (vc_backend vc);
     assert_c (vc_fd vc \<ge> 0);
     b \<leftarrow> VBE_DropRefConn False (b\<lparr>be_conns := (be_conns b)(i \<mapsto> vc\<lparr>vc_fd := -1\<rparr>)\<rparr>);
     vc \<leftarrow> be_conns b i;
     VBE_ReleaseConn i (b\<lparr>be_conns := (be_conns b)(i \<mapsto> vc\<lparr>vc_backend := False\<rparr>)\<rparr>)
   }"

definition pool_RecycleFd :: "nat \<Rightarrow> backend \<Rightarrow> backend option" where
  "pool_RecycleFd i b = do {
     vc \<leftarrow> be_conns b i;
     assert_c (vc_backend vc);
     assert_c (vc_fd vc \<ge> 0);
     VBE_DropRefLocked False (b\<lparr>be_connlist := i # be_connlist b\<rparr>)
   }"

subsection \<open>The backends of the VCL programs\<close>

text \<open>What a VCL program says of a backend: its name, and its addresses without their length bytes.\<close>

record be_key =
  bk_name :: string
  bk_ipv4 :: "nat list option"
  bk_ipv6 :: "nat list option"

definition be_matches :: "be_key \<Rightarrow> be_key \<Rightarrow> bool" where
  "be_matches b vb \<longleftrightarrow> bk_name b = bk_name vb \<and> \<not> (bk_ipv4 vb \<noteq> None \<and> bk_ipv4 b \<noteq> bk_ipv4 vb) \<and> \<not> (bk_ipv6 vb \<noteq> None \<and> bk_ipv6 b \<noteq> bk_ipv6 vb)"

definition backend_new :: backend where
  "backend_new = \<lparr>be_refcount = 1, be_vcls = 1, be_n_conn = 0, be_connlist = [], be_healthy = True, be_troublelist = [], be_nuked = False, be_conns = Map.empty\<rparr>"

fun backend_find :: "be_key \<Rightarrow> (be_key \<times> backend) list \<Rightarrow> (be_key \<times> backend) list" where
  "backend_find vb [] = [(vb, backend_new)]"
| "backend_find vb ((k, b) # bs) =
     (if be_matches k vb then (k, b\<lparr>be_refcount := be_refcount b + 1, be_vcls := be_vcls b + 1\<rparr>) # bs else (k, b) # backend_find vb bs)"

definition VBE_AddBackend :: "be_key \<Rightarrow> (be_key \<times> backend) list \<Rightarrow> (be_key \<times> backend) list option" where
  "VBE_AddBackend vb bs = do {
     assert_c (bk_ipv4 vb \<noteq> None \<or> bk_ipv6 vb \<noteq> None);
     Some (backend_find vb bs)
   }"

subsection \<open>Health\<close>

text \<open>
  \<open>VRT_l_beresp_saintmode\<close> puts the object head on the trouble list of the backend that the connection \<open>vbc\<close> of the session
  belongs to, for \<open>a\<close> seconds.
\<close>

fun trouble_insert :: "trouble \<Rightarrow> trouble list \<Rightarrow> trouble list" where
  "trouble_insert new [] = [new]"
| "trouble_insert new (tr # trs) = (if tr_timeout tr < tr_timeout new then new # tr # trs else tr # trouble_insert new trs)"

definition VRT_l_beresp_saintmode :: "nat option \<Rightarrow> nat option \<Rightarrow> rat \<Rightarrow> rat \<Rightarrow> backend \<Rightarrow> backend option" where
  "VRT_l_beresp_saintmode vbc target t_req a b =
     (case vbc of
        None \<Rightarrow> Some b
      | Some i \<Rightarrow> do {
          vc \<leftarrow> be_conns b i;
          (if \<not> vc_backend vc then Some b
           else case target of
               None \<Rightarrow> Some b
             | Some t \<Rightarrow> do {
                 assert_c (a > 0);
                 Some (b\<lparr>be_troublelist := trouble_insert \<lparr>tr_target = t, tr_timeout = t_req + a\<rparr> (be_troublelist b)\<rparr>)
               })
        })"

text \<open>The scan of the trouble list: the result, and the entry that has timed out.\<close>

fun trouble_scan :: "nat \<Rightarrow> nat \<Rightarrow> rat \<Rightarrow> nat \<Rightarrow> trouble list \<Rightarrow> bool \<times> trouble list" where
  "trouble_scan i threshold now target [] = (True, [])"
| "trouble_scan i threshold now target (tr # trs) =
     (if tr_timeout tr < now then (True, trs)
      else if tr_target tr = target then (False, tr # trs)
      else if i + 1 \<ge> threshold then (False, tr # trs)
      else let (r, l) = trouble_scan (i + 1) threshold now target trs in (r, tr # l))"

text \<open>\<open>target\<close> is the object head of the session, \<open>None\<close> when it has no object core.\<close>

definition saint_threshold :: "nat \<Rightarrow> vrt_backend \<Rightarrow> nat" where
  "saint_threshold saintmode_param vs = (case saintmode_threshold vs of None \<Rightarrow> saintmode_param | Some t \<Rightarrow> t)"

definition vbe_Healthy :: "nat \<Rightarrow> vrt_backend \<Rightarrow> rat \<Rightarrow> nat option \<Rightarrow> backend \<Rightarrow> bool \<times> backend" where
  "vbe_Healthy saintmode_param vs now target b =
     (let threshold = saint_threshold saintmode_param vs in
      if \<not> be_healthy b then (False, b)
      else if threshold = 0 then (True, b)
      else (case target of
          None \<Rightarrow> (True, b)
        | Some t \<Rightarrow> let (r, l) = trouble_scan 0 threshold now t (be_troublelist b) in (r, b\<lparr>be_troublelist := l\<rparr>)))"

subsection \<open>Getting a connection\<close>

definition vbe_NewConn :: "nat \<Rightarrow> backend \<Rightarrow> backend" where
  "vbe_NewConn i b = b\<lparr>be_conns := (be_conns b)(i \<mapsto> \<lparr>vc_fd = -1, vc_backend = False, vc_addr = False, vc_recycled = False\<rparr>)\<rparr>"

text \<open>The descriptor of an attempt to connect; an address that the backend does not have is \<open>None\<close>.\<close>

definition connect_fd :: "conn_env \<Rightarrow> int" where
  "connect_fd e =
     (let s = -1;
          s = (case ce_ipv6 e of Some f \<Rightarrow> if ce_prefer_ipv6 e then f else s | None \<Rightarrow> s);
          s = (case ce_ipv4 e of Some f \<Rightarrow> if s = -1 then f else s | None \<Rightarrow> s)
      in case ce_ipv6 e of Some f \<Rightarrow> if s = -1 \<and> \<not> ce_prefer_ipv6 e then f else s | None \<Rightarrow> s)"

definition bes_conn_try :: "conn_env \<Rightarrow> nat \<Rightarrow> backend \<Rightarrow> backend option" where
  "bes_conn_try e i b = do {
     let b = b\<lparr>be_refcount := be_refcount b + 1, be_n_conn := be_n_conn b + 1\<rparr>;
     assert_c (ce_ipv6 e \<noteq> None \<or> ce_ipv4 e \<noteq> None);
     vc \<leftarrow> be_conns b i;
     let s = connect_fd e;
     let b = b\<lparr>be_conns := (be_conns b)(i \<mapsto> vc\<lparr>vc_fd := s, vc_addr := (s \<ge> 0)\<rparr>)\<rparr>;
     Some (if s < 0 then b\<lparr>be_n_conn := be_n_conn b - 1, be_refcount := be_refcount b - 1\<rparr> else b)
   }"

text \<open>The loop over idle connections; \<open>good i\<close> is what \<open>vbe_CheckFd\<close> answers.\<close>

fun reuse_loop :: "(nat \<Rightarrow> bool) \<Rightarrow> nat list \<Rightarrow> backend \<Rightarrow> (nat option \<times> backend) option" where
  "reuse_loop good [] b = Some (None, b)"
| "reuse_loop good (i # l) b = do {
     vc \<leftarrow> be_conns b i;
     assert_c (vc_backend vc);
     assert_c (vc_fd vc \<ge> 0);
     assert_c (vc_addr vc);
     let b = b\<lparr>be_refcount := be_refcount b + 1, be_connlist := l\<rparr>;
     (if good i then Some (Some i, b\<lparr>be_conns := (be_conns b)(i \<mapsto> vc\<lparr>vc_recycled := True\<rparr>)\<rparr>)
      else do {
        b \<leftarrow> VBE_DropRefConn False (b\<lparr>be_conns := (be_conns b)(i \<mapsto> vc\<lparr>vc_fd := -1\<rparr>)\<rparr>);
        vc \<leftarrow> be_conns b i;
        b \<leftarrow> VBE_ReleaseConn i (b\<lparr>be_conns := (be_conns b)(i \<mapsto> vc\<lparr>vc_backend := False\<rparr>)\<rparr>);
        reuse_loop good l b
      })
   }"

definition vbe_GetVbe :: "nat \<Rightarrow> vrt_backend \<Rightarrow> rat \<Rightarrow> nat option \<Rightarrow> (nat \<Rightarrow> bool) \<Rightarrow> conn_env \<Rightarrow> nat \<Rightarrow> backend \<Rightarrow> (nat option \<times> backend) option" where
  "vbe_GetVbe saintmode_param vs now target good e new b = do {
     (r, b) \<leftarrow> reuse_loop good (be_connlist b) b;
     (case r of
        Some i \<Rightarrow> Some (Some i, b)
      | None \<Rightarrow>
          let (h, b) = vbe_Healthy saintmode_param vs now target b in
          if \<not> h then Some (None, b)
          else if max_connections vs > 0 \<and> be_n_conn b \<ge> max_connections vs then Some (None, b)
          else do {
            b \<leftarrow> bes_conn_try e new (vbe_NewConn new b);
            vc \<leftarrow> be_conns b new;
            (if vc_fd vc < 0 then do { b \<leftarrow> VBE_ReleaseConn new b; Some (None, b) }
             else Some (Some new, b\<lparr>be_conns := (be_conns b)(new \<mapsto> vc\<lparr>vc_backend := True\<rparr>)\<rparr>))
          })
   }"

subsection \<open>The trouble list\<close>

text \<open>The entries stand with the latest timeout first, so that behind one that has timed out all have.\<close>

definition trouble_ok :: "trouble list \<Rightarrow> bool" where
  "trouble_ok l \<longleftrightarrow> sorted_wrt (\<lambda>x y. tr_timeout y \<le> tr_timeout x) l"

lemma trouble_insert_ok [simp]: "trouble_ok l \<Longrightarrow> trouble_ok (trouble_insert new l)"
proof (induction l)
  case (Cons tr l)
  have "set (trouble_insert new l) = insert new (set l)" by (induction l) auto
  then show ?case using Cons by (fastforce simp: trouble_ok_def)
qed (simp add: trouble_ok_def)

text \<open>The scan answers for the entries that have not timed out, and keeps all of those.\<close>

lemma trouble_scan_ok:
  assumes "trouble_ok l" "i < threshold" "trouble_scan i threshold now t l = (r, l')"
  shows "trouble_ok l' \<and> set l' \<subseteq> set l \<and> filter (\<lambda>tr. now \<le> tr_timeout tr) l' = filter (\<lambda>tr. now \<le> tr_timeout tr) l \<and>
    (r \<longleftrightarrow> (\<forall>tr \<in> set l. now \<le> tr_timeout tr \<longrightarrow> tr_target tr \<noteq> t) \<and> i + length (filter (\<lambda>tr. now \<le> tr_timeout tr) l) < threshold)"
  using assms
proof (induction l arbitrary: i r l')
  case (Cons tr l)
  have ok: "trouble_ok l" "\<And>x. x \<in> set l \<Longrightarrow> tr_timeout x \<le> tr_timeout tr" using Cons.prems(1) by (auto simp: trouble_ok_def)
  consider "tr_timeout tr < now" | "\<not> tr_timeout tr < now" "tr_target tr = t \<or> threshold \<le> i + 1" | "\<not> tr_timeout tr < now" "tr_target tr \<noteq> t" "i + 1 < threshold"
    by linarith
  then show ?case
  proof cases
    case 1
    then have old: "\<And>x. x \<in> set l \<Longrightarrow> \<not> now \<le> tr_timeout x" using ok(2) by (meson leD le_less_trans)
    then have "filter (\<lambda>tr. now \<le> tr_timeout tr) l = []" by simp
    then show ?thesis using 1 old Cons.prems ok(1) by auto
  next
    case 2
    then have "trouble_scan i threshold now t (tr # l) = (False, tr # l)" by (cases "tr_target tr = t") simp_all
    then have "\<not> r" "l' = tr # l" using Cons.prems(3) by simp_all
    then show ?thesis using 2 Cons.prems(1,2) by auto
  next
    case 3
    obtain r1 l1 where s: "trouble_scan (i + 1) threshold now t l = (r1, l1)" by force
    then have "r = r1" "l' = tr # l1" using 3 Cons.prems(3) by auto
    then show ?thesis using Cons.IH [OF ok(1) 3(3) s] 3 ok(2) by (auto simp: trouble_ok_def)
  qed
qed simp

definition in_trouble :: "rat \<Rightarrow> backend \<Rightarrow> trouble list" where
  "in_trouble now b = filter (\<lambda>tr. now \<le> tr_timeout tr) (be_troublelist b)"

subsection \<open>Every connection is counted\<close>

text \<open>
  \<open>busy\<close> are the connections that sessions hold, \<open>vcls\<close> the number of VCL programs that refer to the backend. A session
  with a connection also holds a VCL program, so there is one while connections are busy.
\<close>

definition conn_ok :: "vbc \<Rightarrow> bool" where
  "conn_ok vc \<longleftrightarrow> 0 \<le> vc_fd vc \<and> vc_backend vc \<and> vc_addr vc"

definition pool_ok :: "nat \<Rightarrow> nat list \<Rightarrow> backend \<Rightarrow> bool" where
  "pool_ok vcls busy b \<longleftrightarrow> \<not> be_nuked b \<and> be_refcount b = int (vcls + length busy) \<and> be_n_conn b = length busy + length (be_connlist b) \<and>
     distinct (busy @ be_connlist b) \<and> dom (be_conns b) = set (busy @ be_connlist b) \<and> (\<forall>i vc. be_conns b i = Some vc \<longrightarrow> conn_ok vc) \<and>
     be_vcls b = int vcls \<and> trouble_ok (be_troublelist b)"

lemma pool_connE:
  assumes "pool_ok vcls busy b" "i \<in> set (busy @ be_connlist b)"
  obtains vc where "be_conns b i = Some vc" "0 \<le> vc_fd vc" "vc_backend vc" "vc_addr vc"
proof -
  have "i \<in> dom (be_conns b)" using assms by (simp add: pool_ok_def)
  then obtain vc where vc: "be_conns b i = Some vc" by auto
  then have "conn_ok vc" using assms(1) unfolding pool_ok_def by blast
  then show ?thesis using that [OF vc] by (simp add: conn_ok_def)
qed

lemma pool_CloseFd_ok:
  assumes "pool_ok vcls busy b" "0 < vcls" "i \<in> set busy"
  shows "\<exists>b'. pool_CloseFd i b = Some b' \<and> pool_ok vcls (remove1 i busy) b' \<and> be_connlist b' = be_connlist b"
proof -
  obtain vc where vc: "be_conns b i = Some vc" "0 \<le> vc_fd vc" "vc_backend vc" using pool_connE [OF assms(1), of i] assms(3) by auto
  obtain k where n: "length busy = Suc k" using assms(3) by (cases busy) auto
  have r1: "1 < int vcls + int (length busy)" using n assms(2) by linarith
  have ok: "\<not> be_nuked b" "be_refcount b = int (vcls + length busy)" "be_n_conn b = length busy + length (be_connlist b)"
    "distinct (busy @ be_connlist b)" "dom (be_conns b) = set (busy @ be_connlist b)" "\<forall>i vc. be_conns b i = Some vc \<longrightarrow> conn_ok vc"
    "be_vcls b = int vcls" "trouble_ok (be_troublelist b)"
    using assms(1) by (auto simp: pool_ok_def)
  define b' where "b' = b\<lparr>be_n_conn := be_n_conn b - 1, be_refcount := be_refcount b - 1, be_conns := (be_conns b)(i := None)\<rparr>"
  have "pool_CloseFd i b = Some b'"
    using vc n r1 ok(1-3) assms(2) by (simp add: pool_CloseFd_def VBE_DropRefConn_def VBE_DropRefLocked_def VBE_ReleaseConn_def b'_def Let_def)
  moreover have "pool_ok vcls (remove1 i busy) b'"
    using ok n assms(3) by (auto simp: pool_ok_def b'_def length_remove1 simp del: length_greater_0_conv split: if_splits)
  ultimately show ?thesis by (simp add: b'_def)
qed

lemma pool_RecycleFd_ok:
  assumes "pool_ok vcls busy b" "0 < vcls" "i \<in> set busy"
  shows "\<exists>b'. pool_RecycleFd i b = Some b' \<and> pool_ok vcls (remove1 i busy) b' \<and> be_n_conn b' = be_n_conn b"
proof -
  obtain vc where vc: "be_conns b i = Some vc" "0 \<le> vc_fd vc" "vc_backend vc" using pool_connE [OF assms(1), of i] assms(3) by auto
  obtain k where n: "length busy = Suc k" using assms(3) by (cases busy) auto
  have r1: "1 < int vcls + int (length busy)" using n assms(2) by linarith
  define b' where "b' = b\<lparr>be_connlist := i # be_connlist b, be_refcount := be_refcount b - 1\<rparr>"
  have "pool_RecycleFd i b = Some b'"
    using vc n r1 assms by (simp add: pool_RecycleFd_def VBE_DropRefLocked_def pool_ok_def b'_def Let_def)
  moreover have "pool_ok vcls (remove1 i busy) b'"
    using n assms by (auto simp: pool_ok_def b'_def length_remove1)
  ultimately show ?thesis by (simp add: b'_def)
qed

lemma reuse_loop_ok:
  assumes "pool_ok vcls busy b" "0 < vcls" "l = be_connlist b"
  shows "\<exists>r b'. reuse_loop good l b = Some (r, b') \<and> be_healthy b' = be_healthy b \<and> be_troublelist b' = be_troublelist b \<and>
    be_n_conn b' \<le> be_n_conn b \<and> dom (be_conns b') \<subseteq> dom (be_conns b) \<and>
    (case r of None \<Rightarrow> pool_ok vcls busy b' \<and> be_connlist b' = [] \<and> filter good l = []
     | Some i \<Rightarrow> pool_ok vcls (i # busy) b' \<and> good i \<and> i \<notin> set busy \<and> hd (filter good l) = i)"
  using assms
proof (induction l arbitrary: b)
  case Nil
  then show ?case by auto
next
  case (Cons i l)
  have ok: "\<not> be_nuked b" "be_refcount b = int (vcls + length busy)" "be_n_conn b = length busy + Suc (length l)"
    "distinct (busy @ i # l)" "dom (be_conns b) = set (busy @ i # l)" "\<forall>i vc. be_conns b i = Some vc \<longrightarrow> conn_ok vc"
    "be_vcls b = int vcls" "trouble_ok (be_troublelist b)"
    using Cons.prems(1) unfolding pool_ok_def Cons.prems(3) [symmetric] by simp_all
  obtain vc where vc: "be_conns b i = Some vc" "0 \<le> vc_fd vc" "vc_backend vc" "vc_addr vc"
    using pool_connE [OF Cons.prems(1), of i] Cons.prems(3) [symmetric] by auto
  show ?case
  proof (cases "good i")
    case True
    define b' where "b' = b\<lparr>be_refcount := be_refcount b + 1, be_connlist := l, be_conns := (be_conns b)(i \<mapsto> vc\<lparr>vc_recycled := True\<rparr>)\<rparr>"
    have "reuse_loop good (i # l) b = Some (Some i, b')" using True vc by (simp add: b'_def Let_def)
    moreover have "pool_ok vcls (i # busy) b'" using ok vc by (auto simp: pool_ok_def b'_def conn_ok_def)
    ultimately show ?thesis using True ok(4) by (auto simp: b'_def)
  next
    case False
    define b' where "b' = b\<lparr>be_connlist := l, be_n_conn := be_n_conn b - 1, be_refcount := be_refcount b, be_conns := (be_conns b)(i := None)\<rparr>"
    have eq: "reuse_loop good (i # l) b = reuse_loop good l b'"
      using False vc ok(1-3) Cons.prems(2) by (simp add: VBE_DropRefConn_def VBE_DropRefLocked_def VBE_ReleaseConn_def b'_def Let_def)
    have fr: "be_connlist b' = l" "be_healthy b' = be_healthy b" "be_troublelist b' = be_troublelist b" "be_n_conn b' \<le> be_n_conn b"
      "dom (be_conns b') \<subseteq> dom (be_conns b)" "filter good (i # l) = filter good l" using False by (auto simp: b'_def)
    have "pool_ok vcls busy b'" using ok by (auto simp: pool_ok_def b'_def split: if_splits)
    from Cons.IH [OF this Cons.prems(2) fr(1) [symmetric]] show ?thesis
      unfolding eq fr(6) using fr(2-5) by (elim exE conjE) (intro exI conjI, assumption, simp, simp, linarith, blast, assumption)
  qed
qed

lemma pool_ok_trouble [simp]: "pool_ok vcls busy b \<Longrightarrow> trouble_ok l \<Longrightarrow> pool_ok vcls busy (b\<lparr>be_troublelist := l\<rparr>)"
  by (simp add: pool_ok_def)

lemma vbe_Healthy_ok:
  assumes "pool_ok vcls busy b" "vbe_Healthy sp vs now target b = (h, b')"
  shows "(h \<longleftrightarrow> be_healthy b \<and> (saint_threshold sp vs = 0 \<or> target = None \<or>
      target \<notin> Some ` tr_target ` set (in_trouble now b) \<and> length (in_trouble now b) < saint_threshold sp vs)) \<and>
    in_trouble now b' = in_trouble now b \<and> pool_ok vcls busy b' \<and> (\<exists>trs. b' = b\<lparr>be_troublelist := trs\<rparr>)"
proof (cases "be_healthy b \<and> saint_threshold sp vs \<noteq> 0 \<and> target \<noteq> None")
  case True
  then obtain t where t: "target = Some t" by auto
  obtain r l where s: "trouble_scan 0 (saint_threshold sp vs) now t (be_troublelist b) = (r, l)" by force
  have ok: "trouble_ok (be_troublelist b)" using assms(1) by (simp add: pool_ok_def)
  have "h = r" "b' = b\<lparr>be_troublelist := l\<rparr>" using assms(2) True t s by (simp_all add: vbe_Healthy_def)
  then show ?thesis using trouble_scan_ok [OF ok _ s] True t assms(1) by (auto simp: in_trouble_def intro: exI [of _ l])
next
  case False
  then have "h = be_healthy b" "b' = b" using assms(2) by (auto simp: vbe_Healthy_def Let_def split: if_splits)
  then show ?thesis using False assms(1) by (auto intro: exI [of _ "be_troublelist b"])
qed

text \<open>A legal answer of the world: a descriptor, or -1, and a key for a new connection that is not in use.\<close>

definition conn_env_ok :: "conn_env \<Rightarrow> bool" where
  "conn_env_ok e \<longleftrightarrow> (ce_ipv4 e \<noteq> None \<or> ce_ipv6 e \<noteq> None) \<and> (case ce_ipv4 e of None \<Rightarrow> True | Some f \<Rightarrow> -1 \<le> f) \<and> (case ce_ipv6 e of None \<Rightarrow> True | Some f \<Rightarrow> -1 \<le> f)"

lemma new_conn_ok:
  assumes "pool_ok vcls busy b" "conn_env_ok e" "be_conns b new = None"
  shows "\<exists>b1 vc. bes_conn_try e new (vbe_NewConn new b) = Some b1 \<and> be_conns b1 new = Some vc \<and>
    (if connect_fd e < 0 then vc_fd vc < 0 \<and> (\<exists>b2. VBE_ReleaseConn new b1 = Some b2 \<and> pool_ok vcls busy b2 \<and> be_n_conn b2 = be_n_conn b \<and> be_healthy b2 = be_healthy b \<and> be_troublelist b2 = be_troublelist b)
     else 0 \<le> vc_fd vc \<and> pool_ok vcls (new # busy) (b1\<lparr>be_conns := (be_conns b1)(new \<mapsto> vc\<lparr>vc_backend := True\<rparr>)\<rparr>) \<and> be_n_conn b1 = be_n_conn b + 1 \<and> be_healthy b1 = be_healthy b \<and> be_troublelist b1 = be_troublelist b)"
proof (cases "connect_fd e < 0")
  case True
  have "ce_ipv6 e \<noteq> None \<or> ce_ipv4 e \<noteq> None" using assms(2) by (auto simp: conn_env_ok_def)
  moreover have "(be_conns b)(new := None) = be_conns b" using assms(3) by auto
  ultimately show ?thesis using assms(1) True
    by (simp add: bes_conn_try_def vbe_NewConn_def VBE_ReleaseConn_def pool_ok_def Let_def)
next
  case False
  have "ce_ipv6 e \<noteq> None \<or> ce_ipv4 e \<noteq> None" using assms(2) by (auto simp: conn_env_ok_def)
  moreover have "new \<notin> dom (be_conns b)" using assms(3) by auto
  ultimately show ?thesis using assms(1) False
    by (auto simp: bes_conn_try_def vbe_NewConn_def pool_ok_def conn_ok_def Let_def)
qed

lemma vbe_GetVbe_ok:
  assumes "pool_ok vcls busy b" "0 < vcls" "conn_env_ok e" "be_conns b new = None"
  shows "\<exists>r b'. vbe_GetVbe sp vs now target good e new b = Some (r, b') \<and>
    (case r of None \<Rightarrow> pool_ok vcls busy b' | Some i \<Rightarrow> pool_ok vcls (i # busy) b' \<and> i \<notin> set busy) \<and>
    (0 < max_connections vs \<longrightarrow> be_n_conn b' \<le> max (be_n_conn b) (max_connections vs)) \<and>
    be_healthy b' = be_healthy b \<and> in_trouble now b' = in_trouble now b"
proof -
  obtain r b1 where l: "reuse_loop good (be_connlist b) b = Some (r, b1)" "be_n_conn b1 \<le> be_n_conn b" "dom (be_conns b1) \<subseteq> dom (be_conns b)"
      "be_healthy b1 = be_healthy b" "be_troublelist b1 = be_troublelist b"
    and r: "case r of None \<Rightarrow> pool_ok vcls busy b1 | Some i \<Rightarrow> pool_ok vcls (i # busy) b1 \<and> i \<notin> set busy"
    using reuse_loop_ok [OF assms(1,2) refl, of good] by (auto split: option.splits)
  show ?thesis
  proof (cases r)
    case (Some i)
    then show ?thesis using l r by (simp add: vbe_GetVbe_def le_max_iff_disj in_trouble_def)
  next
    case None
    then have p1: "pool_ok vcls busy b1" using r by simp
    obtain h b0 where h: "vbe_Healthy sp vs now target b1 = (h, b0)" by force
    have ok: "pool_ok vcls busy b0" "in_trouble now b0 = in_trouble now b1" using vbe_Healthy_ok [OF p1 h] by blast+
    have b0: "be_conns b0 = be_conns b1" "be_n_conn b0 = be_n_conn b1" "be_healthy b0 = be_healthy b1" using vbe_Healthy_ok [OF p1 h] by auto
    have "be_conns b0 new = None" using l(3) assms(4) b0(1) by auto
    from new_conn_ok [OF ok(1) assms(3) this] obtain b2 vc where c: "bes_conn_try e new (vbe_NewConn new b0) = Some b2" "be_conns b2 new = Some vc"
      "if connect_fd e < 0 then vc_fd vc < 0 \<and> (\<exists>b3. VBE_ReleaseConn new b2 = Some b3 \<and> pool_ok vcls busy b3 \<and> be_n_conn b3 = be_n_conn b0 \<and> be_healthy b3 = be_healthy b0 \<and> be_troublelist b3 = be_troublelist b0)
       else 0 \<le> vc_fd vc \<and> pool_ok vcls (new # busy) (b2\<lparr>be_conns := (be_conns b2)(new \<mapsto> vc\<lparr>vc_backend := True\<rparr>)\<rparr>) \<and> be_n_conn b2 = be_n_conn b0 + 1 \<and> be_healthy b2 = be_healthy b0 \<and> be_troublelist b2 = be_troublelist b0"
      by blast
    have new: "new \<notin> set busy" using assms(1,4) by (auto simp: pool_ok_def)
    have tr: "in_trouble now b0 = in_trouble now b" using ok(2) l(5) by (simp add: in_trouble_def)
    show ?thesis
    proof (cases "h \<and> \<not> (max_connections vs > 0 \<and> be_n_conn b1 \<ge> max_connections vs)")
      case True
      then show ?thesis using l(1,2,4) b0 None h c new tr by (auto simp: vbe_GetVbe_def in_trouble_def split: if_splits)
    next
      case False
      then show ?thesis using l(1,2,4) b0 None h ok(1) tr by (auto simp: vbe_GetVbe_def)
    qed
  qed
qed

text \<open>Saint mode for a session with a connection.\<close>

lemma VRT_l_beresp_saintmode_ok:
  assumes "pool_ok vcls busy b" "i \<in> set busy" "0 < a"
  shows "\<exists>b'. VRT_l_beresp_saintmode (Some i) target t_req a b = Some b' \<and> pool_ok vcls busy b' \<and> be_n_conn b' = be_n_conn b"
proof -
  obtain vc where "be_conns b i = Some vc" "vc_backend vc" using pool_connE [OF assms(1), of i] assms(2) by auto
  moreover have "trouble_ok (be_troublelist b)" using assms(1) by (simp add: pool_ok_def)
  ultimately show ?thesis using assms(1,3) by (auto simp: VRT_l_beresp_saintmode_def split: option.splits)
qed

subsection \<open>Sessions at work\<close>

text \<open>
  What sessions do with the backend, one after the other: one gets a connection, the session with the \<open>k\<close>th busy
  connection closes it, gives it back, or sets \<open>beresp.saintmode\<close>.
\<close>

datatype pool_op =
    Get_op rat "nat option" "nat \<Rightarrow> bool" conn_env
  | Close_op nat
  | Recycle_op nat
  | Saint_op nat "nat option" rat rat

definition fresh_key :: "nat list \<Rightarrow> backend \<Rightarrow> nat" where
  "fresh_key busy b = Suc (sum_list (busy @ be_connlist b))"

fun pool_step :: "nat \<Rightarrow> vrt_backend \<Rightarrow> pool_op \<Rightarrow> nat list \<times> backend \<Rightarrow> (nat list \<times> backend) option" where
  "pool_step sp vs (Get_op now target good e) (busy, b) = do {
     (r, b) \<leftarrow> vbe_GetVbe sp vs now target good e (fresh_key busy b) b;
     Some ((case r of None \<Rightarrow> busy | Some i \<Rightarrow> i # busy), b)
   }"
| "pool_step sp vs (Close_op k) (busy, b) =
     (if k < length busy then map_option (\<lambda>b. (remove1 (busy ! k) busy, b)) (pool_CloseFd (busy ! k) b) else Some (busy, b))"
| "pool_step sp vs (Recycle_op k) (busy, b) =
     (if k < length busy then map_option (\<lambda>b. (remove1 (busy ! k) busy, b)) (pool_RecycleFd (busy ! k) b) else Some (busy, b))"
| "pool_step sp vs (Saint_op k target t_req a) (busy, b) =
     (if k < length busy then map_option (\<lambda>b. (busy, b)) (VRT_l_beresp_saintmode (Some (busy ! k)) target t_req a b) else Some (busy, b))"

fun pool_run :: "nat \<Rightarrow> vrt_backend \<Rightarrow> pool_op list \<Rightarrow> nat list \<times> backend \<Rightarrow> (nat list \<times> backend) option" where
  "pool_run sp vs [] s = Some s"
| "pool_run sp vs (op # ops) s = pool_step sp vs op s \<bind> pool_run sp vs ops"

text \<open>The world answers as it can, and VCL sets a positive time.\<close>

fun pool_op_ok :: "pool_op \<Rightarrow> bool" where
  "pool_op_ok (Get_op now target good e) = conn_env_ok e"
| "pool_op_ok (Saint_op k target t_req a) = (0 < a)"
| "pool_op_ok _ = True"

lemma fresh_key_new:
  assumes "pool_ok vcls busy b"
  shows "be_conns b (fresh_key busy b) = None"
proof -
  have "\<And>x l. x \<in> set l \<Longrightarrow> x \<le> sum_list (l :: nat list)" by (rule member_le_sum_list) simp_all
  then have "fresh_key busy b \<notin> set (busy @ be_connlist b)" unfolding fresh_key_def using Suc_n_not_le_n by blast
  then show ?thesis using assms by (auto simp: pool_ok_def)
qed

lemma pool_step_ok:
  assumes "pool_ok vcls busy b" "0 < vcls" "pool_op_ok op"
  shows "\<exists>busy' b'. pool_step sp vs op (busy, b) = Some (busy', b') \<and> pool_ok vcls busy' b' \<and>
    (0 < max_connections vs \<longrightarrow> be_n_conn b' \<le> max (be_n_conn b) (max_connections vs))"
proof (cases op)
  case (Get_op now target good e)
  then show ?thesis using vbe_GetVbe_ok [OF assms(1,2) _ fresh_key_new [OF assms(1)], of e sp vs now target good] assms(3)
    by (auto split: option.splits)
next
  case (Close_op k)
  have "be_n_conn b' \<le> be_n_conn b" if "pool_ok vcls (remove1 (busy ! k) busy) b'" "be_connlist b' = be_connlist b" for b'
    using that assms(1) by (simp add: pool_ok_def length_remove1 split: if_splits)
  then show ?thesis
    using Close_op assms(1) pool_CloseFd_ok [OF assms(1,2), of "busy ! k"] by (cases "k < length busy") (auto simp: le_max_iff_disj)
next
  case (Recycle_op k)
  then show ?thesis
    using assms(1) pool_RecycleFd_ok [OF assms(1,2), of "busy ! k"] by (cases "k < length busy") (auto simp: le_max_iff_disj)
next
  case (Saint_op k target t_req a)
  then have "0 < a" using assms(3) by simp
  then show ?thesis
    using Saint_op assms(1) VRT_l_beresp_saintmode_ok [OF assms(1), of "busy ! k" a target t_req]
    by (cases "k < length busy") (auto simp: le_max_iff_disj)
qed

lemma pool_run_ok:
  assumes "pool_ok vcls busy b" "0 < vcls" "\<forall>op \<in> set ops. pool_op_ok op"
  shows "\<exists>busy' b'. pool_run sp vs ops (busy, b) = Some (busy', b') \<and> pool_ok vcls busy' b' \<and>
    (0 < max_connections vs \<longrightarrow> be_n_conn b' \<le> max (be_n_conn b) (max_connections vs))"
  using assms(1,3)
proof (induction ops arbitrary: busy b)
  case (Cons op ops)
  obtain busy1 b1 where 1: "pool_step sp vs op (busy, b) = Some (busy1, b1)" "pool_ok vcls busy1 b1"
    "0 < max_connections vs \<longrightarrow> be_n_conn b1 \<le> max (be_n_conn b) (max_connections vs)"
    using pool_step_ok [OF Cons.prems(1) assms(2), of op sp vs] Cons.prems(2) by auto
  obtain busy2 b2 where 2: "pool_run sp vs ops (busy1, b1) = Some (busy2, b2)" "pool_ok vcls busy2 b2"
    "0 < max_connections vs \<longrightarrow> be_n_conn b2 \<le> max (be_n_conn b1) (max_connections vs)"
    using Cons.IH [OF 1(2)] Cons.prems(2) by auto
  then show ?case using 1 by (auto simp: max_def split: if_splits)
qed (simp add: le_max_iff_disj)

text \<open>The first and the last reference of a VCL program.\<close>

lemma VBE_AddBackend_new: "VBE_AddBackend vb [] = (if bk_ipv4 vb \<noteq> None \<or> bk_ipv6 vb \<noteq> None then Some [(vb, backend_new)] else None)"
  by (simp add: VBE_AddBackend_def)

lemma pool_ok_new: "pool_ok 1 [] backend_new"
  by (simp add: pool_ok_def backend_new_def trouble_ok_def)

lemma drop_conns_ok:
  assumes "distinct l" "set l \<subseteq> dom (be_conns b)" "be_connlist b = l"
  shows "\<exists>b'. drop_conns l b = Some b' \<and> be_connlist b' = [] \<and> be_conns b' = be_conns b |` (- set l) \<and> be_nuked b' = be_nuked b"
  using assms
proof (induction l arbitrary: b)
  case Nil
  then show ?case by simp
next
  case (Cons i l)
  then obtain vc where vc: "be_conns b i = Some vc" by auto
  let ?b = "b\<lparr>be_connlist := l, be_conns := (be_conns b)(i := None)\<rparr>"
  have eq: "drop_conns (i # l) b = drop_conns l ?b" by (simp add: vc VBE_ReleaseConn_def)
  have d: "distinct l" "set l \<subseteq> dom (be_conns ?b)" "be_connlist ?b = l" using Cons.prems by auto
  obtain b' where b': "drop_conns l ?b = Some b'" "be_connlist b' = []" "be_conns b' = be_conns ?b |` (- set l)" "be_nuked b' = be_nuked ?b"
    using Cons.IH [OF d] by blast
  have "be_conns ?b |` (- set l) = be_conns b |` (- set (i # l))" by (auto simp: restrict_map_def)
  then show ?case using b' eq by simp
qed

lemma VBE_DropRefVcl_last:
  assumes "pool_ok 1 [] b"
  shows "\<exists>b'. VBE_DropRefVcl b = Some b' \<and> be_nuked b' \<and> be_conns b' = Map.empty"
proof -
  let ?b = "b\<lparr>be_vcls := be_vcls b - 1, be_refcount := 0\<rparr>"
  have ok: "distinct (be_connlist b)" "dom (be_conns b) = set (be_connlist b)" "\<not> be_nuked b" "be_refcount b = 1" using assms by (simp_all add: pool_ok_def)
  obtain b' where b': "drop_conns (be_connlist ?b) ?b = Some b'" "be_conns b' = be_conns b |` (- set (be_connlist b))"
    using drop_conns_ok [of "be_connlist ?b" ?b] ok by auto
  have "\<And>i. i \<notin> set (be_connlist b) \<Longrightarrow> be_conns b i = None" using ok(2) by blast
  then have "be_conns b |` (- set (be_connlist b)) = Map.empty" by (intro ext) (simp add: restrict_map_def)
  then show ?thesis using b' ok(3,4) by (simp add: VBE_DropRefVcl_def VBE_DropRefLocked_def VBE_Nuke_def Let_def)
qed

text \<open>
  The last reference must not be that of a connection: no worker thread may take the backend down. The VCL programs are
  kept by the sessions that run them, so one is left while connections are busy.
\<close>

lemma worker_last_ref_panics:
  assumes "pool_ok 0 [i] b"
  shows "pool_CloseFd i b = None" "pool_RecycleFd i b = None"
proof -
  obtain vc where "be_conns b i = Some vc" using pool_connE [OF assms, of i] by auto
  moreover have "be_refcount b = 1" "be_n_conn b = Suc (length (be_connlist b))" "\<not> be_nuked b" using assms by (simp_all add: pool_ok_def)
  ultimately show "pool_CloseFd i b = None" "pool_RecycleFd i b = None"
    by (simp_all add: pool_CloseFd_def pool_RecycleFd_def VBE_DropRefConn_def VBE_DropRefLocked_def)
qed

text \<open>
  The search for an existing backend compares only the addresses that the new VCL program gives. A program whose backend
  has lost its IPv6 address goes on with the old backend, which still has it and may still connect to it.
\<close>

lemma VBE_AddBackend_one_sided:
  assumes "bk_name k = bk_name vb" "bk_ipv4 k = bk_ipv4 vb" "bk_ipv4 vb \<noteq> None" "bk_ipv6 vb = None" "bk_ipv6 k \<noteq> None"
  shows "VBE_AddBackend vb [(k, b)] = Some [(k, b\<lparr>be_refcount := be_refcount b + 1, be_vcls := be_vcls b + 1\<rparr>)]"
  using assms by (simp add: VBE_AddBackend_def be_matches_def)

text \<open>A time of zero in VCL takes the child process down.\<close>

lemma saintmode_zero_panics:
  assumes "pool_ok vcls busy b" "i \<in> set busy"
  shows "VRT_l_beresp_saintmode (Some i) (Some t) t_req 0 b = None"
proof -
  obtain vc where "be_conns b i = Some vc" "vc_backend vc" using pool_connE [OF assms(1), of i] assms(2) by auto
  then show ?thesis by (simp add: VRT_l_beresp_saintmode_def)
qed

subsection \<open>Properties\<close>

definition ex_vrt :: vrt_backend where
  "ex_vrt = \<lparr>max_connections = 1, saintmode_threshold = None\<rparr>"

definition ex_env :: conn_env where
  "ex_env = \<lparr>ce_prefer_ipv6 = False, ce_ipv4 = Some 5, ce_ipv6 = None\<rparr>"

definition ex_pool :: "int \<Rightarrow> nat list \<Rightarrow> trouble list \<Rightarrow> backend" where
  "ex_pool r l trs = \<lparr>be_refcount = r, be_vcls = 1, be_n_conn = 1, be_connlist = l, be_healthy = True, be_troublelist = trs, be_nuked = False,
     be_conns = [1 \<mapsto> \<lparr>vc_fd = 5, vc_backend = True, vc_addr = True, vc_recycled = False\<rparr>]\<rparr>"

lemma connect_ex [simp]: "connect_fd ex_env = 5"
  by (simp add: connect_fd_def ex_env_def)

lemma env_ex [simp]: "ce_ipv4 ex_env = Some 5"
  by (simp add: ex_env_def)

lemma healthy_new: "vbe_Healthy 10 ex_vrt 0 (Some 7) backend_new = (True, backend_new)"
  by (simp add: vbe_Healthy_def saint_threshold_def ex_vrt_def backend_new_def)

lemma get_ex: "vbe_GetVbe 10 ex_vrt 0 (Some 7) (\<lambda>i. False) ex_env 1 backend_new = Some (Some 1, ex_pool 2 [] [])"
proof -
  have "be_connlist backend_new = []" "be_n_conn backend_new = 0" by (simp_all add: backend_new_def)
  then show ?thesis
    by (simp add: vbe_GetVbe_def healthy_new bes_conn_try_def vbe_NewConn_def) (simp add: ex_vrt_def ex_pool_def backend_new_def)
qed

lemma pool_ex_steps:
  "pool_step 10 ex_vrt (Get_op 0 (Some 7) (\<lambda>i. False) ex_env) ([], backend_new) = Some ([1], ex_pool 2 [] [])"
  "pool_step 10 ex_vrt (Saint_op 0 (Some 7) 0 20) ([1], ex_pool 2 [] []) = Some ([1], ex_pool 2 [] [\<lparr>tr_target = 7, tr_timeout = 20\<rparr>])"
  "pool_step 10 ex_vrt (Recycle_op 0) ([1], ex_pool 2 [] trs) = Some ([], ex_pool 1 [1] trs)"
proof -
  have "fresh_key [] backend_new = 1" by (simp add: fresh_key_def backend_new_def)
  then show "pool_step 10 ex_vrt (Get_op 0 (Some 7) (\<lambda>i. False) ex_env) ([], backend_new) = Some ([1], ex_pool 2 [] [])"
    using get_ex by simp
qed (simp_all add: ex_pool_def VRT_l_beresp_saintmode_def pool_RecycleFd_def VBE_DropRefLocked_def)

lemma pool_ex_ops:
  "pool_run 10 ex_vrt [Get_op 0 (Some 7) (\<lambda>i. False) ex_env, Saint_op 0 (Some 7) 0 20, Recycle_op 0] ([], backend_new)
   = Some ([], ex_pool 1 [1] [\<lparr>tr_target = 7, tr_timeout = 20\<rparr>])"
  by (simp only: pool_run.simps pool_ex_steps bind.bind_lunit)

text \<open>
  C39: whatever sessions do with a backend that a VCL program refers to, in any order - get a connection,
  close it, give it back, put an object on the trouble list - no assertion fails: a connection that is taken from the pool
  is open, belongs to the backend and is in nobody else's hands, the backend counts its references and connections
  exactly, no session opens a connection beyond \<open>max_connections\<close> (the sessions taking turns), and when no connection is busy
  the last VCL program to leave closes all idle connections and frees the backend.
\<close>

theorem pool_run_safe:
  assumes "pool_ok vcls busy b" "0 < vcls" "\<forall>op \<in> set ops. pool_op_ok op"
  shows "\<exists>busy' b'. pool_run sp vs ops (busy, b) = Some (busy', b') \<and> pool_ok vcls busy' b' \<and>
    (0 < max_connections vs \<longrightarrow> be_n_conn b' \<le> max (be_n_conn b) (max_connections vs)) \<and>
    (vcls = 1 \<and> busy' = [] \<longrightarrow> (\<exists>b''. VBE_DropRefVcl b' = Some b'' \<and> be_nuked b'' \<and> be_conns b'' = Map.empty))"
proof -
  obtain busy' b' where "pool_run sp vs ops (busy, b) = Some (busy', b')" "pool_ok vcls busy' b'"
    "0 < max_connections vs \<longrightarrow> be_n_conn b' \<le> max (be_n_conn b) (max_connections vs)"
    using pool_run_ok [OF assms] by blast
  moreover from this(2) have "vcls = 1 \<and> busy' = [] \<longrightarrow> (\<exists>b''. VBE_DropRefVcl b' = Some b'' \<and> be_nuked b'' \<and> be_conns b'' = Map.empty)"
    using VBE_DropRefVcl_last by blast
  ultimately show ?thesis by (intro exI conjI)
qed

lemma pool_run_safe_witness:
  "\<exists>b' b''. pool_run 10 ex_vrt [Get_op 0 (Some 7) (\<lambda>i. False) ex_env, Saint_op 0 (Some 7) 0 20, Recycle_op 0] ([], backend_new)
     = Some ([], b') \<and> be_n_conn b' \<le> 1 \<and> VBE_DropRefVcl b' = Some b'' \<and> be_conns b'' = Map.empty"
proof -
  have "\<forall>op \<in> set [Get_op 0 (Some 7) (\<lambda>i. False) ex_env, Saint_op 0 (Some 7) 0 20, Recycle_op 0]. pool_op_ok op"
    by (simp add: conn_env_ok_def ex_env_def)
  from pool_run_safe [OF pool_ok_new _ this, of 10 ex_vrt] show ?thesis
    unfolding pool_ex_ops by (auto simp: ex_pool_def)
qed

text \<open>
  C40: in every state that the operations keep, with the trouble list in the order of its time-outs, a
  backend is healthy for an object exactly if its probe says so and, where saint mode is on and
  the session has an object, that object is not among the entries of the trouble list that still hold and there are
  fewer of those than the threshold; asking takes no entry away that still holds.
\<close>

theorem saint_mode_correct:
  assumes "pool_ok vcls busy b" "vbe_Healthy sp vs now target b = (h, b')"
  shows "(h \<longleftrightarrow> be_healthy b \<and> (saint_threshold sp vs = 0 \<or> target = None \<or>
      target \<notin> Some ` tr_target ` set (in_trouble now b) \<and> length (in_trouble now b) < saint_threshold sp vs)) \<and>
    in_trouble now b' = in_trouble now b \<and> pool_ok vcls busy b'"
  using vbe_Healthy_ok [OF assms] by blast

lemma saint_mode_correct_witness:
  "\<not> fst (vbe_Healthy 10 \<lparr>max_connections = 1, saintmode_threshold = None\<rparr> 5 (Some 7) (backend_new\<lparr>be_troublelist := [\<lparr>tr_target = 7, tr_timeout = 20\<rparr>]\<rparr>))"
proof -
  let ?b = "backend_new\<lparr>be_troublelist := [\<lparr>tr_target = 7, tr_timeout = 20\<rparr>]\<rparr>"
  have "pool_ok 1 [] ?b" by (rule pool_ok_trouble [OF pool_ok_new]) (simp add: trouble_ok_def)
  from saint_mode_correct [OF this prod.collapse [symmetric], of 10 "\<lparr>max_connections = 1, saintmode_threshold = None\<rparr>" 5 "Some 7"]
  show ?thesis by (simp add: in_trouble_def saint_threshold_def)
qed

end
