(* ===== verification/Directors.thy ===== *)
theory Directors
  imports Complex_Main Backend_Pool
begin

text \<open>
  Directors, \<^verbatim>\<open>bin/varnishd/cache_dir_round_robin.c\<close> (round robin and fallback) and \<^verbatim>\<open>cache_dir_random.c\<close> (random, hash
  and client), and the simple director of \<^verbatim>\<open>cache_backend.c\<close> on the connection pool.

  A director calls the directors below it through two function pointers, \<open>healthy\<close> and \<open>getfd\<close>: both are arguments here,
  and the locale \<open>director\<close> states what one may expect of them. Directors below are numbers, \<open>'s\<close> is their state and
  \<open>'c\<close> the type of connections. The doubles of the weights are rational numbers, so nothing is lost by rounding.
\<close>

subsection \<open>Round robin and fallback\<close>

datatype mode_e = m_round_robin | m_fallback

record vdi_round_robin =
  rr_mode :: mode_e
  rr_hosts :: "nat list"
  rr_next_host :: nat

definition rr_backend :: "nat \<Rightarrow> vdi_round_robin \<Rightarrow> nat \<times> vdi_round_robin" where
  "rr_backend i vs =
     (case rr_mode vs of
        m_round_robin \<Rightarrow> (rr_hosts vs ! rr_next_host vs, vs\<lparr>rr_next_host := (rr_next_host vs + 1) mod length (rr_hosts vs)\<rparr>)
      | m_fallback \<Rightarrow> (rr_hosts vs ! i, vs))"

text \<open>The loop with \<open>k\<close> rounds to go, so that \<open>i\<close> is the number of hosts less \<open>k\<close>.\<close>

fun rr_loop :: "(nat \<Rightarrow> 's \<Rightarrow> bool \<times> 's) \<Rightarrow> (nat \<Rightarrow> 's \<Rightarrow> ('c option \<times> 's) option) \<Rightarrow> nat \<Rightarrow> vdi_round_robin \<Rightarrow> 's \<Rightarrow>
    ('c option \<times> vdi_round_robin \<times> 's) option" where
  "rr_loop healthy getfd 0 vs s = Some (None, vs, s)"
| "rr_loop healthy getfd (Suc k) vs s =
     (let (backend, vs) = rr_backend (length (rr_hosts vs) - Suc k) vs; (ok, s) = healthy backend s in
      if \<not> ok then rr_loop healthy getfd k vs s
      else do {
        (vbe, s) \<leftarrow> getfd backend s;
        (case vbe of Some c \<Rightarrow> Some (Some c, vs, s) | None \<Rightarrow> rr_loop healthy getfd k vs s)
      })"

definition vdi_round_robin_getfd where
  "vdi_round_robin_getfd healthy getfd vs s = rr_loop healthy getfd (length (rr_hosts vs)) vs s"

fun any_healthy :: "(nat \<Rightarrow> 's \<Rightarrow> bool \<times> 's) \<Rightarrow> nat list \<Rightarrow> 's \<Rightarrow> bool \<times> 's" where
  "any_healthy healthy [] s = (False, s)"
| "any_healthy healthy (h # hs) s = (let (ok, s) = healthy h s in if ok then (True, s) else any_healthy healthy hs s)"

definition vdi_round_robin_healthy where
  "vdi_round_robin_healthy healthy vs s = any_healthy healthy (rr_hosts vs) s"

definition vrt_init_dir :: "mode_e \<Rightarrow> nat list \<Rightarrow> vdi_round_robin" where
  "vrt_init_dir mode members = \<lparr>rr_mode = mode, rr_hosts = members, rr_next_host = 0\<rparr>"

definition VRT_init_dir_round_robin :: "nat list \<Rightarrow> vdi_round_robin" where
  "VRT_init_dir_round_robin members = vrt_init_dir m_round_robin members"

definition VRT_init_dir_fallback :: "nat list \<Rightarrow> vdi_round_robin" where
  "VRT_init_dir_fallback members = vrt_init_dir m_fallback members"

subsection \<open>Random\<close>

datatype crit_e = c_random | c_hash | c_client

record vdi_random =
  ra_criteria :: crit_e
  ra_retries :: nat
  ra_hosts :: "(nat \<times> rat) list"

fun vle32dec :: "nat list \<Rightarrow> nat" where
  "vle32dec (a # b # c # d # _) = a + 256 * (b + 256 * (c + 256 * d))"
| "vle32dec _ = 0"

text \<open>\<open>sha\<close> is the digest that \<^verbatim>\<open>vsha256.c\<close> computes, \<open>rnd\<close> what \<open>random ()\<close> returns.\<close>

definition vdi_random_sha :: "(string \<Rightarrow> nat list) \<Rightarrow> string \<Rightarrow> rat" where
  "vdi_random_sha sha input = of_nat (vle32dec (sha input)) / 2 ^ 32"

definition vdi_random_init_seed :: "(string \<Rightarrow> nat list) \<Rightarrow> nat \<Rightarrow> string option \<Rightarrow> string \<Rightarrow> nat list \<Rightarrow> vdi_random \<Rightarrow> rat" where
  "vdi_random_init_seed sha rnd client_identity addr digest vs =
     (case ra_criteria vs of
        c_client \<Rightarrow> vdi_random_sha sha (case client_identity of Some p \<Rightarrow> p | None \<Rightarrow> addr)
      | c_hash \<Rightarrow> of_nat (vle32dec digest) / 2 ^ 32
      | c_random \<Rightarrow> of_nat rnd / 2 ^ 31)"

fun ra_weights :: "(nat \<Rightarrow> 's \<Rightarrow> bool \<times> 's) \<Rightarrow> (nat \<times> rat) list \<Rightarrow> 's \<Rightarrow> rat list \<times> 's" where
  "ra_weights healthy [] s = ([], s)"
| "ra_weights healthy ((h, w) # hs) s = (let (ok, s) = healthy h s; (ws, s) = ra_weights healthy hs s in ((if ok then w else 0) # ws, s))"

fun ra_choose :: "rat \<Rightarrow> rat \<Rightarrow> nat list \<Rightarrow> rat list \<Rightarrow> nat option" where
  "ra_choose r s1 (h # hs) (w # ws) = (let s1 = s1 + w in if r < s1 then Some h else ra_choose r s1 hs ws)"
| "ra_choose r s1 _ _ = None"

definition vdi_random_pick_one where
  "vdi_random_pick_one healthy getfd vs r s = do {
     assert_c (0 \<le> r \<and> r < 1);
     let (w, s) = ra_weights healthy (ra_hosts vs) s; s1 = sum_list w in
     (if s1 = 0 then Some (None, s)
      else case ra_choose (r * s1) 0 (map fst (ra_hosts vs)) w of None \<Rightarrow> Some (None, s) | Some h \<Rightarrow> getfd h s)
   }"

text \<open>\<open>rehash r\<close> is \<open>vdi_random_sha\<close> of the bytes of the double \<open>r\<close>.\<close>

fun ra_loop where
  "ra_loop healthy getfd rehash 0 vs r s = Some (None, s)"
| "ra_loop healthy getfd rehash (Suc k) vs r s = do {
     (vbe, s) \<leftarrow> vdi_random_pick_one healthy getfd vs r s;
     (case vbe of Some c \<Rightarrow> Some (Some c, s) | None \<Rightarrow> ra_loop healthy getfd rehash k vs (rehash r) s)
   }"

definition vdi_random_getfd where
  "vdi_random_getfd healthy getfd sha rehash rnd client_identity addr digest vs s =
     ra_loop healthy getfd rehash (ra_retries vs) vs (vdi_random_init_seed sha rnd client_identity addr digest vs) s"

definition vdi_random_healthy where
  "vdi_random_healthy healthy vs s = any_healthy healthy (map fst (ra_hosts vs)) s"

definition vrt_init :: "crit_e \<Rightarrow> nat \<Rightarrow> (nat \<times> rat) list \<Rightarrow> vdi_random option" where
  "vrt_init criteria retries members = do {
     assert_c (\<forall>m \<in> set members. snd m > 0);
     Some \<lparr>ra_criteria = criteria, ra_retries = (if retries = 0 then length members else retries), ra_hosts = members\<rparr>
   }"

subsection \<open>What a director may expect of those below\<close>

text \<open>
  \<open>inv\<close> is the invariant of the state below, \<open>owner\<close> the director that a connection came from. Asking for health changes no
  answer about health, and neither does a call that yields no connection.
\<close>

text \<open>The host that the \<open>j\<close>th of \<open>k\<close> remaining rounds looks at, and the next host after \<open>j\<close> rounds.\<close>

definition rr_host :: "nat \<Rightarrow> vdi_round_robin \<Rightarrow> nat \<Rightarrow> nat" where
  "rr_host k vs j =
     (case rr_mode vs of
        m_round_robin \<Rightarrow> rr_hosts vs ! ((rr_next_host vs + j) mod length (rr_hosts vs))
      | m_fallback \<Rightarrow> rr_hosts vs ! (length (rr_hosts vs) - k + j))"

definition rr_advance :: "nat \<Rightarrow> vdi_round_robin \<Rightarrow> nat" where
  "rr_advance j vs = (case rr_mode vs of m_round_robin \<Rightarrow> (rr_next_host vs + j) mod length (rr_hosts vs) | m_fallback \<Rightarrow> rr_next_host vs)"

definition rr_ok :: "vdi_round_robin \<Rightarrow> bool" where
  "rr_ok vs \<longleftrightarrow> rr_next_host vs mod length (rr_hosts vs) = rr_next_host vs"

lemma rr_advance_0 [simp]: "rr_ok vs \<Longrightarrow> rr_advance 0 vs = rr_next_host vs"
  by (simp add: rr_advance_def rr_ok_def split: mode_e.split)

lemma rr_backend_ok:
  assumes "Suc k \<le> length (rr_hosts vs)" "rr_ok vs" "rr_backend (length (rr_hosts vs) - Suc k) vs = (h, vs1)"
  shows "rr_hosts vs1 = rr_hosts vs \<and> rr_mode vs1 = rr_mode vs \<and> rr_ok vs1 \<and> h = rr_host (Suc k) vs 0 \<and>
    (\<forall>j. rr_host k vs1 j = rr_host (Suc k) vs (Suc j)) \<and> (\<forall>j. rr_advance j vs1 = rr_advance (Suc j) vs) \<and> rr_next_host vs1 = rr_advance 1 vs"
proof (cases "rr_mode vs")
  case m_round_robin
  have "\<And>j. (Suc (rr_next_host vs) mod length (rr_hosts vs) + j) mod length (rr_hosts vs) = (rr_next_host vs + Suc j) mod length (rr_hosts vs)"
    by (simp add: mod_add_left_eq)
  then show ?thesis using assms m_round_robin by (auto simp: rr_backend_def rr_host_def rr_advance_def rr_ok_def)
next
  case m_fallback
  have "\<And>j. length (rr_hosts vs) - k + j = length (rr_hosts vs) - Suc k + Suc j" using assms(1) by simp
  then show ?thesis using assms m_fallback by (auto simp: rr_backend_def rr_host_def rr_advance_def rr_ok_def)
qed

locale director =
  fixes healthy :: "nat \<Rightarrow> 's \<Rightarrow> bool \<times> 's"
    and getfd :: "nat \<Rightarrow> 's \<Rightarrow> ('c option \<times> 's) option"
    and inv :: "'s \<Rightarrow> bool"
    and owner :: "'c \<Rightarrow> nat"
  assumes healthy_inv: "inv s \<Longrightarrow> inv (snd (healthy i s))"
    and healthy_stable: "inv s \<Longrightarrow> fst (healthy j (snd (healthy i s))) = fst (healthy j s)"
    and getfd_runs: "inv s \<Longrightarrow> \<exists>r s'. getfd i s = Some (r, s') \<and> inv s' \<and> (case r of Some c \<Rightarrow> owner c = i | None \<Rightarrow> True)"
    and getfd_health: "inv s \<Longrightarrow> getfd i s = Some (None, s') \<Longrightarrow> fst (healthy j s') = fst (healthy j s)"
begin

definition refused :: "nat \<Rightarrow> 's \<Rightarrow> bool" where
  "refused i s \<longleftrightarrow> \<not> fst (healthy i s) \<or> (\<exists>s0 s1. inv s0 \<and> getfd i s0 = Some (None, s1))"

lemma any_healthy_iff:
  assumes "inv s"
  shows "fst (any_healthy healthy hs s) \<longleftrightarrow> (\<exists>h \<in> set hs. fst (healthy h s))"
  using assms
proof (induction hs arbitrary: s)
  case (Cons h hs)
  then show ?case using healthy_inv [OF Cons.prems, of h] healthy_stable [OF Cons.prems, of _ h]
    by (cases "healthy h s") auto
qed simp

lemma refused_cong: "(\<And>j. fst (healthy j s') = fst (healthy j s)) \<Longrightarrow> refused i s' = refused i s"
  by (simp add: refused_def)

lemma rr_loop_ok:
  assumes "inv s" "k \<le> length (rr_hosts vs)" "rr_ok vs"
  shows "\<exists>r vs' s'. rr_loop healthy getfd k vs s = Some (r, vs', s') \<and> inv s' \<and> rr_hosts vs' = rr_hosts vs \<and> rr_mode vs' = rr_mode vs \<and> rr_ok vs' \<and>
    (case r of
       Some c \<Rightarrow> \<exists>j < k. owner c = rr_host k vs j \<and> fst (healthy (rr_host k vs j) s) \<and> (\<forall>i < j. refused (rr_host k vs i) s) \<and> rr_next_host vs' = rr_advance (Suc j) vs
     | None \<Rightarrow> (\<forall>i < k. refused (rr_host k vs i) s) \<and> rr_next_host vs' = rr_advance k vs)"
  using assms
proof (induction k arbitrary: vs s)
  case 0
  then show ?case by simp
next
  case (Suc k)
  obtain h vs1 where b: "rr_backend (length (rr_hosts vs) - Suc k) vs = (h, vs1)" by force
  have v: "rr_hosts vs1 = rr_hosts vs" "rr_mode vs1 = rr_mode vs" "rr_ok vs1" "h = rr_host (Suc k) vs 0"
    "\<And>j. rr_host k vs1 j = rr_host (Suc k) vs (Suc j)" "\<And>j. rr_advance j vs1 = rr_advance (Suc j) vs" "rr_next_host vs1 = rr_advance (Suc 0) vs"
    using rr_backend_ok [OF Suc.prems(2,3) b] by simp_all
  obtain ok s1 where h: "healthy h s = (ok, s1)" by force
  have s1: "inv s1" "\<And>j. fst (healthy j s1) = fst (healthy j s)" using healthy_inv [OF Suc.prems(1), of h] healthy_stable [OF Suc.prems(1), of _ h] h by simp_all
  show ?case
  proof (cases "ok \<and> (\<exists>c s2. getfd h s1 = Some (Some c, s2))")
    case True
    then obtain c s2 where g: "getfd h s1 = Some (Some c, s2)" by blast
    then have "inv s2" "owner c = h" using getfd_runs [OF s1(1), of h] by auto
    then show ?thesis using True g b h v by (auto simp: Let_def rr_advance_0 intro!: exI [of _ 0])
  next
    case False
    obtain s2 where c: "rr_loop healthy getfd (Suc k) vs s = rr_loop healthy getfd k vs1 s2" "inv s2" "\<And>j. fst (healthy j s2) = fst (healthy j s)" "refused h s"
    proof (cases ok)
      case False
      then show ?thesis using that [of s1] b h s1 by (simp add: refused_def)
    next
      case True
      then obtain s2 where g: "getfd h s1 = Some (None, s2)" "inv s2" using False getfd_runs [OF s1(1), of h] by (metis option.exhaust)
      then show ?thesis using that [of s2] True b h s1 getfd_health [OF s1(1) g(1)] by (auto simp: refused_def)
    qed
    have k: "k \<le> length (rr_hosts vs1)" using Suc.prems(2) v(1) by simp
    obtain r vs' s' where l: "rr_loop healthy getfd k vs1 s2 = Some (r, vs', s')" "inv s'" "rr_hosts vs' = rr_hosts vs1" "rr_mode vs' = rr_mode vs1" "rr_ok vs'"
      and r: "case r of
       Some c \<Rightarrow> \<exists>j < k. owner c = rr_host k vs1 j \<and> fst (healthy (rr_host k vs1 j) s2) \<and> (\<forall>i < j. refused (rr_host k vs1 i) s2) \<and> rr_next_host vs' = rr_advance (Suc j) vs1
     | None \<Rightarrow> (\<forall>i < k. refused (rr_host k vs1 i) s2) \<and> rr_next_host vs' = rr_advance k vs1"
      using Suc.IH [OF c(2) k v(3)] by blast
    have ref: "\<And>i. refused i s2 = refused i s" by (rule refused_cong) (rule c(3))
    show ?thesis
    proof (cases r)
      case None
      have "\<forall>i < Suc k. refused (rr_host (Suc k) vs i) s" using r None c(4) v(4,5) ref by (auto simp: less_Suc_eq_0_disj)
      then show ?thesis using None l r v(1,2,6) c(1) by simp
    next
      case (Some x)
      then obtain j where j: "j < k" "owner x = rr_host (Suc k) vs (Suc j)" "fst (healthy (rr_host (Suc k) vs (Suc j)) s)"
        "\<forall>i < j. refused (rr_host (Suc k) vs (Suc i)) s" "rr_next_host vs' = rr_advance (Suc (Suc j)) vs"
        using r v(5,6) c(3) ref by auto
      have "\<forall>i < Suc j. refused (rr_host (Suc k) vs i) s" using j(4) c(4) v(4) by (auto simp: less_Suc_eq_0_disj)
      then show ?thesis using Some l v(1,2) c(1) j by (auto intro!: exI [of _ "Suc j"])
    qed
  qed
qed

text \<open>Random: a host is chosen by its share among the weights of the healthy ones.\<close>

lemma ra_weights_ok:
  assumes "inv s"
  shows "\<exists>s'. ra_weights healthy hosts s = (map (\<lambda>(h, w). if fst (healthy h s) then w else 0) hosts, s') \<and> inv s' \<and> (\<forall>j. fst (healthy j s') = fst (healthy j s))"
  using assms
proof (induction hosts arbitrary: s)
  case (Cons hw hosts)
  obtain h w where hw: "hw = (h, w)" by force
  obtain ok s1 where h: "healthy h s = (ok, s1)" by force
  have s1: "inv s1" "\<And>j. fst (healthy j s1) = fst (healthy j s)" using healthy_inv [OF Cons.prems, of h] healthy_stable [OF Cons.prems, of _ h] h by simp_all
  show ?case using Cons.IH [OF s1(1)] s1(2) hw h by auto
qed simp

lemma ra_choose_ok:
  assumes "list_all (\<lambda>w. 0 \<le> w) ws" "length hs = length ws" "s1 \<le> r" "r < s1 + sum_list ws"
  shows "\<exists>i < length ws. ra_choose r s1 hs ws = Some (hs ! i) \<and> s1 + sum_list (take i ws) \<le> r \<and> r < s1 + sum_list (take (Suc i) ws) \<and> 0 < ws ! i"
  using assms
proof (induction ws arbitrary: s1 hs)
  case (Cons w ws)
  obtain h hs' where hs: "hs = h # hs'" "length hs' = length ws" using Cons.prems(2) by (cases hs) auto
  show ?case
  proof (cases "r < s1 + w")
    case True
    then show ?thesis using hs Cons.prems(3) by (intro exI [of _ 0]) auto
  next
    case False
    obtain i where "i < length ws" "ra_choose r (s1 + w) hs' ws = Some (hs' ! i)" "s1 + w + sum_list (take i ws) \<le> r"
      "r < s1 + w + sum_list (take (Suc i) ws)" "0 < ws ! i"
      using Cons.IH [of hs' "s1 + w"] Cons.prems hs False by (auto simp: add.assoc)
    then show ?thesis using hs False by (intro exI [of _ "Suc i"]) (auto simp: add.assoc)
  qed
qed simp

lemma vdi_random_pick_one_ok:
  assumes "inv s" "0 \<le> r" "r < 1" "\<forall>m \<in> set (ra_hosts vs). snd m > 0"
  shows "\<exists>x s'. vdi_random_pick_one healthy getfd vs r s = Some (x, s') \<and> inv s' \<and>
    (let w = map (\<lambda>(h, w). if fst (healthy h s) then w else 0) (ra_hosts vs) in
     if \<forall>m \<in> set (ra_hosts vs). \<not> fst (healthy (fst m) s) then x = None
     else \<exists>i < length (ra_hosts vs). fst (healthy (fst (ra_hosts vs ! i)) s) \<and>
       sum_list (take i w) \<le> r * sum_list w \<and> r * sum_list w < sum_list (take (Suc i) w) \<and>
       (\<exists>s1. inv s1 \<and> (\<forall>j. fst (healthy j s1) = fst (healthy j s)) \<and> getfd (fst (ra_hosts vs ! i)) s1 = Some (x, s'))) \<and>
    (x = None \<longrightarrow> (\<forall>j. fst (healthy j s') = fst (healthy j s)))"
proof -
  define w where "w = map (\<lambda>(h, w). if fst (healthy h s) then w else 0) (ra_hosts vs)"
  obtain s1 where s1: "ra_weights healthy (ra_hosts vs) s = (w, s1)" "inv s1" "\<forall>j. fst (healthy j s1) = fst (healthy j s)" using ra_weights_ok [OF assms(1), of "ra_hosts vs"] unfolding w_def by blast
  have pos: "list_all (\<lambda>w. 0 \<le> w) w" using assms(4) by (auto simp: list_all_iff w_def)
  have zero: "sum_list w = 0 \<longleftrightarrow> (\<forall>m \<in> set (ra_hosts vs). \<not> fst (healthy (fst m) s))"
  proof -
    have "sum_list w = 0 \<longleftrightarrow> (\<forall>x \<in> set w. x = 0)" using pos by (subst sum_list_nonneg_eq_0_iff) (auto simp: list_all_iff)
    also have "\<dots> \<longleftrightarrow> (\<forall>m \<in> set (ra_hosts vs). \<not> fst (healthy (fst m) s))" using assms(4) by (fastforce simp: w_def)
    finally show ?thesis .
  qed
  show ?thesis
  proof (cases "sum_list w = 0")
    case True
    then have "vdi_random_pick_one healthy getfd vs r s = Some (None, s1)" using s1 assms(2,3) by (simp add: vdi_random_pick_one_def)
    then show ?thesis using s1(2,3) True zero by (auto simp: Let_def)
  next
    case False
    have "0 \<le> sum_list w" using pos by (intro sum_list_nonneg) (auto simp: list_all_iff)
    then have r: "0 \<le> r * sum_list w" "r * sum_list w < sum_list w" using False assms(2,3) by (auto simp: mult_less_cancel_right2)
    have "length (map fst (ra_hosts vs)) = length w" by (simp add: w_def)
    from ra_choose_ok [OF pos this r(1)] r(2) obtain i where i: "i < length w" "ra_choose (r * sum_list w) 0 (map fst (ra_hosts vs)) w = Some (map fst (ra_hosts vs) ! i)"
      "sum_list (take i w) \<le> r * sum_list w" "r * sum_list w < sum_list (take (Suc i) w)" "0 < w ! i" by auto
    have il: "i < length (ra_hosts vs)" using i(1) by (simp add: w_def)
    have h: "fst (healthy (fst (ra_hosts vs ! i)) s)" using i(5) il by (auto simp: w_def split: prod.splits if_splits)
    obtain x s' where g: "getfd (fst (ra_hosts vs ! i)) s1 = Some (x, s')" "inv s'" using getfd_runs [OF s1(2)] by blast
    have "vdi_random_pick_one healthy getfd vs r s = Some (x, s')" using s1(1) False assms(2,3) i(2) il g(1) by (simp add: vdi_random_pick_one_def)
    moreover have "\<not> (\<forall>m \<in> set (ra_hosts vs). \<not> fst (healthy (fst m) s))" using zero False by blast
    moreover have "x = None \<longrightarrow> (\<forall>j. fst (healthy j s') = fst (healthy j s))" using getfd_health [OF s1(2)] g(1) s1(3) by auto
    ultimately show ?thesis unfolding w_def [symmetric] Let_def using g s1(2,3) i(3,4) il h by auto
  qed
qed

lemma ra_loop_ok:
  assumes "inv s" "0 \<le> r" "r < 1" "\<And>x. 0 \<le> rehash x \<and> rehash x < 1" "\<forall>m \<in> set (ra_hosts vs). snd m > 0"
  shows "\<exists>x s'. ra_loop healthy getfd rehash k vs r s = Some (x, s') \<and> inv s' \<and>
    (case x of Some c \<Rightarrow> owner c \<in> fst ` set (ra_hosts vs) \<and> fst (healthy (owner c) s) | None \<Rightarrow> True)"
  using assms(1-3)
proof (induction k arbitrary: r s)
  case (Suc k)
  obtain x s1 where p: "vdi_random_pick_one healthy getfd vs r s = Some (x, s1)" "inv s1"
    and c: "let w = map (\<lambda>(h, w). if fst (healthy h s) then w else 0) (ra_hosts vs) in
     if \<forall>m \<in> set (ra_hosts vs). \<not> fst (healthy (fst m) s) then x = None
     else \<exists>i < length (ra_hosts vs). fst (healthy (fst (ra_hosts vs ! i)) s) \<and>
       sum_list (take i w) \<le> r * sum_list w \<and> r * sum_list w < sum_list (take (Suc i) w) \<and>
       (\<exists>s1'. inv s1' \<and> (\<forall>j. fst (healthy j s1') = fst (healthy j s)) \<and> getfd (fst (ra_hosts vs ! i)) s1' = Some (x, s1))"
    and n: "x = None \<longrightarrow> (\<forall>j. fst (healthy j s1) = fst (healthy j s))"
    using vdi_random_pick_one_ok [OF Suc.prems assms(5)] by blast
  show ?case
  proof (cases x)
    case None
    then have same: "\<And>j. fst (healthy j s1) = fst (healthy j s)" using n by simp
    have re: "0 \<le> rehash r" "rehash r < 1" using assms(4) by simp_all
    show ?thesis using Suc.IH [OF p(2) re] p(1) None unfolding same by simp
  next
    case (Some y)
    then obtain i s0 where i: "i < length (ra_hosts vs)" "fst (healthy (fst (ra_hosts vs ! i)) s)" "inv s0" "getfd (fst (ra_hosts vs ! i)) s0 = Some (Some y, s1)"
      using c by (auto simp: Let_def split: if_splits)
    then have "owner y = fst (ra_hosts vs ! i)" using getfd_runs [OF i(3), of "fst (ra_hosts vs ! i)"] by auto
    then show ?thesis using Some p i(1,2) by auto
  qed
qed simp

end

subsection \<open>The simple director on the connection pool\<close>

text \<open>
  Every host has a backend with its busy connections; the session's clock and object head, what the sockets answer and
  the limits of the VCL program are part of the state, and are the same for all calls for one request. A connection is its
  host and its key there.
\<close>

record world =
  wo_pool :: "nat \<Rightarrow> nat list \<times> backend"
  wo_vcls :: "nat \<Rightarrow> nat"
  wo_vrt :: "nat \<Rightarrow> vrt_backend"
  wo_env :: "nat \<Rightarrow> conn_env"
  wo_good :: "nat \<Rightarrow> nat \<Rightarrow> bool"
  wo_param :: nat
  wo_now :: rat
  wo_target :: "nat option"

definition vdi_simple_healthy :: "nat \<Rightarrow> world \<Rightarrow> bool \<times> world" where
  "vdi_simple_healthy d s =
     (let (busy, b) = wo_pool s d; (h, b) = vbe_Healthy (wo_param s) (wo_vrt s d) (wo_now s) (wo_target s) b in
      (h, s\<lparr>wo_pool := (wo_pool s)(d := (busy, b))\<rparr>))"

definition vdi_simple_getfd :: "nat \<Rightarrow> world \<Rightarrow> ((nat \<times> nat) option \<times> world) option" where
  "vdi_simple_getfd d s = do {
     let (busy, b) = wo_pool s d;
     (r, b) \<leftarrow> vbe_GetVbe (wo_param s) (wo_vrt s d) (wo_now s) (wo_target s) (wo_good s d) (wo_env s d) (fresh_key busy b) b;
     Some (map_option (\<lambda>c. (d, c)) r, s\<lparr>wo_pool := (wo_pool s)(d := ((case r of None \<Rightarrow> busy | Some c \<Rightarrow> c # busy), b))\<rparr>)
   }"

definition world_ok :: "world \<Rightarrow> bool" where
  "world_ok s \<longleftrightarrow> (\<forall>d. pool_ok (wo_vcls s d) (fst (wo_pool s d)) (snd (wo_pool s d)) \<and> 0 < wo_vcls s d \<and> conn_env_ok (wo_env s d))"

lemma vdi_simple_healthy_eq:
  assumes "world_ok s"
  shows "fst (vdi_simple_healthy d s) \<longleftrightarrow> be_healthy (snd (wo_pool s d)) \<and> (saint_threshold (wo_param s) (wo_vrt s d) = 0 \<or> wo_target s = None \<or>
    wo_target s \<notin> Some ` tr_target ` set (in_trouble (wo_now s) (snd (wo_pool s d))) \<and> length (in_trouble (wo_now s) (snd (wo_pool s d))) < saint_threshold (wo_param s) (wo_vrt s d))"
proof -
  obtain h b' where h: "vbe_Healthy (wo_param s) (wo_vrt s d) (wo_now s) (wo_target s) (snd (wo_pool s d)) = (h, b')" by force
  have "pool_ok (wo_vcls s d) (fst (wo_pool s d)) (snd (wo_pool s d))" using assms by (simp add: world_ok_def)
  from vbe_Healthy_ok [OF this h] show ?thesis using h by (simp add: vdi_simple_healthy_def case_prod_beta)
qed

text \<open>What is the same before and after a call, as far as health goes.\<close>

definition same_health :: "world \<Rightarrow> world \<Rightarrow> bool" where
  "same_health s s' \<longleftrightarrow> wo_param s' = wo_param s \<and> wo_vrt s' = wo_vrt s \<and> wo_now s' = wo_now s \<and> wo_target s' = wo_target s \<and>
     (\<forall>d. be_healthy (snd (wo_pool s' d)) = be_healthy (snd (wo_pool s d)) \<and> in_trouble (wo_now s) (snd (wo_pool s' d)) = in_trouble (wo_now s) (snd (wo_pool s d)))"

lemma same_health_eq: "world_ok s \<Longrightarrow> world_ok s' \<Longrightarrow> same_health s s' \<Longrightarrow> fst (vdi_simple_healthy d s') = fst (vdi_simple_healthy d s)"
  by (simp add: vdi_simple_healthy_eq same_health_def)

lemma vdi_simple_healthy_ok:
  assumes "world_ok s"
  shows "world_ok (snd (vdi_simple_healthy d s)) \<and> same_health s (snd (vdi_simple_healthy d s))"
proof -
  obtain h b' where h: "vbe_Healthy (wo_param s) (wo_vrt s d) (wo_now s) (wo_target s) (snd (wo_pool s d)) = (h, b')" by force
  have "pool_ok (wo_vcls s d) (fst (wo_pool s d)) (snd (wo_pool s d))" using assms by (simp add: world_ok_def)
  from vbe_Healthy_ok [OF this h] have b': "pool_ok (wo_vcls s d) (fst (wo_pool s d)) b'" "in_trouble (wo_now s) b' = in_trouble (wo_now s) (snd (wo_pool s d))"
    "be_healthy b' = be_healthy (snd (wo_pool s d))" by auto
  have "snd (vdi_simple_healthy d s) = s\<lparr>wo_pool := (wo_pool s)(d := (fst (wo_pool s d), b'))\<rparr>" using h by (simp add: vdi_simple_healthy_def case_prod_beta)
  then show ?thesis using assms b' by (simp add: world_ok_def same_health_def)
qed

lemma vdi_simple_getfd_ok:
  assumes "world_ok s"
  shows "\<exists>r s'. vdi_simple_getfd d s = Some (r, s') \<and> world_ok s' \<and> same_health s s' \<and> (case r of Some c \<Rightarrow> fst c = d | None \<Rightarrow> True)"
proof -
  obtain busy b where p: "wo_pool s d = (busy, b)" by force
  have ok: "pool_ok (wo_vcls s d) busy b" "0 < wo_vcls s d" "conn_env_ok (wo_env s d)" using assms p unfolding world_ok_def by (metis fst_conv snd_conv)+
  obtain r b' where g: "vbe_GetVbe (wo_param s) (wo_vrt s d) (wo_now s) (wo_target s) (wo_good s d) (wo_env s d) (fresh_key busy b) b = Some (r, b')"
    "case r of None \<Rightarrow> pool_ok (wo_vcls s d) busy b' | Some i \<Rightarrow> pool_ok (wo_vcls s d) (i # busy) b' \<and> i \<notin> set busy"
    "be_healthy b' = be_healthy b" "in_trouble (wo_now s) b' = in_trouble (wo_now s) b"
    using vbe_GetVbe_ok [OF ok fresh_key_new [OF ok(1)]] by blast
  let ?s = "s\<lparr>wo_pool := (wo_pool s)(d := ((case r of None \<Rightarrow> busy | Some c \<Rightarrow> c # busy), b'))\<rparr>"
  have "vdi_simple_getfd d s = Some (map_option (\<lambda>c. (d, c)) r, ?s)" using p g(1) by (simp add: vdi_simple_getfd_def)
  moreover have "world_ok ?s" using assms g(2) by (auto simp: world_ok_def split: option.splits)
  moreover have "same_health s ?s" using g(3,4) p by (simp add: same_health_def)
  ultimately show ?thesis by (intro exI conjI) (assumption, assumption, assumption, simp split: option.split)
qed

interpretation simple: director vdi_simple_healthy vdi_simple_getfd world_ok fst
proof
  fix s d j assume s: "world_ok s"
  show "world_ok (snd (vdi_simple_healthy d s))" using vdi_simple_healthy_ok [OF s] by blast
  show "fst (vdi_simple_healthy j (snd (vdi_simple_healthy d s))) = fst (vdi_simple_healthy j s)"
    using vdi_simple_healthy_ok [OF s, of d] same_health_eq [OF s] by blast
  show "\<exists>r s'. vdi_simple_getfd d s = Some (r, s') \<and> world_ok s' \<and> (case r of Some c \<Rightarrow> fst c = d | None \<Rightarrow> True)"
    using vdi_simple_getfd_ok [OF s, of d] by blast
  show "fst (vdi_simple_healthy j s') = fst (vdi_simple_healthy j s)" if "vdi_simple_getfd d s = Some (None, s')" for s'
    using vdi_simple_getfd_ok [OF s, of d] that same_health_eq [OF s] by force
qed

text \<open>
  Round robin over simple directors: a call tries the hosts in turn from the next one on, each at most once, passes over
  only those that are not healthy for the object or that gave no connection when asked, and the next call begins behind
  the host that served.
\<close>

lemma vdi_round_robin_getfd_turn:
  assumes "world_ok s" "rr_ok vs" "rr_mode vs = m_round_robin" and "n = length (rr_hosts vs)"
  shows "\<exists>r vs' s'. vdi_round_robin_getfd vdi_simple_healthy vdi_simple_getfd vs s = Some (r, vs', s') \<and> world_ok s' \<and> rr_ok vs' \<and>
    (case r of
       Some c \<Rightarrow> \<exists>j < n. fst c = rr_hosts vs ! ((rr_next_host vs + j) mod n) \<and> fst (vdi_simple_healthy (fst c) s) \<and>
         (\<forall>i < j. simple.refused (rr_hosts vs ! ((rr_next_host vs + i) mod n)) s) \<and> rr_next_host vs' = (rr_next_host vs + Suc j) mod n
     | None \<Rightarrow> (\<forall>i < n. simple.refused (rr_hosts vs ! ((rr_next_host vs + i) mod n)) s) \<and> rr_next_host vs' = rr_next_host vs)"
proof -
  have "(rr_next_host vs + n) mod n = rr_next_host vs" using assms(2,4) by (simp add: rr_ok_def)
  then show ?thesis
    using simple.rr_loop_ok [OF assms(1) le_refl assms(2)] assms(3,4)
    unfolding vdi_round_robin_getfd_def rr_host_def rr_advance_def by (fastforce split: option.splits)
qed

text \<open>Fallback: the first host in the order of the program that is healthy and gives a connection.\<close>

lemma vdi_fallback_getfd_first:
  assumes "world_ok s" "rr_ok vs" "rr_mode vs = m_fallback" and "n = length (rr_hosts vs)"
  shows "\<exists>r vs' s'. vdi_round_robin_getfd vdi_simple_healthy vdi_simple_getfd vs s = Some (r, vs', s') \<and> world_ok s' \<and>
    (case r of
       Some c \<Rightarrow> \<exists>j < n. fst c = rr_hosts vs ! j \<and> fst (vdi_simple_healthy (fst c) s) \<and> (\<forall>i < j. simple.refused (rr_hosts vs ! i) s)
     | None \<Rightarrow> \<forall>i < n. simple.refused (rr_hosts vs ! i) s)"
  using simple.rr_loop_ok [OF assms(1) le_refl assms(2)] assms(3,4)
  unfolding vdi_round_robin_getfd_def rr_host_def by (fastforce split: option.splits)

text \<open>Both are healthy exactly if one of their hosts is.\<close>

lemma vdi_round_robin_healthy_iff:
  "world_ok s \<Longrightarrow> fst (vdi_round_robin_healthy vdi_simple_healthy vs s) \<longleftrightarrow> (\<exists>h \<in> set (rr_hosts vs). fst (vdi_simple_healthy h s))"
  unfolding vdi_round_robin_healthy_def by (rule simple.any_healthy_iff)

lemma vdi_random_healthy_iff:
  "world_ok s \<Longrightarrow> fst (vdi_random_healthy vdi_simple_healthy vs s) \<longleftrightarrow> (\<exists>h \<in> fst ` set (ra_hosts vs). fst (vdi_simple_healthy h s))"
  unfolding vdi_random_healthy_def using simple.any_healthy_iff [of s "map fst (ra_hosts vs)"] by simp

text \<open>Random: every seed is a number from 0 up to 1, and a connection comes from one of the hosts that are healthy.\<close>

lemma vle32dec_bound: "list_all (\<lambda>b. b < 256) l \<Longrightarrow> vle32dec l < 2 ^ 32"
  by (induction l rule: vle32dec.induct) auto

lemma vdi_random_init_seed_bound:
  assumes "\<And>x. list_all (\<lambda>b. b < 256) (sha x)" "list_all (\<lambda>b. b < 256) digest" "rnd < 2 ^ 31"
  shows "0 \<le> vdi_random_init_seed sha rnd ident addr digest vs \<and> vdi_random_init_seed sha rnd ident addr digest vs < 1"
proof -
  have *: "0 \<le> (of_nat n / 2 ^ k :: rat) \<and> (of_nat n / 2 ^ k :: rat) < 1" if "n < 2 ^ k" for n k
  proof -
    have "(of_nat n :: rat) < of_nat (2 ^ k)" using that by (simp only: of_nat_less_iff)
    then show ?thesis by simp
  qed
  show ?thesis unfolding vdi_random_init_seed_def vdi_random_sha_def
    using * [OF vle32dec_bound [OF assms(1)]] * [OF vle32dec_bound [OF assms(2)]] * [OF assms(3)] by (auto split: crit_e.split)
qed

lemma vdi_random_getfd_healthy:
  assumes "world_ok s" "\<And>x. list_all (\<lambda>b. b < 256) (sha x)" "list_all (\<lambda>b. b < 256) digest" "rnd < 2 ^ 31" "\<And>x. 0 \<le> rehash x \<and> rehash x < 1"
    and "vrt_init criteria retries members = Some vs"
  shows "\<exists>x s'. vdi_random_getfd vdi_simple_healthy vdi_simple_getfd sha rehash rnd ident addr digest vs s = Some (x, s') \<and> world_ok s' \<and>
    (case x of Some c \<Rightarrow> fst c \<in> fst ` set members \<and> fst (vdi_simple_healthy (fst c) s) | None \<Rightarrow> True)"
proof -
  have m: "ra_hosts vs = members" "\<forall>m \<in> set (ra_hosts vs). snd m > 0" using assms(6) by (auto simp: vrt_init_def bind_eq_Some_conv)
  have seed: "0 \<le> vdi_random_init_seed sha rnd ident addr digest vs" "vdi_random_init_seed sha rnd ident addr digest vs < 1"
    using vdi_random_init_seed_bound [of sha digest rnd ident addr vs] assms(2-4) by blast+
  show ?thesis using simple.ra_loop_ok [OF assms(1) seed, of rehash vs "ra_retries vs"] assms(5) m(2) unfolding vdi_random_getfd_def m(1) by blast
qed

end
