(* ===== verification/Spec2Isabelle.thy ===== *)
theory Spec2Isabelle
  imports Workspace Hash_Implementations Binary_Heap Http_Conn Object_Life Storage_Smf Storage_Malloc Rfc2616 Request_Machine Directors
begin

text \<open>
  A verification of the cache process of Varnish 3.0.2 (\<^verbatim>\<open>src/varnish-3.0.2/\<close>).

  \<^bold>\<open>The program.\<close> Varnish is an HTTP cache. A worker thread receives a request into a session workspace,
  dissects it into a table of header lines, hashes the parts that identify the object into a digest and looks the
  digest up. Under the object head of the digest hang the object cores of the objects that were fetched for it; the
  lookup picks one that has not expired, has not been banned and whose \<^verbatim>\<open>Vary:\<close> string agrees with the
  request, or makes a busy object core to be filled by a fetch while other sessions for it wait. Objects leave the
  cache when their timer fires, when the LRU needs the room, or when a purge or ban hits them, and are freed with
  their last reference.

  \<^bold>\<open>Modelling.\<close> Each theory translates a source file, function by function, with the names of the source.
  A C structure is a \<^verbatim>\<open>record\<close>, a pointer an index into a store of such records or, where the code
  computes with addresses, a 64 bit word; unsigned integers are words of their width. A function that can fail an
  assertion or touch freed memory returns an \<open>option\<close>, and \<open>None\<close> is that panic. What the environment
  decides (an address that an allocator returns, a clock reading, whether a lock is free, the verdict of the thread
  pool, the bytes a socket yields) is an argument of the operation. Each operation is one step, so interleavings are those of whole
  operations, also where the code gives a lock up and takes it again (\<open>BAN_Insert\<close>, \<open>BAN_CheckObject\<close>, \<open>vbe_GetVbe\<close>). Times are rational numbers. The regular expression library is a pair of
  parameters, \<open>pcre_compile\<close> and \<open>pcre_exec\<close>.

  \<^bold>\<open>The theories.\<close>
  \<^item> \<^verbatim>\<open>Varnish_Prelude\<close>: assertions as \<open>option\<close> values, memory, words read as numbers; the collections
    \<^verbatim>\<open>panic_simps\<close> and \<^verbatim>\<open>word_nat\<close>.
  \<^item> \<^verbatim>\<open>Workspace\<close> (\<^verbatim>\<open>cache_ws.c\<close>): the bump allocator of sessions, workers and objects. Allocations are
    disjoint and inside the buffer, reservations keep what is released, a snapshot gives back what came after; the
    contract of a bump allocator is the locale \<open>bump_allocator\<close>. Requests of more than \<open>2 ^ 32 - 8\<close> bytes wrap.
  \<^item> \<^verbatim>\<open>Hash_Slinger\<close> (\<^verbatim>\<open>hash_slinger.h\<close>): object heads and, as the locale \<open>hash_slinger\<close>, what
    \<^verbatim>\<open>cache_hash.c\<close> relies on from a hash implementation, with the map from digests to heads and reference
    counts as its specification. \<^verbatim>\<open>Hash_Lists\<close> (\<^verbatim>\<open>hash_simple_list.c\<close>, \<^verbatim>\<open>hash_classic.c\<close>) and
    \<^verbatim>\<open>Hash_Critbit\<close> (\<^verbatim>\<open>hash_critbit.c\<close>, with the lockless readers' cool-off lists and the cleaner
    thread) interpret it; \<^verbatim>\<open>Hash_Implementations\<close> shows that the three answer alike.
  \<^item> \<^verbatim>\<open>Heap_Index\<close>, \<^verbatim>\<open>Binary_Heap\<close> (\<^verbatim>\<open>lib/libvarnish/binary_heap.c\<close>): the index functions that keep a
    heap's path on few pages and the heap built on them; the locales \<open>heap_shape\<close> and \<open>heap_laws\<close> are interpreted
    for the page aware functions and for the plain ones. Insertion needs fewer than \<open>HEAP_MAX\<close> elements.
  \<^item> \<^verbatim>\<open>Chars\<close> (\<^verbatim>\<open>vct.c\<close>, \<^verbatim>\<open>vend.h\<close>), \<^verbatim>\<open>Http\<close>, \<^verbatim>\<open>Http_Parse\<close>
    (\<^verbatim>\<open>cache_http.c\<close>), \<^verbatim>\<open>Http_Conn\<close> (\<^verbatim>\<open>cache_httpconn.c\<close>): header tables with look-up, removal,
    filtering and printing; the parser of requests and responses, which never leaves its buffer and accepts what the
    printer writes; the receiver with pipelining, on its memory with the NUL behind the received bytes, for reservations
    of at most 2 GB. Header names have at most 126 characters, the bound the code asserts.
  \<^item> \<^verbatim>\<open>Http_Time\<close> (\<^verbatim>\<open>lib/libvarnish/time.c\<close>), \<^verbatim>\<open>Rfc2616\<close> (\<^verbatim>\<open>rfc2616.c\<close>): dates, printed and
    read back, and the decisions on freshness, on the body of a response, on gzip and on conditional requests, each
    against what the headers say. Of the C library they have the calendar, \<open>strftime\<close>, \<open>strptime\<close> and \<open>strtoul\<close>.
  \<^item> \<^verbatim>\<open>Ban_Spec\<close>, \<^verbatim>\<open>Ban_List\<close> (\<^verbatim>\<open>cache_ban.c\<close>): bans as byte strings and what they
    mean; the list of bans with the references of objects, for every sequence of operations from the start. A ban's
    bytes stay below \<open>2 ^ 32\<close>, the field of its length.
  \<^item> \<^verbatim>\<open>Objects\<close> (\<^verbatim>\<open>cache.h\<close>, the default methods of \<^verbatim>\<open>stevedore.c\<close>), \<^verbatim>\<open>Expire\<close>
    (\<^verbatim>\<open>cache_expire.c\<close>): objects, object cores, timers on the heap, LRU lists.
  \<^item> \<^verbatim>\<open>Vary\<close> (\<^verbatim>\<open>cache_vary.c\<close>): making and matching vary strings; values are shorter than 65535 bytes, the
    length that codes an absent header.
  \<^item> \<^verbatim>\<open>Object_Hash\<close> (\<^verbatim>\<open>cache_hash.c\<close>): the operations that join the parts above.
    \<^verbatim>\<open>Object_Refs\<close> has the invariant of the whole cache, with every reference to an object core or head accounted
    for, and that a lookup and a release keep it, for every hash implementation; \<^verbatim>\<open>Object_Life\<close> adds the making
    of an object, the expiry thread and the LRU and states the results for the critical bit tree, the default.
  \<^item> \<^verbatim>\<open>Storage\<close> (\<^verbatim>\<open>stevedore.h\<close>): the contract of a storage device as the locale
    \<open>storage_device\<close>: what is handed out is in no other storage in use, and every legal sequence of calls runs.
    \<^verbatim>\<open>Storage_File\<close> has the free lists and the joining and splitting of ranges of \<^verbatim>\<open>storage_file.c\<close>,
    \<^verbatim>\<open>Storage_Smf\<close> its methods and the mapping of the file, \<^verbatim>\<open>Storage_Malloc\<close> the device of
    \<^verbatim>\<open>storage_malloc.c\<close> with its limit; both interpret the locale. Page sizes are powers of two and sizes stay
    below \<open>2 ^ 32\<close> less a page; lemmas show what happens outside of this.
  \<^item> \<^verbatim>\<open>Request_Machine\<close> (\<^verbatim>\<open>cache_center.c\<close>): the state engine, a function for each step and the
    dispatcher, over the fields of session, worker, object and object core that the steps test. Each step has the state it
    wants as an invariant; every step in a world the engine has code for keeps it without a panic, a worker that is done is
    clean, and the graph of the steps with the limit on restarts bounds the rounds of a request. The worlds are those of
    \<open>cnt_legal\<close>; lemmas show the panics in the others.
  \<^item> \<^verbatim>\<open>Backend_Pool\<close> (\<^verbatim>\<open>cache_backend.c\<close>, \<^verbatim>\<open>cache_backend_cfg.c\<close>, \<^verbatim>\<open>cache_dir.c\<close>): the
    connections of a backend, idle and busy, with its references, and saint mode. Sessions take turns, each call being one
    step, where the code opens a connection outside the lock. \<^verbatim>\<open>Directors\<close> (\<^verbatim>\<open>cache_dir_round_robin.c\<close>,
    \<^verbatim>\<open>cache_dir_random.c\<close>): whom the directors choose, over the locale \<open>director\<close> of what is below them, interpreted for
    the simple director on its pool.

  \<^bold>\<open>Properties across components.\<close> \<open>HSH_Lookup_critbit\<close>, \<open>HSH_Deref_critbit\<close>, \<open>fetch_makes_object\<close>,
  \<open>EXP_NukeOne_frees\<close> and \<open>exp_timer_cache\<close> in \<^verbatim>\<open>Object_Life\<close> rest on the interpretation of
  \<open>hash_slinger\<close>, the heap laws, the ban list invariant and the vary results together; a reference count stays
  below \<open>2 ^ 32 - 2\<close>.

  \<^bold>\<open>Loops.\<close> Every loop is a recursion on a list or with a measure, so all operations terminate; no fuel is used.
  The loop of the dispatcher runs over the list of the answers of the world, one for each round; \<open>request_terminates\<close>
  says how many rounds a request can take.

  \<^bold>\<open>Not modelled.\<close> The vendored \<^verbatim>\<open>libjemalloc\<close> and \<^verbatim>\<open>libvgz\<close>; the management process, the
  command line tools, \<^verbatim>\<open>varnishtest\<close>, the waiters, the acceptor and the thread pools, which are operating
  system calls; the VCL compiler and the run-time interface of compiled VCL; persistent storage; the ban lurker thread; the probes of backends and the DNS
  director.
  Log output, statistics that nothing reads back, magic numbers and the locks themselves are left out of
  the modelled files.
\<close>

end
